(* ===== verification/Prelude.thy ===== *)
theory Prelude
  imports Main "HOL-Library.Word"
begin

text \<open>
  Generic vocabulary of the development: the machine integers of the server, little-endian
  byte codecs, and the sorted vectors that the server edits with \<open>binary_search\<close>,
  \<open>insert\<close> and \<open>remove\<close>. The locale \<open>sorted_set\<close> states what a client of such a vector
  relies on, and the theory interprets it on the vector operations themselves.
\<close>

unbundle bit_operations_syntax

named_theorems codec_simps \<open>encode and decode facts of the byte codecs\<close>
named_theorems vec_simps \<open>facts about sorted vectors\<close>

section \<open>Machine integers\<close>

type_synonym u8 = "8 word"
type_synonym u16 = "16 word"
type_synonym u32 = "32 word"
type_synonym u64 = "64 word"
type_synonym bytes = "u8 list"

text \<open>Rust's \<open>saturating_add\<close>, \<open>saturating_sub\<close> and \<open>saturating_mul\<close> on unsigned integers.\<close>

definition sat_add :: "'a::len word \<Rightarrow> 'a word \<Rightarrow> 'a word" where
  "sat_add a b = (if unat a + unat b < 2 ^ LENGTH('a) then a + b else - 1)"

definition sat_sub :: "'a::len word \<Rightarrow> 'a word \<Rightarrow> 'a word" where
  "sat_sub a b = (if b \<le> a then a - b else 0)"

definition sat_mul :: "'a::len word \<Rightarrow> 'a word \<Rightarrow> 'a word" where
  "sat_mul a b = (if unat a * unat b < 2 ^ LENGTH('a) then a * b else - 1)"

lemma unat_minus_one_word_len: "unat (- 1 :: 'a::len word) = 2 ^ LENGTH('a) - 1"
  by (simp add: unsigned_minus_1_eq_mask mask_eq_exp_minus_1)

lemma unat_sat_add: "unat (sat_add a b) = min (unat a + unat b) (2 ^ LENGTH('a) - 1)"
  for a b :: "'a::len word"
  by (auto simp: sat_add_def unat_minus_one_word_len unat_word_ariths)

lemma unat_sat_sub: "unat (sat_sub a b) = unat a - unat b"
  by (auto simp: sat_sub_def unat_sub word_le_nat_alt)

lemma unat_sat_mul: "unat (sat_mul a b) = min (unat a * unat b) (2 ^ LENGTH('a) - 1)"
  for a b :: "'a::len word"
  by (auto simp: sat_mul_def unat_minus_one_word_len unat_word_ariths)

lemma unat_ucast_up:
  assumes "LENGTH('a) \<le> LENGTH('b)"
  shows "unat (ucast (x :: 'a::len word) :: 'b::len word) = unat x"
proof -
  have "unat x < 2 ^ LENGTH('b)"
    using assms by (meson less_le_trans one_le_numeral power_increasing unsigned_less)
  then show ?thesis by (simp add: unsigned_ucast_eq take_bit_nat_eq_self)
qed

lemma sat_add_eq_0_iff [simp]: "sat_add a b = 0 \<longleftrightarrow> a = 0 \<and> b = 0"
  for a b :: "'a::len word"
proof -
  have "sat_add a b = 0 \<longleftrightarrow> unat (sat_add a b) = 0" by (simp only: unsigned_eq_0_iff)
  also have "\<dots> \<longleftrightarrow> unat a + unat b = 0"
    using one_less_power [of "2 :: nat" "LENGTH('a)"] by (auto simp: unat_sat_add min_def split: if_splits)
  also have "\<dots> \<longleftrightarrow> a = 0 \<and> b = 0" by (simp add: unsigned_eq_0_iff)
  finally show ?thesis .
qed

section \<open>Little-endian integers\<close>

text \<open>\<open>to_le k n\<close> is the \<open>k\<close>-byte little-endian form of \<open>n\<close> (\<open>put_u16_le\<close>, \<open>put_u32_le\<close>,
  \<open>put_u64_le\<close>); \<open>from_le\<close> is \<open>from_le_bytes\<close> as a natural number.\<close>

primrec to_le :: "nat \<Rightarrow> nat \<Rightarrow> bytes" where
  "to_le 0 n = []"
| "to_le (Suc k) n = of_nat (n mod 256) # to_le k (n div 256)"

primrec from_le :: "bytes \<Rightarrow> nat" where
  "from_le [] = 0"
| "from_le (b # bs) = unat b + 256 * from_le bs"

lemma length_to_le [simp, codec_simps]: "length (to_le k n) = k"
  by (induction k arbitrary: n) auto

lemma unat_of_nat_byte: "unat (of_nat (n mod 256) :: u8) = n mod 256"
  by (simp add: unat_of_nat)

lemma from_le_to_le [codec_simps]: "n < 256 ^ k \<Longrightarrow> from_le (to_le k n) = n"
proof (induction k arbitrary: n)
  case (Suc k)
  then have "n div 256 < 256 ^ k"
    by (simp add: less_mult_imp_div_less mult.commute)
  with Suc.IH show ?case
    by (simp add: unat_of_nat_byte)
qed simp

lemma from_le_bound: "from_le bs < 256 ^ length bs"
proof (induction bs)
  case (Cons b bs)
  have "unat b < 256" using unsigned_less [of b] by simp
  with Cons show ?case by simp
qed simp

section \<open>Sorted vectors\<close>

text \<open>
  \<open>slice::binary_search\<close> on a sorted vector without duplicates: \<open>Inr i\<close> is \<open>Ok(i)\<close>, the
  position of the element; \<open>Inl i\<close> is \<open>Err(i)\<close>, the position where it has to be inserted.
\<close>

definition binary_search :: "'a::linorder list \<Rightarrow> 'a \<Rightarrow> nat + nat" where
  "binary_search xs x =
     (let p = length (takeWhile (\<lambda>y. y < x) xs)
      in if p < length xs \<and> xs ! p = x then Inr p else Inl p)"

definition vec_insert :: "nat \<Rightarrow> 'a \<Rightarrow> 'a list \<Rightarrow> 'a list" where
  "vec_insert p x xs = take p xs @ x # drop p xs"

definition vec_remove :: "nat \<Rightarrow> 'a list \<Rightarrow> 'a list" where
  "vec_remove p xs = take p xs @ drop (Suc p) xs"

text \<open>The two edits the server makes of such a vector, and its membership test.\<close>

definition sv_insert :: "'a::linorder \<Rightarrow> 'a list \<Rightarrow> 'a list" where
  "sv_insert x xs = (case binary_search xs x of Inl p \<Rightarrow> vec_insert p x xs | Inr _ \<Rightarrow> xs)"

definition sv_remove :: "'a::linorder \<Rightarrow> 'a list \<Rightarrow> 'a list" where
  "sv_remove x xs = (case binary_search xs x of Inl _ \<Rightarrow> xs | Inr p \<Rightarrow> vec_remove p xs)"

definition sv_mem :: "'a::linorder \<Rightarrow> 'a list \<Rightarrow> bool" where
  "sv_mem x xs = (case binary_search xs x of Inl _ \<Rightarrow> False | Inr _ \<Rightarrow> True)"

abbreviation ascending :: "'a::linorder list \<Rightarrow> bool" where
  "ascending xs \<equiv> sorted_wrt (<) xs"

lemma binary_search_Cons:
  "binary_search (y # ys) x =
     (if y < x then map_sum Suc Suc (binary_search ys x)
      else if y = x then Inr 0 else Inl 0)"
  by (auto simp: binary_search_def Let_def)

lemma binary_search_Nil [simp]: "binary_search [] x = Inl 0"
  by (simp add: binary_search_def)

lemma sv_insert_simps [simp]:
  "sv_insert x [] = [x]"
  "sv_insert x (y # ys) = (if y < x then y # sv_insert x ys else if y = x then y # ys else x # y # ys)"
  by (auto simp: sv_insert_def binary_search_Cons vec_insert_def split: sum.splits)

lemma sv_remove_simps [simp]:
  "sv_remove x [] = []"
  "sv_remove x (y # ys) = (if y < x then y # sv_remove x ys else if y = x then ys else y # ys)"
  by (auto simp: sv_remove_def binary_search_Cons vec_remove_def split: sum.splits)

lemma sv_mem_simps [simp]:
  "sv_mem x [] = False"
  "sv_mem x (y # ys) = (if y < x then sv_mem x ys else y = x)"
  by (auto simp: sv_mem_def binary_search_Cons split: sum.splits)

lemma set_sv_insert [vec_simps]: "set (sv_insert x xs) = insert x (set xs)"
  by (induction xs) auto

lemma ascending_sv_insert [vec_simps]: "ascending xs \<Longrightarrow> ascending (sv_insert x xs)"
  by (induction xs) (auto simp: set_sv_insert)

lemma set_sv_remove [vec_simps]: "ascending xs \<Longrightarrow> set (sv_remove x xs) = set xs - {x}"
  by (induction xs) auto

lemma ascending_sv_remove [vec_simps]: "ascending xs \<Longrightarrow> ascending (sv_remove x xs)"
  by (induction xs) (auto simp: set_sv_remove)

lemma sv_mem_iff [vec_simps]: "ascending xs \<Longrightarrow> sv_mem x xs \<longleftrightarrow> x \<in> set xs"
  by (induction xs) auto

lemma ascending_filter [vec_simps]: "ascending xs \<Longrightarrow> ascending (filter P xs)"
  by (induction xs) auto

lemma ascending_eq_iff: "ascending xs \<Longrightarrow> ascending ys \<Longrightarrow> set xs = set ys \<Longrightarrow> xs = ys"
  using strict_sorted_equal by blast

lemma ascending_take [vec_simps]: "ascending xs \<Longrightarrow> ascending (take n xs)"
  by (rule sorted_wrt_take)

subsection \<open>The contract of a sorted vector\<close>

text \<open>What the keyword index relies on when it keeps a set of ids in a vector.\<close>

locale sorted_set =
  fixes ins :: "'a::linorder \<Rightarrow> 's \<Rightarrow> 's"
    and del :: "'a \<Rightarrow> 's \<Rightarrow> 's"
    and mem :: "'a \<Rightarrow> 's \<Rightarrow> bool"
    and elems :: "'s \<Rightarrow> 'a set"
    and invar :: "'s \<Rightarrow> bool"
  assumes ins_elems: "invar s \<Longrightarrow> elems (ins x s) = insert x (elems s)"
    and del_elems: "invar s \<Longrightarrow> elems (del x s) = elems s - {x}"
    and mem_elems: "invar s \<Longrightarrow> mem x s \<longleftrightarrow> x \<in> elems s"
    and ins_invar: "invar s \<Longrightarrow> invar (ins x s)"
    and del_invar: "invar s \<Longrightarrow> invar (del x s)"
begin

lemma fold_ins:
  "invar s \<Longrightarrow> invar (fold ins xs s) \<and> elems (fold ins xs s) = elems s \<union> set xs"
  by (induction xs arbitrary: s) (auto simp: ins_elems ins_invar)

lemma disjoint_transfer:
  assumes "invar s" and "invar t" and "elems s \<inter> elems t = {}"
  shows "elems (ins x s) \<inter> elems (del x t) = {}"
  using assms by (auto simp: ins_elems del_elems)

lemma mem_after_ins: "invar s \<Longrightarrow> mem y (ins x s) \<longleftrightarrow> y = x \<or> mem y s"
  by (simp add: mem_elems ins_elems ins_invar)

end

interpretation sv: sorted_set sv_insert sv_remove sv_mem set ascending
  by unfold_locales (simp_all add: vec_simps)

end
