(* ===== verification/Posting_Codec.thy ===== *)
theory Posting_Codec
  imports Prelude
begin

text \<open>
  The delta + LEB128 codec of \<open>src/state/posting_codec.rs\<close>: the varint writer and reader,
  \<open>encode\<close> and \<open>decode\<close> of a posting list, and the streaming \<open>PostingCursor\<close>. The locales
  \<open>item_stream\<close> and \<open>seek_stream\<close> state what the keyword index relies on when it walks a
  cursor; both are interpreted on the cursor.
\<close>

section \<open>File ids\<close>

datatype file_id = FileId (fid: u32)

instantiation file_id :: linorder
begin

definition less_eq_file_id :: "file_id \<Rightarrow> file_id \<Rightarrow> bool" where
  "less_eq_file_id a b \<longleftrightarrow> fid a \<le> fid b"

definition less_file_id :: "file_id \<Rightarrow> file_id \<Rightarrow> bool" where
  "less_file_id a b \<longleftrightarrow> fid a < fid b"

instance
  by standard (auto simp: less_eq_file_id_def less_file_id_def file_id.expand)

end

lemma FileId_less [simp]: "FileId a < FileId b \<longleftrightarrow> a < b"
  by (simp add: less_file_id_def)

lemma FileId_le [simp]: "FileId a \<le> FileId b \<longleftrightarrow> a \<le> b"
  by (simp add: less_eq_file_id_def)

section \<open>Varints\<close>

lemma drop_bit_7_less:
  fixes v :: u32
  assumes "drop_bit 7 v \<noteq> 0"
  shows "unat (drop_bit 7 v) < unat v"
proof -
  have eq: "unat (drop_bit 7 v) = unat v div 128"
    by (simp add: drop_bit_eq_div unat_div_distrib)
  moreover have "unat v div 128 \<noteq> 0"
    using assms eq by (metis unsigned_eq_0_iff)
  ultimately show ?thesis by simp
qed

function write_varint :: "u32 \<Rightarrow> bytes" where
  "write_varint v =
     (let byte = ucast (v AND 0x7F) :: u8; v' = drop_bit 7 v
      in if v' = 0 then [byte] else (byte OR 0x80) # write_varint v')"
  by pat_completeness auto
termination
  by (relation "measure unat") (auto simp: drop_bit_7_less)

declare write_varint.simps [simp del]

text \<open>The loop of \<open>read_varint\<close>: \<open>pos\<close> is the position in \<open>data\<close>, \<open>result\<close> and \<open>shift\<close>
  the value read so far. \<open>None\<close> is a truncated or overlong varint.\<close>

function read_varint_loop :: "bytes \<Rightarrow> nat \<Rightarrow> u32 \<Rightarrow> nat \<Rightarrow> (u32 \<times> nat) option" where
  "read_varint_loop data pos result shift =
     (if pos < length data then
        let byte = data ! pos in
        if shift \<ge> 32 then None
        else
          let payload = ucast (byte AND 0x7F) :: u32 in
          if shift = 28 \<and> (byte AND 0x7F) > 0x0F then None
          else
            let result' = result OR push_bit shift payload in
            if byte AND 0x80 = 0 then Some (result', Suc pos)
            else read_varint_loop data (Suc pos) result' (shift + 7)
      else None)"
  by pat_completeness auto
termination
  by (relation "measure (\<lambda>(data, pos, result, shift). length data - pos)") auto

declare read_varint_loop.simps [simp del]

definition read_varint :: "bytes \<Rightarrow> nat \<Rightarrow> (u32 \<times> nat) option" where
  "read_varint data pos = read_varint_loop data pos 0 0"

section \<open>Encoding and decoding a posting list\<close>

fun encode_gaps :: "u32 \<Rightarrow> file_id list \<Rightarrow> bytes" where
  "encode_gaps prev [] = []"
| "encode_gaps prev (i # is) = write_varint (fid i - prev) @ encode_gaps (fid i) is"

definition encode :: "file_id list \<Rightarrow> bytes" where
  "encode ids = write_varint (of_nat (length ids)) @ encode_gaps 0 ids"

fun decode_gaps :: "bytes \<Rightarrow> nat \<Rightarrow> nat \<Rightarrow> u32 \<Rightarrow> (file_id list \<times> nat) option" where
  "decode_gaps data pos 0 acc = Some ([], pos)"
| "decode_gaps data pos (Suc n) acc =
     (case read_varint data pos of
        None \<Rightarrow> None
      | Some (gap, pos') \<Rightarrow>
          (case decode_gaps data pos' n (acc + gap) of
             None \<Rightarrow> None
           | Some (ids, pos'') \<Rightarrow> Some (FileId (acc + gap) # ids, pos'')))"

definition decode :: "bytes \<Rightarrow> file_id list option" where
  "decode data =
     (case read_varint data 0 of
        None \<Rightarrow> None
      | Some (count, pos) \<Rightarrow>
          (case decode_gaps data pos (unat count) 0 of
             None \<Rightarrow> None
           | Some (out, pos') \<Rightarrow> if pos' \<noteq> length data then None else Some out))"

definition decoded_len :: "bytes \<Rightarrow> nat option" where
  "decoded_len data = map_option (\<lambda>(c, _). unat c) (read_varint data 0)"

section \<open>The cursor\<close>

record posting_cursor =
  cdata :: bytes
  cpos :: nat
  c_remaining :: nat
  c_acc :: u32
  c_cur :: "file_id option"
  c_started :: bool

definition bump :: "posting_cursor \<Rightarrow> posting_cursor" where
  "bump c =
     (let c = c\<lparr>c_started := True\<rparr> in
      if c_remaining c = 0 then c\<lparr>c_cur := None\<rparr>
      else case read_varint (cdata c) (cpos c) of
             Some (gap, pos') \<Rightarrow>
               c\<lparr>cpos := pos', c_acc := c_acc c + gap, c_remaining := c_remaining c - 1,
                 c_cur := Some (FileId (c_acc c + gap))\<rparr>
           | None \<Rightarrow> c\<lparr>c_remaining := 0, c_cur := None\<rparr>)"

definition cursor_new :: "bytes \<Rightarrow> posting_cursor option" where
  "cursor_new data =
     (case read_varint data 0 of
        None \<Rightarrow> None
      | Some (count, pos) \<Rightarrow>
          Some (bump \<lparr>cdata = data, cpos = pos, c_remaining = unat count, c_acc = 0,
                      c_cur = None, c_started = False\<rparr>))"

definition cursor_len :: "posting_cursor \<Rightarrow> nat" where
  "cursor_len c = c_remaining c + (if c_cur c \<noteq> None then 1 else 0)"

definition peek :: "posting_cursor \<Rightarrow> file_id option" where
  "peek c = c_cur c"

lemma cursor_len_bump: "c_cur c = Some h \<Longrightarrow> cursor_len (bump c) < cursor_len c"
  by (auto simp: cursor_len_def bump_def Let_def split: option.splits)

text \<open>\<open>contains\<close> advances the cursor, so it returns the new cursor with its answer.\<close>

function contains_target :: "posting_cursor \<Rightarrow> file_id \<Rightarrow> bool \<times> posting_cursor" where
  "contains_target c target =
     (case c_cur c of
        None \<Rightarrow> (False, c)
      | Some head \<Rightarrow>
          if head < target then contains_target (bump c) target
          else (head = target, c))"
  by pat_completeness auto
termination
  by (relation "measure (\<lambda>(c, t). cursor_len c)") (auto simp: cursor_len_bump)

declare contains_target.simps [simp del]

section \<open>The varint round trip\<close>

lemma numeral_mask7: "(0x7F::'a::len word) = mask 7" by (simp add: mask_numeral)
lemma bit_128: "bit (0x80::u8) n \<longleftrightarrow> n = 7"
proof -
  have "(0x80::u8) = 2 ^ 7" by simp
  then have "bit (0x80::u8) n = bit (2 ^ 7 :: u8) n" by (simp only:)
  also have "\<dots> \<longleftrightarrow> n = 7"
    unfolding bit_exp_iff by auto
  finally show ?thesis .
qed
lemma bit_128_int: "bit (0x80::int) n \<longleftrightarrow> n = 7"
proof -
  have "(0x80::int) = 2 ^ 7" by simp
  then have "bit (0x80::int) n = bit (2 ^ 7 :: int) n" by (simp only:)
  also have "\<dots> \<longleftrightarrow> n = 7"
    unfolding bit_exp_iff by auto
  finally show ?thesis .
qed
lemma ucast_low7_u32: "ucast ((ucast (v AND 0x7F :: u32) :: u8) AND 0x7F) = (v AND 0x7F :: u32)"
  unfolding numeral_mask7 by (rule bit_word_eqI) (auto simp: bit_simps)
lemma low7_no_flag: "(ucast (v AND 0x7F :: u32) :: u8) AND 0x80 = 0"
  unfolding numeral_mask7 by (rule bit_word_eqI) (auto simp: bit_simps bit_128_int)
lemma low7_of_flagged: "((ucast (v AND 0x7F :: u32) :: u8) OR 0x80) AND 0x7F = ucast (v AND 0x7F)"
  unfolding numeral_mask7 by (rule bit_word_eqI) (auto simp: bit_simps bit_128_int)
lemma low7_idem: "(ucast (v AND 0x7F :: u32) :: u8) AND 0x7F = ucast (v AND 0x7F)"
  unfolding numeral_mask7 by (rule bit_word_eqI) (auto simp: bit_simps bit_128_int)
lemma unat_ucast_u8_u32: "unat (ucast (b::u8) :: u32) = unat b"
proof -
  have "unat b < 2 ^ LENGTH(8)" by (rule unsigned_less)
  then have "unat b < 2 ^ 32" by simp
  then show ?thesis by (simp add: unsigned_ucast_eq take_bit_nat_eq_self)
qed
lemma flagged_has_flag: "(x OR 0x80 :: u8) AND 0x80 \<noteq> 0"
proof
  assume "(x OR 0x80 :: u8) AND 0x80 = 0"
  then have "bit ((x OR 0x80 :: u8) AND 0x80) 7 = bit (0::u8) 7" by (simp only:)
  then show False unfolding bit_and_iff bit_or_iff bit_128 by simp
qed
lemma low7_or_high: "(v::u32) AND 0x7F OR push_bit 7 (drop_bit 7 v) = v"
proof (rule bit_word_eqI)
  fix n assume "n < LENGTH(32)"
  then show "bit (v AND 0x7F OR push_bit 7 (drop_bit 7 v)) n = bit v n"
    unfolding numeral_mask7 by (cases "n < 7") (auto simp: bit_simps)
qed
lemma low7_of_small: "drop_bit 7 (v::u32) = 0 \<Longrightarrow> v AND 0x7F = v"
  using low7_or_high [of v] by simp

lemma shr7_bound: "unat (v::u32) < 2 ^ (k + 7) \<Longrightarrow> unat (drop_bit 7 v) < 2 ^ k"
  by (simp add: drop_bit_eq_div unat_div_distrib less_mult_imp_div_less power_add)

lemma read_varint_loop_write:
  assumes "unat v < 2 ^ (32 - shift)" and "shift \<in> {0, 7, 14, 21, 28}"
  shows "read_varint_loop (pre @ write_varint v @ suf) (length pre) result shift
         = Some (result OR push_bit shift v, length pre + length (write_varint v))"
  using assms
proof (induction v arbitrary: pre result shift rule: write_varint.induct)
  case (1 v)
  define b where "b = (ucast (v AND 0x7F) :: u8)"
  have b: "b AND 0x80 = 0" "(b OR 0x80) AND 0x7F = b" "b AND 0x7F = b" "ucast b = v AND 0x7F"
    using ucast_low7_u32 [of v] low7_no_flag [of v] low7_of_flagged [of v] low7_idem [of v] by (simp_all add: b_def)
  have small: "\<not> 0x0F < b" if "shift = 28"
  proof -
    from that have "unat v < 16" using 1(2) by simp
    then have "unat (ucast b :: u32) < 16" 
      using b(4) word_and_le2 [of v "0x7F"] by (simp add: word_le_nat_alt)
    then have "unat b < 16" by (simp only: unat_ucast_u8_u32)
    then show ?thesis by (simp add: word_less_nat_alt)
  qed
  show ?case
  proof (cases "drop_bit 7 v = 0")
    case True
    then have w: "write_varint v = [b]"
      by (simp add: write_varint.simps [of v] b_def)
    have "ucast b = v" using b(4) low7_of_small [OF True] by simp
    then show ?thesis
      using small 1(3) b
      by (subst read_varint_loop.simps) (auto simp: w nth_append Let_def)
  next
    case False
    have w: "write_varint v = (b OR 0x80) # write_varint (drop_bit 7 v)"
      using False by (simp add: write_varint.simps [of v] Let_def b_def)
    have "shift \<noteq> 28"
    proof
      assume "shift = 28"
      then have "unat v < 2 ^ 4" using 1(2) by simp
      then have "unat (drop_bit 7 v) = 0" by (simp add: drop_bit_eq_div unat_div_distrib)
      with False show False by (simp only: unsigned_eq_0_iff)
    qed
    then have s: "shift + 7 \<in> {0, 7, 14, 21, 28}" "shift < 28" using 1(3) by auto
    have eq: "32 - shift = (32 - (shift + 7)) + 7" using s by auto
    have "unat v < 2 ^ ((32 - (shift + 7)) + 7)" using 1(2) by (subst eq [symmetric])
    then have "unat (drop_bit 7 v) < 2 ^ (32 - (shift + 7))" by (rule shr7_bound)
    note IH = "1.IH" [OF refl refl False this s(1), of "pre @ [b OR 0x80]" "result OR push_bit shift (v AND 0x7F)"]
    have "push_bit shift (v AND 0x7F OR push_bit 7 (drop_bit 7 v)) =
        push_bit shift (v AND 0x7F) OR push_bit (shift + 7) (drop_bit 7 v)"
      by (simp only: push_bit_or push_bit_push_bit)
    then have "push_bit shift v = push_bit shift (v AND 0x7F) OR push_bit (shift + 7) (drop_bit 7 v)"
      by (simp only: low7_or_high)
    moreover have "read_varint_loop (pre @ write_varint v @ suf) (length pre) result shift =
        read_varint_loop ((pre @ [b OR 0x80]) @ write_varint (drop_bit 7 v) @ suf) (length (pre @ [b OR 0x80]))
          (result OR push_bit shift (v AND 0x7F)) (shift + 7)"
      using s flagged_has_flag [of b] by (subst read_varint_loop.simps) (simp add: w Let_def b(2) b(4))
    ultimately show ?thesis
      using IH by (simp only: w or.assoc) simp
  qed
qed

lemma read_varint_write:
  "read_varint (pre @ write_varint v @ suf) (length pre) = Some (v, length pre + length (write_varint v))"
  using read_varint_loop_write [of v 0 pre suf 0] unsigned_less [of v]
  by (simp add: read_varint_def)

lemma read_varint_loop_append:
  assumes "read_varint_loop data pos result shift = Some (v, p)"
  shows "pos < p \<and> p \<le> length data \<and> read_varint_loop (data @ suf) pos result shift = Some (v, p)"
  using assms
proof (induction data pos result shift rule: read_varint_loop.induct)
  case (1 data pos result shift)
  define byte where "byte = data ! pos"
  define res where "res = result OR push_bit shift (ucast (byte AND 0x7F) :: u32)"
  have guard: "pos < length data" "\<not> shift \<ge> 32" "\<not> (shift = 28 \<and> byte AND 0x7F > 0x0F)"
    using "1.prems" by (auto simp: read_varint_loop.simps [of data] Let_def byte_def split: if_splits)
  have nth: "(data @ suf) ! pos = byte" using guard by (simp add: nth_append byte_def)
  show ?case
  proof (cases "byte AND 0x80 = 0")
    case True
    with guard "1.prems" have "v = res" "p = Suc pos"
      by (auto simp: read_varint_loop.simps [of data] Let_def byte_def res_def)
    with True guard show ?thesis
      by (simp add: read_varint_loop.simps [of "data @ suf"] Let_def nth res_def)
  next
    case False
    with guard "1.prems" have r: "read_varint_loop data (Suc pos) res (shift + 7) = Some (v, p)"
      by (auto simp: read_varint_loop.simps [of data pos] Let_def byte_def res_def)
    have "Suc pos < p \<and> p \<le> length data \<and>
        read_varint_loop (data @ suf) (Suc pos) res (shift + 7) = Some (v, p)"
      using "1.IH" guard False r by (simp add: byte_def res_def)
    with False guard show ?thesis
      by (simp add: read_varint_loop.simps [of "data @ suf" pos] Let_def nth res_def)
  qed
qed

lemma read_varint_append:
  assumes "read_varint data pos = Some (v, p)"
  shows "pos < p" and "p \<le> length data" and "read_varint (data @ suf) pos = Some (v, p)"
  using read_varint_loop_append [OF assms [unfolded read_varint_def], of suf]
  by (simp_all add: read_varint_def)

section \<open>The posting list round trip\<close>

lemma decode_gaps_encode_gaps:
  "decode_gaps (pre @ encode_gaps prev ids @ suf) (length pre) (length ids) prev
   = Some (ids, length pre + length (encode_gaps prev ids))"
proof (induction ids arbitrary: pre prev)
  case (Cons i ids)
  show ?case
    using Cons.IH [of "pre @ write_varint (fid i - prev)" "fid i"]
      read_varint_write [of pre "fid i - prev" "encode_gaps (fid i) ids @ suf"]
    by simp
qed simp

lemma decode_gaps_append:
  "decode_gaps data pos n a = Some (ids, p) \<Longrightarrow> decode_gaps (data @ suf) pos n a = Some (ids, p)"
  by (induction data pos n a arbitrary: ids p rule: decode_gaps.induct)
    (auto split: option.splits simp: read_varint_append)

lemma header_encode:
  "read_varint (encode ids @ suf) 0 = Some (of_nat (length ids), length (write_varint (of_nat (length ids))))"
  using read_varint_write [of "[]" "of_nat (length ids)" "encode_gaps 0 ids @ suf"]
  by (simp add: encode_def)

lemma body_encode:
  assumes "length ids < 2 ^ 32"
  shows "decode_gaps (encode ids @ suf) (length (write_varint (of_nat (length ids)))) (unat (of_nat (length ids) :: u32)) 0
    = Some (ids, length (encode ids))"
  using assms decode_gaps_encode_gaps [of "write_varint (of_nat (length ids))" 0 ids suf]
  by (simp add: encode_def unat_of_nat)

lemma decode_encode_ids:
  assumes "length ids < 2 ^ 32"
  shows "decode (encode ids) = Some ids"
  using header_encode [of ids "[]"] body_encode [OF assms, of "[]"]
  by (simp add: decode_def)

text \<open>A posting list of fewer than \<open>2^32\<close> ids survives the codec unchanged: \<open>decode\<close> of
  \<open>encode\<close> is the list itself, whatever its order (the gaps wrap).\<close>

theorem decode_encode:
  assumes "length ids < 2 ^ 32"
  shows "decode (encode ids) = Some ids"
  using assms by (rule decode_encode_ids)

theorem decode_encode_witness:
  "decode (encode [FileId 7, FileId 300, FileId 4294967295]) = Some [FileId 7, FileId 300, FileId 4294967295]"
  by (rule decode_encode) simp

text \<open>C37: A damaged blob is rejected, never decoded to a wrong list: with trailing bytes or cut
  short anywhere, \<open>decode\<close> returns \<open>None\<close>.\<close>

theorem decode_rejects_damage:
  assumes "length ids < 2 ^ 32"
  shows "decode (encode ids @ x # xs) = None \<and>
    (k < length (encode ids) \<longrightarrow> decode (take k (encode ids)) = None)"
proof (intro conjI impI)
  show "decode (encode ids @ x # xs) = None"
    using header_encode [of ids "x # xs"] body_encode [OF assms, of "x # xs"]
    by (simp add: decode_def)
next
  assume k: "k < length (encode ids)"
  show "decode (take k (encode ids)) = None"
  proof (rule ccontr)
    assume "decode (take k (encode ids)) \<noteq> None"
    then obtain c p out where rd: "read_varint (take k (encode ids)) 0 = Some (c, p)"
      and body: "decode_gaps (take k (encode ids)) p (unat c) 0 = Some (out, k)"
      using k by (auto simp: decode_def split: option.splits prod.splits if_splits)
    from rd have "read_varint (take k (encode ids) @ drop k (encode ids)) 0 = Some (c, p)"
      by (rule read_varint_append)
    moreover from body have
      "decode_gaps (take k (encode ids) @ drop k (encode ids)) p (unat c) 0 = Some (out, k)"
      by (rule decode_gaps_append)
    ultimately show False
      using header_encode [of ids "[]"] body_encode [OF assms, of "[]"] k by simp
  qed
qed

theorem decode_rejects_damage_witness:
  "decode (encode [FileId 7, FileId 300] @ [0]) = None \<and> decode (take 3 (encode [FileId 7, FileId 300])) = None"
proof -
  have l: "length [FileId 7, FileId 300] < 2 ^ 32" by simp
  have k: "3 < length (encode [FileId 7, FileId 300])"
    by (simp add: encode_def write_varint.simps Let_def drop_bit_eq_div)
  show ?thesis
    using decode_rejects_damage [OF l, of 0 "[]" 3] k by blast
qed

lemma decoded_len_encode: "length ids < 2 ^ 32 \<Longrightarrow> decoded_len (encode ids) = Some (length ids)"
  using header_encode [of ids "[]"] by (simp add: decoded_len_def unat_of_nat)

section \<open>What a walk over a stream relies on\<close>

locale item_stream =
  fixes peek :: "'c \<Rightarrow> 'a::linorder option"
    and bump :: "'c \<Rightarrow> 'c"
    and rest :: "'c \<Rightarrow> 'a list"
    and invar :: "'c \<Rightarrow> bool"
  assumes peek_rest: "invar c \<Longrightarrow> peek c = (case rest c of [] \<Rightarrow> None | x # _ \<Rightarrow> Some x)"
    and rest_bump: "invar c \<Longrightarrow> rest (bump c) = tl (rest c)"
    and invar_bump: "invar c \<Longrightarrow> invar (bump c)"
begin

lemma peek_None: "invar c \<Longrightarrow> peek c = None \<longleftrightarrow> rest c = []"
  by (simp add: peek_rest split: list.splits)

lemma peek_Some: "invar c \<Longrightarrow> peek c = Some x \<longleftrightarrow> (\<exists>xs. rest c = x # xs)"
  by (auto simp: peek_rest split: list.splits)

lemma bump_shorter: "invar c \<Longrightarrow> peek c = Some x \<Longrightarrow> length (rest (bump c)) < length (rest c)"
  by (auto simp: peek_Some rest_bump)

end

locale seek_stream = item_stream peek bump rest invar
  for peek :: "'c \<Rightarrow> 'a::linorder option"
    and bump :: "'c \<Rightarrow> 'c"
    and rest :: "'c \<Rightarrow> 'a list"
    and invar :: "'c \<Rightarrow> bool" +
  fixes seek :: "'c \<Rightarrow> 'a \<Rightarrow> bool \<times> 'c"
  assumes seek_unfold: "invar c \<Longrightarrow> seek c t =
      (case peek c of None \<Rightarrow> (False, c)
       | Some h \<Rightarrow> if h < t then seek (bump c) t else (h = t, c))"
begin

lemma seek_steps:
  "invar c \<Longrightarrow> invar (snd (seek c t)) \<and> rest (snd (seek c t)) = dropWhile (\<lambda>x. x < t) (rest c) \<and>
     fst (seek c t) = (case dropWhile (\<lambda>x. x < t) (rest c) of [] \<Rightarrow> False | h # _ \<Rightarrow> h = t)"
proof (induction "rest c" arbitrary: c)
  case Nil
  then show ?case by (simp add: seek_unfold [of c t] peek_rest)
next
  case (Cons x xs)
  have "xs = rest (bump c)" using Cons.hyps(2) Cons.prems by (simp add: rest_bump flip: Cons.hyps(2))
  from Cons.hyps(1) [OF this] Cons.prems have IH: "invar (snd (seek (bump c) t)) \<and>
     rest (snd (seek (bump c) t)) = dropWhile (\<lambda>x. x < t) (rest (bump c)) \<and>
     fst (seek (bump c) t) = (case dropWhile (\<lambda>x. x < t) (rest (bump c)) of [] \<Rightarrow> False | h # _ \<Rightarrow> h = t)"
    by (simp add: invar_bump)
  show ?case
    using IH Cons.prems \<open>xs = rest (bump c)\<close>
    by (simp add: seek_unfold [of c t] peek_rest flip: Cons.hyps(2))
qed

lemma seek_invar: "invar c \<Longrightarrow> invar (snd (seek c t))"
  using seek_steps by blast

lemma seek_rest: "invar c \<Longrightarrow> rest (snd (seek c t)) = dropWhile (\<lambda>x. x < t) (rest c)"
  using seek_steps by blast

lemma seek_mem:
  assumes "invar c" and "ascending (rest c)"
  shows "fst (seek c t) \<longleftrightarrow> t \<in> set (rest c)"
proof -
  have "t \<in> set xs \<longleftrightarrow> (case dropWhile (\<lambda>x. x < t) xs of [] \<Rightarrow> False | h # _ \<Rightarrow> h = t)"
    if "ascending xs" for xs :: "'a list"
    using that by (induction xs) auto
  with assms show ?thesis using seek_steps [of c t] by metis
qed

text \<open>Seeking in ascending order never loses a later member.\<close>

lemma seek_keeps_later:
  assumes "invar c" and "ascending (rest c)" and "t < u"
  shows "u \<in> set (rest (snd (seek c t))) \<longleftrightarrow> u \<in> set (rest c)"
proof -
  have "u \<in> set (dropWhile (\<lambda>x. x < t) xs) \<longleftrightarrow> u \<in> set xs" for xs :: "'a list"
    using assms(3) by (induction xs) auto
  with assms show ?thesis by (simp add: seek_rest)
qed

lemma seek_ascending: "invar c \<Longrightarrow> ascending (rest c) \<Longrightarrow> ascending (rest (snd (seek c t)))"
  by (simp add: seek_rest)

end

section \<open>The cursor is such a stream\<close>

function cursor_rest :: "posting_cursor \<Rightarrow> file_id list" where
  "cursor_rest c = (case c_cur c of None \<Rightarrow> [] | Some h \<Rightarrow> h # cursor_rest (bump c))"
  by pat_completeness auto
termination
  by (relation "measure cursor_len") (auto simp: cursor_len_bump)

declare cursor_rest.simps [simp del]

definition cursor_ok :: "posting_cursor \<Rightarrow> bool" where
  "cursor_ok c \<longleftrightarrow> (c_cur c = None \<longrightarrow> c_remaining c = 0)"

lemma cursor_ok_bump: "cursor_ok (bump c)"
  by (auto simp: cursor_ok_def bump_def Let_def split: option.splits)

lemma bump_exhausted: "cursor_ok c \<Longrightarrow> c_cur c = None \<Longrightarrow> c_cur (bump c) = None"
  by (simp add: cursor_ok_def bump_def Let_def)

interpretation pc: seek_stream peek bump cursor_rest cursor_ok contains_target
proof unfold_locales
  fix c t assume ok: "cursor_ok c"
  show "peek c = (case cursor_rest c of [] \<Rightarrow> None | x # _ \<Rightarrow> Some x)"
    by (simp add: peek_def cursor_rest.simps [of c] split: option.splits)
  show "cursor_rest (bump c) = tl (cursor_rest c)"
    using ok bump_exhausted [of c]
    by (cases "c_cur c") (simp_all add: cursor_rest.simps [of c] cursor_rest.simps [of "bump c"])
  show "cursor_ok (bump c)" by (rule cursor_ok_bump)
  show "contains_target c t = (case peek c of None \<Rightarrow> (False, c)
      | Some h \<Rightarrow> if h < t then contains_target (bump c) t else (h = t, c))"
    by (simp add: peek_def contains_target.simps [of c])
qed

lemma cursor_rest_encode_gaps:
  "cursor_rest (bump \<lparr>cdata = pre @ encode_gaps prev ids, cpos = length pre,
      c_remaining = length ids, c_acc = prev, c_cur = h, c_started = s\<rparr>) = ids"
proof (induction ids arbitrary: pre prev h s)
  case Nil
  show ?case by (subst cursor_rest.simps) (simp add: bump_def)
next
  case (Cons i ids)
  have rd: "read_varint (pre @ write_varint (fid i - prev) @ encode_gaps (fid i) ids) (length pre)
      = Some (fid i - prev, length pre + length (write_varint (fid i - prev)))"
    by (rule read_varint_write)
  show ?case
    using Cons.IH [of "pre @ write_varint (fid i - prev)" "fid i" "Some i" True]
    by (subst cursor_rest.simps) (simp add: bump_def [of "\<lparr>cdata = pre @ _, cpos = _, c_remaining = _, c_acc = _, c_cur = _, c_started = _\<rparr>"] rd)
qed

lemma cursor_new_encode:
  assumes "length ids < 2 ^ 32"
  obtains c where "cursor_new (encode ids) = Some c" and "cursor_rest c = ids" and "cursor_ok c"
  using assms header_encode [of ids "[]"]
    cursor_rest_encode_gaps [of "write_varint (of_nat (length ids))" 0 ids None False] cursor_ok_bump
  by (simp add: cursor_new_def unat_of_nat flip: encode_def)

text \<open>A cursor over an encoded ascending posting answers membership exactly as the decoded
  list, and after the answer it still answers for every later target: a pass over ascending
  targets never misses one.\<close>

theorem cursor_membership:
  assumes "length ids < 2 ^ 32" and "ascending ids" and "t < u"
    and "cursor_new (encode ids) = Some c"
  shows "(fst (contains_target c t) \<longleftrightarrow> t \<in> set ids) \<and>
    (fst (contains_target (snd (contains_target c t)) u) \<longleftrightarrow> u \<in> set ids)"
proof -
  obtain c' where c': "cursor_new (encode ids) = Some c'" "cursor_rest c' = ids" "cursor_ok c'"
    using cursor_new_encode [OF assms(1)] .
  with assms(4) have c: "cursor_rest c = ids" "cursor_ok c" by auto
  show ?thesis
    using c assms(2,3) by (simp add: pc.seek_mem pc.seek_invar pc.seek_ascending pc.seek_keeps_later)
qed

theorem cursor_membership_witness:
  "\<exists>c. cursor_new (encode [FileId 3, FileId 200]) = Some c \<and> fst (contains_target c (FileId 3)) \<and>
     fst (contains_target (snd (contains_target c (FileId 3))) (FileId 200))"
proof -
  have l: "length [FileId 3, FileId 200] < 2 ^ 32" by simp
  obtain c where c: "cursor_new (encode [FileId 3, FileId 200]) = Some c"
    using cursor_new_encode [OF l] by metis
  show ?thesis
    using cursor_membership [OF l _ _ c, of "FileId 3" "FileId 200"] c by auto
qed

end
