(* ===== verification/Cold_Store.thy ===== *)
theory Cold_Store
  imports Posting_Codec
begin

text \<open>
  The keyword index's cold tier, \<open>src/state/cold_store.rs\<close>: 1024 shards, each three flat
  arrays (sorted token hashes, blob ends, one byte arena), and the merge that rebuilds a
  shard from the old one plus a sorted batch of updates. The locale \<open>blob_map\<close> is what
  the keyword index relies on: a lookup after a rebuild.
\<close>

type_synonym token_hash = u32
type_synonym update = "token_hash \<times> bytes option"

definition SHARDS :: nat where
  "SHARDS = 1024"

record shard =
  sh_keys :: "token_hash list"
  sh_ends :: "u32 list"
  sh_arena :: bytes

definition shard_empty :: shard where
  "shard_empty = \<lparr>sh_keys = [], sh_ends = [], sh_arena = []\<rparr>"

definition find_key :: "shard \<Rightarrow> token_hash \<Rightarrow> nat option" where
  "find_key s th = (case binary_search (sh_keys s) th of Inl _ \<Rightarrow> None | Inr i \<Rightarrow> Some i)"

definition span :: "shard \<Rightarrow> nat \<Rightarrow> nat \<times> nat" where
  "span s i = (if i = 0 then 0 else unat (sh_ends s ! (i - 1)), unat (sh_ends s ! i))"

definition blob :: "shard \<Rightarrow> nat \<Rightarrow> bytes" where
  "blob s i = (let (st, e) = span s i in take (e - st) (drop st (sh_arena s)))"

definition push_entry :: "shard \<Rightarrow> token_hash \<Rightarrow> bytes \<Rightarrow> shard" where
  "push_entry new k b =
     (let a = sh_arena new @ b
      in \<lparr>sh_keys = sh_keys new @ [k], sh_ends = sh_ends new @ [of_nat (length a)], sh_arena = a\<rparr>)"

record cold_store =
  cold_shards :: "shard list"
  cold_keys :: nat

definition cold_default :: cold_store where
  "cold_default = \<lparr>cold_shards = replicate SHARDS shard_empty, cold_keys = 0\<rparr>"

definition shard_of :: "token_hash \<Rightarrow> nat" where
  "shard_of th = unat th mod SHARDS"

definition cold_get :: "cold_store \<Rightarrow> token_hash \<Rightarrow> bytes option" where
  "cold_get st th =
     (let g = cold_shards st ! shard_of th in map_option (blob g) (find_key g th))"

definition cold_contains_key :: "cold_store \<Rightarrow> token_hash \<Rightarrow> bool" where
  "cold_contains_key st th \<longleftrightarrow> find_key (cold_shards st ! shard_of th) th \<noteq> None"

definition cold_len :: "cold_store \<Rightarrow> nat" where
  "cold_len st = cold_keys st"

definition cold_blobs :: "cold_store \<Rightarrow> bytes list" where
  "cold_blobs st = concat (map (\<lambda>g. map (blob g) [0..<length (sh_keys g)]) (cold_shards st))"

text \<open>The merge loop of \<open>rebuild\<close>: \<open>i\<close> walks the old shard, \<open>j\<close> the updates; the last two
  components count the keywords removed and added.\<close>

function rebuild_loop ::
  "shard \<Rightarrow> update list \<Rightarrow> nat \<Rightarrow> nat \<Rightarrow> shard \<times> nat \<times> nat \<Rightarrow> shard \<times> nat \<times> nat" where
  "rebuild_loop old ups i j (new, removed, added) =
     (if i < length (sh_keys old) \<or> j < length ups then
        let take_old = (if i < length (sh_keys old)
                        then (if j < length ups then sh_keys old ! i < fst (ups ! j) else True)
                        else False)
        in if take_old
           then rebuild_loop old ups (i + 1) j (push_entry new (sh_keys old ! i) (blob old i), removed, added)
           else
             let (k, b) = ups ! j;
                 existed = (i < length (sh_keys old) \<and> sh_keys old ! i = k);
                 i' = (if existed then i + 1 else i)
             in case b of
                  Some bl \<Rightarrow> rebuild_loop old ups i' (j + 1)
                               (push_entry new k bl, removed, if existed then added else added + 1)
                | None \<Rightarrow> rebuild_loop old ups i' (j + 1)
                            (new, if existed then removed + 1 else removed, added)
      else (new, removed, added))"
  by pat_completeness auto
termination
proof (relation "measure (\<lambda>(old, ups, i, j, n). (length (sh_keys old) - i) + (length ups - j))", goal_cases)
  case 1
  show ?case by simp
qed (auto split: if_splits)

declare rebuild_loop.simps [simp del]

text \<open>\<open>rebuild\<close> returns the store with the new shard installed and the number of keywords
  removed; the \<open>installed\<close> callback is run by the caller on the result.\<close>

definition rebuild :: "cold_store \<Rightarrow> nat \<Rightarrow> update list \<Rightarrow> cold_store \<times> nat" where
  "rebuild st sh ups =
     (let old = cold_shards st ! sh;
          (new, removed, added) = rebuild_loop old ups 0 0 (shard_empty, 0, 0)
      in (\<lparr>cold_shards = (cold_shards st)[sh := new], cold_keys = cold_keys st + added - removed\<rparr>, removed))"

section \<open>A shard as a sorted list of entries\<close>

type_synonym cold_entry = "token_hash \<times> bytes"

definition build :: "cold_entry list \<Rightarrow> shard" where
  "build es = foldl (\<lambda>s (k, b). push_entry s k b) shard_empty es"

lemma build_Nil [simp]: "build [] = shard_empty"
  by (simp add: build_def)

lemma build_snoc: "build (es @ [(k, b)]) = push_entry (build es) k b"
  by (simp add: build_def)

lemma keys_build [simp]: "sh_keys (build es) = map fst es"
  by (induction es rule: rev_induct) (auto simp: build_snoc push_entry_def Let_def shard_empty_def)

lemma arena_build [simp]: "sh_arena (build es) = concat (map snd es)"
  by (induction es rule: rev_induct) (auto simp: build_snoc push_entry_def Let_def shard_empty_def)

lemma length_ends_build [simp]: "length (sh_ends (build es)) = length es"
  by (induction es rule: rev_induct) (auto simp: build_snoc push_entry_def Let_def shard_empty_def)

lemma ends_build: "i < length es \<Longrightarrow> sh_ends (build es) ! i = of_nat (length (concat (map snd (take (Suc i) es))))"
  by (induction es rule: rev_induct)
    (auto simp: build_snoc push_entry_def Let_def shard_empty_def nth_append less_Suc_eq)

definition entry_bytes :: "cold_entry list \<Rightarrow> nat" where
  "entry_bytes es = length (concat (map snd es))"

lemma entry_bytes_take: "entry_bytes (take n es) \<le> entry_bytes es"
proof -
  have "entry_bytes es = entry_bytes (take n es) + entry_bytes (drop n es)"
    unfolding entry_bytes_def by (metis append_take_drop_id concat_append length_append map_append)
  then show ?thesis by simp
qed

lemma unat_ends_build:
  assumes "entry_bytes es < 2 ^ 32" and "i < length es"
  shows "unat (sh_ends (build es) ! i) = entry_bytes (take (Suc i) es)"
  using entry_bytes_take [of "Suc i" es] assms
  by (simp add: ends_build entry_bytes_def unat_of_nat del: length_concat)

lemma entry_bytes_take_Suc:
  "i < length es \<Longrightarrow> entry_bytes (take (Suc i) es) = entry_bytes (take i es) + length (snd (es ! i))"
  by (simp add: entry_bytes_def take_Suc_conv_app_nth)

lemma span_build:
  assumes "entry_bytes es < 2 ^ 32" and "i < length es"
  shows "span (build es) i = (entry_bytes (take i es), entry_bytes (take i es) + length (snd (es ! i)))"
  using assms by (cases i) (simp_all add: span_def unat_ends_build entry_bytes_take_Suc, simp add: entry_bytes_def)

lemma blob_build:
  assumes "entry_bytes es < 2 ^ 32" and "i < length es"
  shows "blob (build es) i = snd (es ! i)"
proof -
  have "concat (map snd es) = concat (map snd (take i es)) @ snd (es ! i) @ concat (map snd (drop (Suc i) es))"
    by (subst id_take_nth_drop [OF assms(2)]) simp
  then show ?thesis
    by (simp add: blob_def span_build [OF assms]) (simp add: entry_bytes_def)
qed

lemma binary_search_ascending:
  "ascending xs \<Longrightarrow> binary_search xs x = Inr i \<longleftrightarrow> i < length xs \<and> xs ! i = x"
proof (induction xs arbitrary: i)
  case (Cons y ys)
  show ?case
    using Cons by (cases i; cases "binary_search ys x") (auto simp: binary_search_Cons)
qed simp

lemma binary_search_None:
  "ascending xs \<Longrightarrow> (\<exists>i. binary_search xs x = Inl i) \<longleftrightarrow> x \<notin> set xs"
  using binary_search_ascending [of xs x]
  by (metis Inl_Inr_False in_set_conv_nth old.sum.exhaust)

lemma map_of_ascending_nth:
  "ascending (map fst es) \<Longrightarrow> i < length es \<Longrightarrow> map_of es (fst (es ! i)) = Some (snd (es ! i))"
  by (simp add: map_of_eq_Some_iff strict_sorted_iff)

lemma get_build:
  assumes "ascending (map fst es)" and "entry_bytes es < 2 ^ 32"
  shows "map_option (blob (build es)) (find_key (build es) th) = map_of es th"
proof (cases "binary_search (map fst es) th")
  case (Inl i)
  then have "th \<notin> fst ` set es"
    using binary_search_None [OF assms(1), of th] by auto
  with Inl show ?thesis
    by (simp add: find_key_def) (metis map_of_eq_None_iff)
next
  case (Inr i)
  then have i: "i < length es" "fst (es ! i) = th"
    using binary_search_ascending [OF assms(1), of th i] by auto
  with map_of_ascending_nth [OF assms(1) i(1)] blob_build [OF assms(2) i(1)] Inr show ?thesis
    by (simp add: find_key_def)
qed

section \<open>The merge\<close>

fun merge_upd :: "cold_entry list \<Rightarrow> update list \<Rightarrow> cold_entry list \<times> nat \<times> nat" where
  "merge_upd es [] = (es, 0, 0)"
| "merge_upd [] ((k, b) # us) =
     (let (m, r, a) = merge_upd [] us
      in case b of Some x \<Rightarrow> ((k, x) # m, r, a + 1) | None \<Rightarrow> (m, r, a))"
| "merge_upd ((k0, b0) # es) ((k, b) # us) =
     (if k0 < k then let (m, r, a) = merge_upd es ((k, b) # us) in ((k0, b0) # m, r, a)
      else if k0 = k then
        let (m, r, a) = merge_upd es us
        in case b of Some x \<Rightarrow> ((k, x) # m, r, a) | None \<Rightarrow> (m, r + 1, a)
      else
        let (m, r, a) = merge_upd ((k0, b0) # es) us
        in case b of Some x \<Rightarrow> ((k, x) # m, r, a + 1) | None \<Rightarrow> (m, r, a))"

lemma rebuild_loop_old:
  assumes "i < length (sh_keys old)" and "j < length ups \<longrightarrow> sh_keys old ! i < fst (ups ! j)"
  shows "rebuild_loop old ups i j (new, r, a) =
     rebuild_loop old ups (Suc i) j (push_entry new (sh_keys old ! i) (blob old i), r, a)"
  using assms by (subst rebuild_loop.simps) (simp add: Let_def)

lemma rebuild_loop_upd:
  assumes "j < length ups" and "ups ! j = (k, b)" and "i < length (sh_keys old) \<longrightarrow> \<not> sh_keys old ! i < k"
    and "existed \<longleftrightarrow> i < length (sh_keys old) \<and> sh_keys old ! i = k"
  shows "rebuild_loop old ups i j (new, r, a) =
     (case b of
        Some bl \<Rightarrow> rebuild_loop old ups (if existed then Suc i else i) (Suc j)
                     (push_entry new k bl, r, if existed then a else Suc a)
      | None \<Rightarrow> rebuild_loop old ups (if existed then Suc i else i) (Suc j)
                     (new, if existed then Suc r else r, a))"
  using assms by (subst rebuild_loop.simps) (auto simp: Let_def split: option.splits)

lemma rebuild_loop_done:
  "rebuild_loop old ups (length (sh_keys old)) (length ups) n = n"
  by (cases n) (simp add: rebuild_loop.simps)

lemma rebuild_loop_rest:
  "entry_bytes (es1 @ es) < 2 ^ 32 \<Longrightarrow>
   rebuild_loop (build (es1 @ es)) ups (length es1) (length ups) (build out, r, a) = (build (out @ es), r, a)"
proof (induction es arbitrary: es1 out)
  case Nil
  then show ?case using rebuild_loop_done [of "build es1" ups] by simp
next
  case (Cons e es)
  have "rebuild_loop (build (es1 @ e # es)) ups (length es1) (length ups) (build out, r, a)
      = rebuild_loop (build (es1 @ e # es)) ups (Suc (length es1)) (length ups) (build (out @ [e]), r, a)"
    using Cons.prems
    by (subst rebuild_loop_old) (simp_all add: blob_build nth_append build_snoc, cases e, simp add: build_snoc)
  then show ?case
    using Cons.IH [of "es1 @ [e]" "out @ [e]"] Cons.prems by simp
qed

lemma rebuild_loop_merge:
  assumes "entry_bytes (es1 @ es) < 2 ^ 32" and "merge_upd es us = (m, r', a')"
  shows "rebuild_loop (build (es1 @ es)) (us1 @ us) (length es1) (length us1) (build out, r, a)
    = (build (out @ m), r + r', a + a')"
  using assms
proof (induction es us arbitrary: es1 us1 out m r r' a a' rule: merge_upd.induct)
  case (1 es)
  then show ?case using rebuild_loop_rest [of es1 es us1 out r a] by simp
next
  case (2 k b us)
  obtain m1 r1 a1 where m1: "merge_upd [] us = (m1, r1, a1)" by (cases "merge_upd [] us") auto
  note IH = "2.IH" [of es1 m1 r1 a1 "us1 @ [(k, b)]", OF "2.prems"(1) m1]
  have "rebuild_loop (build (es1 @ [])) (us1 @ (k, b) # us) (length es1) (length us1) (build out, r, a)
      = (case b of Some bl \<Rightarrow> rebuild_loop (build es1) (us1 @ (k, b) # us) (length es1) (Suc (length us1)) (build (out @ [(k, bl)]), r, Suc a)
         | None \<Rightarrow> rebuild_loop (build es1) (us1 @ (k, b) # us) (length es1) (Suc (length us1)) (build out, r, a))"
    by (subst rebuild_loop_upd [where k = k and b = b and existed = False]) (auto simp: build_snoc nth_append split: option.splits)
  then show ?case
    using IH "2.prems"(2) m1 by (auto split: option.splits)
next
  case (3 k0 b0 es k b us)
  let ?old = "build (es1 @ (k0, b0) # es)" and ?ups = "us1 @ (k, b) # us"
  consider (old) "k0 < k" | (same) "k0 = k" | (new) "k < k0" by (rule linorder_cases) 
  then show ?case
  proof cases
    case old
    obtain m1 r1 a1 where m1: "merge_upd es ((k, b) # us) = (m1, r1, a1)"
      by (cases "merge_upd es ((k, b) # us)") auto
    have "rebuild_loop ?old ?ups (length es1) (length us1) (build out, r, a)
        = rebuild_loop ?old ?ups (Suc (length es1)) (length us1) (build (out @ [(k0, b0)]), r, a)"
      using old "3.prems"(1) by (subst rebuild_loop_old) (auto simp: nth_append blob_build build_snoc)
    then show ?thesis
      using "3.IH"(1) [OF old _ m1, of "es1 @ [(k0, b0)]" us1 "out @ [(k0, b0)]" r a] "3.prems" old m1
      by simp
  next
    case same
    obtain m1 r1 a1 where m1: "merge_upd es us = (m1, r1, a1)" by (cases "merge_upd es us") auto
    have "rebuild_loop ?old ?ups (length es1) (length us1) (build out, r, a)
        = (case b of Some bl \<Rightarrow> rebuild_loop ?old ?ups (Suc (length es1)) (Suc (length us1)) (build (out @ [(k, bl)]), r, a)
           | None \<Rightarrow> rebuild_loop ?old ?ups (Suc (length es1)) (Suc (length us1)) (build out, Suc r, a))"
      using same by (subst rebuild_loop_upd [where k = k and b = b and existed = True]) (auto simp: build_snoc nth_append split: option.splits)
    then show ?thesis
      using "3.IH"(2) [OF _ same _ m1, of "es1 @ [(k0, b0)]" "us1 @ [(k, b)]"] "3.prems" same m1
      by (auto split: option.splits)
  next
    case new
    then have n: "\<not> k0 < k" "k0 \<noteq> k" by auto
    obtain m1 r1 a1 where m1: "merge_upd ((k0, b0) # es) us = (m1, r1, a1)"
      by (cases "merge_upd ((k0, b0) # es) us") auto
    have "rebuild_loop ?old ?ups (length es1) (length us1) (build out, r, a)
        = (case b of Some bl \<Rightarrow> rebuild_loop ?old ?ups (length es1) (Suc (length us1)) (build (out @ [(k, bl)]), r, Suc a)
           | None \<Rightarrow> rebuild_loop ?old ?ups (length es1) (Suc (length us1)) (build out, r, a))"
      using n by (subst rebuild_loop_upd [where k = k and b = b and existed = False]) (auto simp: build_snoc nth_append split: option.splits)
    then show ?thesis
      using "3.IH"(3) [OF _ _ _ m1, of es1 "us1 @ [(k, b)]"] "3.prems" n m1
      by (auto split: option.splits)
  qed
qed

lemma merge_upd_key:
  "x \<in> set (fst (merge_upd es us)) \<Longrightarrow> fst x \<in> fst ` set es \<or> fst x \<in> fst ` set us"
proof (induction es us rule: merge_upd.induct)
  case (2 k b us)
  then show ?case by (cases b) (auto simp: case_prod_beta)
next
  case (3 k0 b0 es k b us)
  then show ?case
    by (cases "k0 < k"; cases "k0 = k"; cases b) (auto simp: case_prod_beta Let_def)
qed auto

lemma ascending_merge_upd:
  "ascending (map fst es) \<Longrightarrow> ascending (map fst us) \<Longrightarrow> ascending (map fst (fst (merge_upd es us)))"
proof (induction es us rule: merge_upd.induct)
  case (2 k b us)
  have "\<forall>x\<in>set (fst (merge_upd [] us)). k < fst x"
    using merge_upd_key [of _ "[]" us] 2 by fastforce
  with 2 show ?case by (cases b) (simp_all add: case_prod_beta)
next
  case (3 k0 b0 es k b us)
  have e: "\<forall>x\<in>set es. k0 < fst x" and u: "\<forall>x\<in>set us. k < fst x" using 3 by auto
  have 1: "k0 < k \<Longrightarrow> \<forall>x\<in>set (fst (merge_upd es ((k, b) # us))). k0 < fst x"
    using merge_upd_key [of _ es "(k, b) # us"] e u by fastforce
  have 2: "k0 = k \<Longrightarrow> \<forall>x\<in>set (fst (merge_upd es us)). k < fst x"
    using merge_upd_key [of _ es us] e u by fastforce
  have 4: "k < k0 \<Longrightarrow> \<forall>x\<in>set (fst (merge_upd ((k0, b0) # es) us)). k < fst x"
    using merge_upd_key [of _ "(k0, b0) # es" us] e u by fastforce
  show ?case
    using 3 1 2 4 by (cases "k0 < k"; cases "k0 = k"; cases b) (simp_all add: case_prod_beta Let_def)
qed simp

lemma map_of_merge_upd:
  "ascending (map fst es) \<Longrightarrow> ascending (map fst us) \<Longrightarrow>
   map_of (fst (merge_upd es us)) th = (case map_of us th of None \<Rightarrow> map_of es th | Some b \<Rightarrow> b)"
proof (induction es us rule: merge_upd.induct)
  case (2 k b us)
  have "k \<notin> fst ` set us" using 2 by auto
  then have "map_of us k = None" by (simp add: map_of_eq_None_iff)
  with 2 show ?case
    by (auto simp: case_prod_beta split: option.splits)
next
  case (3 k0 b0 es k b us)
  have "k \<notin> fst ` set us" using 3 by auto
  then have n: "map_of us k = None" by (simp add: map_of_eq_None_iff)
  have e: "k0 \<notin> fst ` set es" using 3 by auto
  then have n0: "map_of es k0 = None" by (simp add: map_of_eq_None_iff)
  have l: "k0 \<noteq> k \<Longrightarrow> k0 < k \<Longrightarrow> map_of us k0 = None" 
    using 3 by (auto simp: map_of_eq_None_iff)
  have l2: "\<not> k0 < k \<Longrightarrow> map_of es k = None" if "k0 \<noteq> k"
    using 3 that by (auto simp: map_of_eq_None_iff)
  show ?case
    using 3 n n0 l l2 by (cases "k0 < k"; cases "k0 = k"; cases b) (auto simp: case_prod_beta Let_def split: option.splits)
qed simp

lemma merge_upd_counts:
  "length (fst (merge_upd es us)) + fst (snd (merge_upd es us)) = length es + snd (snd (merge_upd es us))"
  by (induction es us rule: merge_upd.induct) (simp_all add: case_prod_beta Let_def split: option.splits if_splits)

section \<open>The store invariant\<close>

definition shard_entries :: "shard \<Rightarrow> cold_entry list" where
  "shard_entries g = map (\<lambda>i. (sh_keys g ! i, blob g i)) [0..<length (sh_keys g)]"

lemma shard_entries_build: "entry_bytes es < 2 ^ 32 \<Longrightarrow> shard_entries (build es) = es"
  by (auto simp: shard_entries_def blob_build intro: nth_equalityI)

definition shard_ok :: "nat \<Rightarrow> shard \<Rightarrow> bool" where
  "shard_ok sh g \<longleftrightarrow>
     (let es = shard_entries g
      in g = build es \<and> ascending (map fst es) \<and> entry_bytes es < 2 ^ 32 \<and>
         (\<forall>e\<in>set es. shard_of (fst e) = sh))"

definition cold_ok :: "cold_store \<Rightarrow> bool" where
  "cold_ok st \<longleftrightarrow>
     length (cold_shards st) = SHARDS \<and> (\<forall>sh<SHARDS. shard_ok sh (cold_shards st ! sh)) \<and>
     cold_keys st = sum_list (map (length \<circ> sh_keys) (cold_shards st))"

text \<open>The \<open>ends\<close> array holds 32-bit offsets, so a shard holds fewer than \<open>2^32\<close> bytes; \<open>room\<close> says
  that a batch keeps it so.\<close>

definition room :: "cold_store \<Rightarrow> nat \<Rightarrow> update list \<Rightarrow> bool" where
  "room st sh ups \<longleftrightarrow>
     length (sh_arena (cold_shards st ! sh)) +
     sum_list (map (\<lambda>(k, b). case b of None \<Rightarrow> 0 | Some x \<Rightarrow> length x) ups) < 2 ^ 32"

lemma shard_of_less: "shard_of th < SHARDS"
  by (simp add: shard_of_def SHARDS_def)

lemma shard_ok_obtain:
  assumes "cold_ok st" and "sh < SHARDS"
  obtains es where "cold_shards st ! sh = build es" and "ascending (map fst es)"
    and "entry_bytes es < 2 ^ 32" and "\<forall>e\<in>set es. shard_of (fst e) = sh"
  using assms unfolding cold_ok_def shard_ok_def Let_def by blast

lemma cold_get_map_of:
  assumes "cold_ok st" and "cold_shards st ! shard_of th = build es"
    and "ascending (map fst es)" and "entry_bytes es < 2 ^ 32"
  shows "cold_get st th = map_of es th"
  using assms by (simp add: cold_get_def get_build)

lemma cold_contains_key_iff: "cold_contains_key st th \<longleftrightarrow> cold_get st th \<noteq> None"
  by (simp add: cold_contains_key_def cold_get_def Let_def)

lemma entry_bytes_merge_upd:
  "entry_bytes (fst (merge_upd es us)) \<le>
     entry_bytes es + sum_list (map (\<lambda>(k, b). case b of None \<Rightarrow> 0 | Some x \<Rightarrow> length x) us)"
proof (induction es us rule: merge_upd.induct)
  case (2 k b us)
  then show ?case by (cases b) (auto simp: entry_bytes_def case_prod_beta)
next
  case (3 k0 b0 es k b us)
  then show ?case
    by (cases "k0 < k"; cases "k0 = k"; cases b) (auto simp: entry_bytes_def case_prod_beta Let_def)
qed (simp add: entry_bytes_def)

definition drops :: "cold_entry list \<Rightarrow> update \<Rightarrow> bool" where
  "drops es u \<longleftrightarrow> snd u = None \<and> map_of es (fst u) \<noteq> None"

lemma drops_Cons: "k0 \<noteq> fst u \<Longrightarrow> drops ((k0, b0) # es) u = drops es u"
  by (auto simp: drops_def)

lemma merge_upd_removed:
  "ascending (map fst es) \<Longrightarrow> ascending (map fst us) \<Longrightarrow>
   fst (snd (merge_upd es us)) = length (filter (drops es) us)"
proof (induction es us rule: merge_upd.induct)
  case (2 k b us)
  then show ?case by (cases b) (auto simp: case_prod_beta drops_def)
next
  case (3 k0 b0 es k b us)
  have u: "\<forall>x\<in>set us. k < fst x" using 3 by auto
  have late: "filter (drops ((k0, b0) # es)) us = filter (drops es) us" if "k0 \<le> k"
    using that u by (intro filter_cong) (auto intro!: drops_Cons)
  have "\<not> drops ((k0, b0) # es) (k, b)" if "k < k0"
    using that 3 by (auto simp: drops_def map_of_eq_None_iff)
  moreover have "drops ((k0, b0) # es) (k, b) = drops es (k, b)" if "k0 < k"
    using that by (intro drops_Cons) auto
  moreover have "drops ((k0, b0) # es) (k, b) \<longleftrightarrow> b = None" if "k0 = k"
    using that by (simp add: drops_def)
  ultimately show ?case
    using 3 late by (cases "k0 < k"; cases "k0 = k"; cases b) (auto simp: case_prod_beta Let_def)
qed simp

lemma sum_list_update_nat:
  fixes xs :: "nat list"
  assumes "i < length xs"
  shows "sum_list (xs[i := v]) + xs ! i = sum_list xs + v"
  using assms
proof (induction xs arbitrary: i)
  case (Cons x xs)
  then show ?case by (cases i) auto
qed simp

lemma rebuild_entries:
  assumes "cold_ok st" and "sh < SHARDS" and "room st sh ups"
    and "cold_shards st ! sh = build es" and "entry_bytes es < 2 ^ 32"
  shows "fst (rebuild st sh ups) =
      \<lparr>cold_shards = (cold_shards st)[sh := build (fst (merge_upd es ups))],
       cold_keys = cold_keys st + snd (snd (merge_upd es ups)) - fst (snd (merge_upd es ups))\<rparr>"
    and "snd (rebuild st sh ups) = fst (snd (merge_upd es ups))"
    and "entry_bytes (fst (merge_upd es ups)) < 2 ^ 32"
proof -
  have l: "rebuild_loop (build es) ups 0 0 (shard_empty, 0, 0) =
      (build (fst (merge_upd es ups)), fst (snd (merge_upd es ups)), snd (snd (merge_upd es ups)))"
    using rebuild_loop_merge [of "[]" es ups _ _ _ "[]" "[]" 0 0] assms(5)
    by (cases "merge_upd es ups") simp
  show "fst (rebuild st sh ups) =
      \<lparr>cold_shards = (cold_shards st)[sh := build (fst (merge_upd es ups))],
       cold_keys = cold_keys st + snd (snd (merge_upd es ups)) - fst (snd (merge_upd es ups))\<rparr>"
    "snd (rebuild st sh ups) = fst (snd (merge_upd es ups))"
    using l assms(4) by (simp_all add: rebuild_def Let_def case_prod_beta)
  show "entry_bytes (fst (merge_upd es ups)) < 2 ^ 32"
    using entry_bytes_merge_upd [of es ups] assms(3,4) by (simp add: room_def entry_bytes_def)
qed

definition batch_for :: "nat \<Rightarrow> update list \<Rightarrow> bool" where
  "batch_for sh ups \<longleftrightarrow> sh < SHARDS \<and> ascending (map fst ups) \<and> (\<forall>u\<in>set ups. shard_of (fst u) = sh)"

lemma rebuild_ok:
  assumes "cold_ok st" and "batch_for sh ups" and "room st sh ups"
  shows "cold_ok (fst (rebuild st sh ups))"
proof -
  have sh: "sh < SHARDS" and asc: "ascending (map fst ups)" and home: "\<forall>u\<in>set ups. shard_of (fst u) = sh"
    using assms(2) by (auto simp: batch_for_def)
  obtain es where es: "cold_shards st ! sh = build es" "ascending (map fst es)"
    "entry_bytes es < 2 ^ 32" "\<forall>e\<in>set es. shard_of (fst e) = sh"
    using shard_ok_obtain [OF assms(1) sh] .
  let ?m = "fst (merge_upd es ups)"
  note re = rebuild_entries [OF assms(1) sh assms(3) es(1,3)]
  have len: "length (cold_shards st) = SHARDS" using assms(1) by (simp add: cold_ok_def)
  have "shard_ok sh (build ?m)"
    using re(3) ascending_merge_upd [OF es(2) asc] merge_upd_key [of _ es ups] es(4) home
    by (fastforce simp: shard_ok_def shard_entries_build)
  moreover have "cold_keys st + snd (snd (merge_upd es ups)) - fst (snd (merge_upd es ups))
      = sum_list ((map (length \<circ> sh_keys) (cold_shards st))[sh := length ?m])"
    using sum_list_update_nat [of sh "map (length \<circ> sh_keys) (cold_shards st)" "length ?m"]
      merge_upd_counts [of es ups] assms(1) sh len es(1) by (simp add: cold_ok_def)
  ultimately show ?thesis
    using assms(1) sh len by (auto simp: cold_ok_def re(1) map_update nth_list_update)
qed

lemma rebuild_get_removed:
  assumes "cold_ok st" and "batch_for sh ups" and "room st sh ups"
  shows "cold_get (fst (rebuild st sh ups)) th =
      (case map_of ups th of None \<Rightarrow> cold_get st th | Some b \<Rightarrow> b)"
    and "snd (rebuild st sh ups) = length (filter (\<lambda>u. snd u = None \<and> cold_get st (fst u) \<noteq> None) ups)"
proof -
  have sh: "sh < SHARDS" and asc: "ascending (map fst ups)" and home: "\<forall>u\<in>set ups. shard_of (fst u) = sh"
    using assms(2) by (auto simp: batch_for_def)
  obtain es where es: "cold_shards st ! sh = build es" "ascending (map fst es)"
    "entry_bytes es < 2 ^ 32" "\<forall>e\<in>set es. shard_of (fst e) = sh"
    using shard_ok_obtain [OF assms(1) sh] .
  let ?m = "fst (merge_upd es ups)"
  note re = rebuild_entries [OF assms(1) sh assms(3) es(1,3)]
  have len: "length (cold_shards st) = SHARDS" using assms(1) by (simp add: cold_ok_def)
  have here: "cold_get st k = map_of es k" if "shard_of k = sh" for k
    using cold_get_map_of [OF assms(1) _ es(2,3)] es(1) that by simp
  show "cold_get (fst (rebuild st sh ups)) th = (case map_of ups th of None \<Rightarrow> cold_get st th | Some b \<Rightarrow> b)"
  proof (cases "shard_of th = sh")
    case True
    have "cold_get (fst (rebuild st sh ups)) th = map_of ?m th"
      using True sh len re(3) ascending_merge_upd [OF es(2) asc]
      by (intro cold_get_map_of [OF rebuild_ok [OF assms]]) (simp_all add: re(1))
    with map_of_merge_upd [OF es(2) asc, of th] here [OF True] show ?thesis
      by (simp split: option.split)
  next
    case False
    then have "map_of ups th = None" using home by (auto simp: map_of_eq_None_iff)
    moreover have "cold_get (fst (rebuild st sh ups)) th = cold_get st th"
      using False by (simp add: cold_get_def re(1) nth_list_update)
    ultimately show ?thesis by simp
  qed
  have "filter (\<lambda>u. snd u = None \<and> cold_get st (fst u) \<noteq> None) ups = filter (drops es) ups"
    using home here by (intro filter_cong) (auto simp: drops_def)
  then show "snd (rebuild st sh ups) = length (filter (\<lambda>u. snd u = None \<and> cold_get st (fst u) \<noteq> None) ups)"
    by (simp add: re(2) merge_upd_removed [OF es(2) asc])
qed

text \<open>Rebuilding a shard is a map update: afterwards every updated keyword has its new blob (or
  none), every other keyword of the store keeps its own, the store invariant holds again
  and the count returned is the number of keywords that disappeared.\<close>

theorem rebuild_lookup:
  assumes "cold_ok st" and "batch_for sh ups" and "room st sh ups"
  shows "cold_get (fst (rebuild st sh ups)) th =
      (case map_of ups th of None \<Rightarrow> cold_get st th | Some b \<Rightarrow> b) \<and>
    cold_ok (fst (rebuild st sh ups)) \<and>
    snd (rebuild st sh ups) = length (filter (\<lambda>u. snd u = None \<and> cold_get st (fst u) \<noteq> None) ups)"
  using rebuild_get_removed [OF assms] rebuild_ok [OF assms] by blast

lemma cold_default_ok: "cold_ok cold_default"
proof -
  have "shard_entries shard_empty = []" by (simp add: shard_entries_def shard_empty_def)
  then have "shard_ok sh shard_empty" for sh
    by (simp add: shard_ok_def entry_bytes_def)
  then show ?thesis
    by (simp add: cold_ok_def cold_default_def sum_list_replicate shard_empty_def [symmetric])
      (simp add: shard_empty_def)
qed

lemma cold_get_default: "cold_get cold_default th = None"
  using shard_of_less [of th] by (simp add: cold_get_def cold_default_def find_key_def shard_empty_def)

theorem rebuild_lookup_witness:
  "cold_get (fst (rebuild cold_default 1 [(1, Some [7]), (1025, None)])) 1 = Some [7] \<and>
   snd (rebuild cold_default 1 [(1, Some [7]), (1025, None)]) = 0"
proof -
  have "batch_for 1 [(1, Some [7]), (1025, None)]"
    by (simp add: batch_for_def SHARDS_def shard_of_def)
  moreover have "room cold_default 1 [(1, Some [7]), (1025, None)]"
    by (simp add: room_def cold_default_def SHARDS_def shard_empty_def)
  ultimately show ?thesis
    using rebuild_lookup [OF cold_default_ok, of 1 "[(1, Some [7]), (1025, None)]" 1]
    by (simp add: cold_get_default)
qed

section \<open>The contract\<close>

locale blob_map =
  fixes get :: "'s \<Rightarrow> 'k::linorder \<Rightarrow> 'b option"
    and has :: "'s \<Rightarrow> 'k \<Rightarrow> bool"
    and batch :: "'s \<Rightarrow> nat \<Rightarrow> ('k \<times> 'b option) list \<Rightarrow> 's \<times> nat"
    and invar :: "'s \<Rightarrow> bool"
    and fits :: "'s \<Rightarrow> nat \<Rightarrow> ('k \<times> 'b option) list \<Rightarrow> bool"
  assumes has_get: "has s k \<longleftrightarrow> get s k \<noteq> None"
    and get_batch: "invar s \<Longrightarrow> fits s n us \<Longrightarrow>
      get (fst (batch s n us)) k = (case map_of us k of None \<Rightarrow> get s k | Some b \<Rightarrow> b)"
    and invar_batch: "invar s \<Longrightarrow> fits s n us \<Longrightarrow> invar (fst (batch s n us))"
begin

lemma get_batch_other:
  "invar s \<Longrightarrow> fits s n us \<Longrightarrow> k \<notin> fst ` set us \<Longrightarrow> get (fst (batch s n us)) k = get s k"
proof -
  assume a: "invar s" "fits s n us" "k \<notin> fst ` set us"
  then have "map_of us k = None" by (simp add: map_of_eq_None_iff)
  with a show ?thesis by (simp add: get_batch)
qed

lemma get_batch_here:
  "invar s \<Longrightarrow> fits s n us \<Longrightarrow> distinct (map fst us) \<Longrightarrow> (k, b) \<in> set us \<Longrightarrow>
   get (fst (batch s n us)) k = b"
  by (simp add: get_batch)

lemma has_batch:
  "invar s \<Longrightarrow> fits s n us \<Longrightarrow> distinct (map fst us) \<Longrightarrow> (k, b) \<in> set us \<Longrightarrow>
   has (fst (batch s n us)) k \<longleftrightarrow> b \<noteq> None"
  by (simp add: has_get get_batch_here)

end

definition batch_fits :: "cold_store \<Rightarrow> nat \<Rightarrow> update list \<Rightarrow> bool" where
  "batch_fits st sh ups \<longleftrightarrow> batch_for sh ups \<and> room st sh ups"

interpretation cold: blob_map cold_get cold_contains_key rebuild cold_ok batch_fits
  by unfold_locales (simp_all add: cold_contains_key_iff rebuild_get_removed rebuild_ok batch_fits_def)

end
