(* ===== verification/Rust_Str.thy ===== *)
theory Rust_Str
  imports Prelude
begin

text \<open>
  The part of Rust's \<open>str\<close> and \<open>char\<close> that the server uses. A \<open>char\<close> is its code point, a
  string the list of its characters; \<open>utf8\<close> gives the bytes, and \<open>str_len\<close> counts them as
  \<open>str::len\<close> does. \<open>from_utf8_lossy\<close> is decoded in full, byte by byte, as the standard
  library decodes it.

  The Unicode tables behind \<open>to_lowercase\<close>, \<open>is_alphabetic\<close> and \<open>is_numeric\<close> are an argument of the
  definitions that use them (record \<open>unicode\<close>); \<open>unicode_ok\<close> states what is documented of
  them and \<open>ascii_tables\<close> is a concrete instance that agrees with it.
\<close>

type_synonym rchar = nat
type_synonym rstr = "nat list"

definition lit :: "string \<Rightarrow> rstr" where
  "lit s = map of_char s"

section \<open>Characters\<close>

definition is_whitespace :: "rchar \<Rightarrow> bool" where
  "is_whitespace c \<longleftrightarrow>
     (9 \<le> c \<and> c \<le> 13) \<or> c = 32 \<or> c = 0x85 \<or> c = 0xA0 \<or> c = 0x1680 \<or> (0x2000 \<le> c \<and> c \<le> 0x200A) \<or>
     c = 0x2028 \<or> c = 0x2029 \<or> c = 0x202F \<or> c = 0x205F \<or> c = 0x3000"

definition ascii_lower :: "rchar \<Rightarrow> rchar" where
  "ascii_lower c = (if 65 \<le> c \<and> c \<le> 90 then c + 32 else c)"

definition is_ascii_digit :: "rchar \<Rightarrow> bool" where
  "is_ascii_digit c \<longleftrightarrow> 48 \<le> c \<and> c \<le> 57"

definition is_ascii_hexdigit :: "rchar \<Rightarrow> bool" where
  "is_ascii_hexdigit c \<longleftrightarrow> is_ascii_digit c \<or> (65 \<le> c \<and> c \<le> 70) \<or> (97 \<le> c \<and> c \<le> 102)"

definition is_ascii_letter :: "rchar \<Rightarrow> bool" where
  "is_ascii_letter c \<longleftrightarrow> (65 \<le> c \<and> c \<le> 90) \<or> (97 \<le> c \<and> c \<le> 122)"

record unicode =
  u_lower :: "rchar \<Rightarrow> rstr"
  u_str_lower :: "rstr \<Rightarrow> rstr"
  u_alphabetic :: "rchar \<Rightarrow> bool"
  u_numeric :: "rchar \<Rightarrow> bool"

definition u_alphanumeric :: "unicode \<Rightarrow> rchar \<Rightarrow> bool" where
  "u_alphanumeric u c \<longleftrightarrow> u_alphabetic u c \<or> u_numeric u c"

definition is_ascii :: "rstr \<Rightarrow> bool" where
  "is_ascii s \<longleftrightarrow> list_all (\<lambda>c. c < 128) s"

text \<open>What is documented of the tables: on ASCII they are the ASCII functions, no other character
  lowercases to an ASCII character that is not a letter, white space is its own lowercase
  and nothing else lowercases to white space or to nothing.\<close>

definition unicode_ok :: "unicode \<Rightarrow> bool" where
  "unicode_ok u \<longleftrightarrow>
     (\<forall>c<128. u_lower u c = [ascii_lower c]) \<and>
     (\<forall>s. is_ascii s \<longrightarrow> u_str_lower u s = map ascii_lower s) \<and>
     (\<forall>c<128. u_alphabetic u c = is_ascii_letter c) \<and>
     (\<forall>c<128. u_numeric u c = is_ascii_digit c) \<and>
     (\<forall>c. 128 \<le> c \<longrightarrow> (\<forall>d\<in>set (u_lower u c). d < 128 \<longrightarrow> is_ascii_letter d)) \<and>
     (\<forall>c. is_whitespace c \<longrightarrow> u_lower u c = [c]) \<and>
     (\<forall>c. \<not> is_whitespace c \<longrightarrow> u_lower u c \<noteq> [] \<and> (\<forall>d\<in>set (u_lower u c). \<not> is_whitespace d))"

definition ascii_tables :: unicode where
  "ascii_tables = \<lparr>u_lower = (\<lambda>c. [ascii_lower c]), u_str_lower = map ascii_lower,
     u_alphabetic = is_ascii_letter, u_numeric = is_ascii_digit\<rparr>"

lemma ascii_tables_ok: "unicode_ok ascii_tables"
  by (auto simp: unicode_ok_def ascii_tables_def ascii_lower_def is_whitespace_def)

lemma unicode_okD:
  assumes "unicode_ok u"
  shows "c < 128 \<Longrightarrow> u_lower u c = [ascii_lower c]"
    and "is_ascii s \<Longrightarrow> u_str_lower u s = map ascii_lower s"
    and "c < 128 \<Longrightarrow> u_alphabetic u c = is_ascii_letter c"
    and "c < 128 \<Longrightarrow> u_numeric u c = is_ascii_digit c"
    and "128 \<le> c \<Longrightarrow> d \<in> set (u_lower u c) \<Longrightarrow> d < 128 \<Longrightarrow> is_ascii_letter d"
    and "is_whitespace c \<Longrightarrow> u_lower u c = [c]"
    and "\<not> is_whitespace c \<Longrightarrow> u_lower u c \<noteq> []"
    and "\<not> is_whitespace c \<Longrightarrow> d \<in> set (u_lower u c) \<Longrightarrow> \<not> is_whitespace d"
  using assms unfolding unicode_ok_def by blast+

lemma is_ascii_simps [simp]:
  "is_ascii []" "is_ascii (c # s) \<longleftrightarrow> c < 128 \<and> is_ascii s" "is_ascii (s @ t) \<longleftrightarrow> is_ascii s \<and> is_ascii t"
  by (auto simp: is_ascii_def)

section \<open>Strings\<close>

definition trim :: "rstr \<Rightarrow> rstr" where
  "trim s = rev (dropWhile is_whitespace (rev (dropWhile is_whitespace s)))"

fun split_by :: "(rchar \<Rightarrow> bool) \<Rightarrow> rstr \<Rightarrow> rstr list" where
  "split_by P [] = [[]]"
| "split_by P (c # cs) =
     (if P c then [] # split_by P cs
      else case split_by P cs of [] \<Rightarrow> [[c]] | w # ws \<Rightarrow> (c # w) # ws)"

definition split_whitespace :: "rstr \<Rightarrow> rstr list" where
  "split_whitespace s = filter (\<lambda>w. w \<noteq> []) (split_by is_whitespace s)"

fun join :: "rstr \<Rightarrow> rstr list \<Rightarrow> rstr" where
  "join sep [] = []"
| "join sep [w] = w"
| "join sep (w # v # ws) = w @ sep @ join sep (v # ws)"

definition starts_with :: "rstr \<Rightarrow> rstr \<Rightarrow> bool" where
  "starts_with s p \<longleftrightarrow> take (length p) s = p"

fun str_contains :: "rstr \<Rightarrow> rstr \<Rightarrow> bool" where
  "str_contains [] p = (p = [])"
| "str_contains (c # cs) p = (starts_with (c # cs) p \<or> str_contains cs p)"

definition utf8_char :: "rchar \<Rightarrow> bytes" where
  "utf8_char c =
     (if c < 0x80 then [of_nat c]
      else if c < 0x800 then [of_nat (0xC0 + c div 64), of_nat (0x80 + c mod 64)]
      else if c < 0x10000 then
        [of_nat (0xE0 + c div 4096), of_nat (0x80 + c div 64 mod 64), of_nat (0x80 + c mod 64)]
      else
        [of_nat (0xF0 + c div 262144), of_nat (0x80 + c div 4096 mod 64),
         of_nat (0x80 + c div 64 mod 64), of_nat (0x80 + c mod 64)])"

definition utf8 :: "rstr \<Rightarrow> bytes" where
  "utf8 s = concat (map utf8_char s)"

definition str_len :: "rstr \<Rightarrow> nat" where
  "str_len s = length (utf8 s)"

definition scalar :: "rchar \<Rightarrow> bool" where
  "scalar c \<longleftrightarrow> c < 0xD800 \<or> (0xE000 \<le> c \<and> c < 0x110000)"

section \<open>Lossy decoding\<close>

definition is_cont :: "nat \<Rightarrow> bool" where
  "is_cont b \<longleftrightarrow> 0x80 \<le> b \<and> b < 0xC0"

text \<open>The second byte of a three- or four-byte sequence has a narrower range after some first bytes
  (no overlong form, no surrogate, nothing above U+10FFFF).\<close>

definition second3_ok :: "nat \<Rightarrow> nat \<Rightarrow> bool" where
  "second3_ok b c \<longleftrightarrow>
     (b = 0xE0 \<and> 0xA0 \<le> c \<and> c < 0xC0) \<or> (0xE1 \<le> b \<and> b \<le> 0xEC \<and> is_cont c) \<or>
     (b = 0xED \<and> 0x80 \<le> c \<and> c < 0xA0) \<or> (0xEE \<le> b \<and> b \<le> 0xEF \<and> is_cont c)"

definition second4_ok :: "nat \<Rightarrow> nat \<Rightarrow> bool" where
  "second4_ok b c \<longleftrightarrow>
     (b = 0xF0 \<and> 0x90 \<le> c \<and> c < 0xC0) \<or> (0xF1 \<le> b \<and> b \<le> 0xF3 \<and> is_cont c) \<or>
     (b = 0xF4 \<and> 0x80 \<le> c \<and> c < 0x90)"

definition want :: "(nat \<Rightarrow> bool) \<Rightarrow> nat list \<Rightarrow> (nat \<times> nat list) option" where
  "want P r = (case r of [] \<Rightarrow> None | c # cs \<Rightarrow> if P c then Some (c, cs) else None)"

text \<open>One step: the character that starts with byte \<open>b\<close> (\<open>None\<close> for an invalid sequence) and the
  bytes after what was consumed.\<close>

definition utf8_next :: "nat \<Rightarrow> nat list \<Rightarrow> rchar option \<times> nat list" where
  "utf8_next b r =
     (if b < 0x80 then (Some b, r)
      else if 0xC2 \<le> b \<and> b \<le> 0xDF then
        (case want is_cont r of
           None \<Rightarrow> (None, r)
         | Some (c, r1) \<Rightarrow> (Some ((b - 0xC0) * 64 + (c - 0x80)), r1))
      else if 0xE0 \<le> b \<and> b \<le> 0xEF then
        (case want (second3_ok b) r of
           None \<Rightarrow> (None, r)
         | Some (c, r1) \<Rightarrow>
             (case want is_cont r1 of
                None \<Rightarrow> (None, r1)
              | Some (d, r2) \<Rightarrow> (Some ((b - 0xE0) * 4096 + (c - 0x80) * 64 + (d - 0x80)), r2)))
      else if 0xF0 \<le> b \<and> b \<le> 0xF4 then
        (case want (second4_ok b) r of
           None \<Rightarrow> (None, r)
         | Some (c, r1) \<Rightarrow>
             (case want is_cont r1 of
                None \<Rightarrow> (None, r1)
              | Some (d, r2) \<Rightarrow>
                  (case want is_cont r2 of
                     None \<Rightarrow> (None, r2)
                   | Some (e, r3) \<Rightarrow>
                       (Some ((b - 0xF0) * 262144 + (c - 0x80) * 4096 + (d - 0x80) * 64 + (e - 0x80)), r3))))
      else (None, r))"

lemma want_shorter: "want P r = Some (c, r') \<Longrightarrow> length r' < length r"
  by (auto simp: want_def split: list.splits if_splits)

lemma utf8_next_shorter: "utf8_next b r = (co, r') \<Longrightarrow> length r' \<le> length r"
  by (auto simp: utf8_next_def split: if_splits option.splits prod.splits dest!: want_shorter)

function lossy_nats :: "nat list \<Rightarrow> rstr" where
  "lossy_nats [] = []"
| "lossy_nats (b # r) =
     (case utf8_next b r of
        (Some c, r') \<Rightarrow> c # lossy_nats r'
      | (None, r') \<Rightarrow> 0xFFFD # lossy_nats r')"
  by pat_completeness auto
termination
  by (relation "measure length") (auto dest!: utf8_next_shorter [OF sym])

definition from_utf8_lossy :: "bytes \<Rightarrow> rstr" where
  "from_utf8_lossy bs = lossy_nats (map unat bs)"

section \<open>Facts\<close>

lemma split_by_not_Nil [simp]: "split_by P s \<noteq> []"
  by (induction s) (auto split: list.splits)

lemma split_by_append_sep: "P c \<Longrightarrow> split_by P (s @ c # t) = split_by P s @ split_by P t"
  by (induction s) (auto split: list.splits)

lemma split_by_none: "\<forall>c\<in>set s. \<not> P c \<Longrightarrow> split_by P s = [s]"
  by (induction s) auto

lemma split_by_words: "\<forall>w\<in>set (split_by P s). \<forall>c\<in>set w. \<not> P c \<and> c \<in> set s"
  by (induction s) (auto split: list.splits)

lemma split_by_map:
  assumes "\<forall>c\<in>set s. P (f c) \<longleftrightarrow> P c"
  shows "split_by P (map f s) = map (map f) (split_by P s)"
  using assms by (induction s) (auto split: list.splits)

lemma utf8_simps [simp]: "utf8 [] = []" "utf8 (c # s) = utf8_char c @ utf8 s" "utf8 (s @ t) = utf8 s @ utf8 t"
  by (simp_all add: utf8_def)

lemma str_len_simps [simp]:
  "str_len [] = 0" "str_len (c # s) = length (utf8_char c) + str_len s" "str_len (s @ t) = str_len s + str_len t"
  by (simp_all add: str_len_def)

lemma length_utf8_char_pos [simp]: "0 < length (utf8_char c)" "Suc 0 \<le> length (utf8_char c)"
  by (simp_all add: utf8_char_def)

lemma length_utf8_char_ascii [simp]: "c < 128 \<Longrightarrow> length (utf8_char c) = 1"
  by (simp add: utf8_char_def)

lemma str_len_ge_length: "length s \<le> str_len s"
proof (induction s)
  case (Cons c s)
  with length_utf8_char_pos(2) [of c] show ?case by (simp del: length_utf8_char_pos)
qed simp

lemma str_len_0 [simp]: "str_len s = 0 \<longleftrightarrow> s = []"
  using str_len_ge_length [of s] by auto

lemma str_len_ascii: "is_ascii s \<Longrightarrow> str_len s = length s"
  by (induction s) (auto simp: utf8_char_def)

lemma str_contains_iff: "str_contains s p \<longleftrightarrow> (\<exists>a b. s = a @ p @ b)"
proof (induction s)
  case (Cons c cs)
  have "starts_with (c # cs) p \<longleftrightarrow> (\<exists>b. c # cs = p @ b)"
    by (metis append_eq_conv_conj append_take_drop_id starts_with_def)
  with Cons show ?case
    by simp (metis append_Cons append_Nil append_eq_Cons_conv)
qed simp

lemma trim_id: "\<forall>c\<in>set s. \<not> is_whitespace c \<Longrightarrow> trim s = s"
proof -
  assume "\<forall>c\<in>set s. \<not> is_whitespace c"
  then have "dropWhile is_whitespace s = s" "dropWhile is_whitespace (rev s) = rev s"
    by (auto simp: dropWhile_eq_self_iff hd_rev)
  then show ?thesis by (simp add: trim_def)
qed

section \<open>Lossy decoding of a valid string\<close>

lemma unat_u8: "n < 256 \<Longrightarrow> unat (of_nat n :: u8) = n"
  by (simp add: unat_of_nat)

lemma digits64_2: "(c::nat) = c div 64 * 64 + c mod 64"
  by simp

lemma digits64_3: "(c::nat) = c div 4096 * 4096 + c div 64 mod 64 * 64 + c mod 64"
proof -
  have "c div 4096 = c div 64 div 64" by (simp add: div_mult2_eq [symmetric])
  then show ?thesis using div_mult_mod_eq [of "c div 64" 64] div_mult_mod_eq [of c 64] by linarith
qed

lemma digits64_4:
  "(c::nat) = c div 262144 * 262144 + c div 4096 mod 64 * 4096 + c div 64 mod 64 * 64 + c mod 64"
proof -
  have "c div 262144 = c div 4096 div 64" by (simp add: div_mult2_eq [symmetric])
  then show ?thesis using div_mult_mod_eq [of "c div 4096" 64] digits64_3 [of c] by linarith
qed

lemma lossy_char:
  assumes "scalar c"
  shows "lossy_nats (map unat (utf8_char c) @ r) = c # lossy_nats r"
proof -
  define q2 where "q2 = c div 64"
  define q3 where "q3 = c div 4096"
  define q4 where "q4 = c div 262144"
  define s where "s = c mod 64"
  define s2 where "s2 = c div 64 mod 64"
  define s3 where "s3 = c div 4096 mod 64"
  have lt: "s < 64" "s2 < 64" "s3 < 64" by (simp_all add: s_def s2_def s3_def)
  have c2: "c = q2 * 64 + s" using digits64_2 [of c] by (simp only: q2_def s_def)
  have c3: "c = q3 * 4096 + s2 * 64 + s" using digits64_3 [of c] by (simp only: q3_def s_def s2_def)
  have c4: "c = q4 * 262144 + s3 * 4096 + s2 * 64 + s" using digits64_4 [of c] by (simp only: q4_def s_def s2_def s3_def)
  consider (one) "c < 0x80" | (two) "0x80 \<le> c" "c < 0x800" | (three) "0x800 \<le> c" "c < 0x10000" | (four) "0x10000 \<le> c" "c < 0x110000"
    using assms by (fastforce simp: scalar_def)
  then show ?thesis
  proof cases
    case one
    then show ?thesis by (simp add: utf8_char_def utf8_next_def unat_u8)
  next
    case two
    then have "map unat (utf8_char c) = [0xC0 + q2, 0x80 + s]"
      using c2 lt by (simp add: utf8_char_def unat_u8 del: of_nat_add flip: q2_def s_def)
    then show ?thesis
      using two c2 lt by (simp add: utf8_next_def want_def is_cont_def)
  next
    case three
    have q: "q3 = 0 \<Longrightarrow> 32 \<le> s2" "q3 = 13 \<Longrightarrow> s2 < 32" "q3 < 16"
      using three assms c3 lt by (auto simp: scalar_def)
    have "utf8_char c = [of_nat (0xE0 + q3), of_nat (0x80 + s2), of_nat (0x80 + s)]"
      using three by (simp add: utf8_char_def q3_def s_def s2_def del: of_nat_add)
    with lt q have m: "map unat (utf8_char c) = [0xE0 + q3, 0x80 + s2, 0x80 + s]"
      by (simp add: unat_u8 del: of_nat_add)
    from q have "second3_ok (0xE0 + q3) (0x80 + s2)"
      using lt by (auto simp: second3_ok_def is_cont_def)
    then show ?thesis
      using m c3 lt q by (simp add: utf8_next_def want_def is_cont_def)
  next
    case four
    have q: "q4 = 0 \<Longrightarrow> 16 \<le> s3" "q4 = 4 \<Longrightarrow> s3 < 16" "q4 < 5"
      using four c4 lt by auto
    have "utf8_char c = [of_nat (0xF0 + q4), of_nat (0x80 + s3), of_nat (0x80 + s2), of_nat (0x80 + s)]"
      using four by (simp add: utf8_char_def q4_def s_def s2_def s3_def del: of_nat_add)
    with lt q have m: "map unat (utf8_char c) = [0xF0 + q4, 0x80 + s3, 0x80 + s2, 0x80 + s]"
      by (simp add: unat_u8 del: of_nat_add)
    have "q4 = 0 \<or> q4 = 4 \<or> (1 \<le> q4 \<and> q4 \<le> 3)" using q(3) by linarith
    then have "second4_ok (0xF0 + q4) (0x80 + s3)"
      using q lt by (auto simp: second4_ok_def is_cont_def)
    then show ?thesis
      using m c4 lt q by (simp add: utf8_next_def want_def is_cont_def)
  qed
qed

definition valid_str :: "rstr \<Rightarrow> bool" where
  "valid_str s \<longleftrightarrow> list_all scalar s"

lemma from_utf8_lossy_utf8: "valid_str s \<Longrightarrow> from_utf8_lossy (utf8 s) = s"
  unfolding from_utf8_lossy_def valid_str_def
  by (induction s) (auto simp: lossy_char)

text \<open>Whatever the bytes, the result is a string: every character is a scalar value.\<close>

lemma utf8_next_scalar: "utf8_next b r = (Some c, r') \<Longrightarrow> scalar c"
  by (auto simp: utf8_next_def want_def is_cont_def second3_ok_def second4_ok_def scalar_def
      split: if_splits option.splits list.splits) linarith+

lemma valid_lossy: "valid_str (from_utf8_lossy bs)"
proof -
  have "list_all scalar (lossy_nats ns)" for ns
    by (induction ns rule: lossy_nats.induct)
      (auto simp: scalar_def [of 65533] dest: utf8_next_scalar split: prod.splits option.splits)
  then show ?thesis by (simp add: valid_str_def from_utf8_lossy_def)
qed

end
