(* ===== verification/Tokenizer.thy ===== *)
theory Tokenizer
  imports Rust_Str
begin

text \<open>
  The tokenizer of \<open>src/state/keyword_index.rs\<close>: the FNV-1a token hash, accent folding, the
  split of a file name into indexable tokens (with its ASCII fast path), sub-tokens at
  letter/digit boundaries, and the tokens of one search term. A visitor callback is the
  list of what it is called with, in order.
\<close>

section \<open>Hashing and separators\<close>

definition token_hash :: "rstr \<Rightarrow> u32" where
  "token_hash token = fold (\<lambda>b h. (h XOR ucast b) * 0x01000193) (utf8 token) 0x811c9dc5"

definition MIN_KEYWORD_LEN :: nat where
  "MIN_KEYWORD_LEN = 2"

definition COMMON_WORDS_SKIP :: "rstr list" where
  "COMMON_WORDS_SKIP = map lit
     [''the'', ''and'', ''for'', ''with'', ''from'', ''this'', ''that'', ''web'', ''www'',
      ''com'', ''net'', ''org'']"

text \<open>The separators beside white space, in the order of the source: underscore, hyphen, full stop,
  comma, semicolon, the six brackets, exclamation mark and so on, by code point.\<close>

definition is_separator :: "rchar \<Rightarrow> bool" where
  "is_separator c \<longleftrightarrow> is_whitespace c \<or>
     c \<in> set [95, 45, 46, 44, 59, 40, 41, 91, 93, 123, 125, 33, 63, 64, 35, 36, 37, 94, 38, 42,
              43, 61, 47, 92, 124, 60, 62, 34, 39, 96, 126]"

section \<open>Folding\<close>

definition FOLD_LATIN :: "nat list" where
  "FOLD_LATIN =
     lit ''aaaaaaaceeeeiiiidnooooo'' @ replicate 1 0 @ lit ''ouuuuytsaaaaaaaceeeeiiiidnooooo'' @
     replicate 1 0 @ lit ''ouuuuytyaaaaaaccccccccddddeeeeeeeeeegggggggghhhhiiiiiiiiii'' @ replicate 2
     0 @ lit ''jjkkkllllll'' @ replicate 2 0 @ lit ''llnnnnnn'' @ replicate 3 0 @ lit
     ''oooooooorrrrrrssssssssttttttuuuuuuuuuuuuwwyyyzzzzzz'' @ replicate 16 0 @ lit ''e'' @ replicate
     2 0 @ lit ''f'' @ replicate 13 0 @ lit ''oo'' @ replicate 13 0 @ lit ''uu'' @ replicate 28 0 @
     lit ''aaiioouuuuuuuuuu'' @ replicate 1 0 @ lit ''aaaa'' @ replicate 4 0 @ lit ''ggkkoooo'' @
     replicate 2 0 @ lit ''j'' @ replicate 3 0 @ lit ''gg'' @ replicate 2 0 @ lit ''nnaa'' @
     replicate 4 0 @ lit ''aaaaeeeeiiiioooorrrruuuusstt'' @ replicate 2 0 @ lit ''hh'' @ replicate 6
     0 @ lit ''aaeeooooooooyy'' @ replicate 28 0"

definition fold_char :: "rchar \<Rightarrow> rchar option" where
  "fold_char c =
     (if 0x0300 \<le> c \<and> c \<le> 0x036F then None
      else if 0x00C0 \<le> c \<and> c < 0x0250 then
        (let b = FOLD_LATIN ! (c - 0x00C0) in if b \<noteq> 0 then Some b else Some c)
      else Some c)"

fun fold_token :: "unicode \<Rightarrow> rstr \<Rightarrow> rstr" where
  "fold_token u [] = []"
| "fold_token u (c # cs) =
     (case fold_char c of
        None \<Rightarrow> fold_token u cs
      | Some f \<Rightarrow> u_lower u f @ fold_token u cs)"

definition fold_for_match :: "unicode \<Rightarrow> rstr \<Rightarrow> rstr" where
  "fold_for_match u s = (if is_ascii s then map ascii_lower s else fold_token u s)"

section \<open>Splitting into tokens\<close>

fun visit_ascii :: "rstr list \<Rightarrow> rstr list" where
  "visit_ascii [] = []"
| "visit_ascii (tok # toks) =
     (if str_len tok < MIN_KEYWORD_LEN then visit_ascii toks
      else if tok \<in> set COMMON_WORDS_SKIP then visit_ascii toks
      else tok # visit_ascii toks)"

fun visit_folded :: "unicode \<Rightarrow> rstr list \<Rightarrow> rstr list" where
  "visit_folded u [] = []"
| "visit_folded u (raw # raws) =
     (if str_len raw < MIN_KEYWORD_LEN then visit_folded u raws
      else let lc = fold_token u raw in
        if lc = [] \<or> lc \<in> set COMMON_WORDS_SKIP then visit_folded u raws
        else lc # visit_folded u raws)"

definition tokenize_into :: "unicode \<Rightarrow> rstr \<Rightarrow> rstr list" where
  "tokenize_into u filename =
     (if is_ascii filename
      then visit_ascii (split_by is_separator (map ascii_lower filename))
      else visit_folded u (split_by is_separator filename))"

definition tokenize :: "unicode \<Rightarrow> rstr \<Rightarrow> rstr list" where
  "tokenize u filename = tokenize_into u filename"

definition tokenize_search_term :: "unicode \<Rightarrow> rstr \<Rightarrow> rstr list" where
  "tokenize_search_term u term =
     (let trimmed = trim term in
      if trimmed = lit ''*'' \<or> trimmed = lit ''**'' then [trimmed]
      else
        let toks = tokenize u trimmed in
        if toks = [] then
          (let lc = u_str_lower u trimmed in if lc = [] then [] else [lc])
        else toks)"

section \<open>Sub-tokens\<close>

definition SUBTOKEN_MIN_LEN :: nat where
  "SUBTOKEN_MIN_LEN = 3"

definition SUBTOKEN_MAX_RUNS :: nat where
  "SUBTOKEN_MAX_RUNS = 6"

datatype run_class = Letter | Digit | Other

definition run_class_of :: "unicode \<Rightarrow> rchar \<Rightarrow> run_class" where
  "run_class_of u c = (if u_numeric u c then Digit else if u_alphabetic u c then Letter else Other)"

text \<open>The scan for run boundaries: \<open>i\<close> is the position of the next character, \<open>bounds\<close> the starts
  found so far. \<open>None\<close> is an early return: a symbol, or too many runs.\<close>

fun run_bounds :: "unicode \<Rightarrow> nat \<Rightarrow> rstr \<Rightarrow> run_class option \<Rightarrow> nat list \<Rightarrow> nat list option" where
  "run_bounds u i [] prev bounds = Some bounds"
| "run_bounds u i (c # cs) prev bounds =
     (let cls = run_class_of u c in
      if cls = Other then None
      else if prev \<noteq> Some cls then
        (if length bounds \<ge> SUBTOKEN_MAX_RUNS then None
         else run_bounds u (i + 1) cs (Some cls) (bounds @ [i]))
      else run_bounds u (i + 1) cs prev bounds)"

definition emit_subtoken :: "rstr \<Rightarrow> rstr \<Rightarrow> bool" where
  "emit_subtoken word s \<longleftrightarrow>
     length s \<ge> SUBTOKEN_MIN_LEN \<and> str_len s < str_len word \<and> s \<notin> set COMMON_WORDS_SKIP"

definition str_slice :: "rstr \<Rightarrow> nat \<Rightarrow> nat \<Rightarrow> rstr" where
  "str_slice w a b = take (b - a) (drop a w)"

definition visit_subtokens :: "unicode \<Rightarrow> rstr \<Rightarrow> rstr list" where
  "visit_subtokens u word =
     (if str_len word \<ge> 8 \<and> list_all is_ascii_hexdigit word then []
      else case run_bounds u 0 word None [] of
             None \<Rightarrow> []
           | Some bounds \<Rightarrow>
               (let n_runs = length bounds in
                if n_runs < 2 then []
                else
                  let bounds = bounds @ [length word] in
                  filter (emit_subtoken word)
                    (map (\<lambda>r. str_slice word (bounds ! r) (bounds ! (r + 1))) [0..<n_runs] @
                     map (\<lambda>r. str_slice word (bounds ! r) (bounds ! (r + 2))) [0..<n_runs - 1])))"

definition index_tokens_into :: "unicode \<Rightarrow> rstr \<Rightarrow> bool \<Rightarrow> rstr list" where
  "index_tokens_into u filename subtokens =
     concat (map (\<lambda>tok. tok # (if subtokens then visit_subtokens u tok else []))
                 (tokenize_into u filename))"

section \<open>Folding facts\<close>

lemma fold_char_ascii: "c < 128 \<Longrightarrow> fold_char c = Some c"
  by (simp add: fold_char_def)

lemma FOLD_LATIN_table:
  "length FOLD_LATIN = 400"
  "list_all (\<lambda>b. b = 0 \<or> (97 \<le> b \<and> b \<le> 122)) FOLD_LATIN"
  by (simp_all add: FOLD_LATIN_def lit_def list_all_iff)

lemma FOLD_LATIN_nth: "i < 400 \<Longrightarrow> FOLD_LATIN ! i = 0 \<or> (97 \<le> FOLD_LATIN ! i \<and> FOLD_LATIN ! i \<le> 122)"
  using FOLD_LATIN_table by (simp add: list_all_length)

lemma fold_char_cases:
  "fold_char c = Some f \<Longrightarrow> f = c \<or> (97 \<le> f \<and> f \<le> 122)"
  using FOLD_LATIN_nth [of "c - 0xC0"] by (auto simp: fold_char_def Let_def split: if_splits)

lemma separator_letter: "is_ascii_letter c \<Longrightarrow> \<not> is_separator c"
  by (auto simp: is_ascii_letter_def is_separator_def is_whitespace_def)

lemma separator_ascii_lower: "is_separator (ascii_lower c) \<longleftrightarrow> is_separator c"
  by (auto simp: ascii_lower_def is_separator_def is_whitespace_def)

lemma ascii_lower_separator: "is_separator c \<Longrightarrow> ascii_lower c = c"
  by (auto simp: ascii_lower_def is_separator_def is_whitespace_def)

lemma fold_separator:
  assumes "unicode_ok u" and "is_separator c"
  shows "fold_char c = Some c" and "u_lower u c = [c]"
proof -
  show "fold_char c = Some c"
    using assms(2) by (auto simp: is_separator_def is_whitespace_def fold_char_def)
  show "u_lower u c = [c]"
  proof (cases "c < 128")
    case True
    with assms show ?thesis by (simp add: unicode_okD(1) ascii_lower_separator)
  next
    case False
    with assms(2) have "is_whitespace c" by (auto simp: is_separator_def)
    with assms(1) show ?thesis by (rule unicode_okD(6))
  qed
qed

lemma lower_no_separator:
  assumes u: "unicode_ok u" and "\<not> is_separator c" and d: "d \<in> set (u_lower u c)"
  shows "\<not> is_separator d"
proof (cases "c < 128")
  case True
  with assms show ?thesis by (simp add: unicode_okD(1) separator_ascii_lower)
next
  case False
  have ws: "\<not> is_whitespace d"
    using unicode_okD(8) [OF u _ d] assms(2) by (simp add: is_separator_def)
  show ?thesis
  proof (cases "d < 128")
    case True
    with unicode_okD(5) [OF u _ d] False show ?thesis by (simp add: separator_letter)
  next
    case False
    with ws show ?thesis by (auto simp: is_separator_def)
  qed
qed

lemma fold_no_separator:
  assumes "unicode_ok u" and "\<not> is_separator c" and "fold_char c = Some f" and "d \<in> set (u_lower u f)"
  shows "\<not> is_separator d"
proof -
  have "\<not> is_separator f"
    using fold_char_cases [OF assms(3)] assms(2) separator_letter [of f] by (auto simp: is_ascii_letter_def)
  then show ?thesis using assms(1,4) lower_no_separator by blast
qed

lemma fold_token_append: "fold_token u (s @ t) = fold_token u s @ fold_token u t"
  by (induction s) (auto split: option.splits)

lemma fold_token_ascii: "unicode_ok u \<Longrightarrow> is_ascii s \<Longrightarrow> fold_token u s = map ascii_lower s"
  by (induction s) (auto simp: fold_char_ascii unicode_okD(1))

lemma fold_for_match_fold_token: "unicode_ok u \<Longrightarrow> fold_for_match u s = fold_token u s"
  by (simp add: fold_for_match_def fold_token_ascii)

text \<open>Folding never makes or removes a separator, so it commutes with the split.\<close>

lemma split_by_word_append:
  "\<forall>c\<in>set w. \<not> P c \<Longrightarrow> split_by P (w @ s) = (w @ hd (split_by P s)) # tl (split_by P s)"
  by (induction w) (auto split: list.splits)

lemma split_by_fold_gen:
  assumes keep: "\<And>c. P c \<Longrightarrow> fold_char c = Some c \<and> u_lower u c = [c]"
    and clean: "\<And>c f d. \<not> P c \<Longrightarrow> fold_char c = Some f \<Longrightarrow> d \<in> set (u_lower u f) \<Longrightarrow> \<not> P d"
  shows "split_by P (fold_token u s) = map (fold_token u) (split_by P s)"
proof (induction s)
  case (Cons c s)
  show ?case
  proof (cases "P c")
    case True
    with Cons keep [OF True] show ?thesis by simp
  next
    case noP: False
    show ?thesis
    proof (cases "fold_char c")
      case None
      with Cons noP show ?thesis by (auto split: list.splits)
    next
      case (Some f)
      with noP clean have "\<forall>d\<in>set (u_lower u f). \<not> P d" by blast
      with Cons noP Some show ?thesis
        by (auto simp: split_by_word_append split: list.splits)
    qed
  qed
qed simp

lemma split_by_fold:
  assumes "unicode_ok u"
  shows "split_by is_separator (fold_token u s) = map (fold_token u) (split_by is_separator s)"
  using fold_separator [OF assms] fold_no_separator [OF assms] by (intro split_by_fold_gen) blast+

lemma fold_no_whitespace:
  assumes "unicode_ok u" and "\<not> is_whitespace c" and "fold_char c = Some f" and "d \<in> set (u_lower u f)"
  shows "\<not> is_whitespace d"
proof -
  have "\<not> is_whitespace f"
    using fold_char_cases [OF assms(3)] assms(2) by (auto simp: is_whitespace_def)
  then show ?thesis using unicode_okD(8) [OF assms(1)] assms(4) by blast
qed

lemma split_whitespace_fold:
  assumes "unicode_ok u"
  shows "split_whitespace (fold_token u s) = filter (\<lambda>w. w \<noteq> []) (map (fold_token u) (split_whitespace s))"
proof -
  have sep: "is_whitespace c \<Longrightarrow> is_separator c" for c
    by (simp only: is_separator_def simp_thms)
  have "split_by is_whitespace (fold_token u s) = map (fold_token u) (split_by is_whitespace s)"
  proof (rule split_by_fold_gen)
    show "fold_char c = Some c \<and> u_lower u c = [c]" if "is_whitespace c" for c
      using fold_separator [OF assms sep [OF that]] by blast
  qed (rule fold_no_whitespace [OF assms])
  moreover have "filter (\<lambda>w. w \<noteq> []) (map (fold_token u) ws) =
      filter (\<lambda>w. w \<noteq> []) (map (fold_token u) (filter (\<lambda>w. w \<noteq> []) ws))" for ws
    by (induction ws) auto
  ultimately show ?thesis by (simp add: split_whitespace_def)
qed

section \<open>The fast path\<close>

lemma visit_folded_ascii:
  assumes "unicode_ok u" and "\<forall>w\<in>set ws. is_ascii w"
  shows "visit_folded u ws = visit_ascii (map (map ascii_lower) ws)"
  using assms(2)
proof (induction ws)
  case (Cons w ws)
  have "is_ascii (map ascii_lower w)"
    using Cons.prems by (auto simp: is_ascii_def list_all_iff ascii_lower_def)
  with Cons assms(1) show ?case
    by (auto simp: fold_token_ascii str_len_ascii MIN_KEYWORD_LEN_def Let_def)
qed simp

lemma is_ascii_words: "is_ascii s \<Longrightarrow> \<forall>w\<in>set (split_by P s). is_ascii w"
  using split_by_words [of P s] unfolding is_ascii_def list_all_iff by blast

lemma tokenize_general:
  assumes "unicode_ok u"
  shows "tokenize u s = visit_folded u (split_by is_separator s)"
proof -
  have "split_by is_separator (map ascii_lower s) = map (map ascii_lower) (split_by is_separator s)"
    by (rule split_by_map) (simp add: separator_ascii_lower)
  then show ?thesis
    by (simp add: tokenize_def tokenize_into_def visit_folded_ascii [OF assms is_ascii_words])
qed

lemmas tokenize_eval = tokenize_def tokenize_into_def is_ascii_def lit_def ascii_lower_def
  is_separator_def is_whitespace_def str_len_ascii MIN_KEYWORD_LEN_def COMMON_WORDS_SKIP_def

text \<open>The ASCII fast paths of the tokenizer and of the folding used by the search post-filter
  compute exactly what the Unicode paths compute.\<close>

theorem fast_paths_agree:
  assumes "unicode_ok u"
  shows "tokenize u s = visit_folded u (split_by is_separator s) \<and> fold_for_match u s = fold_token u s"
  using assms by (simp add: tokenize_general fold_for_match_fold_token)

theorem fast_paths_agree_witness:
  "tokenize ascii_tables (lit ''Big.Buck-Bunny'') = [lit ''big'', lit ''buck'', lit ''bunny''] \<and>
   visit_folded ascii_tables (split_by is_separator (lit ''Big.Buck-Bunny'')) = [lit ''big'', lit ''buck'', lit ''bunny'']"
proof -
  have "tokenize ascii_tables (lit ''Big.Buck-Bunny'') = [lit ''big'', lit ''buck'', lit ''bunny'']"
    by (simp add: tokenize_eval)
  then show ?thesis
    using fast_paths_agree [OF ascii_tables_ok, of "lit ''Big.Buck-Bunny''"] by simp
qed

section \<open>What a token is\<close>

lemma visit_folded_append: "visit_folded u (vs @ ws) = visit_folded u vs @ visit_folded u ws"
  by (induction vs) (auto simp: Let_def)

lemma visit_folded_set:
  "t \<in> set (visit_folded u ws) \<longleftrightarrow>
   (\<exists>w\<in>set ws. MIN_KEYWORD_LEN \<le> str_len w \<and> t = fold_token u w \<and> t \<noteq> [] \<and> t \<notin> set COMMON_WORDS_SKIP)"
  by (induction ws) (auto simp: Let_def)

lemma split_by_infix: "w \<in> set (split_by P s) \<Longrightarrow> \<exists>a b. s = a @ w @ b"
proof (induction s arbitrary: w)
  case (Cons c s)
  obtain v vs where sp: "split_by P s = v # vs" by (cases "split_by P s") auto
  show ?case
  proof (cases "P c")
    case True
    with Cons sp show ?thesis by (auto intro: exI [of _ "c # _"]) (metis append_Cons append_Nil)+
  next
    case False
    obtain b where b: "s = v @ b"
    proof -
      have "\<exists>b. s = hd (split_by P s) @ b"
        by (induction s) (auto split: list.splits)
      with sp that show thesis by auto
    qed
    from False Cons.prems sp consider "w = c # v" | "w \<in> set vs" by auto
    then show ?thesis
    proof cases
      case 1
      with b show ?thesis by (intro exI [of _ "[]"] exI [of _ b]) simp
    next
      case 2
      with Cons.IH [of w] sp obtain a b where "s = a @ w @ b" by auto
      then show ?thesis by (intro exI [of _ "c # a"] exI [of _ b]) simp
    qed
  qed
qed simp

lemma tokenize_mem:
  assumes "unicode_ok u" and "t \<in> set (tokenize u s)"
  obtains w where "w \<in> set (split_by is_separator s)" "MIN_KEYWORD_LEN \<le> str_len w"
    "t = fold_token u w" "t \<noteq> []" "t \<notin> set COMMON_WORDS_SKIP"
  using assms by (auto simp: tokenize_general visit_folded_set)

lemma tokenize_in_fold:
  assumes "unicode_ok u" and "t \<in> set (tokenize u s)"
  shows "str_contains (fold_for_match u s) t"
proof -
  obtain w where w: "w \<in> set (split_by is_separator s)" "t = fold_token u w"
    using tokenize_mem [OF assms] .
  obtain a b where "s = a @ w @ b" using split_by_infix [OF w(1)] by blast
  with w assms(1) show ?thesis
    by (auto simp: str_contains_iff fold_for_match_fold_token fold_token_append)
qed

lemma tokenize_no_separator:
  assumes "unicode_ok u" and "t \<in> set (tokenize u s)" and "c \<in> set t"
  shows "\<not> is_separator c"
proof -
  obtain w where w: "w \<in> set (split_by is_separator s)" "t = fold_token u w"
    using tokenize_mem [OF assms(1,2)] .
  then have "t \<in> set (split_by is_separator (fold_token u s))"
    by (simp add: split_by_fold [OF assms(1)])
  with assms(3) show ?thesis using split_by_words [of is_separator "fold_token u s"] by blast
qed

text \<open>Every token the index stores for a name is non-empty, free of separators, no stop word, and
  occurs in the folded name: the search post-filter, which looks for a term inside the folded
  name, can never reject a file on a token the index found it by.\<close>

theorem token_shape:
  assumes "unicode_ok u" and "t \<in> set (tokenize u s)"
  shows "t \<noteq> [] \<and> (\<forall>c\<in>set t. \<not> is_separator c) \<and> t \<notin> set COMMON_WORDS_SKIP \<and>
    str_contains (fold_for_match u s) t"
  using tokenize_in_fold [OF assms] tokenize_no_separator [OF assms] tokenize_mem [OF assms] by metis

theorem token_shape_witness:
  "\<exists>t. t \<in> set (tokenize ascii_tables (lit ''A.Tale of 2 HD'')) \<and> t \<noteq> [] \<and>
     str_contains (fold_for_match ascii_tables (lit ''A.Tale of 2 HD'')) t"
proof -
  have "lit ''tale'' \<in> set (tokenize ascii_tables (lit ''A.Tale of 2 HD''))" by (simp add: tokenize_eval)
  then show ?thesis using token_shape [OF ascii_tables_ok] by blast
qed

text \<open>Tokenising is local to words: cutting a name at any separator cuts its token list, in
  order, although the fast path is chosen on the whole name.\<close>

theorem tokenize_at_separator:
  assumes "unicode_ok u" and "is_separator c"
  shows "tokenize u (s @ c # t) = tokenize u s @ tokenize u t"
  using assms by (simp add: tokenize_general split_by_append_sep visit_folded_append)

theorem tokenize_at_separator_witness:
  "tokenize ascii_tables (lit ''HD'' @ 46 # [0xE9, 32, 65, 66]) =
     tokenize ascii_tables (lit ''HD'') @ tokenize ascii_tables [0xE9, 32, 65, 66]"
  by (rule tokenize_at_separator [OF ascii_tables_ok]) (simp add: is_separator_def)

section \<open>Looking a token up\<close>

lemma separator_star: "is_separator 42"
  by (simp add: is_separator_def)

lemma ascii_lower_idem [simp]: "ascii_lower (ascii_lower c) = ascii_lower c"
  by (simp add: ascii_lower_def)

lemma tokenize_single:
  assumes "is_ascii w" and "\<forall>c\<in>set w. \<not> is_separator c" and "MIN_KEYWORD_LEN \<le> length w"
    and "map ascii_lower w \<notin> set COMMON_WORDS_SKIP"
  shows "tokenize u w = [map ascii_lower w]"
proof -
  have "is_ascii (map ascii_lower w)"
    using assms(1) by (auto simp: is_ascii_def list_all_iff ascii_lower_def)
  moreover have "split_by is_separator (map ascii_lower w) = [map ascii_lower w]"
    using assms(2) by (intro split_by_none) (auto simp: separator_ascii_lower)
  ultimately show ?thesis
    using assms by (simp add: tokenize_def tokenize_into_def str_len_ascii)
qed

lemma search_term_token:
  assumes u: "unicode_ok u" and s: "is_ascii s" and t: "t \<in> set (tokenize u s)"
  shows "tokenize_search_term u t = [t]"
proof -
  obtain w where w: "w \<in> set (split_by is_separator s)" "MIN_KEYWORD_LEN \<le> str_len w"
    "t = fold_token u w" "t \<notin> set COMMON_WORDS_SKIP"
    using tokenize_mem [OF u t] .
  have aw: "is_ascii w" using is_ascii_words [OF s] w(1) by blast
  then have tw: "t = map ascii_lower w" by (simp add: w(3) fold_token_ascii [OF u])
  have nosep: "\<forall>c\<in>set t. \<not> is_separator c" using tokenize_no_separator [OF u t] by blast
  then have "trim t = t" by (intro trim_id) (simp add: is_separator_def)
  moreover have "t \<noteq> lit ''*''" "t \<noteq> lit ''**''"
    using nosep separator_star by (auto simp: lit_def)
  moreover have low: "map ascii_lower t = t" by (simp add: tw)
  moreover have "is_ascii t" "length t = length w"
    using aw by (auto simp: tw is_ascii_def list_all_iff ascii_lower_def)
  then have "tokenize u t = [map ascii_lower t]"
    using nosep w(2,4) aw low by (intro tokenize_single) (simp_all add: str_len_ascii)
  ultimately show ?thesis by (simp add: tokenize_search_term_def)
qed

text \<open>A token of an indexed ASCII name, sent back as a search term, is looked up under that very
  token: indexer and query agree on the key.\<close>

theorem token_is_its_own_query:
  assumes "unicode_ok u" and "is_ascii s" and "t \<in> set (tokenize u s)"
  shows "tokenize_search_term u t = [t]"
  using assms by (rule search_term_token)

theorem token_is_its_own_query_witness:
  "tokenize_search_term ascii_tables (lit ''tale'') = [lit ''tale'']"
proof -
  have "lit ''tale'' \<in> set (tokenize ascii_tables (lit ''A.Tale of 2 HD''))" by (simp add: tokenize_eval)
  moreover have "is_ascii (lit ''A.Tale of 2 HD'')" by (simp add: lit_def)
  ultimately show ?thesis using token_is_its_own_query [OF ascii_tables_ok] by blast
qed

section \<open>Runs\<close>

text \<open>The reference for the boundary scan: the maximal runs of one character class.\<close>

fun runs :: "unicode \<Rightarrow> rstr \<Rightarrow> rstr list" where
  "runs u [] = []"
| "runs u (c # cs) =
     (case runs u cs of
        [] \<Rightarrow> [[c]]
      | r # rs \<Rightarrow> if run_class_of u c = run_class_of u (hd r) then (c # r) # rs else [c] # r # rs)"

fun starts :: "nat \<Rightarrow> rstr list \<Rightarrow> nat list" where
  "starts i [] = []"
| "starts i (r # rs) = i # starts (i + length r) rs"

lemma concat_runs: "concat (runs u s) = s"
  by (induction s) (auto split: list.splits)

lemma runs_not_Nil: "r \<in> set (runs u s) \<Longrightarrow> r \<noteq> []"
  by (induction s arbitrary: r) (auto split: list.splits if_splits)

lemma runs_eq_Nil [simp]: "runs u s = [] \<longleftrightarrow> s = []"
  by (cases s) (auto split: list.splits)

lemma length_starts [simp]: "length (starts i rs) = length rs"
  by (induction rs arbitrary: i) auto

lemma hd_hd_runs: "s \<noteq> [] \<Longrightarrow> hd (hd (runs u s)) = hd s"
  by (cases s) (auto split: list.splits)

lemma runs_Cons:
  "runs u (c # d # cs) =
     (if run_class_of u c = run_class_of u d then (c # hd (runs u (d # cs))) # tl (runs u (d # cs))
      else [c] # runs u (d # cs))"
  using hd_hd_runs [of "d # cs" u]
  by (cases "runs u (d # cs)") (simp_all only: runs_eq_Nil runs.simps(2) [of u c] list.case list.sel list.distinct simp_thms)

lemma run_bounds_None_Other:
  "\<exists>c\<in>set s. run_class_of u c = Other \<Longrightarrow> run_bounds u i s prev bs = None"
  by (induction u i s prev bs rule: run_bounds.induct) (auto simp: Let_def)

lemma run_bounds_runs:
  assumes "\<forall>c\<in>set s. run_class_of u c \<noteq> Other" and "length bs \<le> SUBTOKEN_MAX_RUNS"
  shows "run_bounds u i s prev bs =
    (let st = (if s \<noteq> [] \<and> prev = Some (run_class_of u (hd s)) then tl (starts i (runs u s)) else starts i (runs u s))
     in if length bs + length st \<le> SUBTOKEN_MAX_RUNS then Some (bs @ st) else None)"
  using assms
proof (induction s arbitrary: i prev bs)
  case (Cons c s)
  have st: "(if s \<noteq> [] \<and> Some (run_class_of u c) = Some (run_class_of u (hd s))
             then tl (starts (i + 1) (runs u s)) else starts (i + 1) (runs u s)) = tl (starts i (runs u (c # s)))"
  proof (cases s)
    case (Cons d cs)
    obtain r rs where "runs u (d # cs) = r # rs"
      using runs_eq_Nil [of u "d # cs"] by (cases "runs u (d # cs)") (simp_all only: list.distinct, blast)
    then show ?thesis by (simp add: Cons runs_Cons del: runs.simps)
  qed simp
  obtain r rs where rs: "runs u (c # s) = r # rs"
    using runs_eq_Nil [of u "c # s"] by (cases "runs u (c # s)") (simp_all only: list.distinct, blast)
  then obtain xs where xs: "starts i (runs u (c # s)) = i # xs" by simp
  have cls: "run_class_of u c \<noteq> Other" "\<forall>c\<in>set s. run_class_of u c \<noteq> Other" using Cons.prems(1) by auto
  show ?case
  proof (cases "prev = Some (run_class_of u c)")
    case True
    with cls(1) have "run_bounds u i (c # s) prev bs = run_bounds u (i + 1) s prev bs"
      by (simp add: Let_def)
    with Cons.IH [OF cls(2) Cons.prems(2), of "i + 1" prev] True st show ?thesis
      by (simp only: xs list.sel refl list.distinct if_True simp_thms)
  next
    case False
    show ?thesis
    proof (cases "length bs < SUBTOKEN_MAX_RUNS")
      case True
      with False cls(1) have "run_bounds u i (c # s) prev bs = run_bounds u (i + 1) s (Some (run_class_of u c)) (bs @ [i])"
        by (simp add: Let_def)
      moreover have "length (bs @ [i]) \<le> SUBTOKEN_MAX_RUNS" using True by simp
      note Cons.IH [OF cls(2) this, of "i + 1" "Some (run_class_of u c)"]
      ultimately show ?thesis
        using False by (simp only: st xs Let_def list.sel if_False simp_thms) simp
    next
      case outer: False
      with False cls(1) have "run_bounds u i (c # s) prev bs = None"
        by (simp add: Let_def)
      with outer False show ?thesis by (simp only: xs Let_def list.sel if_False simp_thms) simp
    qed
  qed
qed simp

lemma starts_bounds:
  "r \<le> length rs \<Longrightarrow> (starts i rs @ [i + length (concat rs)]) ! r = i + length (concat (take r rs))"
proof (induction rs arbitrary: i r)
  case (Cons a rs)
  show ?case
    using Cons.IH [of "r - 1" "i + length a"] Cons.prems
    by (cases r) (simp_all add: add.assoc del: length_concat)
qed simp

lemma str_slice_concat:
  assumes "a \<le> b" and "b \<le> length rs"
  shows "str_slice (concat rs) (length (concat (take a rs))) (length (concat (take b rs))) = concat (drop a (take b rs))"
proof -
  have "rs = take a rs @ drop a (take b rs) @ drop b rs"
    using assms by (metis append.assoc append_take_drop_id min.absorb1 take_take)
  then have "concat rs = concat (take a rs) @ concat (drop a (take b rs)) @ concat (drop b rs)"
    by (metis concat_append)
  moreover have "concat (take b rs) = concat (take a rs) @ concat (drop a (take b rs))"
    using assms by (metis append_take_drop_id concat_append min.absorb1 take_take)
  ultimately show ?thesis by (simp add: str_slice_def del: length_concat)
qed

lemma str_slice_runs:
  assumes "r + k \<le> length (runs u w)"
  shows "str_slice w ((starts 0 (runs u w) @ [length w]) ! r) ((starts 0 (runs u w) @ [length w]) ! (r + k))
    = concat (take k (drop r (runs u w)))"
proof -
  have "(starts 0 (runs u w) @ [length w]) ! i = length (concat (take i (runs u w)))" if "i \<le> length (runs u w)" for i
    using starts_bounds [OF that, of 0] by (simp add: concat_runs)
  with assms str_slice_concat [of r "r + k" "runs u w"] show ?thesis
    by (simp add: concat_runs drop_take)
qed

definition is_hex_id :: "rstr \<Rightarrow> bool" where
  "is_hex_id word \<longleftrightarrow> str_len word \<ge> 8 \<and> list_all is_ascii_hexdigit word"

text \<open>The documented rule: the runs, then the adjacent pairs.\<close>

definition subtokens_spec :: "unicode \<Rightarrow> rstr \<Rightarrow> rstr list" where
  "subtokens_spec u word =
     (let rs = runs u word in
      if is_hex_id word \<or> (\<exists>c\<in>set word. run_class_of u c = Other) \<or>
         length rs < 2 \<or> SUBTOKEN_MAX_RUNS < length rs then []
      else filter (emit_subtoken word) (rs @ map2 (@) rs (tl rs)))"

lemma map2_nth_tl: "map (\<lambda>r. concat (take 2 (drop r rs))) [0..<length rs - 1] = map2 (@) rs (tl rs)"
proof (rule nth_equalityI)
  fix i assume i: "i < length (map (\<lambda>r. concat (take 2 (drop r rs))) [0..<length rs - 1])"
  then have "drop i rs = rs ! i # rs ! Suc i # drop (Suc (Suc i)) rs"
    by (simp add: Cons_nth_drop_Suc)
  with i show "map (\<lambda>r. concat (take 2 (drop r rs))) [0..<length rs - 1] ! i = map2 (@) rs (tl rs) ! i"
    by (simp add: nth_tl numeral_2_eq_2)
qed simp

lemma map_nth_take1: "map (\<lambda>r. concat (take (Suc 0) (drop r rs))) [0..<length rs] = rs"
  by (rule nth_equalityI) (simp_all flip: Cons_nth_drop_Suc)

lemma visit_subtokens_spec: "visit_subtokens u w = subtokens_spec u w"
proof (cases "is_hex_id w \<or> (\<exists>c\<in>set w. run_class_of u c = Other)")
  case True
  then have "is_hex_id w \<or> run_bounds u 0 w None [] = None"
    by (metis run_bounds_None_Other)
  then have "visit_subtokens u w = []"
    by (auto simp: visit_subtokens_def is_hex_id_def)
  moreover from True have "subtokens_spec u w = []" by (auto simp: subtokens_spec_def Let_def)
  ultimately show ?thesis by simp
next
  case False
  let ?rs = "runs u w"
  have rb: "run_bounds u 0 w None [] = (if length ?rs \<le> SUBTOKEN_MAX_RUNS then Some (starts 0 ?rs) else None)"
    using False by (subst run_bounds_runs) (auto simp: SUBTOKEN_MAX_RUNS_def)
  have one: "map (\<lambda>r. str_slice w ((starts 0 ?rs @ [length w]) ! r) ((starts 0 ?rs @ [length w]) ! (r + Suc 0))) [0..<length ?rs] = ?rs"
    by (rule trans [OF map_cong [OF refl] map_nth_take1]) (rule str_slice_runs [of _ 1, unfolded One_nat_def], simp)
  have two: "map (\<lambda>r. str_slice w ((starts 0 ?rs @ [length w]) ! r) ((starts 0 ?rs @ [length w]) ! (r + 2))) [0..<length ?rs - 1] = map2 (@) ?rs (tl ?rs)"
    by (rule trans [OF map_cong [OF refl] map2_nth_tl]) (rule str_slice_runs, simp)
  show ?thesis
    using False rb one two by (auto simp: visit_subtokens_def subtokens_spec_def is_hex_id_def Let_def)
qed

lemma map2_append_infix:
  "x \<in> set (map2 (@) rs (tl rs)) \<Longrightarrow> \<exists>a b. concat rs = a @ x @ b"
proof (induction rs)
  case (Cons r rs)
  show ?case
  proof (cases rs)
    case Nil
    with Cons show ?thesis by simp
  next
    case c: (Cons r' rs')
    with Cons.prems consider "x = r @ r'" | "x \<in> set (map2 (@) rs (tl rs))" by auto
    then show ?thesis
    proof cases
      case 1
      with c show ?thesis by (intro exI [of _ "[]"] exI [of _ "concat rs'"]) simp
    next
      case 2
      with Cons.IH obtain a b where "concat rs = a @ x @ b" by blast
      then show ?thesis by (intro exI [of _ "r @ a"] exI [of _ b]) simp
    qed
  qed
qed simp

lemma concat_infix: "x \<in> set rs \<Longrightarrow> \<exists>a b. concat rs = a @ x @ b"
proof -
  assume "x \<in> set rs"
  then obtain ys zs where "rs = ys @ x # zs" by (auto dest: split_list)
  then show ?thesis by (intro exI [of _ "concat ys"] exI [of _ "concat zs"]) simp
qed

lemma subtokens_spec_infix:
  assumes "s \<in> set (subtokens_spec u w)"
  shows "str_contains w s" and "emit_subtoken w s"
proof -
  from assms have "s \<in> set (runs u w) \<or> s \<in> set (map2 (@) (runs u w) (tl (runs u w)))"
    and e: "emit_subtoken w s"
    by (auto simp: subtokens_spec_def Let_def split: if_splits)
  then show "str_contains w s"
    using concat_infix [of s "runs u w"] map2_append_infix [of s "runs u w"]
    by (auto simp: str_contains_iff concat_runs)
  from e show "emit_subtoken w s" .
qed

lemma length_subtokens_spec: "length (subtokens_spec u w) \<le> 11"
proof -
  have "length (filter (emit_subtoken w) (rs @ map2 (@) rs (tl rs))) \<le> 11"
    if "length rs \<le> SUBTOKEN_MAX_RUNS" for rs
    using that length_filter_le [of "emit_subtoken w" "rs @ map2 (@) rs (tl rs)"]
    by (simp add: SUBTOKEN_MAX_RUNS_def)
  then show ?thesis by (simp add: subtokens_spec_def Let_def not_less)
qed

text \<open>The boundary scan with its fixed array computes the documented rule - the maximal runs of
  one class and the adjacent pairs, nothing for identifiers - and every sub-token is at least
  three characters long, shorter than the word and a contiguous part of it; a word yields at
  most eleven.\<close>

theorem subtokens_are_runs_and_pairs:
  "visit_subtokens u w = subtokens_spec u w \<and> length (visit_subtokens u w) \<le> 11 \<and>
   list_all (\<lambda>s. 3 \<le> length s \<and> str_len s < str_len w \<and> str_contains w s) (visit_subtokens u w)"
  using subtokens_spec_infix [of _ u w] length_subtokens_spec
  by (auto simp: visit_subtokens_spec list_all_iff emit_subtoken_def SUBTOKEN_MIN_LEN_def)

end
