(* ===== verification/Keyword_Index.thy ===== *)
theory Keyword_Index
  imports Cold_Store Tokenizer
begin

text \<open>
  The two-tier inverted index of \<open>src/state/keyword_index.rs\<close>: the compressed cold tier, the
  hot additions and the pending removals, the edits, the lookups and the compaction that
  folds the deferred tiers into the cold one while edits go on.

  The abstract state is one set of ids per token hash (\<open>posting\<close>). Every lock the code takes
  around a step is modelled as atomicity of that step; a compaction is two steps (snapshot,
  install) with edits in between.
\<close>

record keyword_index =
  ki_cold :: cold_store
  ki_hot :: "token_hash \<rightharpoonup> file_id list"
  ki_pending :: "token_hash \<rightharpoonup> file_id list"
  ki_subtokens :: bool

definition ki_new :: "bool \<Rightarrow> keyword_index" where
  "ki_new subtokens =
     \<lparr>ki_cold = cold_default, ki_hot = Map.empty, ki_pending = Map.empty, ki_subtokens = subtokens\<rparr>"

section \<open>Merging the tiers\<close>

text \<open>The \<open>deleted\<close> closure advances its position in \<open>pend\<close>; the remaining list is returned.\<close>

definition deleted :: "file_id list \<Rightarrow> file_id \<Rightarrow> bool \<times> file_id list" where
  "deleted pend i =
     (let pend' = dropWhile (\<lambda>p. p < i) pend
      in (case pend' of [] \<Rightarrow> False | p # _ \<Rightarrow> p = i, pend'))"

fun keep_cold :: "file_id list \<Rightarrow> file_id list \<Rightarrow> file_id list" where
  "keep_cold [] pend = []"
| "keep_cold (c # cs) pend =
     (let (d, pend') = deleted pend c
      in if d then keep_cold cs pend' else c # keep_cold cs pend')"

fun merge_tiers :: "file_id list \<Rightarrow> file_id list \<Rightarrow> file_id list \<Rightarrow> file_id list" where
  "merge_tiers (c # cs) (h # hs) pend =
     (if c < h then
        (let (d, pend') = deleted pend c
         in if d then merge_tiers cs (h # hs) pend' else c # merge_tiers cs (h # hs) pend')
      else if h < c then h # merge_tiers (c # cs) hs pend
      else c # merge_tiers cs hs pend)"
| "merge_tiers cs [] pend = keep_cold cs pend"
| "merge_tiers [] hs pend = hs"

section \<open>Edits\<close>

definition contains_token :: "keyword_index \<Rightarrow> rstr \<Rightarrow> bool" where
  "contains_token ix token =
     (let th = token_hash token in
      (case ki_hot ix th of Some v \<Rightarrow> v \<noteq> [] | None \<Rightarrow> False) \<or> cold_contains_key (ki_cold ix) th)"

definition add_token :: "file_id \<Rightarrow> token_hash \<Rightarrow> keyword_index \<Rightarrow> keyword_index" where
  "add_token i th ix =
     (let v = (case ki_hot ix th of Some v \<Rightarrow> v | None \<Rightarrow> []);
          ix = ix\<lparr>ki_hot := (ki_hot ix)(th \<mapsto>
                  (case binary_search v i of Inl pos \<Rightarrow> vec_insert pos i v | Inr _ \<Rightarrow> v))\<rparr>
      in case ki_pending ix th of
           Some pend \<Rightarrow>
             (case binary_search pend i of
                Inr pos \<Rightarrow> ix\<lparr>ki_pending := (ki_pending ix)(th \<mapsto> vec_remove pos pend)\<rparr>
              | Inl _ \<Rightarrow> ix)
         | None \<Rightarrow> ix)"

definition add_file :: "unicode \<Rightarrow> file_id \<Rightarrow> rstr \<Rightarrow> keyword_index \<Rightarrow> keyword_index" where
  "add_file u i filename ix =
     fold (\<lambda>token. add_token i (token_hash token)) (index_tokens_into u filename (ki_subtokens ix)) ix"

definition remove_token :: "file_id \<Rightarrow> token_hash \<Rightarrow> keyword_index \<Rightarrow> keyword_index" where
  "remove_token i th ix =
     (let ix = (case ki_hot ix th of
                  Some v \<Rightarrow>
                    (case binary_search v i of
                       Inr pos \<Rightarrow> ix\<lparr>ki_hot := (ki_hot ix)(th \<mapsto> vec_remove pos v)\<rparr>
                     | Inl _ \<Rightarrow> ix)
                | None \<Rightarrow> ix)
      in if cold_contains_key (ki_cold ix) th then
           (let pend = (case ki_pending ix th of Some p \<Rightarrow> p | None \<Rightarrow> [])
            in ix\<lparr>ki_pending := (ki_pending ix)(th \<mapsto>
                    (case binary_search pend i of Inl pos \<Rightarrow> vec_insert pos i pend | Inr _ \<Rightarrow> pend))\<rparr>)
         else ix)"

definition remove_file :: "unicode \<Rightarrow> file_id \<Rightarrow> rstr \<Rightarrow> keyword_index \<Rightarrow> keyword_index" where
  "remove_file u i filename ix =
     fold (\<lambda>token. remove_token i (token_hash token)) (index_tokens_into u filename (ki_subtokens ix)) ix"

section \<open>Lookups\<close>

text \<open>The walk of \<open>merge_tiers_locked\<close>: \<open>hv\<close> is the rest of the hot list, \<open>n\<close> how many ids may
  still be pushed.\<close>

function merge_walk :: "posting_cursor option \<Rightarrow> file_id list \<Rightarrow> file_id list \<Rightarrow> nat \<Rightarrow> file_id list" where
  "merge_walk cur hv pv n =
     (if n = 0 then []
      else case Option.bind cur peek of
          None \<Rightarrow> (case hv of [] \<Rightarrow> [] | b # bs \<Rightarrow> b # merge_walk cur bs pv (n - 1))
        | Some a \<Rightarrow>
            (case hv of
               [] \<Rightarrow>
                 if sv_mem a pv then merge_walk (map_option bump cur) [] pv n
                 else a # merge_walk (map_option bump cur) [] pv (n - 1)
             | b # bs \<Rightarrow>
                 if b < a then b # merge_walk cur bs pv (n - 1)
                 else if b = a then a # merge_walk (map_option bump cur) bs pv (n - 1)
                 else if sv_mem a pv then merge_walk (map_option bump cur) (b # bs) pv n
                 else a # merge_walk (map_option bump cur) (b # bs) pv (n - 1)))"
  by pat_completeness auto
termination
proof (relation "measure (\<lambda>(cur, hv, pv, n). length hv + (case cur of None \<Rightarrow> 0 | Some c \<Rightarrow> cursor_len c))", goal_cases)
  case 1
  show ?case by simp
qed (auto simp: bind_eq_Some_conv peek_def dest: cursor_len_bump)

declare merge_walk.simps [simp del]

definition merge_tiers_locked :: "keyword_index \<Rightarrow> token_hash \<Rightarrow> nat \<Rightarrow> file_id list option" where
  "merge_tiers_locked ix th cap =
     (let cold = cold_get (ki_cold ix) th; hot = ki_hot ix th in
      if cold = None \<and> hot = None then None
      else
        let hv = (case hot of None \<Rightarrow> [] | Some h \<Rightarrow> h);
            pv = (case ki_pending ix th of None \<Rightarrow> [] | Some p \<Rightarrow> p);
            cur = Option.bind cold cursor_new
        in Some (merge_walk cur hv pv cap))"

definition USIZE_MAX :: nat where
  "USIZE_MAX = 2 ^ 64 - 1"

definition materialize :: "keyword_index \<Rightarrow> token_hash \<Rightarrow> file_id list option" where
  "materialize ix th = merge_tiers_locked ix th USIZE_MAX"

definition materialize_prefix :: "keyword_index \<Rightarrow> token_hash \<Rightarrow> nat \<Rightarrow> file_id list" where
  "materialize_prefix ix th cap = (case merge_tiers_locked ix th cap of Some v \<Rightarrow> v | None \<Rightarrow> [])"

definition approx_len :: "keyword_index \<Rightarrow> token_hash \<Rightarrow> nat" where
  "approx_len ix th =
     (let cold = (case Option.bind (cold_get (ki_cold ix) th) decoded_len of Some n \<Rightarrow> n | None \<Rightarrow> 0);
          hot = (case ki_hot ix th of Some h \<Rightarrow> length h | None \<Rightarrow> 0);
          pending = (case ki_pending ix th of Some p \<Rightarrow> length p | None \<Rightarrow> 0)
      in cold + hot - pending)"

text \<open>\<open>min_by_key\<close> returns the first of several minimal elements: the position of the seed.\<close>

definition seed_key :: "keyword_index \<Rightarrow> token_hash \<Rightarrow> nat" where
  "seed_key ix th = (let n = approx_len ix th in if n = 0 then USIZE_MAX else n)"

fun seed_index :: "keyword_index \<Rightarrow> token_hash list \<Rightarrow> nat" where
  "seed_index ix [] = 0"
| "seed_index ix [h] = 0"
| "seed_index ix (h # g # hs) =
     (let k = seed_index ix (g # hs)
      in if seed_key ix h \<le> seed_key ix ((g # hs) ! k) then 0 else Suc k)"

text \<open>One \<open>retain\<close> over the current result; the cursor is threaded through it.\<close>

fun retain_token ::
  "posting_cursor option \<Rightarrow> file_id list option \<Rightarrow> file_id list option \<Rightarrow> file_id list \<Rightarrow> file_id list" where
  "retain_token cur hot pend [] = []"
| "retain_token cur hot pend (fh # fhs) =
     (let (in_cold, cur') =
            (case cur of None \<Rightarrow> (False, None)
             | Some c \<Rightarrow> (case contains_target c fh of (b, c') \<Rightarrow> (b, Some c')));
          dele = (case pend of Some p \<Rightarrow> sv_mem fh p | None \<Rightarrow> False);
          in_hot = (case hot of Some h \<Rightarrow> sv_mem fh h | None \<Rightarrow> False)
      in if in_cold \<and> \<not> dele \<or> in_hot then fh # retain_token cur' hot pend fhs
         else retain_token cur' hot pend fhs)"

fun intersect_rest :: "keyword_index \<Rightarrow> token_hash list \<Rightarrow> file_id list \<Rightarrow> file_id list" where
  "intersect_rest ix [] result = result"
| "intersect_rest ix (h # hs) result =
     (let cold_ref = cold_get (ki_cold ix) h; hot_ref = ki_hot ix h in
      if cold_ref = None \<and> hot_ref = None then []
      else
        let result' = retain_token (Option.bind cold_ref cursor_new) hot_ref (ki_pending ix h) result
        in if result' = [] then [] else intersect_rest ix hs result')"

definition find_intersection :: "keyword_index \<Rightarrow> rstr list \<Rightarrow> file_id list" where
  "find_intersection ix tokens =
     (if tokens = [] then []
      else
        let hashes = map token_hash tokens; seed = seed_index ix hashes in
        case materialize ix (hashes ! seed) of
          Some v \<Rightarrow> if v \<noteq> [] then intersect_rest ix (take seed hashes @ drop (Suc seed) hashes) v else []
        | None \<Rightarrow> [])"

definition union_of :: "keyword_index \<Rightarrow> rstr list \<Rightarrow> file_id list" where
  "union_of ix tokens =
     concat (map (\<lambda>t. case materialize ix (token_hash t) of Some v \<Rightarrow> v | None \<Rightarrow> []) tokens)"

fun retain_groups :: "keyword_index \<Rightarrow> rstr list list \<Rightarrow> file_id list \<Rightarrow> file_id list" where
  "retain_groups ix [] result = result"
| "retain_groups ix (g # gs) result =
     (let un = remdups_adj (sort (union_of ix g)) in
      if un = [] then []
      else
        let result' = filter (\<lambda>i. sv_mem i un) result
        in if result' = [] then [] else retain_groups ix gs result')"

definition find_grouped :: "keyword_index \<Rightarrow> rstr list list \<Rightarrow> file_id list" where
  "find_grouped ix groups =
     (if groups = [] then []
      else
        let singles = map (\<lambda>g. g ! 0) (filter (\<lambda>g. length g = 1) groups);
            multis = filter (\<lambda>g. length g > 1) groups
        in if multis = [] then find_intersection ix singles
           else
             let result = (if singles = [] then remdups_adj (sort (union_of ix (multis ! 0)))
                           else find_intersection ix singles)
             in if result = [] then []
                else
                  let start = (if singles = [] then 1 else 0)
                  in retain_groups ix (drop start multis) result)"

definition find_grouped_capped :: "keyword_index \<Rightarrow> rstr list list \<Rightarrow> nat \<Rightarrow> file_id list" where
  "find_grouped_capped ix groups cap =
     (case groups of
        [[t]] \<Rightarrow> materialize_prefix ix (token_hash t) cap
      | _ \<Rightarrow> find_grouped ix groups)"

section \<open>The abstract index\<close>

definition list_of :: "'a list option \<Rightarrow> 'a list" where
  "list_of m = (case m of Some v \<Rightarrow> v | None \<Rightarrow> [])"

lemma list_of_simps [simp]: "list_of None = []" "list_of (Some v) = v"
  by (simp_all add: list_of_def)

definition cold_ids :: "keyword_index \<Rightarrow> token_hash \<Rightarrow> file_id list" where
  "cold_ids ix th = list_of (Option.bind (cold_get (ki_cold ix) th) decode)"

abbreviation hot_ids :: "keyword_index \<Rightarrow> token_hash \<Rightarrow> file_id list" where
  "hot_ids ix th \<equiv> list_of (ki_hot ix th)"

abbreviation pend_ids :: "keyword_index \<Rightarrow> token_hash \<Rightarrow> file_id list" where
  "pend_ids ix th \<equiv> list_of (ki_pending ix th)"

text \<open>What a keyword's posting is: the ids a search for it may return.\<close>

definition posting :: "keyword_index \<Rightarrow> token_hash \<Rightarrow> file_id set" where
  "posting ix th = (set (cold_ids ix th) - set (pend_ids ix th)) \<union> set (hot_ids ix th)"

text \<open>A file id is a slot of the slab; \<open>u32::MAX\<close> is the slab's \<open>NIL\<close> and never one.\<close>

definition valid_id :: "file_id \<Rightarrow> bool" where
  "valid_id i \<longleftrightarrow> fid i \<noteq> - 1"

definition ids_ok :: "file_id list \<Rightarrow> bool" where
  "ids_ok xs \<longleftrightarrow> ascending xs \<and> list_all valid_id xs"

definition blob_ok :: "bytes option \<Rightarrow> bool" where
  "blob_ok b \<longleftrightarrow> (\<forall>x. b = Some x \<longrightarrow> (\<exists>ids. x = encode ids \<and> ids_ok ids \<and> ids \<noteq> []))"

definition key_ok :: "keyword_index \<Rightarrow> token_hash \<Rightarrow> bool" where
  "key_ok ix th \<longleftrightarrow>
     blob_ok (cold_get (ki_cold ix) th) \<and> ids_ok (hot_ids ix th) \<and> ids_ok (pend_ids ix th) \<and>
     set (hot_ids ix th) \<inter> set (pend_ids ix th) = {}"

definition index_ok :: "keyword_index \<Rightarrow> bool" where
  "index_ok ix \<longleftrightarrow> cold_ok (ki_cold ix) \<and> finite (dom (ki_hot ix)) \<and> finite (dom (ki_pending ix)) \<and>
     (\<forall>th. key_ok ix th)"

named_theorems index_facts \<open>facts about the tiers of a keyword\<close>

lemma ids_ok_length:
  assumes "ids_ok xs"
  shows "length xs < 2 ^ 32"
proof -
  let ?ns = "map (unat \<circ> fid) xs"
  have "ascending ?ns"
    using assms by (auto simp: ids_ok_def sorted_wrt_map less_file_id_def word_less_nat_alt
      elim!: sorted_wrt_mono_rel [rotated])
  then have "distinct ?ns" by (simp only: strict_sorted_iff)
  moreover have "set ?ns \<subseteq> {..<2 ^ 32 - 1}"
  proof
    fix n assume "n \<in> set ?ns"
    then obtain x where x: "x \<in> set xs" "n = unat (fid x)" by auto
    have "fid x \<noteq> - 1" using assms x(1) by (simp add: ids_ok_def list_all_iff valid_id_def)
    then have "unat (fid x) \<noteq> unat (- 1 :: u32)" by (simp only: word_unat_eq_iff simp_thms)
    moreover have "unat (- 1 :: u32) = 2 ^ 32 - 1" by (simp add: unat_minus_one_word_len)
    moreover have "unat (fid x) < 2 ^ 32" using unsigned_less [of "fid x"] by simp
    ultimately show "n \<in> {..<2 ^ 32 - 1}" by (simp add: x(2))
  qed
  ultimately have "length ?ns \<le> card {..<(2::nat) ^ 32 - 1}"
    by (metis card_mono distinct_card finite_lessThan)
  then show ?thesis by simp
qed

lemma ids_ok_simps [index_facts]:
  "ids_ok []"
  "ids_ok xs \<Longrightarrow> valid_id i \<Longrightarrow> ids_ok (sv_insert i xs)"
  "ids_ok xs \<Longrightarrow> ids_ok (sv_remove i xs)"
  "ids_ok xs \<Longrightarrow> ids_ok (filter P xs)"
  by (auto simp: ids_ok_def list_all_iff vec_simps)

lemma ids_ok_ascending: "ids_ok xs \<Longrightarrow> ascending xs"
  by (simp add: ids_ok_def)

lemma cold_ids_blob:
  assumes "blob_ok (cold_get (ki_cold ix) th)"
  shows "ids_ok (cold_ids ix th)"
    and "cold_get (ki_cold ix) th = (if cold_ids ix th = [] then None else Some (encode (cold_ids ix th)))"
proof -
  have "ids_ok (cold_ids ix th) \<and>
    cold_get (ki_cold ix) th = (if cold_ids ix th = [] then None else Some (encode (cold_ids ix th)))"
  proof (cases "cold_get (ki_cold ix) th")
    case (Some x)
    with assms obtain ids where "x = encode ids" "ids_ok ids" "ids \<noteq> []" by (auto simp: blob_ok_def)
    with Some show ?thesis by (simp add: cold_ids_def decode_encode_ids [OF ids_ok_length])
  qed (simp add: cold_ids_def ids_ok_simps)
  then show "ids_ok (cold_ids ix th)"
    and "cold_get (ki_cold ix) th = (if cold_ids ix th = [] then None else Some (encode (cold_ids ix th)))"
    by blast+
qed

section \<open>What an edit does\<close>

lemma add_token_tiers [index_facts]:
  "ki_cold (add_token i th ix) = ki_cold ix"
  "ki_subtokens (add_token i th ix) = ki_subtokens ix"
  "hot_ids (add_token i th ix) th' = (if th' = th then sv_insert i (hot_ids ix th) else hot_ids ix th')"
  "pend_ids (add_token i th ix) th' = (if th' = th then sv_remove i (pend_ids ix th) else pend_ids ix th')"
  "cold_ids (add_token i th ix) th' = cold_ids ix th'"
  by (auto simp: add_token_def Let_def sv_insert_def sv_remove_def list_of_def cold_ids_def
      split: option.splits sum.splits)

lemma remove_token_tiers [index_facts]:
  "ki_cold (remove_token i th ix) = ki_cold ix"
  "ki_subtokens (remove_token i th ix) = ki_subtokens ix"
  "hot_ids (remove_token i th ix) th' = (if th' = th then sv_remove i (hot_ids ix th) else hot_ids ix th')"
  "pend_ids (remove_token i th ix) th' =
     (if th' = th \<and> cold_contains_key (ki_cold ix) th then sv_insert i (pend_ids ix th) else pend_ids ix th')"
  "cold_ids (remove_token i th ix) th' = cold_ids ix th'"
  by (auto simp: remove_token_def Let_def sv_insert_def sv_remove_def list_of_def cold_ids_def
      split: option.splits sum.splits)

lemma edit_finite_dom [index_facts]:
  "finite (dom (ki_hot ix)) \<Longrightarrow> finite (dom (ki_hot (add_token i th ix)))"
  "finite (dom (ki_pending ix)) \<Longrightarrow> finite (dom (ki_pending (add_token i th ix)))"
  "finite (dom (ki_hot ix)) \<Longrightarrow> finite (dom (ki_hot (remove_token i th ix)))"
  "finite (dom (ki_pending ix)) \<Longrightarrow> finite (dom (ki_pending (remove_token i th ix)))"
  by (auto simp: add_token_def remove_token_def Let_def split: option.splits sum.splits)

lemma key_ok_ids: "key_ok ix th \<Longrightarrow> ids_ok (cold_ids ix th) \<and> ids_ok (hot_ids ix th) \<and> ids_ok (pend_ids ix th)"
  using cold_ids_blob by (auto simp: key_ok_def)

lemma key_ok_ascending:
  "key_ok ix th \<Longrightarrow> ascending (cold_ids ix th)"
  "key_ok ix th \<Longrightarrow> ascending (hot_ids ix th)"
  "key_ok ix th \<Longrightarrow> ascending (pend_ids ix th)"
  using key_ok_ids ids_ok_ascending by blast+

lemma add_token_key_ok:
  assumes "key_ok ix th'" and "valid_id i"
  shows "key_ok (add_token i th ix) th'"
  using assms sv.disjoint_transfer [OF key_ok_ascending(2,3) [OF assms(1)]]
  by (auto simp: key_ok_def index_facts)

lemma remove_token_key_ok:
  assumes "key_ok ix th'" and "valid_id i"
  shows "key_ok (remove_token i th ix) th'"
proof -
  have "set (sv_remove i (hot_ids ix th')) \<inter> set (sv_insert i (pend_ids ix th')) = {}"
    using assms sv.disjoint_transfer [OF key_ok_ascending(3,2) [OF assms(1)]] by (auto simp: key_ok_def)
  moreover have "set (sv_remove i (hot_ids ix th')) \<inter> set (pend_ids ix th') = {}"
    using assms key_ok_ascending(2) [OF assms(1)] by (auto simp: key_ok_def vec_simps)
  ultimately show ?thesis
    using assms by (auto simp: key_ok_def index_facts)
qed

lemma edit_index_ok [index_facts]:
  "index_ok ix \<Longrightarrow> valid_id i \<Longrightarrow> index_ok (add_token i th ix)"
  "index_ok ix \<Longrightarrow> valid_id i \<Longrightarrow> index_ok (remove_token i th ix)"
  by (simp_all add: index_ok_def index_facts add_token_key_ok remove_token_key_ok)

lemma posting_add_token [index_facts]:
  assumes "index_ok ix"
  shows "posting (add_token i th ix) th' = (if th' = th then insert i (posting ix th) else posting ix th')"
proof -
  have "key_ok ix th" using assms by (simp add: index_ok_def)
  from key_ok_ascending [OF this] show ?thesis
    by (auto simp: posting_def index_facts vec_simps)
qed

lemma posting_remove_token [index_facts]:
  assumes "index_ok ix"
  shows "posting (remove_token i th ix) th' = (if th' = th then posting ix th - {i} else posting ix th')"
proof -
  have k: "key_ok ix th" using assms by (simp add: index_ok_def)
  have "\<not> cold_contains_key (ki_cold ix) th \<Longrightarrow> cold_ids ix th = []"
    by (simp add: cold_contains_key_iff cold_ids_def)
  with key_ok_ascending [OF k] show ?thesis
    by (auto simp: posting_def index_facts vec_simps)
qed

definition name_keys :: "unicode \<Rightarrow> bool \<Rightarrow> rstr \<Rightarrow> token_hash set" where
  "name_keys u sub name = token_hash ` set (index_tokens_into u name sub)"

lemma fold_add_token:
  "index_ok ix \<Longrightarrow> valid_id i \<Longrightarrow>
   index_ok (fold (\<lambda>t. add_token i (token_hash t)) ts ix) \<and>
   posting (fold (\<lambda>t. add_token i (token_hash t)) ts ix) th =
     (if th \<in> token_hash ` set ts then insert i (posting ix th) else posting ix th)"
  by (induction ts arbitrary: ix) (auto simp: index_facts)

lemma fold_remove_token:
  "index_ok ix \<Longrightarrow> valid_id i \<Longrightarrow>
   index_ok (fold (\<lambda>t. remove_token i (token_hash t)) ts ix) \<and>
   posting (fold (\<lambda>t. remove_token i (token_hash t)) ts ix) th =
     (if th \<in> token_hash ` set ts then posting ix th - {i} else posting ix th)"
  by (induction ts arbitrary: ix) (auto simp: index_facts)

lemma add_file_posting:
  assumes "index_ok ix" and "valid_id i"
  shows "index_ok (add_file u i name ix)"
    and "posting (add_file u i name ix) th =
      (if th \<in> name_keys u (ki_subtokens ix) name then insert i (posting ix th) else posting ix th)"
  using fold_add_token [OF assms] by (simp_all add: add_file_def name_keys_def)

lemma remove_file_posting:
  assumes "index_ok ix" and "valid_id i"
  shows "index_ok (remove_file u i name ix)"
    and "posting (remove_file u i name ix) th =
      (if th \<in> name_keys u (ki_subtokens ix) name then posting ix th - {i} else posting ix th)"
  using fold_remove_token [OF assms] by (simp_all add: remove_file_def name_keys_def)

section \<open>The merge\<close>

text \<open>The reference of both merges, over a deletion predicate.\<close>

fun merge_ref :: "file_id list \<Rightarrow> file_id list \<Rightarrow> (file_id \<Rightarrow> bool) \<Rightarrow> file_id list" where
  "merge_ref (c # cs) (h # hs) D =
     (if h < c then h # merge_ref (c # cs) hs D
      else if h = c then c # merge_ref cs hs D
      else if D c then merge_ref cs (h # hs) D
      else c # merge_ref cs (h # hs) D)"
| "merge_ref cs [] D = filter (\<lambda>c. \<not> D c) cs"
| "merge_ref [] hs D = hs"

lemma merge_ref_Nil [simp]: "merge_ref [] hs D = hs"
  by (cases hs) auto

lemma merge_ref_cong:
  "(\<And>c. c \<in> set cs \<Longrightarrow> D c = E c) \<Longrightarrow> merge_ref cs hs D = merge_ref cs hs E"
  by (induction cs hs D rule: merge_ref.induct) (auto intro: filter_cong)

lemma set_merge_ref:
  "ascending cs \<Longrightarrow> ascending hs \<Longrightarrow>
   set (merge_ref cs hs D) = {c \<in> set cs. \<not> D c} \<union> set hs"
  by (induction cs hs D rule: merge_ref.induct) auto

lemma merge_ref_subset: "set (merge_ref cs hs D) \<subseteq> set cs \<union> set hs"
  by (induction cs hs D rule: merge_ref.induct) auto

lemma ascending_merge_ref: "ascending cs \<Longrightarrow> ascending hs \<Longrightarrow> ascending (merge_ref cs hs D)"
proof (induction cs hs D rule: merge_ref.induct)
  case (1 c cs h hs D)
  then show ?case
    by (auto dest!: subsetD [OF merge_ref_subset] simp: not_less order_le_less intro: less_trans)
qed (auto simp: ascending_filter)

lemma deleted_mem:
  assumes "ascending pend"
  shows "fst (deleted pend i) \<longleftrightarrow> i \<in> set pend"
    and "i \<le> x \<Longrightarrow> x \<in> set (snd (deleted pend i)) \<longleftrightarrow> x \<in> set pend"
    and "ascending (snd (deleted pend i))"
  using assms by (induction pend) (auto simp: deleted_def)

lemma keep_cold_filter:
  "ascending cs \<Longrightarrow> ascending pend \<Longrightarrow> keep_cold cs pend = filter (\<lambda>c. c \<notin> set pend) cs"
proof (induction cs pend rule: keep_cold.induct)
  case (2 c cs pend)
  obtain d pend' where d: "deleted pend c = (d, pend')" by (cases "deleted pend c")
  with deleted_mem [OF "2.prems"(2), of c] "2.prems"(1)
  have "filter (\<lambda>x. x \<notin> set pend') cs = filter (\<lambda>x. x \<notin> set pend) cs"
    by (intro filter_cong) auto
  with "2.IH" [OF d [symmetric] refl] "2.prems" d deleted_mem [OF "2.prems"(2), of c] show ?case
    by auto
qed simp

lemma merge_tiers_ref:
  "ascending cs \<Longrightarrow> ascending pend \<Longrightarrow> merge_tiers cs hs pend = merge_ref cs hs (\<lambda>c. c \<in> set pend)"
proof (induction cs hs pend rule: merge_tiers.induct)
  case (1 c cs h hs pend)
  obtain d pend' where d: "deleted pend c = (d, pend')" by (cases "deleted pend c")
  note dm = deleted_mem [OF "1.prems"(2), of c, unfolded d fst_conv snd_conv]
  have "merge_ref cs (h # hs) (\<lambda>x. x \<in> set pend') = merge_ref cs (h # hs) (\<lambda>x. x \<in> set pend)"
    using dm(2) "1.prems"(1) by (intro merge_ref_cong) auto
  with "1.IH" "1.prems" d dm show ?case by auto
qed (auto simp: keep_cold_filter)

definition stream :: "posting_cursor option \<Rightarrow> file_id list" where
  "stream cur = (case cur of None \<Rightarrow> [] | Some c \<Rightarrow> cursor_rest c)"

definition stream_ok :: "posting_cursor option \<Rightarrow> bool" where
  "stream_ok cur = (case cur of None \<Rightarrow> True | Some c \<Rightarrow> cursor_ok c)"

lemma stream_peek:
  "stream_ok cur \<Longrightarrow> Option.bind cur peek = (case stream cur of [] \<Rightarrow> None | x # _ \<Rightarrow> Some x)"
  by (cases cur) (simp_all add: stream_def stream_ok_def pc.peek_rest)

lemma stream_bump:
  "stream_ok cur \<Longrightarrow> stream (map_option bump cur) = tl (stream cur) \<and> stream_ok (map_option bump cur)"
  by (cases cur) (simp_all add: stream_def stream_ok_def pc.rest_bump pc.invar_bump)

lemma merge_walk_ref:
  "stream_ok cur \<Longrightarrow> ascending pv \<Longrightarrow>
   merge_walk cur hv pv n = take n (merge_ref (stream cur) hv (\<lambda>c. c \<in> set pv))"
proof (induction cur hv pv n rule: merge_walk.induct)
  case (1 cur hv pv n)
  note sp = stream_peek [OF "1.prems"(1)] and sb = stream_bump [OF "1.prems"(1)]
  show ?case
  proof (cases "n = 0")
    case False
    then obtain m where n: "n = Suc m" by (cases n) auto
    show ?thesis
    proof (cases "stream cur")
      case Nil
      with "1.IH"(1) [OF False] "1.prems" sp n show ?thesis
        by (subst merge_walk.simps) (cases hv; simp)
    next
      case (Cons a as)
      with sp have pk: "Option.bind cur peek = Some a" by simp
      show ?thesis
        using "1.IH"(2-) [OF False pk] "1.prems" sp sb n Cons
        by (subst merge_walk.simps) (cases hv; auto simp: vec_simps)
    qed
  qed (simp add: merge_walk.simps)
qed

section \<open>Lookups\<close>

definition ids_of :: "file_id set \<Rightarrow> file_id list" where
  "ids_of S = sorted_list_of_set S"

lemma ids_of_eq: "ascending xs \<Longrightarrow> set xs = S \<Longrightarrow> xs = ids_of S"
  unfolding ids_of_def by (metis sorted_list_of_set.idem_if_sorted_distinct strict_sorted_iff)

lemma finite_posting [simp]: "finite (posting ix th)"
  by (simp add: posting_def)

lemma ids_of_facts [simp]:
  "finite S \<Longrightarrow> set (ids_of S) = S"
  "ascending (ids_of S)"
  "finite S \<Longrightarrow> ids_of S = [] \<longleftrightarrow> S = {}"
  "ids_of {} = []"
  by (simp_all add: ids_of_def)

lemma filter_ids_of: "finite S \<Longrightarrow> filter P (ids_of S) = ids_of {x \<in> S. P x}"
  by (intro ids_of_eq) (auto simp: ascending_filter)

lemma merge_ref_posting:
  assumes "key_ok ix th"
  shows "merge_ref (cold_ids ix th) (hot_ids ix th) (\<lambda>c. c \<in> set (pend_ids ix th)) = ids_of (posting ix th)"
proof (rule ids_of_eq)
  show "ascending (merge_ref (cold_ids ix th) (hot_ids ix th) (\<lambda>c. c \<in> set (pend_ids ix th)))"
    using key_ok_ascending [OF assms] by (simp add: ascending_merge_ref)
  show "set (merge_ref (cold_ids ix th) (hot_ids ix th) (\<lambda>c. c \<in> set (pend_ids ix th))) = posting ix th"
    using key_ok_ascending [OF assms] assms
    by (subst set_merge_ref) (auto simp: posting_def key_ok_def)
qed

lemma cold_stream:
  assumes "key_ok ix th"
  shows "stream (Option.bind (cold_get (ki_cold ix) th) cursor_new) = cold_ids ix th"
    and "stream_ok (Option.bind (cold_get (ki_cold ix) th) cursor_new)"
proof -
  have b: "blob_ok (cold_get (ki_cold ix) th)" using assms by (simp add: key_ok_def)
  obtain c where "cursor_new (encode (cold_ids ix th)) = Some c" "cursor_rest c = cold_ids ix th" "cursor_ok c"
    using cursor_new_encode [OF ids_ok_length [OF cold_ids_blob(1) [OF b]]] .
  then show "stream (Option.bind (cold_get (ki_cold ix) th) cursor_new) = cold_ids ix th"
    and "stream_ok (Option.bind (cold_get (ki_cold ix) th) cursor_new)"
    using cold_ids_blob(2) [OF b] by (auto simp: stream_def stream_ok_def)
qed

lemma merge_tiers_locked_posting:
  assumes "key_ok ix th"
  shows "merge_tiers_locked ix th cap =
    (if cold_ids ix th = [] \<and> ki_hot ix th = None then None else Some (take cap (ids_of (posting ix th))))"
proof -
  have b: "blob_ok (cold_get (ki_cold ix) th)" using assms by (simp add: key_ok_def)
  show ?thesis
    using cold_ids_blob(2) [OF b] merge_walk_ref [OF cold_stream(2) [OF assms] key_ok_ascending(3) [OF assms]]
      cold_stream(1) [OF assms] merge_ref_posting [OF assms]
    by (auto simp: merge_tiers_locked_def Let_def list_of_def)
qed

lemma length_ids_of_posting:
  assumes "key_ok ix th"
  shows "length (ids_of (posting ix th)) < 2 ^ 32"
proof -
  have "\<forall>i\<in>posting ix th. valid_id i"
    using key_ok_ids [OF assms] by (auto simp: posting_def ids_ok_def list_all_iff)
  then have "ids_ok (ids_of (posting ix th))" by (simp add: ids_ok_def list_all_iff)
  then show ?thesis by (rule ids_ok_length)
qed

lemma materialize_posting:
  assumes "key_ok ix th"
  shows "list_of (materialize ix th) = ids_of (posting ix th)"
    and "materialize ix th = None \<or> materialize ix th = Some (ids_of (posting ix th))"
proof -
  have "take USIZE_MAX (ids_of (posting ix th)) = ids_of (posting ix th)"
    using length_ids_of_posting [OF assms] by (simp add: USIZE_MAX_def)
  moreover have "cold_ids ix th = [] \<and> ki_hot ix th = None \<Longrightarrow> posting ix th = {}"
    by (simp add: posting_def)
  ultimately show "list_of (materialize ix th) = ids_of (posting ix th)"
    and "materialize ix th = None \<or> materialize ix th = Some (ids_of (posting ix th))"
    by (auto simp: materialize_def merge_tiers_locked_posting [OF assms])
qed

lemma retain_token_filter:
  "stream_ok cur \<Longrightarrow> ascending (stream cur) \<Longrightarrow> ascending result \<Longrightarrow>
   ascending (list_of hot) \<Longrightarrow> ascending (list_of pend) \<Longrightarrow>
   retain_token cur hot pend result =
     filter (\<lambda>f. f \<in> set (stream cur) - set (list_of pend) \<or> f \<in> set (list_of hot)) result"
proof (induction result arbitrary: cur)
  case (Cons fh fhs)
  define cur' where "cur' = map_option (\<lambda>c. snd (contains_target c fh)) cur"
  have now: "(case cur of None \<Rightarrow> (False, None)
       | Some c \<Rightarrow> (case contains_target c fh of (b, c') \<Rightarrow> (b, Some c'))) = (fh \<in> set (stream cur), cur')"
    using Cons.prems(1,2)
    by (auto simp: cur'_def stream_def stream_ok_def split: option.splits prod.splits dest: pc.seek_mem [of _ fh])
  have ok: "stream_ok cur'" "ascending (stream cur')"
    using Cons.prems(1,2)
    by (auto simp: cur'_def stream_def stream_ok_def pc.seek_invar pc.seek_ascending split: option.splits)
  have later: "u \<in> set (stream cur') \<longleftrightarrow> u \<in> set (stream cur)" if "fh < u" for u
    using Cons.prems(1,2) that
    by (auto simp: cur'_def stream_def stream_ok_def pc.seek_keeps_later split: option.splits)
  have IH: "retain_token cur' hot pend fhs =
     filter (\<lambda>f. f \<in> set (stream cur') - set (list_of pend) \<or> f \<in> set (list_of hot)) fhs"
    using Cons.IH [OF ok] Cons.prems(3-5) by simp
  also have "\<dots> = filter (\<lambda>f. f \<in> set (stream cur) - set (list_of pend) \<or> f \<in> set (list_of hot)) fhs"
    using Cons.prems(3) later by (intro filter_cong) auto
  finally have IH': "retain_token cur' hot pend fhs =
     filter (\<lambda>f. f \<in> set (stream cur) - set (list_of pend) \<or> f \<in> set (list_of hot)) fhs" .
  have m: "(case pend of Some p \<Rightarrow> sv_mem fh p | None \<Rightarrow> False) \<longleftrightarrow> fh \<in> set (list_of pend)"
    "(case hot of Some p \<Rightarrow> sv_mem fh p | None \<Rightarrow> False) \<longleftrightarrow> fh \<in> set (list_of hot)"
    using Cons.prems(4,5) by (auto simp: vec_simps split: option.splits)
  show ?case
    by (simp only: retain_token.simps now m IH' Let_def prod.case) auto
qed simp

lemma intersect_rest_filter:
  "index_ok ix \<Longrightarrow> ascending result \<Longrightarrow>
   intersect_rest ix hs result = filter (\<lambda>f. \<forall>h\<in>set hs. f \<in> posting ix h) result"
proof (induction ix hs result rule: intersect_rest.induct)
  case (2 ix h hs result)
  have k: "key_ok ix h" using "2.prems"(1) by (simp add: index_ok_def)
  show ?case
  proof (cases "cold_get (ki_cold ix) h = None \<and> ki_hot ix h = None")
    case True
    then have "posting ix h = {}" by (simp add: posting_def cold_ids_def)
    with True show ?thesis by simp
  next
    case False
    define res where "res = retain_token (Option.bind (cold_get (ki_cold ix) h) cursor_new) (ki_hot ix h) (ki_pending ix h) result"
    have res: "res = filter (\<lambda>f. f \<in> posting ix h) result"
      unfolding res_def posting_def
      using retain_token_filter [OF cold_stream(2) [OF k]] cold_stream(1) [OF k] key_ok_ascending [OF k] "2.prems"(2)
      by (simp cong: filter_cong)
    have IH: "res \<noteq> [] \<Longrightarrow> intersect_rest ix hs res = filter (\<lambda>f. \<forall>h\<in>set hs. f \<in> posting ix h) res"
      using "2.IH" [OF refl refl False res_def] "2.prems" by (simp add: res ascending_filter)
    have "intersect_rest ix (h # hs) result = (if res = [] then [] else intersect_rest ix hs res)"
      by (simp only: intersect_rest.simps False Let_def res_def if_False)
    also have "\<dots> = filter (\<lambda>f. \<forall>h\<in>set hs. f \<in> posting ix h) res"
      using IH by (cases "res = []") (simp_all only: simp_thms if_True if_False filter.simps)
    also have "\<dots> = filter (\<lambda>f. \<forall>h\<in>set (h # hs). f \<in> posting ix h) result"
      unfolding res by (auto intro: filter_cong)
    finally show ?thesis .
  qed
qed simp

lemma seed_index_less: "hs \<noteq> [] \<Longrightarrow> seed_index ix hs < length hs"
  by (induction ix hs rule: seed_index.induct) (auto simp: Let_def)

definition holds_all :: "keyword_index \<Rightarrow> rstr list \<Rightarrow> file_id set" where
  "holds_all ix tokens = {f. \<forall>t\<in>set tokens. f \<in> posting ix (token_hash t)}"

definition holds_any :: "keyword_index \<Rightarrow> rstr list \<Rightarrow> file_id set" where
  "holds_any ix tokens = (\<Union>t\<in>set tokens. posting ix (token_hash t))"

lemma finite_holds [simp]:
  "tokens \<noteq> [] \<Longrightarrow> finite (holds_all ix tokens)" "finite (holds_any ix tokens)"
proof -
  show "finite (holds_any ix tokens)" by (simp add: holds_any_def)
  assume "tokens \<noteq> []"
  then have "holds_all ix tokens \<subseteq> posting ix (token_hash (hd tokens))"
    by (auto simp: holds_all_def)
  then show "finite (holds_all ix tokens)" by (rule finite_subset) simp
qed

lemma find_intersection_ids:
  assumes ix: "index_ok ix" and ne: "tokens \<noteq> []"
  shows "find_intersection ix tokens = ids_of (holds_all ix tokens)"
proof -
  define hashes where "hashes = map token_hash tokens"
  define s where "s = seed_index ix hashes"
  have s: "s < length hashes" using seed_index_less [of hashes ix] ne by (simp add: s_def hashes_def)
  let ?rest = "take s hashes @ drop (Suc s) hashes"
  have hs: "set hashes = insert (hashes ! s) (set ?rest)"
    by (subst id_take_nth_drop [OF s]) auto
  have k: "key_ok ix (hashes ! s)" using ix by (simp add: index_ok_def)
  have all: "holds_all ix tokens = {f \<in> posting ix (hashes ! s). \<forall>h\<in>set ?rest. f \<in> posting ix h}"
  proof -
    have "holds_all ix tokens = {f. \<forall>h\<in>set hashes. f \<in> posting ix h}"
      by (auto simp: holds_all_def hashes_def)
    then show ?thesis by (auto simp only: hs)
  qed
  have "find_intersection ix tokens = (case materialize ix (hashes ! s) of
      Some v \<Rightarrow> if v \<noteq> [] then intersect_rest ix ?rest v else [] | None \<Rightarrow> [])"
    using ne by (simp only: find_intersection_def Let_def hashes_def [symmetric] s_def [symmetric] if_False)
  also have "\<dots> = filter (\<lambda>f. \<forall>h\<in>set ?rest. f \<in> posting ix h) (ids_of (posting ix (hashes ! s)))"
    using materialize_posting [OF k] intersect_rest_filter [OF ix, of "ids_of (posting ix (hashes ! s))" ?rest]
    by (auto split: option.splits)
  finally show ?thesis by (simp add: filter_ids_of all)
qed

lemma union_of_set:
  assumes "index_ok ix"
  shows "set (union_of ix tokens) = holds_any ix tokens"
proof -
  have "set (case materialize ix th of Some v \<Rightarrow> v | None \<Rightarrow> []) = posting ix th" for th
    using materialize_posting(1) [of ix th] assms by (simp add: index_ok_def list_of_def)
  then show ?thesis by (simp add: union_of_def holds_any_def)
qed

lemma ascending_remdups_adj: "sorted xs \<Longrightarrow> ascending (remdups_adj xs)"
  by (induction xs rule: remdups_adj.induct) (auto simp: order_le_less)

lemma union_of_sorted:
  assumes "index_ok ix"
  shows "remdups_adj (sort (union_of ix tokens)) = ids_of (holds_any ix tokens)"
proof (rule ids_of_eq)
  show "ascending (remdups_adj (sort (union_of ix tokens)))"
    by (simp add: ascending_remdups_adj)
qed (simp add: union_of_set [OF assms])

lemma retain_groups_filter:
  assumes "index_ok ix"
  shows "ascending result \<Longrightarrow>
    retain_groups ix gs result = filter (\<lambda>f. \<forall>g\<in>set gs. f \<in> holds_any ix g) result"
proof (induction gs arbitrary: result)
  case (Cons g gs)
  define un where "un = ids_of (holds_any ix g)"
  define res where "res = filter (\<lambda>i. sv_mem i un) result"
  have res: "res = filter (\<lambda>f. f \<in> holds_any ix g) result"
    by (simp add: res_def un_def vec_simps)
  have empty: "un = [] \<Longrightarrow> res = []"
    by (simp add: res_def)
  have "retain_groups ix (g # gs) result = (if un = [] then [] else if res = [] then [] else retain_groups ix gs res)"
    by (simp only: retain_groups.simps Let_def union_of_sorted [OF assms] un_def res_def)
  also have "\<dots> = filter (\<lambda>f. \<forall>g\<in>set gs. f \<in> holds_any ix g) res"
  proof (cases "res = []")
    case False
    have "ascending res" using Cons.prems by (simp add: res ascending_filter)
    with Cons.IH [of res] False empty show ?thesis by auto
  qed simp
  also have "\<dots> = filter (\<lambda>f. \<forall>g\<in>set (g # gs). f \<in> holds_any ix g) result"
    by (auto simp: res intro: filter_cong)
  finally show ?case .
qed simp

text \<open>Which files a grouped query asks for.\<close>

definition grouped_answer :: "keyword_index \<Rightarrow> rstr list list \<Rightarrow> file_id set" where
  "grouped_answer ix groups = {f. \<forall>g\<in>set groups. \<exists>t\<in>set g. f \<in> posting ix (token_hash t)}"

lemma find_grouped_ids:
  assumes ix: "index_ok ix" and ne: "groups \<noteq> []" and g: "[] \<notin> set groups"
  shows "find_grouped ix groups = ids_of (grouped_answer ix groups)"
proof -
  define singles where "singles = map (\<lambda>g. g ! 0) (filter (\<lambda>g. length g = 1) groups)"
  define multis where "multis = filter (\<lambda>g. length g > 1) groups"
  define start where "start = (if singles = [] then ids_of (holds_any ix (multis ! 0)) else find_intersection ix singles)"
  have len: "length x = 1 \<or> length x > 1" if "x \<in> set groups" for x
  proof -
    have "0 < length x" using that g by auto
    then show ?thesis by linarith
  qed
  have single: "(\<forall>x\<in>set groups. length x = 1 \<longrightarrow> f \<in> holds_any ix x) \<longleftrightarrow> f \<in> holds_all ix singles" for f
    by (auto simp: singles_def holds_all_def holds_any_def length_Suc_conv)
  have ans: "grouped_answer ix groups = {f \<in> holds_all ix singles. \<forall>g\<in>set multis. f \<in> holds_any ix g}"
  proof -
    have "f \<in> grouped_answer ix groups \<longleftrightarrow> (\<forall>x\<in>set groups. f \<in> holds_any ix x)" for f
      by (simp add: grouped_answer_def holds_any_def)
    moreover have "(\<forall>x\<in>set groups. f \<in> holds_any ix x) \<longleftrightarrow>
        (\<forall>x\<in>set groups. length x = 1 \<longrightarrow> f \<in> holds_any ix x) \<and> (\<forall>x\<in>set multis. f \<in> holds_any ix x)" for f
      using len by (auto simp: multis_def)
    ultimately show ?thesis unfolding single by blast
  qed
  show ?thesis
  proof (cases "multis = []")
    case True
    then have "\<forall>x\<in>set groups. length x = 1" using len by (auto simp: multis_def filter_empty_conv)
    then have "singles \<noteq> []" using ne by (cases groups) (auto simp: singles_def)
    have "find_grouped ix groups = find_intersection ix singles"
      using ne True by (simp add: find_grouped_def Let_def singles_def multis_def)
    with \<open>singles \<noteq> []\<close> show ?thesis by (simp add: find_intersection_ids [OF ix] ans True)
  next
    case False
    then obtain m ms where ms: "multis = m # ms" by (cases multis) auto
    have asc: "ascending start"
      by (cases "singles = []") (simp_all add: start_def find_intersection_ids [OF ix])
    have "find_grouped ix groups = (if start = [] then [] else retain_groups ix (drop (if singles = [] then 1 else 0) multis) start)"
      using ne False by (simp add: find_grouped_def Let_def singles_def multis_def start_def union_of_sorted [OF ix])
    also have "\<dots> = filter (\<lambda>f. \<forall>g\<in>set (drop (if singles = [] then 1 else 0) multis). f \<in> holds_any ix g) start"
      using retain_groups_filter [OF ix asc] by simp
    also have "\<dots> = ids_of (grouped_answer ix groups)"
    proof (cases "singles = []")
      case True
      then show ?thesis
        by (simp add: start_def ms filter_ids_of ans) (simp add: holds_all_def)
    next
      case s: False
      then show ?thesis
        by (simp add: start_def find_intersection_ids [OF ix] filter_ids_of ans)
    qed
    finally show ?thesis .
  qed
qed

lemma finite_grouped_answer: "groups \<noteq> [] \<Longrightarrow> finite (grouped_answer ix groups)"
proof -
  assume "groups \<noteq> []"
  then obtain g gs where "groups = g # gs" by (cases groups) auto
  then have "grouped_answer ix groups \<subseteq> holds_any ix g"
    by (auto simp: grouped_answer_def holds_any_def)
  then show ?thesis by (rule finite_subset) simp
qed

lemma find_grouped_members:
  "index_ok ix \<Longrightarrow> groups \<noteq> [] \<Longrightarrow> [] \<notin> set groups \<Longrightarrow>
   i \<in> set (find_grouped ix groups) \<longleftrightarrow> (\<forall>g\<in>set groups. \<exists>t\<in>set g. i \<in> posting ix (token_hash t))"
  by (simp add: find_grouped_ids finite_grouped_answer grouped_answer_def [of ix groups, symmetric])
    (simp add: grouped_answer_def)

lemma capped_ids:
  assumes "index_ok ix"
  shows "find_grouped_capped ix [[t]] cap = take cap (ids_of (posting ix (token_hash t)))"
proof -
  have k: "key_ok ix (token_hash t)" using assms by (simp add: index_ok_def)
  have "cold_ids ix (token_hash t) = [] \<and> ki_hot ix (token_hash t) = None \<Longrightarrow> posting ix (token_hash t) = {}"
    by (simp add: posting_def)
  then show ?thesis
    by (auto simp: find_grouped_capped_def materialize_prefix_def merge_tiers_locked_posting [OF k])
qed

section \<open>The properties\<close>

lemma index_ok_new: "index_ok (ki_new b)"
  by (simp add: index_ok_def ki_new_def cold_default_ok key_ok_def blob_ok_def cold_get_default ids_ok_simps)

lemma posting_new [simp]: "posting (ki_new b) th = {}"
  by (simp add: posting_def ki_new_def cold_ids_def cold_get_default)

lemma subtokens_new [simp]: "ki_subtokens (ki_new b) = b"
  by (simp add: ki_new_def)

lemma valid_id_5: "valid_id (FileId 5)"
  by (simp add: valid_id_def)

text \<open>C2: Indexing a name puts the id into the posting of exactly the name's keys, un-indexing takes it
  out of exactly those, and both keep the index well formed (sorted, duplicate-free tiers, hot
  and pending disjoint) - whatever deletions or additions are still deferred.\<close>

theorem edits_update_postings:
  assumes "index_ok ix" and "valid_id i"
  shows "index_ok (add_file u i name ix) \<and> index_ok (remove_file u i name ix) \<and>
    posting (add_file u i name ix) th =
      (if th \<in> name_keys u (ki_subtokens ix) name then insert i (posting ix th) else posting ix th) \<and>
    posting (remove_file u i name ix) th =
      (if th \<in> name_keys u (ki_subtokens ix) name then posting ix th - {i} else posting ix th)"
  using add_file_posting [OF assms] remove_file_posting [OF assms] by blast

lemma hd_keys: "name_keys ascii_tables False (lit ''HD'') = {token_hash (lit ''hd'')}"
  by (simp add: name_keys_def index_tokens_into_def tokenize_eval)

theorem edits_update_postings_witness:
  "posting (add_file ascii_tables (FileId 5) (lit ''HD'') (ki_new False)) (token_hash (lit ''hd'')) = {FileId 5} \<and>
   posting (remove_file ascii_tables (FileId 5) (lit ''HD'') (ki_new False)) (token_hash (lit ''hd'')) = {}"
  using edits_update_postings [where ix = "ki_new False" and i = "FileId 5" and u = ascii_tables and
      name = "lit ''HD''" and th = "token_hash (lit ''hd'')", OF index_ok_new valid_id_5] hd_keys
  by simp

text \<open>C6: A grouped search returns, in ascending order and without repetition, exactly the ids that have
  for every group at least one of its words - the streaming intersection over compressed
  postings, the choice of the seed and the early exits change nothing.\<close>

theorem grouped_search_exact:
  assumes "index_ok ix" and "groups \<noteq> []" and "[] \<notin> set groups"
  shows "ascending (find_grouped ix groups) \<and>
    set (find_grouped ix groups) = {f. \<forall>g\<in>set groups. \<exists>t\<in>set g. f \<in> posting ix (token_hash t)}"
  by (simp add: find_grouped_ids [OF assms] finite_grouped_answer [OF assms(2)] flip: grouped_answer_def)

theorem grouped_search_exact_witness:
  "set (find_grouped (add_file ascii_tables (FileId 5) (lit ''HD'') (ki_new False)) [[lit ''hd'', lit ''sd'']]) = {FileId 5}"
proof -
  let ?ix = "add_file ascii_tables (FileId 5) (lit ''HD'') (ki_new False)"
  note ap = add_file_posting [where ix = "ki_new False" and i = "FileId 5" and u = ascii_tables and
      name = "lit ''HD''", OF index_ok_new valid_id_5]
  have "posting ?ix th = (if th = token_hash (lit ''hd'') then {FileId 5} else {})" for th
    using ap(2) [of th] hd_keys by simp
  then show ?thesis
    using grouped_search_exact [OF ap(1), of "[[lit ''hd'', lit ''sd'']]"] by auto
qed

text \<open>The capped lookup of one word is the prefix of the full answer, and the whole answer when the
  cap allows.\<close>

theorem capped_search_prefix:
  assumes "index_ok ix"
  shows "find_grouped_capped ix [[t]] cap = take cap (find_grouped ix [[t]])"
proof -
  have "grouped_answer ix [[t]] = posting ix (token_hash t)" by (simp add: grouped_answer_def)
  then show ?thesis
    using find_grouped_ids [OF assms, of "[[t]]"] capped_ids [OF assms] by simp
qed

theorem capped_search_prefix_witness:
  "find_grouped_capped (ki_new True) [[lit ''mp3'']] 2 = take 2 (find_grouped (ki_new True) [[lit ''mp3'']])"
  by (rule capped_search_prefix) (rule index_ok_new)

text \<open>A word that some indexed file carries is never reported unknown, so the search never drops it
  from a query.\<close>

theorem known_word_is_known:
  assumes "posting ix (token_hash t) \<noteq> {}"
  shows "contains_token ix t"
proof -
  have "cold_ids ix (token_hash t) \<noteq> [] \<or> hot_ids ix (token_hash t) \<noteq> []"
    using assms by (auto simp: posting_def)
  then show ?thesis
    by (cases "cold_get (ki_cold ix) (token_hash t)"; cases "ki_hot ix (token_hash t)")
      (simp_all add: contains_token_def Let_def cold_contains_key_iff cold_ids_def)
qed

theorem known_word_is_known_witness:
  "contains_token (add_file ascii_tables (FileId 5) (lit ''HD'') (ki_new False)) (lit ''hd'')"
proof (rule known_word_is_known)
  show "posting (add_file ascii_tables (FileId 5) (lit ''HD'') (ki_new False)) (token_hash (lit ''hd'')) \<noteq> {}"
    using hd_keys by (simp add: add_file_posting(2) [OF index_ok_new valid_id_5])
qed

end
