(* ===== verification/Index_Compaction.thy ===== *)
theory Index_Compaction
  imports Keyword_Index "HOL-Library.Product_Lexorder"
begin

text \<open>
  Compaction of the keyword index (\<open>compact\<close> and \<open>compact_shard\<close> of
  \<open>src/state/keyword_index.rs\<close>): the deferred tiers of a shard's keys are read key by key, merged
  with the cold blobs without a lock, and installed in one step; edits run in between. The
  step relation has every lock acquisition of the compactor as a step of its own, and the
  abstract index, a set of ids per keyword, sees the edits only.
\<close>

section \<open>The pieces of \<open>compact_shard\<close>\<close>

record snap =
  sn_th :: token_hash
  sn_hv :: "file_id list"
  sn_pend :: "file_id list"

text \<open>One turn of the snapshot loop, after \<open>hv\<close> was read: \<open>[]\<close> when both sets are empty.\<close>

definition snap_key :: "keyword_index \<Rightarrow> token_hash \<Rightarrow> file_id list \<Rightarrow> (update \<times> snap) list" where
  "snap_key ix th hv =
     (let pend = (case ki_pending ix th of Some p \<Rightarrow> p | None \<Rightarrow> []) in
      if hv = [] \<and> pend = [] then []
      else
        let cold = (case Option.bind (cold_get (ki_cold ix) th) decode of Some l \<Rightarrow> l | None \<Rightarrow> []);
            merged = merge_tiers cold hv pend;
            blb = (if merged \<noteq> [] then Some (encode merged) else None)
        in [((th, blb), \<lparr>sn_th = th, sn_hv = hv, sn_pend = pend\<rparr>)])"

text \<open>The callback of \<open>rebuild\<close> for one snapshot.\<close>

definition install_snap :: "snap \<Rightarrow> keyword_index \<Rightarrow> keyword_index" where
  "install_snap s ix =
     (let th = sn_th s; hv = sn_hv s; pend = sn_pend s;
          ix = (if pend \<noteq> [] then
                  (case ki_pending ix th of
                     Some p \<Rightarrow> ix\<lparr>ki_pending := (ki_pending ix)(th \<mapsto> filter (\<lambda>i. \<not> sv_mem i pend) p)\<rparr>
                   | None \<Rightarrow> ix)
                else ix)
      in if hv = [] then ix
         else
           let (gone, ix) =
                 (case ki_hot ix th of
                    Some h \<Rightarrow> (filter (\<lambda>i. \<not> sv_mem i h) hv,
                                ix\<lparr>ki_hot := (ki_hot ix)(th \<mapsto> filter (\<lambda>i. \<not> sv_mem i hv) h)\<rparr>)
                  | None \<Rightarrow> (hv, ix))
           in if gone \<noteq> [] then
                (let p = (case ki_pending ix th of Some p \<Rightarrow> p | None \<Rightarrow> [])
                 in ix\<lparr>ki_pending := (ki_pending ix)(th \<mapsto> fold sv_insert gone p)\<rparr>)
              else ix)"

definition install :: "keyword_index \<Rightarrow> nat \<Rightarrow> (update \<times> snap) list \<Rightarrow> keyword_index \<times> nat" where
  "install ix sh acc =
     (let (cold', removed) = rebuild (ki_cold ix) sh (map fst acc)
      in (fold install_snap (map snd acc) (ix\<lparr>ki_cold := cold'\<rparr>), removed))"

definition snap_keys :: "keyword_index \<Rightarrow> token_hash list \<Rightarrow> (update \<times> snap) list" where
  "snap_keys ix keys =
     concat (map (\<lambda>th. snap_key ix th (case ki_hot ix th of Some v \<Rightarrow> v | None \<Rightarrow> [])) keys)"

definition compact_shard :: "keyword_index \<Rightarrow> token_hash list \<Rightarrow> keyword_index \<times> nat" where
  "compact_shard ix keys =
     (let acc = snap_keys ix keys
      in if acc = [] then (ix, 0) else install ix (shard_of (hd keys)) acc)"

section \<open>\<open>compact\<close>\<close>

function chunk_shards :: "token_hash list \<Rightarrow> token_hash list list" where
  "chunk_shards [] = []"
| "chunk_shards (k # ks) =
     (k # takeWhile (\<lambda>j. shard_of j = shard_of k) ks) #
     chunk_shards (dropWhile (\<lambda>j. shard_of j = shard_of k) ks)"
  by pat_completeness auto
termination
  by (relation "measure length") (auto simp: le_imp_less_Suc length_dropWhile_le)

fun compact_chunks :: "keyword_index \<Rightarrow> token_hash list list \<Rightarrow> nat \<Rightarrow> keyword_index \<times> nat" where
  "compact_chunks ix [] dropped = (ix, dropped)"
| "compact_chunks ix (c # cs) dropped =
     (let (ix', n) = compact_shard ix c in compact_chunks ix' cs (dropped + n))"

definition retain_nonempty :: "(token_hash \<rightharpoonup> file_id list) \<Rightarrow> token_hash \<rightharpoonup> file_id list" where
  "retain_nonempty m th = (case m th of Some v \<Rightarrow> if v \<noteq> [] then Some v else None | None \<Rightarrow> None)"

definition compact_keys :: "keyword_index \<Rightarrow> token_hash list" where
  "compact_keys ix =
     sort_key (\<lambda>th. (shard_of th, th)) (sorted_list_of_set (dom (ki_hot ix) \<union> dom (ki_pending ix)))"

definition sweep_empty :: "keyword_index \<Rightarrow> keyword_index" where
  "sweep_empty ix = ix\<lparr>ki_hot := retain_nonempty (ki_hot ix), ki_pending := retain_nonempty (ki_pending ix)\<rparr>"

definition compact :: "keyword_index \<Rightarrow> keyword_index \<times> nat" where
  "compact ix =
     (let (ix', dropped) = compact_chunks ix (chunk_shards (compact_keys ix)) 0
      in (sweep_empty ix', dropped))"

section \<open>Edits during a compaction\<close>

datatype edit = AddToken file_id token_hash | RemoveToken file_id token_hash

fun apply_edit :: "edit \<Rightarrow> keyword_index \<Rightarrow> keyword_index" where
  "apply_edit (AddToken i th) = add_token i th"
| "apply_edit (RemoveToken i th) = remove_token i th"

fun edit_id :: "edit \<Rightarrow> file_id" where
  "edit_id (AddToken i th) = i"
| "edit_id (RemoveToken i th) = i"

text \<open>Where the compactor is: between shards; with the keys still to be read; or between the
  reads of one key's hot and pending sets.\<close>

datatype phase =
    Idle
  | Reading nat "token_hash list" "(update \<times> snap) list"
  | HalfRead nat token_hash "file_id list" "token_hash list" "(update \<times> snap) list"

inductive step :: "keyword_index \<times> phase \<Rightarrow> edit option \<Rightarrow> keyword_index \<times> phase \<Rightarrow> bool" where
  edit: "valid_id (edit_id e) \<Longrightarrow> step (ix, ph) (Some e) (apply_edit e ix, ph)"
| begin_shard: "sh < SHARDS \<Longrightarrow> ascending keys \<Longrightarrow> \<forall>k\<in>set keys. shard_of k = sh \<Longrightarrow>
    step (ix, Idle) None (ix, Reading sh keys [])"
| read_hot: "step (ix, Reading sh (th # ths) acc) None
    (ix, HalfRead sh th (case ki_hot ix th of Some v \<Rightarrow> v | None \<Rightarrow> []) ths acc)"
| read_pending: "step (ix, HalfRead sh th hv ths acc) None (ix, Reading sh ths (acc @ snap_key ix th hv))"
| finish_none: "step (ix, Reading sh [] []) None (ix, Idle)"
| finish: "room (ki_cold ix) sh (map fst acc) \<Longrightarrow> acc \<noteq> [] \<Longrightarrow>
    step (ix, Reading sh [] acc) None (fst (install ix sh acc), Idle)"
| sweep: "step (ix, Idle) None (sweep_empty ix, Idle)"

inductive run :: "keyword_index \<times> phase \<Rightarrow> edit list \<Rightarrow> keyword_index \<times> phase \<Rightarrow> bool" where
  run_refl: "run s [] s"
| run_edit: "run s es s' \<Longrightarrow> step s' (Some e) s'' \<Longrightarrow> run s (es @ [e]) s''"
| run_silent: "run s es s' \<Longrightarrow> step s' None s'' \<Longrightarrow> run s es s''"

inductive_cases step_editE: "step s (Some e) s'"
inductive_cases step_silentE: "step s None s'"

section \<open>Installing a snapshot\<close>

lemma case_list_of: "(case m of Some v \<Rightarrow> v | None \<Rightarrow> []) = list_of m"
  by (simp add: list_of_def)

lemma install_snap_frame [simp]:
  "ki_cold (install_snap s ix) = ki_cold ix"
  "ki_subtokens (install_snap s ix) = ki_subtokens ix"
  "finite (dom (ki_hot ix)) \<Longrightarrow> finite (dom (ki_hot (install_snap s ix)))"
  "finite (dom (ki_pending ix)) \<Longrightarrow> finite (dom (ki_pending (install_snap s ix)))"
  by (auto simp: install_snap_def Let_def split: option.splits)

lemma install_snap_tiers:
  assumes "ascending (sn_hv s)" and "ascending (sn_pend s)" and "ascending (hot_ids ix (sn_th s))"
  shows "hot_ids (install_snap s ix) th =
      (if th = sn_th s then filter (\<lambda>i. i \<notin> set (sn_hv s)) (hot_ids ix th) else hot_ids ix th)"
    and "pend_ids (install_snap s ix) th =
      (if th = sn_th s
       then fold sv_insert (filter (\<lambda>i. i \<notin> set (hot_ids ix th)) (sn_hv s))
              (filter (\<lambda>i. i \<notin> set (sn_pend s)) (pend_ids ix th))
       else pend_ids ix th)"
  using assms
  by (auto simp: install_snap_def Let_def sv_mem_iff list_of_def filter_empty_conv cong: filter_cong split: option.splits)

definition snap_ids_ok :: "snap \<Rightarrow> bool" where
  "snap_ids_ok s \<longleftrightarrow> ids_ok (sn_hv s) \<and> ids_ok (sn_pend s)"

lemma ids_ok_fold_insert: "ids_ok v \<Longrightarrow> list_all valid_id xs \<Longrightarrow> ids_ok (fold sv_insert xs v)"
  by (induction xs arbitrary: v) (auto simp: ids_ok_simps)

lemma install_snap_sets:
  assumes "snap_ids_ok s" and "ids_ok (hot_ids ix (sn_th s))" and "ids_ok (pend_ids ix (sn_th s))"
  shows "set (hot_ids (install_snap s ix) (sn_th s)) = set (hot_ids ix (sn_th s)) - set (sn_hv s)"
    and "set (pend_ids (install_snap s ix) (sn_th s)) =
      (set (pend_ids ix (sn_th s)) - set (sn_pend s)) \<union> (set (sn_hv s) - set (hot_ids ix (sn_th s)))"
    and "ids_ok (hot_ids (install_snap s ix) (sn_th s))"
    and "ids_ok (pend_ids (install_snap s ix) (sn_th s))"
proof -
  note asc = assms [unfolded snap_ids_ok_def ids_ok_def]
  note t = install_snap_tiers [of s ix "sn_th s"]
  show "set (hot_ids (install_snap s ix) (sn_th s)) = set (hot_ids ix (sn_th s)) - set (sn_hv s)"
    using asc t by auto
  show "set (pend_ids (install_snap s ix) (sn_th s)) =
      (set (pend_ids ix (sn_th s)) - set (sn_pend s)) \<union> (set (sn_hv s) - set (hot_ids ix (sn_th s)))"
    using asc t sv.fold_ins [OF ascending_filter, of "pend_ids ix (sn_th s)"] by auto
  show "ids_ok (hot_ids (install_snap s ix) (sn_th s))"
    using asc t by (simp add: ids_ok_def list_all_iff ascending_filter)
  have "ids_ok (filter (\<lambda>i. i \<notin> set (sn_pend s)) (pend_ids ix (sn_th s)))"
    using assms(3) by (simp add: ids_ok_simps)
  moreover have "list_all valid_id (filter (\<lambda>i. i \<notin> set (hot_ids ix (sn_th s))) (sn_hv s))"
    using asc by (simp add: list_all_iff)
  ultimately show "ids_ok (pend_ids (install_snap s ix) (sn_th s))"
    using asc t ids_ok_fold_insert by simp
qed

text \<open>The snapshots of a batch belong to different keywords, so their callbacks do not meet.\<close>

lemma install_snap_other:
  assumes "th \<noteq> sn_th s" and "snap_ids_ok s" and "ids_ok (hot_ids ix (sn_th s))"
  shows "hot_ids (install_snap s ix) th = hot_ids ix th" and "pend_ids (install_snap s ix) th = pend_ids ix th"
  using assms install_snap_tiers [of s ix th] by (auto simp: snap_ids_ok_def ids_ok_def)

lemma fold_install_frame [simp]:
  "ki_cold (fold install_snap ss ix) = ki_cold ix"
  "ki_subtokens (fold install_snap ss ix) = ki_subtokens ix"
  "finite (dom (ki_hot ix)) \<Longrightarrow> finite (dom (ki_hot (fold install_snap ss ix)))"
  "finite (dom (ki_pending ix)) \<Longrightarrow> finite (dom (ki_pending (fold install_snap ss ix)))"
  by (induction ss arbitrary: ix) auto

lemma fold_install_other:
  assumes "th \<notin> sn_th ` set ss" and "\<forall>s\<in>set ss. snap_ids_ok s" and "\<forall>th. ids_ok (hot_ids ix th) \<and> ids_ok (pend_ids ix th)"
  shows "hot_ids (fold install_snap ss ix) th = hot_ids ix th \<and> pend_ids (fold install_snap ss ix) th = pend_ids ix th"
  using assms
proof (induction ss arbitrary: ix)
  case (Cons s ss)
  have ok: "ids_ok (hot_ids (install_snap s ix) k) \<and> ids_ok (pend_ids (install_snap s ix) k)" for k
    using install_snap_sets(3,4) [of s ix] install_snap_other [of k s ix] Cons.prems(2,3)
    by (cases "k = sn_th s") auto
  show ?case
    using Cons.IH [of "install_snap s ix"] Cons.prems ok install_snap_other [of th s ix] by auto
qed simp

lemma fold_install_here:
  assumes "s \<in> set ss" and "distinct (map sn_th ss)" and "\<forall>s\<in>set ss. snap_ids_ok s"
    and "\<forall>th. ids_ok (hot_ids ix th) \<and> ids_ok (pend_ids ix th)"
  shows "set (hot_ids (fold install_snap ss ix) (sn_th s)) = set (hot_ids ix (sn_th s)) - set (sn_hv s) \<and>
    set (pend_ids (fold install_snap ss ix) (sn_th s)) =
      (set (pend_ids ix (sn_th s)) - set (sn_pend s)) \<union> (set (sn_hv s) - set (hot_ids ix (sn_th s))) \<and>
    ids_ok (hot_ids (fold install_snap ss ix) (sn_th s)) \<and> ids_ok (pend_ids (fold install_snap ss ix) (sn_th s))"
  using assms
proof (induction ss arbitrary: ix)
  case (Cons r ss)
  have ok: "ids_ok (hot_ids (install_snap r ix) k) \<and> ids_ok (pend_ids (install_snap r ix) k)" for k
    using install_snap_sets(3,4) [of r ix] install_snap_other [of k r ix] Cons.prems(3,4)
    by (cases "k = sn_th r") auto
  show ?case
  proof (cases "s = r")
    case True
    with Cons.prems ok fold_install_other [of "sn_th r" ss "install_snap r ix"] install_snap_sets [of r ix]
    show ?thesis by auto
  next
    case False
    then have s: "s \<in> set ss" "sn_th s \<noteq> sn_th r"
      using Cons.prems(1,2) by (auto dest: sym [THEN image_eqI])
    with Cons.IH [of "install_snap r ix"] Cons.prems ok install_snap_other [of "sn_th s" r ix]
    show ?thesis by auto
  qed
qed simp

section \<open>The invariant of a running compaction\<close>

text \<open>What is known of one key's snapshot: its update is the encoded merge, and every id of the
  cold blob that the snapshot mentions is still in the hot or the pending tier - an edit
  moves it between the two but never drops it.\<close>

definition covered :: "keyword_index \<Rightarrow> token_hash \<Rightarrow> file_id set \<Rightarrow> bool" where
  "covered ix th S \<longleftrightarrow> set (cold_ids ix th) \<inter> S \<subseteq> set (hot_ids ix th) \<union> set (pend_ids ix th)"

definition merged_blob :: "file_id list \<Rightarrow> bytes option" where
  "merged_blob merged = (if merged \<noteq> [] then Some (encode merged) else None)"

definition entry_ok :: "keyword_index \<Rightarrow> nat \<Rightarrow> update \<times> snap \<Rightarrow> bool" where
  "entry_ok ix sh e =
     (fst e = (sn_th (snd e),
        merged_blob (merge_tiers (cold_ids ix (sn_th (snd e))) (sn_hv (snd e)) (sn_pend (snd e)))) \<and>
      shard_of (sn_th (snd e)) = sh \<and> snap_ids_ok (snd e) \<and>
      covered ix (sn_th (snd e)) (set (sn_hv (snd e)) \<union> set (sn_pend (snd e))))"

definition keys_of :: "(update \<times> snap) list \<Rightarrow> token_hash list" where
  "keys_of acc = map (\<lambda>e. sn_th (snd e)) acc"

definition todo_ok :: "nat \<Rightarrow> token_hash list \<Rightarrow> bool" where
  "todo_ok sh ks \<longleftrightarrow> sh < SHARDS \<and> ascending ks \<and> (\<forall>k\<in>set ks. shard_of k = sh)"

fun phase_ok :: "keyword_index \<Rightarrow> phase \<Rightarrow> bool" where
  "phase_ok ix Idle = True"
| "phase_ok ix (Reading sh ths acc) =
     (todo_ok sh (keys_of acc @ ths) \<and> list_all (entry_ok ix sh) acc)"
| "phase_ok ix (HalfRead sh th hv ths acc) =
     (todo_ok sh (keys_of acc @ th # ths) \<and> list_all (entry_ok ix sh) acc \<and>
      ids_ok hv \<and> covered ix th (set hv))"

definition state_ok :: "keyword_index \<times> phase \<Rightarrow> bool" where
  "state_ok s \<longleftrightarrow> index_ok (fst s) \<and> phase_ok (fst s) (snd s)"

lemma index_key_ok: "index_ok ix \<Longrightarrow> key_ok ix th"
  by (simp add: index_ok_def)

lemma index_ids_ok:
  "index_ok ix \<Longrightarrow> ids_ok (cold_ids ix th) \<and> ids_ok (hot_ids ix th) \<and> ids_ok (pend_ids ix th)"
  by (rule key_ok_ids) (rule index_key_ok)

lemma cold_has_key: "i \<in> set (cold_ids ix th) \<Longrightarrow> cold_contains_key (ki_cold ix) th"
  by (cases "cold_get (ki_cold ix) th") (auto simp: cold_contains_key_iff cold_ids_def)

lemma apply_edit_frame [simp]:
  "cold_ids (apply_edit e ix) th = cold_ids ix th" "ki_cold (apply_edit e ix) = ki_cold ix"
  by (cases e; simp add: index_facts)+

lemma apply_edit_index_ok: "index_ok ix \<Longrightarrow> valid_id (edit_id e) \<Longrightarrow> index_ok (apply_edit e ix)"
  by (cases e) (simp_all add: index_facts)

lemma covered_edit:
  assumes "index_ok ix" and "covered ix th S"
  shows "covered (apply_edit e ix) th S"
proof -
  have "ascending (hot_ids ix k)" "ascending (pend_ids ix k)" for k
    using index_ids_ok [OF assms(1)] by (auto simp: ids_ok_def)
  with assms(2) show ?thesis
    by (cases e) (auto simp: covered_def index_facts vec_simps cold_has_key)
qed

lemma phase_ok_edit:
  assumes "index_ok ix" and "phase_ok ix ph"
  shows "phase_ok (apply_edit e ix) ph"
  using assms covered_edit [OF assms(1)]
  by (cases ph) (auto simp: entry_ok_def list_all_iff split: prod.splits)

lemma covered_hot: "covered ix th (set (hot_ids ix th))"
  by (auto simp: covered_def)

lemma snap_key_list_of:
  "snap_key ix th hv = (if hv = [] \<and> pend_ids ix th = [] then []
     else [((th, merged_blob (merge_tiers (cold_ids ix th) hv (pend_ids ix th))),
            \<lparr>sn_th = th, sn_hv = hv, sn_pend = pend_ids ix th\<rparr>)])"
  by (simp add: snap_key_def Let_def case_list_of cold_ids_def merged_blob_def)

lemma phase_ok_snap_key:
  assumes "index_ok ix" and "phase_ok ix (HalfRead sh th hv ths acc)"
  shows "phase_ok ix (Reading sh ths (acc @ snap_key ix th hv))"
  using assms index_ids_ok [OF assms(1), of th]
  by (auto simp: snap_key_list_of keys_of_def todo_ok_def sorted_wrt_append entry_ok_def snap_ids_ok_def covered_def)

section \<open>Installing keeps the postings\<close>

lemma merge_tiers_ids:
  assumes "ids_ok c" and "ids_ok h" and "ids_ok p"
  shows "ids_ok (merge_tiers c h p)" and "set (merge_tiers c h p) = (set c - set p) \<union> set h"
proof -
  have asc: "ascending c" "ascending h" "ascending p" using assms by (auto simp: ids_ok_def)
  show s: "set (merge_tiers c h p) = (set c - set p) \<union> set h"
    using asc by (auto simp: merge_tiers_ref set_merge_ref)
  show "ids_ok (merge_tiers c h p)"
    using asc assms by (auto simp: ids_ok_def list_all_iff s merge_tiers_ref ascending_merge_ref)
       (auto simp: merge_tiers_ref set_merge_ref)
qed

lemma blob_ok_merged: "ids_ok m \<Longrightarrow> blob_ok (merged_blob m)"
  by (auto simp: blob_ok_def merged_blob_def)

lemma decode_merged: "ids_ok m \<Longrightarrow> list_of (Option.bind (merged_blob m) decode) = m"
  by (simp add: merged_blob_def decode_encode_ids [OF ids_ok_length])

text \<open>The set computation at the heart of it.\<close>

lemma install_sets:
  fixes C :: "'a set"
  assumes "C \<inter> (hv \<union> pd) \<subseteq> H \<union> P" and "H \<inter> P = {}"
  shows "(((C - pd) \<union> hv) - ((P - pd) \<union> (hv - H))) \<union> (H - hv) = (C - P) \<union> H"
  using assms by blast

lemma batch_of_phase:
  assumes "phase_ok ix (Reading sh [] acc)"
  shows "map fst (map fst acc) = keys_of acc" and "batch_for sh (map fst acc)"
proof -
  have key: "fst (fst e) = sn_th (snd e)" if "e \<in> set acc" for e
    using assms that by (force simp: entry_ok_def list_all_iff)
  show eq: "map fst (map fst acc) = keys_of acc" by (simp add: keys_of_def key)
  have "todo_ok sh (keys_of acc)" using assms by simp
  then show "batch_for sh (map fst acc)"
    unfolding batch_for_def eq by (auto simp: todo_ok_def keys_of_def key)
qed

lemma install_key:
  assumes ix: "index_ok ix" and ph: "phase_ok ix (Reading sh [] acc)"
    and room: "room (ki_cold ix) sh (map fst acc)"
  defines "ix' \<equiv> fst (install ix sh acc)"
  shows "posting ix' th = posting ix th" and "key_ok ix' th"
proof -
  define mid where "mid = ix\<lparr>ki_cold := fst (rebuild (ki_cold ix) sh (map fst acc))\<rparr>"
  have ix': "ix' = fold install_snap (map snd acc) mid"
    by (simp add: ix'_def install_def mid_def case_prod_beta)
  have todo: "todo_ok sh (keys_of acc)" and ent: "\<forall>e\<in>set acc. entry_ok ix sh e"
    using ph by (auto simp: list_all_iff)
  note upd_keys = batch_of_phase(1) [OF ph]
  have fits: "batch_fits (ki_cold ix) sh (map fst acc)"
    using batch_of_phase(2) [OF ph] room by (simp add: batch_fits_def)
  have snaps: "\<forall>s\<in>set (map snd acc). snap_ids_ok s" using ent by (auto simp: entry_ok_def)
  have dist: "distinct (map sn_th (map snd acc))" "distinct (map fst (map fst acc))"
    unfolding upd_keys using todo by (simp_all add: todo_ok_def keys_of_def strict_sorted_iff comp_def)
  have cok: "cold_ok (ki_cold ix)" using ix by (simp add: index_ok_def)
  have mid_tiers: "ki_hot mid = ki_hot ix" "ki_pending mid = ki_pending ix" by (simp_all add: mid_def)
  have mid_ok: "\<forall>th. ids_ok (hot_ids mid th) \<and> ids_ok (pend_ids mid th)"
    using index_ids_ok [OF ix] by (simp add: mid_tiers)
  have cold': "ki_cold ix' = fst (rebuild (ki_cold ix) sh (map fst acc))"
    by (simp add: ix') (simp add: mid_def)
  show "posting ix' th = posting ix th" "key_ok ix' th"
  proof -
    have "posting ix' th = posting ix th \<and> key_ok ix' th"
    proof (cases "th \<in> set (keys_of acc)")
      case False
      then have "cold_get (ki_cold ix') th = cold_get (ki_cold ix) th"
        using cold.get_batch_other [OF cok fits, of th] by (simp add: cold' image_image flip: upd_keys)
      moreover have "hot_ids ix' th = hot_ids ix th \<and> pend_ids ix' th = pend_ids ix th"
        using fold_install_other [of th "map snd acc" mid] False snaps mid_ok
        by (simp add: ix' mid_tiers keys_of_def image_image)
      ultimately show ?thesis
        using index_key_ok [OF ix, of th] by (simp add: posting_def cold_ids_def key_ok_def)
    next
      case True
      then obtain e where e: "e \<in> set acc" "th = sn_th (snd e)" by (auto simp: keys_of_def)
      let ?s = "snd e" and ?m = "merge_tiers (cold_ids ix th) (sn_hv (snd e)) (sn_pend (snd e))"
      have eo: "fst e = (th, merged_blob ?m)" "snap_ids_ok ?s"
        "covered ix th (set (sn_hv ?s) \<union> set (sn_pend ?s))"
        using ent e by (auto simp: entry_ok_def split: prod.splits)
      have m: "ids_ok ?m" "set ?m = (set (cold_ids ix th) - set (sn_pend ?s)) \<union> set (sn_hv ?s)"
        using merge_tiers_ids index_ids_ok [OF ix, of th] eo(2) by (auto simp: snap_ids_ok_def)
      have "(th, merged_blob ?m) \<in> set (map fst acc)" using e(1) eo(1) by force
      then have get: "cold_get (ki_cold ix') th = merged_blob ?m"
        using cold.get_batch_here [OF cok fits dist(2)] by (simp add: cold')
      then have cold_new: "cold_ids ix' th = ?m" unfolding cold_ids_def [of ix'] using decode_merged [OF m(1)] by simp
      have h: "set (hot_ids ix' th) = set (hot_ids ix th) - set (sn_hv ?s)"
        "set (pend_ids ix' th) = (set (pend_ids ix th) - set (sn_pend ?s)) \<union> (set (sn_hv ?s) - set (hot_ids ix th))"
        "ids_ok (hot_ids ix' th)" "ids_ok (pend_ids ix' th)"
        using fold_install_here [of ?s "map snd acc" mid] e dist(1) snaps mid_ok
        by (auto simp: ix' mid_tiers)
      have dj: "set (hot_ids ix th) \<inter> set (pend_ids ix th) = {}"
        using index_key_ok [OF ix, of th] by (simp add: key_ok_def)
      have "posting ix' th = posting ix th"
        unfolding posting_def cold_new m(2) h(1,2)
        using eo(3) dj by (intro install_sets) (auto simp: covered_def)
      moreover have "key_ok ix' th"
        using h dj blob_ok_merged [OF m(1)] by (auto simp: key_ok_def get)
      ultimately show ?thesis by blast
    qed
    then show "posting ix' th = posting ix th" "key_ok ix' th" by blast+
  qed
qed

lemma install_index_ok:
  assumes "index_ok ix" and "phase_ok ix (Reading sh [] acc)" and "room (ki_cold ix) sh (map fst acc)"
  shows "index_ok (fst (install ix sh acc))"
proof -
  have "batch_for sh (map fst acc)" by (rule batch_of_phase(2) [OF assms(2)])
  with assms have "cold_ok (fst (rebuild (ki_cold ix) sh (map fst acc)))"
    by (intro rebuild_ok) (auto simp: index_ok_def)
  with assms(1) install_key(2) [OF assms] show ?thesis
    by (auto simp: index_ok_def install_def case_prod_beta)
qed

lemma sweep_empty_tiers [simp]:
  "hot_ids (sweep_empty ix) th = hot_ids ix th" "pend_ids (sweep_empty ix) th = pend_ids ix th"
  "ki_cold (sweep_empty ix) = ki_cold ix"
  by (auto simp: sweep_empty_def retain_nonempty_def list_of_def split: option.splits)

lemma sweep_empty_ok:
  assumes "index_ok ix"
  shows "index_ok (sweep_empty ix)" and "posting (sweep_empty ix) th = posting ix th"
proof -
  have "dom (retain_nonempty m) \<subseteq> dom m" for m
    by (auto simp: retain_nonempty_def split: option.splits if_splits)
  then have "finite (dom (ki_hot (sweep_empty ix)))" "finite (dom (ki_pending (sweep_empty ix)))"
    using assms by (auto simp: index_ok_def sweep_empty_def intro: finite_subset)
  with assms show "index_ok (sweep_empty ix)"
    by (simp add: index_ok_def key_ok_def)
  show "posting (sweep_empty ix) th = posting ix th"
    by (simp add: posting_def cold_ids_def)
qed

section \<open>The simulation\<close>

text \<open>The abstract index and what an edit does to it.\<close>

type_synonym abstract_index = "token_hash \<Rightarrow> file_id set"

fun abs_edit :: "edit \<Rightarrow> abstract_index \<Rightarrow> abstract_index" where
  "abs_edit (AddToken i th) A = A(th := insert i (A th))"
| "abs_edit (RemoveToken i th) A = A(th := A th - {i})"

lemma posting_apply_edit: "index_ok ix \<Longrightarrow> posting (apply_edit e ix) = abs_edit e (posting ix)"
  by (cases e) (auto simp: index_facts)

lemma step_edit_simulates:
  assumes "step s (Some e) s'" and "state_ok s"
  shows "state_ok s' \<and> posting (fst s') = abs_edit e (posting (fst s))"
  using assms
  by (auto simp: state_ok_def apply_edit_index_ok phase_ok_edit posting_apply_edit elim!: step_editE)

lemma step_silent_simulates:
  assumes "step s None s'" and "state_ok s"
  shows "state_ok s' \<and> posting (fst s') = posting (fst s)"
  using assms(1)
proof cases
  case (begin_shard sh keys ix)
  with assms(2) show ?thesis by (simp add: state_ok_def todo_ok_def keys_of_def)
next
  case (read_hot ix sh th ths acc)
  with assms(2) show ?thesis
    by (auto simp: state_ok_def case_list_of index_ids_ok covered_hot)
next
  case (read_pending ix sh th hv ths acc)
  with assms(2) show ?thesis
    using phase_ok_snap_key [of ix sh th hv ths acc] by (simp add: state_ok_def)
next
  case (finish_none ix sh)
  with assms(2) show ?thesis by (simp add: state_ok_def)
next
  case (finish ix sh acc)
  with assms(2) have "index_ok ix" "phase_ok ix (Reading sh [] acc)" "room (ki_cold ix) sh (map fst acc)"
    by (simp_all add: state_ok_def)
  with finish install_index_ok install_key(1) show ?thesis by (auto simp: state_ok_def)
next
  case (sweep ix)
  with assms(2) sweep_empty_ok show ?thesis by (auto simp: state_ok_def)
qed

lemma run_simulates:
  "run s es s' \<Longrightarrow> state_ok s \<Longrightarrow> state_ok s' \<and> posting (fst s') = fold abs_edit es (posting (fst s))"
proof (induction rule: run.induct)
  case (run_edit s es s' e s'')
  then show ?case using step_edit_simulates by simp
next
  case (run_silent s es s' s'')
  then show ?case using step_silent_simulates by simp
qed simp

section \<open>A whole compaction\<close>

lemma snap_keys_Nil: "snap_keys ix [] = []"
  by (simp add: snap_keys_def)

lemma snap_keys_Cons: "snap_keys ix (k # ks) = snap_key ix k (hot_ids ix k) @ snap_keys ix ks"
  by (simp add: snap_keys_def case_list_of)

lemma snap_keys_phase:
  "index_ok ix \<Longrightarrow> phase_ok ix (Reading sh ths acc) \<Longrightarrow> phase_ok ix (Reading sh [] (acc @ snap_keys ix ths))"
proof (induction ths arbitrary: acc)
  case (Cons th ths)
  have "phase_ok ix (HalfRead sh th (hot_ids ix th) ths acc)"
    using Cons.prems index_ids_ok covered_hot by simp
  from phase_ok_snap_key [OF Cons.prems(1) this] Cons.IH [OF Cons.prems(1)] show ?case
    unfolding snap_keys_Cons append_assoc [symmetric] by blast
qed (simp add: snap_keys_def)

lemma todo_ok_phase: "todo_ok sh ks \<Longrightarrow> phase_ok ix (Reading sh ks [])"
  by (simp add: keys_of_def)

lemma snap_keys_mem:
  "e \<in> set (snap_keys ix ks) \<Longrightarrow>
   sn_th (snd e) \<in> set ks \<and> sn_hv (snd e) = hot_ids ix (sn_th (snd e)) \<and> sn_pend (snd e) = pend_ids ix (sn_th (snd e))"
  by (induction ks) (auto simp: snap_keys_Cons snap_keys_Nil snap_key_list_of split: if_splits)

lemma snap_keys_covers:
  "k \<in> set ks \<Longrightarrow> (\<exists>e\<in>set (snap_keys ix ks). sn_th (snd e) = k) \<or> (hot_ids ix k = [] \<and> pend_ids ix k = [])"
  by (induction ks) (auto simp: snap_keys_Cons snap_key_list_of)

definition shard_room :: "keyword_index \<Rightarrow> token_hash list \<Rightarrow> bool" where
  "shard_room ix ks \<longleftrightarrow> room (ki_cold ix) (shard_of (hd ks)) (map fst (snap_keys ix ks))"

text \<open>Every shard the compaction rebuilds stays below \<open>2^32\<close> arena bytes.\<close>

fun chunks_room :: "keyword_index \<Rightarrow> token_hash list list \<Rightarrow> bool" where
  "chunks_room ix [] = True"
| "chunks_room ix (c # cs) = (shard_room ix c \<and> chunks_room (fst (compact_shard ix c)) cs)"

lemma compact_shard_ok:
  assumes ix: "index_ok ix" and ks: "todo_ok (shard_of (hd ks)) ks" and room: "shard_room ix ks"
  shows "index_ok (fst (compact_shard ix ks))"
    and "posting (fst (compact_shard ix ks)) th = posting ix th"
    and "th \<in> set ks \<Longrightarrow> hot_ids (fst (compact_shard ix ks)) th = [] \<and> pend_ids (fst (compact_shard ix ks)) th = []"
    and "th \<notin> set ks \<Longrightarrow> hot_ids (fst (compact_shard ix ks)) th = hot_ids ix th \<and>
           pend_ids (fst (compact_shard ix ks)) th = pend_ids ix th"
proof -
  let ?acc = "snap_keys ix ks" and ?sh = "shard_of (hd ks)"
  have ph: "phase_ok ix (Reading ?sh [] ?acc)"
    using snap_keys_phase [OF ix todo_ok_phase [OF ks]] by simp
  have rm: "room (ki_cold ix) ?sh (map fst ?acc)" using room by (simp add: shard_room_def)
  define mid where "mid = ix\<lparr>ki_cold := fst (rebuild (ki_cold ix) ?sh (map fst ?acc))\<rparr>"
  have cs: "fst (compact_shard ix ks) = (if ?acc = [] then ix else fold install_snap (map snd ?acc) mid)"
    by (simp add: compact_shard_def install_def mid_def Let_def case_prod_beta)
  have snaps: "\<forall>s\<in>set (map snd ?acc). snap_ids_ok s"
    using ph by (auto simp: list_all_iff entry_ok_def)
  have dist: "distinct (map sn_th (map snd ?acc))"
    using ph by (simp add: todo_ok_def keys_of_def strict_sorted_iff comp_def)
  have mid_ok: "\<forall>th. ids_ok (hot_ids mid th) \<and> ids_ok (pend_ids mid th)"
    using index_ids_ok [OF ix] by (simp add: mid_def)
  have tiers: "hot_ids mid th = hot_ids ix th" "pend_ids mid th = pend_ids ix th" for th
    by (simp_all add: mid_def)
  show "index_ok (fst (compact_shard ix ks))"
    using ix install_index_ok [OF ix ph rm] by (simp add: compact_shard_def Let_def)
  show "posting (fst (compact_shard ix ks)) th = posting ix th"
    using install_key(1) [OF ix ph rm] by (simp add: compact_shard_def Let_def)
  show "hot_ids (fst (compact_shard ix ks)) th = [] \<and> pend_ids (fst (compact_shard ix ks)) th = []" if "th \<in> set ks"
  proof (cases "\<exists>e\<in>set ?acc. sn_th (snd e) = th")
    case True
    then obtain e where e: "e \<in> set ?acc" "th = sn_th (snd e)" by auto
    then have "?acc \<noteq> []" by auto
    then show ?thesis
      using fold_install_here [of "snd e" "map snd ?acc" mid] e dist snaps mid_ok snap_keys_mem [OF e(1)]
      by (simp add: cs tiers)
  next
    case False
    then have empty: "hot_ids ix th = [] \<and> pend_ids ix th = []"
      using snap_keys_covers [OF that] by blast
    have "th \<notin> sn_th ` set (map snd ?acc)" using False by auto
    with fold_install_other [OF _ snaps mid_ok] empty show ?thesis by (simp add: cs tiers)
  qed
  show "hot_ids (fst (compact_shard ix ks)) th = hot_ids ix th \<and>
           pend_ids (fst (compact_shard ix ks)) th = pend_ids ix th" if "th \<notin> set ks"
  proof -
    have "th \<notin> sn_th ` set (map snd ?acc)" using that snap_keys_mem by fastforce
    with fold_install_other [OF _ snaps mid_ok] show ?thesis by (simp add: cs tiers)
  qed
qed

lemma compact_chunks_ok:
  assumes "index_ok ix" and "\<forall>c\<in>set cs. todo_ok (shard_of (hd c)) c" and "chunks_room ix cs"
  shows "index_ok (fst (compact_chunks ix cs n)) \<and>
    posting (fst (compact_chunks ix cs n)) th = posting ix th \<and>
    (th \<in> set (concat cs) \<or> hot_ids ix th = [] \<and> pend_ids ix th = [] \<longrightarrow>
      hot_ids (fst (compact_chunks ix cs n)) th = [] \<and> pend_ids (fst (compact_chunks ix cs n)) th = [])"
  using assms
proof (induction ix cs n rule: compact_chunks.induct)
  case (2 ix c cs n)
  obtain ix' m where c: "compact_shard ix c = (ix', m)" by (cases "compact_shard ix c")
  with 2 have s: "index_ok ix" "todo_ok (shard_of (hd c)) c" "shard_room ix c" by auto
  note cs = compact_shard_ok [OF s, unfolded c fst_conv]
  note IH = "2.IH" [OF c [symmetric] refl cs(1)]
  have IH': "index_ok (fst (compact_chunks ix' cs (n + m))) \<and>
    posting (fst (compact_chunks ix' cs (n + m))) th = posting ix' th \<and>
    (th \<in> set (concat cs) \<or> hot_ids ix' th = [] \<and> pend_ids ix' th = [] \<longrightarrow>
      hot_ids (fst (compact_chunks ix' cs (n + m))) th = [] \<and> pend_ids (fst (compact_chunks ix' cs (n + m))) th = [])"
    using "2.prems" c by (intro IH) auto
  have "compact_chunks ix (c # cs) n = compact_chunks ix' cs (n + m)" by (simp add: c)
  then show ?case
    using IH' cs(2) [of th] cs(3,4) [of th] by (cases "th \<in> set c") auto
qed simp

lemma chunk_shards_ok:
  assumes "sorted_wrt (\<lambda>a b. (shard_of a, a) < (shard_of b, b)) ks"
  shows "concat (chunk_shards ks) = ks \<and> (\<forall>c\<in>set (chunk_shards ks). todo_ok (shard_of (hd c)) c)"
  using assms
proof (induction ks rule: chunk_shards.induct)
  case (2 k ks)
  let ?P = "\<lambda>j. shard_of j = shard_of k"
  have sw: "sorted_wrt (\<lambda>a b. (shard_of a, a) < (shard_of b, b)) (takeWhile ?P ks)"
    "sorted_wrt (\<lambda>a b. (shard_of a, a) < (shard_of b, b)) (dropWhile ?P ks)"
  proof -
    have "sorted_wrt (\<lambda>a b. (shard_of a, a) < (shard_of b, b)) (takeWhile ?P ks @ dropWhile ?P ks)"
      using "2.prems" by (simp only: takeWhile_dropWhile_id sorted_wrt.simps)
    then show "sorted_wrt (\<lambda>a b. (shard_of a, a) < (shard_of b, b)) (takeWhile ?P ks)"
      "sorted_wrt (\<lambda>a b. (shard_of a, a) < (shard_of b, b)) (dropWhile ?P ks)"
      by (simp_all only: sorted_wrt_append)
  qed
  have same: "\<forall>j\<in>set (takeWhile ?P ks). ?P j" by (auto dest: set_takeWhileD)
  have "ascending (takeWhile ?P ks)"
  proof (rule sorted_wrt_mono_rel [OF _ sw(1)])
    fix a b
    assume "a \<in> set (takeWhile ?P ks)" "b \<in> set (takeWhile ?P ks)" "(shard_of a, a) < (shard_of b, b)"
    moreover from this(1,2) have "shard_of a = shard_of b" using same by metis
    ultimately show "a < b" by simp
  qed
  moreover have "\<forall>j\<in>set (takeWhile ?P ks). k < j"
    using "2.prems" by (fastforce dest: set_takeWhileD)
  ultimately have a: "ascending (k # takeWhile ?P ks)" by simp
  have b: "\<forall>j\<in>set (k # takeWhile ?P ks). ?P j" using same by (metis set_ConsD)
  have "todo_ok (shard_of k) (k # takeWhile ?P ks)"
    unfolding todo_ok_def using a b shard_of_less by blast
  with "2.IH" [OF sw(2)] show ?case by simp
qed simp

lemma compact_keys_sorted:
  "sorted_wrt (\<lambda>a b. (shard_of a, a) < (shard_of b, b)) (compact_keys ix)"
proof -
  let ?f = "\<lambda>th. (shard_of th, th)"
  have "sorted (map ?f (compact_keys ix))" "distinct (map ?f (compact_keys ix))"
    by (auto simp: compact_keys_def distinct_map inj_on_def)
  then have "ascending (map ?f (compact_keys ix))" by (simp add: strict_sorted_iff)
  then show ?thesis by (simp add: sorted_wrt_map)
qed

lemma compact_ok:
  assumes ix: "index_ok ix" and room: "chunks_room ix (chunk_shards (compact_keys ix))"
  shows "index_ok (fst (compact ix))" and "posting (fst (compact ix)) th = posting ix th"
    and "ki_hot (fst (compact ix)) = Map.empty" and "ki_pending (fst (compact ix)) = Map.empty"
proof -
  let ?cs = "chunk_shards (compact_keys ix)"
  define ix' where "ix' = fst (compact_chunks ix ?cs 0)"
  have eq: "fst (compact ix) = sweep_empty ix'"
    by (simp add: compact_def ix'_def case_prod_beta)
  note ok = compact_chunks_ok [OF ix, where cs = ?cs and n = 0, folded ix'_def]
  have c: "concat ?cs = compact_keys ix" "\<forall>c\<in>set ?cs. todo_ok (shard_of (hd c)) c"
    using chunk_shards_ok [OF compact_keys_sorted] by blast+
  have keys: "set (compact_keys ix) = dom (ki_hot ix) \<union> dom (ki_pending ix)"
    using ix by (simp add: compact_keys_def index_ok_def)
  have drained: "hot_ids ix' th = [] \<and> pend_ids ix' th = []" for th
  proof -
    have "th \<in> set (concat ?cs) \<or> hot_ids ix th = [] \<and> pend_ids ix th = []"
      unfolding c(1) keys by (auto simp: list_of_def split: option.splits)
    with ok [of th] c(2) room show ?thesis by blast
  qed
  show "index_ok (fst (compact ix))" "posting (fst (compact ix)) th = posting ix th"
    using ok [of th] c(2) room sweep_empty_ok by (simp_all add: eq)
  have "retain_nonempty m = Map.empty" if "\<And>th. list_of (m th) = []" for m
  proof
    fix th
    show "retain_nonempty m th = None"
      using that [of th] by (auto simp: retain_nonempty_def list_of_def split: option.splits)
  qed
  with drained show "ki_hot (fst (compact ix)) = Map.empty" "ki_pending (fst (compact ix)) = Map.empty"
    by (simp_all add: eq sweep_empty_def)
qed

section \<open>The properties\<close>

text \<open>C1: For every interleaving of edits with the compactor's reads, its install step and its sweep, the
  postings are what the edits alone make of them: a compaction loses no id, resurrects no
  removed one and keeps the index well formed, although it merges and encodes without a lock.\<close>

theorem compaction_invisible:
  assumes "run (ix, Idle) es (ix', ph)" and "index_ok ix"
  shows "index_ok ix' \<and> posting ix' = fold abs_edit es (posting ix)"
  using run_simulates [OF assms(1)] assms(2) by (simp add: state_ok_def)

definition race_start :: keyword_index where
  "race_start = add_token (FileId 5) 1 (ki_new False)"

definition race_snap :: "(update \<times> snap) list" where
  "race_snap = [((1, Some (encode [FileId 5])), \<lparr>sn_th = 1, sn_hv = [FileId 5], sn_pend = []\<rparr>)]"

lemma race_tiers: "ki_hot race_start = [1 \<mapsto> [FileId 5]]" "ki_pending race_start = Map.empty"
    "ki_cold race_start = cold_default"
  by (simp_all add: race_start_def add_token_def ki_new_def Let_def vec_insert_def)

text \<open>The race of the comment in \<open>compact_shard\<close>: the only id of a keyword that has no blob yet is removed
  while the compactor is encoding it.\<close>

theorem compaction_invisible_witness:
  "\<exists>ix' ph. run (ki_new False, Idle) [AddToken (FileId 5) 1, RemoveToken (FileId 5) 1] (ix', ph) \<and>
     cold_get (ki_cold ix') 1 \<noteq> None \<and> posting ix' 1 = {}"
proof -
  let ?gone = "remove_token (FileId 5) 1 race_start"
  let ?fin = "fst (install ?gone 1 race_snap)"
  have sh: "shard_of 1 = 1" "(1::nat) < SHARDS" by (simp_all add: shard_of_def SHARDS_def)
  have snap: "snap_key race_start 1 [FileId 5] = race_snap"
    by (simp add: snap_key_def race_tiers Let_def cold_get_default race_snap_def)
  have gone: "ki_cold ?gone = cold_default" by (simp add: index_facts race_tiers)
  have room: "room (ki_cold ?gone) 1 (map fst race_snap)"
    by (simp add: gone room_def race_snap_def cold_default_def SHARDS_def shard_empty_def
        encode_def write_varint.simps Let_def drop_bit_eq_div)
  have "run (ki_new False, Idle) [] (ki_new False, Idle)" by (rule run_refl)
  from run_edit [OF this edit, of "AddToken (FileId 5) 1"]
  have r: "run (ki_new False, Idle) [AddToken (FileId 5) 1] (race_start, Idle)"
    by (simp add: valid_id_5 race_start_def)
  from run_silent [OF r begin_shard, of 1 "[1]"] sh
  have r: "run (ki_new False, Idle) [AddToken (FileId 5) 1] (race_start, Reading 1 [1] [])" by simp
  from run_silent [OF r read_hot]
  have r: "run (ki_new False, Idle) [AddToken (FileId 5) 1] (race_start, HalfRead 1 1 [FileId 5] [] [])"
    by (simp add: race_tiers)
  from run_silent [OF r read_pending]
  have r: "run (ki_new False, Idle) [AddToken (FileId 5) 1] (race_start, Reading 1 [] race_snap)"
    by (simp add: snap)
  from run_edit [OF r edit, of "RemoveToken (FileId 5) 1"]
  have r: "run (ki_new False, Idle) [AddToken (FileId 5) 1, RemoveToken (FileId 5) 1] (?gone, Reading 1 [] race_snap)"
    by (simp add: valid_id_5)
  have "race_snap \<noteq> []" by (simp add: race_snap_def)
  from run_silent [OF r finish [OF room this]]
  have r: "run (ki_new False, Idle) [AddToken (FileId 5) 1, RemoveToken (FileId 5) 1] (?fin, Idle)" .
  have "cold_get (ki_cold ?fin) 1 = Some (encode [FileId 5])"
  proof -
    have "batch_fits cold_default 1 (map fst race_snap)"
      using room sh by (simp add: batch_fits_def batch_for_def gone race_snap_def)
    from cold.get_batch [OF cold_default_ok this, of 1] show ?thesis
      by (simp add: install_def case_prod_beta gone race_snap_def)
  qed
  then show ?thesis
    using compaction_invisible [OF r index_ok_new] r by (intro exI [of _ ?fin] exI [of _ Idle]) simp
qed

text \<open>A compaction with no concurrent edit empties both deferred tiers into the compressed one and
  changes no posting.\<close>

theorem compact_drains:
  assumes "index_ok ix" and "chunks_room ix (chunk_shards (compact_keys ix))"
  shows "index_ok (fst (compact ix)) \<and> posting (fst (compact ix)) = posting ix \<and>
    ki_hot (fst (compact ix)) = Map.empty \<and> ki_pending (fst (compact ix)) = Map.empty"
  using compact_ok [OF assms] by blast

theorem compact_drains_witness:
  "ki_hot (fst (compact race_start)) = Map.empty \<and> posting (fst (compact race_start)) 1 = {FileId 5}"
proof -
  have ix: "index_ok race_start"
    unfolding race_start_def by (intro edit_index_ok index_ok_new valid_id_5)
  have keys: "compact_keys race_start = [1]"
    by (simp add: compact_keys_def race_tiers)
  have snap: "snap_keys race_start [1] = race_snap"
    by (simp add: snap_keys_def snap_key_def race_tiers Let_def cold_get_default race_snap_def)
  have "chunks_room race_start (chunk_shards (compact_keys race_start))"
    by (simp add: keys shard_room_def snap race_tiers room_def race_snap_def cold_default_def SHARDS_def
        shard_empty_def encode_def write_varint.simps Let_def drop_bit_eq_div shard_of_def)
  from compact_drains [OF ix this] show ?thesis
    by (simp add: posting_def race_tiers cold_ids_def cold_get_default)
qed

end
