(* ===== verification/Media.thy ===== *)
theory Media
  imports Rust_Str
begin

text \<open>
  Media metadata (\<open>src/state/media.rs\<close>): length, bitrate and codec index packed into one 64-bit
  word, the codec name table and the text form of a length. Unsigned arithmetic is on
  words, so it wraps as a release build does.
\<close>

section \<open>Packing\<close>

type_synonym media = u64

definition LEN_BITS :: nat where "LEN_BITS = 27"
definition RATE_BITS :: nat where "RATE_BITS = 29"
definition LEN_MAX :: u32 where "LEN_MAX = push_bit LEN_BITS 1 - 1"
definition RATE_MAX :: u32 where "RATE_MAX = push_bit RATE_BITS 1 - 1"

definition media_new :: "u32 \<Rightarrow> u32 \<Rightarrow> u8 \<Rightarrow> media" where
  "media_new secs bitrate codec =
     (let l = ucast (min secs LEN_MAX) :: u64; r = ucast (min bitrate RATE_MAX) :: u64
      in l OR push_bit LEN_BITS r OR push_bit (LEN_BITS + RATE_BITS) (ucast codec))"

definition media_length :: "media \<Rightarrow> u32" where
  "media_length m = ucast (m AND ucast LEN_MAX)"

definition media_bitrate :: "media \<Rightarrow> u32" where
  "media_bitrate m = ucast (drop_bit LEN_BITS m AND ucast RATE_MAX)"

definition media_codec :: "media \<Rightarrow> u8" where
  "media_codec m = ucast (drop_bit (LEN_BITS + RATE_BITS) m)"

definition media_is_empty :: "media \<Rightarrow> bool" where
  "media_is_empty m \<longleftrightarrow> m = 0"

definition media_merged :: "media \<Rightarrow> media \<Rightarrow> media" where
  "media_merged a b =
     (let pick = \<lambda>x y. if x \<noteq> 0 then x else y;
          codec = (if media_codec a \<noteq> 0 then media_codec a else media_codec b)
      in media_new (pick (media_length a) (media_length b)) (pick (media_bitrate a) (media_bitrate b)) codec)"

section \<open>Codec names\<close>

record codec_table =
  ct_index :: "rstr \<rightharpoonup> u8"
  ct_names :: "rstr list"

definition CODEC_MAX :: nat where "CODEC_MAX = 255"
definition CODEC_MAX_LEN :: nat where "CODEC_MAX_LEN = 19"

definition codec_new :: codec_table where
  "codec_new = \<lparr>ct_index = Map.empty, ct_names = []\<rparr>"

definition codec_normalise :: "rstr \<Rightarrow> rstr option" where
  "codec_normalise s =
     (let t = trim s in
      if t = [] \<or> \<not> list_all (\<lambda>b. 0x20 \<le> b \<and> b < 0x7F) (utf8 t) then None
      else Some (take CODEC_MAX_LEN (map ascii_lower t)))"

definition codec_intern :: "rstr \<Rightarrow> codec_table \<Rightarrow> u8 \<times> codec_table" where
  "codec_intern name t =
     (case ct_index t name of
        Some i \<Rightarrow> (i, t)
      | None \<Rightarrow>
          if length (ct_names t) \<ge> CODEC_MAX then (0, t)
          else
            let names = ct_names t @ [name]; i = of_nat (length names) :: u8
            in (i, \<lparr>ct_index = (ct_index t)(name \<mapsto> i), ct_names = names\<rparr>))"

definition codec_lookup :: "codec_table \<Rightarrow> rstr \<Rightarrow> u8 option" where
  "codec_lookup t raw = Option.bind (codec_normalise raw) (ct_index t)"

definition codec_name :: "codec_table \<Rightarrow> u8 \<Rightarrow> rstr option" where
  "codec_name t i =
     (if i = 0 then None
      else if unat i - 1 < length (ct_names t) then Some (ct_names t ! (unat i - 1)) else None)"

section \<open>A length as text\<close>

fun length_text_loop :: "rstr \<Rightarrow> u64 \<Rightarrow> u64 \<Rightarrow> u32" where
  "length_text_loop [] tot cur = ucast (min (tot + cur) 0xFFFFFFFF)"
| "length_text_loop (c # cs) tot cur =
     (if is_ascii_digit c then length_text_loop cs tot (min (cur * 10 + of_nat c - 48) 0xFFFFFFFF)
      else if c = 58 then length_text_loop cs ((tot + cur) * 60) 0
      else 0)"

definition parse_length_text :: "rstr \<Rightarrow> u32" where
  "parse_length_text s = length_text_loop (trim s) 0 0"

section \<open>Packing round trips\<close>

lemma max_masks: "LEN_MAX = mask 27" "RATE_MAX = mask 29"
  by (simp_all add: LEN_MAX_def RATE_MAX_def LEN_BITS_def RATE_BITS_def mask_eq_decr_exp push_bit_eq_mult)

lemma bit_mask_u32: "n \<le> 32 \<Longrightarrow> bit (mask n :: u32) i \<longleftrightarrow> i < n"
  by (auto simp: bit_simps)

lemma min_mask_bits:
  fixes x :: u32
  assumes "unat (mask n :: u32) < 2 ^ n" and "bit (min x (mask n)) i"
  shows "i < n"
proof (rule ccontr)
  assume "\<not> i < n"
  have "unat (min x (mask n)) \<le> unat (mask n :: u32)"
    by (simp add: min_def flip: word_le_nat_alt)
  also have "\<dots> < 2 ^ i"
    using assms(1) \<open>\<not> i < n\<close> by (meson less_le_trans not_less one_le_numeral power_increasing)
  finally have "\<not> bit (unat (min x (mask n))) i"
    by (simp add: bit_iff_odd)
  with assms(2) show False by (simp add: bit_unsigned_iff)
qed

lemma mask_27: "unat (mask 27 :: u32) < 2 ^ 27" and mask_29: "unat (mask 29 :: u32) < 2 ^ 29"
  by (simp_all add: mask_numeral)

lemma media_fields:
  "media_length (media_new l r c) = min l LEN_MAX"
  "media_bitrate (media_new l r c) = min r RATE_MAX"
  "media_codec (media_new l r c) = c"
proof -
  note B = min_mask_bits [OF mask_27, of l] min_mask_bits [OF mask_29, of r]
  show "media_length (media_new l r c) = min l LEN_MAX"
    using B by (intro bit_word_eqI)
      (auto simp: media_length_def media_new_def Let_def max_masks LEN_BITS_def RATE_BITS_def bit_simps)
  show "media_bitrate (media_new l r c) = min r RATE_MAX"
    using B by (intro bit_word_eqI)
      (fastforce simp: media_bitrate_def media_new_def Let_def max_masks LEN_BITS_def RATE_BITS_def bit_simps)
  show "media_codec (media_new l r c) = c"
    using B by (intro bit_word_eqI)
      (fastforce simp: media_codec_def media_new_def Let_def max_masks LEN_BITS_def RATE_BITS_def bit_simps)
qed

lemma media_length_le: "min (media_length m) LEN_MAX = media_length m"
proof -
  have "media_length m = media_length m AND LEN_MAX"
    by (rule bit_word_eqI) (auto simp: media_length_def max_masks bit_simps)
  then have "media_length m \<le> LEN_MAX" by (metis word_and_le1)
  then show ?thesis by (simp add: min_def)
qed

lemma media_bitrate_le: "min (media_bitrate m) RATE_MAX = media_bitrate m"
proof -
  have "media_bitrate m = media_bitrate m AND RATE_MAX"
    by (rule bit_word_eqI) (auto simp: media_bitrate_def max_masks bit_simps)
  then have "media_bitrate m \<le> RATE_MAX" by (metis word_and_le1)
  then show ?thesis by (simp add: min_def)
qed

text \<open>The three packed fields never disturb each other: each reads back as stored, capped at its
  width, and \<open>merged\<close> keeps every field that is known and fills exactly the missing ones.\<close>

theorem media_packing:
  "media_length (media_new l r c) = min l LEN_MAX \<and> media_bitrate (media_new l r c) = min r RATE_MAX \<and>
   media_codec (media_new l r c) = c \<and>
   media_length (media_merged a b) = (if media_length a \<noteq> 0 then media_length a else media_length b) \<and>
   media_bitrate (media_merged a b) = (if media_bitrate a \<noteq> 0 then media_bitrate a else media_bitrate b) \<and>
   media_codec (media_merged a b) = (if media_codec a \<noteq> 0 then media_codec a else media_codec b)"
  by (simp add: media_fields media_merged_def Let_def media_length_le media_bitrate_le)

section \<open>The codec table\<close>

definition codec_ok :: "codec_table \<Rightarrow> bool" where
  "codec_ok t \<longleftrightarrow> length (ct_names t) \<le> CODEC_MAX \<and> distinct (ct_names t) \<and>
     (\<forall>name i. ct_index t name = Some i \<longleftrightarrow>
        (\<exists>k<length (ct_names t). ct_names t ! k = name \<and> i = of_nat (Suc k)))"

lemma unat_codec_index: "k < 255 \<Longrightarrow> unat (of_nat (Suc k) :: u8) = Suc k"
  by (simp add: unat_of_nat del: of_nat_Suc)

lemma ex_nth_snoc:
  "(\<exists>k<length (xs @ [y]). (xs @ [y]) ! k = n \<and> P k) \<longleftrightarrow>
   (\<exists>k<length xs. xs ! k = n \<and> P k) \<or> n = y \<and> P (length xs)"
proof -
  have "(\<exists>k<Suc m. Q k) \<longleftrightarrow> (\<exists>k<m. Q k) \<or> Q m" for Q and m :: nat
    by (auto simp: less_Suc_eq)
  then have "(\<exists>k<length (xs @ [y]). (xs @ [y]) ! k = n \<and> P k) \<longleftrightarrow>
      (\<exists>k<length xs. (xs @ [y]) ! k = n \<and> P k) \<or> y = n \<and> P (length xs)" by simp
  moreover have "(\<exists>k<length xs. (xs @ [y]) ! k = n \<and> P k) \<longleftrightarrow> (\<exists>k<length xs. xs ! k = n \<and> P k)"
    by (rule ex_cong1) (auto simp: nth_append)
  ultimately show ?thesis by (simp only: eq_commute [of n y])
qed

lemma codec_intern_ok:
  assumes "codec_ok t"
  shows "codec_ok (snd (codec_intern name t))"
proof (cases "ct_index t name")
  case None
  then have new: "name \<notin> set (ct_names t)"
    using assms unfolding codec_ok_def in_set_conv_nth by (metis option.distinct(1))
  show ?thesis
  proof (cases "length (ct_names t) \<ge> CODEC_MAX")
    case True
    with None assms show ?thesis by (simp add: codec_intern_def)
  next
    case False
    let ?t = "snd (codec_intern name t)"
    have nm: "ct_names ?t = ct_names t @ [name]"
      and ix: "ct_index ?t = (ct_index t)(name \<mapsto> of_nat (Suc (length (ct_names t))))"
      using None False by (simp_all add: codec_intern_def Let_def)
    have "ct_index ?t n = Some i \<longleftrightarrow> (\<exists>k<length (ct_names ?t). ct_names ?t ! k = n \<and> i = of_nat (Suc k))" for n i
    proof (cases "n = name")
      case True
      have "(\<exists>k<length (ct_names ?t). ct_names ?t ! k = n \<and> i = of_nat (Suc k)) \<longleftrightarrow> i = of_nat (Suc (length (ct_names t)))"
        using new True by (auto simp only: nm ex_nth_snoc nth_mem)
      with True show ?thesis by (auto simp: ix)
    next
      case other: False
      have "(\<exists>k<length (ct_names ?t). ct_names ?t ! k = n \<and> i = of_nat (Suc k)) \<longleftrightarrow>
          (\<exists>k<length (ct_names t). ct_names t ! k = n \<and> i = of_nat (Suc k))"
        using other by (simp only: nm ex_nth_snoc simp_thms)
      with other assms show ?thesis by (simp add: ix codec_ok_def)
    qed
    then show ?thesis
      using assms new False by (simp add: codec_ok_def nm)
  qed
qed (use assms in \<open>simp add: codec_intern_def\<close>)

lemma codec_name_index:
  assumes "codec_ok t" and "ct_index t name = Some i"
  shows "codec_name t i = Some name" and "i \<noteq> 0"
proof -
  obtain k where k: "k < length (ct_names t)" "ct_names t ! k = name" "i = of_nat (Suc k)"
    using assms by (auto simp: codec_ok_def)
  then have "unat i = Suc k" using assms(1) by (auto simp: codec_ok_def CODEC_MAX_def intro: unat_codec_index simp del: of_nat_Suc)
  then show "codec_name t i = Some name" "i \<noteq> 0" using k by (auto simp: codec_name_def)
qed

text \<open>The codec table is a bijection between the interned names and the indices 1 to 255: interning
  keeps it one, never changes the index of a known name, gives back a name through its index,
  and answers 0 only for a new name when the table is full.\<close>

theorem codec_intern_bijection:
  assumes "codec_ok t" and "codec_intern name t = (i, t')"
  shows "codec_ok t' \<and> (\<forall>n j. ct_index t n = Some j \<longrightarrow> ct_index t' n = Some j) \<and>
    (if i = 0 then ct_index t name = None \<and> length (ct_names t) = CODEC_MAX \<and> t' = t
     else codec_name t' i = Some name \<and> ct_index t' name = Some i)"
proof -
  have ok: "codec_ok t'" using codec_intern_ok [OF assms(1), of name] assms(2) by simp
  have len: "length (ct_names t) \<le> CODEC_MAX" using assms(1) by (simp add: codec_ok_def)
  have keep: "ct_index t n = Some j \<longrightarrow> ct_index t' n = Some j" for n j
    using assms(2) by (auto simp: codec_intern_def Let_def split: option.splits if_splits)
  have "if i = 0 then ct_index t name = None \<and> length (ct_names t) = CODEC_MAX \<and> t' = t
     else ct_index t' name = Some i"
  proof (cases "ct_index t name")
    case None
    show ?thesis
    proof (cases "length (ct_names t) \<ge> CODEC_MAX")
      case True
      with None assms(2) len show ?thesis by (auto simp: codec_intern_def)
    next
      case False
      then have "unat (of_nat (Suc (length (ct_names t))) :: u8) \<noteq> 0"
        by (simp add: CODEC_MAX_def unat_codec_index del: of_nat_Suc)
      then have "of_nat (Suc (length (ct_names t))) \<noteq> (0 :: u8)" by (metis unsigned_0)
      with None False assms(2) show ?thesis by (auto simp: codec_intern_def Let_def)
    qed
  next
    case (Some j)
    with assms(2) codec_name_index [OF assms(1) Some] show ?thesis by (auto simp: codec_intern_def)
  qed
  with ok keep codec_name_index [OF ok] show ?thesis by (auto split: if_splits)
qed

lemma codec_new_ok: "codec_ok codec_new"
  by (simp add: codec_ok_def codec_new_def)

theorem codec_intern_bijection_witness:
  "codec_name (snd (codec_intern (lit ''xvid'') codec_new)) 1 = Some (lit ''xvid'')"
proof -
  have "codec_intern (lit ''xvid'') codec_new = (1, snd (codec_intern (lit ''xvid'') codec_new))"
    by (simp add: codec_intern_def codec_new_def CODEC_MAX_def Let_def)
  from codec_intern_bijection [OF codec_new_ok this] show ?thesis by simp
qed

section \<open>Lengths without wrapping\<close>

fun length_text_nat :: "rstr \<Rightarrow> nat \<Rightarrow> nat \<Rightarrow> nat" where
  "length_text_nat [] tot cur = min (tot + cur) (2 ^ 32 - 1)"
| "length_text_nat (c # cs) tot cur =
     (if is_ascii_digit c then length_text_nat cs tot (min (cur * 10 + (c - 48)) (2 ^ 32 - 1))
      else if c = 58 then length_text_nat cs ((tot + cur) * 60) 0
      else 0)"

lemma length_text_loop_nat:
  assumes "unat cur < 2 ^ 32" and "unat tot + 2 ^ 32 \<le> 2 ^ 32 * 61 ^ k" and "k + length (filter (\<lambda>c. c = 58) s) \<le> 5"
  shows "unat (length_text_loop s tot cur) = length_text_nat s (unat tot) (unat cur)"
  using assms
proof (induction s arbitrary: tot cur k)
  case Nil
  then have "k \<le> 5" by simp
  then have "(61::nat) ^ k \<le> 61 ^ 5" by (intro power_increasing) auto
  then have "unat tot + unat cur < 2 ^ 64" using Nil.prems by simp
  then have "unat (tot + cur) = unat tot + unat cur" by (simp add: unat_word_ariths)
  then have "unat (min (tot + cur) 0xFFFFFFFF) = min (unat tot + unat cur) (2 ^ 32 - 1)"
    by (simp add: min_def word_le_nat_alt)
  then show ?case
    by (simp add: unsigned_ucast_eq take_bit_nat_eq_self)
next
  case (Cons c s)
  consider (digit) "is_ascii_digit c" | (colon) "\<not> is_ascii_digit c" "c = 58" | (other) "\<not> is_ascii_digit c" "c \<noteq> 58" by blast
  then show ?case
  proof cases
    case digit
    then have c: "48 \<le> c" "c \<le> 57" by (auto simp: is_ascii_digit_def)
    then have uc: "unat (of_nat c :: u64) = c" by (simp add: unat_of_nat)
    have "unat (cur * 10 + of_nat c) = unat cur * 10 + c"
      using Cons.prems(1) c by (simp add: unat_word_ariths uc)
    then have "unat (cur * 10 + of_nat c - 48) = unat cur * 10 + (c - 48)"
      using c by (subst unat_sub) (auto simp: word_le_nat_alt)
    then have m: "unat (min (cur * 10 + of_nat c - 48) 0xFFFFFFFF) = min (unat cur * 10 + (c - 48)) (2 ^ 32 - 1)"
      by (simp add: min_def word_le_nat_alt)
    have "c \<noteq> 58" using c by simp
    with Cons.prems have "unat (length_text_loop s tot (min (cur * 10 + of_nat c - 48) 0xFFFFFFFF)) =
      length_text_nat s (unat tot) (unat (min (cur * 10 + of_nat c - 48) 0xFFFFFFFF))"
      by (intro Cons.IH [where k = k]) (simp_all add: m)
    with digit m show ?thesis by simp
  next
    case colon
    then have k: "Suc k + length (filter (\<lambda>c. c = 58) s) \<le> 5" using Cons.prems(3) by simp
    then have "(61::nat) ^ k \<le> 61 ^ 4" by (intro power_increasing) auto
    then have b: "unat tot + unat cur < 2 ^ 32 * 61 ^ 4" using Cons.prems(1,2) by simp
    then have "unat (tot + cur) = unat tot + unat cur" by (simp add: unat_word_ariths)
    then have u: "unat ((tot + cur) * 60) = (unat tot + unat cur) * 60"
      using b by (simp add: unat_word_ariths)
    have "(61::nat) ^ k \<ge> 1" by simp
    then have "unat ((tot + cur) * 60) + 2 ^ 32 \<le> 2 ^ 32 * 61 ^ Suc k"
      using Cons.prems(1,2) u by simp
    with Cons.IH [of 0 "(tot + cur) * 60" "Suc k"] k colon show ?thesis by (simp del: distrib_right_numeral add: u)
  next
    case other
    then show ?thesis by simp
  qed
qed

lemma length_text_nat_spec:
  "length (filter (\<lambda>c. c = 58) (trim s)) \<le> 5 \<Longrightarrow> unat (parse_length_text s) = length_text_nat (trim s) 0 0"
  using length_text_loop_nat [of 0 0 0 "trim s"] by (simp add: parse_length_text_def)

lemma length_text_colons:
  "length_text_loop (replicate n 58) tot 0 = ucast (min (tot * 60 ^ n) 0xFFFFFFFF)"
  by (induction n arbitrary: tot) (simp_all add: is_ascii_digit_def mult.assoc)

lemma length_text_one_colons:
  "parse_length_text (49 # replicate (Suc n) 58) = ucast (min (60 * 60 ^ n) (0xFFFFFFFF :: u64))"
proof -
  have "trim (49 # replicate (Suc n) 58) = 49 # replicate (Suc n) 58"
    by (rule trim_id) (simp add: is_whitespace_def)
  then show ?thesis
    using length_text_colons [of n 60] by (simp add: parse_length_text_def is_ascii_digit_def)
qed

lemma sixty_32: "(60::u64) * 60 ^ 31 = 0"
proof -
  have "(of_nat (60 ^ 32) :: u64) = 0" by (simp only: word_of_nat_eq_0_iff) simp
  then show ?thesis by (simp only: of_nat_power of_nat_numeral) (simp only: power_Suc [symmetric] numeral_nat)
qed

text \<open>A length text with at most five colons is read without overflow, exactly as over the
  unbounded integers; beyond that the 64-bit total wraps, so that one second followed by
  thirty-two colons reads as zero.\<close>

theorem length_text_bounds:
  "(length (filter (\<lambda>c. c = 58) (trim s)) \<le> 5 \<longrightarrow> unat (parse_length_text s) = length_text_nat (trim s) 0 0) \<and>
   parse_length_text (49 # replicate 32 58) = 0"
proof -
  have "parse_length_text (49 # replicate (Suc 31) 58) = 0"
    by (simp only: length_text_one_colons sixty_32) simp
  then have "parse_length_text (49 # replicate 32 58) = 0" by (simp only: Suc_numeral semiring_norm)
  with length_text_nat_spec show ?thesis by blast
qed

theorem length_text_bounds_witness:
  "unat (parse_length_text (lit ''1:30:00'')) = 5400"
proof -
  have t: "trim (lit ''1:30:00'') = lit ''1:30:00''" by (simp add: trim_def is_whitespace_def lit_def)
  have "length (filter (\<lambda>c. c = 58) (trim (lit ''1:30:00''))) \<le> 5" by (simp add: t) (simp add: lit_def)
  with length_text_bounds [of "lit ''1:30:00''"] show ?thesis
    by (simp add: t) (simp add: lit_def is_ascii_digit_def)
qed

end
