(* ===== verification/Search_Tree.thy ===== *)
theory Search_Tree
  imports Rust_Str
begin

text \<open>
  The search expression tree and its wire format (first half of \<open>src/proto/search.rs\<close>), and the
  hash references a search string can be. A buffer that a reader consumes is passed in and
  its rest returned; every \<open>bail!\<close> is a constructor of \<open>parse_error\<close>.

  \<open>print_node\<close> is the client's side of the format; parsing is proved to invert it.
\<close>

section \<open>The tree\<close>

datatype bool_op = And | Or | Not

datatype cmp_op = CEq | CGt | CLt | CGe | CLe | CNe

fun matches_u64 :: "cmp_op \<Rightarrow> u64 \<Rightarrow> u64 \<Rightarrow> bool" where
  "matches_u64 CEq value threshold = (value = threshold)"
| "matches_u64 CNe value threshold = (value \<noteq> threshold)"
| "matches_u64 CGt value threshold = (value > threshold)"
| "matches_u64 CLt value threshold = (value < threshold)"
| "matches_u64 CGe value threshold = (value \<ge> threshold)"
| "matches_u64 CLe value threshold = (value \<le> threshold)"

datatype search_tag = TagId u8 | TagName rstr

definition tag_from_bytes :: "bytes \<Rightarrow> search_tag" where
  "tag_from_bytes b = (case b of [i] \<Rightarrow> TagId i | _ \<Rightarrow> TagName (from_utf8_lossy b))"

fun tag_id :: "search_tag \<Rightarrow> u8 option" where
  "tag_id (TagId i) = Some i"
| "tag_id (TagName n) = None"

definition eq_ignore_ascii_case :: "rstr \<Rightarrow> rstr \<Rightarrow> bool" where
  "eq_ignore_ascii_case a b \<longleftrightarrow> map ascii_lower a = map ascii_lower b"

fun tag_is :: "search_tag \<Rightarrow> u8 \<Rightarrow> rstr list \<Rightarrow> bool" where
  "tag_is (TagId i) k names = (i = k)"
| "tag_is (TagName n) k names = list_ex (eq_ignore_ascii_case n) names"

datatype search_node =
    BoolNode bool_op search_node search_node
  | Term rstr
  | Meta search_tag rstr
  | Numeric search_tag cmp_op u64

section \<open>Reading\<close>

datatype parse_error =
    TooDeep | EmptyNode | MissingBoolOp | UnknownBoolOp u8 | Numeric32Truncated
  | Numeric64Truncated | UnknownNode u8 | LengthMissing | BodyTruncated nat nat
  | CmpMissing | UnknownCmp u8

definition MAX_DEPTH :: nat where
  "MAX_DEPTH = 24"

definition read_short_bytes :: "bytes \<Rightarrow> parse_error + bytes \<times> bytes" where
  "read_short_bytes buf =
     (if length buf < 2 then Inl LengthMissing
      else
        let n = from_le (take 2 buf); buf = drop 2 buf in
        if length buf < n then Inl (BodyTruncated (length buf) n)
        else Inr (take n buf, drop n buf))"

definition read_short_string :: "bytes \<Rightarrow> parse_error + rstr \<times> bytes" where
  "read_short_string buf =
     (case read_short_bytes buf of
        Inl e \<Rightarrow> Inl e
      | Inr (b, rest) \<Rightarrow> Inr (from_utf8_lossy b, rest))"

definition cmp_of_byte :: "u8 \<Rightarrow> cmp_op option" where
  "cmp_of_byte b =
     (if b = 0 then Some CEq else if b = 1 then Some CGt else if b = 2 then Some CLt
      else if b = 3 then Some CGe else if b = 4 then Some CLe else if b = 5 then Some CNe else None)"

definition read_cmp_op :: "bytes \<Rightarrow> parse_error + cmp_op \<times> bytes" where
  "read_cmp_op buf =
     (case buf of
        [] \<Rightarrow> Inl CmpMissing
      | b # rest \<Rightarrow> (case cmp_of_byte b of Some c \<Rightarrow> Inr (c, rest) | None \<Rightarrow> Inl (UnknownCmp b)))"

definition op_of_byte :: "u8 \<Rightarrow> bool_op option" where
  "op_of_byte b = (if b = 0 then Some And else if b = 1 then Some Or else if b = 2 then Some Not else None)"

text \<open>The tail of a numeric node: operator and tag name.\<close>

definition read_numeric_tail :: "u64 \<Rightarrow> bytes \<Rightarrow> parse_error + search_node \<times> bytes" where
  "read_numeric_tail value buf =
     (case read_cmp_op buf of
        Inl e \<Rightarrow> Inl e
      | Inr (op, buf) \<Rightarrow>
          (case read_short_bytes buf of
             Inl e \<Rightarrow> Inl e
           | Inr (name, buf) \<Rightarrow> Inr (Numeric (tag_from_bytes name) op value, buf)))"

function parse_node :: "bytes \<Rightarrow> nat \<Rightarrow> parse_error + search_node \<times> bytes" where
  "parse_node buf depth =
     (if depth > MAX_DEPTH then Inl TooDeep
      else case buf of
        [] \<Rightarrow> Inl EmptyNode
      | kind # buf \<Rightarrow>
          if kind = 0x00 then
            (case buf of
               [] \<Rightarrow> Inl MissingBoolOp
             | b # buf \<Rightarrow>
                 (case op_of_byte b of
                    None \<Rightarrow> Inl (UnknownBoolOp b)
                  | Some op \<Rightarrow>
                      (case parse_node buf (depth + 1) of
                         Inl e \<Rightarrow> Inl e
                       | Inr (left, buf) \<Rightarrow>
                           (case parse_node buf (depth + 1) of
                              Inl e \<Rightarrow> Inl e
                            | Inr (right, buf) \<Rightarrow> Inr (BoolNode op left right, buf)))))
          else if kind = 0x01 then
            (case read_short_string buf of
               Inl e \<Rightarrow> Inl e
             | Inr (s, buf) \<Rightarrow> Inr (Term s, buf))
          else if kind = 0x02 then
            (case read_short_string buf of
               Inl e \<Rightarrow> Inl e
             | Inr (value, buf) \<Rightarrow>
                 (case read_short_bytes buf of
                    Inl e \<Rightarrow> Inl e
                  | Inr (name, buf) \<Rightarrow> Inr (Meta (tag_from_bytes name) value, buf)))
          else if kind = 0x03 then
            (if length buf < 4 then Inl Numeric32Truncated
             else read_numeric_tail (of_nat (from_le (take 4 buf))) (drop 4 buf))
          else if kind = 0x08 then
            (if length buf < 8 then Inl Numeric64Truncated
             else read_numeric_tail (of_nat (from_le (take 8 buf))) (drop 8 buf))
          else Inl (UnknownNode kind))"
  by pat_completeness auto
termination
  by (relation "measure (\<lambda>(buf, depth). Suc MAX_DEPTH - depth)") auto

declare parse_node.simps [simp del]

text \<open>Trailing bytes are accepted.\<close>

definition parse :: "bytes \<Rightarrow> parse_error + search_node" where
  "parse payload = (case parse_node payload 0 of Inl e \<Rightarrow> Inl e | Inr (node, rest) \<Rightarrow> Inr node)"

section \<open>The client's side\<close>

definition print_bytes :: "bytes \<Rightarrow> bytes" where
  "print_bytes b = to_le 2 (length b) @ b"

fun tag_bytes :: "search_tag \<Rightarrow> bytes" where
  "tag_bytes (TagId i) = [i]"
| "tag_bytes (TagName n) = utf8 n"

fun cmp_byte :: "cmp_op \<Rightarrow> u8" where
  "cmp_byte CEq = 0" | "cmp_byte CGt = 1" | "cmp_byte CLt = 2" | "cmp_byte CGe = 3" | "cmp_byte CLe = 4"
| "cmp_byte CNe = 5"

fun op_byte :: "bool_op \<Rightarrow> u8" where
  "op_byte And = 0" | "op_byte Or = 1" | "op_byte Not = 2"

fun print_node :: "search_node \<Rightarrow> bytes" where
  "print_node (BoolNode op l r) = 0x00 # op_byte op # print_node l @ print_node r"
| "print_node (Term s) = 0x01 # print_bytes (utf8 s)"
| "print_node (Meta tag value) = 0x02 # print_bytes (utf8 value) @ print_bytes (tag_bytes tag)"
| "print_node (Numeric tag op value) =
     (if unat value < 2 ^ 32 then 0x03 # to_le 4 (unat value) else 0x08 # to_le 8 (unat value)) @
     cmp_byte op # print_bytes (tag_bytes tag)"

fun height :: "search_node \<Rightarrow> nat" where
  "height (BoolNode op l r) = Suc (max (height l) (height r))"
| "height n = 0"

definition short_str :: "rstr \<Rightarrow> bool" where
  "short_str s \<longleftrightarrow> valid_str s \<and> str_len s < 2 ^ 16"

fun tag_ok :: "search_tag \<Rightarrow> bool" where
  "tag_ok (TagId i) = True"
| "tag_ok (TagName n) = (short_str n \<and> str_len n \<noteq> 1)"

fun node_ok :: "search_node \<Rightarrow> bool" where
  "node_ok (BoolNode op l r) = (node_ok l \<and> node_ok r)"
| "node_ok (Term s) = short_str s"
| "node_ok (Meta tag value) = (tag_ok tag \<and> short_str value)"
| "node_ok (Numeric tag op value) = tag_ok tag"

lemma read_print_bytes [codec_simps]:
  "length b < 65536 \<Longrightarrow> read_short_bytes (print_bytes b @ rest) = Inr (b, rest)"
  by (simp add: read_short_bytes_def print_bytes_def from_le_to_le)

lemma read_print_string [codec_simps]:
  "short_str s \<Longrightarrow> read_short_string (print_bytes (utf8 s) @ rest) = Inr (s, rest)"
  by (simp add: read_short_string_def read_print_bytes short_str_def str_len_def from_utf8_lossy_utf8)

lemma tag_from_bytes_name: "length b \<noteq> 1 \<Longrightarrow> tag_from_bytes b = TagName (from_utf8_lossy b)"
  by (cases b; cases "tl b") (simp_all add: tag_from_bytes_def)

lemma tag_bytes_ok [codec_simps]:
  assumes "tag_ok tag"
  shows "length (tag_bytes tag) < 65536" and "tag_from_bytes (tag_bytes tag) = tag"
proof -
  show "length (tag_bytes tag) < 65536"
    using assms by (cases tag) (simp_all add: short_str_def str_len_def)
  show "tag_from_bytes (tag_bytes tag) = tag"
  proof (cases tag)
    case (TagName n)
    with assms show ?thesis
      using tag_from_bytes_name [of "utf8 n"] by (simp add: short_str_def str_len_def from_utf8_lossy_utf8)
  qed (simp add: tag_from_bytes_def)
qed

lemma read_print_cmp [codec_simps]: "read_cmp_op (cmp_byte op # rest) = Inr (op, rest)"
  by (cases op) (simp_all add: read_cmp_op_def cmp_of_byte_def)

lemma op_of_op_byte [codec_simps]: "op_of_byte (op_byte op) = Some op"
  by (cases op) (simp_all add: op_of_byte_def)

lemma read_numeric_tail_print [codec_simps]:
  "tag_ok tag \<Longrightarrow>
   read_numeric_tail v (cmp_byte op # print_bytes (tag_bytes tag) @ rest) = Inr (Numeric tag op v, rest)"
  by (simp add: read_numeric_tail_def codec_simps)

lemma parse_print_node:
  "node_ok n \<Longrightarrow> depth + height n \<le> MAX_DEPTH \<Longrightarrow> parse_node (print_node n @ rest) depth = Inr (n, rest)"
proof (induction n arbitrary: depth rest)
  case (BoolNode op l r)
  then have "parse_node (print_node l @ print_node r @ rest) (depth + 1) = Inr (l, print_node r @ rest)"
    "parse_node (print_node r @ rest) (depth + 1) = Inr (r, rest)" by auto
  with BoolNode.prems show ?case by (subst parse_node.simps) (simp add: codec_simps)
next
  case (Term s)
  then show ?case by (subst parse_node.simps) (simp add: codec_simps)
next
  case (Meta tag v)
  then show ?case by (subst parse_node.simps) (simp add: codec_simps)
next
  case (Numeric tag op v)
  have "unat v < 256 ^ 8" using unsigned_less [of v] by simp
  with Numeric show ?case
    by (subst parse_node.simps) (simp add: codec_simps)
qed

text \<open>C16: The parser inverts the client's encoding: every tree at most 24 levels high whose strings fit
  the length prefix is read back exactly, whatever bytes follow it.\<close>

theorem parse_print:
  assumes "node_ok n" and "height n \<le> MAX_DEPTH"
  shows "parse (print_node n @ rest) = Inr n"
  using parse_print_node [OF assms(1), of 0 rest] assms(2) by (simp add: parse_def)

theorem parse_print_witness:
  "parse (print_node (BoolNode Not (Term (lit ''hd'')) (Meta (TagId 0x03) (lit ''Video''))) @ [0xFF]) =
     Inr (BoolNode Not (Term (lit ''hd'')) (Meta (TagId 0x03) (lit ''Video'')))"
  by (rule parse_print)
    (simp_all add: short_str_def valid_str_def scalar_def lit_def str_len_ascii MAX_DEPTH_def)

section \<open>What a request can cost\<close>

fun nodes :: "search_node \<Rightarrow> nat" where
  "nodes (BoolNode op l r) = Suc (nodes l + nodes r)"
| "nodes n = 1"

lemma read_short_bytes_rest:
  "read_short_bytes buf = Inr (b, rest) \<Longrightarrow> length b + length rest + 2 = length buf"
  by (auto simp: read_short_bytes_def Let_def split: if_splits)

lemma read_short_string_rest:
  "read_short_string buf = Inr (s, rest) \<Longrightarrow> length rest + 2 \<le> length buf"
  by (auto simp: read_short_string_def split: sum.splits dest!: read_short_bytes_rest)

lemma read_numeric_tail_rest:
  "read_numeric_tail v buf = Inr (n, rest) \<Longrightarrow> length rest < length buf \<and> (\<exists>tag op. n = Numeric tag op v)"
  by (auto simp: read_numeric_tail_def read_cmp_op_def split: sum.splits list.splits option.splits dest!: read_short_bytes_rest)

lemma parse_node_bounds:
  "parse_node buf depth = Inr (n, rest) \<Longrightarrow>
   depth + height n \<le> MAX_DEPTH \<and> nodes n + length rest \<le> length buf"
proof (induction buf depth arbitrary: n rest rule: parse_node.induct)
  case (1 buf depth)
  have d: "depth \<le> MAX_DEPTH" using "1.prems" by (auto simp: parse_node.simps [of buf] split: if_splits)
  obtain kind body where buf: "buf = kind # body"
    using "1.prems" d by (cases buf) (auto simp: parse_node.simps [of "[]"])
  show ?case
  proof (cases "kind = 0")
    case True
    obtain b bs op l r buf1 where s: "body = b # bs" "op_of_byte b = Some op"
      "parse_node bs (depth + 1) = Inr (l, buf1)" "parse_node buf1 (depth + 1) = Inr (r, rest)" "n = BoolNode op l r"
      using "1.prems" True d buf
      by (auto simp: parse_node.simps [of "0 # body"] split: list.splits option.splits sum.splits)
    have "depth + 1 + height l \<le> MAX_DEPTH \<and> nodes l + length buf1 \<le> length bs"
      using "1.IH"(1) [OF _ buf True s(1,2,3)] d by simp
    moreover have "depth + 1 + height r \<le> MAX_DEPTH \<and> nodes r + length rest \<le> length buf1"
      using "1.IH"(2) [OF _ buf True s(1,2,3) refl s(4)] d by simp
    ultimately show ?thesis using s buf by (simp add: max_def)
  next
    case False
    with "1.prems" buf d show ?thesis
      by (auto simp: parse_node.simps [of "kind # body"] split: if_splits sum.splits
          dest!: read_short_string_rest read_short_bytes_rest read_numeric_tail_rest)
  qed
qed

text \<open>A request never makes the server build more than it sent: a parsed tree has at most as many
  nodes as the payload has bytes and is at most 24 levels high, so the recursions over it are
  bounded.\<close>

theorem parse_bounds:
  assumes "parse payload = Inr n"
  shows "height n \<le> MAX_DEPTH \<and> nodes n \<le> length payload"
  using assms parse_node_bounds [of payload 0 n] by (fastforce simp: parse_def split: sum.splits)

theorem parse_bounds_witness: "height (Term (lit ''a'')) \<le> MAX_DEPTH \<and> nodes (Term (lit ''a'')) \<le> length ([1, 1, 0, 97] :: bytes)"
proof (rule parse_bounds)
  show "parse [1, 1, 0, 97] = Inr (Term (lit ''a''))"
    by (simp add: parse_def parse_node.simps read_short_string_def read_short_bytes_def MAX_DEPTH_def
        from_utf8_lossy_def utf8_next_def lit_def)
qed

section \<open>Hash references\<close>

definition is_bar :: "rchar \<Rightarrow> bool" where "is_bar c \<longleftrightarrow> c = 124"

text \<open>\<open>split_once('|')\<close>: the part after the first bar.\<close>

definition after_bar :: "rstr \<Rightarrow> rstr option" where
  "after_bar s = (case dropWhile (\<lambda>c. \<not> is_bar c) s of [] \<Rightarrow> None | c # rest \<Rightarrow> Some rest)"

definition dec_value :: "rstr \<Rightarrow> nat" where
  "dec_value s = foldl (\<lambda>a c. a * 10 + (c - 48)) 0 s"

text \<open>\<open>digits\<close>: the leading digits as a \<open>u64\<close> (0 when there are none or they overflow), and how
  many there are.\<close>

definition digits :: "rstr \<Rightarrow> u64 \<times> nat" where
  "digits t =
     (let d = takeWhile is_ascii_digit t; v = dec_value d
      in (if v < 2 ^ 64 then of_nat v else 0, length d))"

definition ref_link :: "rstr \<Rightarrow> (rstr \<times> u64) option" where
  "ref_link rest =
     (case after_bar rest of
        None \<Rightarrow> None
      | Some after_name \<Rightarrow>
          (let (sz, n) = digits after_name
           in case after_bar (drop n after_name) of None \<Rightarrow> None | Some hash \<Rightarrow> Some (hash, sz)))"

definition hex_value :: "rchar \<Rightarrow> nat option" where
  "hex_value c =
     (if 48 \<le> c \<and> c \<le> 57 then Some (c - 48)
      else if 65 \<le> c \<and> c \<le> 70 then Some (c - 55)
      else if 97 \<le> c \<and> c \<le> 102 then Some (c - 87) else None)"

text \<open>\<open>u8::from_str_radix\<close> on two characters: hex digits, the first may be a plus sign.\<close>

definition radix16 :: "rchar \<Rightarrow> rchar \<Rightarrow> u8 option" where
  "radix16 a b =
     (case hex_value b of
        None \<Rightarrow> None
      | Some y \<Rightarrow>
          if a = 43 then Some (of_nat y)
          else (case hex_value a of None \<Rightarrow> None | Some x \<Rightarrow> Some (of_nat (16 * x + y))))"

fun hex_bytes :: "nat \<Rightarrow> rstr \<Rightarrow> bytes option" where
  "hex_bytes 0 s = Some []"
| "hex_bytes (Suc n) (a # b # s) =
     (case radix16 a b of
        None \<Rightarrow> None
      | Some x \<Rightarrow> (case hex_bytes n s of None \<Rightarrow> None | Some xs \<Rightarrow> Some (x # xs)))"
| "hex_bytes (Suc n) s = None"

definition starts_ci :: "rstr \<Rightarrow> rstr \<Rightarrow> bool" where
  "starts_ci s p \<longleftrightarrow> length p \<le> length s \<and> eq_ignore_ascii_case (take (length p) s) p"

definition ref_target :: "rstr \<Rightarrow> (rstr \<times> u64) option" where
  "ref_target s =
     (if starts_ci s (lit ''ed2k://|file|'') then ref_link (drop 13 s)
      else if starts_ci s (lit ''<a href= ed2k://|file|'') then ref_link (drop 22 s)
      else if starts_ci s (lit ''magnet:?xt=urn:ed2khash:'') then Some (drop 24 s, 0)
      else if starts_ci s (lit ''magnet:?xt=urn:ed2k:'') then Some (drop 20 s, 0)
      else if starts_ci s (lit ''ed2k:'') then
        (let rest = drop 5 s; (sz, n) = digits rest
         in case drop n rest of c # h \<Rightarrow> if c = 58 then Some (h, sz) else None | [] \<Rightarrow> None)
      else None)"

definition ed2k_file_ref :: "rstr \<Rightarrow> (bytes \<times> u64) option" where
  "ed2k_file_ref s =
     (case ref_target (trim s) of
        None \<Rightarrow> None
      | Some (hash, sz) \<Rightarrow>
          (case hex_bytes 16 hash of None \<Rightarrow> None | Some h \<Rightarrow> Some (h, sz)))"

fun ed2k_file_search :: "search_node \<Rightarrow> (bytes \<times> u64) option" where
  "ed2k_file_search (Term s) = ed2k_file_ref s"
| "ed2k_file_search n = None"

subsection \<open>A link names its file\<close>

definition hex_digit :: "nat \<Rightarrow> rchar" where
  "hex_digit n = (if n < 10 then 48 + n else 55 + n)"

definition hex_str :: "bytes \<Rightarrow> rstr" where
  "hex_str h = concat (map (\<lambda>b. [hex_digit (unat b div 16), hex_digit (unat b mod 16)]) h)"

lemma hex_value_digit: "n < 16 \<Longrightarrow> hex_value (hex_digit n) = Some n"
  by (simp add: hex_value_def hex_digit_def)

lemma hex_digit_plain: "n < 16 \<Longrightarrow> hex_digit n \<noteq> 43 \<and> \<not> is_whitespace (hex_digit n)"
  by (auto simp: hex_digit_def is_whitespace_def)

lemma radix16_byte: "radix16 (hex_digit (unat b div 16)) (hex_digit (unat b mod 16)) = Some b"
proof -
  have "unat b < 256" using unsigned_less [of b] by simp
  then have "unat b div 16 < 16" by (simp add: less_mult_imp_div_less)
  then show ?thesis
    by (simp add: radix16_def hex_value_digit hex_digit_plain del: of_nat_add of_nat_mult)
qed

lemma hex_bytes_str: "hex_bytes (length h) (hex_str h @ rest) = Some h"
  by (induction h) (simp_all add: hex_str_def radix16_byte)

fun dec_str :: "nat \<Rightarrow> rstr" where
  "dec_str n = (if n < 10 then [48 + n] else dec_str (n div 10) @ [48 + n mod 10])"

declare dec_str.simps [simp del]

lemma dec_str_digits: "list_all is_ascii_digit (dec_str n)"
proof (induction n rule: dec_str.induct)
  case (1 n)
  have "is_ascii_digit (48 + k)" if "k < 10" for k using that by (simp add: is_ascii_digit_def)
  with 1 show ?case by (subst dec_str.simps) simp
qed

lemma dec_value_snoc: "dec_value (s @ [c]) = dec_value s * 10 + (c - 48)"
  by (simp add: dec_value_def)

lemma dec_value_str: "dec_value (dec_str n) = n"
proof (induction n rule: dec_str.induct)
  case (1 n)
  then show ?case
    by (subst dec_str.simps) (simp add: dec_value_snoc, simp add: dec_value_def)
qed

lemma takeWhile_digits: "list_all P d \<Longrightarrow> \<not> P c \<Longrightarrow> takeWhile P (d @ c # r) = d"
  by (induction d) auto

lemma digits_dec_str:
  assumes "n < 2 ^ 64" and "\<not> is_ascii_digit c"
  shows "digits (dec_str n @ c # r) = (of_nat n, length (dec_str n))"
  using assms takeWhile_digits [OF dec_str_digits, of c n r] by (simp add: digits_def dec_value_str Let_def)

lemma after_bar_append: "list_all (\<lambda>c. \<not> is_bar c) s \<Longrightarrow> after_bar (s @ 124 # r) = Some r"
  by (induction s) (auto simp: after_bar_def is_bar_def)

lemma ref_link_print:
  assumes "list_all (\<lambda>c. \<not> is_bar c) name" and "n < 2 ^ 64"
  shows "ref_link (name @ 124 # dec_str n @ 124 # r) = Some (r, of_nat n)"
  using assms
  by (simp add: ref_link_def after_bar_append digits_dec_str is_ascii_digit_def)
    (simp add: after_bar_def is_bar_def)

lemma trim_ends:
  assumes "s \<noteq> []" and "\<not> is_whitespace (hd s)" and "\<not> is_whitespace (last s)"
  shows "trim s = s"
proof -
  have "dropWhile is_whitespace s = s" "dropWhile is_whitespace (rev s) = rev s"
    using assms by (simp_all add: dropWhile_eq_self_iff hd_rev)
  then show ?thesis by (simp add: trim_def)
qed

lemma last_hex_str: "h \<noteq> [] \<Longrightarrow> \<not> is_whitespace (last (hex_str h))"
proof (induction h rule: rev_induct)
  case (snoc b h)
  have "unat b mod 16 < 16" by simp
  from hex_digit_plain [OF this] show ?case by (simp add: hex_str_def)
qed simp

lemma starts_ci_append: "starts_ci (p @ s) p"
  by (simp add: starts_ci_def eq_ignore_ascii_case_def)

definition ref_end :: "rstr \<Rightarrow> bool" where
  "ref_end r \<longleftrightarrow> r = [] \<or> \<not> is_whitespace (last r)"

lemma ref_trim:
  assumes "p \<noteq> []" and "\<not> is_whitespace (hd p)" and "length h = 16" and "ref_end r"
  shows "trim (p @ hex_str h @ r) = p @ hex_str h @ r"
proof -
  have "h \<noteq> []" using assms(3) by auto
  moreover have "hex_str h \<noteq> []" using \<open>h \<noteq> []\<close> by (cases h) (simp_all add: hex_str_def)
  ultimately show ?thesis
    using assms last_hex_str [of h] by (intro trim_ends) (auto simp: ref_end_def last_append)
qed

text \<open>The four reference forms name their file: an ed2k link gives the hash and the size it was
  printed from, for any file name without a bar, and the short and magnet forms give the hash
  with no size.\<close>

theorem file_ref_round_trip:
  assumes "length h = 16" and "list_all (\<lambda>c. \<not> is_bar c) name" and "n < 2 ^ 64" and "ref_end r"
  shows "ed2k_file_ref (lit ''ed2k://|file|'' @ name @ 124 # dec_str n @ 124 # hex_str h @ r) = Some (h, of_nat n) \<and>
    ed2k_file_ref (lit ''ed2k::'' @ hex_str h @ r) = Some (h, 0) \<and>
    ed2k_file_ref (lit ''magnet:?xt=urn:ed2khash:'' @ hex_str h @ r) = Some (h, 0) \<and>
    ed2k_file_ref (lit ''magnet:?xt=urn:ed2k:'' @ hex_str h @ r) = Some (h, 0)"
proof (intro conjI)
  have hex: "hex_bytes 16 (hex_str h @ r) = Some h" using hex_bytes_str [of h r] assms(1) by simp
  let ?p = "lit ''ed2k://|file|'' @ name @ 124 # dec_str n @ [124]"
  have "trim (?p @ hex_str h @ r) = ?p @ hex_str h @ r"
    using assms by (intro ref_trim) (simp_all add: lit_def is_whitespace_def)
  moreover have "ref_target (?p @ hex_str h @ r) = Some (hex_str h @ r, of_nat n)"
    using ref_link_print [OF assms(2,3), of "hex_str h @ r"] starts_ci_append [of "lit ''ed2k://|file|''"]
    by (simp add: ref_target_def) (simp add: lit_def)
  ultimately show "ed2k_file_ref (lit ''ed2k://|file|'' @ name @ 124 # dec_str n @ 124 # hex_str h @ r) = Some (h, of_nat n)"
    using hex by (simp add: ed2k_file_ref_def)
  have tr: "trim (p @ hex_str h @ r) = p @ hex_str h @ r" if "p = lit q" "q \<noteq> []" "\<not> is_whitespace (of_char (hd q))" for p q
    using that assms(1,4) by (intro ref_trim) (simp_all add: lit_def hd_map)
  show "ed2k_file_ref (lit ''ed2k::'' @ hex_str h @ r) = Some (h, 0)"
    using hex tr [OF refl, of "''ed2k::''"]
    by (simp add: ed2k_file_ref_def ref_target_def starts_ci_def eq_ignore_ascii_case_def lit_def
        ascii_lower_def is_whitespace_def digits_def is_ascii_digit_def dec_value_def Let_def)
  show "ed2k_file_ref (lit ''magnet:?xt=urn:ed2khash:'' @ hex_str h @ r) = Some (h, 0)"
    using hex tr [OF refl, of "''magnet:?xt=urn:ed2khash:''"]
    by (simp add: ed2k_file_ref_def ref_target_def starts_ci_def eq_ignore_ascii_case_def lit_def
        ascii_lower_def is_whitespace_def)
  show "ed2k_file_ref (lit ''magnet:?xt=urn:ed2k:'' @ hex_str h @ r) = Some (h, 0)"
    using hex tr [OF refl, of "''magnet:?xt=urn:ed2k:''"]
    by (simp add: ed2k_file_ref_def ref_target_def starts_ci_def eq_ignore_ascii_case_def lit_def
        ascii_lower_def is_whitespace_def)
qed

theorem file_ref_round_trip_witness:
  "ed2k_file_ref (lit ''ed2k::'' @ hex_str (replicate 16 0xAB)) = Some (replicate 16 0xAB, 0)"
  using file_ref_round_trip [of "replicate 16 0xAB" "lit ''x.avi''" 7 "[]"]
  by (simp add: ref_end_def) (simp add: lit_def is_bar_def)

end
