(* ===== verification/Search_Filter.thy ===== *)
theory Search_Filter
  imports Search_Tree Tokenizer Media
begin

text \<open>
  The post-filter of a search (second half of \<open>src/proto/search.rs\<close>): word markers, file types
  by extension, the three-valued evaluation of a tree against one file, and the prepared and
  codec-resolved forms of a tree.
\<close>

section \<open>Markers\<close>

text \<open>\<open>(core, anchored, starred)\<close>.\<close>

definition parse_markers :: "rstr \<Rightarrow> rstr \<times> bool \<times> bool" where
  "parse_markers t =
     (let s = dropWhile (\<lambda>c. c = 42) t;
          starred = (s \<noteq> t);
          (anchored, s2) = (case s of c # r \<Rightarrow> if c = 94 then (True, r) else (False, s) | [] \<Rightarrow> (False, s));
          s3 = rev (dropWhile (\<lambda>c. c = 42) (rev s2))
      in (s3, anchored, starred \<or> s3 \<noteq> s2))"

section \<open>File types\<close>

definition AUDIO_EXT :: "rstr list" where
  "AUDIO_EXT = map lit
     [''mp3'', ''mp2'', ''m4a'', ''wav'', ''wma'', ''ogg'', ''flac'', ''aac'', ''ac3'',
      ''aif'', ''aiff'', ''ape'', ''mpc'', ''mid'', ''midi'', ''ra'', ''wv'', ''opus'']"

definition VIDEO_EXT :: "rstr list" where
  "VIDEO_EXT = map lit
     [''avi'', ''mpg'', ''mpeg'', ''mp4'', ''mkv'', ''wmv'', ''mov'', ''flv'', ''ogm'',
      ''m4v'', ''rm'', ''rmvb'', ''vob'', ''asf'', ''divx'', ''xvid'', ''3gp'', ''ts'',
      ''m2ts'', ''webm'', ''mpe'', ''ifo'']"

definition IMAGE_EXT :: "rstr list" where
  "IMAGE_EXT = map lit
     [''jpg'', ''jpeg'', ''png'', ''gif'', ''bmp'', ''tif'', ''tiff'', ''webp'', ''psd'',
      ''ico'', ''svg'', ''raw'', ''cr2'', ''nef'']"

definition PROGRAM_EXT :: "rstr list" where
  "PROGRAM_EXT = map lit
     [''exe'', ''msi'', ''bat'', ''com'', ''dll'', ''deb'', ''rpm'', ''dmg'', ''apk'',
      ''jar'', ''app'', ''bin'', ''run'']"

definition DOCUMENT_EXT :: "rstr list" where
  "DOCUMENT_EXT = map lit
     [''doc'', ''docx'', ''pdf'', ''txt'', ''rtf'', ''odt'', ''xls'', ''xlsx'', ''ppt'',
      ''pptx'', ''epub'', ''mobi'', ''djvu'', ''chm'', ''tex'', ''ods'', ''odp'']"

definition ARCHIVE_EXT :: "rstr list" where
  "ARCHIVE_EXT = map lit
     [''zip'', ''rar'', ''7z'', ''tar'', ''gz'', ''bz2'', ''xz'', ''ace'', ''arj'', ''cab'',
      ''lzh'', ''z'', ''tgz'', ''zst'']"

definition CDIMAGE_EXT :: "rstr list" where
  "CDIMAGE_EXT = map lit
     [''iso'', ''nrg'', ''cue'', ''img'', ''bin'', ''mdf'', ''ccd'', ''cdi'']"

definition T_ANY :: u32 where "T_ANY = 0"
definition T_AUDIO :: u32 where "T_AUDIO = 1"
definition T_VIDEO :: u32 where "T_VIDEO = 2"
definition T_IMAGE :: u32 where "T_IMAGE = 3"
definition T_PROGRAM :: u32 where "T_PROGRAM = 4"
definition T_DOCUMENT :: u32 where "T_DOCUMENT = 5"
definition T_ARCHIVE :: u32 where "T_ARCHIVE = 6"
definition T_CDIMAGE :: u32 where "T_CDIMAGE = 7"
definition T_EMULECOLLECTION :: u32 where "T_EMULECOLLECTION = 8"

text \<open>\<open>rsplit('.').next()\<close>.\<close>

definition last_piece :: "rstr \<Rightarrow> rstr" where
  "last_piece s = last (split_by (\<lambda>c. c = 46) s)"

fun first_category :: "rstr \<Rightarrow> (u32 \<times> rstr list) list \<Rightarrow> u32 option" where
  "first_category ext [] = None"
| "first_category ext ((cat, exts) # rest) = (if ext \<in> set exts then Some cat else first_category ext rest)"

definition type_tables :: "(u32 \<times> rstr list) list" where
  "type_tables =
     [(T_AUDIO, AUDIO_EXT), (T_VIDEO, VIDEO_EXT), (T_IMAGE, IMAGE_EXT), (T_PROGRAM, PROGRAM_EXT),
      (T_DOCUMENT, DOCUMENT_EXT), (T_ARCHIVE, ARCHIVE_EXT), (T_CDIMAGE, CDIMAGE_EXT)]"

definition ed2k_file_type_id :: "rstr \<Rightarrow> u32" where
  "ed2k_file_type_id name =
     (let ext = last_piece name in
      if ext = name then T_ANY
      else case first_category ext type_tables of
             Some cat \<Rightarrow> cat
           | None \<Rightarrow> if ext = lit ''emulecollection'' then T_EMULECOLLECTION else T_ANY)"

definition type_extensions :: "rstr \<Rightarrow> rstr list option" where
  "type_extensions v =
     (if v = lit ''audio'' then Some AUDIO_EXT else if v = lit ''video'' then Some VIDEO_EXT
      else if v = lit ''image'' then Some IMAGE_EXT else if v = lit ''pro'' then Some PROGRAM_EXT
      else if v = lit ''doc'' then Some DOCUMENT_EXT else if v = lit ''arc'' then Some ARCHIVE_EXT
      else if v = lit ''iso'' then Some CDIMAGE_EXT else None)"

definition file_type_matches :: "rstr \<Rightarrow> rstr \<Rightarrow> bool" where
  "file_type_matches name type_value =
     (let ext = last_piece name in
      if ext = name then False
      else case type_extensions type_value of None \<Rightarrow> True | Some exts \<Rightarrow> ext \<in> set exts)"

section \<open>One word\<close>

definition word_matches :: "unicode \<Rightarrow> rstr \<Rightarrow> rstr \<Rightarrow> bool" where
  "word_matches u w name =
     (if w = lit ''*'' \<or> w = lit ''**'' then True
      else
        let (core, anchored, starred) = parse_markers w in
        if core = [] then True
        else if anchored then
          starts_with name core \<or>
          list_ex (\<lambda>x. starts_with x core) (split_by (\<lambda>c. \<not> u_alphanumeric u c) name)
        else if starred then str_contains name core
        else str_contains name w)"

section \<open>Evaluation\<close>

record file_facts =
  ff_size :: u64
  ff_sources :: "u32 option"
  ff_complete_sources :: "u32 option"
  ff_media :: "media option"

definition facts_sized :: "u64 \<Rightarrow> file_facts" where
  "facts_sized sz = \<lparr>ff_size = sz, ff_sources = None, ff_complete_sources = None, ff_media = None\<rparr>"

definition LENGTH_NAMES :: "rstr list" where "LENGTH_NAMES = [lit ''length'']"
definition BITRATE_NAMES :: "rstr list" where "BITRATE_NAMES = [lit ''bitrate'']"
definition CODEC_NAMES :: "rstr list" where "CODEC_NAMES = [lit ''codec'']"
definition SOURCES_NAMES :: "rstr list" where "SOURCES_NAMES = [lit ''sources'', lit ''availability'']"
definition COMPLETE_SOURCES_NAMES :: "rstr list" where
  "COMPLETE_SOURCES_NAMES = [lit ''completesources'', lit ''complete_sources'']"

definition CODEC_INDEX_MARK :: rchar where "CODEC_INDEX_MARK = 0"

text \<open>\<open>str::parse::<u8>\<close>: an optional plus sign and decimal digits.\<close>

definition parse_u8 :: "rstr \<Rightarrow> u8 option" where
  "parse_u8 s =
     (let d = (case s of c # r \<Rightarrow> if c = 43 then r else s | [] \<Rightarrow> s) in
      if d = [] \<or> \<not> list_all is_ascii_digit d then None
      else let v = dec_value d in if v < 256 then Some (of_nat v) else None)"

definition fold_str :: "unicode \<Rightarrow> bool \<Rightarrow> rstr \<Rightarrow> rstr" where
  "fold_str u fld s = (if fld then fold_for_match u s else s)"

definition words_match :: "unicode \<Rightarrow> rstr \<Rightarrow> rstr \<Rightarrow> bool" where
  "words_match u s name = list_all (\<lambda>w. word_matches u w name) (split_whitespace s)"

definition codec_value :: "rstr \<Rightarrow> u8 option" where
  "codec_value v = (case v of c # r \<Rightarrow> if c = CODEC_INDEX_MARK then parse_u8 r else None | [] \<Rightarrow> None)"

definition eval_meta :: "unicode \<Rightarrow> search_tag \<Rightarrow> rstr \<Rightarrow> rstr \<Rightarrow> file_facts \<Rightarrow> bool option" where
  "eval_meta u tag v name facts =
     (if tag_is tag 0x03 [lit ''type''] then Some (file_type_matches name v)
      else if tag_is tag 0x04 [lit ''format''] then Some (last_piece name = v)
      else if tag_is tag 0xD5 CODEC_NAMES then
        (case ff_media facts of
           None \<Rightarrow> None
         | Some m \<Rightarrow> (case codec_value v of None \<Rightarrow> None | Some idx \<Rightarrow> Some (idx \<noteq> 0 \<and> media_codec m = idx)))
      else if tag_is tag 0xD3 LENGTH_NAMES then
        (case ff_media facts of None \<Rightarrow> None | Some m \<Rightarrow> Some (media_length m = parse_length_text v))
      else if (case tag_id tag of Some i \<Rightarrow> 0xD0 \<le> i \<and> i \<le> 0xD2 | None \<Rightarrow> False) then
        Some (words_match u v name)
      else None)"

definition eval_numeric :: "search_tag \<Rightarrow> cmp_op \<Rightarrow> u64 \<Rightarrow> file_facts \<Rightarrow> bool option" where
  "eval_numeric tag op v facts =
     (if tag_is tag 0x02 [lit ''size'', lit ''filesize''] then Some (matches_u64 op (ff_size facts) v)
      else if tag_is tag 0x15 SOURCES_NAMES then
        map_option (\<lambda>n. matches_u64 op (ucast n) v) (ff_sources facts)
      else if tag_is tag 0x30 COMPLETE_SOURCES_NAMES then
        map_option (\<lambda>n. matches_u64 op (ucast n) v) (ff_complete_sources facts)
      else if tag_is tag 0xD3 LENGTH_NAMES then
        map_option (\<lambda>m. matches_u64 op (ucast (media_length m)) v) (ff_media facts)
      else if tag_is tag 0xD4 BITRATE_NAMES then
        map_option (\<lambda>m. matches_u64 op (ucast (media_bitrate m)) v) (ff_media facts)
      else None)"

fun combine :: "bool_op \<Rightarrow> bool option \<Rightarrow> bool option \<Rightarrow> bool option" where
  "combine op None None = None"
| "combine Not None (Some r) = Some (\<not> r)"
| "combine Not (Some l) None = Some l"
| "combine Not (Some l) (Some r) = Some (l \<and> \<not> r)"
| "combine op (Some x) None = Some x"
| "combine op None (Some x) = Some x"
| "combine And (Some l) (Some r) = Some (l \<and> r)"
| "combine Or (Some l) (Some r) = Some (l \<or> r)"

fun eval_node :: "unicode \<Rightarrow> search_node \<Rightarrow> rstr \<Rightarrow> file_facts \<Rightarrow> bool \<Rightarrow> bool option" where
  "eval_node u (Term t) name facts fld = Some (words_match u (fold_str u fld t) name)"
| "eval_node u (Meta tag v) name facts fld = eval_meta u tag (fold_str u fld v) name facts"
| "eval_node u (Numeric tag op v) name facts fld = eval_numeric tag op v facts"
| "eval_node u (BoolNode op l r) name facts fld =
     (let lv = eval_node u l name facts fld in
      if op \<in> {And, Not} \<and> lv = Some False then Some False
      else if op = Or \<and> lv = Some True then Some True
      else combine op lv (eval_node u r name facts fld))"

definition or_true :: "bool option \<Rightarrow> bool" where
  "or_true v = (case v of Some b \<Rightarrow> b | None \<Rightarrow> True)"

definition evaluate_facts :: "unicode \<Rightarrow> search_node \<Rightarrow> rstr \<Rightarrow> file_facts \<Rightarrow> bool" where
  "evaluate_facts u node name facts = or_true (eval_node u node name facts True)"

definition evaluate :: "unicode \<Rightarrow> search_node \<Rightarrow> rstr \<Rightarrow> u64 \<Rightarrow> bool" where
  "evaluate u node name sz = evaluate_facts u node name (facts_sized sz)"

fun prepare :: "unicode \<Rightarrow> search_node \<Rightarrow> search_node" where
  "prepare u (Term t) = Term (fold_for_match u t)"
| "prepare u (Meta tag v) = Meta tag (fold_for_match u v)"
| "prepare u (Numeric tag op v) = Numeric tag op v"
| "prepare u (BoolNode op l r) = BoolNode op (prepare u l) (prepare u r)"

definition evaluate_prepared :: "unicode \<Rightarrow> search_node \<Rightarrow> rstr \<Rightarrow> file_facts \<Rightarrow> bool" where
  "evaluate_prepared u prepared name facts = or_true (eval_node u prepared name facts False)"

section \<open>What a tree asks for\<close>

fun uses_media :: "search_node \<Rightarrow> bool" where
  "uses_media (Numeric tag op v) = (tag_is tag 0xD3 LENGTH_NAMES \<or> tag_is tag 0xD4 BITRATE_NAMES)"
| "uses_media (Meta tag v) = (tag_is tag 0xD5 CODEC_NAMES \<or> tag_is tag 0xD3 LENGTH_NAMES)"
| "uses_media (BoolNode op l r) = (uses_media l \<or> uses_media r)"
| "uses_media (Term t) = False"

fun uses_complete_sources :: "search_node \<Rightarrow> bool" where
  "uses_complete_sources (Numeric tag op v) = tag_is tag 0x30 COMPLETE_SOURCES_NAMES"
| "uses_complete_sources (BoolNode op l r) = (uses_complete_sources l \<or> uses_complete_sources r)"
| "uses_complete_sources (Term t) = False"
| "uses_complete_sources (Meta tag v) = False"

fun resolve_codecs :: "(rstr \<Rightarrow> u8 option) \<Rightarrow> search_node \<Rightarrow> search_node" where
  "resolve_codecs lookup (Meta tag v) =
     (if tag_is tag 0xD5 CODEC_NAMES
      then Meta tag (CODEC_INDEX_MARK # dec_str (unat (case lookup v of Some i \<Rightarrow> i | None \<Rightarrow> 0)))
      else Meta tag v)"
| "resolve_codecs lookup (BoolNode op l r) = BoolNode op (resolve_codecs lookup l) (resolve_codecs lookup r)"
| "resolve_codecs lookup (Term t) = Term t"
| "resolve_codecs lookup (Numeric tag op v) = Numeric tag op v"

section \<open>Prepared trees\<close>

lemma eval_prepare: "eval_node u (prepare u t) name facts False = eval_node u t name facts True"
  by (induction t) (simp_all add: fold_str_def Let_def)

lemma eval_no_media:
  "\<not> uses_media t \<Longrightarrow> eval_node u t name (facts\<lparr>ff_media := m\<rparr>) fld = eval_node u t name facts fld"
  by (induction t) (auto simp: eval_meta_def eval_numeric_def Let_def)

lemma eval_no_complete_sources:
  "\<not> uses_complete_sources t \<Longrightarrow>
   eval_node u t name (facts\<lparr>ff_complete_sources := c\<rparr>) fld = eval_node u t name facts fld"
  by (induction t) (auto simp: eval_meta_def eval_numeric_def Let_def)

text \<open>Folding a tree once and evaluating it without folding answers as the original tree does, and a
  file's media record and complete-source count, which the search paths fetch only when the
  tree asks for them, cannot change the verdict otherwise.\<close>

theorem prepared_search_equivalent:
  "evaluate_prepared u (prepare u t) name facts = evaluate_facts u t name facts \<and>
   (\<not> uses_media t \<longrightarrow>
      evaluate_facts u t name (facts\<lparr>ff_media := m\<rparr>) = evaluate_facts u t name facts) \<and>
   (\<not> uses_complete_sources t \<longrightarrow>
      evaluate_facts u t name (facts\<lparr>ff_complete_sources := c\<rparr>) = evaluate_facts u t name facts)"
  by (simp add: evaluate_prepared_def evaluate_facts_def eval_prepare eval_no_media eval_no_complete_sources)

theorem prepared_search_equivalent_witness:
  "evaluate_facts ascii_tables (Numeric (TagId 0x02) CGt 5) (lit ''a.avi'') (facts_sized 9\<lparr>ff_media := Some (media_new 60 128 3)\<rparr>) =
   evaluate_facts ascii_tables (Numeric (TagId 0x02) CGt 5) (lit ''a.avi'') (facts_sized 9)"
  using prepared_search_equivalent [of ascii_tables "Numeric (TagId 0x02) CGt 5" "lit ''a.avi''" "facts_sized 9" "Some (media_new 60 128 3)" None] by simp

section \<open>Constraints the server cannot judge\<close>

text \<open>The tree without the leaves that cannot be judged, as a formula over truth values.\<close>

datatype formula = Lit bool | Conj formula formula | Disj formula formula | Neg formula

fun truth :: "formula \<Rightarrow> bool" where
  "truth (Lit b) = b"
| "truth (Conj a b) = (truth a \<and> truth b)"
| "truth (Disj a b) = (truth a \<or> truth b)"
| "truth (Neg a) = (\<not> truth a)"

fun join_op :: "bool_op \<Rightarrow> formula \<Rightarrow> formula \<Rightarrow> formula" where
  "join_op And a b = Conj a b"
| "join_op Or a b = Disj a b"
| "join_op Not a b = Conj a (Neg b)"

fun without_unjudged :: "unicode \<Rightarrow> search_node \<Rightarrow> rstr \<Rightarrow> file_facts \<Rightarrow> formula option" where
  "without_unjudged u (BoolNode op l r) name facts =
     (case (without_unjudged u l name facts, without_unjudged u r name facts) of
        (None, None) \<Rightarrow> None
      | (Some a, None) \<Rightarrow> Some a
      | (None, Some b) \<Rightarrow> Some (if op = Not then Neg b else b)
      | (Some a, Some b) \<Rightarrow> Some (join_op op a b))"
| "without_unjudged u leaf name facts = map_option Lit (eval_node u leaf name facts True)"

lemma eval_without_unjudged:
  "eval_node u t name facts True = map_option truth (without_unjudged u t name facts)"
proof (induction t)
  case (BoolNode op l r)
  then show ?case
    by (cases op; cases "without_unjudged u l name facts"; cases "without_unjudged u r name facts")
      (auto simp: Let_def)
qed (simp_all add: option.map_comp comp_def option.map_ident)

text \<open>The three-valued evaluation with its short cuts is the plain truth value of the tree from
  which the constraints the server cannot judge were taken out - also on the negated side of
  NOT - and a tree of nothing else matches everything.\<close>

theorem unjudged_left_out:
  "evaluate_facts u t name facts =
     (case without_unjudged u t name facts of None \<Rightarrow> True | Some f \<Rightarrow> truth f)"
  by (simp add: evaluate_facts_def or_true_def eval_without_unjudged split: option.split)

section \<open>Words of a term\<close>

lemma filter_hd_tl: "xs \<noteq> [] \<Longrightarrow> filter P xs = filter P [hd xs] @ filter P (tl xs)"
  by (cases xs) auto

lemma split_whitespace_append_sep:
  "is_whitespace c \<Longrightarrow> split_whitespace (s @ c # t) = split_whitespace s @ split_whitespace t"
  by (simp add: split_whitespace_def split_by_append_sep)

lemma fold_for_match_append_sep:
  assumes "unicode_ok u" and "is_whitespace c"
  shows "fold_for_match u (s @ c # t) = fold_for_match u s @ c # fold_for_match u t"
proof -
  have "fold_token u [c] = [c]" using fold_separator [OF assms(1), of c] assms(2) by (simp add: is_separator_def)
  then have "fold_token u (c # t) = c # fold_token u t"
    using fold_token_append [of u "[c]" t] by (simp del: fold_token.simps(2))
  with assms(1) show ?thesis by (simp only: fold_for_match_fold_token fold_token_append)
qed

text \<open>The words of a term are required one by one: a term matches exactly the files that both of its
  halves match, so the order of the words in a query never matters.\<close>

theorem term_words_any_order:
  assumes "unicode_ok u" and "is_whitespace c"
  shows "evaluate_facts u (Term (s @ c # t)) name facts \<longleftrightarrow>
      evaluate_facts u (Term s) name facts \<and> evaluate_facts u (Term t) name facts"
  by (simp add: evaluate_facts_def or_true_def words_match_def fold_str_def
      fold_for_match_append_sep [OF assms] split_whitespace_append_sep [OF assms(2)])

theorem term_words_any_order_witness:
  "evaluate_facts ascii_tables (Term (lit ''linux'' @ 32 # lit ''ubuntu'')) (lit ''ubuntu linux bible'') (facts_sized 0)"
proof -
  have "words_match ascii_tables (lit ''linux'') (lit ''ubuntu linux bible'')"
    "words_match ascii_tables (lit ''ubuntu'') (lit ''ubuntu linux bible'')"
    by (simp_all add: words_match_def split_whitespace_def word_matches_def parse_markers_def lit_def
        is_whitespace_def starts_with_def)
  then show ?thesis
    by (subst term_words_any_order [OF ascii_tables_ok])
      (simp_all add: evaluate_facts_def or_true_def fold_str_def fold_for_match_def ascii_lower_def
        is_whitespace_def lit_def)
qed

section \<open>File types agree\<close>

lemma category_lists_disjoint:
  "set AUDIO_EXT \<inter> set VIDEO_EXT = {}" "set AUDIO_EXT \<inter> set IMAGE_EXT = {}" "set AUDIO_EXT \<inter> set PROGRAM_EXT = {}"
  "set AUDIO_EXT \<inter> set DOCUMENT_EXT = {}" "set AUDIO_EXT \<inter> set ARCHIVE_EXT = {}" "set AUDIO_EXT \<inter> set CDIMAGE_EXT = {}"
  "set VIDEO_EXT \<inter> set IMAGE_EXT = {}" "set VIDEO_EXT \<inter> set PROGRAM_EXT = {}" "set VIDEO_EXT \<inter> set DOCUMENT_EXT = {}"
  "set VIDEO_EXT \<inter> set ARCHIVE_EXT = {}" "set VIDEO_EXT \<inter> set CDIMAGE_EXT = {}" "set IMAGE_EXT \<inter> set PROGRAM_EXT = {}"
  "set IMAGE_EXT \<inter> set DOCUMENT_EXT = {}" "set IMAGE_EXT \<inter> set ARCHIVE_EXT = {}" "set IMAGE_EXT \<inter> set CDIMAGE_EXT = {}"
  "set PROGRAM_EXT \<inter> set DOCUMENT_EXT = {}" "set PROGRAM_EXT \<inter> set ARCHIVE_EXT = {}"
  "set DOCUMENT_EXT \<inter> set ARCHIVE_EXT = {}" "set DOCUMENT_EXT \<inter> set CDIMAGE_EXT = {}" "set ARCHIVE_EXT \<inter> set CDIMAGE_EXT = {}"
  "set PROGRAM_EXT \<inter> set CDIMAGE_EXT = {lit ''bin''}"
  by (auto simp: AUDIO_EXT_def VIDEO_EXT_def IMAGE_EXT_def PROGRAM_EXT_def DOCUMENT_EXT_def ARCHIVE_EXT_def
      CDIMAGE_EXT_def lit_def)

lemma type_ids_distinct:
  "first_category ext type_tables =
     (if ext \<in> set AUDIO_EXT then Some 1 else if ext \<in> set VIDEO_EXT then Some 2
      else if ext \<in> set IMAGE_EXT then Some 3 else if ext \<in> set PROGRAM_EXT then Some 4
      else if ext \<in> set DOCUMENT_EXT then Some 5 else if ext \<in> set ARCHIVE_EXT then Some 6
      else if ext \<in> set CDIMAGE_EXT then Some 7 else None)"
  by (simp add: type_tables_def T_AUDIO_def T_VIDEO_def T_IMAGE_def T_PROGRAM_def T_DOCUMENT_def
      T_ARCHIVE_def T_CDIMAGE_def)

lemma type_extensions_values:
  "type_extensions (lit ''audio'') = Some AUDIO_EXT" "type_extensions (lit ''video'') = Some VIDEO_EXT"
  "type_extensions (lit ''image'') = Some IMAGE_EXT" "type_extensions (lit ''pro'') = Some PROGRAM_EXT"
  "type_extensions (lit ''doc'') = Some DOCUMENT_EXT" "type_extensions (lit ''arc'') = Some ARCHIVE_EXT"
  "type_extensions (lit ''iso'') = Some CDIMAGE_EXT"
  by (simp_all add: type_extensions_def lit_def)

text \<open>The numeric file type a result carries and the type filter a search applies agree on every
  name: each category filter keeps exactly the files classified so, but for the extension
  \<open>bin\<close>, which the disc-image filter keeps although it is classified as a program.\<close>

theorem file_type_filter_agrees:
  "(file_type_matches name (lit ''audio'') \<longleftrightarrow> ed2k_file_type_id name = 1) \<and>
   (file_type_matches name (lit ''video'') \<longleftrightarrow> ed2k_file_type_id name = 2) \<and>
   (file_type_matches name (lit ''image'') \<longleftrightarrow> ed2k_file_type_id name = 3) \<and>
   (file_type_matches name (lit ''pro'') \<longleftrightarrow> ed2k_file_type_id name = 4) \<and>
   (file_type_matches name (lit ''doc'') \<longleftrightarrow> ed2k_file_type_id name = 5) \<and>
   (file_type_matches name (lit ''arc'') \<longleftrightarrow> ed2k_file_type_id name = 6) \<and>
   (file_type_matches name (lit ''iso'') \<longleftrightarrow> ed2k_file_type_id name = 7 \<or>
      (last_piece name = lit ''bin'' \<and> name \<noteq> lit ''bin''))"
proof -
  have bin: "lit ''bin'' \<in> set CDIMAGE_EXT" by (simp add: CDIMAGE_EXT_def)
  have types: "ed2k_file_type_id name =
     (if last_piece name = name then 0
      else case first_category (last_piece name) type_tables of Some cat \<Rightarrow> cat
        | None \<Rightarrow> if last_piece name = lit ''emulecollection'' then 8 else 0)"
    unfolding ed2k_file_type_id_def T_ANY_def T_EMULECOLLECTION_def Let_def by (rule refl)
  show ?thesis
    unfolding types type_ids_distinct file_type_matches_def type_extensions_values Let_def
    using category_lists_disjoint bin by (auto split: if_splits)
qed

section \<open>Codec filters\<close>

lemma dec_str_not_Nil [simp]: "dec_str n \<noteq> []"
  by (subst dec_str.simps) simp

lemma parse_u8_dec_str:
  assumes "n < 256"
  shows "parse_u8 (dec_str n) = Some (of_nat n)"
proof -
  obtain c r where c: "dec_str n = c # r" by (cases "dec_str n") auto
  have "is_ascii_digit c" using dec_str_digits [of n] c by simp
  then have "c \<noteq> 43" by (auto simp: is_ascii_digit_def)
  then show ?thesis
    using assms dec_str_digits [of n] dec_value_str [of n] c by (simp add: parse_u8_def Let_def)
qed

lemma codec_name_Some:
  assumes "codec_ok tbl" and "codec_name tbl i = Some n"
  shows "ct_index tbl n = Some i"
proof -
  let ?k = "unat i - 1"
  have k: "i \<noteq> 0" "?k < length (ct_names tbl)" "ct_names tbl ! ?k = n"
    using assms(2) by (auto simp: codec_name_def split: if_splits)
  then have "Suc ?k = unat i" by (simp add: unat_gt_0)
  then have "i = of_nat (Suc ?k)" by simp
  with k assms(1) show ?thesis by (auto simp: codec_ok_def)
qed

text \<open>A codec filter resolved against the codec table keeps exactly the files whose stored codec is
  the name the filter asks for, in the table's normal form; an unknown codec keeps none.\<close>

theorem codec_filter_exact:
  assumes "codec_ok tbl" and "ff_media facts = Some m"
  shows "eval_node u (resolve_codecs (codec_lookup tbl) (Meta (TagId 0xD5) v)) name facts False =
    Some (\<exists>n. codec_normalise v = Some n \<and> codec_name tbl (media_codec m) = Some n)"
proof -
  define idx where "idx = (case codec_lookup tbl v of Some i \<Rightarrow> i | None \<Rightarrow> 0)"
  have "parse_u8 (dec_str (unat idx)) = Some idx"
    using parse_u8_dec_str [of "unat idx"] unsigned_less [of idx] by simp
  then have ev: "eval_node u (resolve_codecs (codec_lookup tbl) (Meta (TagId 0xD5) v)) name facts False =
      Some (idx \<noteq> 0 \<and> media_codec m = idx)"
    using assms(2) by (simp add: eval_meta_def fold_str_def codec_value_def flip: idx_def)
  have "idx \<noteq> 0 \<and> media_codec m = idx \<longleftrightarrow>
      (\<exists>n. codec_normalise v = Some n \<and> codec_name tbl (media_codec m) = Some n)"
  proof (cases "codec_lookup tbl v")
    case None
    then have "codec_normalise v = Some n \<Longrightarrow> ct_index tbl n = None" for n by (simp add: codec_lookup_def)
    with None codec_name_Some [OF assms(1)] show ?thesis by (auto simp: idx_def)
  next
    case (Some i)
    then obtain n where n: "codec_normalise v = Some n" "ct_index tbl n = Some i"
      by (auto simp: codec_lookup_def bind_eq_Some_conv)
    with Some codec_name_index [OF assms(1) n(2)] show ?thesis
      by (auto simp: idx_def dest: codec_name_Some [OF assms(1)])
  qed
  with ev show ?thesis by simp
qed

theorem codec_filter_exact_witness:
  "eval_node ascii_tables (resolve_codecs (codec_lookup codec_new) (Meta (TagId 0xD5) (lit ''h264''))) (lit ''a.avi'')
     (facts_sized 1\<lparr>ff_media := Some (media_new 60 128 3)\<rparr>) False = Some False"
  using codec_filter_exact [OF codec_new_ok, of "facts_sized 1\<lparr>ff_media := Some (media_new 60 128 3)\<rparr>" _ ascii_tables "lit ''h264''" "lit ''a.avi''"]
  by (simp add: codec_name_def codec_new_def)

end
