(* ===== verification/Search_Candidates.thy ===== *)
theory Search_Candidates
  imports Search_Filter
begin

text \<open>
  From a search tree to the index lookup (\<open>src/proto/search.rs\<close>): dropping words no file has,
  and the OR groups of tokens a candidate has to hold. \<open>is_known\<close> is a parameter of the code
  and of the model; the server passes \<open>KeywordIndex::contains_token\<close>.
\<close>

section \<open>Dropping unknown words\<close>

definition word_is_unknown :: "unicode \<Rightarrow> (rstr \<Rightarrow> bool) \<Rightarrow> rstr \<Rightarrow> bool" where
  "word_is_unknown u is_known word =
     (let (core, anchored, starred) = parse_markers (fold_for_match u word) in
      if starred \<or> anchored \<or> core = [] then False
      else
        let toks = tokenize u core in
        if toks = [] then False else list_ex (\<lambda>t. \<not> is_known t) toks)"

text \<open>The \<open>Term\<close> arm: what is left of the term (\<open>None\<close>: nothing) and the words dropped.\<close>

definition rewrite_term :: "unicode \<Rightarrow> (rstr \<Rightarrow> bool) \<Rightarrow> rstr \<Rightarrow> rstr option \<times> rstr list" where
  "rewrite_term u is_known s =
     (if tokenize u s = [] then
        (let (core, anchored, starred) = parse_markers (trim (fold_for_match u s)) in
         if starred \<or> anchored \<or> core = [] \<or> core = lit ''*'' \<or> core = lit ''**'' then (Some s, [])
         else
           let key = u_str_lower u (trim s) in
           if is_known key then (Some s, []) else (None, [trim s]))
      else
        let lost = filter (word_is_unknown u is_known) (split_whitespace s);
            kept = filter (\<lambda>w. \<not> word_is_unknown u is_known w) (split_whitespace s)
        in if lost = [] then (Some s, [])
           else if kept = [] then (None, lost) else (Some (join [32] kept), lost))"

text \<open>\<open>dropped\<close> is the accumulator of the code, appended to and truncated.\<close>

fun rewrite_conjunction ::
  "unicode \<Rightarrow> (rstr \<Rightarrow> bool) \<Rightarrow> search_node \<Rightarrow> rstr list \<Rightarrow> search_node option \<times> rstr list" where
  "rewrite_conjunction u is_known (Term s) dropped =
     (let (r, lost) = rewrite_term u is_known s in (map_option Term r, dropped @ lost))"
| "rewrite_conjunction u is_known (BoolNode And l r) dropped =
     (let (nl, dropped) = rewrite_conjunction u is_known l dropped;
          (nr, dropped) = rewrite_conjunction u is_known r dropped
      in (case (nl, nr) of
            (Some a, Some b) \<Rightarrow> Some (BoolNode And a b)
          | (Some a, None) \<Rightarrow> Some a
          | (None, Some a) \<Rightarrow> Some a
          | (None, None) \<Rightarrow> None, dropped))"
| "rewrite_conjunction u is_known (BoolNode Not l r) dropped =
     (let before = length dropped; (nl, dropped) = rewrite_conjunction u is_known l dropped
      in case nl of
           Some a \<Rightarrow> (Some (BoolNode Not a r), dropped)
         | None \<Rightarrow> (Some (BoolNode Not l r), take before dropped))"
| "rewrite_conjunction u is_known node dropped = (Some node, dropped)"

definition drop_unknown_words ::
  "unicode \<Rightarrow> (rstr \<Rightarrow> bool) \<Rightarrow> search_node \<Rightarrow> search_node \<times> rstr list" where
  "drop_unknown_words u is_known node =
     (case rewrite_conjunction u is_known node [] of
        (Some tree, dropped) \<Rightarrow> if dropped \<noteq> [] then (tree, dropped) else (node, [])
      | (None, dropped) \<Rightarrow> (node, []))"

section \<open>Candidate groups\<close>

fun walk_terms :: "search_node \<Rightarrow> bool \<Rightarrow> rstr list" where
  "walk_terms (Term s) in_negation = (if in_negation then [] else [s])"
| "walk_terms (BoolNode Not l r) in_negation = walk_terms l in_negation @ walk_terms r (\<not> in_negation)"
| "walk_terms (BoolNode op l r) in_negation = walk_terms l in_negation @ walk_terms r in_negation"
| "walk_terms node in_negation = []"

definition collect_terms :: "search_node \<Rightarrow> rstr list" where
  "collect_terms node = walk_terms node False"

fun walk_groups :: "search_node \<Rightarrow> bool \<Rightarrow> rstr list list" where
  "walk_groups (Term s) in_negation = (if in_negation then [] else [[s]])"
| "walk_groups (BoolNode And l r) in_negation = walk_groups l in_negation @ walk_groups r in_negation"
| "walk_groups (BoolNode Or l r) in_negation =
     (if in_negation then []
      else let flat = walk_terms l False @ walk_terms r False in if flat = [] then [] else [flat])"
| "walk_groups (BoolNode Not l r) in_negation = walk_groups l in_negation @ walk_groups r (\<not> in_negation)"
| "walk_groups node in_negation = []"

definition collect_candidate_terms :: "search_node \<Rightarrow> rstr list list" where
  "collect_candidate_terms node = walk_groups node False"

definition without_starred_words :: "rstr \<Rightarrow> rstr" where
  "without_starred_words t =
     join [32] (filter (\<lambda>w. let (core, anchored, starred) = parse_markers w in \<not> starred \<and> core \<noteq> [])
                  (split_whitespace t))"

text \<open>One turn of the loop of \<open>candidate_groups\<close>.\<close>

definition expand_group :: "unicode \<Rightarrow> rstr list \<Rightarrow> rstr list list" where
  "expand_group u g0 =
     (let g = filter (\<lambda>t. t \<noteq> []) (map without_starred_words g0) in
      if g = [] then []
      else
        let is_or_group = length g > 1;
            toks = map (\<lambda>t. filter (\<lambda>t. t \<noteq> lit ''*'' \<and> t \<noteq> lit ''**'') (tokenize_search_term u t)) g
        in if is_or_group then (if concat toks \<noteq> [] then [concat toks] else [])
           else map (\<lambda>t. [t]) (concat toks))"

definition candidate_groups :: "unicode \<Rightarrow> search_node \<Rightarrow> rstr list list" where
  "candidate_groups u node = concat (map (expand_group u) (collect_candidate_terms node))"

section \<open>Dropping words only widens a search\<close>

lemma split_whitespace_words: "w \<in> set (split_whitespace s) \<Longrightarrow> w \<noteq> [] \<and> (\<forall>c\<in>set w. \<not> is_whitespace c)"
  using split_by_words [of is_whitespace s] by (auto simp: split_whitespace_def)

lemma split_whitespace_single: "w \<noteq> [] \<Longrightarrow> \<forall>c\<in>set w. \<not> is_whitespace c \<Longrightarrow> split_whitespace w = [w]"
  by (simp add: split_whitespace_def split_by_none)

lemma split_whitespace_join:
  "\<forall>w\<in>set ws. w \<noteq> [] \<and> (\<forall>c\<in>set w. \<not> is_whitespace c) \<Longrightarrow> split_whitespace (join [32] ws) = ws"
proof (induction ws)
  case (Cons w ws)
  show ?case
  proof (cases ws)
    case Nil
    with Cons show ?thesis by (simp add: split_whitespace_single)
  next
    case (Cons v vs)
    with Cons.IH Cons.prems show ?thesis
      using split_whitespace_append_sep [of 32 w "join [32] (v # vs)"]
      by (simp add: is_whitespace_def split_whitespace_single)
  qed
qed (simp add: split_whitespace_def)

lemma words_match_filter:
  assumes "unicode_ok u" and "words_match u (fold_for_match u s) name"
  shows "words_match u (fold_for_match u (join [32] (filter P (split_whitespace s)))) name"
proof -
  have "split_whitespace (join [32] (filter P (split_whitespace s))) = filter P (split_whitespace s)"
    using split_whitespace_words by (intro split_whitespace_join) auto
  with assms show ?thesis
    by (auto simp: words_match_def list_all_iff fold_for_match_fold_token split_whitespace_fold)
qed

definition rest_value :: "unicode \<Rightarrow> search_node option \<Rightarrow> rstr \<Rightarrow> file_facts \<Rightarrow> bool option" where
  "rest_value u n name facts = (case n of None \<Rightarrow> None | Some t \<Rightarrow> eval_node u t name facts True)"

text \<open>How the value of a node may change: only a verdict \<open>Some False\<close> may be lost.\<close>

definition widens :: "bool option \<Rightarrow> bool option \<Rightarrow> bool" where
  "widens v v' \<longleftrightarrow> v = Some False \<or> v' = v \<or> (v = Some True \<and> v' = None)"

lemma widens_or_true: "widens v v' \<Longrightarrow> or_true v \<Longrightarrow> or_true v'"
  by (auto simp: widens_def or_true_def)

lemma rewrite_term_widens:
  assumes "unicode_ok u"
  shows "widens (eval_node u (Term s) name facts True)
    (rest_value u (map_option Term (fst (rewrite_term u is_known s))) name facts)"
  using words_match_filter [OF assms, of s name]
  by (auto simp: rewrite_term_def Let_def widens_def rest_value_def fold_str_def case_prod_beta)

lemma combine_widens:
  assumes "widens v1 w1" and "widens v2 w2"
  shows "widens (if v1 = Some False then Some False else combine And v1 v2)
    (if w1 = Some False then Some False else combine And w1 w2)"
  using assms by (cases v1; cases v2; cases w1; cases w2) (auto simp: widens_def)

lemma not_widens:
  assumes "widens v1 w1"
  shows "widens (if v1 = Some False then Some False else combine Not v1 v2)
    (if w1 = Some False then Some False else combine Not w1 v2)"
  using assms by (cases v1; cases v2; cases w1) (auto simp: widens_def)

lemma combine_None [simp]: "combine And v None = v" "combine And None v = v"
  by (cases v; simp)+

lemma rewrite_widens:
  assumes "unicode_ok u"
  shows "widens (eval_node u n name facts True)
    (rest_value u (fst (rewrite_conjunction u is_known n dropped)) name facts)"
proof (induction n arbitrary: dropped)
  case (Term s)
  show ?case using rewrite_term_widens [OF assms, of s name facts is_known] by (simp add: case_prod_beta)
next
  case (BoolNode op l r)
  obtain nl d1 where l: "rewrite_conjunction u is_known l dropped = (nl, d1)" by fastforce
  obtain nr d2 where r: "rewrite_conjunction u is_known r d1 = (nr, d2)" by fastforce
  note IHl = BoolNode.IH(1) [of dropped, unfolded l fst_conv] and IHr = BoolNode.IH(2) [of d1, unfolded r fst_conv]
  let ?v = "\<lambda>t. eval_node u t name facts True"
  show ?case
  proof (cases op)
    case And
    have eq: "rest_value u (fst (rewrite_conjunction u is_known (BoolNode And l r) dropped)) name facts =
        (if rest_value u nl name facts = Some False then Some False
         else combine And (rest_value u nl name facts) (rest_value u nr name facts))"
      by (cases nl; cases nr) (simp_all add: l r rest_value_def Let_def)
    show ?thesis unfolding And eq using combine_widens [OF IHl IHr] by (auto simp: Let_def split: if_splits)
  next
    case Or
    then show ?thesis by (simp add: widens_def rest_value_def)
  next
    case Not
    show ?thesis
    proof (cases nl)
      case None
      with Not l show ?thesis by (simp add: widens_def rest_value_def)
    next
      case (Some a)
      with Not l not_widens [OF IHl, of "?v r"] show ?thesis
        by (auto simp: rest_value_def Let_def split: if_splits)
    qed
  qed
qed (simp_all add: widens_def rest_value_def)

text \<open>Dropping unknown words never loses a result: every file the query matches as sent is matched by
  the rewritten query; and when every word is known the query is kept as sent.\<close>

theorem drop_unknown_widens:
  assumes "unicode_ok u"
  shows "(evaluate_facts u node name facts \<longrightarrow>
      evaluate_facts u (fst (drop_unknown_words u is_known node)) name facts) \<and>
    (snd (drop_unknown_words u is_known node) = [] \<longrightarrow> fst (drop_unknown_words u is_known node) = node)"
proof -
  obtain n d where r: "rewrite_conjunction u is_known node [] = (n, d)" by fastforce
  have "widens (eval_node u node name facts True) (rest_value u n name facts)"
    using rewrite_widens [OF assms, of node name facts is_known "[]"] by (simp add: r)
  then have "or_true (eval_node u node name facts True) \<longrightarrow> or_true (rest_value u n name facts)"
    using widens_or_true by blast
  then show ?thesis
    by (auto simp: drop_unknown_words_def r evaluate_facts_def rest_value_def split: option.splits)
qed

theorem drop_unknown_widens_witness:
  "evaluate_facts ascii_tables (fst (drop_unknown_words ascii_tables (\<lambda>t. t = lit ''hd'') (Term (lit ''hd''))))
     (lit ''big hd.avi'') (facts_sized 0)"
proof -
  have "evaluate_facts ascii_tables (Term (lit ''hd'')) (lit ''big hd.avi'') (facts_sized 0)"
    by (simp add: evaluate_facts_def or_true_def words_match_def split_whitespace_def word_matches_def
        parse_markers_def fold_str_def fold_for_match_def lit_def is_whitespace_def starts_with_def ascii_lower_def)
  then show ?thesis using drop_unknown_widens [OF ascii_tables_ok] by blast
qed

text \<open>Two shapes the rewriting mishandles. An unknown word beside a type filter leaves a tree with no
  word at all, which the search path answers by a scan; and a term of which only a stop word
  survives is looked up by that stop word, which no file is ever indexed under.\<close>

theorem drop_unknown_corner_cases:
  "drop_unknown_words ascii_tables (\<lambda>t. False)
      (BoolNode And (Term (lit ''xyzzy'')) (Meta (TagId 0x03) (lit ''Video''))) =
     (Meta (TagId 0x03) (lit ''Video''), [lit ''xyzzy'']) \<and>
   collect_terms (Meta (TagId 0x03) (lit ''Video'')) = [] \<and>
   drop_unknown_words ascii_tables (\<lambda>t. t = lit ''linux'')
      (BoolNode And (Term (lit ''linux'')) (Term (lit ''the xyzzy''))) =
     (BoolNode And (Term (lit ''linux'')) (Term (lit ''the'')), [lit ''xyzzy'']) \<and>
   candidate_groups ascii_tables (BoolNode And (Term (lit ''linux'')) (Term (lit ''the''))) =
     [[lit ''linux''], [lit ''the'']] \<and>
   lit ''the'' \<notin> set (tokenize ascii_tables name)"
proof -
  have tok: "tokenize ascii_tables (lit ''xyzzy'') = [lit ''xyzzy'']"
    "tokenize ascii_tables (lit ''linux'') = [lit ''linux'']"
    "tokenize ascii_tables (lit ''the'') = []"
    "tokenize ascii_tables (lit ''the xyzzy'') = [lit ''xyzzy'']"
    by (simp_all add: tokenize_eval)
  have fold: "fold_for_match ascii_tables (lit ''xyzzy'') = lit ''xyzzy''"
    "fold_for_match ascii_tables (lit ''linux'') = lit ''linux''" "fold_for_match ascii_tables (lit ''the'') = lit ''the''"
    by (simp_all add: fold_for_match_def lit_def ascii_lower_def)
  have mark: "parse_markers (lit ''xyzzy'') = (lit ''xyzzy'', False, False)"
    "parse_markers (lit ''linux'') = (lit ''linux'', False, False)" "parse_markers (lit ''the'') = (lit ''the'', False, False)"
    by (simp_all add: parse_markers_def lit_def)
  have ws: "split_whitespace (lit ''xyzzy'') = [lit ''xyzzy'']" "split_whitespace (lit ''linux'') = [lit ''linux'']"
    "split_whitespace (lit ''the'') = [lit ''the'']" "split_whitespace (lit ''the xyzzy'') = [lit ''the'', lit ''xyzzy'']"
    by (simp_all add: split_whitespace_def lit_def is_whitespace_def)
  have ne: "lit ''xyzzy'' \<noteq> []" "lit ''linux'' \<noteq> []" "lit ''the'' \<noteq> []" "lit ''xyzzy'' \<noteq> lit ''linux''"
    "lit ''linux'' \<noteq> lit ''*''" "lit ''linux'' \<noteq> lit ''**''" "lit ''the'' \<noteq> lit ''*''" "lit ''the'' \<noteq> lit ''**''"
    by (simp_all add: lit_def)
  have tr: "trim (lit ''linux'') = lit ''linux''" "trim (lit ''the'') = lit ''the''"
    by (rule trim_id, simp add: lit_def is_whitespace_def)+
  have low: "u_str_lower ascii_tables (lit ''the'') = lit ''the''"
    by (simp add: ascii_tables_def lit_def ascii_lower_def)
  have st: "tokenize_search_term ascii_tables (lit ''linux'') = [lit ''linux'']"
    "tokenize_search_term ascii_tables (lit ''the'') = [lit ''the'']"
    by (simp_all add: tokenize_search_term_def Let_def tok tr low ne)
  have first: "drop_unknown_words ascii_tables (\<lambda>t. False)
      (BoolNode And (Term (lit ''xyzzy'')) (Meta (TagId 0x03) (lit ''Video''))) =
     (Meta (TagId 0x03) (lit ''Video''), [lit ''xyzzy''])"
    by (simp add: drop_unknown_words_def rewrite_term_def word_is_unknown_def tok fold mark ws ne)
  have second: "drop_unknown_words ascii_tables (\<lambda>t. t = lit ''linux'')
      (BoolNode And (Term (lit ''linux'')) (Term (lit ''the xyzzy''))) =
     (BoolNode And (Term (lit ''linux'')) (Term (lit ''the'')), [lit ''xyzzy''])"
    by (simp add: drop_unknown_words_def rewrite_term_def word_is_unknown_def tok fold mark ws ne)
  have third: "candidate_groups ascii_tables (BoolNode And (Term (lit ''linux'')) (Term (lit ''the''))) =
     [[lit ''linux''], [lit ''the'']]"
    by (simp add: candidate_groups_def collect_candidate_terms_def expand_group_def without_starred_words_def
        ws mark ne st)
  have "lit ''the'' \<in> set COMMON_WORDS_SKIP" by (simp add: COMMON_WORDS_SKIP_def)
  then have "lit ''the'' \<notin> set (tokenize ascii_tables name)"
    using tokenize_mem [OF ascii_tables_ok] by metis
  with first second third show ?thesis by (simp add: collect_terms_def)
qed

section \<open>Candidates are a superset\<close>

text \<open>The tokens a term is looked up by, and the verdict of a tree over the set \<open>K\<close> of tokens a file is
  indexed under; the leaves that are not terms get any verdict \<open>v\<close>.\<close>

definition lookup_tokens :: "unicode \<Rightarrow> rstr \<Rightarrow> rstr list" where
  "lookup_tokens u s =
     (let t = without_starred_words s in
      if t = [] then [] else filter (\<lambda>t. t \<noteq> lit ''*'' \<and> t \<noteq> lit ''**'') (tokenize_search_term u t))"

fun tok_eval :: "unicode \<Rightarrow> rstr set \<Rightarrow> (search_node \<Rightarrow> bool option) \<Rightarrow> search_node \<Rightarrow> bool option" where
  "tok_eval u K v (Term s) = Some (set (lookup_tokens u s) \<subseteq> K)"
| "tok_eval u K v (BoolNode op l r) = combine op (tok_eval u K v l) (tok_eval u K v r)"
| "tok_eval u K v leaf = v leaf"

text \<open>A tree that cannot hold unless one of its terms is looked up and found.\<close>

fun forces :: "unicode \<Rightarrow> search_node \<Rightarrow> bool" where
  "forces u (Term s) = (lookup_tokens u s \<noteq> [])"
| "forces u (BoolNode And l r) = (forces u l \<or> forces u r)"
| "forces u (BoolNode Or l r) = (forces u l \<and> forces u r)"
| "forces u (BoolNode Not l r) = forces u l"
| "forces u leaf = False"

text \<open>The trees for which the grouping is sound: every OR has only forcing branches and nothing is
  collected from the negated side of a NOT.\<close>

fun groupable :: "unicode \<Rightarrow> search_node \<Rightarrow> bool" where
  "groupable u (BoolNode And l r) = (groupable u l \<and> groupable u r)"
| "groupable u (BoolNode Or l r) = (forces u l \<and> forces u r)"
| "groupable u (BoolNode Not l r) = (groupable u l \<and> walk_groups r True = [])"
| "groupable u leaf = True"

lemma concat_lookup_tokens:
  "concat (map (\<lambda>t. filter (\<lambda>t. t \<noteq> lit ''*'' \<and> t \<noteq> lit ''**'') (tokenize_search_term u t))
     (filter (\<lambda>t. t \<noteq> []) (map without_starred_words g))) = concat (map (lookup_tokens u) g)"
  by (induction g) (auto simp: lookup_tokens_def Let_def)

lemma expand_single: "expand_group u [s] = map (\<lambda>t. [t]) (lookup_tokens u s)"
  by (simp add: expand_group_def lookup_tokens_def Let_def)

lemma expand_many:
  assumes "length (filter (\<lambda>t. t \<noteq> []) (map without_starred_words g)) > 1"
  shows "expand_group u g = (if concat (map (lookup_tokens u) g) \<noteq> [] then [concat (map (lookup_tokens u) g)] else [])"
proof -
  have "filter (\<lambda>t. t \<noteq> []) (map without_starred_words g) \<noteq> []"
    using assms by (cases "filter (\<lambda>t. t \<noteq> []) (map without_starred_words g)") simp_all
  with assms show ?thesis
    by (simp only: expand_group_def Let_def concat_lookup_tokens if_True if_False simp_thms)
qed

lemma forces_found:
  "forces u t \<Longrightarrow> \<exists>b. tok_eval u K v t = Some b \<and>
     (b \<longrightarrow> (\<exists>s\<in>set (walk_terms t False). lookup_tokens u s \<noteq> [] \<and> set (lookup_tokens u s) \<subseteq> K))"
proof (induction t)
  case (BoolNode op l r)
  then show ?case
    by (cases op; cases "tok_eval u K v l"; cases "tok_eval u K v r") auto
qed auto

lemma forces_collects: "forces u t \<Longrightarrow> \<exists>s\<in>set (walk_terms t False). without_starred_words s \<noteq> []"
proof (induction t)
  case (Term s)
  then show ?case by (auto simp: lookup_tokens_def Let_def split: if_splits)
next
  case (BoolNode op l r)
  then show ?case by (cases op) auto
qed auto

lemma filter_ex_length: "\<exists>x\<in>set xs. P x \<Longrightarrow> 0 < length (filter P xs)"
  by (induction xs) auto

lemma or_branches_length:
  assumes "forces u l" and "forces u r"
  shows "length (filter (\<lambda>t. t \<noteq> []) (map without_starred_words (walk_terms l False @ walk_terms r False))) > 1"
proof -
  have "0 < length (filter (\<lambda>t. t \<noteq> []) (map without_starred_words (walk_terms x False)))" if "forces u x" for x
    using forces_collects [OF that] by (intro filter_ex_length) auto
  from this [OF assms(1)] this [OF assms(2)] show ?thesis
    by (simp only: map_append filter_append length_append)
qed

lemma groups_found:
  assumes "groupable u t" and "or_true (tok_eval u K v t)"
  shows "\<forall>g\<in>set (concat (map (expand_group u) (walk_groups t False))). \<exists>tok\<in>set g. tok \<in> K"
  using assms
proof (induction t)
  case (Term s)
  then show ?case by (auto simp: expand_single or_true_def)
next
  case (BoolNode op l r)
  show ?case
  proof (cases op)
    case And
    with BoolNode.prems have "or_true (tok_eval u K v l)" "or_true (tok_eval u K v r)"
      by (cases "tok_eval u K v l"; cases "tok_eval u K v r"; simp add: or_true_def)+
    with BoolNode And show ?thesis by auto
  next
    case Not
    with BoolNode.prems have "or_true (tok_eval u K v l)"
      by (cases "tok_eval u K v l"; cases "tok_eval u K v r"; simp add: or_true_def)
    with BoolNode Not show ?thesis by auto
  next
    case Or
    with BoolNode.prems have f: "forces u l" "forces u r" by auto
    let ?g = "walk_terms l False @ walk_terms r False"
    obtain a b where ab: "tok_eval u K v l = Some a" "tok_eval u K v r = Some b"
      using forces_found [OF f(1)] forces_found [OF f(2)] by blast
    then have "a \<or> b" using BoolNode.prems(2) Or by (simp add: or_true_def)
    then obtain s where s: "s \<in> set ?g" "lookup_tokens u s \<noteq> []" "set (lookup_tokens u s) \<subseteq> K"
      using forces_found [OF f(1), of K v] forces_found [OF f(2), of K v] ab by auto
    then obtain tok where tok: "tok \<in> set (lookup_tokens u s)" by (cases "lookup_tokens u s") auto
    then have "tok \<in> set (concat (map (lookup_tokens u) ?g))" "tok \<in> K" using s by auto
    moreover have "?g \<noteq> []" using s(1) by (metis list.set(1) empty_iff)
    ultimately show ?thesis
      using Or expand_many [OF or_branches_length [OF f]] by (auto simp: Let_def)
  qed
qed simp_all

lemma candidate_groups_nonempty: "[] \<notin> set (candidate_groups u t)"
  by (auto simp: candidate_groups_def expand_group_def Let_def)

text \<open>C20: The candidate lookup never excludes a match: on a tree whose ORs have only looked-up branches and
  whose negated sides contribute no word, a file whose indexed tokens satisfy the tree holds a
  token of every candidate group.\<close>

theorem candidates_superset:
  assumes "groupable u t" and "or_true (tok_eval u K v t)"
  shows "\<forall>g\<in>set (candidate_groups u t). \<exists>tok\<in>set g. tok \<in> K"
  using groups_found [OF assms] by (simp add: candidate_groups_def collect_candidate_terms_def)

theorem candidates_superset_witness:
  "list_all (list_ex (\<lambda>tok. tok \<in> {lit ''hd''}))
     (candidate_groups ascii_tables (BoolNode Not (Term (lit ''hd'')) (Term (lit ''sample''))))"
  unfolding list_all_iff list_ex_iff
proof (rule candidates_superset)
  show "groupable ascii_tables (BoolNode Not (Term (lit ''hd'')) (Term (lit ''sample'')))" by simp
  have ws: "without_starred_words (lit ''hd'') = lit ''hd''" "without_starred_words (lit ''sample'') = lit ''sample''"
    by (simp_all add: without_starred_words_def split_whitespace_def parse_markers_def lit_def is_whitespace_def)
  have st: "tokenize_search_term ascii_tables (lit ''hd'') = [lit ''hd'']"
    "tokenize_search_term ascii_tables (lit ''sample'') = [lit ''sample'']"
    by - (rule search_term_token [OF ascii_tables_ok, where s = "lit ''hd sample''"], simp add: tokenize_eval, simp add: tokenize_eval)+
  have ne: "lit ''hd'' \<noteq> []" "lit ''hd'' \<noteq> lit ''*''" "lit ''hd'' \<noteq> lit ''**''" "lit ''sample'' \<noteq> []"
    "lit ''sample'' \<noteq> lit ''*''" "lit ''sample'' \<noteq> lit ''**''" "lit ''sample'' \<noteq> lit ''hd''"
    by (simp_all add: lit_def)
  show "or_true (tok_eval ascii_tables {lit ''hd''} (\<lambda>_. None) (BoolNode Not (Term (lit ''hd'')) (Term (lit ''sample''))))"
    by (simp add: or_true_def lookup_tokens_def ws st ne)
qed

text \<open>Outside those trees the lookup does exclude matches: a word under two negations is demanded of
  every candidate, and an OR whose other branch is a starred word demands the plain one -
  although a file without it satisfies the tree.\<close>

theorem candidate_groups_narrow:
  "candidate_groups ascii_tables (BoolNode Not (Term (lit ''aa'')) (BoolNode Not (Term (lit ''bb'')) (Term (lit ''cc'')))) =
     [[lit ''aa''], [lit ''cc'']] \<and>
   evaluate_facts ascii_tables (BoolNode Not (Term (lit ''aa'')) (BoolNode Not (Term (lit ''bb'')) (Term (lit ''cc''))))
     (lit ''aa.avi'') facts \<and>
   candidate_groups ascii_tables (BoolNode Or (Term (lit ''aa'')) (Term (lit ''bb*''))) = [[lit ''aa'']] \<and>
   evaluate_facts ascii_tables (BoolNode Or (Term (lit ''aa'')) (Term (lit ''bb*''))) (lit ''bbc.avi'') facts"
proof -
  have ws: "without_starred_words (lit ''aa'') = lit ''aa''" "without_starred_words (lit ''cc'') = lit ''cc''"
    "without_starred_words (lit ''bb*'') = []"
    by (simp_all add: without_starred_words_def split_whitespace_def parse_markers_def lit_def is_whitespace_def)
  have st: "tokenize_search_term ascii_tables (lit ''aa'') = [lit ''aa'']"
    "tokenize_search_term ascii_tables (lit ''cc'') = [lit ''cc'']"
    by - (rule search_term_token [OF ascii_tables_ok, where s = "lit ''aa cc''"], simp add: tokenize_eval, simp add: tokenize_eval)+
  have ne: "lit ''aa'' \<noteq> []" "lit ''cc'' \<noteq> []" "lit ''aa'' \<noteq> lit ''*''" "lit ''aa'' \<noteq> lit ''**''"
    "lit ''cc'' \<noteq> lit ''*''" "lit ''cc'' \<noteq> lit ''**''" by (simp_all add: lit_def)
  have g1: "candidate_groups ascii_tables (BoolNode Not (Term (lit ''aa'')) (BoolNode Not (Term (lit ''bb'')) (Term (lit ''cc'')))) =
     [[lit ''aa''], [lit ''cc'']]"
    by (simp add: candidate_groups_def collect_candidate_terms_def expand_group_def ws st ne)
  have g2: "candidate_groups ascii_tables (BoolNode Or (Term (lit ''aa'')) (Term (lit ''bb*''))) = [[lit ''aa'']]"
    by (simp add: candidate_groups_def collect_candidate_terms_def expand_group_def ws st ne)
  have w: "words_match ascii_tables (fold_str ascii_tables True (lit ''aa'')) (lit ''aa.avi'')"
    "\<not> words_match ascii_tables (fold_str ascii_tables True (lit ''bb'')) (lit ''aa.avi'')"
    "words_match ascii_tables (fold_str ascii_tables True (lit ''bb*'')) (lit ''bbc.avi'')"
    by (simp_all add: words_match_def fold_str_def fold_for_match_def ascii_lower_def lit_def split_whitespace_def
        is_whitespace_def word_matches_def parse_markers_def starts_with_def)
  have e1: "evaluate_facts ascii_tables (BoolNode Not (Term (lit ''aa'')) (BoolNode Not (Term (lit ''bb'')) (Term (lit ''cc''))))
     (lit ''aa.avi'') facts"
    using w by (simp add: evaluate_facts_def or_true_def Let_def)
  have e2: "evaluate_facts ascii_tables (BoolNode Or (Term (lit ''aa'')) (Term (lit ''bb*''))) (lit ''bbc.avi'') facts"
    using w by (auto simp: evaluate_facts_def or_true_def Let_def)
  from g1 g2 e1 e2 show ?thesis by blast
qed

end
