(* ===== verification/Admission_Config.thy ===== *)
theory Admission_Config
  imports Prelude
begin

text \<open>
  The admission section of the configuration (\<open>src/config.rs\<close>, \<open>AdmissionConfig\<close>): its fields, its
  defaults, the ceilings derived from other settings and the start-up validation. The
  fields of the rest of the configuration that it reads are arguments.
\<close>

section \<open>The section and its defaults\<close>

record admission_config =
  max_open_tcp_connections :: "u32 option"
  max_pending_logins :: u32
  max_pending_logins_per_source :: u32
  max_probe_jobs :: "u32 option"
  max_retry_tasks :: u32
  session_relay_per_second :: u32
  session_relay_burst :: u32
  max_search_jobs :: u32
  max_queued_tcp_searches :: u32
  tcp_search_wait_ms :: u64
  max_queued_udp_searches :: u32
  udp_search_wait_ms :: u64
  max_rate_state_entries :: u32
  ipv6_source_prefix_bits :: u8
  udp_global_credits_per_second :: u32
  udp_global_burst_credits :: u32
  udp_source_credits_per_second :: u32
  udp_source_burst_credits :: u32
  udp_rate_enforce :: bool
  readiness_window_secs :: u64

definition admission_default :: admission_config where
  "admission_default = \<lparr>
     max_open_tcp_connections = None,
     max_pending_logins = 32768,
     max_pending_logins_per_source = 32,
     max_probe_jobs = None,
     max_retry_tasks = 1024,
     session_relay_per_second = 10,
     session_relay_burst = 200,
     max_search_jobs = 8,
     max_queued_tcp_searches = 512,
     tcp_search_wait_ms = 2000,
     max_queued_udp_searches = 128,
     udp_search_wait_ms = 500,
     max_rate_state_entries = 524288,
     ipv6_source_prefix_bits = 64,
     udp_global_credits_per_second = 200000,
     udp_global_burst_credits = 400000,
     udp_source_credits_per_second = 60,
     udp_source_burst_credits = 1000,
     udp_rate_enforce = False,
     readiness_window_secs = 30\<rparr>"

definition effective_open_tcp :: "u32 \<Rightarrow> admission_config \<Rightarrow> u32" where
  "effective_open_tcp max_clients c =
     (case max_open_tcp_connections c of
        Some n \<Rightarrow> n
      | None \<Rightarrow>
          if max_clients = 0 then 200000
          else sat_add (sat_add max_clients (max_clients div 10)) (max_pending_logins c))"

definition effective_probes :: "admission_config \<Rightarrow> u32" where
  "effective_probes c =
     (case max_probe_jobs c of Some n \<Rightarrow> n | None \<Rightarrow> sat_add (max_pending_logins c) 64)"

section \<open>Validation\<close>

datatype config_error = ZeroLimit string | BadPrefixBits u8

text \<open>The table of limits, in the order the loop reads them.\<close>

definition nonzero_limits :: "admission_config \<Rightarrow> (string \<times> u64) list" where
  "nonzero_limits c =
     [(''max_pending_logins_per_source'', ucast (max_pending_logins_per_source c)),
      (''max_queued_udp_searches'', ucast (max_queued_udp_searches c)),
      (''udp_search_wait_ms'', udp_search_wait_ms c),
      (''max_probe_jobs'', case max_probe_jobs c of None \<Rightarrow> 1 | Some v \<Rightarrow> ucast v),
      (''readiness_window_secs'', readiness_window_secs c),
      (''max_pending_logins'', ucast (max_pending_logins c)),
      (''max_retry_tasks'', ucast (max_retry_tasks c)),
      (''session_relay_per_second'', ucast (session_relay_per_second c)),
      (''session_relay_burst'', ucast (session_relay_burst c)),
      (''max_search_jobs'', ucast (max_search_jobs c)),
      (''max_queued_tcp_searches'', ucast (max_queued_tcp_searches c)),
      (''tcp_search_wait_ms'', tcp_search_wait_ms c),
      (''max_rate_state_entries'', ucast (max_rate_state_entries c)),
      (''udp_global_credits_per_second'', ucast (udp_global_credits_per_second c)),
      (''udp_global_burst_credits'', ucast (udp_global_burst_credits c)),
      (''udp_source_credits_per_second'', ucast (udp_source_credits_per_second c)),
      (''udp_source_burst_credits'', ucast (udp_source_burst_credits c)),
      (''max_open_tcp_connections'', case max_open_tcp_connections c of None \<Rightarrow> 1 | Some v \<Rightarrow> ucast v)]"

definition admission_validate :: "admission_config \<Rightarrow> config_error + unit" where
  "admission_validate c =
     (case find (\<lambda>(name, v). v = 0) (nonzero_limits c) of
        Some (name, _) \<Rightarrow> Inl (ZeroLimit name)
      | None \<Rightarrow>
          if \<not> (16 \<le> ipv6_source_prefix_bits c \<and> ipv6_source_prefix_bits c \<le> 128)
          then Inl (BadPrefixBits (ipv6_source_prefix_bits c))
          else Inr ())"

section \<open>What a validated section promises\<close>

lemma ucast_u64_eq_0_iff [simp]: "(ucast (x :: u32) :: u64) = 0 \<longleftrightarrow> x = 0"
proof -
  have "unat (ucast x :: u64) = unat x" by (rule unat_ucast_up) simp
  then show ?thesis by (metis unsigned_eq_0_iff)
qed

lemma find_zero_limit: "find (\<lambda>(name, v). v = 0) ls = None \<longleftrightarrow> (\<forall>p\<in>set ls. snd p \<noteq> (0 :: u64))"
  by (auto simp: find_None_iff split: prod.splits)

lemma validate_iff:
  "admission_validate c = Inr () \<longleftrightarrow>
     (\<forall>p\<in>set (nonzero_limits c). snd p \<noteq> 0) \<and>
     16 \<le> ipv6_source_prefix_bits c \<and> ipv6_source_prefix_bits c \<le> 128"
  by (auto simp: admission_validate_def find_zero_limit [symmetric] split: option.splits)

lemma admission_default_valid: "admission_validate admission_default = Inr ()"
  by (simp add: validate_iff nonzero_limits_def admission_default_def)

text \<open>A validated admission section leaves no ceiling open: every pool, the two derived ones
  included, has room for at least one piece of work whatever the client limit is, and every
  bucket can hold a credit and earns some.\<close>

theorem validated_ceilings_positive:
  assumes "admission_validate c = Inr ()"
  shows "effective_open_tcp mc c \<noteq> 0 \<and> effective_probes c \<noteq> 0 \<and> max_pending_logins c \<noteq> 0 \<and>
    max_pending_logins_per_source c \<noteq> 0 \<and> max_retry_tasks c \<noteq> 0 \<and> max_search_jobs c \<noteq> 0 \<and>
    max_queued_tcp_searches c \<noteq> 0 \<and> max_queued_udp_searches c \<noteq> 0 \<and> max_rate_state_entries c \<noteq> 0 \<and>
    udp_global_credits_per_second c \<noteq> 0 \<and> udp_global_burst_credits c \<noteq> 0 \<and>
    udp_source_credits_per_second c \<noteq> 0 \<and> udp_source_burst_credits c \<noteq> 0 \<and>
    session_relay_per_second c \<noteq> 0 \<and> session_relay_burst c \<noteq> 0"
  using assms
  by (auto simp: validate_iff nonzero_limits_def effective_open_tcp_def effective_probes_def split: option.splits)

theorem validated_ceilings_positive_witness:
  "effective_open_tcp 0 admission_default \<noteq> 0 \<and> effective_probes admission_default \<noteq> 0"
  using validated_ceilings_positive [OF admission_default_valid] by blast

end
