(* ===== verification/Rate_Limit.thy ===== *)
theory Rate_Limit
  imports Admission_Config "HOL-Library.AList"
begin

text \<open>
  Rate limits of the admission component (\<open>src/admission.rs\<close>): accounting keys of remote
  addresses, the integer token bucket, the per-session relay budget and the UDP budgets. An
  \<open>Instant\<close> is a number of nanoseconds; the tables are association lists, in the order a sweep
  visits them. The locale \<open>credit_account\<close> is what the budgets rely on of a bucket.
\<close>

section \<open>Source keys\<close>

type_synonym u128 = "128 word"

datatype ip_addr = V4 u32 | V6 u128

text \<open>\<open>IpAddr::is_loopback\<close> and \<open>Ipv6Addr::to_ipv4_mapped\<close> of the standard library.\<close>

fun is_loopback :: "ip_addr \<Rightarrow> bool" where
  "is_loopback (V4 a) = (drop_bit 24 a = 127)"
| "is_loopback (V6 a) = (a = 1)"

definition to_ipv4_mapped :: "u128 \<Rightarrow> u32 option" where
  "to_ipv4_mapped a = (if drop_bit 32 a = 0xFFFF then Some (ucast a) else None)"

datatype source_key = KeyV4 u32 | KeyV6 u128 u8

fun as_ip :: "source_key \<Rightarrow> ip_addr" where
  "as_ip (KeyV4 a) = V4 a"
| "as_ip (KeyV6 p _) = V6 p"

definition prefix_mask :: "u8 \<Rightarrow> u128" where
  "prefix_mask bits = (if bits = 128 then - 1 else NOT (drop_bit (unat bits) (- 1)))"

fun source_key_of :: "ip_addr \<Rightarrow> u8 \<Rightarrow> source_key" where
  "source_key_of (V4 a) v6_bits = KeyV4 a"
| "source_key_of (V6 a) v6_bits =
     (case to_ipv4_mapped a of
        Some v4 \<Rightarrow> KeyV4 v4
      | None \<Rightarrow> let bits = max 1 (min v6_bits 128) in KeyV6 (a AND prefix_mask bits) bits)"

section \<open>Token bucket\<close>

record token_bucket =
  tb_rate :: u64
  tb_burst :: u64
  tb_level :: u64
  tb_last :: nat

definition tb_new :: "u32 \<Rightarrow> u32 \<Rightarrow> nat \<Rightarrow> token_bucket" where
  "tb_new rate_per_s burst now =
     (let burst_micro = ucast burst * 1000000
      in \<lparr>tb_rate = ucast rate_per_s, tb_burst = burst_micro, tb_level = burst_micro, tb_last = now\<rparr>)"

text \<open>\<open>as_micros\<close> is a 128-bit number, cut to 64 bits by \<open>as u64\<close>.\<close>

definition tb_refill :: "nat \<Rightarrow> token_bucket \<Rightarrow> token_bucket" where
  "tb_refill now b =
     (let us = of_nat ((now - tb_last b) div 1000) :: u64
      in if us > 0
         then b\<lparr>tb_level := min (sat_add (tb_level b) (sat_mul us (tb_rate b))) (tb_burst b),
                tb_last := tb_last b + 1000 * unat us\<rparr>
         else b)"

definition tb_take :: "u32 \<Rightarrow> nat \<Rightarrow> token_bucket \<Rightarrow> bool \<times> token_bucket" where
  "tb_take cost now b =
     (let b = tb_refill now b; need = ucast cost * 1000000
      in if tb_level b \<ge> need then (True, b\<lparr>tb_level := tb_level b - need\<rparr>) else (False, b))"

definition tb_refund :: "u32 \<Rightarrow> token_bucket \<Rightarrow> token_bucket" where
  "tb_refund cost b =
     b\<lparr>tb_level := min (sat_add (tb_level b) (ucast cost * 1000000)) (tb_burst b)\<rparr>"

definition tb_is_full_at :: "nat \<Rightarrow> token_bucket \<Rightarrow> bool" where
  "tb_is_full_at now b = (let b = tb_refill now b in tb_level b \<ge> tb_burst b)"

text \<open>The relay budget of a session.\<close>

definition relay_new :: "admission_config \<Rightarrow> nat \<Rightarrow> token_bucket" where
  "relay_new c now = tb_new (session_relay_per_second c) (session_relay_burst c) now"

definition relay_allow :: "nat \<Rightarrow> token_bucket \<Rightarrow> bool \<times> token_bucket" where
  "relay_allow now b = tb_take 1 now b"

section \<open>UDP budgets\<close>

datatype udp_refusal = RefusedGlobal | RefusedSource | RefusedTableFull

record udp_budget =
  ub_global :: token_bucket
  ub_sources :: "(source_key \<times> token_bucket) list"
  ub_entries :: u32
  ub_cap :: u32
  ub_src_rate :: u32
  ub_src_burst :: u32
  ub_v6_bits :: u8
  ub_enforce :: bool
  ub_admitted :: u64
  ub_refused_global :: u64
  ub_refused_source :: u64
  ub_refused_table_full :: u64

definition ub_new :: "admission_config \<Rightarrow> nat \<Rightarrow> udp_budget" where
  "ub_new c now = \<lparr>
     ub_global = tb_new (udp_global_credits_per_second c) (udp_global_burst_credits c) now,
     ub_sources = [], ub_entries = 0, ub_cap = max_rate_state_entries c,
     ub_src_rate = udp_source_credits_per_second c, ub_src_burst = udp_source_burst_credits c,
     ub_v6_bits = ipv6_source_prefix_bits c, ub_enforce = udp_rate_enforce c,
     ub_admitted = 0, ub_refused_global = 0, ub_refused_source = 0, ub_refused_table_full = 0\<rparr>"

text \<open>The charge to the source's own bucket: an occupied entry, a full table, a vacant entry.\<close>

definition charge_source :: "source_key \<Rightarrow> u32 \<Rightarrow> nat \<Rightarrow> udp_budget \<Rightarrow> (udp_refusal + unit) \<times> udp_budget" where
  "charge_source key cost now b =
     (case map_of (ub_sources b) key of
        Some s \<Rightarrow>
          let (ok, s') = tb_take cost now s
          in (if ok then Inr () else Inl RefusedSource, b\<lparr>ub_sources := AList.update key s' (ub_sources b)\<rparr>)
      | None \<Rightarrow>
          if ub_entries b \<ge> ub_cap b then (Inl RefusedTableFull, b)
          else
            let (ok, s) = tb_take cost now (tb_new (ub_src_rate b) (ub_src_burst b) now)
            in (if ok then Inr () else Inl RefusedSource,
                b\<lparr>ub_entries := ub_entries b + 1, ub_sources := AList.update key s (ub_sources b)\<rparr>))"

definition ub_check :: "ip_addr \<Rightarrow> u32 \<Rightarrow> nat \<Rightarrow> udp_budget \<Rightarrow> (udp_refusal + unit) \<times> udp_budget" where
  "ub_check ip cost now b =
     (let (ok, g) = tb_take cost now (ub_global b); b = b\<lparr>ub_global := g\<rparr>
      in if \<not> ok then (Inl RefusedGlobal, b)
         else
           let key = source_key_of ip (ub_v6_bits b); (r, b) = charge_source key cost now b
           in (case r of
                 Inr _ \<Rightarrow> (Inr (), b)
               | Inl e \<Rightarrow> (Inl e, b\<lparr>ub_global := tb_refund cost (ub_global b)\<rparr>)))"

definition ub_admit :: "ip_addr \<Rightarrow> u32 \<Rightarrow> nat \<Rightarrow> udp_budget \<Rightarrow> bool \<times> udp_budget" where
  "ub_admit ip cost now b =
     (let (r, b) = ub_check ip cost now b
      in case r of
           Inr _ \<Rightarrow> (True, b\<lparr>ub_admitted := ub_admitted b + 1\<rparr>)
         | Inl RefusedGlobal \<Rightarrow> (\<not> ub_enforce b, b\<lparr>ub_refused_global := ub_refused_global b + 1\<rparr>)
         | Inl RefusedSource \<Rightarrow> (\<not> ub_enforce b, b\<lparr>ub_refused_source := ub_refused_source b + 1\<rparr>)
         | Inl RefusedTableFull \<Rightarrow> (\<not> ub_enforce b, b\<lparr>ub_refused_table_full := ub_refused_table_full b + 1\<rparr>))"

text \<open>The sweep drops every entry that is full again and gives its table slot back.\<close>

definition ub_sweep :: "nat \<Rightarrow> udp_budget \<Rightarrow> nat \<times> udp_budget" where
  "ub_sweep now b =
     (let kept = filter (\<lambda>(_, s). \<not> tb_is_full_at now s) (ub_sources b);
          dropped = length (ub_sources b) - length kept
      in (dropped, b\<lparr>ub_sources := kept, ub_entries := ub_entries b - of_nat dropped\<rparr>))"

text \<open>A packet's admission also stamps the time of the latest rejection.\<close>

definition udp_admit :: "u64 \<Rightarrow> ip_addr \<Rightarrow> u32 \<Rightarrow> nat \<Rightarrow> udp_budget \<times> u64 \<Rightarrow> bool \<times> udp_budget \<times> u64" where
  "udp_admit now_ms ip cost now = (\<lambda>(b, last_rejection).
     let (serve, b') = ub_admit ip cost now b
     in (serve, b', if ub_admitted b' = ub_admitted b then now_ms else last_rejection))"

section \<open>The contract of a bucket\<close>

text \<open>Account operations in the order they reach a bucket, whoever makes them. \<open>account_run\<close>
  adds up the credits taken less the credits given back.\<close>

datatype account_op = Take u32 nat | Refund u32

fun account_run :: "(u32 \<Rightarrow> nat \<Rightarrow> 'b \<Rightarrow> bool \<times> 'b) \<Rightarrow> (u32 \<Rightarrow> 'b \<Rightarrow> 'b) \<Rightarrow> account_op list \<Rightarrow> 'b \<Rightarrow> int \<times> 'b" where
  "account_run tk rf [] b = (0, b)"
| "account_run tk rf (Take c t # ops) b =
     (let (ok, b) = tk c t b; (n, b) = account_run tk rf ops b in (n + (if ok then uint c else 0), b))"
| "account_run tk rf (Refund c # ops) b =
     (let (n, b) = account_run tk rf ops (rf c b) in (n - uint c, b))"

text \<open>\<open>worth\<close> is the credit of a bucket less what it has earned up to its clock, in nanocredits.\<close>

locale credit_account =
  fixes tk :: "u32 \<Rightarrow> nat \<Rightarrow> 'b \<Rightarrow> bool \<times> 'b" and rf :: "u32 \<Rightarrow> 'b \<Rightarrow> 'b"
    and worth :: "'b \<Rightarrow> int" and clock :: "'b \<Rightarrow> nat" and earn :: "'b \<Rightarrow> nat"
  assumes take_worth: "tk c t b = (ok, b') \<Longrightarrow> worth b' + (if ok then 1000000000 * uint c else 0) \<le> worth b"
    and take_clock: "tk c t b = (ok, b') \<Longrightarrow> clock b \<le> clock b' \<and> clock b' \<le> max (clock b) t \<and> earn b' = earn b"
    and refund_worth: "worth (rf c b) \<le> worth b + 1000000000 * uint c"
    and refund_clock: "clock (rf c b) = clock b \<and> earn (rf c b) = earn b"
    and worth_floor: "- (int (earn b) * int (clock b)) \<le> worth b"
begin

lemma run_worth: "account_run tk rf ops b = (n, b') \<Longrightarrow> worth b' + 1000000000 * n \<le> worth b"
proof (induction ops arbitrary: b n b')
  case (Cons x ops)
  show ?case
  proof (cases x)
    case (Take c t)
    obtain ok b1 where t: "tk c t b = (ok, b1)" by force
    obtain n1 b2 where r: "account_run tk rf ops b1 = (n1, b2)" by force
    have eq: "b' = b2" "n = n1 + (if ok then uint c else 0)"
      using Cons.prems by (auto simp: Take t r)
    show ?thesis
      using Cons.IH [OF r] take_worth [OF t] by (cases ok) (simp_all add: eq algebra_simps)
  next
    case (Refund c)
    obtain n1 b2 where r: "account_run tk rf ops (rf c b) = (n1, b2)" by force
    have eq: "b' = b2" "n = n1 - uint c"
      using Cons.prems by (auto simp: Refund r)
    show ?thesis
      using Cons.IH [OF r] refund_worth [of c b] by (simp add: eq algebra_simps)
  qed
qed simp

lemma run_clock:
  assumes "account_run tk rf ops b = (n, b')" and "clock b \<le> T" and "\<forall>c t. Take c t \<in> set ops \<longrightarrow> t \<le> T"
  shows "clock b' \<le> T \<and> earn b' = earn b"
  using assms
proof (induction ops arbitrary: b n b')
  case (Cons x ops)
  have ops: "\<forall>c t. Take c t \<in> set ops \<longrightarrow> t \<le> T" using Cons.prems(3) by simp
  show ?case
  proof (cases x)
    case (Take c t)
    obtain ok b1 where t: "tk c t b = (ok, b1)" by force
    obtain n1 b2 where r: "account_run tk rf ops b1 = (n1, b2)" by force
    have "t \<le> T" using Cons.prems(3) Take by auto
    then have "clock b1 \<le> T" "earn b1 = earn b" using take_clock [OF t] Cons.prems(2) by auto
    then show ?thesis using Cons.IH [OF r _ ops] Cons.prems(1) by (auto simp: Take t r)
  next
    case (Refund c)
    obtain n1 b2 where r: "account_run tk rf ops (rf c b) = (n1, b2)" by force
    show ?thesis using Cons.IH [OF r _ ops] Cons.prems(1,2) refund_clock [of c b] by (auto simp: Refund r)
  qed
qed simp

text \<open>Whatever the interleaving, what leaves the account is bounded by its worth and its earnings.\<close>

lemma spent_bound:
  assumes "account_run tk rf ops b = (n, b')" and "clock b \<le> T" and "\<forall>c t. Take c t \<in> set ops \<longrightarrow> t \<le> T"
  shows "1000000000 * n \<le> worth b + int (earn b) * int T"
proof -
  have "worth b' + 1000000000 * n \<le> worth b" by (rule run_worth [OF assms(1)])
  moreover have "- (int (earn b') * int (clock b')) \<le> worth b'" by (rule worth_floor)
  moreover have "int (earn b') * int (clock b') \<le> int (earn b) * int T"
    using run_clock [OF assms] by (simp add: mult_left_mono)
  ultimately show ?thesis by linarith
qed

end

text \<open>The bucket is such an account.\<close>

definition tb_worth :: "token_bucket \<Rightarrow> int" where
  "tb_worth b = 1000 * uint (tb_level b) - uint (tb_rate b) * int (tb_last b)"

lemma need_micro: "unat (ucast (c :: u32) * 1000000 :: u64) = unat c * 1000000"
proof -
  have "unat (ucast c :: u64) = unat c" by (rule unat_ucast_up) simp
  moreover have "unat c < 4294967296" using unsigned_less [of c] by simp
  ultimately show ?thesis by (simp add: unat_word_ariths)
qed

lemma uint_need: "uint (ucast (c :: u32) * 1000000 :: u64) = uint c * 1000000"
proof -
  have "int (unat (ucast c * 1000000 :: u64)) = int (unat c * 1000000)" by (simp only: need_micro)
  then show ?thesis by simp
qed

lemma uint_min: "uint (min a b) = min (uint a) (uint b)"
  by (simp add: min_def word_le_def)

lemma uint_sat_add_le: "uint (sat_add a b) \<le> uint a + uint b"
proof -
  have "int (unat (sat_add a b)) \<le> int (unat a + unat b)" by (simp only: unat_sat_add of_nat_le_iff min.cobounded1)
  then show ?thesis by simp
qed

lemma uint_sat_mul_le: "uint (sat_mul a b) \<le> uint a * uint b"
proof -
  have "int (unat (sat_mul a b)) \<le> int (unat a * unat b)" by (simp only: unat_sat_mul of_nat_le_iff min.cobounded1)
  then show ?thesis by simp
qed

lemma tb_refill_fields [simp]: "tb_rate (tb_refill now b) = tb_rate b" "tb_burst (tb_refill now b) = tb_burst b"
  by (simp_all add: tb_refill_def Let_def)

lemma tb_refill_last: "tb_last b \<le> tb_last (tb_refill now b) \<and> tb_last (tb_refill now b) \<le> max (tb_last b) now"
proof -
  have "unat (of_nat ((now - tb_last b) div 1000) :: u64) \<le> (now - tb_last b) div 1000"
    by (simp add: unat_of_nat)
  then have "1000 * unat (of_nat ((now - tb_last b) div 1000) :: u64) \<le> now - tb_last b"
    by (metis (no_types) le_trans mult_le_mono2 times_div_less_eq_dividend)
  then show ?thesis by (auto simp: tb_refill_def Let_def)
qed

lemma tb_refill_worth: "tb_worth (tb_refill now b) \<le> tb_worth b"
proof -
  define us where "us = (of_nat ((now - tb_last b) div 1000) :: u64)"
  have "uint (min (sat_add (tb_level b) (sat_mul us (tb_rate b))) (tb_burst b)) \<le> uint (tb_level b) + uint us * uint (tb_rate b)"
    using uint_sat_add_le [of "tb_level b" "sat_mul us (tb_rate b)"] uint_sat_mul_le [of us "tb_rate b"]
    by (simp add: uint_min)
  then show ?thesis
    by (simp add: tb_refill_def tb_worth_def us_def [symmetric] Let_def algebra_simps)
qed

lemma tb_take_cases:
  obtains "tb_take c t b = (True, tb_refill t b\<lparr>tb_level := tb_level (tb_refill t b) - ucast c * 1000000\<rparr>)"
      "ucast c * 1000000 \<le> tb_level (tb_refill t b)"
  | "tb_take c t b = (False, tb_refill t b)" "tb_level (tb_refill t b) < ucast c * 1000000"
  by (cases "ucast c * 1000000 \<le> tb_level (tb_refill t b)") (auto simp: tb_take_def Let_def not_le)

lemma uint_sub_need: "ucast (c :: u32) * 1000000 \<le> (l :: u64) \<Longrightarrow> uint (l - ucast c * 1000000) = uint l - uint c * 1000000"
  by (metis uint_need uint_sub_lem word_le_def)

interpretation tb: credit_account tb_take tb_refund tb_worth tb_last "\<lambda>b. unat (tb_rate b)"
proof
  fix c t b ok b'
  assume t: "tb_take c t b = (ok, b')"
  show "tb_worth b' + (if ok then 1000000000 * uint c else 0) \<le> tb_worth b"
    using t tb_refill_worth [of t b]
    by (cases rule: tb_take_cases [of c t b]) (auto simp: tb_worth_def uint_sub_need)
  show "tb_last b \<le> tb_last b' \<and> tb_last b' \<le> max (tb_last b) t \<and> unat (tb_rate b') = unat (tb_rate b)"
    using t tb_refill_last [of b t] by (cases rule: tb_take_cases [of c t b]) auto
next
  fix c b
  show "tb_worth (tb_refund c b) \<le> tb_worth b + 1000000000 * uint c"
    using uint_sat_add_le [of "tb_level b" "ucast c * 1000000"]
    by (simp add: tb_worth_def tb_refund_def uint_min uint_need)
  show "tb_last (tb_refund c b) = tb_last b \<and> unat (tb_rate (tb_refund c b)) = unat (tb_rate b)"
    by (simp add: tb_refund_def)
  show "- (int (unat (tb_rate b)) * int (tb_last b)) \<le> tb_worth b"
    by (simp add: tb_worth_def)
qed


section \<open>Keys as addresses\<close>

text \<open>A map keyed by the key's address (the TCP limits) counts by the same key.\<close>

lemma as_ip_inject: "as_ip (source_key_of a n) = as_ip (source_key_of b n) \<longleftrightarrow> source_key_of a n = source_key_of b n"
  by (cases a; cases b) (auto simp: Let_def split: option.splits)

section \<open>The UDP table\<close>

lemma map_of_filter_snd:
  "distinct (map fst xs) \<Longrightarrow>
   map_of (filter (\<lambda>(_, s). P s) xs) k = (case map_of xs k of Some s \<Rightarrow> if P s then Some s else None | None \<Rightarrow> None)"
  by (induction xs) (auto split: option.splits simp: map_of_eq_None_iff rev_image_eqI)

text \<open>Table and counter agree, the cap holds, and every bucket is one of the configured kind
  whose clock is not ahead of \<open>T\<close>.\<close>

definition source_bucket :: "udp_budget \<Rightarrow> nat \<Rightarrow> token_bucket \<Rightarrow> bool" where
  "source_bucket b T s \<longleftrightarrow> tb_rate s = ucast (ub_src_rate b) \<and> tb_burst s = ucast (ub_src_burst b) * 1000000 \<and>
     tb_level s \<le> tb_burst s \<and> tb_last s \<le> T"

definition table_ok :: "nat \<Rightarrow> udp_budget \<Rightarrow> bool" where
  "table_ok T b \<longleftrightarrow> distinct (map fst (ub_sources b)) \<and> unat (ub_entries b) = length (ub_sources b) \<and>
     ub_entries b \<le> ub_cap b \<and> (\<forall>k s. map_of (ub_sources b) k = Some s \<longrightarrow> source_bucket b T s)"

text \<open>What a source's account is worth at \<open>T\<close>; one without an entry has a full bucket.\<close>

definition source_worth :: "nat \<Rightarrow> udp_budget \<Rightarrow> source_key \<Rightarrow> int" where
  "source_worth T b k =
     (case map_of (ub_sources b) k of
        Some s \<Rightarrow> tb_worth s
      | None \<Rightarrow> 1000000000 * uint (ub_src_burst b) - uint (ub_src_rate b) * int T)"

lemma uint_ucast_u32: "uint (ucast (x :: u32) :: u64) = uint x"
proof -
  have "int (unat (ucast x :: u64)) = int (unat x)" by (simp only: unat_ucast_up len_num1 len_bit0 len_bit1 le_numeral_extra)
  then show ?thesis by simp
qed

lemma tb_new_worth: "tb_worth (tb_new r n t) = 1000000000 * uint n - uint r * int t"
  by (simp add: tb_worth_def tb_new_def Let_def uint_need uint_ucast_u32)

lemma tb_refill_level: "tb_level s \<le> tb_burst s \<Longrightarrow> tb_level (tb_refill t s) \<le> tb_burst s"
  by (simp add: tb_refill_def Let_def)

lemma tb_take_level: "tb_level s \<le> tb_burst s \<Longrightarrow> tb_take c t s = (ok, s') \<Longrightarrow> tb_level s' \<le> tb_burst s' \<and> tb_burst s' = tb_burst s \<and> tb_rate s' = tb_rate s"
  using tb_refill_level [of s t] word_sub_le [of "ucast c * 1000000" "tb_level (tb_refill t s)"]
  by (cases rule: tb_take_cases [of c t s]) (auto intro: order_trans)

lemma take_source_bucket:
  assumes "source_bucket b T s" and "tb_take c t s = (ok, s')" and "T \<le> t"
  shows "source_bucket b t s'"
  using assms tb_take_level [OF _ assms(2)] tb.take_clock [OF assms(2)]
  by (auto simp: source_bucket_def)

lemma new_source_bucket: "source_bucket b t (tb_new (ub_src_rate b) (ub_src_burst b) t)"
  by (simp add: source_bucket_def tb_new_def Let_def)

lemma source_bucket_mono: "source_bucket b T s \<Longrightarrow> T \<le> t \<Longrightarrow> source_bucket b t s"
  by (auto simp: source_bucket_def)

lemma source_bucket_update:
  "source_bucket (b\<lparr>ub_entries := e, ub_sources := ss\<rparr>) = source_bucket b"
  "source_bucket (b\<lparr>ub_sources := ss\<rparr>) = source_bucket b"
  "source_bucket (b\<lparr>ub_entries := e\<rparr>) = source_bucket b"
  "source_bucket (b\<lparr>ub_global := g\<rparr>) = source_bucket b"
  by (auto simp: source_bucket_def fun_eq_iff)

lemma length_alist_update:
  "length (AList.update k v xs) = (if map_of xs k = None then Suc (length xs) else length xs)"
  by (metis (no_types, lifting) AList.update_keys length_append_singleton length_map map_of_eq_None_iff set_map)

lemma charge_occupied:
  assumes "table_ok T b" and "T \<le> t" and "map_of (ub_sources b) key = Some s" and "tb_take c t s = (ok, s')"
  shows "table_ok t (b\<lparr>ub_sources := AList.update key s' (ub_sources b)\<rparr>)"
  using assms(1,3) take_source_bucket [OF _ assms(4,2)]
  by (auto simp: table_ok_def source_bucket_update length_alist_update update_conv' distinct_update
      intro: source_bucket_mono [OF _ assms(2)])

lemma charge_vacant:
  assumes "table_ok T b" and "T \<le> t" and "map_of (ub_sources b) key = None" and "ub_entries b < ub_cap b"
    and "source_bucket b t s"
  shows "table_ok t (b\<lparr>ub_entries := ub_entries b + 1, ub_sources := AList.update key s (ub_sources b)\<rparr>)"
proof -
  have "unat (ub_entries b) < unat (ub_cap b)" using assms(4) by (simp add: word_less_nat_alt)
  moreover have "unat (ub_cap b) < 4294967296" using unsigned_less [of "ub_cap b"] by simp
  ultimately have "unat (ub_entries b + 1) = Suc (unat (ub_entries b))"
    by (simp add: unat_word_ariths)
  then show ?thesis
    using assms(1,3,5) inc_le [OF assms(4)]
    by (auto simp: table_ok_def source_bucket_update length_alist_update update_conv' distinct_update
        intro: source_bucket_mono [OF _ assms(2)])
qed


section \<open>The bounds on what is served\<close>

text \<open>The arrivals and sweeps in their order, with the log of the charges granted.\<close>

datatype udp_event = Packet ip_addr u32 nat | Sweep nat

fun event_time :: "udp_event \<Rightarrow> nat" where
  "event_time (Packet _ _ t) = t"
| "event_time (Sweep t) = t"

fun udp_run :: "udp_event list \<Rightarrow> udp_budget \<Rightarrow> (source_key \<times> u32) list \<times> udp_budget" where
  "udp_run [] b = ([], b)"
| "udp_run (Packet ip c t # evs) b =
     (let key = source_key_of ip (ub_v6_bits b); (serve, b) = ub_admit ip c t b; (log, b) = udp_run evs b
      in (if serve then (key, c) # log else log, b))"
| "udp_run (Sweep t # evs) b = udp_run evs (snd (ub_sweep t b))"

definition served :: "(source_key \<times> u32) list \<Rightarrow> int" where
  "served log = sum_list (map (\<lambda>(_, c). uint c) log)"

definition served_to :: "source_key \<Rightarrow> (source_key \<times> u32) list \<Rightarrow> int" where
  "served_to k log = served (filter (\<lambda>(k', _). k' = k) log)"

lemma served_simps [simp]:
  "served [] = 0" "served ((k, c) # log) = uint c + served log" "served_to k [] = 0"
  "served_to k ((k', c) # log) = (if k' = k then uint c else 0) + served_to k log"
  by (simp_all add: served_def served_to_def)

abbreviation same_limits :: "udp_budget \<Rightarrow> udp_budget \<Rightarrow> bool" where
  "same_limits b b' \<equiv> ub_src_rate b' = ub_src_rate b \<and> ub_src_burst b' = ub_src_burst b \<and>
     ub_v6_bits b' = ub_v6_bits b \<and> ub_enforce b' = ub_enforce b \<and> ub_cap b' = ub_cap b"

lemma source_worth_later: "T \<le> t \<Longrightarrow> source_worth t b k \<le> source_worth T b k"
  by (auto simp: source_worth_def mult_left_mono split: option.splits)

lemma source_worth_update:
  "source_worth t (b\<lparr>ub_sources := AList.update key s (ub_sources b)\<rparr>) k =
     (if k = key then tb_worth s else source_worth t b k)"
  "source_worth t (b\<lparr>ub_entries := e, ub_sources := AList.update key s (ub_sources b)\<rparr>) k =
     (if k = key then tb_worth s else source_worth t b k)"
  by (simp_all add: source_worth_def update_conv' split: option.split)

lemma charge_source_step:
  assumes "table_ok T b" and "T \<le> t" and "charge_source key c t b = (r, b')"
  shows "table_ok t b' \<and> same_limits b b' \<and> ub_global b' = ub_global b"
    and "source_worth t b' k + (if r = Inr () \<and> k = key then 1000000000 * uint c else 0) \<le> source_worth T b k"
proof -
  have *: "(table_ok t b' \<and> same_limits b b' \<and> ub_global b' = ub_global b) \<and>
     source_worth t b' k + (if r = Inr () \<and> k = key then 1000000000 * uint c else 0) \<le> source_worth T b k"
  proof (cases "map_of (ub_sources b) key")
    case (Some s)
    obtain ok s' where tk: "tb_take c t s = (ok, s')" by force
    have b': "b' = b\<lparr>ub_sources := AList.update key s' (ub_sources b)\<rparr>" and r: "r = (if ok then Inr () else Inl RefusedSource)"
      using assms(3) Some tk by (auto simp: charge_source_def)
    show ?thesis
      using charge_occupied [OF assms(1,2) Some tk] tb.take_worth [OF tk] source_worth_later [OF assms(2), of b k] Some
      by (auto simp: b' r source_worth_update source_worth_def [of _ _ key] split: if_splits)
  next
    case None
    show ?thesis
    proof (cases "ub_entries b \<ge> ub_cap b")
      case True
      then have "b' = b" "r = Inl RefusedTableFull" using assms(3) None by (auto simp: charge_source_def)
      then show ?thesis using assms(1) source_bucket_mono [OF _ assms(2)] source_worth_later [OF assms(2), of b k]
        by (auto simp: table_ok_def)
    next
      case False
      let ?new = "tb_new (ub_src_rate b) (ub_src_burst b) t"
      obtain ok s where tk: "tb_take c t ?new = (ok, s)" by force
      have b': "b' = b\<lparr>ub_entries := ub_entries b + 1, ub_sources := AList.update key s (ub_sources b)\<rparr>"
        and r: "r = (if ok then Inr () else Inl RefusedSource)"
        using assms(3) None False tk by (auto simp: charge_source_def)
      have "source_bucket b t s" by (rule take_source_bucket [OF new_source_bucket tk]) simp
      then have "table_ok t b'"
        using charge_vacant [OF assms(1,2) None] False by (simp add: b')
      moreover have "tb_worth s + (if ok then 1000000000 * uint c else 0) \<le> source_worth t b key"
        using tb.take_worth [OF tk] None by (simp add: source_worth_def tb_new_worth)
      ultimately show ?thesis
        using source_worth_later [OF assms(2), of b k]
        by (auto simp: b' r source_worth_update split: if_splits)
    qed
  qed
  show "table_ok t b' \<and> same_limits b b' \<and> ub_global b' = ub_global b"
    and "source_worth t b' k + (if r = Inr () \<and> k = key then 1000000000 * uint c else 0) \<le> source_worth T b k"
    using * by blast+
qed

lemma table_ok_global: "table_ok T (b\<lparr>ub_global := g\<rparr>) = table_ok T b"
  and source_worth_global: "source_worth T (b\<lparr>ub_global := g\<rparr>) k = source_worth T b k"
  by (simp_all add: table_ok_def source_worth_def source_bucket_update cong: option.case_cong)

lemma table_ok_counters:
  "table_ok T (b\<lparr>ub_admitted := n\<rparr>) = table_ok T b"
  "table_ok T (b\<lparr>ub_refused_global := n\<rparr>) = table_ok T b"
  "table_ok T (b\<lparr>ub_refused_source := n\<rparr>) = table_ok T b"
  "table_ok T (b\<lparr>ub_refused_table_full := n\<rparr>) = table_ok T b"
  by (simp_all add: table_ok_def source_bucket_def)

lemma source_worth_counters:
  "source_worth T (b\<lparr>ub_admitted := n\<rparr>) k = source_worth T b k"
  "source_worth T (b\<lparr>ub_refused_global := n\<rparr>) k = source_worth T b k"
  "source_worth T (b\<lparr>ub_refused_source := n\<rparr>) k = source_worth T b k"
  "source_worth T (b\<lparr>ub_refused_table_full := n\<rparr>) k = source_worth T b k"
  by (simp_all add: source_worth_def split: option.split)

lemma table_ok_later: "table_ok T b \<Longrightarrow> T \<le> t \<Longrightarrow> table_ok t b"
  using source_bucket_mono unfolding table_ok_def by blast

lemma tb_take_rate: "tb_take c t g = (ok, g') \<Longrightarrow> tb_rate g' = tb_rate g"
  by (cases rule: tb_take_cases [of c t g]) auto

lemma global_step:
  assumes "tb_take c t g = (ok, g')"
  shows "tb_worth (if ok \<and> granted then g' else if ok then tb_refund c g' else g') +
      (if ok \<and> granted then 1000000000 * uint c else 0) \<le> tb_worth g"
    and "tb_last (if ok \<and> granted then g' else if ok then tb_refund c g' else g') \<le> max (tb_last g) t"
    and "tb_rate (if ok \<and> granted then g' else if ok then tb_refund c g' else g') = tb_rate g"
  using tb.take_worth [OF assms] tb.refund_worth [of c g'] tb.take_clock [OF assms] tb_take_rate [OF assms]
  by (auto simp: tb_refund_def split: if_splits)

lemma ub_check_step:
  assumes "table_ok T b" and "T \<le> t" and "tb_last (ub_global b) \<le> T" and "ub_check ip c t b = (r, b')"
  defines "key \<equiv> source_key_of ip (ub_v6_bits b)"
  shows "table_ok t b' \<and> same_limits b b' \<and> tb_last (ub_global b') \<le> t \<and> tb_rate (ub_global b') = tb_rate (ub_global b)"
    and "tb_worth (ub_global b') + (if r = Inr () then 1000000000 * uint c else 0) \<le> tb_worth (ub_global b)"
    and "source_worth t b' k + (if r = Inr () \<and> k = key then 1000000000 * uint c else 0) \<le> source_worth T b k"
proof -
  obtain ok g where tk: "tb_take c t (ub_global b) = (ok, g)" by force
  obtain r1 b1 where ch: "charge_source key c t (b\<lparr>ub_global := g\<rparr>) = (r1, b1)" by force
  have "table_ok T (b\<lparr>ub_global := g\<rparr>)" using assms(1) by (simp add: table_ok_global)
  note st = charge_source_step [OF this assms(2) ch, unfolded source_worth_global]
  have *: "(table_ok t b' \<and> same_limits b b' \<and> tb_last (ub_global b') \<le> t \<and> tb_rate (ub_global b') = tb_rate (ub_global b)) \<and>
     tb_worth (ub_global b') + (if r = Inr () then 1000000000 * uint c else 0) \<le> tb_worth (ub_global b) \<and>
     source_worth t b' k + (if r = Inr () \<and> k = key then 1000000000 * uint c else 0) \<le> source_worth T b k"
  proof (cases ok)
    case False
    then have "r = Inl RefusedGlobal" "b' = b\<lparr>ub_global := g\<rparr>" using assms(4) tk by (auto simp: ub_check_def)
    then show ?thesis
      using global_step [OF tk, where granted = False] False table_ok_later [OF assms(1,2)] source_worth_later [OF assms(2), of b k] assms(2,3)
      by (auto simp: table_ok_global source_worth_global)
  next
    case True
    then have r: "r = r1" and b': "b' = (if r1 = Inr () then b1 else b1\<lparr>ub_global := tb_refund c (ub_global b1)\<rparr>)"
      using assms(4) tk ch by (auto simp: ub_check_def key_def split: sum.splits)
    show ?thesis
      using global_step [OF tk, where granted = "r1 = Inr ()"] True st(1) st(2) [of k] assms(2,3)
      by (auto simp: r b' table_ok_global source_worth_global)
  qed
  show "table_ok t b' \<and> same_limits b b' \<and> tb_last (ub_global b') \<le> t \<and> tb_rate (ub_global b') = tb_rate (ub_global b)"
    and "tb_worth (ub_global b') + (if r = Inr () then 1000000000 * uint c else 0) \<le> tb_worth (ub_global b)"
    and "source_worth t b' k + (if r = Inr () \<and> k = key then 1000000000 * uint c else 0) \<le> source_worth T b k"
    using * by blast+
qed

lemma ub_admit_check:
  assumes "ub_check ip c t b = (r, b1)" and "ub_admit ip c t b = (serve, b')" and "ub_enforce b1"
  shows "(serve \<longleftrightarrow> r = Inr ()) \<and> same_limits b1 b' \<and> ub_global b' = ub_global b1 \<and>
    table_ok T b' = table_ok T b1 \<and> source_worth T b' k = source_worth T b1 k"
  using assms
  by (auto simp: ub_admit_def table_ok_counters source_worth_counters split: sum.splits udp_refusal.splits)

lemma ub_sweep_step:
  assumes "table_ok T b" and "T \<le> t"
  shows "table_ok t (snd (ub_sweep t b)) \<and> same_limits b (snd (ub_sweep t b)) \<and> ub_global (snd (ub_sweep t b)) = ub_global b"
    and "source_worth t (snd (ub_sweep t b)) k \<le> source_worth T b k"
proof -
  let ?kept = "filter (\<lambda>(_, s). \<not> tb_is_full_at t s) (ub_sources b)"
  have le: "length ?kept \<le> unat (ub_entries b)" using assms(1) by (simp add: table_ok_def)
  define d where "d = length (ub_sources b) - length ?kept"
  have n: "unat (ub_entries b) = length (ub_sources b)" using assms(1) by (simp add: table_ok_def)
  have "unat (ub_entries b) < 4294967296" using unsigned_less [of "ub_entries b"] by simp
  then have "d < 4294967296" using n by (simp add: d_def)
  then have small: "unat (of_nat d :: u32) = d" by (simp add: unat_of_nat)
  then have "of_nat d \<le> ub_entries b" using n by (simp add: word_le_nat_alt d_def)
  then have ent: "unat (ub_entries b - of_nat d) = length ?kept"
    using small le n by (simp add: unat_sub d_def)
  moreover have "unat (ub_entries b) \<le> unat (ub_cap b)" using assms(1) by (simp add: table_ok_def word_le_nat_alt)
  ultimately have cap: "ub_entries b - of_nat d \<le> ub_cap b"
    using le by (simp only: word_le_nat_alt)
  show "table_ok t (snd (ub_sweep t b)) \<and> same_limits b (snd (ub_sweep t b)) \<and> ub_global (snd (ub_sweep t b)) = ub_global b"
    using assms(1) ent cap
    by (auto simp: table_ok_def ub_sweep_def Let_def d_def [symmetric] distinct_map_filter map_of_filter_snd source_bucket_update
        split: option.splits if_splits intro: source_bucket_mono [OF _ assms(2)])
  show "source_worth t (snd (ub_sweep t b)) k \<le> source_worth T b k"
  proof (cases "map_of (ub_sources b) k")
    case None
    then show ?thesis
      using assms by (simp add: source_worth_def ub_sweep_def Let_def map_of_filter_snd table_ok_def mult_left_mono)
  next
    case (Some s)
    have "distinct (map fst (ub_sources b))" using assms(1) by (simp add: table_ok_def)
    moreover have "1000000000 * uint (ub_src_burst b) - uint (ub_src_rate b) * int t \<le> tb_worth s" if "tb_is_full_at t s"
    proof -
      have sb: "source_bucket b T s" using assms(1) Some by (simp add: table_ok_def)
      have "tb_worth (tb_refill t s) \<le> tb_worth s" by (rule tb_refill_worth)
      moreover have "tb_level (tb_refill t s) = ucast (ub_src_burst b) * 1000000"
        using that tb_refill_level [of s t] sb by (auto simp: tb_is_full_at_def Let_def source_bucket_def)
      moreover have "tb_last (tb_refill t s) \<le> t"
        using tb_refill_last [of s t] sb assms(2) by (simp add: source_bucket_def)
      then have "uint (ub_src_rate b) * int (tb_last (tb_refill t s)) \<le> uint (ub_src_rate b) * int t"
        by (simp add: mult_left_mono)
      ultimately show ?thesis
        using sb by (simp add: tb_worth_def source_bucket_def uint_need uint_ucast_u32)
    qed
    ultimately show ?thesis
      using Some by (simp add: source_worth_def ub_sweep_def Let_def map_of_filter_snd)
  qed
qed


text \<open>What a run serves, in all and to one source, is paid from what the accounts were worth.\<close>

lemma udp_run_worth:
  assumes "table_ok T b" and "tb_last (ub_global b) \<le> T" and "ub_enforce b"
    and "sorted (T # map event_time evs)" and "\<forall>e\<in>set evs. event_time e \<le> T'" and "T \<le> T'"
    and "udp_run evs b = (log, b')"
  shows "table_ok T' b' \<and> same_limits b b' \<and> tb_last (ub_global b') \<le> T' \<and> tb_rate (ub_global b') = tb_rate (ub_global b) \<and>
    tb_worth (ub_global b') + 1000000000 * served log \<le> tb_worth (ub_global b) \<and>
    source_worth T' b' k + 1000000000 * served_to k log \<le> source_worth T b k"
  using assms
proof (induction evs arbitrary: b T log)
  case Nil
  then show ?case using table_ok_later source_worth_later [of T T' b' k] by auto
next
  case (Cons e evs)
  have srt: "sorted (event_time e # map event_time evs)" and le: "T \<le> event_time e" "event_time e \<le> T'"
    and tl: "\<forall>e\<in>set evs. event_time e \<le> T'" using Cons.prems(4,5) by auto
  show ?case
  proof (cases e)
    case (Packet ip c t)
    obtain r b1 where ck: "ub_check ip c t b = (r, b1)" by force
    obtain serve b2 where ad: "ub_admit ip c t b = (serve, b2)" by force
    obtain log1 b3 where rn: "udp_run evs b2 = (log1, b3)" by force
    have tt: "T \<le> t" using le by (simp add: Packet)
    note st = ub_check_step [OF Cons.prems(1) tt Cons.prems(2) ck]
    have "ub_enforce b1" using st(1) Cons.prems(3) by simp
    note ac = ub_admit_check [OF ck ad this, of t k]
    have eq: "b' = b3" "log = (if serve then (source_key_of ip (ub_v6_bits b), c) # log1 else log1)"
      using Cons.prems(7) by (auto simp: Packet ad rn Let_def)
    have "table_ok t b2" "tb_last (ub_global b2) \<le> t" "ub_enforce b2" using st(1) ac Cons.prems(3) by auto
    from Cons.IH [OF this srt [unfolded Packet event_time.simps] tl le(2) [unfolded Packet event_time.simps] rn [folded eq(1)]]
    show ?thesis using st(1,2) st(3) [of k] ac by (auto simp: eq algebra_simps split: if_splits)
  next
    case (Sweep t)
    have tt: "T \<le> t" using le by (simp add: Sweep)
    note st = ub_sweep_step [OF Cons.prems(1) tt]
    have "table_ok t (snd (ub_sweep t b))" "tb_last (ub_global (snd (ub_sweep t b))) \<le> t" "ub_enforce (snd (ub_sweep t b))"
      using st(1) Cons.prems(2,3) tt by auto
    from Cons.IH [OF this srt [unfolded Sweep event_time.simps] tl le(2) [unfolded Sweep event_time.simps]]
    show ?thesis using st(1) st(2) [of k] Cons.prems(7) by (fastforce simp: Sweep)
  qed
qed

lemma table_ok_new: "table_ok t (ub_new c t)"
  by (simp add: table_ok_def ub_new_def)

lemma source_floor:
  assumes "table_ok T b"
  shows "- (uint (ub_src_rate b) * int T) \<le> source_worth T b k"
proof (cases "map_of (ub_sources b) k")
  case None
  then show ?thesis by (simp add: source_worth_def)
next
  case (Some s)
  then have "source_bucket b T s" using assms by (simp add: table_ok_def)
  then have "uint (tb_rate s) * int (tb_last s) \<le> uint (ub_src_rate b) * int T"
    by (simp add: source_bucket_def uint_ucast_u32 mult_left_mono)
  then show ?thesis using tb.worth_floor [of s] Some by (simp add: source_worth_def)
qed

text \<open>C13: UDP budgets: while they are enforced, whatever arrives, from whatever addresses and at
  whatever cost, and whenever the table is swept, the credits served up to a time are at
  most the burst and the rate times the time passed, for the server as a whole and for each
  source key; the table holds at most its cap of sources and its counter is its size.\<close>

theorem udp_rate_bound:
  assumes "udp_rate_enforce c" and "sorted (t0 # map event_time evs)" and "\<forall>e\<in>set evs. event_time e \<le> t1" and "t0 \<le> t1"
    and "udp_run evs (ub_new c t0) = (log, b)"
  shows "1000000000 * served log \<le>
      1000000000 * uint (udp_global_burst_credits c) + uint (udp_global_credits_per_second c) * int (t1 - t0) \<and>
    1000000000 * served_to k log \<le>
      1000000000 * uint (udp_source_burst_credits c) + uint (udp_source_credits_per_second c) * int (t1 - t0) \<and>
    length (ub_sources b) = unat (ub_entries b) \<and> unat (ub_entries b) \<le> unat (max_rate_state_entries c)"
proof (intro conjI)
  let ?b0 = "ub_new c t0"
  have "tb_last (ub_global ?b0) \<le> t0" "ub_enforce ?b0" using assms(1) by (simp_all add: ub_new_def tb_new_def Let_def)
  note run = udp_run_worth [OF table_ok_new this assms(2-5), of k]
  have T: "int (t1 - t0) = int t1 - int t0" using assms(4) by simp
  have "- (uint (tb_rate (ub_global b)) * int t1) \<le> tb_worth (ub_global b)"
    using tb.worth_floor [of "ub_global b"] run mult_left_mono [of "int (tb_last (ub_global b))" "int t1" "uint (tb_rate (ub_global b))"]
    by simp
  then show "1000000000 * served log \<le>
      1000000000 * uint (udp_global_burst_credits c) + uint (udp_global_credits_per_second c) * int (t1 - t0)"
    using run by (simp add: T ub_new_def tb_new_worth right_diff_distrib) (simp add: tb_new_def Let_def uint_ucast_u32)
  have "- (uint (ub_src_rate b) * int t1) \<le> source_worth t1 b k" using run source_floor by blast
  then show "1000000000 * served_to k log \<le>
      1000000000 * uint (udp_source_burst_credits c) + uint (udp_source_credits_per_second c) * int (t1 - t0)"
    using run by (simp add: T ub_new_def source_worth_def [of t0] right_diff_distrib)
  have ok: "table_ok t1 b" and cap: "ub_cap b = max_rate_state_entries c" using run by (auto simp: ub_new_def)
  show "length (ub_sources b) = unat (ub_entries b)" using ok by (simp add: table_ok_def)
  show "unat (ub_entries b) \<le> unat (max_rate_state_entries c)"
    using ok unfolding table_ok_def cap word_le_nat_alt by blast
qed

theorem udp_rate_bound_witness:
  "1000000000 * served (fst (udp_run [Packet (V4 1) 1000 0, Packet (V4 1) 1 0, Sweep 1] (ub_new (admission_default\<lparr>udp_rate_enforce := True\<rparr>) 0)))
     \<le> 1000000000 * 400000 + 200000 * 1"
  using udp_rate_bound [of "admission_default\<lparr>udp_rate_enforce := True\<rparr>" 0 "[Packet (V4 1) 1000 0, Packet (V4 1) 1 0, Sweep 1]" 1
      "fst (udp_run [Packet (V4 1) 1000 0, Packet (V4 1) 1 0, Sweep 1] (ub_new (admission_default\<lparr>udp_rate_enforce := True\<rparr>) 0))"
      "snd (udp_run [Packet (V4 1) 1000 0, Packet (V4 1) 1 0, Sweep 1] (ub_new (admission_default\<lparr>udp_rate_enforce := True\<rparr>) 0))" "KeyV4 1"]
  by (simp add: admission_default_def del: udp_run.simps)


section \<open>Refill, recovery and sweeping\<close>

text \<open>The level after a refill, for a clock gap of less than \<open>2 ^ 64\<close> microseconds.\<close>

lemma tb_refill_level_nat:
  assumes "tb_level b \<le> tb_burst b" and "(t - tb_last b) div 1000 < 2 ^ 64"
  shows "unat (tb_level (tb_refill t b)) =
    min (unat (tb_level b) + (t - tb_last b) div 1000 * unat (tb_rate b)) (unat (tb_burst b))"
proof -
  define us where "us = (of_nat ((t - tb_last b) div 1000) :: u64)"
  have us: "unat us = (t - tb_last b) div 1000" using assms(2) by (simp add: us_def unat_of_nat)
  have lvl: "unat (tb_level b) \<le> unat (tb_burst b)" using assms(1) by (simp add: word_le_nat_alt)
  have "unat (tb_burst b) < 18446744073709551616" using unsigned_less [of "tb_burst b"] by simp
  then have top: "unat (tb_burst b) \<le> 2 ^ 64 - 1" by simp
  show ?thesis
  proof (cases "us > 0")
    case True
    have "unat (min x y) = min (unat x) (unat y)" for x y :: u64 by (simp add: min_def word_le_nat_alt)
    then have "unat (tb_level (tb_refill t b)) =
        min (min (unat (tb_level b) + min (unat us * unat (tb_rate b)) (2 ^ 64 - 1)) (2 ^ 64 - 1)) (unat (tb_burst b))"
      using True by (simp add: tb_refill_def us_def [symmetric] Let_def unat_sat_add unat_sat_mul)
    then show ?thesis using top unfolding us by (auto simp: min_def)
  next
    case False
    then have "unat us = 0" by (simp add: word_gt_0)
    then show ?thesis using False lvl us by (simp add: tb_refill_def us_def [symmetric] Let_def)
  qed
qed

lemma take_iff_level: "fst (tb_take c t b) \<longleftrightarrow> unat c * 1000000 \<le> unat (tb_level (tb_refill t b))"
  by (simp add: tb_take_def Let_def word_le_nat_alt need_micro)

text \<open>No allowance is lost for good: a bucket that holds enough when full grants a request once the
  microseconds since its last refill pay for it at its rate, whatever was taken or refused before.\<close>

theorem bucket_recovers:
  assumes "tb_level b \<le> tb_burst b" and "1000000 * unat c \<le> unat (tb_burst b)"
    and "1000000 * unat c \<le> (t - tb_last b) div 1000 * unat (tb_rate b)" and "(t - tb_last b) div 1000 < 2 ^ 64"
  shows "fst (tb_take c t b)"
  using assms(2,3) tb_refill_level_nat [OF assms(1,4)] by (simp add: take_iff_level)

theorem bucket_recovers_witness:
  "fst (tb_take 10 1000000000 (relay_new admission_default 0\<lparr>tb_level := 0\<rparr>))"
proof (rule bucket_recovers)
  show "1000000 * unat (10 :: u32) \<le> unat (tb_burst (relay_new admission_default 0\<lparr>tb_level := 0\<rparr>))"
    by (simp add: relay_new_def admission_default_def tb_new_def Let_def)
  show "1000000 * unat (10 :: u32) \<le>
      (1000000000 - tb_last (relay_new admission_default 0\<lparr>tb_level := 0\<rparr>)) div 1000 *
      unat (tb_rate (relay_new admission_default 0\<lparr>tb_level := 0\<rparr>))"
    by (simp add: relay_new_def admission_default_def tb_new_def Let_def)
qed (simp_all add: relay_new_def tb_new_def Let_def)

text \<open>A bucket that was full at a sweep answers like the fresh one that replaces it.\<close>

lemma full_bucket_like_new:
  assumes "tb_level s \<le> tb_burst s" and "tb_rate s = ucast rate" and "tb_burst s = ucast burst * 1000000"
    and "tb_is_full_at t0 s" and "t0 \<le> t" and "(t - tb_last s) div 1000 < 2 ^ 64"
  shows "fst (tb_take c t s) = fst (tb_take c t (tb_new rate burst t))"
    and "tb_level (snd (tb_take c t s)) = tb_level (snd (tb_take c t (tb_new rate burst t)))"
proof -
  have le: "(t0 - tb_last s) div 1000 \<le> (t - tb_last s) div 1000" using assms(5) by (simp add: div_le_mono)
  then have small: "(t0 - tb_last s) div 1000 < 2 ^ 64" using assms(6) by linarith
  have "unat (tb_burst s) \<le> unat (tb_level (tb_refill t0 s))"
    using assms(4) by (simp add: tb_is_full_at_def Let_def word_le_nat_alt)
  also have "\<dots> \<le> unat (tb_level s) + (t0 - tb_last s) div 1000 * unat (tb_rate s)"
    by (simp add: tb_refill_level_nat [OF assms(1) small])
  also have "\<dots> \<le> unat (tb_level s) + (t - tb_last s) div 1000 * unat (tb_rate s)"
    using le by (simp add: mult_le_mono1)
  finally have "unat (tb_level (tb_refill t s)) = unat (tb_burst s)"
    by (simp add: tb_refill_level_nat [OF assms(1,6)])
  then have full: "tb_level (tb_refill t s) = tb_burst s" by (rule unsigned_word_eqI)
  have new: "tb_level (tb_refill t (tb_new rate burst t)) = tb_burst s"
    by (simp add: tb_refill_def tb_new_def Let_def assms(3))
  show "fst (tb_take c t s) = fst (tb_take c t (tb_new rate burst t))"
    and "tb_level (snd (tb_take c t s)) = tb_level (snd (tb_take c t (tb_new rate burst t)))"
    by (simp_all add: tb_take_def Let_def full new)
qed

lemma ub_check_verdict:
  "fst (ub_check ip c t b) =
     (if fst (tb_take c t (ub_global b))
      then fst (charge_source (source_key_of ip (ub_v6_bits b)) c t (b\<lparr>ub_global := snd (tb_take c t (ub_global b))\<rparr>))
      else Inl RefusedGlobal)"
  by (cases "tb_take c t (ub_global b)") (auto simp: ub_check_def Let_def split: prod.split sum.split)

text \<open>Sweeping loses nothing: a packet that comes after a sweep gets the answer it would have got
  without it, except that one refused for a full table may now find room.\<close>

theorem sweep_transparent:
  assumes "table_ok T b" and "T \<le> t0" and "t0 \<le> t" and "t < 1000 * 2 ^ 64"
  shows "fst (ub_check ip c t (snd (ub_sweep t0 b))) = fst (ub_check ip c t b) \<or>
    fst (ub_check ip c t b) = Inl RefusedTableFull"
proof -
  let ?b1 = "snd (ub_sweep t0 b)" and ?key = "source_key_of ip (ub_v6_bits b)"
  have dist: "distinct (map fst (ub_sources b))" using assms(1) by (simp add: table_ok_def)
  have st: "table_ok t0 ?b1 \<and> same_limits b ?b1 \<and> ub_global ?b1 = ub_global b" by (rule ub_sweep_step [OF assms(1,2)])
  have src: "map_of (ub_sources ?b1) ?key =
      (case map_of (ub_sources b) ?key of Some s \<Rightarrow> if tb_is_full_at t0 s then None else Some s | None \<Rightarrow> None)"
    by (simp add: ub_sweep_def Let_def map_of_filter_snd [OF dist] split: option.split)
  have len: "unat (ub_entries ?b1) = length (ub_sources ?b1)" "unat (ub_entries b) = length (ub_sources b)"
    "ub_entries b \<le> ub_cap b" using st assms(1) by (simp_all add: table_ok_def)
  have gap: "(t - tb_last s) div 1000 < 2 ^ 64" for s
    using assms(4) by (simp add: less_mult_imp_div_less)
  have ch: "fst (charge_source ?key c t (?b1\<lparr>ub_global := g\<rparr>)) = fst (charge_source ?key c t (b\<lparr>ub_global := g\<rparr>)) \<or>
      fst (charge_source ?key c t (b\<lparr>ub_global := g\<rparr>)) = Inl RefusedTableFull" for g
  proof (cases "map_of (ub_sources b) ?key")
    case None
    have "length (ub_sources ?b1) \<le> length (ub_sources b)" by (simp add: ub_sweep_def Let_def)
    then have "ub_entries ?b1 \<le> ub_entries b" using len by (simp add: word_le_nat_alt)
    then show ?thesis using None src st by (auto simp: charge_source_def intro: order_trans split: prod.split)
  next
    case (Some s)
    show ?thesis
    proof (cases "tb_is_full_at t0 s")
      case False
      then show ?thesis using Some src by (simp add: charge_source_def split: prod.split)
    next
      case True
      have sb: "source_bucket b T s" using assms(1) Some by (simp add: table_ok_def)
      have "(?key, s) \<in> set (ub_sources b)" using Some by (rule map_of_SomeD)
      then have "length (ub_sources ?b1) < length (ub_sources b)"
        using True by (auto simp: ub_sweep_def Let_def intro!: length_filter_less)
      then have "ub_entries ?b1 < ub_cap ?b1" using len st by (simp add: word_less_nat_alt word_le_nat_alt)
      moreover have "fst (tb_take c t s) = fst (tb_take c t (tb_new (ub_src_rate b) (ub_src_burst b) t))"
        by (rule full_bucket_like_new) (use sb True assms(3) gap in \<open>auto simp: source_bucket_def\<close>)
      ultimately show ?thesis
        using Some src True st by (auto simp: charge_source_def split: prod.split)
    qed
  qed
  show ?thesis
    using st ch [of "snd (tb_take c t (ub_global b))"] by (simp add: ub_check_verdict)
qed

theorem sweep_transparent_witness:
  "fst (ub_check (V4 1) 1 2000000000 (snd (ub_sweep 1000000000 (snd (ub_check (V4 1) 1 0 (ub_new admission_default 0)))))) =
     fst (ub_check (V4 1) 1 2000000000 (snd (ub_check (V4 1) 1 0 (ub_new admission_default 0)))) \<or>
   fst (ub_check (V4 1) 1 2000000000 (snd (ub_check (V4 1) 1 0 (ub_new admission_default 0)))) = Inl RefusedTableFull"
proof (rule sweep_transparent)
  have "tb_last (ub_global (ub_new admission_default 0)) \<le> 0" by (simp add: ub_new_def tb_new_def Let_def)
  then show "table_ok 0 (snd (ub_check (V4 1) 1 0 (ub_new admission_default 0)))"
    using ub_check_step(1) [OF table_ok_new order_refl _ prod.collapse [symmetric]] by blast
qed simp_all

end
