(* ===== verification/Admission.thy ===== *)
theory Admission
  imports Rate_Limit "HOL-Library.Multiset"
begin

text \<open>
  Shared work admission (\<open>src/admission.rs\<close>): permit pools, logged-in slots, pending logins with
  their per-source shares, hole-punch retries, search permits and readiness. A semaphore is
  its number of free permits, a guard that returns its share on drop is a thread of a step
  relation, and the wall clock (\<open>now_ms\<close>) is an argument. Where an operation is not one
  atomic access, the relation has one step per access.
\<close>

section \<open>Pools\<close>

record pool =
  pl_available :: nat
  pl_cap :: u32
  pl_rejected :: u64

definition pool_new :: "u32 \<Rightarrow> pool" where
  "pool_new n = \<lparr>pl_available = unat n, pl_cap = n, pl_rejected = 0\<rparr>"

text \<open>A pool together with the time of the latest rejection, which all pools share.\<close>

definition pool_note_rejected :: "u64 \<Rightarrow> pool \<times> u64 \<Rightarrow> pool \<times> u64" where
  "pool_note_rejected now = (\<lambda>(p, last). (p\<lparr>pl_rejected := pl_rejected p + 1\<rparr>, now))"

definition pool_try_take :: "u64 \<Rightarrow> pool \<times> u64 \<Rightarrow> bool \<times> pool \<times> u64" where
  "pool_try_take now = (\<lambda>(p, last).
     if pl_available p > 0 then (True, p\<lparr>pl_available := pl_available p - 1\<rparr>, last)
     else (False, pool_note_rejected now (p, last)))"

text \<open>\<open>in_time\<close> is the verdict of the timeout: whether the wait ended with a permit to take.\<close>

definition pool_take_within :: "u64 \<Rightarrow> bool \<Rightarrow> pool \<times> u64 \<Rightarrow> bool \<times> pool \<times> u64" where
  "pool_take_within now in_time = (\<lambda>(p, last).
     if in_time \<and> pl_available p > 0 then (True, p\<lparr>pl_available := pl_available p - 1\<rparr>, last)
     else (False, pool_note_rejected now (p, last)))"

definition pool_release :: "pool \<Rightarrow> pool" where
  "pool_release p = p\<lparr>pl_available := pl_available p + 1\<rparr>"

definition pool_in_use :: "pool \<Rightarrow> u32" where
  "pool_in_use p = sat_sub (pl_cap p) (of_nat (pl_available p))"

definition pool_is_full :: "pool \<Rightarrow> bool" where
  "pool_is_full p \<longleftrightarrow> pl_available p = 0"

section \<open>Push outcomes\<close>

datatype push_outcome = Queued | Full | Closed
datatype push_kind = Callback | Holepunch | Keepalive

fun kind_index :: "push_kind \<Rightarrow> nat" where
  "kind_index Callback = 0"
| "kind_index Holepunch = 1"
| "kind_index Keepalive = 2"

record push_stats =
  ps_full :: "u64 list"
  ps_closed :: "u64 list"

definition push_stats_default :: push_stats where
  "push_stats_default = \<lparr>ps_full = replicate 3 0, ps_closed = replicate 3 0\<rparr>"

fun push_note :: "push_kind \<Rightarrow> push_outcome \<Rightarrow> push_stats \<Rightarrow> push_stats" where
  "push_note k Queued s = s"
| "push_note k Full s = s\<lparr>ps_full := (ps_full s)[kind_index k := ps_full s ! kind_index k + 1]\<rparr>"
| "push_note k Closed s = s\<lparr>ps_closed := (ps_closed s)[kind_index k := ps_closed s ! kind_index k + 1]\<rparr>"

definition push_get :: "push_kind \<Rightarrow> push_stats \<Rightarrow> u64 \<times> u64" where
  "push_get k s = (ps_full s ! kind_index k, ps_closed s ! kind_index k)"

section \<open>The component\<close>

type_synonym retry_key = "bytes \<times> u32"

record admission =
  ad_cfg :: admission_config
  ad_open_tcp :: pool
  ad_pending_login :: pool
  ad_pending_per_source :: "(ip_addr \<times> u32) list"
  ad_pending_source_rejected :: u64
  ad_probes :: pool
  ad_retries :: pool
  ad_search_jobs :: pool
  ad_search_queue :: pool
  ad_udp_search_queue :: pool
  ad_udp_search_shed :: u64
  ad_tcp_search_shed :: u64
  ad_search_wait_max_ms :: u64
  ad_search_wait_last_ms :: u64
  ad_retry_pairs :: "retry_key list"
  ad_retries_coalesced :: u64
  ad_clients_held :: u32
  ad_clients_rejected :: u64
  ad_push :: push_stats
  ad_relay_rejected :: u64
  ad_probe_shed_lowid :: u64
  ad_udp :: udp_budget
  ad_saturated_since :: "u64 list"
  ad_last_rejection :: u64

definition admission_new :: "admission_config \<Rightarrow> u32 \<Rightarrow> nat \<Rightarrow> admission" where
  "admission_new c max_clients now = \<lparr>
     ad_cfg = c, ad_open_tcp = pool_new (effective_open_tcp max_clients c),
     ad_pending_login = pool_new (max_pending_logins c), ad_pending_per_source = [],
     ad_pending_source_rejected = 0, ad_probes = pool_new (effective_probes c),
     ad_retries = pool_new (max_retry_tasks c), ad_search_jobs = pool_new (max_search_jobs c),
     ad_search_queue = pool_new (max_queued_tcp_searches c),
     ad_udp_search_queue = pool_new (max_queued_udp_searches c), ad_udp_search_shed = 0,
     ad_tcp_search_shed = 0, ad_search_wait_max_ms = 0, ad_search_wait_last_ms = 0,
     ad_retry_pairs = [], ad_retries_coalesced = 0, ad_clients_held = 0, ad_clients_rejected = 0,
     ad_push = push_stats_default, ad_relay_rejected = 0, ad_probe_shed_lowid = 0,
     ad_udp = ub_new c now, ad_saturated_since = replicate 3 0, ad_last_rejection = 0\<rparr>"

section \<open>Pending logins\<close>

text \<open>The share of a source: claimed under its entry lock, and on drop first decremented and
  then, in a second access, removed when it is zero.\<close>

definition share_claim :: "ip_addr \<Rightarrow> u64 \<Rightarrow> admission \<Rightarrow> bool \<times> admission" where
  "share_claim key now a =
     (let n = (case map_of (ad_pending_per_source a) key of Some n \<Rightarrow> n | None \<Rightarrow> 0)
      in if n \<ge> max_pending_logins_per_source (ad_cfg a)
         then (False, a\<lparr>ad_pending_per_source := AList.update key n (ad_pending_per_source a),
                        ad_pending_source_rejected := ad_pending_source_rejected a + 1,
                        ad_last_rejection := now\<rparr>)
         else (True, a\<lparr>ad_pending_per_source := AList.update key (n + 1) (ad_pending_per_source a)\<rparr>))"

definition share_cleanup :: "ip_addr \<Rightarrow> admission \<Rightarrow> admission" where
  "share_cleanup key a =
     (if map_of (ad_pending_per_source a) key = Some 0
      then a\<lparr>ad_pending_per_source := AList.delete key (ad_pending_per_source a)\<rparr> else a)"

definition share_decrement :: "ip_addr \<Rightarrow> admission \<Rightarrow> admission" where
  "share_decrement key a =
     (case map_of (ad_pending_per_source a) key of
        Some n \<Rightarrow> a\<lparr>ad_pending_per_source := AList.update key (sat_sub n 1) (ad_pending_per_source a)\<rparr>
      | None \<Rightarrow> a)"

definition share_drop :: "ip_addr option \<Rightarrow> admission \<Rightarrow> admission" where
  "share_drop s a = (case s of Some key \<Rightarrow> share_cleanup key (share_decrement key a) | None \<Rightarrow> a)"

definition take_pending_permit :: "u64 \<Rightarrow> admission \<Rightarrow> bool \<times> admission" where
  "take_pending_permit now a =
     (let (ok, p, last) = pool_try_take now (ad_pending_login a, ad_last_rejection a)
      in (ok, a\<lparr>ad_pending_login := p, ad_last_rejection := last\<rparr>))"

datatype pending_refusal = PendingPerSource | PendingPool

definition source_of :: "ip_addr \<Rightarrow> admission \<Rightarrow> ip_addr" where
  "source_of ip a = as_ip (source_key_of ip (ipv6_source_prefix_bits (ad_cfg a)))"

text \<open>The guard of an admitted socket is the source whose share it holds, if any.\<close>

definition try_pending :: "ip_addr \<Rightarrow> u64 \<Rightarrow> admission \<Rightarrow> (pending_refusal + ip_addr option) \<times> admission" where
  "try_pending ip now a =
     (let (ok, source, a) =
        (if is_loopback ip then (True, None, a)
         else let key = source_of ip a; (ok, a) = share_claim key now a
              in (ok, Some key, if ok then a else share_cleanup key a))
      in if \<not> ok then (Inl PendingPerSource, a)
         else let (got, a) = take_pending_permit now a
              in if got then (Inr source, a) else (Inl PendingPool, share_drop source a))"

definition drop_pending :: "ip_addr option \<Rightarrow> admission \<Rightarrow> admission" where
  "drop_pending s a = share_drop s (a\<lparr>ad_pending_login := pool_release (ad_pending_login a)\<rparr>)"

section \<open>Hole-punch retries\<close>

datatype retry_skip = Coalesced | Busy

definition release_pair :: "retry_key \<Rightarrow> admission \<Rightarrow> admission" where
  "release_pair key a = a\<lparr>ad_retry_pairs := removeAll key (ad_retry_pairs a)\<rparr>"

definition claim_pair :: "retry_key \<Rightarrow> admission \<Rightarrow> bool \<times> admission" where
  "claim_pair key a =
     (if key \<in> set (ad_retry_pairs a) then (False, a\<lparr>ad_retries_coalesced := ad_retries_coalesced a + 1\<rparr>)
      else (True, a\<lparr>ad_retry_pairs := key # ad_retry_pairs a\<rparr>))"

definition take_retry_permit :: "u64 \<Rightarrow> admission \<Rightarrow> bool \<times> admission" where
  "take_retry_permit now a =
     (let (ok, p, last) = pool_try_take now (ad_retries a, ad_last_rejection a)
      in (ok, a\<lparr>ad_retries := p, ad_last_rejection := last\<rparr>))"

definition try_retry :: "bytes \<Rightarrow> u32 \<Rightarrow> u64 \<Rightarrow> admission \<Rightarrow> (retry_skip + retry_key) \<times> admission" where
  "try_retry requester target_id now a =
     (let key = (requester, target_id); (fresh, a) = claim_pair key a
      in if \<not> fresh then (Inl Coalesced, a)
         else let (got, a) = take_retry_permit now a
              in if got then (Inr key, a) else (Inl Busy, release_pair key a))"

definition drop_retry :: "retry_key \<Rightarrow> admission \<Rightarrow> admission" where
  "drop_retry key a = (release_pair key a)\<lparr>ad_retries := pool_release (ad_retries a)\<rparr>"

section \<open>Search permits\<close>

definition note_search_wait :: "u64 \<Rightarrow> admission \<Rightarrow> admission" where
  "note_search_wait ms a = a\<lparr>ad_search_wait_last_ms := ms, ad_search_wait_max_ms := max (ad_search_wait_max_ms a) ms\<rparr>"

definition take_job_now :: "admission \<Rightarrow> bool \<times> admission" where
  "take_job_now a =
     (if pl_available (ad_search_jobs a) > 0
      then (True, a\<lparr>ad_search_jobs := (ad_search_jobs a)\<lparr>pl_available := pl_available (ad_search_jobs a) - 1\<rparr>\<rparr>)
      else (False, a))"

definition take_job_within :: "u64 \<Rightarrow> bool \<Rightarrow> admission \<Rightarrow> bool \<times> admission" where
  "take_job_within now in_time a =
     (let (ok, p, last) = pool_take_within now in_time (ad_search_jobs a, ad_last_rejection a)
      in (ok, a\<lparr>ad_search_jobs := p, ad_last_rejection := last\<rparr>))"

text \<open>A TCP search before its wait: a job at once, a place in the queue, or shed.\<close>

datatype search_ticket = Ready | Waiting

definition tcp_search_enter :: "u64 \<Rightarrow> admission \<Rightarrow> search_ticket option \<times> admission" where
  "tcp_search_enter now a =
     (let (got, a) = take_job_now a
      in if got then (Some Ready, note_search_wait 0 a)
         else let (queued, p, last) = pool_try_take now (ad_search_queue a, ad_last_rejection a);
                  a = a\<lparr>ad_search_queue := p, ad_last_rejection := last\<rparr>
              in if queued then (Some Waiting, a)
                 else (None, a\<lparr>ad_tcp_search_shed := ad_tcp_search_shed a + 1\<rparr>))"

text \<open>... and the end of its wait after \<open>elapsed_ms\<close>; its place in the queue is given back.\<close>

definition tcp_search_finish_wait :: "u64 \<Rightarrow> bool \<Rightarrow> u64 \<Rightarrow> admission \<Rightarrow> bool \<times> admission" where
  "tcp_search_finish_wait now in_time elapsed_ms a =
     (let (got, a) = take_job_within now in_time a; a = note_search_wait elapsed_ms a;
          a = (if got then a else a\<lparr>ad_tcp_search_shed := ad_tcp_search_shed a + 1\<rparr>)
      in (got, a\<lparr>ad_search_queue := pool_release (ad_search_queue a)\<rparr>))"

definition udp_search_admit :: "u64 \<Rightarrow> admission \<Rightarrow> search_ticket option \<times> admission" where
  "udp_search_admit now a =
     (let (got, a) = take_job_now a
      in if got then (Some Ready, a)
         else let (queued, p, last) = pool_try_take now (ad_udp_search_queue a, ad_last_rejection a);
                  a = a\<lparr>ad_udp_search_queue := p, ad_last_rejection := last\<rparr>
              in if queued then (Some Waiting, a)
                 else (None, a\<lparr>ad_udp_search_shed := ad_udp_search_shed a + 1\<rparr>))"

definition udp_search_wait :: "search_ticket \<Rightarrow> u64 \<Rightarrow> bool \<Rightarrow> admission \<Rightarrow> bool \<times> admission" where
  "udp_search_wait ticket now in_time a =
     (case ticket of
        Ready \<Rightarrow> (True, a)
      | Waiting \<Rightarrow>
          let (got, a) = take_job_within now in_time a;
              a = (if got then a else a\<lparr>ad_udp_search_shed := ad_udp_search_shed a + 1\<rparr>)
          in (got, a\<lparr>ad_udp_search_queue := pool_release (ad_udp_search_queue a)\<rparr>))"

text \<open>\<open>run_search\<close>: the job's permit comes back when the computation has ended, by a result or
  by a panic (\<open>None\<close>).\<close>

definition run_search :: "(unit \<Rightarrow> 'r option) \<Rightarrow> admission \<Rightarrow> 'r option \<times> admission" where
  "run_search f a = (f (), a\<lparr>ad_search_jobs := pool_release (ad_search_jobs a)\<rparr>)"

section \<open>Counters and readiness\<close>

definition note_relay_rejected :: "u64 \<Rightarrow> admission \<Rightarrow> admission" where
  "note_relay_rejected now a = a\<lparr>ad_relay_rejected := ad_relay_rejected a + 1, ad_last_rejection := now\<rparr>"

definition note_probe_shed :: "admission \<Rightarrow> admission" where
  "note_probe_shed a = a\<lparr>ad_probe_shed_lowid := ad_probe_shed_lowid a + 1\<rparr>"

definition CRITICAL :: "string list" where
  "CRITICAL = [''open_tcp'', ''pending_login'', ''search_jobs'']"

definition critical_pool :: "admission \<Rightarrow> nat \<Rightarrow> pool" where
  "critical_pool a i = (if i = 0 then ad_open_tcp a else if i = 1 then ad_pending_login a else ad_search_jobs a)"

text \<open>One sample of one pool: \<open>compare_exchange(0, now)\<close> when it is full, \<open>store(0)\<close> otherwise.\<close>

definition sample_slot :: "u64 \<Rightarrow> bool \<Rightarrow> u64 \<Rightarrow> u64" where
  "sample_slot now full since = (if full then if since = 0 then now else since else 0)"

definition sample :: "u64 \<Rightarrow> admission \<Rightarrow> admission" where
  "sample now a =
     a\<lparr>ad_saturated_since :=
         map (\<lambda>i. sample_slot now (pool_is_full (critical_pool a i)) (ad_saturated_since a ! i)) [0..<length CRITICAL]\<rparr>"

definition readiness :: "u64 \<Rightarrow> admission \<Rightarrow> bool \<times> string list" where
  "readiness now a =
     (let window = sat_mul (readiness_window_secs (ad_cfg a)) 1000;
          stuck = map (\<lambda>i. CRITICAL ! i)
            (filter (\<lambda>i. let t = ad_saturated_since a ! i in t \<noteq> 0 \<and> sat_sub now t \<ge> window) [0..<length CRITICAL])
      in (stuck = [], stuck))"

definition ms_since_last_rejection :: "u64 \<Rightarrow> admission \<Rightarrow> u64 option" where
  "ms_since_last_rejection now a =
     (if ad_last_rejection a = 0 then None else Some (sat_sub now (ad_last_rejection a)))"

definition admission_udp_admit :: "u64 \<Rightarrow> ip_addr \<Rightarrow> u32 \<Rightarrow> nat \<Rightarrow> admission \<Rightarrow> bool \<times> admission" where
  "admission_udp_admit now_ms ip cost now a =
     (let (serve, b, last) = udp_admit now_ms ip cost now (ad_udp a, ad_last_rejection a)
      in (serve, a\<lparr>ad_udp := b, ad_last_rejection := last\<rparr>))"


section \<open>Pending logins under interleaving\<close>

text \<open>Where a socket's setup is between its atomic accesses: a share claimed and the permit not
  yet asked for, admitted, leaving (permit given back, share not), or about to clean up.\<close>

datatype pending_thread =
    Claimed "ip_addr option" | Admitted "ip_addr option" | Leaving "ip_addr option" | Cleaning ip_addr

abbreviation same_pending :: "admission \<Rightarrow> admission \<Rightarrow> bool" where
  "same_pending a a' \<equiv> ad_cfg a' = ad_cfg a \<and> ad_pending_login a' = ad_pending_login a \<and>
     ad_pending_per_source a' = ad_pending_per_source a"

inductive pending_step :: "admission \<times> pending_thread multiset \<Rightarrow> admission \<times> pending_thread multiset \<Rightarrow> bool" where
  claim: "\<not> is_loopback ip \<Longrightarrow> share_claim (source_of ip a) now a = (True, a') \<Longrightarrow>
    pending_step (a, T) (a', add_mset (Claimed (Some (source_of ip a))) T)"
| claim_refused: "\<not> is_loopback ip \<Longrightarrow> share_claim (source_of ip a) now a = (False, a') \<Longrightarrow>
    pending_step (a, T) (a', add_mset (Cleaning (source_of ip a)) T)"
| claim_loopback: "is_loopback ip \<Longrightarrow> pending_step (a, T) (a, add_mset (Claimed None) T)"
| permit: "take_pending_permit now a = (True, a') \<Longrightarrow>
    pending_step (a, add_mset (Claimed s) T) (a', add_mset (Admitted s) T)"
| permit_refused: "take_pending_permit now a = (False, a') \<Longrightarrow>
    pending_step (a, add_mset (Claimed s) T) (a', add_mset (Leaving s) T)"
| leave: "pending_step (a, add_mset (Admitted s) T)
    (a\<lparr>ad_pending_login := pool_release (ad_pending_login a)\<rparr>, add_mset (Leaving s) T)"
| decrement: "pending_step (a, add_mset (Leaving (Some k)) T) (share_decrement k a, add_mset (Cleaning k) T)"
| no_share: "pending_step (a, add_mset (Leaving None) T) (a, T)"
| cleanup: "pending_step (a, add_mset (Cleaning k) T) (share_cleanup k a, T)"
| other: "same_pending a a' \<Longrightarrow> pending_step (a, T) (a', T)"

text \<open>The operations as they are called are runs of these steps.\<close>

lemma share_drop_run: "pending_step\<^sup>*\<^sup>* (a, add_mset (Leaving s) T) (share_drop s a, T)"
proof (cases s)
  case None
  then show ?thesis by (simp add: share_drop_def pending_step.no_share r_into_rtranclp)
next
  case (Some k)
  have "pending_step (a, add_mset (Leaving (Some k)) T) (share_decrement k a, add_mset (Cleaning k) T)"
    by (rule pending_step.decrement)
  moreover have "pending_step (share_decrement k a, add_mset (Cleaning k) T) (share_cleanup k (share_decrement k a), T)"
    by (rule pending_step.cleanup)
  ultimately show ?thesis by (auto simp: Some share_drop_def)
qed

lemma take_permit_run:
  assumes "take_pending_permit now a = (got, a')"
  shows "pending_step\<^sup>*\<^sup>* (a, add_mset (Claimed s) T)
    (if got then (a', add_mset (Admitted s) T) else (share_drop s a', T))"
proof (cases got)
  case True
  then show ?thesis using assms pending_step.permit by (auto intro: r_into_rtranclp)
next
  case False
  then have "pending_step (a, add_mset (Claimed s) T) (a', add_mset (Leaving s) T)"
    using assms pending_step.permit_refused by simp
  then show ?thesis using share_drop_run [of a' s T] False by (simp add: converse_rtranclp_into_rtranclp)
qed

lemma try_pending_run:
  assumes "try_pending ip now a = (r, a')"
  shows "pending_step\<^sup>*\<^sup>* (a, T) (a', case r of Inr s \<Rightarrow> add_mset (Admitted s) T | Inl _ \<Rightarrow> T)"
proof (cases "is_loopback ip")
  case True
  obtain got a1 where tk: "take_pending_permit now a = (got, a1)" by force
  have eq: "a' = (if got then a1 else share_drop None a1)" "r = (if got then Inr None else Inl PendingPool)"
    using assms True tk by (auto simp: try_pending_def)
  show ?thesis
    using take_permit_run [OF tk, of None T] pending_step.claim_loopback [OF True, of a T]
    by (auto simp: eq intro: converse_rtranclp_into_rtranclp split: if_splits)
next
  case False
  obtain ok a1 where cl: "share_claim (source_of ip a) now a = (ok, a1)" by force
  show ?thesis
  proof (cases ok)
    case True
    obtain got a2 where tk: "take_pending_permit now a1 = (got, a2)" by force
    have eq: "a' = (if got then a2 else share_drop (Some (source_of ip a)) a2)"
        "r = (if got then Inr (Some (source_of ip a)) else Inl PendingPool)"
      using assms False True tk cl by (auto simp: try_pending_def Let_def)
    show ?thesis
      using take_permit_run [OF tk, of "Some (source_of ip a)" T] pending_step.claim [OF False, of a now a1 T] cl True
      by (auto simp: eq intro: converse_rtranclp_into_rtranclp split: if_splits)
  next
    case refused: False
    have eq: "a' = share_cleanup (source_of ip a) a1" "r = Inl PendingPerSource"
      using assms False refused cl by (auto simp: try_pending_def Let_def)
    have "pending_step (a, T) (a1, add_mset (Cleaning (source_of ip a)) T)"
      using pending_step.claim_refused [OF False] cl refused by simp
    then show ?thesis using pending_step.cleanup [of a1 "source_of ip a" T] by (simp add: eq)
  qed
qed

lemma drop_pending_run: "pending_step\<^sup>*\<^sup>* (a, add_mset (Admitted s) T) (drop_pending s a, T)"
  using pending_step.leave [of a s T] share_drop_run by (auto simp: drop_pending_def intro: converse_rtranclp_into_rtranclp)

text \<open>The accounting invariant.\<close>

definition holders :: "ip_addr \<Rightarrow> pending_thread multiset \<Rightarrow> nat" where
  "holders k T = count T (Claimed (Some k)) + count T (Admitted (Some k)) + count T (Leaving (Some k))"

fun is_admitted :: "pending_thread \<Rightarrow> bool" where
  "is_admitted (Admitted _) = True"
| "is_admitted _ = False"

definition admitted :: "pending_thread multiset \<Rightarrow> nat" where
  "admitted T = size (filter_mset is_admitted T)"

lemma holders_simps [simp]:
  "holders k {#} = 0"
  "holders k (add_mset (Claimed s) T) = holders k T + (if s = Some k then 1 else 0)"
  "holders k (add_mset (Admitted s) T) = holders k T + (if s = Some k then 1 else 0)"
  "holders k (add_mset (Leaving s) T) = holders k T + (if s = Some k then 1 else 0)"
  "holders k (add_mset (Cleaning k') T) = holders k T"
  by (auto simp: holders_def)

lemma admitted_simps [simp]:
  "admitted {#} = 0" "admitted (add_mset t T) = admitted T + (if is_admitted t then 1 else 0)"
  by (simp_all add: admitted_def)

definition share_ok :: "admission \<Rightarrow> pending_thread multiset \<Rightarrow> ip_addr \<Rightarrow> bool" where
  "share_ok a T k \<longleftrightarrow>
     (case map_of (ad_pending_per_source a) k of
        None \<Rightarrow> holders k T = 0
      | Some n \<Rightarrow> unat n = holders k T \<and> n \<le> max_pending_logins_per_source (ad_cfg a) \<and> (n = 0 \<longrightarrow> Cleaning k \<in># T))"

definition pending_ok :: "admission_config \<Rightarrow> admission \<times> pending_thread multiset \<Rightarrow> bool" where
  "pending_ok c = (\<lambda>(a, T). ad_cfg a = c \<and> distinct (map fst (ad_pending_per_source a)) \<and> (\<forall>k. share_ok a T k) \<and>
     pl_available (ad_pending_login a) + admitted T = unat (max_pending_logins c))"

lemma unat_inc_less:
  fixes n m :: "'a::len word"
  assumes "n < m"
  shows "unat (n + 1) = unat n + 1"
proof -
  have "unat n + 1 \<le> unat m" using assms by (simp add: word_less_nat_alt)
  then have "unat n + 1 < 2 ^ LENGTH('a)" using unsigned_less [of m] by (meson le_less_trans)
  then show ?thesis by (simp add: unat_word_ariths)
qed

lemma share_ok_cong:
  "map_of (ad_pending_per_source a') k = map_of (ad_pending_per_source a) k \<Longrightarrow> ad_cfg a' = ad_cfg a \<Longrightarrow>
   holders k T' = holders k T \<Longrightarrow> (Cleaning k \<in># T \<Longrightarrow> Cleaning k \<in># T') \<Longrightarrow> share_ok a T k \<Longrightarrow> share_ok a' T' k"
  by (auto simp: share_ok_def split: option.splits)

lemma claim_ok:
  assumes "share_claim key now a = (True, a')" and "pending_ok c (a, T)"
  shows "pending_ok c (a', add_mset (Claimed (Some key)) T)"
proof -
  define n where "n = (case map_of (ad_pending_per_source a) key of Some n \<Rightarrow> n | None \<Rightarrow> 0)"
  have lt: "n < max_pending_logins_per_source (ad_cfg a)"
    and a': "a' = a\<lparr>ad_pending_per_source := AList.update key (n + 1) (ad_pending_per_source a)\<rparr>"
    using assms(1) by (auto simp: share_claim_def n_def [symmetric] Let_def split: if_splits)
  have ok: "share_ok a T k" for k using assms(2) by (simp add: pending_ok_def)
  have n: "unat n = holders key T" using ok [of key] by (auto simp: share_ok_def n_def split: option.splits)
  have new: "unat (n + 1) = holders key T + 1" "n + 1 \<le> max_pending_logins_per_source (ad_cfg a)" "n + 1 \<noteq> 0"
    using unat_inc_less [OF lt] n inc_le [OF lt] by (auto simp flip: unsigned_eq_0_iff)
  have "share_ok a' (add_mset (Claimed (Some key)) T) k" for k
  proof (cases "k = key")
    case True
    then show ?thesis using new by (simp add: share_ok_def a' update_conv')
  next
    case False
    then show ?thesis by (intro share_ok_cong [OF _ _ _ _ ok [of k]]) (auto simp: a' update_conv')
  qed
  then have "\<forall>k. share_ok a' (add_mset (Claimed (Some key)) T) k" by blast
  then show ?thesis using assms(2) by (simp add: pending_ok_def a' distinct_update)
qed

lemma claim_refused_ok:
  assumes "share_claim key now a = (False, a')" and "pending_ok c (a, T)"
  shows "pending_ok c (a', add_mset (Cleaning key) T)"
proof -
  have ok: "share_ok a T k" for k using assms(2) by (simp add: pending_ok_def)
  have upd: "ad_pending_per_source a' = AList.update key
      (case map_of (ad_pending_per_source a) key of Some n \<Rightarrow> n | None \<Rightarrow> 0) (ad_pending_per_source a)"
    and same: "ad_cfg a' = ad_cfg a" "ad_pending_login a' = ad_pending_login a"
    using assms(1) by (auto simp: share_claim_def Let_def split: if_splits)
  have "share_ok a' (add_mset (Cleaning key) T) k" for k
    using ok [of k] by (auto simp: share_ok_def upd same update_conv' split: option.splits)
  then have "\<forall>k. share_ok a' (add_mset (Cleaning key) T) k" by blast
  then show ?thesis using assms(2) by (simp add: pending_ok_def upd same distinct_update)
qed

lemma cleanup_ok:
  assumes "pending_ok c (a, add_mset (Cleaning key) T)"
  shows "pending_ok c (share_cleanup key a, T)"
proof -
  have ok: "share_ok a (add_mset (Cleaning key) T) k" for k using assms by (simp add: pending_ok_def)
  have d: "distinct (map fst (ad_pending_per_source a))" using assms by (simp add: pending_ok_def)
  have "share_ok (share_cleanup key a) T k" for k
    using ok [of k] by (auto simp: share_ok_def share_cleanup_def AList.delete_conv' split: option.splits if_splits)
  then have "\<forall>k. share_ok (share_cleanup key a) T k" by blast
  then show ?thesis using assms by (auto simp: pending_ok_def share_cleanup_def distinct_delete split: if_splits)
qed

lemma decrement_ok:
  assumes "pending_ok c (a, add_mset (Leaving (Some key)) T)"
  shows "pending_ok c (share_decrement key a, add_mset (Cleaning key) T)"
proof -
  have ok: "share_ok a (add_mset (Leaving (Some key)) T) k" for k using assms by (simp add: pending_ok_def)
  obtain n where m: "map_of (ad_pending_per_source a) key = Some n" and n: "unat n = holders key T + 1"
      and le: "n \<le> max_pending_logins_per_source (ad_cfg a)"
    using ok [of key] by (auto simp: share_ok_def split: option.splits)
  have dec: "unat (sat_sub n 1) = holders key T" using n by (simp add: unat_sat_sub)
  have "unat (sat_sub n 1) \<le> unat n" by (simp add: unat_sat_sub)
  then have le': "sat_sub n 1 \<le> max_pending_logins_per_source (ad_cfg a)" using le by (simp add: word_le_nat_alt)
  have "share_ok (share_decrement key a) (add_mset (Cleaning key) T) k" for k
  proof (cases "k = key")
    case True
    then show ?thesis using dec le' by (simp add: share_ok_def share_decrement_def m update_conv')
  next
    case False
    then show ?thesis
      by (intro share_ok_cong [OF _ _ _ _ ok [of k]]) (auto simp: share_decrement_def m update_conv')
  qed
  then have "\<forall>k. share_ok (share_decrement key a) (add_mset (Cleaning key) T) k" by blast
  then show ?thesis using assms by (simp add: pending_ok_def share_decrement_def m distinct_update)
qed

lemma pending_ok_frame:
  assumes "pending_ok c (a, T)" and "ad_cfg a' = ad_cfg a" and "ad_pending_per_source a' = ad_pending_per_source a"
    and "\<And>k. holders k T' = holders k T" and "\<And>k. Cleaning k \<in># T \<Longrightarrow> Cleaning k \<in># T'"
    and "pl_available (ad_pending_login a') + admitted T' = pl_available (ad_pending_login a) + admitted T"
  shows "pending_ok c (a', T')"
proof -
  have "share_ok a' T' k" for k
    by (rule share_ok_cong [where a = a and T = T]) (use assms in \<open>auto simp: pending_ok_def\<close>)
  then have "\<forall>k. share_ok a' T' k" by blast
  then show ?thesis using assms(1-3,6) by (simp add: pending_ok_def)
qed

lemma permit_ok:
  assumes "take_pending_permit now a = (got, a')" and "pending_ok c (a, add_mset (Claimed s) T)"
  shows "pending_ok c (a', add_mset (if got then Admitted s else Leaving s) T)"
  by (rule pending_ok_frame [OF assms(2)])
    (use assms(1) in \<open>auto simp: take_pending_permit_def pool_try_take_def pool_note_rejected_def split: if_splits\<close>)

lemma pending_step_ok: "pending_step x y \<Longrightarrow> pending_ok c x \<Longrightarrow> pending_ok c y"
proof (induction rule: pending_step.induct)
  case (claim ip a now a' T)
  show ?case by (rule claim_ok [OF claim.hyps(2) claim.prems])
next
  case (claim_refused ip a now a' T)
  show ?case by (rule claim_refused_ok [OF claim_refused.hyps(2) claim_refused.prems])
next
  case (claim_loopback ip a T)
  show ?case by (rule pending_ok_frame [OF claim_loopback.prems]) auto
next
  case (permit now a a' s T)
  then show ?case using permit_ok [of now a True a' c s T] by simp
next
  case (permit_refused now a a' s T)
  then show ?case using permit_ok [of now a False a' c s T] by simp
next
  case (leave a s T)
  show ?case by (rule pending_ok_frame [OF leave.prems]) (auto simp: pool_release_def)
next
  case (decrement a k T)
  then show ?case by (rule decrement_ok)
next
  case (no_share a T)
  show ?case by (rule pending_ok_frame [OF no_share.prems]) auto
next
  case (cleanup a k T)
  then show ?case by (rule cleanup_ok)
next
  case (other a a' T)
  show ?case by (rule pending_ok_frame [OF other.prems]) (use other.hyps in auto)
qed

lemma pending_reachable_ok:
  assumes "pending_step\<^sup>*\<^sup>* (admission_new c mc t, {#}) x"
  shows "pending_ok c x"
  using assms
proof (induction rule: rtranclp_induct)
  case base
  show ?case by (simp add: pending_ok_def admission_new_def share_ok_def pool_new_def)
next
  case (step y z)
  then show ?case by (blast intro: pending_step_ok)
qed

text \<open>C17: Pending logins never leak and never overshoot, however sockets interleave between the
  atomic accesses: no source ever holds more shares than its limit, no more sockets are
  admitted than the pool has permits, and once every socket is gone the table of sources is
  empty and every permit is back.\<close>

theorem pending_logins_accounted:
  assumes "pending_step\<^sup>*\<^sup>* (admission_new c mc t, {#}) (a, T)"
  shows "holders k T \<le> unat (max_pending_logins_per_source c) \<and> admitted T \<le> unat (max_pending_logins c) \<and>
    (T = {#} \<longrightarrow> ad_pending_per_source a = [] \<and> pl_available (ad_pending_login a) = unat (max_pending_logins c))"
proof -
  have ok: "pending_ok c (a, T)" by (rule pending_reachable_ok [OF assms])
  then have k: "share_ok a T k" and cfg: "ad_cfg a = c" for k by (simp_all add: pending_ok_def)
  have "holders k T \<le> unat (max_pending_logins_per_source c)"
    using k [of k] cfg by (auto simp: share_ok_def word_le_nat_alt split: option.splits)
  moreover have "map_of (ad_pending_per_source a) k = None" if "T = {#}" for k
    using k [of k] that by (auto simp: share_ok_def unsigned_eq_0_iff split: option.splits)
  then have "ad_pending_per_source a = []" if "T = {#}"
    using that by (cases "ad_pending_per_source a") (auto split: if_splits prod.splits, metis map_of_Cons_code(2) option.distinct(1) surj_pair)
  ultimately show ?thesis using ok by (auto simp: pending_ok_def)
qed

theorem pending_logins_accounted_witness:
  "\<exists>a. try_pending (V4 1) 9 (admission_new admission_default 0 0) = (Inr (Some (V4 1)), a) \<and>
     holders (V4 1) {#Admitted (Some (V4 1))#} \<le> unat (max_pending_logins_per_source admission_default)"
proof -
  obtain a where a: "try_pending (V4 1) 9 (admission_new admission_default 0 0) = (Inr (Some (V4 1)), a)"
    by (simp add: try_pending_def source_of_def share_claim_def take_pending_permit_def pool_try_take_def Let_def
        admission_new_def admission_default_def pool_new_def)
  then have "pending_step\<^sup>*\<^sup>* (admission_new admission_default 0 0, {#}) (a, {#Admitted (Some (V4 1))#})"
    using try_pending_run [OF a, of "{#}"] by simp
  then show ?thesis using a pending_logins_accounted by blast
qed


section \<open>Logged-in slots under interleaving\<close>

text \<open>A login between its atomic accesses to the slot counter: it has read \<open>cur\<close>, or it holds a
  slot, by a reservation under the cap or by force. \<open>room\<close> bounds the sessions alive at once:
  each is a task that holds an open-socket permit.\<close>

datatype slot_thread = Reading u32 | Reserved | Forced

definition live_slots :: "slot_thread multiset \<Rightarrow> nat" where
  "live_slots T = count T Reserved + count T Forced"

inductive slot_step :: "u32 \<Rightarrow> nat \<Rightarrow> admission \<times> slot_thread multiset \<Rightarrow> admission \<times> slot_thread multiset \<Rightarrow> bool"
  for max_clients :: u32 and room :: nat where
  load: "slot_step max_clients room (a, T) (a, add_mset (Reading (ad_clients_held a)) T)"
| refuse: "max_clients \<noteq> 0 \<Longrightarrow> cur \<ge> max_clients \<Longrightarrow>
    slot_step max_clients room (a, add_mset (Reading cur) T) (a\<lparr>ad_clients_rejected := ad_clients_rejected a + 1\<rparr>, T)"
| swap: "\<not> (max_clients \<noteq> 0 \<and> cur \<ge> max_clients) \<Longrightarrow> ad_clients_held a = cur \<Longrightarrow> live_slots T < room \<Longrightarrow>
    slot_step max_clients room (a, add_mset (Reading cur) T) (a\<lparr>ad_clients_held := cur + 1\<rparr>, add_mset Reserved T)"
| retry: "\<not> (max_clients \<noteq> 0 \<and> cur \<ge> max_clients) \<Longrightarrow>
    slot_step max_clients room (a, add_mset (Reading cur) T) (a, add_mset (Reading (ad_clients_held a)) T)"
| force: "live_slots T < room \<Longrightarrow>
    slot_step max_clients room (a, T) (a\<lparr>ad_clients_held := ad_clients_held a + 1\<rparr>, add_mset Forced T)"
| release: "t = Reserved \<or> t = Forced \<Longrightarrow>
    slot_step max_clients room (a, add_mset t T) (a\<lparr>ad_clients_held := ad_clients_held a - 1\<rparr>, T)"

inductive_cases slot_stepE: "slot_step mc room (a, T) (a', T')"

lemma live_slots_simps [simp]:
  "live_slots {#} = 0" "live_slots (add_mset (Reading c) T) = live_slots T"
  "live_slots (add_mset Reserved T) = live_slots T + 1" "live_slots (add_mset Forced T) = live_slots T + 1"
  by (simp_all add: live_slots_def)

definition slots_ok :: "u32 \<Rightarrow> nat \<Rightarrow> admission \<times> slot_thread multiset \<Rightarrow> bool" where
  "slots_ok max_clients room = (\<lambda>(a, T). unat (ad_clients_held a) = live_slots T \<and> live_slots T \<le> room \<and>
     (max_clients \<noteq> 0 \<longrightarrow> count T Reserved \<le> unat max_clients))"

lemma unat_pred: "0 < unat n \<Longrightarrow> unat (n - 1) = unat n - 1" for n :: "'a::len word"
  by (metis One_nat_def Suc_leI unat_sub unsigned_1 word_le_nat_alt)

lemma slot_step_ok:
  assumes "slot_step mc room x y" and "slots_ok mc room x" and "room < 2 ^ 32"
  shows "slots_ok mc room y"
  using assms(1) proof cases
  case (swap cur a T)
  have held: "unat (ad_clients_held a) = live_slots T" and res: "mc \<noteq> 0 \<longrightarrow> count T Reserved \<le> unat mc"
    using assms(2) swap by (auto simp: slots_ok_def)
  have "unat (cur + 1) = live_slots T + 1"
    using held swap(4,5) assms(3) by (simp add: unat_word_ariths)
  moreover have "count T Reserved \<le> live_slots T" by (simp add: live_slots_def)
  ultimately show ?thesis
    using held swap by (auto simp: slots_ok_def word_le_nat_alt not_le)
next
  case (force T a)
  then show ?thesis using assms(2,3) by (auto simp: slots_ok_def unat_word_ariths)
next
  case (release t a T)
  then show ?thesis using assms(2) by (auto simp: slots_ok_def unat_pred)
qed (use assms(2) in \<open>auto simp: slots_ok_def\<close>)

text \<open>Concurrent logins cannot overshoot \<open>max_clients\<close>: whatever the interleaving of the
  compare-and-swap loops, of forced reservations and of releases, the counter is the number
  of slots held, and the reservations made under the cap never exceed it.\<close>

theorem client_cap_holds:
  assumes "(slot_step mc room)\<^sup>*\<^sup>* (admission_new c mc t, {#}) (a, T)" and "room < 2 ^ 32"
  shows "unat (ad_clients_held a) = live_slots T \<and> (mc \<noteq> 0 \<longrightarrow> count T Reserved \<le> unat mc)"
proof -
  have "slots_ok mc room (a, T)"
    using assms(1)
  proof (induction rule: rtranclp_induct)
    case base
    show ?case by (simp add: slots_ok_def admission_new_def)
  next
    case (step y z)
    then show ?case using slot_step_ok assms(2) by blast
  qed
  then show ?thesis by (simp add: slots_ok_def)
qed

theorem client_cap_holds_witness:
  "\<exists>a. (slot_step 1 10)\<^sup>*\<^sup>* (admission_new admission_default 1 0, {#}) (a, {#Reserved, Reading 0#}) \<and>
     unat (ad_clients_held a) = live_slots {#Reserved, Reading 0#} \<and> count {#Reserved, Reading 0#} Reserved \<le> unat (1 :: u32)"
proof -
  let ?a0 = "admission_new admission_default 1 0" and ?a1 = "admission_new admission_default 1 0\<lparr>ad_clients_held := 1\<rparr>"
  have h: "ad_clients_held ?a0 = 0" by (simp add: admission_new_def)
  have s1: "slot_step 1 10 (?a0, {#}) (?a0, {#Reading 0#})" using slot_step.load [of 1 10 ?a0 "{#}"] h by simp
  have s2: "slot_step 1 10 (?a0, {#Reading 0#}) (?a0, {#Reading 0, Reading 0#})"
    using slot_step.load [of 1 10 ?a0 "{#Reading 0#}"] h by simp
  have s3: "slot_step 1 10 (?a0, {#Reading 0, Reading 0#}) (?a1, {#Reserved, Reading 0#})"
    using slot_step.swap [of 1 0 ?a0 "{#Reading 0#}" 10] h by simp
  from s1 s2 s3 have run: "(slot_step 1 10)\<^sup>*\<^sup>* (?a0, {#}) (?a1, {#Reserved, Reading 0#})"
    by (blast intro: converse_rtranclp_into_rtranclp)
  show ?thesis using run client_cap_holds [OF run] by (intro exI [of _ ?a1]) simp
qed

section \<open>Readiness\<close>

text \<open>A history of samples: the time of each and the pools as they then were. The run of full
  samples of a pool is what the newest samples agree on.\<close>

definition sampled :: "(u64 \<times> admission) list \<Rightarrow> u64 list" where
  "sampled obs = fold (\<lambda>(t, a) since. ad_saturated_since (sample t (a\<lparr>ad_saturated_since := since\<rparr>))) obs (replicate 3 0)"

definition full_run :: "nat \<Rightarrow> (u64 \<times> admission) list \<Rightarrow> (u64 \<times> admission) list" where
  "full_run i obs = takeWhile (\<lambda>(t, a). pool_is_full (critical_pool a i)) (rev obs)"

lemma full_run_snoc:
  "full_run i [] = []"
  "full_run i (obs @ [(t, a)]) = (if pool_is_full (critical_pool a i) then (t, a) # full_run i obs else [])"
  by (simp_all add: full_run_def)

lemma critical_pool_since: "critical_pool (a\<lparr>ad_saturated_since := s\<rparr>) i = critical_pool a i"
  by (simp add: critical_pool_def)

lemma length_CRITICAL: "length CRITICAL = 3"
  by (simp add: CRITICAL_def)

lemma sampled_snoc:
  "sampled (obs @ [(t, a)]) =
     map (\<lambda>i. sample_slot t (pool_is_full (critical_pool a i)) (sampled obs ! i)) [0..<3]"
  by (simp add: sampled_def sample_def length_CRITICAL critical_pool_since)

lemma full_run_time:
  assumes "\<forall>(t, a)\<in>set obs. t \<noteq> 0" and "full_run i obs \<noteq> []"
  shows "fst (last (full_run i obs)) \<noteq> 0"
proof -
  have "last (full_run i obs) \<in> set obs"
    using last_in_set [OF assms(2)] by (metis full_run_def set_rev set_takeWhileD)
  moreover obtain t a where "last (full_run i obs) = (t, a)" by force
  ultimately show ?thesis using assms(1) by fastforce
qed

lemma sampled_run:
  assumes "\<forall>(t, a)\<in>set obs. t \<noteq> 0" and "i < 3"
  shows "sampled obs ! i = (if full_run i obs = [] then 0 else fst (last (full_run i obs)))"
  using assms(1)
proof (induction obs rule: rev_induct)
  case Nil
  show ?case using assms(2) by (simp add: sampled_def full_run_snoc)
next
  case (snoc x obs)
  obtain t a where x: "x = (t, a)" by force
  have "fst (last (full_run i obs)) \<noteq> 0" if "full_run i obs \<noteq> []"
    using full_run_time [OF _ that] snoc.prems by simp
  then show ?case using snoc assms(2)
    by (auto simp: x sampled_snoc full_run_snoc sample_slot_def)
qed

text \<open>Readiness: a critical pool is reported exactly when the samples end in a run of full ones
  that began at least the configured window ago; a single free sample clears it. The
  server is ready exactly when no pool is reported.\<close>

theorem readiness_reports_stuck_pools:
  assumes "\<forall>(t, a)\<in>set obs. t \<noteq> 0" and "ad_saturated_since a = sampled obs" and "i < 3"
  shows "(CRITICAL ! i \<in> set (snd (readiness now a)) \<longleftrightarrow>
      full_run i obs \<noteq> [] \<and> sat_sub now (fst (last (full_run i obs))) \<ge> sat_mul (readiness_window_secs (ad_cfg a)) 1000) \<and>
    (fst (readiness now a) \<longleftrightarrow> snd (readiness now a) = [])"
proof -
  have inj: "CRITICAL ! i = CRITICAL ! j \<longleftrightarrow> i = j" if "j < 3" for j
    using assms(3) that by (auto simp: CRITICAL_def less_Suc_eq numeral_3_eq_3)
  have "CRITICAL ! i \<in> set (snd (readiness now a)) \<longleftrightarrow>
      ad_saturated_since a ! i \<noteq> 0 \<and> sat_sub now (ad_saturated_since a ! i) \<ge> sat_mul (readiness_window_secs (ad_cfg a)) 1000"
    using inj assms(3) by (auto simp: readiness_def Let_def length_CRITICAL image_iff)
  moreover have "full_run i obs \<noteq> [] \<Longrightarrow> fst (last (full_run i obs)) \<noteq> 0"
    by (rule full_run_time [OF assms(1)])
  ultimately show ?thesis
    using sampled_run [OF assms(1,3)] assms(2) by (auto simp: readiness_def Let_def)
qed

theorem readiness_reports_stuck_pools_witness:
  "CRITICAL ! 0 \<in> set (snd (readiness 40000 (admission_new admission_default 0 0
     \<lparr>ad_saturated_since := sampled [(5000, admission_new admission_default 0 0\<lparr>ad_open_tcp := pool_new 0\<rparr>)]\<rparr>)))"
proof -
  let ?full = "admission_new admission_default 0 0\<lparr>ad_open_tcp := pool_new 0\<rparr>"
  let ?a = "admission_new admission_default 0 0\<lparr>ad_saturated_since := sampled [(5000, ?full)]\<rparr>"
  have run: "full_run 0 [(5000, ?full)] = [(5000, ?full)]"
    by (simp add: full_run_def critical_pool_def pool_is_full_def pool_new_def)
  have w: "readiness_window_secs (ad_cfg ?a) = 30" by (simp add: admission_new_def admission_default_def)
  show ?thesis
    using readiness_reports_stuck_pools [of "[(5000, ?full)]" ?a 0 40000]
    unfolding run w by (simp add: sat_mul_def sat_sub_def)
qed

end
