(* ===== verification/Ip_Filter.thy ===== *)
theory Ip_Filter
  imports Search_Filter "HOL-Library.Product_Lexorder"
begin

text \<open>
  The IP filter (\<open>src/filter/ipfilter.rs\<close>): reading guarding.p2p and ipfilter.dat lines, the
  sorted and merged list of blocked ranges, the lookup that counts its hits, and the report
  that resolves the counters against the file. The content of the file is an argument
  (\<open>None\<close> when it cannot be read).
\<close>

section \<open>Lines\<close>

text \<open>\<open>str::find\<close> of a pattern, as the text before and after its first occurrence, and \<open>rfind\<close> of
  a character likewise for its last.\<close>

fun split_at_str :: "rstr \<Rightarrow> rstr \<Rightarrow> (rstr \<times> rstr) option" where
  "split_at_str p [] = (if p = [] then Some ([], []) else None)"
| "split_at_str p (c # cs) =
     (if starts_with (c # cs) p then Some ([], drop (length p) (c # cs))
      else map_option (\<lambda>(a, b). (c # a, b)) (split_at_str p cs))"

fun split_at_last :: "rchar \<Rightarrow> rstr \<Rightarrow> (rstr \<times> rstr) option" where
  "split_at_last x [] = None"
| "split_at_last x (c # cs) =
     (case split_at_last x cs of
        Some (a, b) \<Rightarrow> Some (c # a, b)
      | None \<Rightarrow> if c = x then Some ([], cs) else None)"

fun octets_to_u32 :: "rstr list \<Rightarrow> u32 \<Rightarrow> u32 option" where
  "octets_to_u32 [] n = Some n"
| "octets_to_u32 (part # parts) n =
     (case parse_u8 part of
        None \<Rightarrow> None
      | Some octet \<Rightarrow> octets_to_u32 parts (push_bit 8 n OR ucast octet))"

definition ip_to_u32 :: "rstr \<Rightarrow> u32 option" where
  "ip_to_u32 s =
     (let parts = split_by (\<lambda>c. c = 46) s
      in if length parts \<noteq> 4 then None else octets_to_u32 parts 0)"

definition pair_of :: "u32 option \<Rightarrow> u32 option \<Rightarrow> (u32 \<times> u32) option" where
  "pair_of a b = (case (a, b) of (Some a, Some b) \<Rightarrow> Some (a, b) | _ \<Rightarrow> None)"

text \<open>The ipfilter.dat form first, then the .p2p form of the whole line.\<close>

definition parse_dat :: "rstr \<Rightarrow> (u32 \<times> u32) option" where
  "parse_dat line =
     (case split_at_str (lit '' - '') line of
        None \<Rightarrow> None
      | Some (start_raw, rest) \<Rightarrow>
          let end_raw = (case split_at_str (lit '' , '') rest of Some (e, _) \<Rightarrow> e | None \<Rightarrow> rest)
          in pair_of (ip_to_u32 (trim start_raw)) (ip_to_u32 (trim end_raw)))"

definition parse_p2p :: "rstr \<Rightarrow> (u32 \<times> u32) option" where
  "parse_p2p line =
     (let range = trim (case split_at_last 58 line of Some (_, r) \<Rightarrow> r | None \<Rightarrow> line)
      in case split_at_last 45 range of
           None \<Rightarrow> None
         | Some (a, b) \<Rightarrow> pair_of (ip_to_u32 (trim a)) (ip_to_u32 (trim b)))"

definition parse_line :: "rstr \<Rightarrow> (u32 \<times> u32) option" where
  "parse_line line = (case parse_dat line of Some r \<Rightarrow> Some r | None \<Rightarrow> parse_p2p line)"

text \<open>\<open>lines\<close>, trimmed, without the empty ones and the comments.\<close>

definition content_lines :: "rstr \<Rightarrow> rstr list" where
  "content_lines s =
     filter (\<lambda>l. l \<noteq> [] \<and> \<not> starts_with l (lit ''#'')) (map trim (split_by (\<lambda>c. c = 10) s))"

section \<open>The filter\<close>

fun merge_into :: "(u32 \<times> u32) \<Rightarrow> (u32 \<times> u32) list \<Rightarrow> (u32 \<times> u32) list" where
  "merge_into (s0, e0) [] = [(s0, e0)]"
| "merge_into (s0, e0) ((s, e) # rest) =
     (if s \<le> sat_add e0 1 then merge_into (s0, max e0 e) rest
      else (s0, e0) # merge_into (s, e) rest)"

definition merge_ranges :: "(u32 \<times> u32) list \<Rightarrow> (u32 \<times> u32) list" where
  "merge_ranges rs = (case rs of [] \<Rightarrow> [] | r # rest \<Rightarrow> merge_into r rest)"

record ip_filter =
  if_ranges :: "(u32 \<times> u32) list"
  if_hits :: "u32 list"

definition ip_filter_default :: ip_filter where
  "ip_filter_default = \<lparr>if_ranges = [], if_hits = []\<rparr>"

definition ip_filter_load :: "bytes option \<Rightarrow> ip_filter" where
  "ip_filter_load file =
     (case file of
        None \<Rightarrow> ip_filter_default
      | Some b \<Rightarrow>
          let ranges = merge_ranges (sort (List.map_filter parse_line (content_lines (from_utf8_lossy b))))
          in \<lparr>if_ranges = ranges, if_hits = replicate (length ranges) 0\<rparr>)"

text \<open>\<open>partition_point\<close> on a partitioned list.\<close>

definition partition_point :: "('a \<Rightarrow> bool) \<Rightarrow> 'a list \<Rightarrow> nat" where
  "partition_point P xs = length (takeWhile P xs)"

definition is_blocked :: "u32 \<Rightarrow> ip_filter \<Rightarrow> bool \<times> ip_filter" where
  "is_blocked n f =
     (if if_ranges f = [] then (False, f)
      else
        let idx = partition_point (\<lambda>(start, _). start \<le> n) (if_ranges f)
        in if idx = 0 then (False, f)
           else if n \<le> snd (if_ranges f ! (idx - 1))
           then (True, if idx - 1 < length (if_hits f)
                       then f\<lparr>if_hits := (if_hits f)[idx - 1 := if_hits f ! (idx - 1) + 1]\<rparr> else f)
           else (False, f))"

definition total_hits :: "ip_filter \<Rightarrow> u64" where
  "total_hits f = sum_list (map ucast (if_hits f))"

section \<open>The report\<close>

record hit_row =
  hr_start :: u32
  hr_end :: u32
  hr_count :: u32
  hr_desc :: rstr

text \<open>The ranges that have hits; a later entry replaces an earlier one of the same range.\<close>

definition needed_counts :: "ip_filter \<Rightarrow> ((u32 \<times> u32) \<times> u32) list" where
  "needed_counts f = rev (filter (\<lambda>(_, c). c > 0)
     (map (\<lambda>i. (if_ranges f ! i, if i < length (if_hits f) then if_hits f ! i else 0)) [0..<length (if_ranges f)]))"

text \<open>\<open>splitn(3, " , ")\<close>: the third piece, if there is one.\<close>

definition description :: "rstr \<Rightarrow> rstr" where
  "description line =
     (case split_at_str (lit '' , '') line of
        None \<Rightarrow> []
      | Some (_, r) \<Rightarrow> (case split_at_str (lit '' , '') r of None \<Rightarrow> [] | Some (_, d) \<Rightarrow> trim d))"

definition report_row :: "((u32 \<times> u32) \<rightharpoonup> u32) \<Rightarrow> rstr \<Rightarrow> hit_row option" where
  "report_row needed line =
     (case parse_line line of
        None \<Rightarrow> None
      | Some (s, e) \<Rightarrow>
          (case needed (s, e) of
             None \<Rightarrow> None
           | Some count \<Rightarrow> Some \<lparr>hr_start = s, hr_end = e, hr_count = count, hr_desc = description line\<rparr>))"

text \<open>The rows, most hits first (the sort is unstable; here equal counts keep the file's order).\<close>

definition hit_report :: "bytes option \<Rightarrow> ip_filter \<Rightarrow> hit_row list" where
  "hit_report file f =
     (if needed_counts f = [] then []
      else case file of
             None \<Rightarrow> []
           | Some b \<Rightarrow>
               sort_key (\<lambda>r. - int (unat (hr_count r)))
                 (List.map_filter (report_row (map_of (needed_counts f))) (content_lines (from_utf8_lossy b))))"

section \<open>Merging\<close>

abbreviation covers :: "(u32 \<times> u32) list \<Rightarrow> u32 \<Rightarrow> bool" where
  "covers rs n \<equiv> \<exists>(s, e)\<in>set rs. s \<le> n \<and> n \<le> e"

text \<open>Starts ascend and the ranges do not touch.\<close>

definition gapped :: "(u32 \<times> u32) list \<Rightarrow> bool" where
  "gapped rs \<longleftrightarrow> sorted_wrt (\<lambda>r r'. fst r \<le> fst r' \<and> sat_add (snd r) 1 < fst r') rs"

lemma merge_into_covers:
  assumes "sorted (map fst (r # rs))"
  shows "covers (merge_into r rs) n \<longleftrightarrow> covers (r # rs) n"
  using assms
proof (induction r rs rule: merge_into.induct)
  case (2 s0 e0 s e rest)
  have le: "s0 \<le> s" and srt: "sorted (map fst ((s, e) # rest))" "sorted (map fst ((s0, max e0 e) # rest))"
    using "2.prems" by auto
  show ?case
  proof (cases "s \<le> sat_add e0 1")
    case True
    have "s0 \<le> n \<and> n \<le> max e0 e \<longleftrightarrow> (s0 \<le> n \<and> n \<le> e0) \<or> (s \<le> n \<and> n \<le> e)"
    proof -
      have "s \<le> n" if "n \<le> e" "\<not> n \<le> e0" "s0 \<le> n"
      proof -
        have "unat s \<le> unat e0 + 1" using True by (simp add: word_le_nat_alt unat_sat_add)
        then show ?thesis using that by (simp add: word_le_nat_alt)
      qed
      then show ?thesis using le by (auto simp: le_max_iff_disj)
    qed
    then show ?thesis using "2.IH"(1) [OF True srt(2)] True by auto
  next
    case False
    then show ?thesis using "2.IH"(2) [OF False srt(1)] by auto
  qed
qed simp

lemma merge_into_gapped:
  assumes "sorted (map fst (r # rs))"
  shows "gapped (merge_into r rs) \<and> (\<forall>r'\<in>set (merge_into r rs). fst r \<le> fst r')"
  using assms
proof (induction r rs rule: merge_into.induct)
  case (1 s0 e0)
  then show ?case by (simp add: gapped_def)
next
  case (2 s0 e0 s e rest)
  have le: "s0 \<le> s" and srt: "sorted (map fst ((s, e) # rest))" "sorted (map fst ((s0, max e0 e) # rest))"
    using "2.prems" by auto
  show ?case
  proof (cases "s \<le> sat_add e0 1")
    case True
    then show ?thesis using "2.IH"(1) [OF True srt(2)] by simp
  next
    case False
    then show ?thesis using "2.IH"(2) [OF False srt(1)] le
      by (auto simp: gapped_def not_le intro: order_trans less_le_trans)
  qed
qed

lemma merge_ranges_ok:
  assumes "sorted (map fst rs)"
  shows "gapped (merge_ranges rs)" and "covers (merge_ranges rs) n \<longleftrightarrow> covers rs n"
  using merge_into_covers [of "hd rs" "tl rs" n] merge_into_gapped [of "hd rs" "tl rs"] assms
  by (cases rs; simp add: merge_ranges_def gapped_def)+

lemma sorted_fst_sort: "sorted (map fst (sort (xs :: (u32 \<times> u32) list)))"
proof -
  have "sorted ys \<Longrightarrow> sorted (map fst ys)" for ys :: "(u32 \<times> u32) list"
    by (induction ys) (auto simp: less_eq_prod_def)
  then show ?thesis by simp
qed

section \<open>Lookup\<close>

lemma takeWhile_gapped:
  assumes "gapped rs" and "r \<in> set rs" and "fst r \<le> n"
  shows "r \<in> set (takeWhile (\<lambda>(start, _). start \<le> n) rs)"
  using assms
proof (induction rs)
  case (Cons x xs)
  have "fst x \<le> n" using Cons.prems by (auto simp: gapped_def intro: order_trans)
  then show ?case using Cons by (auto simp: gapped_def split: prod.splits)
qed simp

text \<open>Only the last range that starts at or before the address can contain it.\<close>

lemma last_start_decides:
  assumes "gapped rs" and "takeWhile (\<lambda>(start, _). start \<le> n) rs = ys @ [r]"
  shows "covers rs n \<longleftrightarrow> n \<le> snd r"
proof
  have r: "r \<in> set rs" "fst r \<le> n"
    using assms(2) set_takeWhileD [of r "\<lambda>(start, _). start \<le> n" rs] by (auto split: prod.splits)
  { assume "n \<le> snd r" then show "covers rs n" using r by force }
  assume "covers rs n"
  then obtain s e where se: "(s, e) \<in> set rs" "s \<le> n" "n \<le> e" by auto
  then have "(s, e) \<in> set (ys @ [r])" using takeWhile_gapped [OF assms(1), of "(s, e)" n] assms(2) by simp
  moreover have "gapped (ys @ [r])"
  proof -
    obtain zs where "rs = (ys @ [r]) @ zs"
      using takeWhile_dropWhile_id [of "\<lambda>(start, _). start \<le> n" rs] assms(2) by metis
    then show ?thesis using assms(1) by (simp add: gapped_def sorted_wrt_append)
  qed
  moreover have "e < n" if "sat_add e 1 < fst r"
  proof -
    have "unat (sat_add e 1) < unat n" using that r(2) by (simp add: word_less_nat_alt word_le_nat_alt)
    moreover have "unat n < 2 ^ LENGTH(32)" by (rule unsigned_less)
    ultimately show ?thesis by (simp add: word_less_nat_alt unat_sat_add)
  qed
  ultimately show "n \<le> snd r" using se by (auto simp: gapped_def sorted_wrt_append not_le)
qed

lemma is_blocked_iff:
  assumes "gapped (if_ranges f)"
  shows "fst (is_blocked n f) \<longleftrightarrow> covers (if_ranges f) n"
proof (cases "takeWhile (\<lambda>(start, _). start \<le> n) (if_ranges f)" rule: rev_cases)
  case Nil
  then have "\<not> covers (if_ranges f) n" using takeWhile_gapped [OF assms, of _ n] by fastforce
  then show ?thesis using Nil by (simp add: is_blocked_def partition_point_def)
next
  case (snoc ys r)
  have "if_ranges f ! length ys = r"
    using takeWhile_nth [of "length ys" "\<lambda>(start, _). start \<le> n" "if_ranges f"] snoc by simp
  moreover have "if_ranges f \<noteq> []" using snoc by auto
  ultimately show ?thesis
    using last_start_decides [OF assms snoc] snoc by (simp add: is_blocked_def partition_point_def Let_def)
qed

lemma is_blocked_ranges: "if_ranges (snd (is_blocked n f)) = if_ranges f"
  by (simp add: is_blocked_def Let_def)

definition loaded_pairs :: "bytes \<Rightarrow> (u32 \<times> u32) list" where
  "loaded_pairs b = List.map_filter parse_line (content_lines (from_utf8_lossy b))"

lemma load_ranges:
  "gapped (if_ranges (ip_filter_load (Some b)))"
  "covers (if_ranges (ip_filter_load (Some b))) n \<longleftrightarrow> covers (loaded_pairs b) n"
proof -
  note ok = merge_ranges_ok [OF sorted_fst_sort [of "loaded_pairs b"]]
  show "gapped (if_ranges (ip_filter_load (Some b)))"
    using ok(1) by (simp add: ip_filter_load_def Let_def loaded_pairs_def)
  show "covers (if_ranges (ip_filter_load (Some b))) n \<longleftrightarrow> covers (loaded_pairs b) n"
    using ok(2) [of n] by (simp add: ip_filter_load_def Let_def loaded_pairs_def)
qed

text \<open>C27: An address is blocked exactly when some line of the file parses to a range that contains it,
  whatever lookups came before; merging and the binary search lose and add nothing.\<close>

theorem blocked_iff_some_line:
  "fst (is_blocked n (fold (\<lambda>m f. snd (is_blocked m f)) before (ip_filter_load (Some b)))) \<longleftrightarrow>
     (\<exists>l\<in>set (content_lines (from_utf8_lossy b)). \<exists>s e. parse_line l = Some (s, e) \<and> s \<le> n \<and> n \<le> e)"
proof -
  have "if_ranges (fold (\<lambda>m f. snd (is_blocked m f)) before f) = if_ranges f" for f
    by (induction before arbitrary: f) (simp_all add: is_blocked_ranges)
  then have "fst (is_blocked n (fold (\<lambda>m f. snd (is_blocked m f)) before (ip_filter_load (Some b)))) \<longleftrightarrow>
      covers (loaded_pairs b) n"
    using load_ranges(1) [of b] load_ranges(2) [of b n] by (simp add: is_blocked_iff)
  then show ?thesis by (fastforce simp: loaded_pairs_def List.map_filter_def)
qed


section \<open>Hits and the report\<close>

text \<open>Every blocked lookup adds one hit, and only to the range that contains the address.\<close>

lemma is_blocked_hits:
  assumes "gapped (if_ranges f)" and "length (if_hits f) = length (if_ranges f)" and "is_blocked n f = (True, f')"
  shows "\<exists>i<length (if_ranges f). fst (if_ranges f ! i) \<le> n \<and> n \<le> snd (if_ranges f ! i) \<and>
    if_hits f' = (if_hits f)[i := if_hits f ! i + 1]"
proof -
  let ?tw = "takeWhile (\<lambda>(start, _). start \<le> n) (if_ranges f)"
  have ne: "?tw \<noteq> []" and le: "n \<le> snd (if_ranges f ! (length ?tw - 1))"
    using assms(3) by (auto simp: is_blocked_def partition_point_def Let_def split: if_splits)
  have lt: "length ?tw - 1 < length (if_ranges f)"
    using ne length_takeWhile_le [of "\<lambda>(start, _). start \<le> n" "if_ranges f"] by (cases ?tw) auto
  have "if_ranges f ! (length ?tw - 1) = ?tw ! (length ?tw - 1)"
    using ne by (intro takeWhile_nth [symmetric]) simp
  moreover have "?tw ! (length ?tw - 1) = last ?tw" using ne by (simp add: last_conv_nth)
  moreover have "fst (last ?tw) \<le> n"
    using set_takeWhileD [of "last ?tw" "\<lambda>(start, _). start \<le> n" "if_ranges f"] ne by (auto split: prod.splits)
  ultimately have "fst (if_ranges f ! (length ?tw - 1)) \<le> n" by simp
  moreover have "if_hits f' = (if_hits f)[length ?tw - 1 := if_hits f ! (length ?tw - 1) + 1]"
    using assms(2,3) lt by (auto simp: is_blocked_def partition_point_def Let_def split: if_splits)
  ultimately show ?thesis using le lt by blast
qed

lemmas ip_eval = lit_def parse_line_def parse_dat_def parse_p2p_def pair_of_def ip_to_u32_def Let_def
  starts_with_def trim_def is_whitespace_def parse_u8_def is_ascii_digit_def dec_value_def

definition two_lines :: rstr where
  "two_lines = lit ''1.0.0.0-1.0.0.255'' @ 10 # lit ''1.0.1.0-1.0.1.255''"

lemma two_lines_content:
  "content_lines (from_utf8_lossy (utf8 two_lines)) = [lit ''1.0.0.0-1.0.0.255'', lit ''1.0.1.0-1.0.1.255'']"
proof -
  have "valid_str two_lines" by (simp add: valid_str_def two_lines_def lit_def scalar_def)
  then have "from_utf8_lossy (utf8 two_lines) = two_lines" by (rule from_utf8_lossy_utf8)
  moreover have "content_lines two_lines = [lit ''1.0.0.0-1.0.0.255'', lit ''1.0.1.0-1.0.1.255'']"
    by (simp add: content_lines_def two_lines_def ip_eval)
  ultimately show ?thesis by simp
qed

lemma two_lines_pairs:
  "parse_line (lit ''1.0.0.0-1.0.0.255'') = Some (16777216, 16777471)"
  "parse_line (lit ''1.0.1.0-1.0.1.255'') = Some (16777472, 16777727)"
  by (simp_all add: ip_eval)

text \<open>Two lines that touch become one range, so the list is not one range per line: a hit on them
  is counted and the report, which looks each line's own range up, shows no row for it.\<close>

theorem touching_lines_unreported:
  defines "f \<equiv> ip_filter_load (Some (utf8 two_lines))"
  shows "if_ranges f = [(16777216, 16777727)] \<and> fst (is_blocked 16777217 f) \<and>
    total_hits (snd (is_blocked 16777217 f)) = 1 \<and> hit_report (Some (utf8 two_lines)) (snd (is_blocked 16777217 f)) = []"
proof -
  have f: "f = \<lparr>if_ranges = [(16777216, 16777727)], if_hits = [0]\<rparr>"
    by (simp add: f_def ip_filter_load_def Let_def two_lines_content List.map_filter_def two_lines_pairs
        merge_ranges_def sat_add_def max_def less_eq_prod_def)
  have b: "is_blocked 16777217 f = (True, \<lparr>if_ranges = [(16777216, 16777727)], if_hits = [1]\<rparr>)"
    by (simp add: f is_blocked_def partition_point_def)
  show ?thesis
    unfolding b by (simp add: f total_hits_def hit_report_def needed_counts_def two_lines_content
        List.map_filter_def report_row_def two_lines_pairs)
qed

end
