(* ===== verification/Tags.thy ===== *)
theory Tags
  imports Rust_Str
begin

text \<open>
  Tags of the eD2k protocol (\<open>src/proto/tags.rs\<close>): names and values, the reader with every error
  and the buffer position it leaves, the writer, tag lists and \<open>cap_string\<close>. A reader takes the
  buffer and returns its verdict with the bytes not consumed. A float is its bit pattern.
\<close>

section \<open>Capped strings\<close>

text \<open>\<open>is_char_boundary\<close>: the byte lengths of the prefixes.\<close>

definition is_char_boundary :: "rstr \<Rightarrow> nat \<Rightarrow> bool" where
  "is_char_boundary s i \<longleftrightarrow> i \<in> set (map (\<lambda>k. str_len (take k s)) [0..<Suc (length s)])"

fun cap_loop :: "rstr \<Rightarrow> nat \<Rightarrow> nat" where
  "cap_loop s i = (if i = 0 \<or> is_char_boundary s i then i else cap_loop s (i - 1))"

declare cap_loop.simps [simp del]

text \<open>The prefix of a byte length that is a boundary (\<open>&s[..i]\<close>).\<close>

definition prefix_bytes :: "rstr \<Rightarrow> nat \<Rightarrow> rstr" where
  "prefix_bytes s i = take (length (takeWhile (\<lambda>k. str_len (take k s) < i) [0..<Suc (length s)])) s"

definition cap_string :: "rstr \<Rightarrow> u32 \<Rightarrow> rstr" where
  "cap_string s max_bytes =
     (let m = unat max_bytes
      in if m = 0 \<or> str_len s \<le> m then s else prefix_bytes s (cap_loop s m))"

section \<open>Tags\<close>

datatype tag_error = Underrun | UnsupportedType u8

datatype tag_name = Byte u8 | Str rstr

datatype tag_value =
    VString rstr | VU8 u8 | VU16 u16 | VU32 u32 | VU64 u64 | VFloat u32 | VBool bool | VBlob bytes | VHash16 bytes

record tag =
  tg_name :: tag_name
  tg_value :: tag_value

fun name_as_byte :: "tag_name \<Rightarrow> u8 option" where
  "name_as_byte (Byte b) = Some b"
| "name_as_byte (Str _) = None"

definition tag_uint :: "u32 \<Rightarrow> tag_value" where
  "tag_uint v = (if v \<le> 0xFF then VU8 (ucast v) else if v \<le> 0xFFFF then VU16 (ucast v) else VU32 v)"

definition tag_byte :: "u8 \<Rightarrow> tag_value \<Rightarrow> tag" where
  "tag_byte n v = \<lparr>tg_name = Byte n, tg_value = v\<rparr>"

definition tag_str_value :: "tag \<Rightarrow> rstr option" where
  "tag_str_value t = (case tg_value t of VString s \<Rightarrow> Some s | _ \<Rightarrow> None)"

definition tag_as_u32 :: "tag \<Rightarrow> u32 option" where
  "tag_as_u32 t = (case tg_value t of VU32 v \<Rightarrow> Some v | VU16 v \<Rightarrow> Some (ucast v) | VU8 v \<Rightarrow> Some (ucast v) | _ \<Rightarrow> None)"

definition tag_as_u64 :: "tag \<Rightarrow> u64 option" where
  "tag_as_u64 t = (case tg_value t of VU64 v \<Rightarrow> Some v | VU32 v \<Rightarrow> Some (ucast v) | _ \<Rightarrow> None)"

definition TYPE_HASH :: u8 where "TYPE_HASH = 0x01"
definition TYPE_STRING :: u8 where "TYPE_STRING = 0x02"
definition TYPE_UINT32 :: u8 where "TYPE_UINT32 = 0x03"
definition TYPE_FLOAT :: u8 where "TYPE_FLOAT = 0x04"
definition TYPE_BOOL :: u8 where "TYPE_BOOL = 0x05"
definition TYPE_BLOB :: u8 where "TYPE_BLOB = 0x07"
definition TYPE_UINT16 :: u8 where "TYPE_UINT16 = 0x08"
definition TYPE_UINT8 :: u8 where "TYPE_UINT8 = 0x09"
definition TYPE_UINT64 :: u8 where "TYPE_UINT64 = 0x0B"
definition TYPE_STR1_BASE :: u8 where "TYPE_STR1_BASE = 0x10"
definition TYPE_NEWTAG_BIT :: u8 where "TYPE_NEWTAG_BIT = 0x80"

lemmas type_bytes = TYPE_HASH_def TYPE_STRING_def TYPE_UINT32_def TYPE_FLOAT_def TYPE_BOOL_def TYPE_BLOB_def
  TYPE_UINT16_def TYPE_UINT8_def TYPE_UINT64_def TYPE_STR1_BASE_def TYPE_NEWTAG_BIT_def

section \<open>Reading\<close>

type_synonym 'a reader = "bytes \<Rightarrow> (tag_error + 'a) \<times> bytes"

definition rd_bind :: "'a reader \<Rightarrow> ('a \<Rightarrow> 'b reader) \<Rightarrow> 'b reader" where
  "rd_bind m f b = (case m b of (Inl e, b') \<Rightarrow> (Inl e, b') | (Inr x, b') \<Rightarrow> f x b')"

definition rd_ok :: "'a \<Rightarrow> 'a reader" where
  "rd_ok x b = (Inr x, b)"

text \<open>The length check and the advance that every field begins with.\<close>

definition rd_take :: "nat \<Rightarrow> bytes reader" where
  "rd_take n b = (if length b < n then (Inl Underrun, b) else (Inr (take n b), drop n b))"

definition rd_map :: "('a \<Rightarrow> 'b) \<Rightarrow> 'a reader \<Rightarrow> 'b reader" where
  "rd_map f m = rd_bind m (\<lambda>x. rd_ok (f x))"

definition rd_le :: "nat \<Rightarrow> nat reader" where
  "rd_le n = rd_map from_le (rd_take n)"

text \<open>Length-prefixed bytes, the length in \<open>n\<close> bytes.\<close>

definition rd_sized :: "nat \<Rightarrow> bytes reader" where
  "rd_sized n = rd_bind (rd_le n) rd_take"

definition read_name :: "bool \<Rightarrow> tag_name reader" where
  "read_name has_short_name =
     (if has_short_name then rd_map (\<lambda>b. Byte (hd b)) (rd_take 1)
      else rd_map (\<lambda>b. if length b = 1 then Byte (hd b) else Str (from_utf8_lossy b)) (rd_sized 2))"

definition read_value :: "u8 \<Rightarrow> tag_value reader" where
  "read_value t =
     (if t = TYPE_STRING then rd_map (\<lambda>b. VString (from_utf8_lossy b)) (rd_sized 2)
      else if t = TYPE_UINT32 then rd_map (\<lambda>n. VU32 (of_nat n)) (rd_le 4)
      else if t = TYPE_UINT16 then rd_map (\<lambda>n. VU16 (of_nat n)) (rd_le 2)
      else if t = TYPE_UINT8 then rd_map (\<lambda>b. VU8 (hd b)) (rd_take 1)
      else if t = TYPE_UINT64 then rd_map (\<lambda>n. VU64 (of_nat n)) (rd_le 8)
      else if t = TYPE_FLOAT then rd_map (\<lambda>n. VFloat (of_nat n)) (rd_le 4)
      else if t = TYPE_BOOL then rd_map (\<lambda>b. VBool (hd b \<noteq> 0)) (rd_take 1)
      else if t = TYPE_BLOB then rd_map VBlob (rd_sized 4)
      else if TYPE_STR1_BASE + 1 \<le> t \<and> t \<le> TYPE_STR1_BASE + 16
           then rd_map (\<lambda>b. VString (from_utf8_lossy b)) (rd_take (unat (t - TYPE_STR1_BASE)))
      else if t = TYPE_HASH then rd_map VBlob (rd_take 16)
      else if t = 0x06 then rd_bind (rd_le 2) (\<lambda>bits. rd_map VBlob (rd_take ((bits + 7) div 8)))
      else if t = 0x0A then rd_map VBlob (rd_sized 1)
      else (\<lambda>b. (Inl (UnsupportedType t), b)))"

definition read_tag :: "tag reader" where
  "read_tag = rd_bind (rd_take 1) (\<lambda>b.
     let type_byte = hd b; has_short_name = (type_byte AND TYPE_NEWTAG_BIT \<noteq> 0);
         real_type = type_byte AND NOT TYPE_NEWTAG_BIT
     in rd_bind (read_name has_short_name) (\<lambda>name.
        rd_map (\<lambda>v. \<lparr>tg_name = name, tg_value = v\<rparr>) (read_value real_type)))"

primrec read_tag_list :: "nat \<Rightarrow> bytes \<Rightarrow> tag list \<times> bytes" where
  "read_tag_list 0 b = ([], b)"
| "read_tag_list (Suc n) b =
     (case read_tag b of
        (Inr t, b') \<Rightarrow> let (ts, b'') = read_tag_list n b' in (t # ts, b'')
      | (Inl _, b') \<Rightarrow> ([], b'))"

section \<open>Writing\<close>

text \<open>A length written \<open>as u16\<close> or \<open>as u32\<close> is cut to its width, which \<open>to_le\<close> does.\<close>

definition type_marker :: "bool \<Rightarrow> tag_value \<Rightarrow> u8" where
  "type_marker short_name v =
     (case v of
        VString s \<Rightarrow>
          if short_name \<and> 1 \<le> str_len s \<and> str_len s \<le> 16 then TYPE_STR1_BASE + of_nat (str_len s) else TYPE_STRING
      | VU32 _ \<Rightarrow> TYPE_UINT32 | VU16 _ \<Rightarrow> TYPE_UINT16 | VU8 _ \<Rightarrow> TYPE_UINT8 | VU64 _ \<Rightarrow> TYPE_UINT64
      | VFloat _ \<Rightarrow> TYPE_FLOAT | VBool _ \<Rightarrow> TYPE_BOOL | VBlob _ \<Rightarrow> TYPE_BLOB | VHash16 _ \<Rightarrow> TYPE_HASH)"

definition write_name :: "tag_name \<Rightarrow> bytes" where
  "write_name n = (case n of Byte b \<Rightarrow> [b] | Str s \<Rightarrow> to_le 2 (str_len s) @ utf8 s)"

definition write_value :: "u8 \<Rightarrow> tag_value \<Rightarrow> bytes" where
  "write_value marker v =
     (case v of
        VString s \<Rightarrow>
          if 1 \<le> str_len s \<and> str_len s \<le> 16 \<and> marker > TYPE_STR1_BASE then utf8 s else to_le 2 (str_len s) @ utf8 s
      | VU32 n \<Rightarrow> to_le 4 (unat n) | VU16 n \<Rightarrow> to_le 2 (unat n) | VU8 n \<Rightarrow> [n] | VU64 n \<Rightarrow> to_le 8 (unat n)
      | VFloat n \<Rightarrow> to_le 4 (unat n) | VBool b \<Rightarrow> [if b then 1 else 0]
      | VBlob b \<Rightarrow> to_le 4 (length b) @ b | VHash16 h \<Rightarrow> h)"

definition write_tag :: "tag \<Rightarrow> bytes" where
  "write_tag t =
     (let (short_name, type_base) = (case tg_name t of Byte _ \<Rightarrow> (True, TYPE_NEWTAG_BIT) | Str _ \<Rightarrow> (False, 0));
          marker = type_marker short_name (tg_value t)
      in [type_base OR marker] @ write_name (tg_name t) @ write_value marker (tg_value t))"

definition write_tag_list :: "tag list \<Rightarrow> bytes" where
  "write_tag_list ts = to_le 4 (length ts) @ concat (map write_tag ts)"


section \<open>Round trip\<close>

lemma rd_case:
  "rd_bind m f b = (case m b of (Inl e, b') \<Rightarrow> (Inl e, b') | (Inr x, b') \<Rightarrow> f x b')"
  "rd_map g m b = (case m b of (Inl e, b') \<Rightarrow> (Inl e, b') | (Inr x, b') \<Rightarrow> (Inr (g x), b'))"
  by (simp_all add: rd_map_def rd_bind_def rd_ok_def split: prod.split sum.split)

lemma rd_take_append: "length xs = n \<Longrightarrow> rd_take n (xs @ r) = (Inr xs, r)"
  by (simp add: rd_take_def)

lemma rd_le_append: "x < 256 ^ n \<Longrightarrow> rd_le n (to_le n x @ r) = (Inr x, r)"
  by (simp add: rd_le_def rd_case rd_take_append from_le_to_le)

lemma rd_sized_append: "length xs < 256 ^ n \<Longrightarrow> rd_sized n (to_le n (length xs) @ xs @ r) = (Inr xs, r)"
  using rd_le_append [of "length xs" n "xs @ r"] by (simp add: rd_sized_def rd_case rd_take_append)

lemma bit_newtag: "bit (0x80 :: u8) n \<longleftrightarrow> n = 7"
proof -
  have "(0x80 :: u8) = push_bit 7 1" by (simp add: push_bit_eq_mult)
  then have "bit (0x80 :: u8) n \<longleftrightarrow> 7 \<le> n \<and> possible_bit TYPE(u8) n \<and> bit (1 :: u8) (n - 7)"
    by (simp only: bit_push_bit_iff)
  then show ?thesis by (auto simp: bit_1_iff)
qed

lemma single_bit_mask:
  fixes m k :: u8
  assumes k: "\<And>n. bit k n \<longleftrightarrow> n = 7" and "\<not> bit m 7"
  shows "m AND k = 0" and "(k OR m) AND k \<noteq> 0" and "m AND NOT k = m" and "(k OR m) AND NOT k = m"
proof -
  show "m AND k = 0" "m AND NOT k = m" "(k OR m) AND NOT k = m"
    using assms by (auto intro!: bit_word_eqI simp: bit_and_iff bit_or_iff bit_not_iff)
  have "bit ((k OR m) AND k) 7" by (simp add: bit_and_iff bit_or_iff k)
  then show "(k OR m) AND k \<noteq> 0" by auto
qed

lemma marker_bits:
  fixes m :: u8
  assumes "m < 0x80"
  shows "m AND 0x80 = 0" and "(0x80 OR m) AND 0x80 \<noteq> 0" and "m AND NOT 0x80 = m" and "(0x80 OR m) AND NOT 0x80 = m"
proof -
  have "unat m < 128" using assms by (simp add: word_less_nat_alt)
  then have "\<not> bit (unat m) 7" by (simp add: bit_iff_odd)
  then have "\<not> bit m 7" by (simp add: bit_unsigned_iff)
  then show "m AND 0x80 = 0" "(0x80 OR m) AND 0x80 \<noteq> 0" "m AND NOT 0x80 = m" "(0x80 OR m) AND NOT 0x80 = m"
    using single_bit_mask [OF bit_newtag] by blast+
qed

text \<open>Tags a writer can represent, and what the reader makes of them: a hash comes back as bytes.\<close>

fun value_ok :: "tag_value \<Rightarrow> bool" where
  "value_ok (VString s) \<longleftrightarrow> valid_str s \<and> str_len s < 65536"
| "value_ok (VBlob b) \<longleftrightarrow> length b < 2 ^ 32"
| "value_ok (VHash16 h) \<longleftrightarrow> length h = 16"
| "value_ok _ \<longleftrightarrow> True"

fun name_ok :: "tag_name \<Rightarrow> bool" where
  "name_ok (Byte _) \<longleftrightarrow> True"
| "name_ok (Str s) \<longleftrightarrow> valid_str s \<and> str_len s < 65536 \<and> str_len s \<noteq> 1"

definition tag_ok :: "tag \<Rightarrow> bool" where
  "tag_ok t \<longleftrightarrow> name_ok (tg_name t) \<and> value_ok (tg_value t)"

fun value_read :: "tag_value \<Rightarrow> tag_value" where
  "value_read (VHash16 h) = VBlob h"
| "value_read v = v"

definition tag_read :: "tag \<Rightarrow> tag" where
  "tag_read t = t\<lparr>tg_value := value_read (tg_value t)\<rparr>"

lemma read_name_write:
  assumes "name_ok n"
  shows "read_name (case n of Byte _ \<Rightarrow> True | Str _ \<Rightarrow> False) (write_name n @ r) = (Inr n, r)"
proof (cases n)
  case (Byte b)
  then show ?thesis using rd_take_append [of "[b]" 1 r] by (simp add: read_name_def write_name_def rd_case)
next
  case (Str s)
  then have "rd_sized 2 (write_name n @ r) = (Inr (utf8 s), r)"
    using rd_sized_append [of "utf8 s" 2 r] assms by (simp add: write_name_def str_len_def)
  then show ?thesis using assms Str by (simp add: read_name_def rd_case from_utf8_lossy_utf8 str_len_def)
qed

lemma str1_marker:
  assumes "1 \<le> n" and "n \<le> 16"
  shows "TYPE_STR1_BASE + of_nat n < 0x80" and "unat (TYPE_STR1_BASE + of_nat n - TYPE_STR1_BASE) = n"
    and "TYPE_STR1_BASE + 1 \<le> TYPE_STR1_BASE + of_nat n" and "TYPE_STR1_BASE + of_nat n \<le> TYPE_STR1_BASE + 16"
    and "TYPE_STR1_BASE < TYPE_STR1_BASE + of_nat n"
proof -
  have u: "unat (of_nat n :: u8) = n" using assms by (simp add: unat_of_nat)
  then have s: "unat (TYPE_STR1_BASE + of_nat n) = 16 + n" using assms by (simp add: TYPE_STR1_BASE_def unat_word_ariths)
  show "TYPE_STR1_BASE + of_nat n < 0x80" "unat (TYPE_STR1_BASE + of_nat n - TYPE_STR1_BASE) = n"
    "TYPE_STR1_BASE + 1 \<le> TYPE_STR1_BASE + of_nat n" "TYPE_STR1_BASE + of_nat n \<le> TYPE_STR1_BASE + 16"
    "TYPE_STR1_BASE < TYPE_STR1_BASE + of_nat n"
    using assms s u by (simp_all add: word_less_nat_alt word_le_nat_alt) (simp_all add: TYPE_STR1_BASE_def)
qed

lemma type_marker_small: "type_marker short v < 0x80"
  using str1_marker(1) by (auto simp: type_marker_def type_bytes split: tag_value.split)

lemma read_value_str1:
  assumes "1 \<le> n" and "n \<le> 16"
  shows "read_value (TYPE_STR1_BASE + of_nat n) = rd_map (\<lambda>b. VString (from_utf8_lossy b)) (rd_take n)"
proof -
  have "TYPE_STR1_BASE + of_nat n \<noteq> k" if "k < 0x11" for k
    using str1_marker(3) [OF assms] that by (auto simp: TYPE_STR1_BASE_def)
  then show ?thesis using str1_marker [OF assms] by (simp add: read_value_def type_bytes)
qed

lemma read_value_write:
  assumes "value_ok v"
  shows "read_value (type_marker short v) (write_value (type_marker short v) v @ r) = (Inr (value_read v), r)"
proof (cases v)
  case (VString s)
  show ?thesis
  proof (cases "short \<and> 1 \<le> str_len s \<and> str_len s \<le> 16")
    case True
    then have "TYPE_STR1_BASE < TYPE_STR1_BASE + of_nat (str_len s)"
      using str1_marker(5) [of "str_len s"] by simp
    then show ?thesis
      using True VString assms rd_take_append [of "utf8 s" "str_len s" r]
      by (simp add: type_marker_def write_value_def read_value_str1 rd_case from_utf8_lossy_utf8 str_len_def)
  next
    case False
    then have "type_marker short v = TYPE_STRING" by (auto simp: VString type_marker_def)
    moreover have "\<not> TYPE_STR1_BASE < TYPE_STRING" by (simp add: type_bytes)
    ultimately show ?thesis
      using VString assms rd_sized_append [of "utf8 s" 2 r]
      by (simp add: write_value_def read_value_def rd_case from_utf8_lossy_utf8 str_len_def)
  qed
next
  case (VBlob b)
  then show ?thesis using assms rd_sized_append [of b 4 r]
    by (simp add: type_marker_def write_value_def read_value_def type_bytes rd_case)
next
  case (VU8 x)
  then show ?thesis using rd_take_append [of "[x]" 1 r]
    by (simp add: type_marker_def write_value_def read_value_def type_bytes rd_case)
next
  case (VBool x)
  then show ?thesis using rd_take_append [of "[if x then 1 else 0]" 1 r]
    by (simp add: type_marker_def write_value_def read_value_def type_bytes rd_case)
next
  case (VU16 x)
  have "unat x < 256 ^ 2" using unsigned_less [of x] by simp
  then show ?thesis using VU16 rd_le_append [of "unat x" 2 r]
    by (simp add: type_marker_def write_value_def read_value_def type_bytes rd_case)
next
  case (VU32 x)
  have "unat x < 256 ^ 4" using unsigned_less [of x] by simp
  then show ?thesis using VU32 rd_le_append [of "unat x" 4 r]
    by (simp add: type_marker_def write_value_def read_value_def type_bytes rd_case)
next
  case (VU64 x)
  have "unat x < 256 ^ 8" using unsigned_less [of x] by simp
  then show ?thesis using VU64 rd_le_append [of "unat x" 8 r]
    by (simp add: type_marker_def write_value_def read_value_def type_bytes rd_case)
next
  case (VFloat x)
  have "unat x < 256 ^ 4" using unsigned_less [of x] by simp
  then show ?thesis using VFloat rd_le_append [of "unat x" 4 r]
    by (simp add: type_marker_def write_value_def read_value_def type_bytes rd_case)
next
  case (VHash16 h)
  then show ?thesis using assms rd_take_append [of h 16 r]
    by (simp add: type_marker_def write_value_def read_value_def type_bytes rd_case word_le_nat_alt)
qed

lemma read_write_tag:
  assumes "tag_ok t"
  shows "read_tag (write_tag t @ r) = (Inr (tag_read t), r)"
proof -
  define short where "short = (case tg_name t of Byte _ \<Rightarrow> True | Str _ \<Rightarrow> False)"
  define marker where "marker = type_marker short (tg_value t)"
  define type_byte where "type_byte = (if short then 0x80 else 0) OR marker"
  have w: "write_tag t = [type_byte] @ write_name (tg_name t) @ write_value marker (tg_value t)"
    by (auto simp: write_tag_def Let_def short_def marker_def type_byte_def TYPE_NEWTAG_BIT_def split: tag_name.split)
  have small: "marker < 0x80" by (simp add: marker_def type_marker_small)
  have hdr: "(type_byte AND TYPE_NEWTAG_BIT \<noteq> 0) = short" "type_byte AND NOT TYPE_NEWTAG_BIT = marker"
    using marker_bits [OF small] by (auto simp: type_byte_def TYPE_NEWTAG_BIT_def)
  have nm: "read_name short (write_name (tg_name t) @ r') = (Inr (tg_name t), r')" for r'
    using read_name_write [of "tg_name t" r'] assms by (simp add: tag_ok_def short_def)
  have vl: "read_value marker (write_value marker (tg_value t) @ r) = (Inr (value_read (tg_value t)), r)"
    using read_value_write [of "tg_value t" short r] assms by (simp add: tag_ok_def marker_def)
  have "rd_take 1 ([type_byte] @ x) = (Inr [type_byte], x)" for x by (simp add: rd_take_def)
  then show ?thesis
    unfolding read_tag_def w append_assoc
    by (simp add: rd_case hdr Let_def nm vl rd_case tag_read_def)
qed


lemma tag_list_read:
  "list_all tag_ok ts \<Longrightarrow> read_tag_list (length ts) (concat (map write_tag ts) @ r) = (map tag_read ts, r)"
  by (induction ts) (simp_all add: read_write_tag)

text \<open>C30: A tag list is read back as it was written, whatever follows it in the frame: every name, string
  and number as it was, a hash as its sixteen bytes.\<close>

theorem tag_list_round_trip:
  assumes "list_all tag_ok ts" and "length ts < 2 ^ 32"
  shows "\<exists>b. rd_le 4 (write_tag_list ts @ r) = (Inr (length ts), b) \<and> read_tag_list (length ts) b = (map tag_read ts, r)"
  using assms tag_list_read [OF assms(1), of r] rd_le_append [of "length ts" 4 "concat (map write_tag ts) @ r"]
  by (simp add: write_tag_list_def)

theorem tag_list_round_trip_witness:
  "\<exists>b. rd_le 4 (write_tag_list [\<lparr>tg_name = Byte 1, tg_value = VString (lit ''nick'')\<rparr>, \<lparr>tg_name = Byte 0xAE, tg_value = VHash16 (replicate 16 7)\<rparr>] @ [9]) = (Inr (Suc (Suc 0)), b) \<and>
     read_tag_list (Suc (Suc 0)) b = ([\<lparr>tg_name = Byte 1, tg_value = VString (lit ''nick'')\<rparr>, \<lparr>tg_name = Byte 0xAE, tg_value = VBlob (replicate 16 7)\<rparr>], [9])"
  using tag_list_round_trip [of "[\<lparr>tg_name = Byte 1, tg_value = VString (lit ''nick'')\<rparr>, \<lparr>tg_name = Byte 0xAE, tg_value = VHash16 (replicate 16 7)\<rparr>]" "[9]"]
  by (simp add: tag_ok_def tag_read_def valid_str_def lit_def scalar_def str_len_def utf8_def utf8_char_def)

section \<open>What a reader yields\<close>

text \<open>A reader that consumes a prefix of the buffer, at least \<open>k\<close> bytes when it succeeds, with a
  result that satisfies \<open>P\<close>.\<close>

definition reads :: "nat \<Rightarrow> ('a \<Rightarrow> bool) \<Rightarrow> 'a reader \<Rightarrow> bool" where
  "reads k P m \<longleftrightarrow> (\<forall>b. case m b of
     (Inl _, r) \<Rightarrow> \<exists>p. b = p @ r
   | (Inr x, r) \<Rightarrow> P x \<and> (\<exists>p. b = p @ r \<and> k \<le> length p))"

lemma readsI:
  assumes "\<And>b e r. m b = (Inl e, r) \<Longrightarrow> \<exists>p. b = p @ r"
    and "\<And>b x r. m b = (Inr x, r) \<Longrightarrow> P x \<and> (\<exists>p. b = p @ r \<and> k \<le> length p)"
  shows "reads k P m"
  unfolding reads_def by (auto split: prod.split sum.split dest: assms)

lemma reads_Inl: "reads k P m \<Longrightarrow> m b = (Inl e, r) \<Longrightarrow> \<exists>p. b = p @ r"
  unfolding reads_def by (drule spec [of _ b]) simp

lemma reads_Inr: "reads k P m \<Longrightarrow> m b = (Inr x, r) \<Longrightarrow> P x \<and> (\<exists>p. b = p @ r \<and> k \<le> length p)"
  unfolding reads_def by (drule spec [of _ b]) simp

lemma reads_take: "reads n (\<lambda>x. length x = n) (rd_take n)"
proof (rule readsI)
  fix b x r
  assume "rd_take n b = (Inr x, r)"
  then have "x = take n b" "r = drop n b" "n \<le> length b" by (auto simp: rd_take_def split: if_splits)
  then show "length x = n \<and> (\<exists>p. b = p @ r \<and> n \<le> length p)" by (auto intro: exI [of _ "take n b"])
qed (auto simp: rd_take_def split: if_splits)

lemma reads_map: "reads k P m \<Longrightarrow> (\<And>x. P x \<Longrightarrow> Q (f x)) \<Longrightarrow> reads k Q (rd_map f m)"
  by (rule readsI) (auto simp: rd_case split: prod.splits sum.splits dest: reads_Inl reads_Inr)

lemma reads_bind:
  assumes "reads k P m" and "\<And>x. P x \<Longrightarrow> reads l Q (f x)"
  shows "reads (k + l) Q (rd_bind m f)"
proof (rule readsI)
  fix b e r
  assume *: "rd_bind m f b = (Inl e, r)"
  obtain v b1 where m: "m b = (v, b1)" by force
  show "\<exists>p. b = p @ r"
  proof (cases v)
    case (Inl e')
    then show ?thesis using * m reads_Inl [OF assms(1)] by (auto simp: rd_case)
  next
    case (Inr x)
    then obtain p where "P x" "b = p @ b1" using reads_Inr [OF assms(1)] m by blast
    moreover have "f x b1 = (Inl e, r)" using * m Inr by (simp add: rd_case)
    ultimately show ?thesis using reads_Inl [OF assms(2)] by (metis append_assoc)
  qed
next
  fix b y r
  assume *: "rd_bind m f b = (Inr y, r)"
  obtain x b1 where m: "m b = (Inr x, b1)" and f: "f x b1 = (Inr y, r)"
    using * by (auto simp: rd_case split: prod.splits sum.splits)
  obtain p where p: "P x" "b = p @ b1" "k \<le> length p" using reads_Inr [OF assms(1) m] by blast
  obtain q where "Q y" "b1 = q @ r" "l \<le> length q" using reads_Inr [OF assms(2) [OF p(1)] f] by blast
  then show "Q y \<and> (\<exists>p. b = p @ r \<and> k + l \<le> length p)" using p by (auto intro!: exI [of _ "p @ q"])
qed

lemma reads_weaken: "reads k P m \<Longrightarrow> l \<le> k \<Longrightarrow> (\<And>x. P x \<Longrightarrow> Q x) \<Longrightarrow> reads l Q m"
  by (rule readsI) (auto dest: reads_Inl reads_Inr intro: order_trans)

lemma reads_le: "reads n (\<lambda>x. x < 256 ^ n) (rd_le n)"
  unfolding rd_le_def by (rule reads_map [OF reads_take]) (use from_le_bound in fastforce)

lemma reads_sized: "reads n (\<lambda>x. length x < 256 ^ n) (rd_sized n)"
proof -
  have "reads (n + 0) (\<lambda>x. length x < 256 ^ n) (rd_sized n)"
    unfolding rd_sized_def by (rule reads_bind [OF reads_le]) (rule reads_weaken [OF reads_take], simp_all)
  then show ?thesis by simp
qed

text \<open>The type of what is read: strings hold characters, no length exceeds its field, and a hash is
  bytes like any other blob.\<close>

fun value_typed :: "tag_value \<Rightarrow> bool" where
  "value_typed (VString s) \<longleftrightarrow> valid_str s"
| "value_typed (VBlob b) \<longleftrightarrow> length b < 2 ^ 32"
| "value_typed (VHash16 _) \<longleftrightarrow> False"
| "value_typed _ \<longleftrightarrow> True"

fun name_typed :: "tag_name \<Rightarrow> bool" where
  "name_typed (Byte _) \<longleftrightarrow> True"
| "name_typed (Str s) \<longleftrightarrow> valid_str s"

definition tag_typed :: "tag \<Rightarrow> bool" where
  "tag_typed t \<longleftrightarrow> name_typed (tg_name t) \<and> value_typed (tg_value t)"

lemma reads_fields:
  assumes "Suc 0 \<le> n"
  shows "(\<And>b. length b = n \<Longrightarrow> Q (g b)) \<Longrightarrow> reads (Suc 0) Q (rd_map g (rd_take n))"
    and "(\<And>b. length b < 256 ^ n \<Longrightarrow> Q (g b)) \<Longrightarrow> reads (Suc 0) Q (rd_map g (rd_sized n))"
    and "(\<And>x. Q (h x)) \<Longrightarrow> reads (Suc 0) Q (rd_map h (rd_le n))"
  using reads_weaken [OF reads_map [OF reads_take [of n], of Q g] assms, of Q]
    reads_weaken [OF reads_map [OF reads_sized [of n], of Q g] assms, of Q]
    reads_weaken [OF reads_map [OF reads_le [of n], of Q h] assms, of Q] by blast+

lemma reads_name: "reads (Suc 0) name_typed (read_name short)"
proof (cases short)
  case True
  have "reads (Suc 0) name_typed (rd_map (\<lambda>b. Byte (hd b)) (rd_take 1))" by (rule reads_fields(1)) simp_all
  then show ?thesis using True by (simp add: read_name_def)
next
  case False
  have "reads 2 name_typed (rd_map (\<lambda>b. if length b = 1 then Byte (hd b) else Str (from_utf8_lossy b)) (rd_sized 2))"
    by (rule reads_map [OF reads_sized]) (simp add: valid_lossy)
  then have "reads (Suc 0) name_typed (rd_map (\<lambda>b. if length b = 1 then Byte (hd b) else Str (from_utf8_lossy b)) (rd_sized 2))"
    by (rule reads_weaken) simp_all
  then show ?thesis using False by (simp add: read_name_def)
qed

lemma reads_bits: "reads (Suc 0) value_typed (rd_bind (rd_le 2) (\<lambda>bits. rd_map VBlob (rd_take ((bits + 7) div 8))))"
proof (rule reads_weaken)
  show "reads (2 + 0) value_typed (rd_bind (rd_le 2) (\<lambda>bits. rd_map VBlob (rd_take ((bits + 7) div 8))))"
    by (rule reads_bind [OF reads_le]) (rule reads_weaken [OF reads_map [OF reads_take]], auto)
qed simp_all

lemma reads_str1:
  assumes "TYPE_STR1_BASE + 1 \<le> t"
  shows "reads (Suc 0) value_typed (rd_map (\<lambda>b. VString (from_utf8_lossy b)) (rd_take (unat (t - TYPE_STR1_BASE))))"
proof -
  have "TYPE_STR1_BASE \<le> t" "17 \<le> unat t" using assms by (simp_all add: TYPE_STR1_BASE_def word_le_nat_alt)
  then have "Suc 0 \<le> unat (t - TYPE_STR1_BASE)" by (simp add: unat_sub) (simp add: TYPE_STR1_BASE_def)
  then show ?thesis by (rule reads_fields(1)) (simp add: valid_lossy)
qed

lemma reads_unsupported: "reads (Suc 0) Q (\<lambda>b. (Inl e, b))"
  by (simp add: reads_def)

lemma reads_blob:
  "reads (Suc 0) value_typed (rd_map VBlob (rd_sized 4))"
  "reads (Suc 0) value_typed (rd_map VBlob (rd_sized (Suc 0)))"
  by (rule reads_fields(2), simp, simp)+

lemma reads_value: "reads (Suc 0) value_typed (read_value t)"
  unfolding read_value_def
  by (simp add: reads_fields reads_blob reads_bits reads_str1 reads_unsupported valid_lossy)

lemma reads_tag: "reads 3 tag_typed read_tag"
proof (rule reads_weaken)
  show "reads (1 + (Suc 0 + Suc 0)) tag_typed read_tag"
    unfolding read_tag_def Let_def
    by (intro reads_bind [OF reads_take] reads_bind [OF reads_name] reads_map [OF reads_value])
      (simp add: tag_typed_def)
qed simp_all

text \<open>C33: What a peer sends cannot make the tag reader overrun or inflate: a list read from a buffer has
  at most the declared count of tags and at most a third of the buffer's bytes, what is left
  is a suffix of the buffer, and every tag is well typed, whatever the bytes were.\<close>

theorem read_tag_list_typed:
  "case read_tag_list n b of (ts, r) \<Rightarrow>
     list_all tag_typed ts \<and> length ts \<le> n \<and> (\<exists>p. b = p @ r \<and> 3 * length ts \<le> length p)"
proof (induction n arbitrary: b)
  case (Suc n)
  obtain v b1 where t: "read_tag b = (v, b1)" by force
  show ?case
  proof (cases v)
    case (Inl e)
    then show ?thesis using reads_Inl [OF reads_tag] t by simp
  next
    case (Inr x)
    obtain p where p: "tag_typed x" "b = p @ b1" "3 \<le> length p" using reads_Inr [OF reads_tag] t Inr by blast
    obtain ts r where l: "read_tag_list n b1 = (ts, r)" by force
    obtain q where "list_all tag_typed ts" "length ts \<le> n" "b1 = q @ r" "3 * length ts \<le> length q"
      using Suc.IH [of b1] l by auto
    moreover have "read_tag_list (Suc n) b = (x # ts, r)" by (simp add: t Inr l)
    ultimately show ?thesis using p by (auto intro: exI [of _ "p @ q"])
  qed
qed simp

section \<open>Capping\<close>

lemma utf8_char_nonempty: "0 < length (utf8_char c)"
  by (simp add: utf8_char_def)

lemma str_len_take_less: "j < k \<Longrightarrow> k \<le> length s \<Longrightarrow> str_len (take j s) < str_len (take k s)"
proof (induction k)
  case (Suc k)
  have "str_len (take (Suc k) s) = str_len (take k s) + length (utf8_char (s ! k))"
    using Suc.prems by (simp add: take_Suc_conv_app_nth str_len_def utf8_def)
  then show ?case using Suc utf8_char_nonempty [of "s ! k"] by (cases "j = k") auto
qed simp

lemma prefix_bytes_take:
  assumes "k \<le> length s"
  shows "prefix_bytes s (str_len (take k s)) = take k s"
proof -
  have "takeWhile (\<lambda>j. str_len (take j s) < str_len (take k s)) [0..<Suc (length s)] = [0..<k]"
  proof -
    have "[0..<Suc (length s)] = [0..<k] @ k # [Suc k..<Suc (length s)]"
      using assms by (metis le_imp_less_Suc upt_add_eq_append upt_conv_Cons le0 le_add_diff_inverse le_Suc_eq)
    then show ?thesis using str_len_take_less [OF _ assms] by (metis (no_types, lifting) atLeastLessThan_iff set_upt takeWhile_append2 takeWhile_eq_Nil_iff list.sel(1) append_Nil2 less_irrefl)
  qed
  then show ?thesis by (simp add: prefix_bytes_def)
qed

lemma cap_loop_boundary:
  "\<exists>k\<le>length s. cap_loop s i = str_len (take k s) \<and> str_len (take k s) \<le> i \<and>
     (\<forall>j\<le>length s. str_len (take j s) \<le> i \<longrightarrow> j \<le> k)"
proof (induction s i rule: cap_loop.induct)
  case (1 s i)
  show ?case
  proof (cases "i = 0 \<or> is_char_boundary s i")
    case True
    have "is_char_boundary s 0" by (auto simp: is_char_boundary_def str_len_def utf8_def image_iff intro!: bexI [of _ 0])
    then obtain k where k: "k \<le> length s" "i = str_len (take k s)"
      using True by (auto simp: is_char_boundary_def less_Suc_eq_le simp del: upt_Suc)
    moreover have "j \<le> k" if "j \<le> length s" "str_len (take j s) \<le> i" for j
      using str_len_take_less [of k j s] that k by (metis not_le)
    ultimately show ?thesis using True by (subst cap_loop.simps) auto
  next
    case False
    then obtain k where k: "k \<le> length s" "cap_loop s (i - 1) = str_len (take k s)" "str_len (take k s) \<le> i - 1"
        "\<forall>j\<le>length s. str_len (take j s) \<le> i - 1 \<longrightarrow> j \<le> k" using 1 by blast
    have "str_len (take j s) \<noteq> i" if "j \<le> length s" for j
      using False that by (auto simp: is_char_boundary_def less_Suc_eq_le simp del: upt_Suc)
    then have "\<forall>j\<le>length s. str_len (take j s) \<le> i \<longrightarrow> j \<le> k" using k(4) False
      by (metis Suc_pred' le_Suc_eq neq0_conv)
    then show ?thesis using k False by (subst cap_loop.simps) auto
  qed
qed

text \<open>A capped name is the longest prefix, in whole characters, of at most the configured bytes.\<close>

theorem cap_string_longest_prefix:
  assumes "0 < m"
  shows "\<exists>k\<le>length s. cap_string s m = take k s \<and> str_len (take k s) \<le> unat m \<and>
    (\<forall>j\<le>length s. str_len (take j s) \<le> unat m \<longrightarrow> j \<le> k)"
proof (cases "str_len s \<le> unat m")
  case True
  then show ?thesis by (auto simp: cap_string_def intro!: exI [of _ "length s"])
next
  case False
  have "unat m \<noteq> 0" using assms by (simp add: unsigned_eq_0_iff word_gt_0)
  then show ?thesis
    using False cap_loop_boundary [of s "unat m"] by (auto simp: cap_string_def Let_def prefix_bytes_take)
qed

theorem cap_string_longest_prefix_witness:
  "\<exists>k\<le>length (lit ''nick''). cap_string (lit ''nick'') 2 = take k (lit ''nick'') \<and> str_len (take k (lit ''nick'')) \<le> unat (2 :: u32)"
  using cap_string_longest_prefix [of 2 "lit ''nick''"] by force

end
