(* ===== verification/Frame.thy ===== *)
theory Frame
  imports Prelude
begin

text \<open>
  The frame codec (\<open>src/proto/frame.rs\<close>): decoding from a growing buffer, with the bytes it leaves,
  and encoding. zlib is the argument of the definitions that use it (record \<open>zlib\<close>):
  \<open>inflate c n\<close> is what reading at most \<open>n\<close> bytes of the decompressed stream yields.
\<close>

definition PROTO_EDONKEY :: u8 where "PROTO_EDONKEY = 0xE3"
definition PROTO_PACKED :: u8 where "PROTO_PACKED = 0xD4"
definition HEADER_LEN :: nat where "HEADER_LEN = 6"
definition COMPRESS_THRESHOLD :: nat where "COMPRESS_THRESHOLD = 4096"
definition DEFAULT_MAX_DECOMPRESSED :: u32 where "DEFAULT_MAX_DECOMPRESSED = 8000000"

record zlib =
  inflate :: "bytes \<Rightarrow> nat \<Rightarrow> bytes option"
  deflate :: "bytes \<Rightarrow> bytes option"

text \<open>What is documented of zlib: reading stops at the limit, and what was compressed is what is
  decompressed, as far as it is read.\<close>

definition zlib_ok :: "zlib \<Rightarrow> bool" where
  "zlib_ok z \<longleftrightarrow> (\<forall>c n p. inflate z c n = Some p \<longrightarrow> length p \<le> n) \<and>
     (\<forall>p c n. deflate z p = Some c \<longrightarrow> inflate z c n = Some (take n p))"

datatype frame_error =
    InvalidMarker u8 | TooLarge u32 u32 | Decompress | DecompressedTooLarge u32 | EmptyFrame

record frame =
  fr_opcode :: u8
  fr_payload :: bytes

record ed2k_codec =
  max_frame_size :: u32
  max_decompressed_size :: u32

definition ed2k_codec_new :: "u32 \<Rightarrow> ed2k_codec" where
  "ed2k_codec_new n = \<lparr>max_frame_size = n, max_decompressed_size = DEFAULT_MAX_DECOMPRESSED\<rparr>"

definition with_max_decompressed :: "u32 \<Rightarrow> ed2k_codec \<Rightarrow> ed2k_codec" where
  "with_max_decompressed limit c = c\<lparr>max_decompressed_size := limit\<rparr>"

section \<open>Decoding\<close>

text \<open>The little-endian length of a header.\<close>

definition header_length :: "bytes \<Rightarrow> u32" where
  "header_length src = of_nat (from_le (take 4 (drop 1 src)))"

definition decode_payload :: "zlib \<Rightarrow> ed2k_codec \<Rightarrow> u8 \<Rightarrow> bytes \<Rightarrow> frame_error + bytes" where
  "decode_payload z c proto raw =
     (if proto = PROTO_PACKED then
        let limit = unat (max_decompressed_size c)
        in case inflate z raw (limit + 1) of
             None \<Rightarrow> Inl Decompress
           | Some out \<Rightarrow>
               if length out > limit then Inl (DecompressedTooLarge (max_decompressed_size c)) else Inr out
      else Inr raw)"

definition frame_decode :: "zlib \<Rightarrow> ed2k_codec \<Rightarrow> bytes \<Rightarrow> (frame_error + frame option) \<times> bytes" where
  "frame_decode z c src =
     (if length src < HEADER_LEN then (Inr None, src)
      else
        let proto = src ! 0
        in if proto \<noteq> PROTO_EDONKEY \<and> proto \<noteq> PROTO_PACKED then (Inl (InvalidMarker proto), src)
           else
             let len = header_length src
             in if len = 0 then (Inl EmptyFrame, src)
                else if len > max_frame_size c then (Inl (TooLarge len (max_frame_size c)), src)
                else
                  let total = HEADER_LEN + unat len - 1
                  in if length src < total then (Inr None, src)
                     else
                       let opcode = src ! 5; raw = take (unat len - 1) (drop HEADER_LEN src); src = drop total src
                       in case decode_payload z c proto raw of
                            Inl e \<Rightarrow> (Inl e, src)
                          | Inr payload \<Rightarrow> (Inr (Some \<lparr>fr_opcode = opcode, fr_payload = payload\<rparr>), src))"

definition decode_eof :: "zlib \<Rightarrow> ed2k_codec \<Rightarrow> bytes \<Rightarrow> (frame_error + frame option) \<times> bytes" where
  "decode_eof z c src = frame_decode z c src"

section \<open>Encoding\<close>

definition put_frame :: "u8 \<Rightarrow> u8 \<Rightarrow> bytes \<Rightarrow> bytes" where
  "put_frame proto opcode payload = proto # to_le 4 (length payload + 1) @ opcode # payload"

definition frame_encode :: "zlib \<Rightarrow> frame \<Rightarrow> bytes" where
  "frame_encode z f =
     (let plain = put_frame PROTO_EDONKEY (fr_opcode f) (fr_payload f)
      in if length (fr_payload f) > COMPRESS_THRESHOLD then
           (case deflate z (fr_payload f) of
              Some compressed \<Rightarrow>
                if length compressed < length (fr_payload f)
                then put_frame PROTO_PACKED (fr_opcode f) compressed else plain
            | None \<Rightarrow> plain)
         else plain)"

section \<open>Facts\<close>

lemma header_length_prefix: "HEADER_LEN \<le> length b \<Longrightarrow> header_length (b @ x) = header_length b"
  by (simp add: header_length_def HEADER_LEN_def)

lemma put_frame_length [simp]: "length (put_frame p o' x) = HEADER_LEN + length x"
  by (simp add: put_frame_def HEADER_LEN_def)

lemma put_frame_header:
  assumes "length x + 1 < 2 ^ 32"
  shows "header_length (put_frame p o' x @ r) = of_nat (length x + 1)" and "unat (header_length (put_frame p o' x @ r)) = length x + 1"
proof -
  have "from_le (to_le 4 (length x + 1)) = length x + 1" using assms by (intro from_le_to_le) simp
  then show h: "header_length (put_frame p o' x @ r) = of_nat (length x + 1)"
    by (simp add: header_length_def put_frame_def)
  show "unat (header_length (put_frame p o' x @ r)) = length x + 1"
    unfolding h using assms by (simp add: unat_of_nat del: of_nat_add of_nat_Suc)
qed

lemma decode_put_frame:
  assumes "proto = PROTO_EDONKEY \<or> proto = PROTO_PACKED" and "length x + 1 \<le> unat (max_frame_size c)"
  shows "frame_decode z c (put_frame proto opc x @ r) =
    (case decode_payload z c proto x of
       Inl e \<Rightarrow> (Inl e, r) | Inr p \<Rightarrow> (Inr (Some \<lparr>fr_opcode = opc, fr_payload = p\<rparr>), r))"
proof -
  have "unat (max_frame_size c) < 4294967296" using unsigned_less [of "max_frame_size c"] by simp
  then have "length x + 1 < 2 ^ 32" using assms(2) by simp
  note h = put_frame_header(2) [OF this, of proto opc r]
  have "header_length (put_frame proto opc x @ r) \<noteq> 0" using h by (metis unsigned_0 add_is_0 one_neq_zero)
  moreover have "\<not> header_length (put_frame proto opc x @ r) > max_frame_size c"
    using h assms(2) by (simp add: word_less_nat_alt not_less)
  moreover have "(put_frame proto opc x @ r) ! 0 = proto" "(put_frame proto opc x @ r) ! 5 = opc"
    by (simp_all add: put_frame_def nth_append)
  moreover have "take (length x) (drop HEADER_LEN (put_frame proto opc x @ r)) = x"
    by (simp_all add: put_frame_def HEADER_LEN_def)
  moreover have "drop (HEADER_LEN + length x) (put_frame proto opc x @ r) = r"
    by (metis append_eq_conv_conj put_frame_length)
  ultimately show ?thesis
    using assms(1) h by (auto simp: frame_decode_def Let_def)
qed

text \<open>Every frame survives the wire, whether or not it was worth compressing: decoding what was
  encoded gives the frame back and consumes exactly its bytes, for payloads within the
  receiver's frame and decompression limits.\<close>

theorem frame_round_trip:
  assumes "zlib_ok z" and "length (fr_payload f) + 1 \<le> unat (max_frame_size c)"
    and "length (fr_payload f) \<le> unat (max_decompressed_size c)"
  shows "frame_decode z c (frame_encode z f @ r) = (Inr (Some f), r)"
proof -
  have plain: "frame_decode z c (put_frame PROTO_EDONKEY (fr_opcode f) (fr_payload f) @ r) = (Inr (Some f), r)"
    using assms(2) by (simp add: decode_put_frame decode_payload_def PROTO_EDONKEY_def PROTO_PACKED_def)
  show ?thesis
  proof (cases "length (fr_payload f) > COMPRESS_THRESHOLD")
    case False
    then show ?thesis using plain by (simp add: frame_encode_def Let_def)
  next
    case True
    show ?thesis
    proof (cases "deflate z (fr_payload f)")
      case None
      then show ?thesis using plain by (simp add: frame_encode_def Let_def)
    next
      case (Some comp)
      show ?thesis
      proof (cases "length comp < length (fr_payload f)")
        case False
        then show ?thesis using plain Some by (simp add: frame_encode_def Let_def)
      next
        case small: True
        have "inflate z comp (unat (max_decompressed_size c) + 1) = Some (fr_payload f)"
          using assms(1,3) Some unfolding zlib_ok_def by (metis le_add1 le_trans take_all)
        then show ?thesis
          using True Some small assms(2,3) by (simp add: frame_encode_def Let_def decode_put_frame decode_payload_def)
      qed
    qed
  qed
qed

text \<open>A small instance: runs of zeros, packed as their length.\<close>

definition zero_runs :: zlib where
  "zero_runs = \<lparr>inflate = (\<lambda>c n. Some (take n (replicate (from_le c) 0))),
     deflate = (\<lambda>p. if p = replicate (length p) 0 \<and> length p < 256 ^ 8 then Some (to_le 8 (length p)) else None)\<rparr>"

lemma zero_runs_ok: "zlib_ok zero_runs"
proof -
  have "take n p = take n (replicate (from_le (to_le 8 (length p))) 0)"
    if "p = replicate (length p) (0 :: u8)" "length p < 256 ^ 8" for p n
    using that(1) from_le_to_le [OF that(2)] by simp
  then show ?thesis by (auto simp: zlib_ok_def zero_runs_def)
qed

theorem frame_round_trip_witness:
  "frame_decode zero_runs (ed2k_codec_new 1000000) (frame_encode zero_runs \<lparr>fr_opcode = 0x33, fr_payload = replicate 5000 0\<rparr> @ [1, 2]) =
     (Inr (Some \<lparr>fr_opcode = 0x33, fr_payload = replicate 5000 0\<rparr>), [1, 2])"
  by (rule frame_round_trip [OF zero_runs_ok]) (simp_all add: ed2k_codec_new_def DEFAULT_MAX_DECOMPRESSED_def)

text \<open>Bytes that arrive later change no verdict that was reached.\<close>

lemma decode_more:
  assumes "frame_decode z c b = (v, r)" and "v \<noteq> Inr None"
  shows "frame_decode z c (b @ x) = (v, r @ x)"
proof -
  have len: "HEADER_LEN \<le> length b" using assms by (auto simp: frame_decode_def split: if_splits)
  have hd: "(b @ x) ! 0 = b ! 0" "(b @ x) ! 5 = b ! 5" 
  proof -
    have "0 < length b" "5 < length b" using len unfolding HEADER_LEN_def by linarith+
    then show "(b @ x) ! 0 = b ! 0" "(b @ x) ! 5 = b ! 5" by (simp_all only: nth_append if_True)
  qed
  note [simp] = header_length_prefix [OF len] hd
  show ?thesis
    using assms len by (auto simp: frame_decode_def Let_def split: if_splits sum.splits)
qed

lemma decode_wait: "frame_decode z c b = (Inr None, r) \<Longrightarrow> r = b"
  by (auto simp: frame_decode_def Let_def split: if_splits sum.splits)

lemma decode_shorter: "frame_decode z c b = (Inr (Some f), r) \<Longrightarrow> length r < length b"
  by (auto simp: frame_decode_def Let_def HEADER_LEN_def split: if_splits sum.splits)

section \<open>The stream\<close>

text \<open>The read loop over the buffer: frames until the buffer holds no whole frame or an error ends
  the stream; the bytes left and the error, if any, come with them.\<close>

function drain :: "zlib \<Rightarrow> ed2k_codec \<Rightarrow> bytes \<Rightarrow> frame list \<times> frame_error option \<times> bytes" where
  "drain z c b =
     (case frame_decode z c b of
        (Inl e, r) \<Rightarrow> ([], Some e, r)
      | (Inr None, r) \<Rightarrow> ([], None, r)
      | (Inr (Some f), r) \<Rightarrow> let (fs, e, r') = drain z c r in (f # fs, e, r'))"
  by pat_completeness auto
termination
  by (relation "measure (\<lambda>(z, c, b). length b)") (auto dest: decode_shorter [OF sym])

declare drain.simps [simp del]

text \<open>Chunks as the socket delivers them; an error closes the connection.\<close>

fun feed :: "zlib \<Rightarrow> ed2k_codec \<Rightarrow> bytes \<Rightarrow> bytes list \<Rightarrow> frame list \<times> frame_error option" where
  "feed z c buf [] = ([], None)"
| "feed z c buf (chunk # chunks) =
     (case drain z c (buf @ chunk) of
        (fs, Some e, _) \<Rightarrow> (fs, Some e)
      | (fs, None, rest) \<Rightarrow> let (gs, e) = feed z c rest chunks in (fs @ gs, e))"

lemma drain_more:
  "drain z c b = (fs, e, r) \<Longrightarrow>
   drain z c (b @ x) = (case e of Some _ \<Rightarrow> (fs, e, r @ x) | None \<Rightarrow> (let (gs, e', r') = drain z c (r @ x) in (fs @ gs, e', r')))"
proof (induction z c b arbitrary: fs e r rule: drain.induct)
  case (1 z c b)
  obtain v b1 where d: "frame_decode z c b = (v, b1)" by force
  consider (err) er where "v = Inl er" | (wait) "v = Inr None" | (frame) f where "v = Inr (Some f)"
    by (cases v) (auto split: option.splits)
  then show ?case
  proof cases
    case err
    then have "fs = []" "e = Some er" "r = b1" using "1.prems" d by (subst (asm) drain.simps; simp)+
    then show ?thesis using decode_more [OF d, of x] err by (subst drain.simps) simp
  next
    case wait
    then have "fs = []" "e = None" "r = b" using "1.prems" d decode_wait by (subst (asm) drain.simps; auto)+
    then show ?thesis by (auto split: prod.split)
  next
    case frame
    obtain gs e' r' where rec: "drain z c b1 = (gs, e', r')" by (metis prod_cases3)
    have "drain z c b = (f # gs, e', r')" by (subst drain.simps) (simp add: d frame rec)
    then have eq: "fs = f # gs" "e = e'" "r = r'" using "1.prems" by simp_all
    have "drain z c (b @ x) = (let (fs, e, r') = drain z c (b1 @ x) in (f # fs, e, r'))"
      using decode_more [OF d, of x] frame by (subst drain.simps) simp
    then show ?thesis using "1.IH" [OF d [symmetric] frame refl rec] eq
      by (auto split: option.splits prod.splits)
  qed
qed

lemma feed_one: "feed z c buf [x] = (case drain z c (buf @ x) of (fs, e, _) \<Rightarrow> (fs, e))"
  by (simp split: prod.split option.split)

lemma feed_chunks:
  assumes "chunks \<noteq> []"
  shows "feed z c buf chunks = feed z c buf [concat chunks]"
  using assms
proof (induction chunks arbitrary: buf)
  case (Cons ch chs)
  obtain fs e r where d: "drain z c (buf @ ch) = (fs, e, r)" by (metis prod_cases3)
  show ?case
  proof (cases chs)
    case Nil
    then show ?thesis by simp
  next
    case (Cons ch' rest)
    then have ih: "feed z c r chs = feed z c r [concat chs]" using Cons.IH by blast
    show ?thesis
    proof (cases e)
      case None
      obtain gs e' r' where d2: "drain z c (r @ concat chs) = (gs, e', r')" by (metis prod_cases3)
      have "drain z c (buf @ ch @ concat chs) = (fs @ gs, e', r')"
        using drain_more [OF d, of "concat chs"] None d2 by simp
      then have "feed z c buf [concat (ch # chs)] = (fs @ gs, e')" by (simp only: feed_one concat.simps) simp
      moreover have "feed z c r chs = (gs, e')" using ih d2 by (simp only: feed_one) simp
      ultimately show ?thesis using d None by simp
    next
      case (Some er)
      have "drain z c (buf @ ch @ concat chs) = (fs, Some er, r @ concat chs)"
        using drain_more [OF d, of "concat chs"] Some by simp
      then have "feed z c buf [concat (ch # chs)] = (fs, Some er)" by (simp only: feed_one concat.simps) simp
      then show ?thesis using d Some by simp
    qed
  qed
qed simp


text \<open>C35: How the stream is cut into reads makes no difference: feeding the chunks one by one yields
  the same frames, and the same error if there is one, as decoding them in one piece.\<close>

theorem chunking_independent:
  "feed z c buf (chunk # chunks) = feed z c buf [concat (chunk # chunks)]"
  by (rule feed_chunks) simp

end
