(* ===== verification/File_Slab.thy ===== *)
theory File_Slab
  imports Posting_Codec Media
begin

text \<open>
  The file slab (\<open>src/state/file_id.rs\<close>): records in shards, file ids that name a shard and a
  slot, the intrusive bucket chains that index a shard by hash, quarantined reuse of dead
  slots, and the sources of a file. The chain walks are loops over links that nothing but
  the invariant keeps acyclic and in range: they are partial functions, and \<open>None\<close> is a walk
  that panics or does not end. A shard lock makes each operation atomic.
\<close>

section \<open>Chunked vectors\<close>

definition RECORD_CHUNK :: nat where "RECORD_CHUNK = 1024"

record 'a chunked_vec =
  cv_chunks :: "'a list list"
  cv_len :: nat

definition cv_new :: "'a chunked_vec" where
  "cv_new = \<lparr>cv_chunks = [], cv_len = 0\<rparr>"

definition cv_capacity :: "'a chunked_vec \<Rightarrow> nat" where
  "cv_capacity v = length (cv_chunks v) * RECORD_CHUNK"

definition cv_push :: "'a \<Rightarrow> 'a chunked_vec \<Rightarrow> 'a chunked_vec" where
  "cv_push x v =
     (let chunks = (if cv_len v = cv_capacity v then cv_chunks v @ [[]] else cv_chunks v)
      in \<lparr>cv_chunks = butlast chunks @ [last chunks @ [x]], cv_len = cv_len v + 1\<rparr>)"

definition cv_get :: "nat \<Rightarrow> 'a chunked_vec \<Rightarrow> 'a option" where
  "cv_get i v =
     (let c = i div RECORD_CHUNK; o' = i mod RECORD_CHUNK
      in if c < length (cv_chunks v) \<and> o' < length (cv_chunks v ! c) then Some (cv_chunks v ! c ! o') else None)"

text \<open>A write through \<open>get_mut\<close> or \<open>index_mut\<close>, within range.\<close>

definition cv_set :: "nat \<Rightarrow> 'a \<Rightarrow> 'a chunked_vec \<Rightarrow> 'a chunked_vec" where
  "cv_set i x v =
     (let c = i div RECORD_CHUNK
      in v\<lparr>cv_chunks := (cv_chunks v)[c := (cv_chunks v ! c)[i mod RECORD_CHUNK := x]]\<rparr>)"

definition cv_iter :: "'a chunked_vec \<Rightarrow> 'a list" where
  "cv_iter v = concat (cv_chunks v)"

text \<open>Every chunk but the last is full.\<close>

definition cv_ok :: "'a chunked_vec \<Rightarrow> bool" where
  "cv_ok v \<longleftrightarrow> cv_len v = length (cv_iter v) \<and>
     (\<forall>c\<in>set (butlast (cv_chunks v)). length c = RECORD_CHUNK) \<and>
     (cv_chunks v \<noteq> [] \<longrightarrow> length (last (cv_chunks v)) \<le> RECORD_CHUNK \<and> last (cv_chunks v) \<noteq> [])"

subsection \<open>A growable array\<close>

text \<open>What the slab relies on of the vector that holds its records.\<close>

locale growable_array =
  fixes push :: "'a \<Rightarrow> 's \<Rightarrow> 's" and get :: "nat \<Rightarrow> 's \<Rightarrow> 'a option" and put :: "nat \<Rightarrow> 'a \<Rightarrow> 's \<Rightarrow> 's"
    and elems :: "'s \<Rightarrow> 'a list" and size_of :: "'s \<Rightarrow> nat" and invar :: "'s \<Rightarrow> bool"
  assumes push_elems: "invar v \<Longrightarrow> elems (push x v) = elems v @ [x]"
    and get_elems: "invar v \<Longrightarrow> get i v = (if i < length (elems v) then Some (elems v ! i) else None)"
    and put_elems: "invar v \<Longrightarrow> i < length (elems v) \<Longrightarrow> elems (put i x v) = (elems v)[i := x]"
    and size_elems: "invar v \<Longrightarrow> size_of v = length (elems v)"
    and push_invar: "invar v \<Longrightarrow> invar (push x v)"
    and put_invar: "invar v \<Longrightarrow> i < length (elems v) \<Longrightarrow> invar (put i x v)"
begin

text \<open>Growth never moves an element.\<close>

lemma push_stable: "invar v \<Longrightarrow> get i v = Some y \<Longrightarrow> get i (push x v) = Some y"
  by (auto simp: get_elems push_elems push_invar nth_append split: if_splits)

lemma get_after_push: "invar v \<Longrightarrow> get (size_of v) (push x v) = Some x"
  by (simp add: get_elems push_elems push_invar size_elems)

lemma get_after_put: "invar v \<Longrightarrow> i < size_of v \<Longrightarrow> get j (put i x v) = (if j = i then Some x else get j v)"
  by (auto simp: get_elems put_elems put_invar size_elems)

end

lemma length_full_chunks: "\<forall>c\<in>set cs. length c = n \<Longrightarrow> length (concat cs) = length cs * n"
  by (induction cs) auto

lemma nth_full_chunks:
  "\<forall>c\<in>set cs. length c = n \<Longrightarrow> 0 < n \<Longrightarrow> i < length cs * n \<Longrightarrow> concat cs ! i = cs ! (i div n) ! (i mod n)"
proof (induction cs arbitrary: i)
  case (Cons c cs)
  show ?case
  proof (cases "i < n")
    case False
    then have "i - n < length cs * n" "i div n = Suc ((i - n) div n)" "i mod n = (i - n) mod n"
      using Cons.prems by (auto simp: le_div_geq le_mod_geq)
    then show ?thesis using Cons.IH [of "i - n"] Cons.prems False by (simp add: nth_append)
  qed (use Cons.prems in \<open>simp add: nth_append\<close>)
qed simp

lemma update_full_chunks:
  "\<forall>c\<in>set cs. length c = n \<Longrightarrow> 0 < n \<Longrightarrow> i < length cs * n \<Longrightarrow>
   concat (cs[i div n := (cs ! (i div n))[i mod n := x]]) = (concat cs)[i := x]"
proof (induction cs arbitrary: i)
  case (Cons c cs)
  show ?case
  proof (cases "i < n")
    case False
    then have "i - n < length cs * n" "i div n = Suc ((i - n) div n)" "i mod n = (i - n) mod n"
      using Cons.prems by (auto simp: le_div_geq le_mod_geq)
    then show ?thesis using Cons.IH [of "i - n"] Cons.prems False by (simp add: list_update_append)
  qed (use Cons.prems in \<open>simp add: list_update_append\<close>)
qed simp

text \<open>A well-formed vector is empty, or full chunks and a last one with something in it.\<close>

lemma cv_okE:
  assumes "cv_ok v"
  obtains "cv_chunks v = []" "cv_len v = 0" "cv_iter v = []"
  | bs l where "cv_chunks v = bs @ [l]" "\<forall>c\<in>set bs. length c = RECORD_CHUNK" "l \<noteq> []" "length l \<le> RECORD_CHUNK"
      "cv_iter v = concat bs @ l" "cv_len v = length bs * RECORD_CHUNK + length l"
proof (cases "cv_chunks v" rule: rev_cases)
  case Nil
  then show ?thesis using assms that(1) by (simp add: cv_ok_def cv_iter_def)
next
  case (snoc bs l)
  then show ?thesis using assms that(2) [of bs l] length_full_chunks [of bs RECORD_CHUNK]
    by (simp add: cv_ok_def cv_iter_def)
qed

lemma chunk_pos: "0 < RECORD_CHUNK"
  by (simp add: RECORD_CHUNK_def)

lemma last_chunk_index:
  assumes "k * RECORD_CHUNK \<le> i" and "i < k * RECORD_CHUNK + m" and "m \<le> RECORD_CHUNK"
  shows "i div RECORD_CHUNK = k \<and> i mod RECORD_CHUNK = i - k * RECORD_CHUNK"
proof -
  have "i = k * RECORD_CHUNK + (i - k * RECORD_CHUNK)" "i - k * RECORD_CHUNK < RECORD_CHUNK" using assms by auto
  then show ?thesis by (metis add.right_neutral div_mult_self3 div_less mod_less mod_mult_self3 chunk_pos less_not_refl)
qed

interpretation cv: growable_array cv_push cv_get cv_set cv_iter cv_len cv_ok
proof
  fix v :: "'a chunked_vec" and x :: 'a and i :: nat
  assume ok: "cv_ok v"
  have push: "cv_iter (cv_push x v) = cv_iter v @ [x] \<and> cv_ok (cv_push x v)"
    using ok
  proof (cases rule: cv_okE)
    case 1
    then show ?thesis using chunk_pos by (simp add: cv_push_def cv_capacity_def cv_iter_def cv_ok_def)
  next
    case (2 bs l)
    note lbs = length_full_chunks [OF 2(2)]
    show ?thesis
    proof (cases "length l = RECORD_CHUNK")
      case True
      then show ?thesis using 2 chunk_pos lbs by (auto simp: cv_push_def cv_capacity_def cv_iter_def cv_ok_def Let_def butlast_append)
    next
      case False
      then have "cv_len v \<noteq> cv_capacity v" using 2 by (simp add: cv_capacity_def)
      then show ?thesis using 2 False lbs by (auto simp: cv_push_def cv_iter_def cv_ok_def Let_def)
    qed
  qed
  then show "cv_iter (cv_push x v) = cv_iter v @ [x]" "cv_ok (cv_push x v)" by auto
  show "cv_len v = length (cv_iter v)" using ok by (simp add: cv_ok_def)
  show "cv_get i v = (if i < length (cv_iter v) then Some (cv_iter v ! i) else None)"
    using ok
  proof (cases rule: cv_okE)
    case 1
    then show ?thesis by (simp add: cv_get_def Let_def)
  next
    case (2 bs l)
    have lbs: "length (concat bs) = length bs * RECORD_CHUNK" using 2 by (simp add: length_full_chunks)
    consider (lo) "i < length bs * RECORD_CHUNK" | (mid) "length bs * RECORD_CHUNK \<le> i" "i < length bs * RECORD_CHUNK + length l"
      | (hi) "length bs * RECORD_CHUNK + length l \<le> i" by linarith
    then show ?thesis
    proof cases
      case lo
      then have "i div RECORD_CHUNK < length bs" by (simp add: less_mult_imp_div_less)
      then show ?thesis using 2 lo lbs chunk_pos nth_full_chunks [OF 2(2) chunk_pos lo]
        by (simp add: cv_get_def Let_def nth_append)
    next
      case mid
      then show ?thesis using 2 lbs last_chunk_index [OF mid 2(4)]
        by (simp add: cv_get_def Let_def nth_append)
    next
      case hi
      have "\<not> (i div RECORD_CHUNK = length bs \<and> i mod RECORD_CHUNK < length l)"
      proof
        assume "i div RECORD_CHUNK = length bs \<and> i mod RECORD_CHUNK < length l"
        then have "i < length bs * RECORD_CHUNK + length l" by (metis add_less_cancel_left div_mult_mod_eq)
        then show False using hi by simp
      qed
      moreover have "\<not> i div RECORD_CHUNK < length bs"
        using hi by (metis add_leD1 div_le_mono nonzero_mult_div_cancel_right chunk_pos less_not_refl not_le)
      ultimately show ?thesis using 2 lbs hi by (auto simp: cv_get_def Let_def nth_append less_Suc_eq)
    qed
  qed
  assume i: "i < length (cv_iter v)"
  have put: "cv_iter (cv_set i x v) = (cv_iter v)[i := x] \<and> cv_ok (cv_set i x v)"
    using ok
  proof (cases rule: cv_okE)
    case 1
    then show ?thesis using i by simp
  next
    case (2 bs l)
    have lbs: "length (concat bs) = length bs * RECORD_CHUNK" using 2 by (simp add: length_full_chunks)
    show ?thesis
    proof (cases "i < length bs * RECORD_CHUNK")
      case True
      then have c: "i div RECORD_CHUNK < length bs" by (simp add: less_mult_imp_div_less)
      let ?bs = "bs[i div RECORD_CHUNK := (bs ! (i div RECORD_CHUNK))[i mod RECORD_CHUNK := x]]"
      have ch: "cv_chunks (cv_set i x v) = ?bs @ [l]" using 2 c by (simp add: cv_set_def Let_def list_update_append nth_append)
      have full: "\<forall>c\<in>set ?bs. length c = RECORD_CHUNK" using 2(2) c by (auto dest!: set_update_subset_insert [THEN subsetD])
      show ?thesis using 2 ch full update_full_chunks [OF 2(2) chunk_pos True] True lbs length_full_chunks [OF full]
        by (simp add: cv_iter_def cv_ok_def list_update_append) (simp add: cv_set_def Let_def)
    next
      case False
      then have mid: "length bs * RECORD_CHUNK \<le> i" "i < length bs * RECORD_CHUNK + length l" using i 2 lbs by auto
      note ix = last_chunk_index [OF mid 2(4)]
      have ch: "cv_chunks (cv_set i x v) = bs @ [l[i - length bs * RECORD_CHUNK := x]]"
        using 2 ix by (simp add: cv_set_def Let_def list_update_append nth_append)
      show ?thesis using 2 ch False lbs
        by (simp add: cv_iter_def cv_ok_def list_update_append) (simp add: cv_set_def Let_def)
    qed
  qed
  then show "cv_iter (cv_set i x v) = (cv_iter v)[i := x]" "cv_ok (cv_set i x v)" by auto
qed


section \<open>Records, ids and hashes\<close>

type_synonym file_hash = bytes

record source =
  so_user_hash :: bytes
  so_ipv4 :: u32
  so_port :: u16
  so_complete :: bool

text \<open>The name doubles as the liveness flag: a dead record has none.\<close>

record file_record =
  fr_hash :: file_hash
  fr_size :: u64
  fr_fname :: "rstr option"
  fr_sources :: "source list"

definition record_new :: "file_hash \<Rightarrow> u64 \<Rightarrow> rstr \<Rightarrow> source list \<Rightarrow> file_record" where
  "record_new h sz name srcs = \<lparr>fr_hash = h, fr_size = sz, fr_fname = Some name, fr_sources = srcs\<rparr>"

definition record_name :: "file_record \<Rightarrow> rstr" where
  "record_name r = (case fr_fname r of Some n \<Rightarrow> n | None \<Rightarrow> [])"

definition record_alive :: "file_record \<Rightarrow> bool" where
  "record_alive r \<longleftrightarrow> fr_fname r \<noteq> None"

definition complete_source_count :: "file_record \<Rightarrow> u32" where
  "complete_source_count r = of_nat (length (filter so_complete (fr_sources r)))"

definition SLAB_SHARDS :: u32 where "SLAB_SHARDS = 64"
definition SLAB_INDEX_BITS :: nat where "SLAB_INDEX_BITS = 26"
definition SLAB_INDEX_MASK :: u32 where "SLAB_INDEX_MASK = push_bit SLAB_INDEX_BITS 1 - 1"
definition NIL :: u32 where "NIL = - 1"
definition SLAB_SHARD_INIT_BUCKETS :: nat where "SLAB_SHARD_INIT_BUCKETS = 64"
definition SLOT_QUARANTINE_SECS :: u32 where "SLOT_QUARANTINE_SECS = 60"

definition id_shard :: "file_id \<Rightarrow> nat" where
  "id_shard i = unat (drop_bit SLAB_INDEX_BITS (fid i))"

definition id_index :: "file_id \<Rightarrow> nat" where
  "id_index i = unat (fid i AND SLAB_INDEX_MASK)"

definition make_id :: "u32 \<Rightarrow> u32 \<Rightarrow> file_id" where
  "make_id shard index = FileId (push_bit SLAB_INDEX_BITS shard OR (index AND SLAB_INDEX_MASK))"

definition hash_u64 :: "file_hash \<Rightarrow> u64" where
  "hash_u64 h = of_nat (from_le (take 8 h))"

definition shard_of_hash :: "file_hash \<Rightarrow> u32" where
  "shard_of_hash h = ucast (hash_u64 h AND (ucast SLAB_SHARDS - 1))"

definition bucket_of :: "u64 \<Rightarrow> u32 \<Rightarrow> nat" where
  "bucket_of h m = unat ((ucast (drop_bit 6 h) :: u32) AND m)"

section \<open>A shard\<close>

text \<open>The records are the elements of their chunked vector, by the interpretation \<open>cv\<close>.\<close>

record slab_shard =
  sh_records :: "file_record list"
  sh_next :: "u32 list"
  sh_buckets :: "u32 list"
  sh_bucket_mask :: u32
  sh_free :: "(u32 \<times> u32) list"
  sh_media :: "u32 \<rightharpoonup> media"

definition shard_new :: slab_shard where
  "shard_new = \<lparr>sh_records = [], sh_next = [], sh_buckets = replicate SLAB_SHARD_INIT_BUCKETS NIL,
     sh_bucket_mask = of_nat (SLAB_SHARD_INIT_BUCKETS - 1), sh_free = [], sh_media = Map.empty\<rparr>"

abbreviation bucket_in :: "slab_shard \<Rightarrow> file_hash \<Rightarrow> nat" where
  "bucket_in sh h \<equiv> bucket_of (hash_u64 h) (sh_bucket_mask sh)"

definition link :: "u32 \<Rightarrow> slab_shard \<Rightarrow> slab_shard" where
  "link index sh =
     (let b = bucket_in sh (fr_hash (sh_records sh ! unat index))
      in sh\<lparr>sh_next := (sh_next sh)[unat index := sh_buckets sh ! b],
            sh_buckets := (sh_buckets sh)[b := index]\<rparr>)"

text \<open>The walk of \<open>unlink\<close>; reading a link out of range would panic.\<close>

partial_function (option) unlink_from :: "u32 \<Rightarrow> nat \<Rightarrow> u32 \<Rightarrow> u32 \<Rightarrow> slab_shard \<Rightarrow> slab_shard option" where
  "unlink_from index b cur prev sh =
     (if cur = NIL then Some sh
      else if unat cur \<ge> length (sh_next sh) then None
      else if cur = index then
        Some (let after = sh_next sh ! unat cur;
                  sh = (if prev = NIL then sh\<lparr>sh_buckets := (sh_buckets sh)[b := after]\<rparr>
                        else sh\<lparr>sh_next := (sh_next sh)[unat prev := after]\<rparr>)
              in sh\<lparr>sh_next := (sh_next sh)[unat cur := NIL]\<rparr>)
      else unlink_from index b (sh_next sh ! unat cur) cur sh)"

definition unlink :: "u32 \<Rightarrow> file_hash \<Rightarrow> slab_shard \<Rightarrow> slab_shard option" where
  "unlink index h sh =
     (let b = bucket_in sh h
      in if b < length (sh_buckets sh) then unlink_from index b (sh_buckets sh ! b) NIL sh else None)"

text \<open>One record of the re-chaining loop of \<open>grow_buckets\<close>.\<close>

definition rechain :: "nat \<Rightarrow> slab_shard \<Rightarrow> slab_shard" where
  "rechain i sh =
     (if record_alive (sh_records sh ! i)
      then let b = bucket_in sh (fr_hash (sh_records sh ! i))
           in sh\<lparr>sh_next := (sh_next sh)[i := sh_buckets sh ! b], sh_buckets := (sh_buckets sh)[b := of_nat i]\<rparr>
      else sh\<lparr>sh_next := (sh_next sh)[i := NIL]\<rparr>)"

definition grow_buckets :: "slab_shard \<Rightarrow> slab_shard" where
  "grow_buckets sh =
     (let new_len = max (length (sh_buckets sh) * 2) SLAB_SHARD_INIT_BUCKETS
      in fold rechain [0..<length (sh_records sh)]
           (sh\<lparr>sh_buckets := replicate new_len NIL, sh_bucket_mask := of_nat (new_len - 1)\<rparr>))"

partial_function (option) find_from :: "slab_shard \<Rightarrow> file_hash \<Rightarrow> u32 \<Rightarrow> u32 option option" where
  "find_from sh h cur =
     (if cur = NIL then Some None
      else if unat cur \<ge> length (sh_records sh) \<or> unat cur \<ge> length (sh_next sh) then None
      else let r = sh_records sh ! unat cur
           in if record_alive r \<and> fr_hash r = h then Some (Some cur)
              else find_from sh h (sh_next sh ! unat cur))"

definition shard_find :: "file_hash \<Rightarrow> slab_shard \<Rightarrow> u32 option option" where
  "shard_find h sh =
     (let b = bucket_in sh h in if b < length (sh_buckets sh) then find_from sh h (sh_buckets sh ! b) else None)"

declare unlink_from.simps [code] find_from.simps [code]

definition push_and_link :: "file_record \<Rightarrow> slab_shard \<Rightarrow> u32 \<times> slab_shard" where
  "push_and_link rec sh =
     (let index = of_nat (length (sh_records sh)) :: u32;
          sh = sh\<lparr>sh_records := sh_records sh @ [rec], sh_next := sh_next sh @ [NIL]\<rparr>
      in (index, if length (sh_records sh) > length (sh_buckets sh) then grow_buckets sh else link index sh))"

definition insert_record :: "file_record \<Rightarrow> u32 \<Rightarrow> u32 \<Rightarrow> slab_shard \<Rightarrow> u32 \<times> slab_shard" where
  "insert_record rec now quarantine sh =
     (case sh_free sh of
        (idx, freed_at) # rest \<Rightarrow>
          if now - freed_at \<ge> quarantine
          then (idx, link idx (sh\<lparr>sh_free := rest, sh_records := (sh_records sh)[unat idx := rec],
                                  sh_media := (sh_media sh)(idx := None), sh_next := (sh_next sh)[unat idx := NIL]\<rparr>))
          else push_and_link rec sh
      | [] \<Rightarrow> push_and_link rec sh)"


section \<open>Chains\<close>

text \<open>A walk from \<open>c\<close> over the nodes \<open>xs\<close> that ends at \<open>d\<close>.\<close>

fun seg :: "u32 list \<Rightarrow> u32 \<Rightarrow> u32 list \<Rightarrow> u32 \<Rightarrow> bool" where
  "seg nx c [] d \<longleftrightarrow> c = d"
| "seg nx c (x # xs) d \<longleftrightarrow> c = x \<and> x \<noteq> NIL \<and> unat x < length nx \<and> seg nx (nx ! unat x) xs d"

abbreviation chain :: "u32 list \<Rightarrow> u32 \<Rightarrow> u32 list \<Rightarrow> bool" where
  "chain nx c xs \<equiv> seg nx c xs NIL"

lemma seg_append: "seg nx c (xs @ ys) d \<longleftrightarrow> (\<exists>m. seg nx c xs m \<and> seg nx m ys d)"
  by (induction xs arbitrary: c) auto

lemma nth_update_other: "x \<noteq> y \<Longrightarrow> (nx[unat y := v]) ! unat x = nx ! unat x" for x y :: u32
  by (metis nth_list_update_neq unsigned_word_eqI)

lemma seg_update: "y \<notin> set xs \<Longrightarrow> seg (nx[unat y := v]) c xs d = seg nx c xs d"
proof (induction xs arbitrary: c)
  case (Cons x xs)
  have "(nx[unat y := v]) ! unat x = nx ! unat x" using Cons.prems by (intro nth_update_other) auto
  then show ?case using Cons by simp
qed simp

lemma seg_set: "seg nx c xs d \<Longrightarrow> x \<in> set xs \<Longrightarrow> unat x < length nx \<and> x \<noteq> NIL"
  by (induction xs arbitrary: c) auto

lemma seg_extend: "seg nx c xs d \<Longrightarrow> seg (nx @ ys) c xs d"
  by (induction xs arbitrary: c) (auto simp: nth_append)

abbreviation hash_at :: "slab_shard \<Rightarrow> u32 \<Rightarrow> file_hash" where
  "hash_at sh x \<equiv> fr_hash (sh_records sh ! unat x)"

text \<open>The chains hold exactly the slots of \<open>A\<close>, each in the bucket of its hash.\<close>

definition linked :: "slab_shard \<Rightarrow> u32 set \<Rightarrow> bool" where
  "linked sh A \<longleftrightarrow> length (sh_next sh) = length (sh_records sh) \<and>
     length (sh_records sh) \<le> 2 ^ 26 \<and> length (sh_buckets sh) = unat (sh_bucket_mask sh) + 1 \<and>
     (\<forall>x\<in>A. unat x < length (sh_records sh)) \<and>
     (\<forall>b<length (sh_buckets sh). \<exists>xs. chain (sh_next sh) (sh_buckets sh ! b) xs \<and> distinct xs \<and>
        set xs = {x\<in>A. bucket_in sh (hash_at sh x) = b})"

lemma linkedE:
  assumes "linked sh A" and "b < length (sh_buckets sh)"
  obtains xs where "chain (sh_next sh) (sh_buckets sh ! b) xs" "distinct xs" "set xs = {x\<in>A. bucket_in sh (hash_at sh x) = b}"
  using assms unfolding linked_def by blast

lemma bucket_in_range: "linked sh A \<Longrightarrow> bucket_in sh h < length (sh_buckets sh)"
proof -
  have "(ucast (drop_bit 6 (hash_u64 h)) :: u32) AND sh_bucket_mask sh \<le> sh_bucket_mask sh" by (rule word_and_le1)
  then show "linked sh A \<Longrightarrow> bucket_in sh h < length (sh_buckets sh)"
    by (simp add: linked_def bucket_of_def word_le_nat_alt less_Suc_eq_le)
qed

lemma NIL_large: "unat x < length (sh_records sh) \<Longrightarrow> length (sh_records sh) \<le> 2 ^ 26 \<Longrightarrow> x \<noteq> NIL"
  by (auto simp: NIL_def unat_minus_one_word_len)

lemma link_linked:
  assumes "linked sh A" and "x \<notin> A" and "unat x < length (sh_records sh)"
  shows "linked (link x sh) (insert x A)"
proof -
  let ?b = "bucket_in sh (hash_at sh x)"
  have len: "length (sh_next sh) = length (sh_records sh)" "length (sh_records sh) \<le> 2 ^ 26" using assms(1) by (auto simp: linked_def)
  have b: "?b < length (sh_buckets sh)" by (rule bucket_in_range [OF assms(1)])
  have nil: "x \<noteq> NIL" by (rule NIL_large [OF assms(3) len(2)])
  have "\<exists>xs. chain (sh_next (link x sh)) (sh_buckets (link x sh) ! c) xs \<and> distinct xs \<and>
      set xs = {y \<in> insert x A. bucket_in sh (hash_at sh y) = c}" if c: "c < length (sh_buckets sh)" for c
  proof -
    obtain xs where xs: "chain (sh_next sh) (sh_buckets sh ! c) xs" "distinct xs" "set xs = {y\<in>A. bucket_in sh (hash_at sh y) = c}"
      by (rule linkedE [OF assms(1) c])
    have nin: "x \<notin> set xs" using xs(3) assms(2) by auto
    show ?thesis
    proof (cases "c = ?b")
      case True
      have "chain (sh_next (link x sh)) x (x # xs)"
        using xs(1) nin nil assms(3) len b by (simp add: link_def Let_def seg_update True)
      then show ?thesis using True xs nin b by (intro exI [of _ "x # xs"]) (auto simp: link_def Let_def)
    next
      case False
      then show ?thesis using xs nin by (intro exI [of _ xs]) (auto simp: link_def Let_def seg_update)
    qed
  qed
  then show ?thesis using assms by (auto simp: linked_def link_def Let_def)
qed

lemma linked_cong:
  assumes "linked sh A" and "sh_next sh' = sh_next sh" and "sh_buckets sh' = sh_buckets sh" and "sh_bucket_mask sh' = sh_bucket_mask sh"
    and "length (sh_records sh') = length (sh_records sh)" and "\<And>x. x \<in> A \<Longrightarrow> hash_at sh' x = hash_at sh x"
  shows "linked sh' A"
proof -
  have "{x\<in>A. bucket_in sh' (hash_at sh' x) = b} = {x\<in>A. bucket_in sh (hash_at sh x) = b}" for b
    using assms(4,6) by auto
  then show ?thesis using assms(1-5) by (simp add: linked_def)
qed

lemma linked_update_next:
  assumes "linked sh A" and "x \<notin> A"
  shows "linked (sh\<lparr>sh_next := (sh_next sh)[unat x := v]\<rparr>) A"
proof -
  have "\<exists>xs. chain ((sh_next sh)[unat x := v]) (sh_buckets sh ! b) xs \<and> distinct xs \<and>
      set xs = {y\<in>A. bucket_in sh (hash_at sh y) = b}" if b: "b < length (sh_buckets sh)" for b
  proof -
    obtain xs where xs: "chain (sh_next sh) (sh_buckets sh ! b) xs" "distinct xs" "set xs = {y\<in>A. bucket_in sh (hash_at sh y) = b}"
      by (rule linkedE [OF assms(1) b])
    then have "x \<notin> set xs" using assms(2) by auto
    then show ?thesis using xs by (intro exI [of _ xs]) (simp add: seg_update)
  qed
  then show ?thesis using assms(1) by (auto simp: linked_def)
qed


subsection \<open>Finding a hash\<close>

lemma find_from_chain:
  "chain (sh_next sh) c xs \<Longrightarrow> length (sh_next sh) = length (sh_records sh) \<Longrightarrow>
   find_from sh h c = Some (List.find (\<lambda>x. record_alive (sh_records sh ! unat x) \<and> hash_at sh x = h) xs)"
proof (induction xs arbitrary: c)
  case Nil
  then show ?case by (subst find_from.simps) simp
next
  case (Cons x xs)
  then show ?case by (subst find_from.simps) (auto simp: Let_def)
qed

text \<open>The invariant of a shard: the chains hold exactly the live slots, no two of which share a hash,
  the free list holds dead slots, each once, and only live slots have media fields.\<close>

definition alive_in :: "slab_shard \<Rightarrow> u32 \<Rightarrow> bool" where
  "alive_in sh x \<longleftrightarrow> unat x < length (sh_records sh) \<and> record_alive (sh_records sh ! unat x)"

definition slab_shard_ok :: "slab_shard \<Rightarrow> bool" where
  "slab_shard_ok sh \<longleftrightarrow> linked sh {x. alive_in sh x} \<and> length (sh_buckets sh) \<le> 2 ^ 27 \<and>
     (\<forall>x y. alive_in sh x \<longrightarrow> alive_in sh y \<longrightarrow> hash_at sh x = hash_at sh y \<longrightarrow> x = y) \<and>
     distinct (map fst (sh_free sh)) \<and> (\<forall>(x, t)\<in>set (sh_free sh). unat x < length (sh_records sh) \<and> \<not> alive_in sh x) \<and>
     (\<forall>x\<in>dom (sh_media sh). alive_in sh x)"

lemma shard_find_ok:
  assumes "slab_shard_ok sh"
  shows "\<exists>r. shard_find h sh = Some r \<and> (\<forall>x. r = Some x \<longleftrightarrow> alive_in sh x \<and> hash_at sh x = h)"
proof -
  let ?P = "\<lambda>x. record_alive (sh_records sh ! unat x) \<and> hash_at sh x = h"
  have lk: "linked sh {x. alive_in sh x}" using assms by (simp add: slab_shard_ok_def)
  have b: "bucket_in sh h < length (sh_buckets sh)" by (rule bucket_in_range [OF lk])
  obtain xs where xs: "chain (sh_next sh) (sh_buckets sh ! bucket_in sh h) xs"
      "set xs = {x \<in> {x. alive_in sh x}. bucket_in sh (hash_at sh x) = bucket_in sh h}"
    by (rule linkedE [OF lk b])
  have f: "shard_find h sh = Some (List.find ?P xs)"
    using find_from_chain [OF xs(1)] lk b by (simp add: shard_find_def linked_def)
  have "List.find ?P xs = Some x \<longleftrightarrow> alive_in sh x \<and> hash_at sh x = h" for x
  proof
    assume "List.find ?P xs = Some x"
    then show "alive_in sh x \<and> hash_at sh x = h" using xs(2) by (auto simp: find_Some_iff) 
  next
    assume x: "alive_in sh x \<and> hash_at sh x = h"
    then have "x \<in> set xs" "?P x" using xs(2) by (auto simp: alive_in_def)
    then obtain y where y: "List.find ?P xs = Some y" by (cases "List.find ?P xs") (auto simp: find_None_iff)
    then have "alive_in sh y \<and> hash_at sh y = h" using xs(2) by (auto simp: find_Some_iff)
    then have "y = x" using assms x unfolding slab_shard_ok_def by metis
    then show "List.find ?P xs = Some x" using y by simp
  qed
  then show ?thesis using f by blast
qed

subsection \<open>Unlinking\<close>

definition cut_after :: "nat \<Rightarrow> u32 \<Rightarrow> u32 \<Rightarrow> slab_shard \<Rightarrow> slab_shard" where
  "cut_after b prev x sh =
     (let after = sh_next sh ! unat x;
          sh = (if prev = NIL then sh\<lparr>sh_buckets := (sh_buckets sh)[b := after]\<rparr>
                else sh\<lparr>sh_next := (sh_next sh)[unat prev := after]\<rparr>)
      in sh\<lparr>sh_next := (sh_next sh)[unat x := NIL]\<rparr>)"

lemma unlink_from_chain:
  "seg (sh_next sh) c (us @ x # vs) NIL \<Longrightarrow> x \<notin> set us \<Longrightarrow>
   unlink_from x b c prev sh = Some (cut_after b (last (prev # us)) x sh)"
proof (induction us arbitrary: c prev)
  case Nil
  then show ?case by (subst unlink_from.simps) (auto simp: cut_after_def Let_def)
next
  case (Cons u us)
  have "unlink_from x b c prev sh = unlink_from x b (sh_next sh ! unat u) u sh"
    using Cons.prems by (subst unlink_from.simps) auto
  moreover have "unlink_from x b (sh_next sh ! unat u) u sh = Some (cut_after b (last (u # us)) x sh)"
    by (rule Cons.IH) (use Cons.prems in auto)
  ultimately show ?case by simp
qed

lemma seg_cut:
  assumes "seg nx c ((us @ [p]) @ x # vs) NIL" and "distinct ((us @ [p]) @ x # vs)"
  shows "seg ((nx[unat p := nx ! unat x])[unat x := NIL]) c ((us @ [p]) @ vs) NIL"
proof -
  let ?nx = "(nx[unat p := nx ! unat x])[unat x := NIL]"
  have d: "p \<notin> set us" "p \<noteq> x" "p \<notin> set vs" "x \<notin> set us" "x \<notin> set vs" using assms(2) by auto
  have s: "seg nx c us p" "p \<noteq> NIL" "unat p < length nx" "seg nx (nx ! unat x) vs NIL"
    using assms(1) by (auto simp: seg_append)
  have "?nx ! unat p = nx ! unat x"
    using d(2) s(3) nth_update_other [of p x "nx[unat p := nx ! unat x]" NIL] by simp
  moreover have "seg ?nx c us p" "seg ?nx (nx ! unat x) vs NIL"
    using s d by (simp_all add: seg_update)
  ultimately show ?thesis using s by (simp add: seg_append)
qed

lemma cut_after_linked:
  assumes "linked sh A" and "x \<in> A" and "b = bucket_in sh (hash_at sh x)"
    and "seg (sh_next sh) (sh_buckets sh ! b) (us @ x # vs) NIL" and "distinct (us @ x # vs)"
    and "set (us @ x # vs) = {y\<in>A. bucket_in sh (hash_at sh y) = b}"
  shows "linked (cut_after b (last (NIL # us)) x sh) (A - {x})"
proof -
  define sh' where "sh' = cut_after b (last (NIL # us)) x sh"
  note sh' = sh'_def [unfolded cut_after_def Let_def]
  have bl: "b < length (sh_buckets sh)" using bucket_in_range [OF assms(1)] assms(3) by simp
  have nonnil: "y \<noteq> NIL" if "y \<in> set (us @ x # vs)" for y using seg_set [OF assms(4) that] by simp
  have same: "sh_records sh' = sh_records sh" "sh_bucket_mask sh' = sh_bucket_mask sh"
    "length (sh_next sh') = length (sh_next sh)" "length (sh_buckets sh') = length (sh_buckets sh)"
    by (simp_all add: sh')
  have "\<exists>xs. chain (sh_next sh') (sh_buckets sh' ! c) xs \<and> distinct xs \<and>
      set xs = {y \<in> A - {x}. bucket_in sh (hash_at sh y) = c}" if c: "c < length (sh_buckets sh)" for c
  proof (cases "c = b")
    case True
    have "seg (sh_next sh') (sh_buckets sh' ! b) (us @ vs) NIL"
    proof (cases "us = []")
      case True
      then have "seg (sh_next sh) (sh_next sh ! unat x) vs NIL" using assms(4) by simp
      then show ?thesis using True assms(5) bl by (simp add: sh' seg_update)
    next
      case False
      then obtain us' p where us: "us = us' @ [p]" by (metis append_butlast_last_id)
      have "p \<noteq> NIL" using nonnil [of p] us by simp
      then show ?thesis using seg_cut [OF assms(4) [unfolded us] assms(5) [unfolded us]] by (simp add: sh' us)
    qed
    moreover have "set (us @ vs) = {y \<in> A - {x}. bucket_in sh (hash_at sh y) = c}"
      using assms(5,6) True by auto
    ultimately show ?thesis using True assms(5) by (intro exI [of _ "us @ vs"]) simp
  next
    case False
    obtain xs where xs: "chain (sh_next sh) (sh_buckets sh ! c) xs" "distinct xs" "set xs = {y\<in>A. bucket_in sh (hash_at sh y) = c}"
      by (rule linkedE [OF assms(1) c])
    have disj: "y \<notin> set xs" if "y \<in> set (us @ x # vs)" for y using that xs(3) assms(6) False by auto
    have "sh_buckets sh' ! c = sh_buckets sh ! c" using False by (simp add: sh')
    moreover have "chain (sh_next sh') (sh_buckets sh ! c) xs"
      using xs(1) disj [of x] disj [of "last us"]
      by (cases "us = []") (auto simp: sh' seg_update)
    moreover have "set xs = {y \<in> A - {x}. bucket_in sh (hash_at sh y) = c}"
      using xs(3) disj [of x] by auto
    ultimately show ?thesis using xs(2) by auto
  qed
  then have "linked sh' (A - {x})" using assms(1) unfolding linked_def same by auto
  then show ?thesis by (simp add: sh'_def)
qed

lemma unlink_ok:
  assumes "linked sh A" and "x \<in> A"
  obtains sh' where "unlink x (hash_at sh x) sh = Some sh'" "linked sh' (A - {x})" "sh_records sh' = sh_records sh"
    "sh_free sh' = sh_free sh" "sh_media sh' = sh_media sh" "length (sh_buckets sh') = length (sh_buckets sh)"
    "sh_bucket_mask sh' = sh_bucket_mask sh"
proof -
  let ?b = "bucket_in sh (hash_at sh x)"
  have b: "?b < length (sh_buckets sh)" by (rule bucket_in_range [OF assms(1)])
  obtain xs where xs: "chain (sh_next sh) (sh_buckets sh ! ?b) xs" "distinct xs" "set xs = {y\<in>A. bucket_in sh (hash_at sh y) = ?b}"
    by (rule linkedE [OF assms(1) b])
  have "x \<in> set xs" using xs(3) assms(2) by simp
  then obtain us vs where sp: "xs = us @ x # vs" "x \<notin> set us" by (meson split_list_first)
  have u: "unlink x (hash_at sh x) sh = Some (cut_after ?b (last (NIL # us)) x sh)"
    using unlink_from_chain [of sh "sh_buckets sh ! ?b" us x vs ?b NIL] xs(1) sp b by (simp add: unlink_def Let_def)
  show ?thesis
    by (rule that [OF u cut_after_linked [OF assms refl xs(1) [unfolded sp] xs(2) [unfolded sp] xs(3) [unfolded sp]]])
      (simp_all add: cut_after_def Let_def)
qed


subsection \<open>Growing and inserting\<close>

lemma unat_of_nat_u32: "n < 2 ^ 32 \<Longrightarrow> unat (of_nat n :: u32) = n"
  by (simp add: unat_of_nat)

lemma slot_le: "linked sh A \<Longrightarrow> i < length (sh_records sh) \<Longrightarrow> unat (of_nat i :: u32) = i"
  by (rule unat_of_nat_u32) (simp add: linked_def)

lemma link_fields [simp]:
  "sh_records (link x sh) = sh_records sh" "sh_bucket_mask (link x sh) = sh_bucket_mask sh" "sh_free (link x sh) = sh_free sh"
  "sh_media (link x sh) = sh_media sh" "length (sh_buckets (link x sh)) = length (sh_buckets sh)"
  by (simp_all add: link_def Let_def)

lemma rechain_linked:
  assumes "linked sh A" and "i < length (sh_records sh)" and "of_nat i \<notin> A"
  shows "linked (rechain i sh) (if record_alive (sh_records sh ! i) then insert (of_nat i) A else A) \<and>
    sh_records (rechain i sh) = sh_records sh \<and> sh_bucket_mask (rechain i sh) = sh_bucket_mask sh \<and>
    sh_free (rechain i sh) = sh_free sh \<and> sh_media (rechain i sh) = sh_media sh \<and>
    length (sh_buckets (rechain i sh)) = length (sh_buckets sh)"
proof -
  have u: "unat (of_nat i :: u32) = i" by (rule slot_le [OF assms(1,2)])
  show ?thesis
  proof (cases "record_alive (sh_records sh ! i)")
    case True
    have "rechain i sh = link (of_nat i) sh" using True by (simp add: rechain_def link_def u)
    then show ?thesis using link_linked [OF assms(1,3)] assms(2) True by (simp add: u)
  next
    case False
    have "rechain i sh = sh\<lparr>sh_next := (sh_next sh)[unat (of_nat i :: u32) := NIL]\<rparr>" using False by (simp add: rechain_def u)
    then show ?thesis using linked_update_next [OF assms(1,3)] False by simp
  qed
qed

lemma rechain_fold:
  assumes "linked sh {}" and "n \<le> length (sh_records sh)"
  defines "sh' \<equiv> fold rechain [0..<n] sh"
  shows "linked sh' {x. unat x < n \<and> alive_in sh x} \<and> sh_records sh' = sh_records sh \<and> sh_free sh' = sh_free sh \<and>
    sh_media sh' = sh_media sh \<and> length (sh_buckets sh') = length (sh_buckets sh)"
  using assms(2) unfolding sh'_def
proof (induction n)
  case 0
  then show ?case using assms(1) by simp
next
  case (Suc n)
  let ?s = "fold rechain [0..<n] sh" and ?A = "{x. unat x < n \<and> alive_in sh x}"
  have ih: "linked ?s ?A" "sh_records ?s = sh_records sh" "sh_free ?s = sh_free sh" "sh_media ?s = sh_media sh"
    "length (sh_buckets ?s) = length (sh_buckets sh)" using Suc by auto
  have n: "n < length (sh_records ?s)" using Suc.prems ih(2) by simp
  have u: "unat (of_nat n :: u32) = n" by (rule slot_le [OF ih(1) n])
  then have nin: "of_nat n \<notin> ?A" by simp
  have set: "{x. unat x < Suc n \<and> alive_in sh x} = (if record_alive (sh_records ?s ! n) then insert (of_nat n) ?A else ?A)"
    using u n ih(2) by (auto simp: less_Suc_eq alive_in_def dest: arg_cong [where f = "of_nat :: nat \<Rightarrow> u32"])
  show ?case using rechain_linked [OF ih(1) n nin] ih by (simp add: set)
qed

lemma grow_linked:
  assumes "linked sh A" and "length (sh_buckets sh) \<le> 2 ^ 26"
  shows "linked (grow_buckets sh) {x. alive_in sh x} \<and> sh_records (grow_buckets sh) = sh_records sh \<and>
    sh_free (grow_buckets sh) = sh_free sh \<and> sh_media (grow_buckets sh) = sh_media sh \<and>
    length (sh_buckets (grow_buckets sh)) \<le> 2 ^ 27"
proof -
  define n where "n = max (length (sh_buckets sh) * 2) SLAB_SHARD_INIT_BUCKETS"
  define s0 where "s0 = sh\<lparr>sh_buckets := replicate n NIL, sh_bucket_mask := of_nat (n - 1)\<rparr>"
  have n: "64 \<le> n" "n \<le> 2 ^ 27" using assms(2) by (auto simp: n_def SLAB_SHARD_INIT_BUCKETS_def)
  then have m: "unat (of_nat (n - 1) :: u32) = n - 1" by (intro unat_of_nat_u32) simp
  have "linked s0 {}" using assms(1) n m by (auto simp: linked_def s0_def intro: exI [of _ "[]"])
  moreover have "grow_buckets sh = fold rechain [0..<length (sh_records s0)] s0"
    by (simp add: grow_buckets_def Let_def s0_def n_def)
  moreover have "{x. unat x < length (sh_records s0) \<and> alive_in s0 x} = {x. alive_in sh x}" by (auto simp: alive_in_def s0_def)
  ultimately show ?thesis using rechain_fold [of s0 "length (sh_records s0)"] n by (simp add: s0_def)
qed

text \<open>What an insertion has to do to a shard, whichever slot it takes.\<close>

definition inserts :: "file_record \<Rightarrow> slab_shard \<Rightarrow> u32 \<Rightarrow> slab_shard \<Rightarrow> bool" where
  "inserts rec sh x sh' \<longleftrightarrow> slab_shard_ok sh' \<and> \<not> alive_in sh x \<and> alive_in sh' x \<and> unat x < 2 ^ 26 \<and> sh_records sh' ! unat x = rec \<and>
     (\<forall>y. y \<noteq> x \<longrightarrow> alive_in sh' y = alive_in sh y) \<and> (\<forall>y. alive_in sh y \<longrightarrow> sh_records sh' ! unat y = sh_records sh ! unat y) \<and>
     sh_media sh' = sh_media sh"

lemma insertsI:
  assumes "slab_shard_ok sh" and "record_alive rec" and "\<forall>y. alive_in sh y \<longrightarrow> hash_at sh y \<noteq> fr_hash rec"
    and "linked sh' (insert x {y. alive_in sh y})" and "length (sh_buckets sh') \<le> 2 ^ 27"
    and "\<not> alive_in sh x" and "sh_records sh' ! unat x = rec" and "unat x < 2 ^ 26"
    and other: "\<And>y. y \<noteq> x \<Longrightarrow> alive_in sh' y = alive_in sh y"
    and rest: "\<And>y. alive_in sh y \<Longrightarrow> sh_records sh' ! unat y = sh_records sh ! unat y"
    and free: "distinct (map fst (sh_free sh'))" "\<And>y t. (y, t) \<in> set (sh_free sh') \<Longrightarrow> y \<noteq> x \<and> (y, t) \<in> set (sh_free sh)"
    and "length (sh_records sh) \<le> length (sh_records sh')" and "sh_media sh' = sh_media sh"
  shows "inserts rec sh x sh'"
proof -
  have "unat x < length (sh_records sh')" using assms(4) by (simp add: linked_def)
  then have ax: "alive_in sh' x" using assms(2,7) by (simp add: alive_in_def)
  have set: "{y. alive_in sh' y} = insert x {y. alive_in sh y}"
  proof (rule set_eqI)
    show "y \<in> {y. alive_in sh' y} \<longleftrightarrow> y \<in> insert x {y. alive_in sh y}" for y
      using ax other [of y] by (cases "y = x") auto
  qed
  have uniq: "y = z" if "alive_in sh' y" "alive_in sh' z" "hash_at sh' y = hash_at sh' z" for y z
  proof (cases "y = x"; cases "z = x")
    assume "y \<noteq> x" "z \<noteq> x"
    then show ?thesis using that other rest assms(1) unfolding slab_shard_ok_def by metis
  next
    assume "y = x" "z \<noteq> x"
    then show ?thesis using that other rest assms(3,7) by metis
  next
    assume "y \<noteq> x" "z = x"
    then show ?thesis using that other rest assms(3,7) by metis
  qed simp
  have fr: "unat y < length (sh_records sh') \<and> \<not> alive_in sh' y" if "(y, t) \<in> set (sh_free sh')" for y t
    using free(2) [OF that] assms(1,13) other by (fastforce simp: slab_shard_ok_def)
  have med: "\<forall>y\<in>dom (sh_media sh'). alive_in sh' y" using assms(1,14) ax other unfolding slab_shard_ok_def by metis
  have "slab_shard_ok sh'"
    unfolding slab_shard_ok_def using assms(4,5) set uniq free(1) fr med by auto
  then show ?thesis using assms(6-8,14) ax other rest by (simp add: inserts_def)
qed

lemma push_inserts:
  assumes "slab_shard_ok sh" and "record_alive rec" and "\<forall>y. alive_in sh y \<longrightarrow> hash_at sh y \<noteq> fr_hash rec"
    and "length (sh_records sh) < 2 ^ 26" and "push_and_link rec sh = (x, sh')"
  shows "inserts rec sh x sh' \<and> x \<notin> fst ` set (sh_free sh)"
proof -
  define s1 where "s1 = sh\<lparr>sh_records := sh_records sh @ [rec], sh_next := sh_next sh @ [NIL]\<rparr>"
  have lk: "linked sh {y. alive_in sh y}" using assms(1) by (simp add: slab_shard_ok_def)
  have x: "x = of_nat (length (sh_records sh))"
    and sh': "sh' = (if length (sh_records s1) > length (sh_buckets s1) then grow_buckets s1 else link x s1)"
    using assms(5) by (auto simp: push_and_link_def Let_def s1_def)
  have ux: "unat x = length (sh_records sh)" using assms(4) by (simp add: x unat_of_nat_u32)
  have hd: "hash_at s1 y = hash_at sh y" if "alive_in sh y" for y using that by (simp add: s1_def alive_in_def nth_append)
  have lk1: "linked s1 {y. alive_in sh y}"
  proof -
    have "\<exists>xs. chain (sh_next s1) (sh_buckets s1 ! b) xs \<and> distinct xs \<and> set xs = {y \<in> {y. alive_in sh y}. bucket_in s1 (hash_at s1 y) = b}"
      if b: "b < length (sh_buckets sh)" for b
    proof -
      obtain xs where xs: "chain (sh_next sh) (sh_buckets sh ! b) xs" "distinct xs" "set xs = {y\<in>{y. alive_in sh y}. bucket_in sh (hash_at sh y) = b}"
        by (rule linkedE [OF lk b])
      moreover have "{y\<in>{y. alive_in sh y}. bucket_in s1 (hash_at s1 y) = b} = {y\<in>{y. alive_in sh y}. bucket_in sh (hash_at sh y) = b}"
        using hd by (auto simp: s1_def)
      ultimately show ?thesis using seg_extend [OF xs(1), of "[NIL]"] by (intro exI [of _ xs]) (simp add: s1_def)
    qed
    then show ?thesis using lk assms(4) by (auto simp: linked_def s1_def alive_in_def)
  qed
  have dead: "\<not> alive_in sh x" by (simp add: alive_in_def ux)
  have al1: "{y. alive_in s1 y} = insert x {y. alive_in sh y}"
  proof (rule set_eqI)
    fix y
    have "unat y = length (sh_records sh) \<longleftrightarrow> y = x" using ux by (metis word_unat_eq_iff)
    then show "y \<in> {y. alive_in s1 y} \<longleftrightarrow> y \<in> insert x {y. alive_in sh y}"
      using assms(2) ux by (auto simp: alive_in_def s1_def nth_append less_Suc_eq)
  qed
  have fin: "linked sh' (insert x {y. alive_in sh y}) \<and> sh_records sh' = sh_records s1 \<and> sh_free sh' = sh_free sh \<and>
      sh_media sh' = sh_media sh \<and> length (sh_buckets sh') \<le> 2 ^ 27"
  proof (cases "length (sh_records s1) > length (sh_buckets s1)")
    case True
    then have "length (sh_buckets s1) \<le> 2 ^ 26" using assms(4) by (simp add: s1_def)
    then show ?thesis using grow_linked [OF lk1] True by (simp add: sh' al1) (simp add: s1_def)
  next
    case False
    have "length (sh_buckets sh) \<le> 2 ^ 27" using assms(1) by (simp add: slab_shard_ok_def)
    then show ?thesis using link_linked [OF lk1, of x] False dead ux by (simp add: sh') (simp add: s1_def)
  qed
  have "inserts rec sh x sh'"
  proof (rule insertsI [OF assms(1-3)])
    show "alive_in sh' y = alive_in sh y" if "y \<noteq> x" for y
      using al1 fin that by (auto simp: alive_in_def)
    show "sh_records sh' ! unat y = sh_records sh ! unat y" if "alive_in sh y" for y
      using fin that by (simp add: s1_def alive_in_def nth_append)
    show "distinct (map fst (sh_free sh'))" using assms(1) fin by (simp add: slab_shard_ok_def)
    show "y \<noteq> x \<and> (y, t) \<in> set (sh_free sh)" if "(y, t) \<in> set (sh_free sh')" for y t
      using that fin assms(1) ux by (fastforce simp: slab_shard_ok_def)
  qed (use fin dead ux assms(4) in \<open>auto simp: s1_def\<close>)
  moreover have "x \<notin> fst ` set (sh_free sh)" using assms(1) ux by (fastforce simp: slab_shard_ok_def)
  ultimately show ?thesis by blast
qed

end
