(* ===== verification/File_Store.thy ===== *)
theory File_Store
  imports File_Slab
begin

text \<open>
  The store of files over the slab shards (\<open>FileSlab\<close> of \<open>src/state/file_id.rs\<close>): lookups by id
  and by hash, insertion, the tombstones, the sources of a file and the scans. A shard lock makes
  each operation atomic, so one operation is one step; \<open>now\<close> is the clock reading it took. The
  outer option of a result is \<open>None\<close> when a chain walk panics or does not return.
\<close>

section \<open>Insertion into a shard\<close>

lemma reuse_inserts:
  assumes "slab_shard_ok sh" and "record_alive rec" and "\<forall>y. alive_in sh y \<longrightarrow> hash_at sh y \<noteq> fr_hash rec"
    and "sh_free sh = (x, t) # rest"
    and "sh' = link x (sh\<lparr>sh_free := rest, sh_records := (sh_records sh)[unat x := rec],
                         sh_media := (sh_media sh)(x := None), sh_next := (sh_next sh)[unat x := NIL]\<rparr>)"
  shows "inserts rec sh x sh'"
proof -
  define s1 where "s1 = sh\<lparr>sh_free := rest, sh_records := (sh_records sh)[unat x := rec],
    sh_media := (sh_media sh)(x := None), sh_next := (sh_next sh)[unat x := NIL]\<rparr>"
  have sh': "sh' = link x s1" by (simp add: assms(5) s1_def)
  have lk: "linked sh {y. alive_in sh y}" using assms(1) by (simp add: slab_shard_ok_def)
  have x: "unat x < length (sh_records sh)" "\<not> alive_in sh x" using assms(1,4) by (auto simp: slab_shard_ok_def)
  have other: "y \<noteq> x \<Longrightarrow> (sh_records sh)[unat x := rec] ! unat y = sh_records sh ! unat y" for y
    by (metis nth_list_update_neq word_unat_eq_iff)
  have lkn: "linked (sh\<lparr>sh_next := (sh_next sh)[unat x := NIL]\<rparr>) {y. alive_in sh y}" using linked_update_next [OF lk] x(2) by blast
  have hd: "hash_at s1 y = hash_at sh y" if "alive_in sh y" for y
    using that other [of y] x(2) by (cases "y = x") (simp_all add: s1_def)
  have "linked s1 {y. alive_in sh y}" by (rule linked_cong [OF lkn]) (use hd in \<open>simp_all add: s1_def\<close>)
  then have lk': "linked sh' (insert x {y. alive_in sh y})"
    unfolding sh' by (rule link_linked) (use x in \<open>auto simp: s1_def\<close>)
  have med: "sh_media sh x = None" using assms(1) x(2) unfolding slab_shard_ok_def by (metis domIff)
  show ?thesis
  proof (rule insertsI [OF assms(1-3) lk'])
    show "alive_in sh' y = alive_in sh y" if "y \<noteq> x" for y using other [OF that] by (simp add: sh' s1_def alive_in_def)
    show "sh_records sh' ! unat y = sh_records sh ! unat y" if "alive_in sh y" for y
      using that other [of y] x(2) by (cases "y = x") (simp_all add: sh' s1_def)
    show "sh_media sh' = sh_media sh" using med by (simp add: sh' s1_def fun_upd_idem)
    show "length (sh_buckets sh') \<le> 2 ^ 27" "distinct (map fst (sh_free sh'))" using assms(1,4) by (auto simp: sh' s1_def slab_shard_ok_def)
    show "y \<noteq> x \<and> (y, t') \<in> set (sh_free sh)" if "(y, t') \<in> set (sh_free sh')" for y t'
    proof -
      have "distinct (map fst (sh_free sh))" using assms(1) by (simp add: slab_shard_ok_def)
      then show ?thesis using that assms(4) by (auto simp: sh' s1_def image_iff)
    qed
    show "unat x < 2 ^ 26" using x(1) lk by (simp add: linked_def)
  qed (use x in \<open>simp_all add: sh' s1_def\<close>)
qed

lemma rechain_free: "sh_free (fold rechain is sh) = sh_free sh \<and> length (sh_records (fold rechain is sh)) = length (sh_records sh)"
  by (induction "is" arbitrary: sh) (simp_all add: rechain_def Let_def)

lemma push_free:
  "push_and_link rec sh = (x, sh') \<Longrightarrow> sh_free sh' = sh_free sh \<and> length (sh_records sh') = Suc (length (sh_records sh))"
  by (auto simp: push_and_link_def grow_buckets_def Let_def rechain_free simp del: upt_Suc split: if_splits)

text \<open>An insertion takes a slot out of the free list only when its quarantine is over.\<close>

lemma insert_record_ok:
  assumes "slab_shard_ok sh" and "record_alive rec" and "\<forall>y. alive_in sh y \<longrightarrow> hash_at sh y \<noteq> fr_hash rec"
    and "length (sh_records sh) < 2 ^ 26" and "insert_record rec now q sh = (x, sh')"
  shows "inserts rec sh x sh' \<and> (\<forall>t. (x, t) \<in> set (sh_free sh) \<longrightarrow> q \<le> now - t) \<and>
    (\<forall>y t. (y, t) \<in> set (sh_free sh) \<longrightarrow> y \<noteq> x \<longrightarrow> (y, t) \<in> set (sh_free sh')) \<and>
    length (sh_records sh') \<le> Suc (length (sh_records sh))"
proof (cases "\<exists>t rest. sh_free sh = (x, t) # rest \<and> q \<le> now - t \<and> sh' = link x (sh\<lparr>sh_free := rest, sh_records := (sh_records sh)[unat x := rec],
                         sh_media := (sh_media sh)(x := None), sh_next := (sh_next sh)[unat x := NIL]\<rparr>)")
  case True
  then obtain t rest where r: "sh_free sh = (x, t) # rest" "q \<le> now - t" "sh' = link x (sh\<lparr>sh_free := rest, sh_records := (sh_records sh)[unat x := rec],
                         sh_media := (sh_media sh)(x := None), sh_next := (sh_next sh)[unat x := NIL]\<rparr>)" by blast
  have "distinct (map fst (sh_free sh))" using assms(1) by (simp add: slab_shard_ok_def)
  then have "(x, t') \<in> set (sh_free sh) \<Longrightarrow> t' = t" for t' using r(1) by force
  then show ?thesis using reuse_inserts [OF assms(1-3) r(1,3)] r by auto
next
  case False
  then have push: "push_and_link rec sh = (x, sh')"
    using assms(5) by (auto simp: insert_record_def split: list.splits if_splits)
  show ?thesis using push_inserts [OF assms(1-4) push] push_free [OF push] by force
qed

section \<open>The store\<close>

record file_slab =
  sl_shards :: "slab_shard list"
  sl_live :: u32
  sl_quarantine :: u32
  sl_codecs :: codec_table

definition slab_new :: file_slab where
  "slab_new = \<lparr>sl_shards = replicate (unat SLAB_SHARDS) shard_new, sl_live = 0,
     sl_quarantine = SLOT_QUARANTINE_SECS, sl_codecs = codec_new\<rparr>"

text \<open>The clock reading in whole seconds since the epoch of the slab.\<close>

definition now_secs :: "nat \<Rightarrow> u32" where
  "now_secs elapsed = of_nat (min elapsed (2 ^ 32 - 1))"

definition id_of :: "file_hash \<Rightarrow> file_slab \<Rightarrow> file_id option option" where
  "id_of h sl =
     (let shard_no = shard_of_hash h
      in map_option (map_option (make_id shard_no)) (shard_find h (sl_shards sl ! unat shard_no)))"

definition slab_get :: "file_id \<Rightarrow> file_slab \<Rightarrow> file_record option" where
  "slab_get i sl =
     (if id_shard i < length (sl_shards sl)
      then let recs = sh_records (sl_shards sl ! id_shard i)
           in if id_index i < length recs \<and> record_alive (recs ! id_index i) then Some (recs ! id_index i) else None
      else None)"

definition hash_of :: "file_id \<Rightarrow> file_slab \<Rightarrow> file_hash option" where
  "hash_of i sl = map_option fr_hash (slab_get i sl)"

text \<open>The search and the insertion under one write lock, as \<open>get_or_insert\<close> and \<open>insert_sourceless\<close> do.\<close>

definition insert_if_new :: "file_record \<Rightarrow> u32 \<Rightarrow> file_slab \<Rightarrow> ((file_id \<times> bool) \<times> file_slab) option" where
  "insert_if_new rec now sl =
     (let shard_no = shard_of_hash (fr_hash rec); sh = sl_shards sl ! unat shard_no
      in case shard_find (fr_hash rec) sh of
           None \<Rightarrow> None
         | Some (Some idx) \<Rightarrow> Some ((make_id shard_no idx, False), sl)
         | Some None \<Rightarrow>
             let (index, sh) = insert_record rec now (sl_quarantine sl) sh
             in Some ((make_id shard_no index, True),
                      sl\<lparr>sl_shards := (sl_shards sl)[unat shard_no := sh], sl_live := sl_live sl + 1\<rparr>))"

definition get_or_insert ::
  "file_hash \<Rightarrow> u64 \<Rightarrow> rstr \<Rightarrow> source \<Rightarrow> u32 \<Rightarrow> file_slab \<Rightarrow> ((file_id \<times> bool) \<times> file_slab) option" where
  "get_or_insert h sz name src now sl = insert_if_new (record_new h sz name [src]) now sl"

definition insert_sourceless :: "file_hash \<Rightarrow> u64 \<Rightarrow> rstr \<Rightarrow> u32 \<Rightarrow> file_slab \<Rightarrow> (file_id \<times> file_slab) option" where
  "insert_sourceless h sz name now sl = map_option (apfst fst) (insert_if_new (record_new h sz name []) now sl)"

definition tombstone_where ::
  "(file_record \<Rightarrow> bool) \<Rightarrow> file_id \<Rightarrow> u32 \<Rightarrow> file_slab \<Rightarrow> (rstr option \<times> file_slab) option" where
  "tombstone_where c i now sl =
     (if id_shard i \<ge> length (sl_shards sl) then Some (None, sl)
      else let idx = id_index i; sh = sl_shards sl ! id_shard i; r = sh_records sh ! idx
           in if idx < length (sh_records sh) \<and> record_alive r \<and> c r
              then case unlink (of_nat idx) (fr_hash r) sh of
                     None \<Rightarrow> None
                   | Some sh \<Rightarrow>
                       let sh = sh\<lparr>sh_media := (sh_media sh)(of_nat idx := None),
                                   sh_records := (sh_records sh)[idx := r\<lparr>fr_sources := [], fr_fname := None\<rparr>],
                                   sh_free := sh_free sh @ [(of_nat idx, now)]\<rparr>
                       in Some (fr_fname r, sl\<lparr>sl_shards := (sl_shards sl)[id_shard i := sh], sl_live := sl_live sl - 1\<rparr>)
              else Some (None, sl))"

definition tombstone :: "file_id \<Rightarrow> u32 \<Rightarrow> file_slab \<Rightarrow> (bool \<times> file_slab) option" where
  "tombstone i now sl = map_option (apfst (\<lambda>n. n \<noteq> None)) (tombstone_where (\<lambda>_. True) i now sl)"

definition tombstone_if_sourceless :: "file_id \<Rightarrow> u32 \<Rightarrow> file_slab \<Rightarrow> (rstr option \<times> file_slab) option" where
  "tombstone_if_sourceless i now sl = tombstone_where (\<lambda>r. fr_sources r = []) i now sl"

definition tombstone_take_name :: "file_id \<Rightarrow> u32 \<Rightarrow> file_slab \<Rightarrow> (rstr option \<times> file_slab) option" where
  "tombstone_take_name i now sl = tombstone_where (\<lambda>_. True) i now sl"

definition tombstone_by_hash :: "file_hash \<Rightarrow> u32 \<Rightarrow> file_slab \<Rightarrow> (bool \<times> file_slab) option" where
  "tombstone_by_hash h now sl =
     (case id_of h sl of
        None \<Rightarrow> None
      | Some None \<Rightarrow> Some (False, sl)
      | Some (Some i) \<Rightarrow> tombstone i now sl)"

definition get_by_hash :: "file_hash \<Rightarrow> file_slab \<Rightarrow> file_record option option" where
  "get_by_hash h sl = map_option (\<lambda>r. Option.bind r (\<lambda>i. slab_get i sl)) (id_of h sl)"

text \<open>The sources of a record: a publisher already there only updates its completeness.\<close>

fun merge_source :: "source \<Rightarrow> source list \<Rightarrow> source list" where
  "merge_source src [] = [src]"
| "merge_source src (s # ss) =
     (if so_user_hash s = so_user_hash src then s\<lparr>so_complete := so_complete src\<rparr> # ss else s # merge_source src ss)"

definition divergent_name :: "file_record \<Rightarrow> rstr \<Rightarrow> rstr option" where
  "divergent_name r published_as = (if record_name r = published_as then None else Some (record_name r))"

text \<open>A write through \<open>get_mut\<close> to a live record.\<close>

definition put_record :: "file_id \<Rightarrow> file_record \<Rightarrow> file_slab \<Rightarrow> file_slab" where
  "put_record i r sl =
     (let sh = sl_shards sl ! id_shard i
      in sl\<lparr>sl_shards := (sl_shards sl)[id_shard i := sh\<lparr>sh_records := (sh_records sh)[id_index i := r]\<rparr>]\<rparr>)"

definition add_or_refresh_source_named ::
  "file_hash \<Rightarrow> source \<Rightarrow> rstr \<Rightarrow> file_slab \<Rightarrow> (rstr option \<times> file_slab) option" where
  "add_or_refresh_source_named h src published_as sl =
     (case id_of h sl of
        None \<Rightarrow> None
      | Some None \<Rightarrow> Some (None, sl)
      | Some (Some i) \<Rightarrow>
          (case slab_get i sl of
             None \<Rightarrow> Some (None, sl)
           | Some r \<Rightarrow>
               Some (divergent_name r published_as, put_record i (r\<lparr>fr_sources := merge_source src (fr_sources r)\<rparr>) sl)))"

definition PARTSIZE :: u64 where "PARTSIZE = 9728000"

definition is_part_estimate :: "u64 \<Rightarrow> u64 \<Rightarrow> bool" where
  "is_part_estimate lo hi \<longleftrightarrow> lo \<ge> PARTSIZE \<and> lo mod PARTSIZE = 0 \<and> lo = hi div PARTSIZE * PARTSIZE"

definition u32_max :: u64 where "u32_max = 2 ^ 32 - 1"

definition sizes_agree :: "u64 \<Rightarrow> u64 \<Rightarrow> bool" where
  "sizes_agree a b =
     (if a = 0 \<or> b = 0 \<or> a = b then True
      else let (lo, hi) = (if a < b then (a, b) else (b, a))
           in if lo \<le> u32_max \<and> hi > u32_max \<and> hi AND u32_max = lo then True else is_part_estimate lo hi)"

datatype sized_merge = Merged "rstr option" | SizeMismatch u64 | Unknown

definition add_or_refresh_source_sized ::
  "file_hash \<Rightarrow> u64 \<Rightarrow> source \<Rightarrow> rstr \<Rightarrow> file_slab \<Rightarrow> (sized_merge \<times> file_slab) option" where
  "add_or_refresh_source_sized h sz src published_as sl =
     (case id_of h sl of
        None \<Rightarrow> None
      | Some None \<Rightarrow> Some (Unknown, sl)
      | Some (Some i) \<Rightarrow>
          (case slab_get i sl of
             None \<Rightarrow> Some (Unknown, sl)
           | Some r \<Rightarrow>
               if \<not> sizes_agree (fr_size r) sz \<and> fr_sources r \<noteq> [] then Some (SizeMismatch (fr_size r), sl)
               else let r = (if \<not> sizes_agree (fr_size r) sz then r\<lparr>fr_size := sz\<rparr>
                             else if sz > fr_size r then r\<lparr>fr_size := sz\<rparr> else r);
                        r = r\<lparr>fr_sources := merge_source src (fr_sources r)\<rparr>
                    in Some (Merged (divergent_name r published_as), put_record i r sl)))"

definition add_or_refresh_source :: "file_hash \<Rightarrow> source \<Rightarrow> file_slab \<Rightarrow> (bool \<times> file_slab) option" where
  "add_or_refresh_source h src sl =
     (case id_of h sl of
        None \<Rightarrow> None
      | Some None \<Rightarrow> Some (False, sl)
      | Some (Some i) \<Rightarrow>
          (case slab_get i sl of
             None \<Rightarrow> Some (False, sl)
           | Some r \<Rightarrow> Some (True, put_record i (r\<lparr>fr_sources := merge_source src (fr_sources r)\<rparr>) sl)))"

definition remove_user_source :: "file_id \<Rightarrow> bytes \<Rightarrow> file_slab \<Rightarrow> bool \<times> file_slab" where
  "remove_user_source i user_hash sl =
     (case slab_get i sl of
        None \<Rightarrow> (False, sl)
      | Some r \<Rightarrow>
          let r = r\<lparr>fr_sources := filter (\<lambda>s. so_user_hash s \<noteq> user_hash) (fr_sources r)\<rparr>
          in (fr_sources r = [], put_record i r sl))"

definition with_record :: "file_id \<Rightarrow> (file_record \<Rightarrow> 'r) \<Rightarrow> file_slab \<Rightarrow> 'r option" where
  "with_record i f sl = map_option f (slab_get i sl)"

definition with_record_by_hash :: "file_hash \<Rightarrow> (file_id \<Rightarrow> file_record \<Rightarrow> 'r) \<Rightarrow> file_slab \<Rightarrow> 'r option option" where
  "with_record_by_hash h f sl =
     (let shard_no = shard_of_hash h; sh = sl_shards sl ! unat shard_no
      in case shard_find h sh of
           None \<Rightarrow> None
         | Some None \<Rightarrow> Some None
         | Some (Some idx) \<Rightarrow>
             (let r = sh_records sh ! unat idx
              in Some (if unat idx < length (sh_records sh) \<and> record_alive r then Some (f (make_id shard_no idx) r) else None)))"

definition merge_media :: "file_hash \<Rightarrow> media \<Rightarrow> file_slab \<Rightarrow> file_slab option" where
  "merge_media h m sl =
     (if media_is_empty m then Some sl
      else let shard_no = shard_of_hash h; sh = sl_shards sl ! unat shard_no
           in case shard_find h sh of
                None \<Rightarrow> None
              | Some None \<Rightarrow> Some sl
              | Some (Some idx) \<Rightarrow>
                  (let e = (case sh_media sh idx of Some e \<Rightarrow> e | None \<Rightarrow> 0)
                   in Some (sl\<lparr>sl_shards := (sl_shards sl)[unat shard_no := sh\<lparr>sh_media := (sh_media sh)(idx \<mapsto> media_merged e m)\<rparr>]\<rparr>)))"

definition media_of_hash :: "file_hash \<Rightarrow> file_slab \<Rightarrow> media option option" where
  "media_of_hash h sl =
     (let sh = sl_shards sl ! unat (shard_of_hash h)
      in map_option (\<lambda>r. Option.bind r (sh_media sh)) (shard_find h sh))"

definition with_record_media :: "file_id \<Rightarrow> bool \<Rightarrow> (file_record \<Rightarrow> media option \<Rightarrow> 'r) \<Rightarrow> file_slab \<Rightarrow> 'r option" where
  "with_record_media i wanted f sl =
     map_option (\<lambda>r. f r (if wanted then sh_media (sl_shards sl ! id_shard i) (of_nat (id_index i)) else None)) (slab_get i sl)"

definition live_count :: "file_slab \<Rightarrow> nat" where
  "live_count sl = unat (sl_live sl)"

definition slot_count :: "file_slab \<Rightarrow> nat" where
  "slot_count sl = sum_list (map (\<lambda>sh. length (sh_records sh)) (sl_shards sl))"

definition free_pending_count :: "file_slab \<Rightarrow> nat" where
  "free_pending_count sl = sum_list (map (\<lambda>sh. length (sh_free sh)) (sl_shards sl))"


subsection \<open>Scans\<close>

text \<open>The live slots of one slice of a shard, and the walk of a shard in slices.\<close>

definition live_slice :: "u32 \<Rightarrow> file_record list \<Rightarrow> nat \<Rightarrow> nat \<Rightarrow> (file_id \<times> file_record) list" where
  "live_slice s_no recs start stop =
     map (\<lambda>i. (make_id s_no (of_nat i), recs ! i)) (filter (\<lambda>i. record_alive (recs ! i)) [start..<stop])"

function shard_scan :: "nat \<Rightarrow> u32 \<Rightarrow> file_record list \<Rightarrow> nat \<Rightarrow> (file_id \<times> file_record) list list" where
  "shard_scan chunk s_no recs start =
     (let stop = min (length recs) (start + chunk)
      in if start \<ge> stop then [] else live_slice s_no recs start stop # shard_scan chunk s_no recs stop)"
  by auto
termination by (relation "measure (\<lambda>(chunk, s_no, recs, start). length recs - start)") auto

declare shard_scan.simps [simp del]

definition slab_scan :: "nat \<Rightarrow> file_slab \<Rightarrow> (file_id \<times> file_record) list list" where
  "slab_scan chunk sl =
     concat (map (\<lambda>(s_no, sh). shard_scan chunk (of_nat s_no) (sh_records sh) 0) (enumerate 0 (sl_shards sl)))"

text \<open>The records \<open>for_each_live\<close> hands to its visitor, and the batches of \<open>for_each_live_copied\<close>.\<close>

definition for_each_live :: "file_slab \<Rightarrow> (file_id \<times> file_record) list" where
  "for_each_live sl = concat (slab_scan (16 * 1024) sl)"

definition for_each_live_copied :: "file_slab \<Rightarrow> (file_id \<times> file_hash \<times> u64 \<times> rstr \<times> u32) list list" where
  "for_each_live_copied sl =
     map (map (\<lambda>(i, r). (i, fr_hash r, fr_size r, record_name r, of_nat (length (fr_sources r))))) (slab_scan (4 * 1024) sl)"

text \<open>The walk that the visitor stops by answering false.\<close>

fun visit_while :: "('a \<Rightarrow> 's \<Rightarrow> bool \<times> 's) \<Rightarrow> 'a list \<Rightarrow> 's \<Rightarrow> 's" where
  "visit_while f [] s = s"
| "visit_while f (x # xs) s = (case f x s of (True, s) \<Rightarrow> visit_while f xs s | (False, s) \<Rightarrow> s)"

definition slab_slots :: "file_slab \<Rightarrow> (nat \<times> nat \<times> file_record) list" where
  "slab_slots sl =
     concat (map (\<lambda>(s_no, sh). map (\<lambda>(i, r). (s_no, i, r)) (enumerate 0 (sh_records sh))) (enumerate 0 (sl_shards sl)))"

definition for_each_live_while :: "(file_id \<times> file_record \<Rightarrow> 's \<Rightarrow> bool \<times> 's) \<Rightarrow> file_slab \<Rightarrow> 's \<Rightarrow> 's" where
  "for_each_live_while f sl s =
     visit_while (\<lambda>(s_no, i, r) s. if record_alive r then f (make_id (of_nat s_no) (of_nat i), r) s else (True, s)) (slab_slots sl) s"

definition for_each_live_while_media ::
  "bool \<Rightarrow> (file_id \<times> file_record \<times> media option \<Rightarrow> 's \<Rightarrow> bool \<times> 's) \<Rightarrow> file_slab \<Rightarrow> 's \<Rightarrow> 's" where
  "for_each_live_while_media wanted f sl s =
     visit_while (\<lambda>(s_no, i, r) s.
         if record_alive r
         then f (make_id (of_nat s_no) (of_nat i), r, if wanted then sh_media (sl_shards sl ! s_no) (of_nat i) else None) s
         else (True, s)) (slab_slots sl) s"


section \<open>Ids\<close>

lemma index_mask: "SLAB_INDEX_MASK = mask 26"
  by (simp add: SLAB_INDEX_MASK_def SLAB_INDEX_BITS_def mask_eq_exp_minus_1)

lemma small_no_bit: "\<not> bit x n" if "unat x < 2 ^ k" and "k \<le> n" for x :: u32
proof -
  have "unat x < 2 ^ n" using order_less_le_trans [OF that(1)] power_increasing [OF that(2), of "2::nat"] by simp
  then have "\<not> bit (unat x) n" by (simp add: bit_iff_odd)
  then show ?thesis by (simp add: bit_unsigned_iff)
qed

lemma make_id_parts:
  assumes "unat s < 64" and "unat x < 2 ^ 26"
  shows "id_shard (make_id s x) = unat s" "id_index (make_id s x) = unat x"
proof -
  have s: "\<not> bit s n" if "6 \<le> n" for n by (rule small_no_bit [of s 6]) (use assms(1) that in simp_all)
  have x: "\<not> bit x n" if "26 \<le> n" for n by (rule small_no_bit [of x 26]) (use assms(2) that in simp_all)
  let ?i = "push_bit 26 s OR (x AND mask 26)"
  have "drop_bit 26 ?i = s"
    by (rule bit_word_eqI) (use s not_less in \<open>auto simp: bit_simps\<close>)
  then show "id_shard (make_id s x) = unat s" by (simp add: id_shard_def make_id_def index_mask SLAB_INDEX_BITS_def)
  have "?i AND mask 26 = x"
    by (rule bit_word_eqI) (use x not_less in \<open>auto simp: bit_simps\<close>)
  then show "id_index (make_id s x) = unat x" by (simp add: id_index_def make_id_def index_mask SLAB_INDEX_BITS_def)
qed

lemma make_id_eta: "make_id (of_nat (id_shard i)) (of_nat (id_index i)) = i"
proof -
  have "push_bit 26 (drop_bit 26 x) OR (x AND mask 26 AND mask 26) = x" for x :: u32
    by (rule bit_word_eqI) (auto simp: bit_simps)
  then show ?thesis by (cases i) (simp add: make_id_def id_shard_def id_index_def index_mask SLAB_INDEX_BITS_def)
qed

lemma id_parts_bound: "id_shard i < 64" "id_index i < 2 ^ 26"
proof -
  have "unat (drop_bit 26 (fid i)) < 64"
  proof -
    have "unat (fid i) < 4294967296" using unsigned_less [of "fid i"] by simp
    then have "unat (fid i) div 67108864 < 64" by (simp add: less_mult_imp_div_less)
    then show ?thesis by (simp add: drop_bit_eq_div [symmetric] unsigned_drop_bit_eq take_bit_nat_eq_self) (simp add: drop_bit_eq_div)
  qed
  then show "id_shard i < 64" by (simp add: id_shard_def SLAB_INDEX_BITS_def)
  have "unat (take_bit 26 (fid i)) < 2 ^ 26" unfolding unsigned_take_bit_eq by (rule take_bit_nat_less_exp)
  then show "id_index i < 2 ^ 26" by (simp add: id_index_def index_mask take_bit_eq_mask)
qed

abbreviation shard_at :: "file_slab \<Rightarrow> file_id \<Rightarrow> slab_shard" where
  "shard_at sl i \<equiv> sl_shards sl ! id_shard i"

abbreviation slot_at :: "file_id \<Rightarrow> u32" where
  "slot_at i \<equiv> of_nat (id_index i)"

lemma unat_slot: "unat (slot_at i) = id_index i"
  using id_parts_bound(2) [of i] by (simp add: unat_of_nat_u32)

lemma id_eq_iff: "i = j \<longleftrightarrow> id_shard i = id_shard j \<and> slot_at i = slot_at j"
  by (metis make_id_eta)

lemma slot_at_make_id: "unat s < 64 \<Longrightarrow> unat x < 2 ^ 26 \<Longrightarrow> slot_at (make_id s x) = x"
  by (simp add: make_id_parts)

lemma shard_of_hash_bound: "unat (shard_of_hash h) < 64"
proof -
  have "hash_u64 h AND (64 - 1) \<le> 64 - 1" by (rule word_and_le1)
  then have "unat (hash_u64 h AND 63) \<le> 63" by (simp add: word_le_nat_alt)
  then show ?thesis by (simp add: shard_of_hash_def SLAB_SHARDS_def unsigned_ucast_eq take_bit_nat_eq_self)
qed


section \<open>The invariant of the store\<close>

abbreviation slab_map :: "file_slab \<Rightarrow> file_id \<rightharpoonup> file_record" where
  "slab_map sl \<equiv> \<lambda>i. slab_get i sl"

text \<open>Every shard is well formed and holds the files whose hash selects it; the counter counts the live files.\<close>

definition slab_ok :: "file_slab \<Rightarrow> bool" where
  "slab_ok sl \<longleftrightarrow> length (sl_shards sl) = 64 \<and> (\<forall>s<64. slab_shard_ok (sl_shards sl ! s)) \<and>
     (\<forall>i r. slab_get i sl = Some r \<longrightarrow> unat (shard_of_hash (fr_hash r)) = id_shard i) \<and>
     sl_live sl = of_nat (card (dom (slab_map sl)))"

text \<open>Every shard can take \<open>n\<close> more slots.\<close>

definition slots_left :: "nat \<Rightarrow> file_slab \<Rightarrow> bool" where
  "slots_left n sl \<longleftrightarrow> (\<forall>sh\<in>set (sl_shards sl). length (sh_records sh) + n \<le> 2 ^ 26)"

lemma slots_left_Suc: "slots_left (Suc n) sl \<Longrightarrow> slots_left n sl"
  by (force simp: slots_left_def)

lemma slots_left_shard:
  assumes "slots_left m sl" and "s < length (sl_shards sl)" and "n \<le> m"
    and "length (sh_records sh') + n \<le> length (sh_records (sl_shards sl ! s)) + m"
  shows "slots_left n (sl\<lparr>sl_shards := (sl_shards sl)[s := sh']\<rparr>)"
  unfolding slots_left_def
proof
  fix sh
  assume "sh \<in> set (sl_shards (sl\<lparr>sl_shards := (sl_shards sl)[s := sh']\<rparr>))"
  then have "sh = sh' \<or> sh \<in> set (sl_shards sl)" using set_update_subset_insert by fastforce
  moreover have "sl_shards sl ! s \<in> set (sl_shards sl)" using assms(2) by simp
  ultimately show "length (sh_records sh) + n \<le> 2 ^ 26" using assms(1,3,4) unfolding slots_left_def by fastforce
qed

lemma room_live [simp]: "slots_left n (sl\<lparr>sl_live := l\<rparr>) = slots_left n sl"
    "slots_left n (sl\<lparr>sl_shards := ss, sl_live := l\<rparr>) = slots_left n (sl\<lparr>sl_shards := ss\<rparr>)"
  by (simp_all add: slots_left_def)

lemma slab_get_alive:
  "length (sl_shards sl) = 64 \<Longrightarrow>
   slab_get i sl = (if alive_in (shard_at sl i) (slot_at i) then Some (sh_records (shard_at sl i) ! unat (slot_at i)) else None)"
  using id_parts_bound(1) [of i] by (simp add: slab_get_def alive_in_def unat_slot Let_def)

lemma slab_get_make_id:
  "length (sl_shards sl) = 64 \<Longrightarrow> unat s < 64 \<Longrightarrow> unat x < 2 ^ 26 \<Longrightarrow>
   slab_get (make_id s x) sl =
     (if alive_in (sl_shards sl ! unat s) x then Some (sh_records (sl_shards sl ! unat s) ! unat x) else None)"
  by (simp add: slab_get_alive slot_at_make_id make_id_parts)

lemma slab_get_frame [simp]:
  "slab_get i (sl\<lparr>sl_live := n\<rparr>) = slab_get i sl" "slab_get i (sl\<lparr>sl_shards := ss, sl_live := n\<rparr>) = slab_get i (sl\<lparr>sl_shards := ss\<rparr>)"
  by (simp_all add: slab_get_def)

lemma slab_get_shard:
  "length (sl_shards sl) = 64 \<Longrightarrow> s < 64 \<Longrightarrow>
   slab_get i (sl\<lparr>sl_shards := (sl_shards sl)[s := sh]\<rparr>) =
     (if id_shard i = s then (if alive_in sh (slot_at i) then Some (sh_records sh ! unat (slot_at i)) else None) else slab_get i sl)"
  by (simp add: slab_get_alive)

lemma alive_slot_small: "slab_shard_ok sh \<Longrightarrow> alive_in sh x \<Longrightarrow> unat x < 2 ^ 26"
  by (auto simp: slab_shard_ok_def linked_def)

lemma slab_ok_shard: "slab_ok sl \<Longrightarrow> s < 64 \<Longrightarrow> slab_shard_ok (sl_shards sl ! s)"
  by (simp add: slab_ok_def)

lemma finite_ids: "finite (dom (slab_map sl))"
proof -
  have "(UNIV :: file_id set) = range FileId" by (metis file_id.collapse surjI)
  then have "finite (UNIV :: file_id set)" by (metis finite_imageI finite)
  then show ?thesis by (rule rev_finite_subset) simp
qed

text \<open>The file with a hash, if there is one, is in the shard the hash selects.\<close>

lemma find_in_slab:
  fixes h assumes "slab_ok sl"
  defines "s \<equiv> shard_of_hash h"
  shows "\<exists>r. shard_find h (sl_shards sl ! unat s) = Some r \<and>
    (\<forall>x. r = Some x \<longrightarrow> unat x < 2 ^ 26 \<and> alive_in (sl_shards sl ! unat s) x \<and> hash_at (sl_shards sl ! unat s) x = h) \<and>
    (r = None \<longrightarrow> (\<forall>x. alive_in (sl_shards sl ! unat s) x \<longrightarrow> hash_at (sl_shards sl ! unat s) x \<noteq> h)) \<and>
    (\<forall>i. map_option (make_id s) r = Some i \<longleftrightarrow> (\<exists>rec. slab_get i sl = Some rec \<and> fr_hash rec = h))"
proof -
  have s: "unat s < 64" by (simp add: s_def shard_of_hash_bound)
  have len: "length (sl_shards sl) = 64" using assms(1) by (simp add: slab_ok_def)
  have ok: "slab_shard_ok (sl_shards sl ! unat s)" by (rule slab_ok_shard [OF assms(1) s])
  obtain r where r: "shard_find h (sl_shards sl ! unat s) = Some r"
      "\<And>x. r = Some x \<longleftrightarrow> alive_in (sl_shards sl ! unat s) x \<and> hash_at (sl_shards sl ! unat s) x = h"
    using shard_find_ok [OF ok] by blast
  have id: "map_option (make_id s) r = Some i \<longleftrightarrow> (\<exists>rec. slab_get i sl = Some rec \<and> fr_hash rec = h)" for i
  proof
    assume "map_option (make_id s) r = Some i"
    then obtain x where x: "r = Some x" "i = make_id s x" by auto
    then have a: "alive_in (sl_shards sl ! unat s) x" "hash_at (sl_shards sl ! unat s) x = h" using r(2) by auto
    show "\<exists>rec. slab_get i sl = Some rec \<and> fr_hash rec = h"
      using slab_get_make_id [OF len s alive_slot_small [OF ok a(1)]] a x by simp
  next
    assume "\<exists>rec. slab_get i sl = Some rec \<and> fr_hash rec = h"
    then obtain rec where rec: "slab_get i sl = Some rec" "fr_hash rec = h" by blast
    then have sh: "id_shard i = unat s" using assms(1) by (auto simp: slab_ok_def s_def)
    then have "alive_in (sl_shards sl ! unat s) (slot_at i) \<and> hash_at (sl_shards sl ! unat s) (slot_at i) = h"
      using rec by (auto simp: slab_get_alive [OF len] split: if_splits)
    then have "r = Some (slot_at i)" using r(2) by simp
    then show "map_option (make_id s) r = Some i" using make_id_eta [of i] sh by simp
  qed
  have none: "r = None \<Longrightarrow> alive_in (sl_shards sl ! unat s) x \<Longrightarrow> hash_at (sl_shards sl ! unat s) x \<noteq> h" for x
    using r(2) [of x] by auto
  have some: "r = Some x \<Longrightarrow> unat x < 2 ^ 26 \<and> alive_in (sl_shards sl ! unat s) x \<and> hash_at (sl_shards sl ! unat s) x = h" for x
    using r(2) [of x] alive_slot_small [OF ok, of x] by simp
  show ?thesis
    by (rule exI [of _ r], intro conjI allI impI) (fact r(1) | fact none | fact id | erule some [THEN conjunct1] some [THEN conjunct2, THEN conjunct1] some [THEN conjunct2, THEN conjunct2])+
qed

lemma id_of_ok:
  assumes "slab_ok sl"
  shows "\<exists>r. id_of h sl = Some r \<and> (\<forall>i. r = Some i \<longleftrightarrow> (\<exists>rec. slab_get i sl = Some rec \<and> fr_hash rec = h))"
  using find_in_slab [OF assms, of h] by (auto simp: id_of_def Let_def)


section \<open>What each operation does to the map of files\<close>

text \<open>The slot of an id waits for reuse since the reading \<open>t\<close>.\<close>

definition quarantined :: "file_slab \<Rightarrow> file_id \<Rightarrow> u32 \<Rightarrow> bool" where
  "quarantined sl i t \<longleftrightarrow> (slot_at i, t) \<in> set (sh_free (shard_at sl i))"

lemma quarantined_dead: "slab_ok sl \<Longrightarrow> quarantined sl i t \<Longrightarrow> slab_get i sl = None"
proof -
  assume ok: "slab_ok sl" and q: "quarantined sl i t"
  have "slab_shard_ok (shard_at sl i)" by (rule slab_ok_shard [OF ok id_parts_bound(1)])
  then have "\<not> alive_in (shard_at sl i) (slot_at i)" using q by (auto simp: quarantined_def slab_shard_ok_def)
  then show "slab_get i sl = None" using ok by (simp add: slab_get_alive slab_ok_def)
qed

lemma insert_new_ok:
  assumes ok: "slab_ok sl" and alive: "record_alive rec" and slots_left: "slots_left 1 sl"
    and fresh: "shard_find (fr_hash rec) (sl_shards sl ! unat (shard_of_hash (fr_hash rec))) = Some None"
  obtains i sl' where "insert_if_new rec now sl = Some ((i, True), sl')" "slab_get i sl = None"
    "slab_map sl' = (slab_map sl)(i \<mapsto> rec)" "slab_ok sl'" "\<forall>t. quarantined sl i t \<longrightarrow> sl_quarantine sl \<le> now - t"
    "\<forall>j t. quarantined sl j t \<longrightarrow> j \<noteq> i \<longrightarrow> quarantined sl' j t" "sl_quarantine sl' = sl_quarantine sl"
    "\<forall>n. slots_left (Suc n) sl \<longrightarrow> slots_left n sl'"
proof -
  define s where "s = shard_of_hash (fr_hash rec)"
  define sh where "sh = sl_shards sl ! unat s"
  have s: "unat s < 64" by (simp add: s_def shard_of_hash_bound)
  have len: "length (sl_shards sl) = 64" using ok by (simp add: slab_ok_def)
  have sok: "slab_shard_ok sh" using slab_ok_shard [OF ok s] by (simp add: sh_def)
  have none: "\<forall>y. alive_in sh y \<longrightarrow> hash_at sh y \<noteq> fr_hash rec"
    using find_in_slab [OF ok, of "fr_hash rec"] fresh by (auto simp: s_def sh_def)
  have rm: "length (sh_records sh) < 2 ^ 26" 
  proof -
    have "sh \<in> set (sl_shards sl)" using s len by (simp add: sh_def)
    then show ?thesis using slots_left by (fastforce simp: slots_left_def)
  qed
  obtain x sh' where ins: "insert_record rec now (sl_quarantine sl) sh = (x, sh')" by fastforce
  note I = insert_record_ok [OF sok alive none rm ins]
  have new: "slab_shard_ok sh'" "\<not> alive_in sh x" "alive_in sh' x" "unat x < 2 ^ 26" "sh_records sh' ! unat x = rec"
    "\<And>y. y \<noteq> x \<Longrightarrow> alive_in sh' y = alive_in sh y" "\<And>y. alive_in sh y \<Longrightarrow> sh_records sh' ! unat y = sh_records sh ! unat y"
    using I by (simp_all add: inserts_def)
  define i where "i = make_id s x"
  define sl' where "sl' = sl\<lparr>sl_shards := (sl_shards sl)[unat s := sh'], sl_live := sl_live sl + 1\<rparr>"
  have i: "id_shard i = unat s" "slot_at i = x" using make_id_parts [OF s new(4)] slot_at_make_id [OF s new(4)] by (simp_all add: i_def)
  have res: "insert_if_new rec now sl = Some ((i, True), sl')"
    using fresh ins by (simp add: insert_if_new_def Let_def sl'_def i_def sh_def s_def)
  have dead: "slab_get i sl = None" using new(2) i by (simp add: slab_get_alive [OF len] sh_def)
  have map: "slab_map sl' = (slab_map sl)(i \<mapsto> rec)"
  proof
    fix j
    show "slab_get j sl' = ((slab_map sl)(i \<mapsto> rec)) j"
    proof (cases "id_shard j = unat s")
      case True
      show ?thesis
      proof (cases "slot_at j = x")
        case True
        then have "j = i" using \<open>id_shard j = unat s\<close> i by (simp add: id_eq_iff [of j i])
        then show ?thesis using i new(3,5) by (simp add: sl'_def slab_get_shard [OF len s])
      next
        case False
        then have "j \<noteq> i" using i by auto
        then show ?thesis using True False new(6,7) [of "slot_at j"]
          by (simp add: sl'_def slab_get_shard [OF len s] slab_get_alive [OF len] sh_def)
      qed
    next
      case False
      then have "j \<noteq> i" using i by auto
      then show ?thesis using False by (simp add: sl'_def slab_get_shard [OF len s])
    qed
  qed
  have card: "card (dom (slab_map sl')) = Suc (card (dom (slab_map sl)))"
    using finite_ids [of sl] dead unfolding map by (simp add: domIff)
  have "slab_ok sl'"
    unfolding slab_ok_def
  proof (intro conjI allI impI)
    show "length (sl_shards sl') = 64" by (simp add: sl'_def len)
    show "slab_shard_ok (sl_shards sl' ! k)" if "k < 64" for k
      using that new(1) slab_ok_shard [OF ok that] len by (cases "k = unat s") (simp_all add: sl'_def)
    show "unat (shard_of_hash (fr_hash r)) = id_shard j" if "slab_get j sl' = Some r" for j r
      using that ok i fun_cong [OF map, of j] by (auto simp: slab_ok_def s_def split: if_splits)
    show "sl_live sl' = of_nat (card (dom (slab_map sl')))" using ok card by (simp add: sl'_def slab_ok_def)
  qed
  moreover have "\<forall>t. quarantined sl i t \<longrightarrow> sl_quarantine sl \<le> now - t" using I i by (simp add: quarantined_def sh_def)
  moreover have "\<forall>j t. quarantined sl j t \<longrightarrow> j \<noteq> i \<longrightarrow> quarantined sl' j t"
  proof (intro allI impI)
    fix j t
    assume q: "quarantined sl j t" "j \<noteq> i"
    show "quarantined sl' j t"
    proof (cases "id_shard j = unat s")
      case True
      then have "slot_at j \<noteq> x" using q(2) i by (simp add: id_eq_iff [of j i])
      then show ?thesis using I q(1) True s len by (simp add: quarantined_def sl'_def sh_def)
    qed (use q in \<open>simp add: quarantined_def sl'_def\<close>)
  qed
  moreover have "\<forall>n. slots_left (Suc n) sl \<longrightarrow> slots_left n sl'"
    using slots_left_shard [of "Suc _" sl "unat s" _ sh'] I s len by (simp add: sl'_def sh_def)
  ultimately show ?thesis using that [OF res dead map] by (simp add: sl'_def)
qed


lemma shard_tombstone_ok:
  assumes ok: "slab_shard_ok sh" and x: "alive_in sh x"
  obtains sh1 where "unlink x (hash_at sh x) sh = Some sh1"
    "\<And>r. \<not> record_alive r \<Longrightarrow>
       let sh' = sh1\<lparr>sh_media := (sh_media sh1)(x := None), sh_records := (sh_records sh1)[unat x := r], sh_free := sh_free sh1 @ [(x, now)]\<rparr>
       in slab_shard_ok sh' \<and> (\<forall>y. alive_in sh' y \<longleftrightarrow> y \<noteq> x \<and> alive_in sh y) \<and> sh_free sh' = sh_free sh @ [(x, now)] \<and>
          (\<forall>y. y \<noteq> x \<longrightarrow> sh_records sh' ! unat y = sh_records sh ! unat y)"
    "sh_records sh1 = sh_records sh"
proof -
  have lk: "linked sh {y. alive_in sh y}" using ok by (simp add: slab_shard_ok_def)
  obtain sh1 where u: "unlink x (hash_at sh x) sh = Some sh1" "linked sh1 ({y. alive_in sh y} - {x})" "sh_records sh1 = sh_records sh"
    "sh_free sh1 = sh_free sh" "sh_media sh1 = sh_media sh" "length (sh_buckets sh1) = length (sh_buckets sh)"
    using unlink_ok [OF lk, of x] x by auto
  have main: "let sh' = sh1\<lparr>sh_media := (sh_media sh1)(x := None), sh_records := (sh_records sh1)[unat x := r], sh_free := sh_free sh1 @ [(x, now)]\<rparr>
       in slab_shard_ok sh' \<and> (\<forall>y. alive_in sh' y \<longleftrightarrow> y \<noteq> x \<and> alive_in sh y) \<and> sh_free sh' = sh_free sh @ [(x, now)] \<and>
          (\<forall>y. y \<noteq> x \<longrightarrow> sh_records sh' ! unat y = sh_records sh ! unat y)" if dead: "\<not> record_alive r" for r
  proof -
    define sh' where "sh' = sh1\<lparr>sh_media := (sh_media sh1)(x := None), sh_records := (sh_records sh1)[unat x := r], sh_free := sh_free sh1 @ [(x, now)]\<rparr>"
    have other: "sh_records sh' ! unat y = sh_records sh ! unat y" if "y \<noteq> x" for y
      using nth_update_other [where 'a = file_record] that by (simp add: sh'_def u(3))
    have al: "alive_in sh' y \<longleftrightarrow> y \<noteq> x \<and> alive_in sh y" for y
      using other [of y] x dead by (cases "y = x") (simp_all add: alive_in_def sh'_def u(3))
    have "linked sh' ({y. alive_in sh y} - {x})"
    proof (rule linked_cong [OF u(2)])
      show "hash_at sh' y = hash_at sh1 y" if "y \<in> {y. alive_in sh y} - {x}" for y using other [of y] that u(3) by simp
    qed (simp_all add: sh'_def u(3))
    moreover have "{y. alive_in sh y} - {x} = {y. alive_in sh' y}" using al by blast
    ultimately have lk': "linked sh' {y. alive_in sh' y}" by simp
    have uniq: "y = z" if "alive_in sh' y" "alive_in sh' z" "hash_at sh' y = hash_at sh' z" for y z
      using that al other ok unfolding slab_shard_ok_def by metis
    have free: "sh_free sh' = sh_free sh @ [(x, now)]" by (simp add: sh'_def u(4))
    have "x \<notin> fst ` set (sh_free sh)" using ok x by (auto simp: slab_shard_ok_def)
    then have dist: "distinct (map fst (sh_free sh'))" using ok by (simp add: free slab_shard_ok_def)
    have frees: "unat y < length (sh_records sh') \<and> \<not> alive_in sh' y" if "(y, t) \<in> set (sh_free sh')" for y t
    proof -
      have "length (sh_records sh') = length (sh_records sh)" by (simp add: sh'_def u(3))
      moreover have "(y, t) \<in> set (sh_free sh) \<or> y = x" using that by (auto simp: free)
      ultimately show ?thesis using ok al [of y] x unfolding slab_shard_ok_def by (auto simp: alive_in_def [of sh x])
    qed
    have med: "\<forall>y\<in>dom (sh_media sh'). alive_in sh' y" using ok al by (auto simp: sh'_def u(5) slab_shard_ok_def split: if_splits)
    have "length (sh_buckets sh') \<le> 2 ^ 27" using ok u(6) by (simp add: slab_shard_ok_def sh'_def)
    then have "slab_shard_ok sh'" unfolding slab_shard_ok_def using lk' uniq dist frees med by blast
    then show ?thesis using al free other by (simp add: sh'_def Let_def)
  qed
  show ?thesis by (rule that [OF u(1) main u(3)])
qed

lemma tombstone_live_ok:
  assumes ok: "slab_ok sl" and get: "slab_get i sl = Some r" and c: "c r"
  obtains sl' where "tombstone_where c i now sl = Some (fr_fname r, sl')" "slab_map sl' = (slab_map sl)(i := None)" "slab_ok sl'"
    "quarantined sl' i now" "\<forall>j t. quarantined sl j t \<longrightarrow> quarantined sl' j t" "sl_quarantine sl' = sl_quarantine sl"
    "\<forall>n. slots_left n sl \<longrightarrow> slots_left n sl'"
proof -
  define sh where "sh = shard_at sl i"
  define s where "s = id_shard i"
  have len: "length (sl_shards sl) = 64" using ok by (simp add: slab_ok_def)
  have s: "s < 64" by (simp add: s_def id_parts_bound)
  have sok: "slab_shard_ok sh" using slab_ok_shard [OF ok s] by (simp add: sh_def s_def)
  have al: "alive_in sh (slot_at i)" "r = sh_records sh ! id_index i"
    using get by (auto simp: slab_get_alive [OF len] sh_def unat_slot split: if_splits)
  obtain sh1 where u: "unlink (slot_at i) (hash_at sh (slot_at i)) sh = Some sh1" "sh_records sh1 = sh_records sh"
    and dead: "\<And>r. \<not> record_alive r \<Longrightarrow>
       let sh' = sh1\<lparr>sh_media := (sh_media sh1)(slot_at i := None), sh_records := (sh_records sh1)[unat (slot_at i) := r], sh_free := sh_free sh1 @ [(slot_at i, now)]\<rparr>
       in slab_shard_ok sh' \<and> (\<forall>y. alive_in sh' y \<longleftrightarrow> y \<noteq> slot_at i \<and> alive_in sh y) \<and> sh_free sh' = sh_free sh @ [(slot_at i, now)] \<and>
          (\<forall>y. y \<noteq> slot_at i \<longrightarrow> sh_records sh' ! unat y = sh_records sh ! unat y)"
    by (rule shard_tombstone_ok [OF sok al(1)]) blast
  define sh' where "sh' = sh1\<lparr>sh_media := (sh_media sh1)(slot_at i := None),
    sh_records := (sh_records sh1)[id_index i := r\<lparr>fr_sources := [], fr_fname := None\<rparr>], sh_free := sh_free sh1 @ [(slot_at i, now)]\<rparr>"
  define sl' where "sl' = sl\<lparr>sl_shards := (sl_shards sl)[s := sh'], sl_live := sl_live sl - 1\<rparr>"
  have S: "slab_shard_ok sh'" "\<And>y. alive_in sh' y \<longleftrightarrow> y \<noteq> slot_at i \<and> alive_in sh y" "sh_free sh' = sh_free sh @ [(slot_at i, now)]"
    "\<And>y. y \<noteq> slot_at i \<Longrightarrow> sh_records sh' ! unat y = sh_records sh ! unat y"
    using dead [of "r\<lparr>fr_sources := [], fr_fname := None\<rparr>", unfolded Let_def unat_slot, folded sh'_def]
    by (simp_all add: record_alive_def)
  have res: "tombstone_where c i now sl = Some (fr_fname r, sl')"
    using u al c s len by (simp add: tombstone_where_def Let_def sl'_def sh'_def sh_def [symmetric] s_def alive_in_def unat_slot)
  have map: "slab_map sl' = (slab_map sl)(i := None)"
  proof
    fix j
    show "slab_get j sl' = ((slab_map sl)(i := None)) j"
    proof (cases "id_shard j = s")
      case True
      then have "j = i \<longleftrightarrow> slot_at j = slot_at i" by (simp add: id_eq_iff [of j i] s_def)
      then show ?thesis using True S(2,4) [of "slot_at j"]
        by (simp add: sl'_def slab_get_shard [OF len s, unfolded s_def] slab_get_alive [OF len] sh_def s_def)
    next
      case False
      then have "j \<noteq> i" by (auto simp: s_def)
      then show ?thesis using False by (simp add: sl'_def slab_get_shard [OF len s])
    qed
  qed
  have card: "card (dom (slab_map sl)) = Suc (card (dom (slab_map sl')))"
  proof -
    have "i \<in> dom (slab_map sl)" using get by blast
    then show ?thesis using card.remove [OF finite_ids [of sl]] unfolding map by simp
  qed
  have "slab_ok sl'"
    unfolding slab_ok_def
  proof (intro conjI allI impI)
    show "length (sl_shards sl') = 64" by (simp add: sl'_def len)
    show "slab_shard_ok (sl_shards sl' ! k)" if "k < 64" for k
      using that S(1) slab_ok_shard [OF ok that] len by (cases "k = s") (simp_all add: sl'_def)
    show "unat (shard_of_hash (fr_hash q)) = id_shard j" if "slab_get j sl' = Some q" for j q
      using that ok fun_cong [OF map, of j] by (auto simp: slab_ok_def split: if_splits)
    show "sl_live sl' = of_nat (card (dom (slab_map sl')))" using ok card by (simp add: sl'_def slab_ok_def)
  qed
  moreover have "quarantined sl' i now" "\<forall>j t. quarantined sl j t \<longrightarrow> quarantined sl' j t"
    using S(3) s len by (auto simp: quarantined_def sl'_def sh_def s_def nth_list_update)
  moreover have "\<forall>n. slots_left n sl \<longrightarrow> slots_left n sl'"
  proof -
    have "length (sh_records sh') = length (sh_records (sl_shards sl ! s))" by (simp add: sh'_def u(2) sh_def s_def)
    then show ?thesis using slots_left_shard [of _ sl s _ sh'] s len by (simp add: sl'_def)
  qed
  ultimately show ?thesis using that [OF res map] by (simp add: sl'_def)
qed

lemma tombstone_other_ok:
  "(\<And>r. slab_get i sl = Some r \<Longrightarrow> \<not> c r) \<Longrightarrow> tombstone_where c i now sl = Some (None, sl)"
  by (auto simp: tombstone_where_def slab_get_def Let_def split: if_splits)


text \<open>A write into one shard that leaves its live slots, their hashes and its free list alone.\<close>

lemma slab_replace_ok:
  assumes ok: "slab_ok sl" and s: "s < 64" and sok: "slab_shard_ok sh'" and free: "sh_free sh' = sh_free (sl_shards sl ! s)"
    and al: "\<And>y. alive_in sh' y = alive_in (sl_shards sl ! s) y"
    and hash: "\<And>y. alive_in sh' y \<Longrightarrow> hash_at sh' y = hash_at (sl_shards sl ! s) y"
  defines "sl' \<equiv> sl\<lparr>sl_shards := (sl_shards sl)[s := sh']\<rparr>"
  shows "slab_ok sl'" "quarantined sl' i t = quarantined sl i t"
proof -
  have len: "length (sl_shards sl) = 64" using ok by (simp add: slab_ok_def)
  have get: "map_option fr_hash (slab_get j sl') = map_option fr_hash (slab_get j sl)" for j
    using al hash by (simp add: sl'_def slab_get_shard [OF len s] slab_get_alive [OF len])
  then have dom: "dom (slab_map sl') = dom (slab_map sl)" by (auto simp: dom_def) (metis option.map_disc_iff option.exhaust)+
  show "slab_ok sl'"
    unfolding slab_ok_def
  proof (intro conjI allI impI)
    show "length (sl_shards sl') = 64" by (simp add: sl'_def len)
    show "slab_shard_ok (sl_shards sl' ! k)" if "k < 64" for k
      using that sok slab_ok_shard [OF ok that] len by (cases "k = s") (simp_all add: sl'_def)
    show "unat (shard_of_hash (fr_hash r)) = id_shard j" if "slab_get j sl' = Some r" for j r
    proof -
      have "map_option fr_hash (slab_get j sl) = Some (fr_hash r)" using get [of j] that by simp
      then obtain q where "slab_get j sl = Some q" "fr_hash q = fr_hash r" by auto
      then show ?thesis using ok unfolding slab_ok_def by metis
    qed
    show "sl_live sl' = of_nat (card (dom (slab_map sl')))" unfolding dom using ok by (simp add: sl'_def slab_ok_def)
  qed
  show "quarantined sl' i t = quarantined sl i t"
    using len s free by (cases "id_shard i = s") (simp_all add: quarantined_def sl'_def)
qed

lemma put_record_ok:
  assumes ok: "slab_ok sl" and get: "slab_get i sl = Some r" and r': "fr_hash r' = fr_hash r" "record_alive r'"
  shows "slab_ok (put_record i r' sl)" "slab_map (put_record i r' sl) = (slab_map sl)(i \<mapsto> r')"
    "quarantined (put_record i r' sl) j t = quarantined sl j t" "sl_quarantine (put_record i r' sl) = sl_quarantine sl"
    "slots_left n sl \<Longrightarrow> slots_left n (put_record i r' sl)"
proof -
  define sh where "sh = shard_at sl i"
  define sh' where "sh' = sh\<lparr>sh_records := (sh_records sh)[id_index i := r']\<rparr>"
  have len: "length (sl_shards sl) = 64" using ok by (simp add: slab_ok_def)
  have s: "id_shard i < 64" by (simp add: id_parts_bound)
  have sok: "slab_shard_ok sh" using slab_ok_shard [OF ok s] by (simp add: sh_def)
  have x: "alive_in sh (slot_at i)" "hash_at sh (slot_at i) = fr_hash r" using get by (auto simp: slab_get_alive [OF len] sh_def split: if_splits)
  have other: "sh_records sh' ! unat y = (if y = slot_at i then r' else sh_records sh ! unat y)" for y
    using nth_update_other [of y "slot_at i" "sh_records sh" r'] x(1) by (auto simp: sh'_def unat_slot alive_in_def)
  have al: "alive_in sh' y = alive_in sh y" for y
    using x(1) r'(2) by (simp add: alive_in_def other) (auto simp: sh'_def alive_in_def)
  have hash: "hash_at sh' y = hash_at sh y" for y using x(2) r'(1) by (simp add: other)
  have put: "put_record i r' sl = sl\<lparr>sl_shards := (sl_shards sl)[id_shard i := sh']\<rparr>"
    by (simp add: put_record_def Let_def sh'_def sh_def)
  have "linked sh {y. alive_in sh y}" using sok by (simp add: slab_shard_ok_def)
  then have "linked sh' {y. alive_in sh y}" by (rule linked_cong) (simp_all add: hash, simp_all add: sh'_def)
  then have sok': "slab_shard_ok sh'"
    using sok al hash by (simp add: slab_shard_ok_def) (simp add: sh'_def)
  note R = slab_replace_ok [OF ok s sok', unfolded sh_def [symmetric], OF _ al hash]
  have f: "sh_free sh' = sh_free sh" by (simp add: sh'_def)
  show "slab_ok (put_record i r' sl)" "quarantined (put_record i r' sl) j t = quarantined sl j t"
    using R(1) [OF f] R(2) [OF f] by (simp_all add: put)
  show "slab_map (put_record i r' sl) = (slab_map sl)(i \<mapsto> r')"
  proof
    fix j
    show "slab_get j (put_record i r' sl) = ((slab_map sl)(i \<mapsto> r')) j"
    proof (cases "id_shard j = id_shard i")
      case True
      then have "j = i \<longleftrightarrow> slot_at j = slot_at i" by (simp add: id_eq_iff [of j i])
      then show ?thesis using True x(1) al other by (simp add: put slab_get_shard [OF len s] slab_get_alive [OF len] sh_def)
    qed (auto simp: put slab_get_shard [OF len s])
  qed
  show "sl_quarantine (put_record i r' sl) = sl_quarantine sl" by (simp add: put)
  have l: "length (sh_records sh') = length (sh_records (shard_at sl i))" by (simp add: sh'_def sh_def)
  show "slots_left n sl \<Longrightarrow> slots_left n (put_record i r' sl)"
    using slots_left_shard [of n sl "id_shard i" n sh'] s len l by (simp add: put)
qed

lemma merge_media_ok:
  assumes ok: "slab_ok sl"
  obtains sl' where "merge_media h m sl = Some sl'" "slab_ok sl'" "slab_map sl' = slab_map sl"
    "\<forall>i t. quarantined sl' i t = quarantined sl i t" "sl_quarantine sl' = sl_quarantine sl" "\<forall>n. slots_left n sl \<longrightarrow> slots_left n sl'"
proof -
  define s where "s = shard_of_hash h"
  define sh where "sh = sl_shards sl ! unat s"
  have s: "unat s < 64" by (simp add: s_def shard_of_hash_bound)
  have len: "length (sl_shards sl) = 64" using ok by (simp add: slab_ok_def)
  have sok: "slab_shard_ok sh" using slab_ok_shard [OF ok s] by (simp add: sh_def)
  obtain r where r: "shard_find h sh = Some r" "\<And>x. r = Some x \<Longrightarrow> alive_in sh x"
    using find_in_slab [OF ok, of h] by (auto simp: s_def sh_def)
  have keep: "\<forall>n. slots_left n sl \<longrightarrow> slots_left n sl" by blast
  show ?thesis
  proof (cases "media_is_empty m \<or> r = None")
    case True
    then have "merge_media h m sl = Some sl" using r(1) by (auto simp: merge_media_def Let_def s_def sh_def)
    then show ?thesis using that ok keep by blast
  next
    case False
    then obtain x where x: "r = Some x" by blast
    define sh' where "sh' = sh\<lparr>sh_media := (sh_media sh)(x \<mapsto> media_merged (case sh_media sh x of Some e \<Rightarrow> e | None \<Rightarrow> 0) m)\<rparr>"
    define sl' where "sl' = sl\<lparr>sl_shards := (sl_shards sl)[unat s := sh']\<rparr>"
    have res: "merge_media h m sl = Some sl'"
      using r(1) x False by (simp add: merge_media_def Let_def s_def sh_def sh'_def sl'_def)
    have al: "alive_in sh' y = alive_in sh y" for y by (simp add: alive_in_def sh'_def)
    have "linked sh {y. alive_in sh y}" using sok by (simp add: slab_shard_ok_def)
    then have "linked sh' {y. alive_in sh y}" by (rule linked_cong) (simp_all add: sh'_def)
    then have "slab_shard_ok sh'" using sok r(2) [OF x] by (simp add: slab_shard_ok_def al) (auto simp: sh'_def)
    note R = slab_replace_ok [OF ok s this, folded sl'_def sh_def]
    have "slab_ok sl'" by (rule R(1)) (simp_all add: al, simp_all add: sh'_def)
    moreover have "quarantined sl' i t = quarantined sl i t" for i t by (rule R(2)) (simp_all add: al, simp_all add: sh'_def)
    moreover have "slab_map sl' = slab_map sl"
      by (rule ext) (simp add: sl'_def slab_get_shard [OF len s] slab_get_alive [OF len] al sh_def [symmetric], simp add: sh'_def)
    moreover have "\<forall>n. slots_left n sl \<longrightarrow> slots_left n sl'"
      using slots_left_shard [of _ sl "unat s" _ sh'] s len by (simp add: sl'_def sh'_def sh_def)
    ultimately show ?thesis using that [OF res] by (simp add: sl'_def)
  qed
qed

end
