(* ===== verification/File_Spec.thy ===== *)
theory File_Spec
  imports File_Store
begin

text \<open>
  What the file slab promises: a map from file ids to records with one record per hash, and each
  operation of \<open>FileSlab\<close> as a step on that map. The slab refines it, every chain walk of an
  operation returns, an id keeps naming one file for as long as its slot is in quarantine, and
  the scans visit every live file once.
\<close>

section \<open>Operations as steps\<close>

datatype slab_op =
    GetOrInsert file_hash u64 rstr source
  | InsertSourceless file_hash u64 rstr
  | Tombstone file_id
  | TombstoneIfSourceless file_id
  | TombstoneByHash file_hash
  | AddSource file_hash source
  | AddSourceNamed file_hash source rstr
  | AddSourceSized file_hash u64 source rstr
  | RemoveUserSource file_id bytes
  | MergeMedia file_hash media

datatype slab_result = RId file_id bool | RBool bool | RName "rstr option" | RMerge sized_merge | RUnit

fun slab_step :: "slab_op \<Rightarrow> u32 \<Rightarrow> file_slab \<Rightarrow> (slab_result \<times> file_slab) option" where
  "slab_step (GetOrInsert h sz n src) now sl = map_option (apfst (case_prod RId)) (get_or_insert h sz n src now sl)"
| "slab_step (InsertSourceless h sz n) now sl = map_option (apfst (\<lambda>i. RId i False)) (insert_sourceless h sz n now sl)"
| "slab_step (Tombstone i) now sl = map_option (apfst RBool) (tombstone i now sl)"
| "slab_step (TombstoneIfSourceless i) now sl = map_option (apfst RName) (tombstone_if_sourceless i now sl)"
| "slab_step (TombstoneByHash h) now sl = map_option (apfst RBool) (tombstone_by_hash h now sl)"
| "slab_step (AddSource h src) now sl = map_option (apfst RBool) (add_or_refresh_source h src sl)"
| "slab_step (AddSourceNamed h src n) now sl = map_option (apfst RName) (add_or_refresh_source_named h src n sl)"
| "slab_step (AddSourceSized h sz src n) now sl = map_option (apfst RMerge) (add_or_refresh_source_sized h sz src n sl)"
| "slab_step (RemoveUserSource i u) now sl = Some (apfst RBool (remove_user_source i u sl))"
| "slab_step (MergeMedia h m) now sl = map_option (Pair RUnit) (merge_media h m sl)"

section \<open>The map of files\<close>

type_synonym files = "file_id \<rightharpoonup> file_record"

definition holds :: "files \<Rightarrow> file_hash \<Rightarrow> file_id \<Rightarrow> file_record \<Rightarrow> bool" where
  "holds m h i r \<longleftrightarrow> m i = Some r \<and> fr_hash r = h"

definition unknown :: "files \<Rightarrow> file_hash \<Rightarrow> bool" where
  "unknown m h \<longleftrightarrow> (\<forall>i r. \<not> holds m h i r)"

abbreviation refresh :: "source \<Rightarrow> file_record \<Rightarrow> file_record" where
  "refresh src r \<equiv> r\<lparr>fr_sources := merge_source src (fr_sources r)\<rparr>"

abbreviation forget_user :: "bytes \<Rightarrow> file_record \<Rightarrow> file_record" where
  "forget_user u r \<equiv> r\<lparr>fr_sources := filter (\<lambda>s. so_user_hash s \<noteq> u) (fr_sources r)\<rparr>"

text \<open>The size a record has once a publisher that states \<open>sz\<close> is merged into it.\<close>

definition merged_size :: "u64 \<Rightarrow> u64 \<Rightarrow> u64" where
  "merged_size stored sz = (if sizes_agree stored sz then max stored sz else sz)"

inductive files_step :: "slab_op \<Rightarrow> files \<Rightarrow> slab_result \<Rightarrow> files \<Rightarrow> bool" where
  known_insert: "holds m h i r \<Longrightarrow> files_step (GetOrInsert h sz n src) m (RId i False) m"
| fresh_insert: "unknown m h \<Longrightarrow> m i = None \<Longrightarrow>
    files_step (GetOrInsert h sz n src) m (RId i True) (m(i \<mapsto> record_new h sz n [src]))"
| known_sourceless: "holds m h i r \<Longrightarrow> files_step (InsertSourceless h sz n) m (RId i False) m"
| fresh_sourceless: "unknown m h \<Longrightarrow> m i = None \<Longrightarrow>
    files_step (InsertSourceless h sz n) m (RId i False) (m(i \<mapsto> record_new h sz n []))"
| tombstone: "files_step (Tombstone i) m (RBool (m i \<noteq> None)) (m(i := None))"
| evict: "m i = Some r \<Longrightarrow> fr_sources r = [] \<Longrightarrow> files_step (TombstoneIfSourceless i) m (RName (fr_fname r)) (m(i := None))"
| spared: "(\<And>r. m i = Some r \<Longrightarrow> fr_sources r \<noteq> []) \<Longrightarrow> files_step (TombstoneIfSourceless i) m (RName None) m"
| tombstone_hash: "holds m h i r \<Longrightarrow> files_step (TombstoneByHash h) m (RBool True) (m(i := None))"
| tombstone_unknown: "unknown m h \<Longrightarrow> files_step (TombstoneByHash h) m (RBool False) m"
| add: "holds m h i r \<Longrightarrow> files_step (AddSource h src) m (RBool True) (m(i \<mapsto> refresh src r))"
| add_unknown: "unknown m h \<Longrightarrow> files_step (AddSource h src) m (RBool False) m"
| named: "holds m h i r \<Longrightarrow> files_step (AddSourceNamed h src n) m (RName (divergent_name r n)) (m(i \<mapsto> refresh src r))"
| named_unknown: "unknown m h \<Longrightarrow> files_step (AddSourceNamed h src n) m (RName None) m"
| sized: "holds m h i r \<Longrightarrow> sizes_agree (fr_size r) sz \<or> fr_sources r = [] \<Longrightarrow>
    files_step (AddSourceSized h sz src n) m (RMerge (Merged (divergent_name r n)))
      (m(i \<mapsto> refresh src (r\<lparr>fr_size := merged_size (fr_size r) sz\<rparr>)))"
| sized_refused: "holds m h i r \<Longrightarrow> \<not> sizes_agree (fr_size r) sz \<Longrightarrow> fr_sources r \<noteq> [] \<Longrightarrow>
    files_step (AddSourceSized h sz src n) m (RMerge (SizeMismatch (fr_size r))) m"
| sized_unknown: "unknown m h \<Longrightarrow> files_step (AddSourceSized h sz src n) m (RMerge Unknown) m"
| left_source: "m i = Some r \<Longrightarrow>
    files_step (RemoveUserSource i u) m (RBool (fr_sources (forget_user u r) = [])) (m(i \<mapsto> forget_user u r))"
| left_unknown: "m i = None \<Longrightarrow> files_step (RemoveUserSource i u) m (RBool False) m"
| media: "files_step (MergeMedia h v) m RUnit m"

section \<open>The slab refines the map\<close>

text \<open>What one operation may do to the slots: nothing reuses one before its quarantine is over, and a live
  file stays at its id or goes to the free list.\<close>

definition slab_next :: "u32 \<Rightarrow> file_slab \<Rightarrow> file_slab \<Rightarrow> bool" where
  "slab_next now sl sl' \<longleftrightarrow> slab_ok sl' \<and> sl_quarantine sl' = sl_quarantine sl \<and> (\<forall>n. slots_left (Suc n) sl \<longrightarrow> slots_left n sl') \<and>
     (\<forall>i t. quarantined sl i t \<longrightarrow> quarantined sl' i t \<or> sl_quarantine sl \<le> now - t) \<and>
     (\<forall>i r. slab_get i sl = Some r \<longrightarrow> quarantined sl' i now \<or> (\<exists>r'. slab_get i sl' = Some r' \<and> fr_hash r' = fr_hash r))"

lemma slab_next_refl: "slab_ok sl \<Longrightarrow> slab_next now sl sl"
  by (force simp: slab_next_def slots_left_def)

lemma find_cases:
  assumes "slab_ok sl"
  obtains (unknown) "id_of h sl = Some None" "shard_find h (sl_shards sl ! unat (shard_of_hash h)) = Some None" "unknown (slab_map sl) h"
  | (known) i r idx where "id_of h sl = Some (Some i)" "shard_find h (sl_shards sl ! unat (shard_of_hash h)) = Some (Some idx)"
      "i = make_id (shard_of_hash h) idx" "holds (slab_map sl) h i r" "slab_get i sl = Some r"
proof -
  obtain r where r: "shard_find h (sl_shards sl ! unat (shard_of_hash h)) = Some r"
      "\<And>i. map_option (make_id (shard_of_hash h)) r = Some i \<longleftrightarrow> (\<exists>rec. slab_get i sl = Some rec \<and> fr_hash rec = h)"
    using find_in_slab [OF assms, of h] by (elim exE conjE) (rule that, assumption, erule spec)
  have id: "id_of h sl = Some (map_option (make_id (shard_of_hash h)) r)" using r(1) by (simp add: id_of_def Let_def)
  show ?thesis
  proof (cases r)
    case None
    then show ?thesis using unknown r id by (simp add: unknown_def holds_def)
  next
    case (Some idx)
    then have "\<exists>rec. slab_get (make_id (shard_of_hash h) idx) sl = Some rec \<and> fr_hash rec = h"
      using r(2) [of "make_id (shard_of_hash h) idx"] by simp
    then show ?thesis using known r(1) id Some by (auto simp: holds_def)
  qed
qed

lemma insert_step:
  assumes ok: "slab_ok sl" and slots_left: "slots_left 1 sl" and alive: "record_alive rec"
  shows "(\<exists>i r. insert_if_new rec now sl = Some ((i, False), sl) \<and> holds (slab_map sl) (fr_hash rec) i r) \<or>
    (\<exists>i sl'. insert_if_new rec now sl = Some ((i, True), sl') \<and> unknown (slab_map sl) (fr_hash rec) \<and> slab_get i sl = None \<and>
       slab_map sl' = (slab_map sl)(i \<mapsto> rec) \<and> slab_next now sl sl')"
  using ok
proof (cases rule: find_cases [of _ "fr_hash rec"])
  case unknown
  obtain i sl' where N: "insert_if_new rec now sl = Some ((i, True), sl')" "slab_get i sl = None"
    "slab_map sl' = (slab_map sl)(i \<mapsto> rec)" "slab_ok sl'" "\<forall>t. quarantined sl i t \<longrightarrow> sl_quarantine sl \<le> now - t"
    "\<forall>j t. quarantined sl j t \<longrightarrow> j \<noteq> i \<longrightarrow> quarantined sl' j t" "sl_quarantine sl' = sl_quarantine sl" "\<forall>n. slots_left (Suc n) sl \<longrightarrow> slots_left n sl'"
    by (rule insert_new_ok [OF ok alive slots_left unknown(2)])
  have "slab_get j sl' = slab_get j sl" if "j \<noteq> i" for j using fun_cong [OF N(3), of j] that by simp
  moreover have "slab_get j sl = Some q \<Longrightarrow> j \<noteq> i" for j q using N(2) by auto
  ultimately have "slab_next now sl sl'"
    unfolding slab_next_def using N(4-8) by (intro conjI allI impI) (fact | metis)+
  then show ?thesis using N unknown(3) by blast
next
  case (known i r idx)
  then show ?thesis by (auto simp: insert_if_new_def Let_def)
qed

lemma tombstone_step:
  assumes ok: "slab_ok sl"
  shows "\<exists>n sl'. tombstone_where c i now sl = Some (n, sl') \<and> slab_next now sl sl' \<and> (\<forall>n. slots_left n sl \<longrightarrow> slots_left n sl') \<and>
    (case slab_get i sl of
       Some r \<Rightarrow> if c r then n = fr_fname r \<and> slab_map sl' = (slab_map sl)(i := None) else n = None \<and> sl' = sl
     | None \<Rightarrow> n = None \<and> sl' = sl)"
proof (cases "\<exists>r. slab_get i sl = Some r \<and> c r")
  case True
  then obtain r where r: "slab_get i sl = Some r" "c r" by blast
  obtain sl' where T: "tombstone_where c i now sl = Some (fr_fname r, sl')" "slab_map sl' = (slab_map sl)(i := None)" "slab_ok sl'"
    "quarantined sl' i now" "\<forall>j t. quarantined sl j t \<longrightarrow> quarantined sl' j t" "sl_quarantine sl' = sl_quarantine sl" "\<forall>n. slots_left n sl \<longrightarrow> slots_left n sl'"
    by (rule tombstone_live_ok [of sl i r c now, OF ok r])
  have "slab_get j sl' = slab_get j sl" if "j \<noteq> i" for j using fun_cong [OF T(2), of j] that by simp
  then have "slab_next now sl sl'"
    unfolding slab_next_def using T(3-7) slots_left_Suc by (intro conjI allI impI) (fact | metis)+
  then show ?thesis using T r by auto
next
  case False
  then have "tombstone_where c i now sl = Some (None, sl)" by (intro tombstone_other_ok) blast
  then show ?thesis using False slab_next_refl [OF ok] by (auto split: option.splits)
qed

lemma put_step:
  assumes ok: "slab_ok sl" and get: "slab_get i sl = Some r" and r': "fr_hash r' = fr_hash r" "fr_fname r' = fr_fname r"
  shows "slab_next now sl (put_record i r' sl) \<and> slab_map (put_record i r' sl) = (slab_map sl)(i \<mapsto> r') \<and>
    (\<forall>n. slots_left n sl \<longrightarrow> slots_left n (put_record i r' sl))"
proof -
  have len: "length (sl_shards sl) = 64" using ok by (simp add: slab_ok_def)
  have al: "record_alive r'" using get r'(2) by (auto simp: slab_get_alive [OF len] alive_in_def record_alive_def split: if_splits)
  note P = put_record_ok [OF ok get r'(1) al]
  have "slab_get j (put_record i r' sl) = (if j = i then Some r' else slab_get j sl)" for j using fun_cong [OF P(2), of j] by simp
  then have "slab_next now sl (put_record i r' sl)"
    using P(1,3-5) slots_left_Suc get r'(1) by (simp add: slab_next_def)
  then show ?thesis using P(2,5) by simp
qed


lemma divergent_name_cong: "fr_fname r' = fr_fname r \<Longrightarrow> divergent_name r' n = divergent_name r n"
  by (simp add: divergent_name_def record_name_def)

lemma insert_ops_step:
  assumes "slab_ok sl" and "slots_left 1 sl"
  shows "\<exists>res sl'. slab_step (GetOrInsert h sz n src) now sl = Some (res, sl') \<and> slab_next now sl sl' \<and>
      files_step (GetOrInsert h sz n src) (slab_map sl) res (slab_map sl')"
    and "\<exists>res sl'. slab_step (InsertSourceless h sz n) now sl = Some (res, sl') \<and> slab_next now sl sl' \<and>
      files_step (InsertSourceless h sz n) (slab_map sl) res (slab_map sl')"
proof -
  note keep = slab_next_refl [OF assms(1), of now]
  have new: "fr_hash (record_new h sz n ss) = h" "record_alive (record_new h sz n ss)" for ss
    by (simp_all add: record_new_def record_alive_def)
  from insert_step [OF assms new(2) [of "[src]"], of now, unfolded new(1)]
  show "\<exists>res sl'. slab_step (GetOrInsert h sz n src) now sl = Some (res, sl') \<and> slab_next now sl sl' \<and>
      files_step (GetOrInsert h sz n src) (slab_map sl) res (slab_map sl')"
  proof (elim disjE exE conjE)
    fix i r
    assume "insert_if_new (record_new h sz n [src]) now sl = Some ((i, False), sl)" "holds (slab_map sl) h i r"
    then show ?thesis using keep known_insert by (intro exI [of _ "RId i False"] exI [of _ sl]) (simp add: get_or_insert_def)
  next
    fix i sl'
    assume a: "insert_if_new (record_new h sz n [src]) now sl = Some ((i, True), sl')" "unknown (slab_map sl) h"
      "slab_get i sl = None" "slab_map sl' = (slab_map sl)(i \<mapsto> record_new h sz n [src])" "slab_next now sl sl'"
    have "files_step (GetOrInsert h sz n src) (slab_map sl) (RId i True) (slab_map sl')" unfolding a(4) by (rule fresh_insert) (fact a)+
    then show ?thesis using a by (intro exI [of _ "RId i True"] exI [of _ sl']) (simp add: get_or_insert_def)
  qed
  from insert_step [OF assms new(2) [of "[]"], of now, unfolded new(1)]
  show "\<exists>res sl'. slab_step (InsertSourceless h sz n) now sl = Some (res, sl') \<and> slab_next now sl sl' \<and>
      files_step (InsertSourceless h sz n) (slab_map sl) res (slab_map sl')"
  proof (elim disjE exE conjE)
    fix i r
    assume "insert_if_new (record_new h sz n []) now sl = Some ((i, False), sl)" "holds (slab_map sl) h i r"
    then show ?thesis using keep known_sourceless by (intro exI [of _ "RId i False"] exI [of _ sl]) (simp add: insert_sourceless_def)
  next
    fix i sl'
    assume a: "insert_if_new (record_new h sz n []) now sl = Some ((i, True), sl')" "unknown (slab_map sl) h"
      "slab_get i sl = None" "slab_map sl' = (slab_map sl)(i \<mapsto> record_new h sz n [])" "slab_next now sl sl'"
    have "files_step (InsertSourceless h sz n) (slab_map sl) (RId i False) (slab_map sl')" unfolding a(4) by (rule fresh_sourceless) (fact a)+
    then show ?thesis using a by (intro exI [of _ "RId i False"] exI [of _ sl']) (simp add: insert_sourceless_def)
  qed
qed

lemma slab_get_named: "slab_get i sl = Some r \<Longrightarrow> fr_fname r \<noteq> None"
  by (auto simp: slab_get_def Let_def record_alive_def split: if_splits)

lemma tombstone_ops_step:
  assumes ok: "slab_ok sl"
  shows "\<exists>res sl'. slab_step (Tombstone i) now sl = Some (res, sl') \<and> slab_next now sl sl' \<and>
      files_step (Tombstone i) (slab_map sl) res (slab_map sl')"
    and "\<exists>res sl'. slab_step (TombstoneIfSourceless i) now sl = Some (res, sl') \<and> slab_next now sl sl' \<and>
      files_step (TombstoneIfSourceless i) (slab_map sl) res (slab_map sl')"
    and "\<exists>res sl'. slab_step (TombstoneByHash h) now sl = Some (res, sl') \<and> slab_next now sl sl' \<and>
      files_step (TombstoneByHash h) (slab_map sl) res (slab_map sl')"
proof -
  have T: "\<exists>sl'. tombstone j now sl = Some (slab_get j sl \<noteq> None, sl') \<and> slab_next now sl sl' \<and> slab_map sl' = (slab_map sl)(j := None)" for j
  proof -
    obtain n sl' where t: "tombstone_where (\<lambda>_. True) j now sl = Some (n, sl')" "slab_next now sl sl'"
      "case slab_get j sl of Some r \<Rightarrow> n = fr_fname r \<and> slab_map sl' = (slab_map sl)(j := None) | None \<Rightarrow> n = None \<and> sl' = sl"
      using tombstone_step [OF ok, of "\<lambda>_. True" j now] unfolding if_True by blast
    show ?thesis
    proof (cases "slab_get j sl")
      case None
      then show ?thesis using t by (intro exI [of _ sl]) (auto simp: tombstone_def fun_eq_iff)
    next
      case (Some r)
      then show ?thesis using t slab_get_named [OF Some] by (intro exI [of _ sl']) (simp add: tombstone_def)
    qed
  qed
  show "\<exists>res sl'. slab_step (Tombstone i) now sl = Some (res, sl') \<and> slab_next now sl sl' \<and>
      files_step (Tombstone i) (slab_map sl) res (slab_map sl')"
    using T [of i] files_step.tombstone [of i "slab_map sl"] by auto
  obtain n sl' where t: "tombstone_where (\<lambda>r. fr_sources r = []) i now sl = Some (n, sl')" "slab_next now sl sl'"
    "case slab_get i sl of Some r \<Rightarrow> if fr_sources r = [] then n = fr_fname r \<and> slab_map sl' = (slab_map sl)(i := None) else n = None \<and> sl' = sl
       | None \<Rightarrow> n = None \<and> sl' = sl"
    using tombstone_step [OF ok, of "\<lambda>r. fr_sources r = []" i now] by blast
  have "files_step (TombstoneIfSourceless i) (slab_map sl) (RName n) (slab_map sl')"
    using t(3) evict [of "slab_map sl" i] spared [of "slab_map sl" i] by (auto split: option.splits if_splits)
  then show "\<exists>res sl'. slab_step (TombstoneIfSourceless i) now sl = Some (res, sl') \<and> slab_next now sl sl' \<and>
      files_step (TombstoneIfSourceless i) (slab_map sl) res (slab_map sl')"
    using t(1,2) by (simp add: tombstone_if_sourceless_def)
  from ok show "\<exists>res sl'. slab_step (TombstoneByHash h) now sl = Some (res, sl') \<and> slab_next now sl sl' \<and>
      files_step (TombstoneByHash h) (slab_map sl) res (slab_map sl')"
  proof (cases rule: find_cases [of _ h])
    case unknown
    then show ?thesis using slab_next_refl [OF ok] tombstone_unknown by (simp add: tombstone_by_hash_def)
  next
    case (known j r idx)
    obtain sl' where "tombstone j now sl = Some (True, sl')" "slab_next now sl sl'" "slab_map sl' = (slab_map sl)(j := None)"
      using T [of j] known(5) by auto
    then show ?thesis using known(1) tombstone_hash [OF known(4)] by (simp add: tombstone_by_hash_def)
  qed
qed

lemma source_ops_step:
  assumes ok: "slab_ok sl"
  shows "\<exists>res sl'. slab_step (AddSource h src) now sl = Some (res, sl') \<and> slab_next now sl sl' \<and>
      files_step (AddSource h src) (slab_map sl) res (slab_map sl')"
    and "\<exists>res sl'. slab_step (AddSourceNamed h src n) now sl = Some (res, sl') \<and> slab_next now sl sl' \<and>
      files_step (AddSourceNamed h src n) (slab_map sl) res (slab_map sl')"
    and "\<exists>res sl'. slab_step (AddSourceSized h sz src n) now sl = Some (res, sl') \<and> slab_next now sl sl' \<and>
      files_step (AddSourceSized h sz src n) (slab_map sl) res (slab_map sl')"
    and "\<exists>res sl'. slab_step (RemoveUserSource i u) now sl = Some (res, sl') \<and> slab_next now sl sl' \<and>
      files_step (RemoveUserSource i u) (slab_map sl) res (slab_map sl')"
proof -
  note keep = slab_next_refl [OF ok, of now]
  from ok show "\<exists>res sl'. slab_step (AddSource h src) now sl = Some (res, sl') \<and> slab_next now sl sl' \<and>
      files_step (AddSource h src) (slab_map sl) res (slab_map sl')"
  proof (cases rule: find_cases [of _ h])
    case unknown
    then show ?thesis using keep add_unknown by (simp add: add_or_refresh_source_def)
  next
    case (known j r idx)
    then show ?thesis using put_step [OF ok known(5), of "refresh src r" now] add [OF known(4)] by (simp add: add_or_refresh_source_def)
  qed
  from ok show "\<exists>res sl'. slab_step (AddSourceNamed h src n) now sl = Some (res, sl') \<and> slab_next now sl sl' \<and>
      files_step (AddSourceNamed h src n) (slab_map sl) res (slab_map sl')"
  proof (cases rule: find_cases [of _ h])
    case unknown
    then show ?thesis using keep named_unknown by (simp add: add_or_refresh_source_named_def)
  next
    case (known j r idx)
    then show ?thesis using put_step [OF ok known(5), of "refresh src r" now] named [OF known(4)] by (simp add: add_or_refresh_source_named_def)
  qed
  from ok show "\<exists>res sl'. slab_step (AddSourceSized h sz src n) now sl = Some (res, sl') \<and> slab_next now sl sl' \<and>
      files_step (AddSourceSized h sz src n) (slab_map sl) res (slab_map sl')"
  proof (cases rule: find_cases [of _ h])
    case unknown
    then show ?thesis using keep sized_unknown by (simp add: add_or_refresh_source_sized_def)
  next
    case (known j r idx)
    show ?thesis
    proof (cases "\<not> sizes_agree (fr_size r) sz \<and> fr_sources r \<noteq> []")
      case True
      then show ?thesis using known(1,5) keep sized_refused [OF known(4)] by (simp add: add_or_refresh_source_sized_def)
    next
      case False
      define r' where "r' = r\<lparr>fr_size := merged_size (fr_size r) sz\<rparr>"
      have "(if \<not> sizes_agree (fr_size r) sz then r\<lparr>fr_size := sz\<rparr> else if sz > fr_size r then r\<lparr>fr_size := sz\<rparr> else r) = r'"
        by (auto simp: r'_def merged_size_def max_def)
      then have "slab_step (AddSourceSized h sz src n) now sl =
          Some (RMerge (Merged (divergent_name (refresh src r') n)), put_record j (refresh src r') sl)"
        using known(1,5) False by (simp add: add_or_refresh_source_sized_def Let_def)
      moreover have "divergent_name (refresh src r') n = divergent_name r n" by (rule divergent_name_cong) (simp add: r'_def)
      ultimately show ?thesis using put_step [OF ok known(5), of "refresh src r'" now] sized [OF known(4)] False by (simp add: r'_def)
    qed
  qed
  show "\<exists>res sl'. slab_step (RemoveUserSource i u) now sl = Some (res, sl') \<and> slab_next now sl sl' \<and>
      files_step (RemoveUserSource i u) (slab_map sl) res (slab_map sl')"
  proof (cases "slab_get i sl")
    case None
    then show ?thesis using keep left_unknown by (simp add: remove_user_source_def)
  next
    case (Some r)
    then show ?thesis using put_step [OF ok Some, of "forget_user u r" now] left_source [of "slab_map sl" i r u] by (simp add: remove_user_source_def Let_def)
  qed
qed

lemma step_ok:
  assumes ok: "slab_ok sl" and slots_left: "slots_left 1 sl"
  shows "\<exists>res sl'. slab_step c now sl = Some (res, sl') \<and> slab_next now sl sl' \<and> files_step c (slab_map sl) res (slab_map sl')"
proof (cases c)
  case (MergeMedia h m)
  obtain sl' where "merge_media h m sl = Some sl'" "slab_ok sl'" "slab_map sl' = slab_map sl"
    "\<forall>i t. quarantined sl' i t = quarantined sl i t" "sl_quarantine sl' = sl_quarantine sl" "\<forall>n. slots_left n sl \<longrightarrow> slots_left n sl'"
    by (rule merge_media_ok [OF ok])
  moreover have "slab_get i sl' = slab_get i sl" for i using fun_cong [OF \<open>slab_map sl' = slab_map sl\<close>] by simp
  ultimately show ?thesis using MergeMedia media slots_left_Suc by (simp add: slab_next_def)
qed (use insert_ops_step [OF assms] tombstone_ops_step [OF ok] source_ops_step [OF ok] in simp_all)


section \<open>Runs\<close>

fun slab_run :: "(slab_op \<times> u32) list \<Rightarrow> file_slab \<Rightarrow> (slab_result list \<times> file_slab) option" where
  "slab_run [] sl = Some ([], sl)"
| "slab_run ((c, now) # cs) sl =
     (case slab_step c now sl of
        None \<Rightarrow> None
      | Some (res, sl) \<Rightarrow> map_option (apfst (Cons res)) (slab_run cs sl))"

fun files_run :: "slab_op list \<Rightarrow> files \<Rightarrow> slab_result list \<Rightarrow> files \<Rightarrow> bool" where
  "files_run (c # cs) m (res # rs) m' \<longleftrightarrow> (\<exists>m1. files_step c m res m1 \<and> files_run cs m1 rs m')"
| "files_run [] m [] m' \<longleftrightarrow> m' = m"
| "files_run _ _ _ _ \<longleftrightarrow> False"

lemma run_ok:
  "slab_ok sl \<Longrightarrow> slots_left (length cs) sl \<Longrightarrow>
   \<exists>rs sl'. slab_run cs sl = Some (rs, sl') \<and> slab_ok sl' \<and> files_run (map fst cs) (slab_map sl) rs (slab_map sl')"
proof (induction cs arbitrary: sl)
  case (Cons cn cs)
  obtain c now where cn: "cn = (c, now)" by force
  have "slots_left 1 sl" using Cons.prems(2) by (force simp: slots_left_def)
  then obtain res sl1 where s: "slab_step c now sl = Some (res, sl1)" "slab_next now sl sl1" "files_step c (slab_map sl) res (slab_map sl1)"
    using step_ok [OF Cons.prems(1), of c now] by blast
  have "slab_ok sl1" "slots_left (length cs) sl1" using s(2) Cons.prems(2) by (simp_all add: slab_next_def)
  then obtain rs sl' where "slab_run cs sl1 = Some (rs, sl')" "slab_ok sl'" "files_run (map fst cs) (slab_map sl1) rs (slab_map sl')"
    using Cons.IH by blast
  then show ?case using s by (auto simp: cn)
qed simp

lemma slab_new_ok: "slab_ok slab_new \<and> slab_map slab_new = Map.empty \<and> slots_left (2 ^ 26) slab_new"
proof -
  have dead: "\<not> alive_in shard_new x" for x by (simp add: alive_in_def shard_new_def)
  have "linked shard_new {}"
    by (auto simp: linked_def shard_new_def SLAB_SHARD_INIT_BUCKETS_def intro: exI [of _ "[]"])
  then have sh: "slab_shard_ok shard_new" using dead by (simp add: slab_shard_ok_def) (simp add: shard_new_def SLAB_SHARD_INIT_BUCKETS_def)
  have len: "length (sl_shards slab_new) = 64" by (simp add: slab_new_def SLAB_SHARDS_def)
  have each: "k < 64 \<Longrightarrow> sl_shards slab_new ! k = shard_new" for k by (simp add: slab_new_def SLAB_SHARDS_def)
  have none: "slab_get i slab_new = None" for i
    using id_parts_bound(1) [of i] dead by (simp add: slab_get_alive [OF len] each)
  then have "slab_map slab_new = Map.empty" by blast
  moreover have "sl_live slab_new = 0" by (simp add: slab_new_def)
  moreover have "slots_left (2 ^ 26) slab_new" by (simp add: slots_left_def slab_new_def shard_new_def)
  ultimately show ?thesis using len each sh none by (simp add: slab_ok_def dom_def)
qed

text \<open>The states that some run of fewer operations than a shard has slots can reach.\<close>

definition reached :: "(slab_op \<times> u32) list \<Rightarrow> slab_result list \<Rightarrow> file_slab \<Rightarrow> bool" where
  "reached cs rs sl \<longleftrightarrow> length cs \<le> 2 ^ 26 \<and> slab_run cs slab_new = Some (rs, sl)"

lemma reached_ok: "reached cs rs sl \<Longrightarrow> slab_ok sl"
  using run_ok [of slab_new cs] slab_new_ok by (force simp: reached_def slots_left_def)

lemma reached_exists: "length cs \<le> 2 ^ 26 \<Longrightarrow> \<exists>rs sl. reached cs rs sl"
  using run_ok [of slab_new cs] slab_new_ok by (force simp: reached_def slots_left_def)

lemma files_step_card:
  "files_step c m res m' \<Longrightarrow> finite (dom m) \<Longrightarrow> finite (dom m') \<and> card (dom m') \<le> Suc (card (dom m))"
  by (cases rule: files_step.cases) (auto simp: card_insert_if holds_def intro: card_Diff1_le [THEN le_SucI])

lemma files_run_card:
  "files_run cs m rs m' \<Longrightarrow> finite (dom m) \<Longrightarrow> card (dom m') \<le> length cs + card (dom m)"
proof (induction cs m rs m' rule: files_run.induct)
  case (1 c cs m res rs m')
  then obtain m1 where "files_step c m res m1" "files_run cs m1 rs m'" by auto
  then show ?case using 1 files_step_card [of c m res m1] by fastforce
qed auto

lemma reached_card: "reached cs rs sl \<Longrightarrow> card (dom (slab_map sl)) \<le> 2 ^ 26"
proof -
  assume r: "reached cs rs sl"
  have "slots_left (length cs) slab_new" using slab_new_ok r by (force simp: slots_left_def reached_def)
  then have "files_run (map fst cs) Map.empty rs (slab_map sl)"
    using run_ok [of slab_new cs] slab_new_ok r by (auto simp: reached_def)
  then show ?thesis using files_run_card [of "map fst cs" Map.empty rs "slab_map sl"] r by (simp add: reached_def)
qed

text \<open>C9: The slab is a refinement of a map from file ids to records. Any run of up to \<open>2 ^ 26\<close> operations on a new
  slab returns, panics in none of its chain walks, and gives the results and the final records of a run of the
  same operations on the map: a hash that is known keeps its id and record, a fresh one gets an unused id,
  a tombstone removes exactly one file, and a source is merged, refused for its size or dropped as specified.\<close>

theorem slab_refines_map:
  assumes "length cs \<le> 2 ^ 26"
  shows "\<exists>rs sl. slab_run cs slab_new = Some (rs, sl) \<and> files_run (map fst cs) Map.empty rs (slab_map sl)"
proof -
  have "slots_left (length cs) slab_new" using slab_new_ok assms by (force simp: slots_left_def)
  then show ?thesis using run_ok [of slab_new cs] slab_new_ok by auto
qed

lemma slab_refines_map_witness:
  "\<exists>rs sl. slab_run [(InsertSourceless [1, 2, 3, 4, 5, 6, 7, 8] 10 [97], 5), (TombstoneByHash [1, 2, 3, 4, 5, 6, 7, 8], 6)] slab_new = Some (rs, sl) \<and>
     files_run [InsertSourceless [1, 2, 3, 4, 5, 6, 7, 8] 10 [97], TombstoneByHash [1, 2, 3, 4, 5, 6, 7, 8]] Map.empty rs (slab_map sl)"
  using slab_refines_map [of "[(InsertSourceless [1, 2, 3, 4, 5, 6, 7, 8] 10 [97], 5), (TombstoneByHash [1, 2, 3, 4, 5, 6, 7, 8], 6)]"]
  by simp

text \<open>In every state a run of operations reaches, two live files never share a hash, an id found by
  hash is the id of the live file with that hash, and the counter of live files is their number.\<close>

theorem slab_index_exact:
  assumes "reached cs rs sl"
  shows "(id_of h sl = Some (Some i) \<longleftrightarrow> hash_of i sl = Some h) \<and> live_count sl = card {i. slab_get i sl \<noteq> None}"
proof -
  have ok: "slab_ok sl" by (rule reached_ok [OF assms])
  have "i \<in> dom (slab_map sl) \<longleftrightarrow> i \<in> {i. slab_get i sl \<noteq> None}" for i by auto
  then have "dom (slab_map sl) = {i. slab_get i sl \<noteq> None}" by blast
  moreover have "unat (of_nat (card (dom (slab_map sl))) :: u32) = card (dom (slab_map sl))"
    using reached_card [OF assms] by (intro unat_of_nat_u32) simp
  moreover have "sl_live sl = of_nat (card (dom (slab_map sl)))" using ok by (simp add: slab_ok_def)
  ultimately have live: "live_count sl = card {i. slab_get i sl \<noteq> None}" by (simp add: live_count_def)
  obtain r where r: "id_of h sl = Some r" "\<And>i. r = Some i \<longleftrightarrow> (\<exists>rec. slab_get i sl = Some rec \<and> fr_hash rec = h)"
    using id_of_ok [OF ok, of h] by blast
  then show ?thesis using live by (auto simp: hash_of_def)
qed

lemma slab_index_exact_witness:
  "\<exists>rs sl. reached [(InsertSourceless [1, 2, 3, 4, 5, 6, 7, 8] 10 [97], 5)] rs sl \<and>
     (id_of [1, 2, 3, 4, 5, 6, 7, 8] sl = Some (Some (FileId 0x04000000)) \<longleftrightarrow> hash_of (FileId 0x04000000) sl = Some [1, 2, 3, 4, 5, 6, 7, 8]) \<and>
     live_count sl = card {i. slab_get i sl \<noteq> None}"
proof -
  let ?cs = "[(InsertSourceless [1, 2, 3, 4, 5, 6, 7, 8] 10 [97], 5)]"
  obtain rs sl where "reached ?cs rs sl" using reached_exists [of ?cs] by auto
  then show ?thesis using slab_index_exact [of ?cs rs sl "[1, 2, 3, 4, 5, 6, 7, 8]" "FileId 0x04000000"] by blast
qed


section \<open>Ids in flight\<close>

text \<open>An id that named a file still does, or its slot waits in quarantine since some reading from \<open>t0\<close> on.\<close>

definition tracked :: "file_slab \<Rightarrow> file_id \<Rightarrow> file_hash \<Rightarrow> u32 \<Rightarrow> u32 \<Rightarrow> bool" where
  "tracked sl i h t0 now \<longleftrightarrow> hash_of i sl = Some h \<or> (\<exists>t. t0 \<le> t \<and> t \<le> now \<and> quarantined sl i t)"

lemma word_diff_mono: "t0 \<le> t \<Longrightarrow> t \<le> now \<Longrightarrow> now - t \<le> now - t0" for t0 t now :: u32
proof -
  assume t: "t0 \<le> t" "t \<le> now"
  then have "t0 \<le> now" by (rule order_trans)
  then show ?thesis using t by (simp add: word_le_nat_alt unat_sub)
qed

lemma tracked_step:
  assumes "tracked sl i h t0 cur" and "slab_next now sl sl'" and "t0 \<le> now" and "cur \<le> now" and "now - t0 < sl_quarantine sl"
  shows "tracked sl' i h t0 now"
proof (cases "hash_of i sl = Some h")
  case True
  then obtain r where "slab_get i sl = Some r" "fr_hash r = h" by (auto simp: hash_of_def)
  then have "quarantined sl' i now \<or> hash_of i sl' = Some h" using assms(2) by (auto simp: slab_next_def hash_of_def)
  then show ?thesis using assms(3) by (auto simp: tracked_def)
next
  case False
  then obtain t where t: "t0 \<le> t" "t \<le> cur" "quarantined sl i t" using assms(1) by (auto simp: tracked_def)
  then have "now - t < sl_quarantine sl" using word_diff_mono [of t0 t now] assms(4,5) by (meson order_le_less_trans order_trans)
  then have "quarantined sl' i t" using assms(2) t(3) unfolding slab_next_def by (meson not_le)
  then show ?thesis using t assms(4) by (auto simp: tracked_def intro: order_trans)
qed

lemma tracked_run:
  "slab_ok sl \<Longrightarrow> slots_left (length cs) sl \<Longrightarrow> tracked sl i h t0 cur \<Longrightarrow> slab_run cs sl = Some (rs, sl') \<Longrightarrow>
   sorted (cur # map snd cs) \<Longrightarrow> (\<And>t. t \<in> set (map snd cs) \<Longrightarrow> t0 \<le> t \<and> t - t0 < sl_quarantine sl) \<Longrightarrow>
   slab_ok sl' \<and> (\<exists>now. tracked sl' i h t0 now)"
proof (induction cs arbitrary: sl rs cur)
  case Nil
  then show ?case by auto
next
  case (Cons cn cs)
  obtain c now where cn: "cn = (c, now)" by force
  have "slots_left 1 sl" using Cons.prems(2) by (force simp: slots_left_def)
  then obtain res sl1 where s: "slab_step c now sl = Some (res, sl1)" "slab_next now sl sl1"
    using step_ok [OF Cons.prems(1), of c now] by blast
  obtain rs1 where run: "slab_run cs sl1 = Some (rs1, sl')" using Cons.prems(4) s(1) by (auto simp: cn)
  have q: "sl_quarantine sl1 = sl_quarantine sl" using s(2) by (simp add: slab_next_def)
  have t: "t0 \<le> now" "now - t0 < sl_quarantine sl" using Cons.prems(6) [of now] by (simp_all add: cn)
  have "tracked sl1 i h t0 now" by (rule tracked_step [OF Cons.prems(3) s(2) t(1) _ t(2)]) (use Cons.prems(5) in \<open>simp add: cn\<close>)
  then show ?case
    using Cons.IH [OF _ _ _ run, of now] s(2) Cons.prems(2,5,6) q by (simp add: slab_next_def cn)
qed

text \<open>C11: A search may resolve an id long after it read it. As long as the clock readings do not run backwards and
  less than the quarantine has passed since the id named a file, the id still names the file with that hash
  or no file at all, whatever publishes and evictions came in between; no slot is reused under it.\<close>

theorem stale_id_safe:
  assumes "slab_ok sl" and "slots_left (length cs) sl" and "hash_of i sl = Some h" and "slab_run cs sl = Some (rs, sl')"
    and "sorted (t0 # map snd cs)" and "\<forall>t\<in>set (map snd cs). t - t0 < sl_quarantine sl"
  shows "hash_of i sl' = Some h \<or> hash_of i sl' = None"
proof -
  have "tracked sl i h t0 t0" using assms(3) by (simp add: tracked_def)
  moreover have "t0 \<le> t \<and> t - t0 < sl_quarantine sl" if "t \<in> set (map snd cs)" for t using assms(5,6) that by auto
  ultimately obtain now where T: "slab_ok sl'" "tracked sl' i h t0 now"
    using tracked_run [OF assms(1,2) _ assms(4,5)] by blast
  have "\<not> quarantined sl' i t \<or> hash_of i sl' = None" for t
    using quarantined_dead [OF T(1), of i t] by (auto simp: hash_of_def)
  then show ?thesis using T(2) unfolding tracked_def by metis
qed

lemma stale_id_safe_witness:
  "\<exists>sl i rs sl'. hash_of i sl = Some [1, 2, 3, 4, 5, 6, 7, 8] \<and> slab_run [(TombstoneByHash [1, 2, 3, 4, 5, 6, 7, 8], 50)] sl = Some (rs, sl') \<and>
     (hash_of i sl' = Some [1, 2, 3, 4, 5, 6, 7, 8] \<or> hash_of i sl' = None)"
proof -
  let ?h = "[1, 2, 3, 4, 5, 6, 7, 8] :: file_hash" and ?del = "[(TombstoneByHash [1, 2, 3, 4, 5, 6, 7, 8], 50)]"
  obtain res sl where s: "slab_next 5 slab_new sl" "files_step (InsertSourceless ?h 10 [97]) (slab_map slab_new) res (slab_map sl)"
    using step_ok [of slab_new "InsertSourceless ?h 10 [97]" 5] slab_new_ok by (force simp: slots_left_def)
  have "\<exists>i. slab_map sl = [i \<mapsto> record_new ?h 10 [97] []]"
    using s(2) slab_new_ok by (cases rule: files_step.cases) (auto simp: holds_def)
  then obtain i where "slab_map sl i = Some (record_new ?h 10 [97] [])" by (metis fun_upd_same)
  then have h: "hash_of i sl = Some ?h" by (simp add: hash_of_def record_new_def)
  have ok: "slab_ok sl" "sl_quarantine sl = 60" using s(1) by (simp_all add: slab_next_def slab_new_def SLOT_QUARANTINE_SECS_def)
  have "slots_left 2 slab_new" using slab_new_ok by (force simp: slots_left_def)
  then have "slots_left 1 sl" using s(1) unfolding slab_next_def by (metis Suc_1)
  then have r: "slots_left (length ?del) sl" by simp
  obtain rs sl' where run: "slab_run ?del sl = Some (rs, sl')" using run_ok [OF ok(1) r] by blast
  have "hash_of i sl' = Some ?h \<or> hash_of i sl' = None"
    by (rule stale_id_safe [OF ok(1) r h run, of 5]) (simp_all add: ok(2))
  then show ?thesis using h run by blast
qed

text \<open>C31: In every state a run reaches, each lookup by hash ends: the chain it walks is finite and within the
  shard. It finds the one live record with that hash, or nothing when there is none, and a file that
  is not there has no media fields either.\<close>

theorem lookups_end:
  assumes "reached cs rs sl"
  shows "\<exists>r m. get_by_hash h sl = Some r \<and> media_of_hash h sl = Some m \<and>
    with_record_by_hash h f sl = Some (map_option (\<lambda>i. f i (the (slab_get i sl))) (the (id_of h sl))) \<and>
    (\<forall>q. r = Some q \<longleftrightarrow> fr_hash q = h \<and> q \<in> ran (slab_map sl)) \<and> (r = None \<longrightarrow> m = None)"
  using reached_ok [OF assms]
proof (cases rule: find_cases [of _ h])
  case unknown
  then show ?thesis
    by (auto simp: get_by_hash_def media_of_hash_def with_record_by_hash_def Let_def unknown_def holds_def ran_def)
next
  case (known i r idx)
  have ok: "slab_ok sl" by (rule reached_ok [OF assms])
  have "q = r" if "fr_hash q = h" "slab_get j sl = Some q" for j q
  proof -
    have "i = j" using that id_of_ok [OF ok, of h] known(1) by auto
    then show ?thesis using that(2) known(5) by simp
  qed
  moreover have "slab_get i sl = Some (sh_records (sl_shards sl ! unat (shard_of_hash h)) ! unat idx) \<and>
      alive_in (sl_shards sl ! unat (shard_of_hash h)) idx"
    using find_in_slab [OF ok, of h] known(2,3,5) slab_get_make_id [of sl "shard_of_hash h" idx] ok shard_of_hash_bound
    by (auto simp: slab_ok_def)
  ultimately show ?thesis using known
    by (auto simp: get_by_hash_def media_of_hash_def with_record_by_hash_def Let_def holds_def ran_def alive_in_def)
qed

lemma lookups_end_witness:
  "\<exists>rs sl r m. reached [(InsertSourceless [1, 2, 3, 4, 5, 6, 7, 8] 10 [97], 5)] rs sl \<and>
     get_by_hash [9, 9, 9, 9, 9, 9, 9, 9] sl = Some r \<and> media_of_hash [9, 9, 9, 9, 9, 9, 9, 9] sl = Some m"
proof -
  let ?cs = "[(InsertSourceless [1, 2, 3, 4, 5, 6, 7, 8] 10 [97], 5)]"
  obtain rs sl where "reached ?cs rs sl" using reached_exists [of ?cs] by auto
  then show ?thesis using lookups_end [of ?cs rs sl "[9, 9, 9, 9, 9, 9, 9, 9]" "\<lambda>_ _. ()"] by blast
qed

text \<open>The reading a publish compares with is taken before the shard lock, so a publish that waits for the lock
  behind an eviction can carry the older reading. The wrapping difference is then huge, and the slot is
  reused at once: the id of the evicted file names another file with no quarantine at all.\<close>

lemma stale_clock_reuses_slot:
  assumes "sh_free sh = (x, t) # rest" and "now < t" and "unat q + (unat t - unat now) \<le> 2 ^ 32"
  shows "fst (insert_record rec now q sh) = x"
proof -
  have "unat (now - t) = 2 ^ 32 - (unat t - unat now)"
    using assms(2) unsigned_less [of t] by (simp add: unat_sub_if_size word_less_nat_alt word_size)
  then have "q \<le> now - t" using assms(3) by (simp add: word_le_nat_alt)
  then show ?thesis using assms(1) by (simp add: insert_record_def)
qed

section \<open>Scans\<close>

text \<open>A shard walked in slices is the shard walked at once.\<close>

lemma live_slice_split: "a \<le> b \<Longrightarrow> b \<le> c \<Longrightarrow> live_slice s recs a b @ live_slice s recs b c = live_slice s recs a c"
proof -
  assume "a \<le> b" "b \<le> c"
  then have "[a..<c] = [a..<b] @ [b..<c]" by (metis le_Suc_ex upt_add_eq_append)
  then show ?thesis by (simp add: live_slice_def)
qed

lemma shard_scan_all: "0 < chunk \<Longrightarrow> concat (shard_scan chunk s recs start) = live_slice s recs start (length recs)"
proof (induction chunk s recs start rule: shard_scan.induct)
  case (1 chunk s recs start)
  show ?case
  proof (cases "length recs \<le> start")
    case True
    then show ?thesis by (subst shard_scan.simps) (simp add: live_slice_def)
  next
    case False
    then have "\<not> min (length recs) (start + chunk) \<le> start" using 1(2) by auto
    then show ?thesis using 1 False live_slice_split [of start "min (length recs) (start + chunk)" "length recs" s recs]
      by (subst shard_scan.simps) (simp add: Let_def)
  qed
qed

lemma concat_concat_map: "concat (concat (map f xs)) = concat (map (\<lambda>x. concat (f x)) xs)"
  by (induction xs) auto

lemma map_enumerate: "map f (enumerate 0 xs) = map (\<lambda>k. f (k, xs ! k)) [0..<length xs]"
  by (rule nth_equalityI) (simp_all add: nth_enumerate_eq)

lemma slab_scan_all:
  "0 < chunk \<Longrightarrow> concat (slab_scan chunk sl) =
     concat (map (\<lambda>k. live_slice (of_nat k) (sh_records (sl_shards sl ! k)) 0 (length (sh_records (sl_shards sl ! k))))
       [0..<length (sl_shards sl)])"
  by (simp add: slab_scan_def concat_concat_map shard_scan_all map_enumerate case_prod_unfold comp_def)

lemma live_slice_set:
  assumes "length (sl_shards sl) = 64" and "k < 64" and "slab_shard_ok (sl_shards sl ! k)"
  defines "recs \<equiv> sh_records (sl_shards sl ! k)"
  shows "(i, r) \<in> set (live_slice (of_nat k) recs 0 (length recs)) \<longleftrightarrow> id_shard i = k \<and> slab_get i sl = Some r"
proof -
  have "length recs \<le> 2 ^ 26" using assms(3) by (simp add: slab_shard_ok_def linked_def recs_def)
  moreover have "unat (of_nat k :: u32) = k" using assms(2) by (intro unat_of_nat_u32) simp
  ultimately have id: "id_shard (make_id (of_nat k) (of_nat j)) = k \<and> id_index (make_id (of_nat k) (of_nat j)) = j" if "j < length recs" for j
    using make_id_parts [of "of_nat k" "of_nat j"] that assms(2) by (simp add: unat_of_nat_u32)
  have "(i, r) \<in> set (live_slice (of_nat k) recs 0 (length recs)) \<longleftrightarrow>
      (\<exists>j<length recs. record_alive (recs ! j) \<and> i = make_id (of_nat k) (of_nat j) \<and> r = recs ! j)"
    by (auto simp: live_slice_def)
  also have "\<dots> \<longleftrightarrow> id_shard i = k \<and> slab_get i sl = Some r"
  proof
    assume "\<exists>j<length recs. record_alive (recs ! j) \<and> i = make_id (of_nat k) (of_nat j) \<and> r = recs ! j"
    then show "id_shard i = k \<and> slab_get i sl = Some r" using id assms(1,2) by (auto simp: slab_get_def Let_def recs_def)
  next
    assume i: "id_shard i = k \<and> slab_get i sl = Some r"
    then have "id_index i < length recs" "record_alive (recs ! id_index i)" "r = recs ! id_index i"
      by (auto simp: slab_get_def Let_def recs_def split: if_splits)
    then show "\<exists>j<length recs. record_alive (recs ! j) \<and> i = make_id (of_nat k) (of_nat j) \<and> r = recs ! j"
      using make_id_eta [of i] i by (intro exI [of _ "id_index i"]) auto
  qed
  finally show ?thesis .
qed

lemma distinct_concat_keyed:
  "distinct ks \<Longrightarrow> (\<And>k. k \<in> set ks \<Longrightarrow> distinct (f k)) \<Longrightarrow> (\<And>k x. k \<in> set ks \<Longrightarrow> x \<in> set (f k) \<Longrightarrow> g x = k) \<Longrightarrow>
   distinct (concat (map f ks))"
  by (induction ks) (auto, metis)

lemma live_slice_distinct:
  assumes "unat s < 64" and "length recs \<le> 2 ^ 26"
  shows "distinct (map fst (live_slice s recs 0 (length recs)))"
proof -
  have "inj_on (\<lambda>j. make_id s (of_nat j)) {j. j < length recs}"
  proof (rule inj_onI)
    fix j k
    assume jk: "j \<in> {j. j < length recs}" "k \<in> {j. j < length recs}" "make_id s (of_nat j) = make_id s (of_nat k)"
    have "id_index (make_id s (of_nat j)) = j" if "j < length recs" for j
      using make_id_parts(2) [OF assms(1), of "of_nat j"] that assms(2) by (simp add: unat_of_nat_u32)
    then show "j = k" using jk by (metis mem_Collect_eq)
  qed
  then show ?thesis by (auto simp: live_slice_def comp_def distinct_map intro: inj_on_subset)
qed

lemma slab_scan_exact:
  assumes ok: "slab_ok sl" and "0 < chunk"
  shows "distinct (map fst (concat (slab_scan chunk sl)))" "(i, r) \<in> set (concat (slab_scan chunk sl)) \<longleftrightarrow> slab_get i sl = Some r"
proof -
  let ?recs = "\<lambda>k. sh_records (sl_shards sl ! k)"
  let ?f = "\<lambda>k. live_slice (of_nat k) (?recs k) 0 (length (?recs k))"
  have len: "length (sl_shards sl) = 64" using ok by (simp add: slab_ok_def)
  have all: "concat (slab_scan chunk sl) = concat (map ?f [0..<64])" using slab_scan_all [OF assms(2)] len by simp
  have mem: "(j, q) \<in> set (?f k) \<longleftrightarrow> id_shard j = k \<and> slab_get j sl = Some q" if "k < 64" for j q k
    by (rule live_slice_set [OF len that slab_ok_shard [OF ok that]])
  show "(i, r) \<in> set (concat (slab_scan chunk sl)) \<longleftrightarrow> slab_get i sl = Some r"
    unfolding all using mem id_parts_bound(1) [of i] by auto
  have "distinct (concat (map (\<lambda>k. map fst (?f k)) [0..<64]))"
  proof (rule distinct_concat_keyed [where g = id_shard])
    show "distinct (map fst (?f k))" if "k \<in> set [0..<64]" for k
    proof (rule live_slice_distinct)
      have "k < 64" using that by simp
      then show "unat (of_nat k :: u32) < 64" by (simp add: unat_of_nat_u32)
      show "length (?recs k) \<le> 2 ^ 26" using slab_ok_shard [OF ok \<open>k < 64\<close>] by (simp add: slab_shard_ok_def linked_def)
    qed
    show "id_shard j = k" if "k \<in> set [0..<64]" "j \<in> set (map fst (?f k))" for k j using that mem [of k] by auto
  qed simp
  then show "distinct (map fst (concat (slab_scan chunk sl)))" unfolding all by (simp add: map_concat comp_def)
qed

text \<open>A walk over the live files takes each shard in slices and lets writers in between; on a slab nobody writes to
  it visits every live file exactly once, under the id that resolves to it, and the batches of copies that
  the content scan takes hold the same files in the same order.\<close>

theorem for_each_live_exact:
  assumes "slab_ok sl"
  shows "distinct (map fst (for_each_live sl)) \<and> ((i, r) \<in> set (for_each_live sl) \<longleftrightarrow> slab_get i sl = Some r) \<and>
    map fst (concat (for_each_live_copied sl)) = map fst (for_each_live sl)"
proof -
  have "concat (for_each_live_copied sl) =
      map (\<lambda>(i, r). (i, fr_hash r, fr_size r, record_name r, of_nat (length (fr_sources r)))) (concat (slab_scan (4 * 1024) sl))"
    by (simp add: for_each_live_copied_def map_concat)
  also have "concat (slab_scan (4 * 1024) sl) = for_each_live sl" by (simp add: for_each_live_def slab_scan_all)
  finally have "map fst (concat (for_each_live_copied sl)) = map fst (for_each_live sl)" by (simp add: comp_def case_prod_unfold)
  then show ?thesis using slab_scan_exact [OF assms, of "16 * 1024"] by (simp add: for_each_live_def)
qed

lemma for_each_live_exact_witness:
  "distinct (map fst (for_each_live slab_new)) \<and> ((FileId 7, record_new [] 0 [] []) \<in> set (for_each_live slab_new) \<longleftrightarrow> slab_get (FileId 7) slab_new = Some (record_new [] 0 [] [])) \<and>
    map fst (concat (for_each_live_copied slab_new)) = map fst (for_each_live slab_new)"
  using for_each_live_exact [of slab_new "FileId 7" "record_new [] 0 [] []"] slab_new_ok by blast

end
