(* ===== verification/Server_Files.thy ===== *)
theory Server_Files
  imports File_Spec Index_Compaction Search_Tree Rate_Limit
begin

text \<open>
  The tables of files in the server state (\<open>src/state/mod.rs\<close>, and the orphan sweep of
  \<open>src/main.rs\<close>): the file slab, the keyword index over the names of its records, the reverse
  index from a user to the files it is a source of, the alias table and the size reports. Each
  access to a table is atomic and the operations make them one after the other; the clock
  reading an access takes is an argument. \<open>None\<close> is a panic of a chain walk, as in the slab.
\<close>

section \<open>What the tables rely on of the index\<close>

text \<open>\<open>names\<close> gives the indexed name of an id; the postings are exactly its keys.\<close>

definition indexes :: "('x \<Rightarrow> 'k \<Rightarrow> 'i set) \<Rightarrow> ('n \<Rightarrow> 'k set) \<Rightarrow> ('i \<rightharpoonup> 'n) \<Rightarrow> 'x \<Rightarrow> bool" where
  "indexes post keys names ix \<longleftrightarrow> (\<forall>k i. i \<in> post ix k \<longleftrightarrow> (\<exists>n. names i = Some n \<and> k \<in> keys n))"

locale word_index =
  fixes add :: "'i \<Rightarrow> 'n \<Rightarrow> 'x \<Rightarrow> 'x" and remove :: "'i \<Rightarrow> 'n \<Rightarrow> 'x \<Rightarrow> 'x" and post :: "'x \<Rightarrow> 'k \<Rightarrow> 'i set"
    and keys :: "'n \<Rightarrow> 'k set" and valid :: "'i \<Rightarrow> bool" and invar :: "'x \<Rightarrow> bool"
  assumes post_add: "invar ix \<Longrightarrow> valid i \<Longrightarrow> post (add i n ix) k = (if k \<in> keys n then insert i (post ix k) else post ix k)"
    and post_remove: "invar ix \<Longrightarrow> valid i \<Longrightarrow> post (remove i n ix) k = (if k \<in> keys n then post ix k - {i} else post ix k)"
    and invar_add: "invar ix \<Longrightarrow> valid i \<Longrightarrow> invar (add i n ix)"
    and invar_remove: "invar ix \<Longrightarrow> valid i \<Longrightarrow> invar (remove i n ix)"
begin

lemma indexes_add:
  "invar ix \<Longrightarrow> valid i \<Longrightarrow> names i = None \<Longrightarrow> indexes post keys names ix \<Longrightarrow>
   indexes post keys (names(i \<mapsto> n)) (add i n ix)"
  by (auto simp: indexes_def post_add split: if_splits)

lemma indexes_remove:
  "invar ix \<Longrightarrow> valid i \<Longrightarrow> names i = Some n \<Longrightarrow> indexes post keys names ix \<Longrightarrow>
   indexes post keys (names(i := None)) (remove i n ix)"
  by (auto simp: indexes_def post_remove split: if_splits)

end

lemma subtokens_edit:
  "ki_subtokens (add_file u i n ix) = ki_subtokens ix" "ki_subtokens (remove_file u i n ix) = ki_subtokens ix"
proof -
  have "ki_subtokens (fold (\<lambda>t. add_token i (token_hash t)) ts ix) = ki_subtokens ix" for ts
    by (induction ts arbitrary: ix) (simp_all add: index_facts)
  then show "ki_subtokens (add_file u i n ix) = ki_subtokens ix" by (simp add: add_file_def)
  have "ki_subtokens (fold (\<lambda>t. remove_token i (token_hash t)) ts ix) = ki_subtokens ix" for ts
    by (induction ts arbitrary: ix) (simp_all add: index_facts)
  then show "ki_subtokens (remove_file u i n ix) = ki_subtokens ix" by (simp add: remove_file_def)
qed

interpretation kw: word_index "add_file u" "remove_file u" posting "name_keys u sub" valid_id
    "\<lambda>ix. index_ok ix \<and> ki_subtokens ix = sub" for u sub
  by unfold_locales (auto simp: add_file_posting remove_file_posting subtokens_edit)

section \<open>The tables\<close>

record alias_record =
  al_names :: "rstr list"
  al_seen :: u32
  al_size :: u64
  al_last_seen :: nat

record size_event =
  se_at :: u32
  se_kind :: string
  se_hash :: file_hash
  se_stored :: u64
  se_other :: u64
  se_ip :: ip_addr
  se_user :: "bytes option"
  se_software :: "rstr option"
  se_complete :: "bool option"

record server_files =
  sv_slab :: file_slab
  sv_index :: keyword_index
  sv_users :: "bytes \<rightharpoonup> file_id set"
  sv_aliases :: "file_hash \<rightharpoonup> alias_record"
  sv_stats :: "string \<rightharpoonup> u64"
  sv_mismatches :: "size_event list"

definition files_new :: "bool \<Rightarrow> server_files" where
  "files_new subtokens = \<lparr>sv_slab = slab_new, sv_index = ki_new subtokens, sv_users = Map.empty,
     sv_aliases = Map.empty, sv_stats = Map.empty, sv_mismatches = []\<rparr>"

definition source_new :: "bytes \<Rightarrow> ip_addr \<Rightarrow> u16 \<Rightarrow> bool \<Rightarrow> source" where
  "source_new user_hash ip port complete =
     \<lparr>so_user_hash = user_hash,
      so_ipv4 = (case ip of V4 a \<Rightarrow> of_nat (from_le (rev (to_le 4 (unat a)))) | V6 _ \<Rightarrow> 0),
      so_port = port, so_complete = complete\<rparr>"

definition source_ip :: "source \<Rightarrow> ip_addr" where
  "source_ip s = V4 (of_nat (from_le (rev (to_le 4 (unat (so_ipv4 s))))))"

text \<open>A counter of the \<open>block_stats\<close> table.\<close>

definition bump :: "string \<Rightarrow> server_files \<Rightarrow> server_files" where
  "bump key s = s\<lparr>sv_stats := (sv_stats s)(key \<mapsto> (case sv_stats s key of None \<Rightarrow> 0 | Some n \<Rightarrow> n) + 1)\<rparr>"

definition SIZE_MISMATCH_RECENT_MAX :: nat where "SIZE_MISMATCH_RECENT_MAX = 1000"
definition ALIAS_MAX_NAMES :: nat where "ALIAS_MAX_NAMES = 12"
definition ALIAS_MAX_FILES :: nat where "ALIAS_MAX_FILES = 20000"
definition ALIAS_MIN_SIZE :: u64 where "ALIAS_MIN_SIZE = 2 * 1024 * 1024"

text \<open>\<open>software\<close> looks the connected client of a user up.\<close>

definition note_size_mismatch ::
  "(bytes \<rightharpoonup> rstr) \<Rightarrow> string \<Rightarrow> file_hash \<Rightarrow> u64 \<Rightarrow> u64 \<Rightarrow> ip_addr \<Rightarrow> bytes option \<Rightarrow> bool option \<Rightarrow> u32 \<Rightarrow> server_files \<Rightarrow> server_files" where
  "note_size_mismatch software kind h stored other ip user complete now s =
     (let ev = \<lparr>se_at = now, se_kind = kind, se_hash = h, se_stored = stored, se_other = other, se_ip = ip,
                se_user = user, se_software = Option.bind user software, se_complete = complete\<rparr>;
          q = (if length (sv_mismatches s) \<ge> SIZE_MISMATCH_RECENT_MAX then tl (sv_mismatches s) else sv_mismatches s)
      in s\<lparr>sv_mismatches := q @ [ev]\<rparr>)"

text \<open>A sized source request: does the record hold another size?\<close>

definition size_mismatch ::
  "(bytes \<rightharpoonup> rstr) \<Rightarrow> file_hash \<Rightarrow> u64 option \<Rightarrow> bool \<Rightarrow> ip_addr \<Rightarrow> u32 \<Rightarrow> server_files \<Rightarrow> (bool \<times> server_files) option" where
  "size_mismatch software h sz udp requester now s =
     (case sz of
        None \<Rightarrow> Some (False, s)
      | Some wanted \<Rightarrow>
          if wanted = 0 then Some (False, s)
          else case with_record_by_hash h (\<lambda>_ r. fr_size r) (sv_slab s) of
            None \<Rightarrow> None
          | Some found \<Rightarrow>
              (let stored = (case found of Some n \<Rightarrow> n | None \<Rightarrow> 0);
                   differs = \<not> sizes_agree stored wanted;
                   s = (if \<not> differs \<and> stored \<noteq> 0 \<and> is_part_estimate (min stored wanted) (max stored wanted)
                        then bump ''getsources_size_part_estimate'' s else s)
               in if differs
                  then let key = (if udp then (if wanted > stored then ''getsources_size_mismatch_udp_larger'' else ''getsources_size_mismatch_udp_smaller'')
                                  else (if wanted > stored then ''getsources_size_mismatch_tcp_larger'' else ''getsources_size_mismatch_tcp_smaller''))
                       in Some (True, note_size_mismatch software (if udp then ''request_udp'' else ''request_tcp'') h stored wanted
                                        requester None None now (bump key s))
                  else Some (False, s)))"

text \<open>Do two names share a word of four or more characters?\<close>

definition long_words :: "unicode \<Rightarrow> rstr \<Rightarrow> rstr list" where
  "long_words u s = filter (\<lambda>w. length w \<ge> 4) (split_by (\<lambda>c. \<not> (u_alphabetic u c \<or> u_numeric u c)) s)"

definition share_word :: "unicode \<Rightarrow> rstr \<Rightarrow> rstr \<Rightarrow> bool" where
  "share_word u a b = list_ex (\<lambda>wa. list_ex (\<lambda>wb. eq_ignore_ascii_case wa wb) (long_words u b)) (long_words u a)"

definition note_alias :: "unicode \<Rightarrow> file_hash \<Rightarrow> u64 \<Rightarrow> rstr \<Rightarrow> rstr \<Rightarrow> nat \<Rightarrow> server_files \<Rightarrow> server_files" where
  "note_alias u h sz stored published_as now s =
     (if sz < ALIAS_MIN_SIZE then s
      else let known = (sv_aliases s h \<noteq> None)
           in if \<not> known \<and> share_word u stored published_as then s
              else if \<not> known \<and> card (dom (sv_aliases s)) \<ge> ALIAS_MAX_FILES then s
              else let e = (case sv_aliases s h of Some e \<Rightarrow> e
                            | None \<Rightarrow> \<lparr>al_names = [stored], al_seen = 0, al_size = sz, al_last_seen = now\<rparr>);
                       e = e\<lparr>al_seen := sat_add (al_seen e) 1, al_last_seen := now\<rparr>;
                       e = (if length (al_names e) < ALIAS_MAX_NAMES \<and> published_as \<notin> set (al_names e)
                            then e\<lparr>al_names := al_names e @ [published_as]\<rparr> else e)
                   in s\<lparr>sv_aliases := (sv_aliases s)(h \<mapsto> e)\<rparr>)"

section \<open>Publishing and leaving\<close>

definition add_user_file :: "bytes \<Rightarrow> file_id \<Rightarrow> server_files \<Rightarrow> server_files" where
  "add_user_file user i s =
     s\<lparr>sv_users := (sv_users s)(user \<mapsto> insert i (case sv_users s user of Some S \<Rightarrow> S | None \<Rightarrow> {}))\<rparr>"

definition add_file_with_source ::
  "unicode \<Rightarrow> (bytes \<rightharpoonup> rstr) \<Rightarrow> file_hash \<Rightarrow> u64 \<Rightarrow> rstr \<Rightarrow> bytes \<times> ip_addr \<times> u16 \<times> bool \<Rightarrow> nat \<Rightarrow> server_files \<Rightarrow> server_files option" where
  "add_file_with_source u software h sz name source now s =
     (case source of (user, ip, port, complete) \<Rightarrow>
        let src = source_new user ip port complete; secs = now_secs (now div 1000000000)
        in case get_or_insert h sz name src secs (sv_slab s) of
             None \<Rightarrow> None
           | Some ((i, newly_added), sl) \<Rightarrow>
               let s = s\<lparr>sv_slab := sl\<rparr>
               in if \<not> newly_added
                  then case add_or_refresh_source_sized h sz src name (sv_slab s) of
                         None \<Rightarrow> None
                       | Some (Merged (Some stored), sl) \<Rightarrow>
                           Some (add_user_file user i (note_alias u h sz stored name now (s\<lparr>sv_slab := sl\<rparr>)))
                       | Some (Merged None, sl) \<Rightarrow> Some (add_user_file user i (s\<lparr>sv_slab := sl\<rparr>))
                       | Some (SizeMismatch stored, sl) \<Rightarrow>
                           Some (note_size_mismatch software ''offer'' h stored sz ip (Some user) (Some complete) secs
                                   (bump ''offer_size_mismatch'' (s\<lparr>sv_slab := sl\<rparr>)))
                       | Some (Unknown, sl) \<Rightarrow> Some (s\<lparr>sv_slab := sl\<rparr>)
                  else Some (add_user_file user i (s\<lparr>sv_index := add_file u i name (sv_index s)\<rparr>)))"

text \<open>The loop of \<open>remove_sources_of\<close> over the ids its set yields; \<open>clock\<close> is the reading at each tombstone.\<close>

fun drop_sources ::
  "unicode \<Rightarrow> bytes \<Rightarrow> (file_id \<Rightarrow> u32) \<Rightarrow> file_id list \<Rightarrow> server_files \<Rightarrow> server_files option" where
  "drop_sources u user clock [] s = Some s"
| "drop_sources u user clock (i # is) s =
     (let (orphan, sl) = remove_user_source i user (sv_slab s); s = s\<lparr>sv_slab := sl\<rparr>
      in if orphan
         then case tombstone_if_sourceless i (clock i) (sv_slab s) of
                None \<Rightarrow> None
              | Some (Some name, sl) \<Rightarrow>
                  drop_sources u user clock is (s\<lparr>sv_slab := sl, sv_index := remove_file u i name (sv_index s)\<rparr>)
              | Some (None, sl) \<Rightarrow> drop_sources u user clock is (s\<lparr>sv_slab := sl\<rparr>)
         else drop_sources u user clock is s)"

text \<open>\<open>order\<close> is the order in which the set is iterated.\<close>

definition remove_sources_of ::
  "unicode \<Rightarrow> (file_id set \<Rightarrow> file_id list) \<Rightarrow> bytes \<Rightarrow> (file_id \<Rightarrow> u32) \<Rightarrow> server_files \<Rightarrow> server_files option" where
  "remove_sources_of u order user clock s =
     (case sv_users s user of
        None \<Rightarrow> Some s
      | Some S \<Rightarrow> drop_sources u user clock (order S) (s\<lparr>sv_users := (sv_users s)(user := None)\<rparr>))"

definition purge_ids_from_user_files :: "file_id list \<Rightarrow> server_files \<Rightarrow> server_files" where
  "purge_ids_from_user_files ids s =
     (if ids = [] then s
      else s\<lparr>sv_users := (\<lambda>user. case sv_users s user of
               None \<Rightarrow> None
             | Some S \<Rightarrow> if S - set ids = {} then None else Some (S - set ids))\<rparr>)"

fun purge_loop ::
  "unicode \<Rightarrow> (file_id \<Rightarrow> u32) \<Rightarrow> file_id list \<Rightarrow> nat \<Rightarrow> server_files \<Rightarrow> (nat \<times> server_files) option" where
  "purge_loop u clock [] n s = Some (n, s)"
| "purge_loop u clock (i # is) n s =
     (case tombstone_take_name i (clock i) (sv_slab s) of
        None \<Rightarrow> None
      | Some (Some name, sl) \<Rightarrow>
          purge_loop u clock is (n + 1) (s\<lparr>sv_slab := sl, sv_index := remove_file u i name (sv_index s)\<rparr>)
      | Some (None, sl) \<Rightarrow> purge_loop u clock is n (s\<lparr>sv_slab := sl\<rparr>))"

definition purge_files :: "unicode \<Rightarrow> (file_id \<Rightarrow> u32) \<Rightarrow> file_id list \<Rightarrow> server_files \<Rightarrow> (nat \<times> server_files) option" where
  "purge_files u clock ids s = map_option (apsnd (purge_ids_from_user_files ids)) (purge_loop u clock ids 0 s)"

text \<open>The eviction of the orphan sweep, with the ids it evicted, and the sweep.\<close>

fun evict_loop ::
  "unicode \<Rightarrow> (file_id \<Rightarrow> u32) \<Rightarrow> file_id list \<Rightarrow> file_id list \<Rightarrow> server_files \<Rightarrow> (file_id list \<times> server_files) option" where
  "evict_loop u clock [] evicted s = Some (evicted, s)"
| "evict_loop u clock (i # is) evicted s =
     (case tombstone_if_sourceless i (clock i) (sv_slab s) of
        None \<Rightarrow> None
      | Some (Some name, sl) \<Rightarrow>
          evict_loop u clock is (evicted @ [i]) (s\<lparr>sv_slab := sl, sv_index := remove_file u i name (sv_index s)\<rparr>)
      | Some (None, sl) \<Rightarrow> evict_loop u clock is evicted (s\<lparr>sv_slab := sl\<rparr>))"

definition orphans :: "server_files \<Rightarrow> file_id list" where
  "orphans s = map fst (filter (\<lambda>(i, r). fr_sources r = []) (for_each_live (sv_slab s)))"

definition orphan_evict :: "unicode \<Rightarrow> (file_id \<Rightarrow> u32) \<Rightarrow> server_files \<Rightarrow> server_files option" where
  "orphan_evict u clock s =
     map_option (\<lambda>(evicted, s). if evicted \<noteq> [] then purge_ids_from_user_files evicted s else s)
       (evict_loop u clock (orphans s) [] s)"

definition orphan_sweep :: "unicode \<Rightarrow> (file_id \<Rightarrow> u32) \<Rightarrow> server_files \<Rightarrow> server_files option" where
  "orphan_sweep u clock s = map_option (\<lambda>s. s\<lparr>sv_index := fst (compact (sv_index s))\<rparr>) (orphan_evict u clock s)"

definition file_count :: "server_files \<Rightarrow> nat" where
  "file_count s = live_count (sv_slab s)"

section \<open>Consistent tables\<close>

definition files_of :: "server_files \<Rightarrow> bytes \<Rightarrow> file_id set" where
  "files_of s user = (case sv_users s user of Some S \<Rightarrow> S | None \<Rightarrow> {})"

text \<open>The files a user is a source of, by the records.\<close>

definition user_sources :: "files \<Rightarrow> bytes \<Rightarrow> file_id set" where
  "user_sources m user = {i. \<exists>r. m i = Some r \<and> user \<in> so_user_hash ` set (fr_sources r)}"

definition names :: "files \<Rightarrow> file_id \<rightharpoonup> rstr" where
  "names m i = map_option record_name (m i)"

abbreviation slab_of :: "server_files \<Rightarrow> files" where
  "slab_of s \<equiv> slab_map (sv_slab s)"

text \<open>The slab is well formed with a slot to spare in every shard, and the index holds the names of its records.\<close>

definition index_matches :: "unicode \<Rightarrow> server_files \<Rightarrow> bool" where
  "index_matches u s \<longleftrightarrow> slab_ok (sv_slab s) \<and> slots_left 1 (sv_slab s) \<and> index_ok (sv_index s) \<and>
     indexes posting (name_keys u (ki_subtokens (sv_index s))) (names (slab_of s)) (sv_index s)"

definition tables_ok :: "unicode \<Rightarrow> server_files \<Rightarrow> bool" where
  "tables_ok u s \<longleftrightarrow> index_matches u s \<and> (\<forall>user. files_of s user = user_sources (slab_of s) user)"

lemma slab_id_valid:
  assumes "slab_ok sl" and "slots_left 1 sl" and "slab_get i sl = Some r"
  shows "valid_id i"
proof (rule ccontr)
  assume "\<not> valid_id i"
  then have "fid i = - 1" by (simp add: valid_id_def)
  then have ix: "id_index i = 2 ^ 26 - 1" and sh: "id_shard i < length (sl_shards sl)"
    using id_parts_bound(1) [of i] assms(1) by (simp_all add: id_index_def index_mask slab_ok_def mask_eq_exp_minus_1)
  have "id_index i < length (sh_records (shard_at sl i))" using assms(3) by (auto simp: slab_get_def Let_def split: if_splits)
  moreover have "length (sh_records (shard_at sl i)) + 1 \<le> 2 ^ 26" using assms(2) sh by (simp add: slots_left_def)
  ultimately show False using ix by simp
qed

lemma merge_source_users: "so_user_hash ` set (merge_source src ss) = insert (so_user_hash src) (so_user_hash ` set ss)"
  by (induction ss) auto

lemma names_upd: "names (m(i \<mapsto> r)) = (names m)(i \<mapsto> record_name r)" "names (m(i := None)) = (names m)(i := None)"
  by (auto simp: names_def fun_eq_iff)

lemma names_same: "m i = Some r \<Longrightarrow> fr_fname r' = fr_fname r \<Longrightarrow> names (m(i \<mapsto> r')) = names m"
  by (auto simp: names_def fun_eq_iff record_name_def)

lemma user_sources_put:
  "user_sources (m(i \<mapsto> r)) user = (if user \<in> so_user_hash ` set (fr_sources r) then insert i (user_sources m user) else user_sources m user - {i})"
  by (auto simp: user_sources_def split: if_splits)

lemma user_sources_del: "user_sources (m(i := None)) user = user_sources m user - {i}"
  by (auto simp: user_sources_def split: if_splits)

lemma holds_unique: "slab_ok sl \<Longrightarrow> holds (slab_map sl) h i r \<Longrightarrow> holds (slab_map sl) h j q \<Longrightarrow> i = j \<and> q = r"
proof -
  assume ok: "slab_ok sl" and ij: "holds (slab_map sl) h i r" "holds (slab_map sl) h j q"
  obtain x where "id_of h sl = Some x" "\<forall>i. x = Some i \<longleftrightarrow> (\<exists>rec. slab_get i sl = Some rec \<and> fr_hash rec = h)"
    using id_of_ok [OF ok, of h] by blast
  then have "x = Some i" "x = Some j" using ij by (auto simp: holds_def)
  then show ?thesis using ij by (simp add: holds_def)
qed

lemma sized_ok:
  assumes ok: "slab_ok sl" and h: "holds (slab_map sl) h i r"
  shows "(\<exists>sl'. add_or_refresh_source_sized h sz src n sl = Some (Merged (divergent_name r n), sl') \<and> slab_ok sl' \<and>
      slab_map sl' = (slab_map sl)(i \<mapsto> refresh src (r\<lparr>fr_size := merged_size (fr_size r) sz\<rparr>)) \<and>
      (\<forall>n. slots_left n sl \<longrightarrow> slots_left n sl')) \<or>
    add_or_refresh_source_sized h sz src n sl = Some (SizeMismatch (fr_size r), sl)"
  using ok
proof (cases rule: find_cases [of _ h])
  case unknown
  then show ?thesis using h by (simp add: unknown_def)
next
  case (known j q idx)
  then have ji: "j = i" "q = r" using holds_unique [OF ok h] by blast+
  show ?thesis
  proof (cases "\<not> sizes_agree (fr_size r) sz \<and> fr_sources r \<noteq> []")
    case True
    then show ?thesis using known(1,5) ji by (simp add: add_or_refresh_source_sized_def)
  next
    case False
    define r' where "r' = r\<lparr>fr_size := merged_size (fr_size r) sz\<rparr>"
    have "(if \<not> sizes_agree (fr_size r) sz then r\<lparr>fr_size := sz\<rparr> else if sz > fr_size r then r\<lparr>fr_size := sz\<rparr> else r) = r'"
      by (auto simp: r'_def merged_size_def max_def)
    then have "add_or_refresh_source_sized h sz src n sl =
        Some (Merged (divergent_name (refresh src r') n), put_record i (refresh src r') sl)"
      using known(1,5) ji False by (simp add: add_or_refresh_source_sized_def Let_def)
    moreover have "divergent_name (refresh src r') n = divergent_name r n" by (rule divergent_name_cong) (simp add: r'_def)
    ultimately show ?thesis
      using put_step [OF ok, of i r "refresh src r'" 0] known(5) ji by (simp add: r'_def slab_next_def)
  qed
qed

lemma table_fields [simp]:
  "sv_slab (note_alias u h sz st p now s) = sv_slab s" "sv_index (note_alias u h sz st p now s) = sv_index s"
  "sv_users (note_alias u h sz st p now s) = sv_users s"
  "sv_slab (note_size_mismatch sw k h st2 ot ip us c now2 s) = sv_slab s"
  "sv_index (note_size_mismatch sw k h st2 ot ip us c now2 s) = sv_index s"
  "sv_users (note_size_mismatch sw k h st2 ot ip us c now2 s) = sv_users s"
  "sv_slab (bump key s) = sv_slab s" "sv_index (bump key s) = sv_index s" "sv_users (bump key s) = sv_users s"
  by (simp_all add: note_alias_def note_size_mismatch_def bump_def Let_def)

lemma files_of_cong: "sv_users s = sv_users s' \<Longrightarrow> files_of s user = files_of s' user"
  by (simp add: files_of_def)

lemma files_of_add: "files_of (add_user_file user i s) v = (if v = user then insert i (files_of s v) else files_of s v)"
  by (auto simp: files_of_def add_user_file_def split: option.splits)

lemma add_user_file_fields [simp]:
  "sv_slab (add_user_file user i s) = sv_slab s" "sv_index (add_user_file user i s) = sv_index s"
  by (simp_all add: add_user_file_def)

lemma index_matches_cong: "sv_slab s = sv_slab s' \<Longrightarrow> sv_index s = sv_index s' \<Longrightarrow> index_matches u s = index_matches u s'"
  by (simp add: index_matches_def)

section \<open>Publishing keeps the tables consistent\<close>

lemma publish_fresh:
  assumes ok: "tables_ok u s" and room: "slots_left 2 (sv_slab s)" and new: "unknown (slab_of s) h"
    and so: "source = (user, ip, port, complete)"
  obtains i s' where "add_file_with_source u sw h sz name source now s = Some s'" "slab_of s i = None"
    "slab_of s' = (slab_of s)(i \<mapsto> record_new h sz name [source_new user ip port complete])" "tables_ok u s'"
    "ki_subtokens (sv_index s') = ki_subtokens (sv_index s)" "\<forall>n. slots_left (Suc n) (sv_slab s) \<longrightarrow> slots_left n (sv_slab s')"
    "sv_index s' = add_file u i name (sv_index s)" "valid_id i"
proof -
  let ?src = "source_new user ip port complete" and ?secs = "now_secs (now div 1000000000)"
  let ?rec = "record_new h sz name [?src]"
  have sok: "slab_ok (sv_slab s)" and iok: "index_ok (sv_index s)" using ok by (simp_all add: tables_ok_def index_matches_def)
  have r1: "slots_left 1 (sv_slab s)" using room slots_left_Suc [of 1] by (simp add: numeral_2_eq_2)
  have rec: "fr_hash ?rec = h" "record_alive ?rec" "record_name ?rec = name" "fr_sources ?rec = [?src]"
    by (simp_all add: record_new_def record_alive_def record_name_def)
  obtain i sl where I: "insert_if_new ?rec ?secs (sv_slab s) = Some ((i, True), sl)" "slab_get i (sv_slab s) = None"
    "slab_map sl = (slab_of s)(i \<mapsto> ?rec)" "slab_next ?secs (sv_slab s) sl"
    using insert_step [OF sok r1 rec(2), of ?secs, unfolded rec(1)] new by (auto simp: unknown_def)
  define s' where "s' = add_user_file user i (s\<lparr>sv_slab := sl, sv_index := add_file u i name (sv_index s)\<rparr>)"
  have res: "add_file_with_source u sw h sz name source now s = Some s'"
    using I(1) by (simp add: add_file_with_source_def so get_or_insert_def Let_def s'_def)
  have nx: "slab_ok sl" "\<forall>n. slots_left (Suc n) (sv_slab s) \<longrightarrow> slots_left n sl" using I(4) by (simp_all add: slab_next_def)
  have "slots_left 1 sl" using nx(2) room by (simp add: numeral_2_eq_2)
  moreover have vi: "valid_id i" by (rule slab_id_valid [OF nx(1) \<open>slots_left 1 sl\<close>]) (simp add: fun_cong [OF I(3)])
  moreover have "names (slab_of s) i = None" by (simp add: names_def I(2))
  ultimately have "index_matches u s'"
    using kw.indexes_add [of "sv_index s" "ki_subtokens (sv_index s)" i "names (slab_of s)" u name] ok iok nx(1)
    by (simp add: index_matches_def tables_ok_def s'_def I(3) names_upd rec(3) subtokens_edit add_file_posting)
  moreover have "files_of s' v = user_sources (slab_of s') v" for v
  proof -
    have "files_of s v = user_sources (slab_of s) v" using ok by (simp add: tables_ok_def)
    moreover have "i \<notin> user_sources (slab_of s) v" using I(2) by (simp add: user_sources_def)
    moreover have "files_of s' v = (if v = user then insert i (files_of s v) else files_of s v)"
      unfolding s'_def files_of_add by (simp add: files_of_def)
    ultimately show ?thesis by (cases "v = user") (simp_all add: s'_def I(3) user_sources_put rec(4), simp_all add: source_new_def)
  qed
  ultimately have "tables_ok u s'" by (simp add: tables_ok_def)
  then show ?thesis using that [OF res I(2)] I(3) nx(2) vi by (simp add: s'_def subtokens_edit add_user_file_def)
qed

lemma publish_known:
  assumes ok: "tables_ok u s" and h: "holds (slab_of s) h i r" and so: "source = (user, ip, port, complete)"
  obtains s' where "add_file_with_source u sw h sz name source now s = Some s'" "tables_ok u s'"
    "sv_index s' = sv_index s" "\<forall>n. slots_left n (sv_slab s) \<longrightarrow> slots_left n (sv_slab s')"
    "slab_of s' = slab_of s \<or>
     slab_of s' = (slab_of s)(i \<mapsto> refresh (source_new user ip port complete) (r\<lparr>fr_size := merged_size (fr_size r) sz\<rparr>))"
proof -
  let ?src = "source_new user ip port complete" and ?secs = "now_secs (now div 1000000000)"
  let ?rec = "record_new h sz name [?src]" and ?r = "refresh (source_new user ip port complete) (r\<lparr>fr_size := merged_size (fr_size r) sz\<rparr>)"
  have sok: "slab_ok (sv_slab s)" and r1: "slots_left 1 (sv_slab s)" using ok by (simp_all add: tables_ok_def index_matches_def)
  have rec: "fr_hash ?rec = h" "record_alive ?rec" by (simp_all add: record_new_def record_alive_def)
  obtain j q where I: "insert_if_new ?rec ?secs (sv_slab s) = Some ((j, False), sv_slab s)" "holds (slab_of s) h j q"
    using insert_step [OF sok r1 rec(2), of ?secs, unfolded rec(1)] h by (auto simp: unknown_def)
  have ji: "j = i" using holds_unique [OF sok h I(2)] by simp
  have get: "slab_get i (sv_slab s) = Some r" using h by (simp add: holds_def)
  consider (merged) sl where "add_or_refresh_source_sized h sz ?src name (sv_slab s) = Some (Merged (divergent_name r name), sl)"
      "slab_ok sl" "slab_map sl = (slab_of s)(i \<mapsto> ?r)" "\<forall>n. slots_left n (sv_slab s) \<longrightarrow> slots_left n sl"
    | (refused) "add_or_refresh_source_sized h sz ?src name (sv_slab s) = Some (SizeMismatch (fr_size r), sv_slab s)"
    using sized_ok [OF sok h, of sz ?src name] by blast
  then show ?thesis
  proof cases
    case merged
    define s1 where "s1 = (case divergent_name r name of Some stored \<Rightarrow> note_alias u h sz stored name now (s\<lparr>sv_slab := sl\<rparr>) | None \<Rightarrow> s\<lparr>sv_slab := sl\<rparr>)"
    have s1: "sv_slab s1 = sl" "sv_index s1 = sv_index s" "sv_users s1 = sv_users s" by (auto simp: s1_def split: option.splits)
    have res: "add_file_with_source u sw h sz name source now s = Some (add_user_file user i s1)"
      using I(1) merged(1) ji by (auto simp: add_file_with_source_def so get_or_insert_def Let_def s1_def split: option.splits)
    have "names (slab_map sl) = names (slab_of s)" unfolding merged(3) using get by (intro names_same) simp_all
    then have im: "index_matches u (add_user_file user i s1)"
      using ok merged(2,4) by (simp add: tables_ok_def index_matches_def s1)
    have "files_of (add_user_file user i s1) v = user_sources (slab_map sl) v" for v
    proof -
      have "files_of s v = user_sources (slab_of s) v" using ok by (simp add: tables_ok_def)
      moreover have "files_of s1 v = files_of s v" by (rule files_of_cong) (fact s1(3))
      moreover have "i \<in> user_sources (slab_of s) v \<longleftrightarrow> v \<in> so_user_hash ` set (fr_sources r)" using get by (simp add: user_sources_def)
      ultimately show ?thesis
        by (auto simp: files_of_add merged(3) user_sources_put merge_source_users) (auto simp: source_new_def)
    qed
    then have "tables_ok u (add_user_file user i s1)" using im by (simp add: tables_ok_def s1)
    then show ?thesis using that [OF res] merged(3,4) by (simp add: s1)
  next
    case refused
    define s1 where "s1 = note_size_mismatch sw ''offer'' h (fr_size r) sz ip (Some user) (Some complete) ?secs (bump ''offer_size_mismatch'' s)"
    have res: "add_file_with_source u sw h sz name source now s = Some s1"
      using I(1) refused ji by (simp add: add_file_with_source_def so get_or_insert_def Let_def s1_def)
    have "tables_ok u s1" using ok files_of_cong [of s1 s] index_matches_cong [of s1 s u] by (simp add: tables_ok_def s1_def)
    then show ?thesis using that [OF res] by (simp add: s1_def)
  qed
qed

section \<open>Leaving and purging keep the tables consistent\<close>

text \<open>A tombstone with the removal of the keywords that must follow it.\<close>

lemma tombstone_index:
  assumes im: "index_matches u s"
  obtains n sl where "tombstone_where c i now (sv_slab s) = Some (n, sl)"
    "n \<noteq> None \<longleftrightarrow> (\<exists>r. slab_of s i = Some r \<and> c r)"
    "slab_map sl = (if n = None then slab_of s else (slab_of s)(i := None))"
    "\<forall>k. slots_left k (sv_slab s) \<longrightarrow> slots_left k sl"
    "index_matches u (case n of Some name \<Rightarrow> s\<lparr>sv_slab := sl, sv_index := remove_file u i name (sv_index s)\<rparr> | None \<Rightarrow> s\<lparr>sv_slab := sl\<rparr>)"
proof -
  have sok: "slab_ok (sv_slab s)" and r1: "slots_left 1 (sv_slab s)" and iok: "index_ok (sv_index s)" using im by (simp_all add: index_matches_def)
  obtain n sl where T: "tombstone_where c i now (sv_slab s) = Some (n, sl)" "slab_next now (sv_slab s) sl"
    "\<forall>n. slots_left n (sv_slab s) \<longrightarrow> slots_left n sl"
    "case slab_get i (sv_slab s) of
       Some r \<Rightarrow> if c r then n = fr_fname r \<and> slab_map sl = (slab_of s)(i := None) else n = None \<and> sl = sv_slab s
     | None \<Rightarrow> n = None \<and> sl = sv_slab s"
    using tombstone_step [OF sok, of c i now] by blast
  show ?thesis
  proof (cases "\<exists>r. slab_get i (sv_slab s) = Some r \<and> c r")
    case True
    then obtain r where r: "slab_get i (sv_slab s) = Some r" "c r" by blast
    obtain name where nm: "fr_fname r = Some name" using slab_get_named [OF r(1)] by blast
    have n: "n = Some name" "slab_map sl = (slab_of s)(i := None)" using T(4) r nm by simp_all
    have v: "valid_id i" by (rule slab_id_valid [OF sok r1 r(1)])
    have "names (slab_of s) i = Some name" using r nm by (simp add: names_def record_name_def)
    then have "index_matches u (s\<lparr>sv_slab := sl, sv_index := remove_file u i name (sv_index s)\<rparr>)"
      using kw.indexes_remove [of "sv_index s" "ki_subtokens (sv_index s)" i "names (slab_of s)" name u] im v iok T(2,3)
      by (simp add: index_matches_def slab_next_def n names_upd subtokens_edit remove_file_posting)
    then show ?thesis using that [OF T(1)] T(3) n True by auto
  next
    case False
    then have "n = None" "sl = sv_slab s" using T(4) by (auto split: option.splits)
    then show ?thesis using that [OF T(1)] False im by auto
  qed
qed

text \<open>What leaving makes of a file of the user.\<close>

definition left_by :: "bytes \<Rightarrow> file_record option \<Rightarrow> file_record option" where
  "left_by user x = (case x of None \<Rightarrow> None
     | Some r \<Rightarrow> if fr_sources (forget_user user r) = [] then None else Some (forget_user user r))"

lemma left_by_twice [simp]: "left_by user (left_by user x) = left_by user x"
  by (simp add: left_by_def split: option.split)

lemma drop_sources_ok:
  "index_matches u s \<Longrightarrow> user_sources (slab_of s) user \<subseteq> set is \<Longrightarrow>
   \<exists>s'. drop_sources u user clock is s = Some s' \<and> index_matches u s' \<and> user_sources (slab_of s') user = {} \<and>
     (\<forall>v. v \<noteq> user \<longrightarrow> user_sources (slab_of s') v = user_sources (slab_of s) v) \<and> sv_users s' = sv_users s \<and>
     (\<forall>j. slab_of s' j = (if j \<in> set is then left_by user (slab_of s j) else slab_of s j)) \<and>
     (\<forall>n. slots_left n (sv_slab s) \<longrightarrow> slots_left n (sv_slab s')) \<and> ki_subtokens (sv_index s') = ki_subtokens (sv_index s)"
proof (induction "is" arbitrary: s)
  case Nil
  then show ?case by auto
next
  case (Cons i "is")
  have sok: "slab_ok (sv_slab s)" using Cons.prems(1) by (simp add: index_matches_def)
  show ?case
  proof (cases "slab_get i (sv_slab s)")
    case None
    then have "i \<notin> user_sources (slab_of s) user" by (simp add: user_sources_def)
    then have "user_sources (slab_of s) user \<subseteq> set is" using Cons.prems(2) by auto
    moreover have "(if j \<in> set (i # is) then left_by user (slab_of s j) else slab_of s j) =
        (if j \<in> set is then left_by user (slab_of s j) else slab_of s j)" for j
      using None by (simp add: left_by_def)
    ultimately show ?thesis using Cons.IH [OF Cons.prems(1)] None by (simp add: remove_user_source_def)
  next
    case (Some r)
    define r' where "r' = forget_user user r"
    define s1 where "s1 = s\<lparr>sv_slab := put_record i r' (sv_slab s)\<rparr>"
    have P: "slab_ok (sv_slab s1)" "slab_of s1 = (slab_of s)(i \<mapsto> r')" "\<forall>n. slots_left n (sv_slab s) \<longrightarrow> slots_left n (sv_slab s1)"
      using put_step [OF sok Some, of r' 0] by (simp_all add: r'_def s1_def slab_next_def)
    have rem: "remove_user_source i user (sv_slab s) = (fr_sources r' = [], sv_slab s1)"
      using Some by (simp add: remove_user_source_def Let_def r'_def s1_def)
    have "names (slab_of s1) = names (slab_of s)" unfolding P(2) using Some by (intro names_same) (simp_all add: r'_def)
    then have im1: "index_matches u s1" using Cons.prems(1) P(1,3) by (simp add: index_matches_def) (simp add: s1_def)
    have src: "user_sources (slab_of s1) v = (if v = user then user_sources (slab_of s) v - {i} else user_sources (slab_of s) v)" for v
      unfolding P(2) user_sources_put using Some by (auto simp: r'_def user_sources_def)
    have sub: "user_sources (slab_of s1) user \<subseteq> set is" using src [of user] Cons.prems(2) by auto
    show ?thesis
    proof (cases "fr_sources r' = []")
      case False
      then have "drop_sources u user clock (i # is) s = drop_sources u user clock is s1" by (simp add: rem) (simp add: s1_def)
      moreover obtain s' where S: "drop_sources u user clock is s1 = Some s'" "index_matches u s'" "user_sources (slab_of s') user = {}"
        "\<And>v. v \<noteq> user \<Longrightarrow> user_sources (slab_of s') v = user_sources (slab_of s1) v" "sv_users s' = sv_users s1"
        "\<And>j. slab_of s' j = (if j \<in> set is then left_by user (slab_of s1 j) else slab_of s1 j)"
        "\<And>n. slots_left n (sv_slab s1) \<Longrightarrow> slots_left n (sv_slab s')" "ki_subtokens (sv_index s') = ki_subtokens (sv_index s1)"
        using Cons.IH [OF im1 sub] by blast
      moreover have "sv_users s1 = sv_users s" "sv_index s1 = sv_index s" by (simp_all add: s1_def)
      moreover have "slab_of s1 j = (if j = i then left_by user (slab_of s j) else slab_of s j)" for j
        using Some False fun_cong [OF P(2), of j] by (simp add: left_by_def r'_def)
      ultimately show ?thesis using src P(3) by (intro exI [of _ s']) simp
    next
      case True
      obtain n sl where T: "tombstone_if_sourceless i (clock i) (sv_slab s1) = Some (n, sl)"
        "n \<noteq> None \<longleftrightarrow> (\<exists>r. slab_of s1 i = Some r \<and> fr_sources r = [])"
        "slab_map sl = (if n = None then slab_of s1 else (slab_of s1)(i := None))"
        "\<forall>k. slots_left k (sv_slab s1) \<longrightarrow> slots_left k sl"
        "index_matches u (case n of Some name \<Rightarrow> s1\<lparr>sv_slab := sl, sv_index := remove_file u i name (sv_index s1)\<rparr> | None \<Rightarrow> s1\<lparr>sv_slab := sl\<rparr>)"
        unfolding tombstone_if_sourceless_def by (rule tombstone_index [OF im1])
      obtain name where n: "n = Some name" using T(2) True fun_cong [OF P(2), of i] by auto
      define s2 where "s2 = s1\<lparr>sv_slab := sl, sv_index := remove_file u i name (sv_index s1)\<rparr>"
      have im2: "index_matches u s2" using T(5) n by (simp add: s2_def)
      have src2: "user_sources (slab_of s2) v = user_sources (slab_of s1) v" for v
      proof -
        have "i \<notin> user_sources (slab_of s1) v" using P(2) True by (simp add: user_sources_def)
        then show ?thesis using T(3) n by (simp add: s2_def user_sources_del)
      qed
      have "drop_sources u user clock (i # is) s = drop_sources u user clock is s2"
        using True T(1) n by (simp add: rem) (simp add: s1_def s2_def)
      moreover obtain s' where S: "drop_sources u user clock is s2 = Some s'" "index_matches u s'" "user_sources (slab_of s') user = {}"
        "\<And>v. v \<noteq> user \<Longrightarrow> user_sources (slab_of s') v = user_sources (slab_of s2) v" "sv_users s' = sv_users s2"
        "\<And>j. slab_of s' j = (if j \<in> set is then left_by user (slab_of s2 j) else slab_of s2 j)"
        "\<And>n. slots_left n (sv_slab s2) \<Longrightarrow> slots_left n (sv_slab s')" "ki_subtokens (sv_index s') = ki_subtokens (sv_index s2)"
        using Cons.IH [OF im2] sub src2 by blast
      moreover have "sv_users s2 = sv_users s" "ki_subtokens (sv_index s2) = ki_subtokens (sv_index s)" "sv_slab s2 = sl"
        by (simp_all add: s2_def s1_def subtokens_edit)
      moreover have "slab_of s2 j = (if j = i then left_by user (slab_of s j) else slab_of s j)" for j
        using Some True n fun_cong [OF P(2), of j] fun_cong [OF T(3), of j] by (simp add: left_by_def r'_def s2_def)
      ultimately show ?thesis using src src2 P(3) T(4) by (intro exI [of _ s']) simp
    qed
  qed
qed

lemma remove_sources_ok:
  assumes ok: "tables_ok u s" and order: "\<forall>S. finite S \<longrightarrow> set (order S) = S"
  shows "\<exists>s'. remove_sources_of u order user clock s = Some s' \<and> tables_ok u s' \<and>
    user_sources (slab_of s') user = {} \<and> (\<forall>v. v \<noteq> user \<longrightarrow> user_sources (slab_of s') v = user_sources (slab_of s) v) \<and>
    (\<forall>j. slab_of s' j = (if j \<in> files_of s user then left_by user (slab_of s j) else slab_of s j)) \<and>
    (\<forall>n. slots_left n (sv_slab s) \<longrightarrow> slots_left n (sv_slab s')) \<and> ki_subtokens (sv_index s') = ki_subtokens (sv_index s)"
proof (cases "sv_users s user")
  case None
  then have "files_of s user = {}" by (simp add: files_of_def)
  then have "user_sources (slab_of s) user = {}" using ok by (simp add: tables_ok_def)
  then show ?thesis using ok None \<open>files_of s user = {}\<close> by (simp add: remove_sources_of_def)
next
  case (Some S)
  define s1 where "s1 = s\<lparr>sv_users := (sv_users s)(user := None)\<rparr>"
  have files: "files_of s v = user_sources (slab_of s) v" for v using ok by (simp add: tables_ok_def)
  have "S = user_sources (slab_of s) user" using files [of user] Some by (simp add: files_of_def)
  moreover have "user_sources (slab_of s) user \<subseteq> dom (slab_of s)" by (auto simp: user_sources_def)
  then have "finite (user_sources (slab_of s) user)" using finite_ids [of "sv_slab s"] by (rule finite_subset)
  ultimately have setS: "set (order S) = files_of s user" using order files [of user] by simp
  then have sub: "user_sources (slab_of s1) user \<subseteq> set (order S)" using files [of user] by (simp add: s1_def)
  have im: "index_matches u s1" using ok index_matches_cong [of s1 s u] by (simp add: tables_ok_def s1_def)
  obtain s' where S: "drop_sources u user clock (order S) s1 = Some s'" "index_matches u s'" "user_sources (slab_of s') user = {}"
      "\<And>v. v \<noteq> user \<Longrightarrow> user_sources (slab_of s') v = user_sources (slab_of s1) v" "sv_users s' = sv_users s1"
      "\<And>j. slab_of s' j = (if j \<in> set (order S) then left_by user (slab_of s1 j) else slab_of s1 j)"
      "\<And>n. slots_left n (sv_slab s1) \<Longrightarrow> slots_left n (sv_slab s')" "ki_subtokens (sv_index s') = ki_subtokens (sv_index s1)"
    using drop_sources_ok [OF im sub] by blast
  have "files_of s' v = user_sources (slab_of s') v" for v
    using S(3) S(4) [of v] S(5) files [of v] by (cases "v = user") (simp_all add: files_of_def s1_def)
  then have "tables_ok u s'" using S(2) by (simp add: tables_ok_def)
  then show ?thesis using S Some setS by (simp add: remove_sources_of_def s1_def)
qed

lemma files_of_purge: "files_of (purge_ids_from_user_files ids s) v = files_of s v - set ids"
  by (auto simp: files_of_def purge_ids_from_user_files_def split: option.splits)

lemma purge_fields [simp]:
  "sv_slab (purge_ids_from_user_files ids s) = sv_slab s" "sv_index (purge_ids_from_user_files ids s) = sv_index s"
  by (simp_all add: purge_ids_from_user_files_def)

lemma purge_loop_ok:
  "index_matches u s \<Longrightarrow> \<exists>n' s'. purge_loop u clock is n s = Some (n', s') \<and> index_matches u s' \<and> sv_users s' = sv_users s \<and>
     slab_of s' = (slab_of s) |` (- set is) \<and>
     (\<forall>n. slots_left n (sv_slab s) \<longrightarrow> slots_left n (sv_slab s')) \<and> ki_subtokens (sv_index s') = ki_subtokens (sv_index s)"
proof (induction "is" arbitrary: n s)
  case Nil
  then show ?case by simp
next
  case (Cons i "is")
  obtain nm sl where T: "tombstone_where (\<lambda>_. True) i (clock i) (sv_slab s) = Some (nm, sl)"
    "nm \<noteq> None \<longleftrightarrow> (\<exists>r. slab_of s i = Some r \<and> True)"
    "slab_map sl = (if nm = None then slab_of s else (slab_of s)(i := None))"
    "\<forall>k. slots_left k (sv_slab s) \<longrightarrow> slots_left k sl"
    "index_matches u (case nm of Some name \<Rightarrow> s\<lparr>sv_slab := sl, sv_index := remove_file u i name (sv_index s)\<rparr> | None \<Rightarrow> s\<lparr>sv_slab := sl\<rparr>)"
    by (rule tombstone_index [OF Cons.prems])
  define s1 where "s1 = (case nm of Some name \<Rightarrow> s\<lparr>sv_slab := sl, sv_index := remove_file u i name (sv_index s)\<rparr> | None \<Rightarrow> s\<lparr>sv_slab := sl\<rparr>)"
  have f: "sv_slab s1 = sl" "sv_users s1 = sv_users s" "ki_subtokens (sv_index s1) = ki_subtokens (sv_index s)"
    by (simp_all add: s1_def subtokens_edit split: option.split)
  have map: "slab_of s1 = (slab_of s)(i := None)" using T(2,3) f(1) by (auto simp: fun_eq_iff)
  obtain n' s' where S: "purge_loop u clock is (if nm = None then n else n + 1) s1 = Some (n', s')" "index_matches u s'" "sv_users s' = sv_users s1"
     "slab_of s' = (slab_of s1) |` (- set is)" "\<forall>n. slots_left n (sv_slab s1) \<longrightarrow> slots_left n (sv_slab s')" "ki_subtokens (sv_index s') = ki_subtokens (sv_index s1)"
    using Cons.IH [of s1 "if nm = None then n else n + 1"] T(5) by (auto simp: s1_def)
  have "purge_loop u clock (i # is) n s = Some (n', s')"
    using T(1) S(1) by (cases nm) (simp_all add: tombstone_take_name_def s1_def)
  moreover have "slab_of s' = (slab_of s) |` (- set (i # is))" unfolding S(4) map by (auto simp: restrict_map_def fun_eq_iff)
  ultimately show ?case using S f T(4) by simp
qed

lemma user_sources_restrict: "user_sources (m |` (- A)) v = user_sources m v - A"
  by (auto simp: user_sources_def restrict_map_def)

lemma purge_ok:
  assumes ok: "tables_ok u s"
  shows "\<exists>n s'. purge_files u clock ids s = Some (n, s') \<and> tables_ok u s' \<and> slab_of s' = (slab_of s) |` (- set ids) \<and>
    (\<forall>n. slots_left n (sv_slab s) \<longrightarrow> slots_left n (sv_slab s')) \<and> ki_subtokens (sv_index s') = ki_subtokens (sv_index s)"
proof -
  have im: "index_matches u s" using ok by (simp add: tables_ok_def)
  obtain n s1 where S: "purge_loop u clock ids 0 s = Some (n, s1)" "index_matches u s1" "sv_users s1 = sv_users s"
     "slab_of s1 = (slab_of s) |` (- set ids)" "\<forall>n. slots_left n (sv_slab s) \<longrightarrow> slots_left n (sv_slab s1)" "ki_subtokens (sv_index s1) = ki_subtokens (sv_index s)"
    using purge_loop_ok [OF im, of clock ids 0] by blast
  define s' where "s' = purge_ids_from_user_files ids s1"
  have "files_of s' v = user_sources (slab_of s') v" for v
  proof -
    have "files_of s1 v = files_of s v" by (rule files_of_cong) (fact S(3))
    then show ?thesis using ok by (simp add: s'_def files_of_purge S(4) user_sources_restrict tables_ok_def)
  qed
  then have "tables_ok u s'" using S(2) index_matches_cong [of s' s1 u] by (simp add: tables_ok_def s'_def)
  then show ?thesis using S by (intro exI [of _ n] exI [of _ s']) (simp add: purge_files_def s'_def)
qed

definition sourceless :: "files \<Rightarrow> file_id set" where
  "sourceless m = {i. \<exists>r. m i = Some r \<and> fr_sources r = []}"

lemma evict_loop_ok:
  "index_matches u s \<Longrightarrow> \<exists>ev s'. evict_loop u clock is acc s = Some (acc @ ev, s') \<and> index_matches u s' \<and> sv_users s' = sv_users s \<and>
     set ev = set is \<inter> sourceless (slab_of s) \<and> slab_of s' = (slab_of s) |` (- set ev) \<and>
     (\<forall>n. slots_left n (sv_slab s) \<longrightarrow> slots_left n (sv_slab s')) \<and> ki_subtokens (sv_index s') = ki_subtokens (sv_index s)"
proof (induction "is" arbitrary: acc s)
  case Nil
  then show ?case by (simp add: restrict_map_def)
next
  case (Cons i "is")
  obtain nm sl where T: "tombstone_where (\<lambda>r. fr_sources r = []) i (clock i) (sv_slab s) = Some (nm, sl)"
    "nm \<noteq> None \<longleftrightarrow> (\<exists>r. slab_of s i = Some r \<and> fr_sources r = [])"
    "slab_map sl = (if nm = None then slab_of s else (slab_of s)(i := None))"
    "\<forall>k. slots_left k (sv_slab s) \<longrightarrow> slots_left k sl"
    "index_matches u (case nm of Some name \<Rightarrow> s\<lparr>sv_slab := sl, sv_index := remove_file u i name (sv_index s)\<rparr> | None \<Rightarrow> s\<lparr>sv_slab := sl\<rparr>)"
    by (rule tombstone_index [OF Cons.prems])
  define s1 where "s1 = (case nm of Some name \<Rightarrow> s\<lparr>sv_slab := sl, sv_index := remove_file u i name (sv_index s)\<rparr> | None \<Rightarrow> s\<lparr>sv_slab := sl\<rparr>)"
  define here where "here = (if nm = None then [] else [i])"
  have f: "sv_slab s1 = sl" "sv_users s1 = sv_users s" "ki_subtokens (sv_index s1) = ki_subtokens (sv_index s)"
    by (simp_all add: s1_def subtokens_edit split: option.split)
  have h: "set here = {i} \<inter> sourceless (slab_of s)" using T(2) by (auto simp: here_def sourceless_def)
  have map: "slab_of s1 = (slab_of s) |` (- set here)" using T(3) f(1) by (auto simp: here_def restrict_map_def fun_eq_iff)
  then have rest: "sourceless (slab_of s1) = sourceless (slab_of s) - set here" by (auto simp: sourceless_def restrict_map_def)
  obtain ev s' where S: "evict_loop u clock is (acc @ here) s1 = Some ((acc @ here) @ ev, s')" "index_matches u s'" "sv_users s' = sv_users s1"
     "set ev = set is \<inter> sourceless (slab_of s1)" "slab_of s' = (slab_of s1) |` (- set ev)"
     "\<forall>n. slots_left n (sv_slab s1) \<longrightarrow> slots_left n (sv_slab s')" "ki_subtokens (sv_index s') = ki_subtokens (sv_index s1)"
    using Cons.IH [of s1 "acc @ here"] T(5) by (auto simp: s1_def)
  have "evict_loop u clock (i # is) acc s = Some (acc @ (here @ ev), s')"
    using T(1) S(1) by (cases nm) (simp_all add: tombstone_if_sourceless_def s1_def here_def)
  moreover have "set (here @ ev) = set (i # is) \<inter> sourceless (slab_of s)" using h S(4) rest by auto
  moreover have "slab_of s' = (slab_of s) |` (- set (here @ ev))" unfolding S(5) map by (auto simp: restrict_map_def fun_eq_iff)
  ultimately show ?case using S(2,3,6,7) f T(4) by (intro exI [of _ "here @ ev"] exI [of _ s']) simp
qed

lemma orphans_sourceless:
  assumes "slab_ok (sv_slab s)"
  shows "set (orphans s) = sourceless (slab_of s)"
proof (rule set_eqI)
  have live: "(i, r) \<in> set (for_each_live (sv_slab s)) \<longleftrightarrow> slab_get i (sv_slab s) = Some r" for i r
    using slab_scan_exact(2) [OF assms, of "16 * 1024"] by (simp add: for_each_live_def)
  show "i \<in> set (orphans s) \<longleftrightarrow> i \<in> sourceless (slab_of s)" for i
    using live [of i] by (force simp: orphans_def sourceless_def)
qed

lemma evict_ok:
  assumes ok: "tables_ok u s"
  shows "\<exists>s'. orphan_evict u clock s = Some s' \<and> tables_ok u s' \<and> slab_of s' = (slab_of s) |` (- sourceless (slab_of s)) \<and>
    (\<forall>n. slots_left n (sv_slab s) \<longrightarrow> slots_left n (sv_slab s')) \<and> ki_subtokens (sv_index s') = ki_subtokens (sv_index s)"
proof -
  have im: "index_matches u s" and sok: "slab_ok (sv_slab s)" using ok by (simp_all add: tables_ok_def index_matches_def)
  obtain ev s1 where S: "evict_loop u clock (orphans s) [] s = Some (ev, s1)" "index_matches u s1" "sv_users s1 = sv_users s"
     "set ev = set (orphans s) \<inter> sourceless (slab_of s)" "slab_of s1 = (slab_of s) |` (- set ev)"
     "\<forall>n. slots_left n (sv_slab s) \<longrightarrow> slots_left n (sv_slab s1)" "ki_subtokens (sv_index s1) = ki_subtokens (sv_index s)"
    using evict_loop_ok [OF im, of clock "orphans s" "[]"] by auto
  have "set (orphans s) = sourceless (slab_of s)" by (rule orphans_sourceless [OF sok])
  then have ev: "set ev = sourceless (slab_of s)" using S(4) by simp
  define s' where "s' = (if ev \<noteq> [] then purge_ids_from_user_files ev s1 else s1)"
  have eq: "sv_slab s' = sv_slab s1" "sv_index s' = sv_index s1" by (simp_all add: s'_def)
  have "files_of s' v = user_sources (slab_of s') v" for v
  proof -
    have f: "files_of s1 v = files_of s v" by (rule files_of_cong) (fact S(3))
    have "files_of s' v = files_of s1 v - set ev" by (simp add: s'_def files_of_purge)
    moreover have "user_sources (slab_of s1) v = user_sources (slab_of s) v - set ev" by (simp add: S(5) user_sources_restrict)
    ultimately show ?thesis using ok f by (simp add: eq tables_ok_def)
  qed
  then have "tables_ok u s'" using S(2) index_matches_cong [OF eq] by (simp add: tables_ok_def)
  then show ?thesis using S eq ev by (intro exI [of _ s']) (simp add: orphan_evict_def s'_def)
qed

section \<open>Runs\<close>

datatype files_op =
    Publish file_hash u64 rstr "bytes \<times> ip_addr \<times> u16 \<times> bool" nat
  | Leave bytes "file_id \<Rightarrow> u32"
  | Purge "file_id list" "file_id \<Rightarrow> u32"
  | Sweep "file_id \<Rightarrow> u32"

fun table_step ::
  "unicode \<Rightarrow> (bytes \<rightharpoonup> rstr) \<Rightarrow> (file_id set \<Rightarrow> file_id list) \<Rightarrow> files_op \<Rightarrow> server_files \<Rightarrow> server_files option" where
  "table_step u sw order (Publish h sz name src now) s = add_file_with_source u sw h sz name src now s"
| "table_step u sw order (Leave user clock) s = remove_sources_of u order user clock s"
| "table_step u sw order (Purge ids clock) s = map_option snd (purge_files u clock ids s)"
| "table_step u sw order (Sweep clock) s = orphan_sweep u clock s"

fun table_run ::
  "unicode \<Rightarrow> (bytes \<rightharpoonup> rstr) \<Rightarrow> (file_id set \<Rightarrow> file_id list) \<Rightarrow> files_op list \<Rightarrow> server_files \<Rightarrow> server_files option" where
  "table_run u sw order [] s = Some s"
| "table_run u sw order (c # cs) s = (case table_step u sw order c s of None \<Rightarrow> None | Some s \<Rightarrow> table_run u sw order cs s)"

text \<open>The compressed tier addresses its shards with 32-bit offsets: a compaction fits when every shard it
  rebuilds stays below \<open>2 ^ 32\<close> bytes, and a run when each of its sweeps does.\<close>

definition compaction_fits :: "keyword_index \<Rightarrow> bool" where
  "compaction_fits ix \<longleftrightarrow> chunks_room ix (chunk_shards (compact_keys ix))"

fun step_fits :: "unicode \<Rightarrow> files_op \<Rightarrow> server_files \<Rightarrow> bool" where
  "step_fits u (Sweep clock) s \<longleftrightarrow> (case orphan_evict u clock s of Some s' \<Rightarrow> compaction_fits (sv_index s') | None \<Rightarrow> True)"
| "step_fits u _ s \<longleftrightarrow> True"

fun run_fits ::
  "unicode \<Rightarrow> (bytes \<rightharpoonup> rstr) \<Rightarrow> (file_id set \<Rightarrow> file_id list) \<Rightarrow> files_op list \<Rightarrow> server_files \<Rightarrow> bool" where
  "run_fits u sw order [] s \<longleftrightarrow> True"
| "run_fits u sw order (c # cs) s \<longleftrightarrow>
     step_fits u c s \<and> (case table_step u sw order c s of Some s' \<Rightarrow> run_fits u sw order cs s' | None \<Rightarrow> True)"

lemma run_fits_one: "run_fits u sw order [Publish h sz name src now] s"
  by (simp split: option.split)

lemma compact_subtokens: "ki_subtokens (fst (compact ix)) = ki_subtokens ix"
proof -
  have snap: "ki_subtokens (install_snap x jx) = ki_subtokens jx" for x jx
    by (simp add: install_snap_def Let_def split: option.split prod.split)
  have "ki_subtokens (fold install_snap xs jx) = ki_subtokens jx" for xs jx
    by (induction xs arbitrary: jx) (simp_all add: snap)
  then have "ki_subtokens (fst (compact_shard jx c)) = ki_subtokens jx" for jx c
    by (simp add: compact_shard_def install_def Let_def split: prod.split)
  then have "ki_subtokens (fst (compact_chunks jx cs n)) = ki_subtokens jx" for jx cs n
    by (induction jx cs n rule: compact_chunks.induct) (metis compact_chunks.simps(1) fst_conv, simp add: case_prod_unfold Let_def)
  then show ?thesis by (simp add: compact_def sweep_empty_def case_prod_unfold Let_def)
qed

text \<open>The whole sweep: what \<open>evict_ok\<close> says of the eviction, with the index compacted after it.\<close>

lemma sweep_tables_ok:
  assumes ok: "tables_ok u s" and fits: "step_fits u (Sweep clock) s"
  shows "\<exists>s'. orphan_sweep u clock s = Some s' \<and> tables_ok u s' \<and> slab_of s' = (slab_of s) |` (- sourceless (slab_of s)) \<and>
    (\<forall>n. slots_left n (sv_slab s) \<longrightarrow> slots_left n (sv_slab s')) \<and> ki_subtokens (sv_index s') = ki_subtokens (sv_index s)"
proof -
  obtain s1 where S: "orphan_evict u clock s = Some s1" "tables_ok u s1" "slab_of s1 = (slab_of s) |` (- sourceless (slab_of s))"
      "\<forall>n. slots_left n (sv_slab s) \<longrightarrow> slots_left n (sv_slab s1)" "ki_subtokens (sv_index s1) = ki_subtokens (sv_index s)"
    using evict_ok [OF ok, of clock] by blast
  let ?ix = "fst (compact (sv_index s1))"
  let ?s = "s1\<lparr>sv_index := ?ix\<rparr>"
  have "index_ok (sv_index s1)" using S(2) by (simp add: tables_ok_def index_matches_def)
  moreover have "chunks_room (sv_index s1) (chunk_shards (compact_keys (sv_index s1)))"
    using fits S(1) by (simp add: compaction_fits_def)
  ultimately have C: "index_ok ?ix" "\<And>th. posting ?ix th = posting (sv_index s1) th" using compact_ok by blast+
  have "posting ?ix = posting (sv_index s1)" using C(2) by (rule ext)
  then have "index_matches u ?s" using S(2) C(1) by (simp add: tables_ok_def index_matches_def compact_subtokens indexes_def)
  moreover have "files_of ?s = files_of s1" by (simp add: files_of_def fun_eq_iff)
  ultimately have "tables_ok u ?s" using S(2) by (simp add: tables_ok_def)
  then show ?thesis using S(1,3,4,5) by (intro exI [of _ ?s]) (simp add: orphan_sweep_def compact_subtokens)
qed

lemma table_step_ok:
  assumes ok: "tables_ok u s" and room: "slots_left 2 (sv_slab s)" and order: "\<forall>S. finite S \<longrightarrow> set (order S) = S"
    and fits: "step_fits u c s"
  shows "\<exists>s'. table_step u sw order c s = Some s' \<and> tables_ok u s' \<and> (\<forall>n. slots_left (Suc n) (sv_slab s) \<longrightarrow> slots_left n (sv_slab s')) \<and>
    ki_subtokens (sv_index s') = ki_subtokens (sv_index s)"
proof (cases c)
  case (Publish h sz name src now)
  obtain user ip port complete where so: "src = (user, ip, port, complete)" by (metis prod_cases4)
  show ?thesis
  proof (cases "unknown (slab_of s) h")
    case True
    then show ?thesis using publish_fresh [OF ok room True so, of sw sz name now] by (metis Publish table_step.simps(1))
  next
    case False
    then obtain i r where "holds (slab_of s) h i r" by (auto simp: unknown_def)
    then show ?thesis
      using publish_known [OF ok _ so, of h i r sw sz name now] slots_left_Suc by (metis Publish table_step.simps(1))
  qed
next
  case (Leave user clock)
  then show ?thesis using remove_sources_ok [OF ok order, of user clock] slots_left_Suc by auto
next
  case (Purge ids clock)
  then show ?thesis using purge_ok [OF ok, of clock ids] slots_left_Suc by force
next
  case (Sweep clock)
  then show ?thesis using sweep_tables_ok [OF ok, of clock] fits slots_left_Suc by auto
qed

lemma table_run_ok:
  "tables_ok u s \<Longrightarrow> slots_left (Suc (length cs)) (sv_slab s) \<Longrightarrow> \<forall>S. finite S \<longrightarrow> set (order S) = S \<Longrightarrow> run_fits u sw order cs s \<Longrightarrow>
   \<exists>s'. table_run u sw order cs s = Some s' \<and> tables_ok u s' \<and> ki_subtokens (sv_index s') = ki_subtokens (sv_index s)"
proof (induction cs arbitrary: s)
  case (Cons c cs)
  have "slots_left 2 (sv_slab s)" using Cons.prems(2) by (force simp: slots_left_def)
  then obtain s1 where S: "table_step u sw order c s = Some s1" "tables_ok u s1" "slots_left (Suc (length cs)) (sv_slab s1)"
      "ki_subtokens (sv_index s1) = ki_subtokens (sv_index s)"
    using table_step_ok [OF Cons.prems(1) _ Cons.prems(3), of c sw] Cons.prems(2,4) by auto
  then show ?case using Cons.IH [OF S(2,3) Cons.prems(3)] Cons.prems(4) by auto
qed simp

lemma files_new_ok: "tables_ok u (files_new sub) \<and> slots_left (2 ^ 26) (sv_slab (files_new sub))"
proof -
  have n: "slab_ok slab_new" "slab_map slab_new = Map.empty" "slots_left (2 ^ 26) slab_new" using slab_new_ok by blast+
  then have "slots_left 1 slab_new" by (force simp: slots_left_def)
  then have "index_matches u (files_new sub)"
    using n(1) by (simp add: index_matches_def files_new_def n(2) indexes_def names_def index_ok_new)
  moreover have "files_of (files_new sub) v = user_sources (slab_of (files_new sub)) v" for v
    by (simp add: files_of_def files_new_def user_sources_def n(2))
  ultimately show ?thesis using n(3) by (simp add: tables_ok_def) (simp add: files_new_def)
qed

text \<open>The states a run from the start reaches; \<open>order\<close> is the iteration order of the sets of files.\<close>

definition tables_reached ::
  "unicode \<Rightarrow> (bytes \<rightharpoonup> rstr) \<Rightarrow> (file_id set \<Rightarrow> file_id list) \<Rightarrow> bool \<Rightarrow> files_op list \<Rightarrow> server_files \<Rightarrow> bool" where
  "tables_reached u sw order sub cs s \<longleftrightarrow> (\<forall>S. finite S \<longrightarrow> set (order S) = S) \<and> length cs < 2 ^ 26 \<and>
     run_fits u sw order cs (files_new sub) \<and> table_run u sw order cs (files_new sub) = Some s"

lemma tables_reached_ok: "tables_reached u sw order sub cs s \<Longrightarrow> tables_ok u s \<and> ki_subtokens (sv_index s) = sub"
proof -
  assume r: "tables_reached u sw order sub cs s"
  have "slots_left (Suc (length cs)) (sv_slab (files_new sub))"
    using files_new_ok [of u sub] r by (force simp: slots_left_def tables_reached_def)
  then show ?thesis
    using table_run_ok [of u "files_new sub" cs order sw] files_new_ok [of u sub] r
    by (auto simp: tables_reached_def files_new_def)
qed

lemma tables_reached_exists:
  "\<forall>S. finite S \<longrightarrow> set (order S) = S \<Longrightarrow> length cs < 2 ^ 26 \<Longrightarrow> run_fits u sw order cs (files_new sub) \<Longrightarrow> \<exists>s. tables_reached u sw order sub cs s"
proof -
  assume a: "\<forall>S. finite S \<longrightarrow> set (order S) = S" "length cs < 2 ^ 26" "run_fits u sw order cs (files_new sub)"
  have "slots_left (Suc (length cs)) (sv_slab (files_new sub))"
    using files_new_ok [of u sub] a(2) by (force simp: slots_left_def)
  then show ?thesis
    using table_run_ok [of u "files_new sub" cs order sw] files_new_ok [of u sub] a by (auto simp: tables_reached_def)
qed

section \<open>The properties\<close>

text \<open>C7: Whatever clients publish, whoever leaves, and whatever is purged or swept, with the compaction of
  the index that ends each sweep, no operation panics, and the three tables agree afterwards: the postings, over
  all tiers of the index, are exactly the keys of the names of the live files, and a user's set of files is
  exactly the files it is a source of. (The runs are those that fit: fewer operations than a slab shard has slots, and
  no compaction that fills a shard of the compressed tier.)\<close>

theorem file_tables_agree:
  assumes "\<forall>S. finite S \<longrightarrow> set (order S) = S" and "length cs < 2 ^ 26" and "run_fits u sw order cs (files_new sub)"
  shows "\<exists>s. table_run u sw order cs (files_new sub) = Some s \<and>
    (\<forall>th i. i \<in> posting (sv_index s) th \<longleftrightarrow> (\<exists>r. slab_get i (sv_slab s) = Some r \<and> th \<in> name_keys u sub (record_name r))) \<and>
    (\<forall>user i. i \<in> files_of s user \<longleftrightarrow> (\<exists>r. slab_get i (sv_slab s) = Some r \<and> user \<in> so_user_hash ` set (fr_sources r)))"
proof -
  obtain s where r: "tables_reached u sw order sub cs s" using tables_reached_exists [OF assms] by blast
  have ok: "tables_ok u s" "ki_subtokens (sv_index s) = sub" using tables_reached_ok [OF r] by simp_all
  have "i \<in> posting (sv_index s) th \<longleftrightarrow> (\<exists>r. slab_get i (sv_slab s) = Some r \<and> th \<in> name_keys u sub (record_name r))" for th i
    using ok by (auto simp: tables_ok_def index_matches_def indexes_def names_def)
  moreover have "i \<in> files_of s user \<longleftrightarrow> (\<exists>r. slab_get i (sv_slab s) = Some r \<and> user \<in> so_user_hash ` set (fr_sources r))" for user i
    using ok by (auto simp: tables_ok_def user_sources_def)
  moreover have "table_run u sw order cs (files_new sub) = Some s" using r by (simp add: tables_reached_def)
  ultimately show ?thesis by blast
qed

lemma sorted_order: "\<forall>S :: file_id set. finite S \<longrightarrow> set (sorted_list_of_set S) = S"
  by simp

text \<open>A file with one keyword is published: the compaction that follows fits.\<close>

lemma varint_length: "unat v < 2 ^ (7 * k + 7) \<Longrightarrow> length (write_varint v) \<le> Suc k"
proof (induction k arbitrary: v)
  case 0
  then have "drop_bit 7 v = 0" by (simp add: drop_bit_eq_div word_arith_nat_div unat_div_distrib)
  then show ?case by (simp add: write_varint.simps [of v] Let_def)
next
  case (Suc k)
  have "7 * Suc k + 7 = (7 * k + 7) + 7" by simp
  then have "unat (drop_bit 7 v) < 2 ^ (7 * k + 7)" using Suc.prems shr7_bound [of v "7 * k + 7"] by simp
  then show ?case using Suc.IH [of "drop_bit 7 v"] by (simp add: write_varint.simps [of v] Let_def)
qed

lemma encode_one_short: "length (encode [i]) < 2 ^ 32"
proof -
  have "length (write_varint v) \<le> Suc 4" for v :: u32
  proof -
    have "unat v < 2 ^ 32" using unsigned_less [of v] by simp
    then show ?thesis by (intro varint_length) simp
  qed
  then have "length (write_varint v) + length (write_varint w) \<le> 10" for v w :: u32
    using add_mono [of "length (write_varint v)" "Suc 4" "length (write_varint w)" "Suc 4"] by simp
  from le_less_trans [OF this] show ?thesis by (simp add: encode_def Let_def)
qed

lemma one_token_fits:
  assumes "valid_id i" "ki_hot ix = [th \<mapsto> [i]]" "ki_pending ix = Map.empty" "ki_cold ix = cold_default"
  shows "compaction_fits ix"
proof -
  have keys: "compact_keys ix = [th]" by (simp add: compact_keys_def assms)
  have sh: "cold_shards cold_default ! shard_of th = shard_empty"
    using shard_of_less [of th] by (simp add: cold_default_def)
  have "length (encode [i]) < 2 ^ 32" by (rule encode_one_short)
  then have "shard_room ix [th]"
    by (simp add: shard_room_def snap_keys_def snap_key_def assms Let_def room_def sh shard_empty_def cold_get_default)
  then show ?thesis by (simp add: compaction_fits_def keys)
qed

lemma file_tables_agree_witness:
  "\<exists>s. table_run ascii_tables Map.empty sorted_list_of_set
         [Publish [1, 2, 3, 4, 5, 6, 7, 8] 700 (lit ''HD'') ([7], V4 0x01020304, 4662, True) 5000000000, Sweep (\<lambda>_. 6)] (files_new False) = Some s \<and>
     files_of s [7] = {i. \<exists>r. slab_get i (sv_slab s) = Some r \<and> [7] \<in> so_user_hash ` set (fr_sources r)}"
proof -
  let ?p = "Publish [1, 2, 3, 4, 5, 6, 7, 8] 700 (lit ''HD'') ([7], V4 0x01020304, 4662, True) 5000000000"
  let ?cs = "[?p, Sweep (\<lambda>_. 6)]" and ?h = "[1, 2, 3, 4, 5, 6, 7, 8] :: file_hash" and ?new = "files_new False"
  have new: "tables_ok ascii_tables ?new" "slots_left 2 (sv_slab ?new)"
    using files_new_ok [of ascii_tables False] by (auto simp: slots_left_def)
  have "slab_of ?new = Map.empty" using slab_new_ok by (simp add: files_new_def)
  then have un: "unknown (slab_of ?new) ?h" by (simp add: unknown_def holds_def)
  obtain i s where P: "table_step ascii_tables Map.empty sorted_list_of_set ?p ?new = Some s" "slab_of ?new i = None"
      "slab_of s = (slab_of ?new)(i \<mapsto> record_new ?h 700 (lit ''HD'') [source_new [7] (V4 0x01020304) 4662 True])"
      "tables_ok ascii_tables s" "sv_index s = add_file ascii_tables i (lit ''HD'') (sv_index ?new)" "valid_id i"
    unfolding table_step.simps by (rule publish_fresh [OF new un refl, where sw = Map.empty and sz = 700 and name = "lit ''HD''" and now = 5000000000])
  have "sourceless (slab_of s) = {}" unfolding P(3) using \<open>slab_of ?new = Map.empty\<close> by (auto simp: sourceless_def record_new_def)
  then have "orphans s = []" using orphans_sourceless [of s] P(4) by (simp add: tables_ok_def index_matches_def)
  then have ev: "orphan_evict ascii_tables (\<lambda>_. 6) s = Some s" by (simp add: orphan_evict_def)
  have ix: "sv_index s = add_token i (token_hash (lit ''hd'')) (ki_new False)"
    unfolding P(5) by (simp add: files_new_def add_file_def index_tokens_into_def tokenize_eval ki_new_def)
  have "compaction_fits (sv_index s)"
    by (rule one_token_fits [OF P(6), of _ "token_hash (lit ''hd'')"]) (simp_all add: ix add_token_def ki_new_def vec_insert_def binary_search_def)
  then have "run_fits ascii_tables Map.empty sorted_list_of_set ?cs ?new" using P(1) ev by (simp split: option.split)
  moreover have "length ?cs < 2 ^ 26" by simp
  ultimately obtain s where s: "table_run ascii_tables Map.empty sorted_list_of_set ?cs ?new = Some s"
    "\<forall>user i. i \<in> files_of s user \<longleftrightarrow> (\<exists>r. slab_get i (sv_slab s) = Some r \<and> user \<in> so_user_hash ` set (fr_sources r))"
    using file_tables_agree [OF sorted_order, of ?cs ascii_tables Map.empty False] by blast
  from s(2) have "files_of s [7] = {i. \<exists>r. slab_get i (sv_slab s) = Some r \<and> [7] \<in> so_user_hash ` set (fr_sources r)}"
    by (intro set_eqI) simp
  with s(1) show ?thesis by blast
qed

text \<open>A keyword search on such a state returns the id of a live file exactly when the name the file was stored
  under has, for every group of the query, one of its words: nothing live is missed, and no id of a
  file that has gone is left behind.\<close>

theorem search_returns_live_files:
  assumes "tables_reached u sw order sub cs s" and "groups \<noteq> []" and "[] \<notin> set groups"
  shows "i \<in> set (find_grouped (sv_index s) groups) \<longleftrightarrow>
    (\<exists>r. slab_get i (sv_slab s) = Some r \<and> (\<forall>g\<in>set groups. \<exists>t\<in>set g. token_hash t \<in> name_keys u sub (record_name r)))"
proof -
  have ok: "tables_ok u s" "ki_subtokens (sv_index s) = sub" using tables_reached_ok [OF assms(1)] by simp_all
  have ix: "index_ok (sv_index s)" using ok(1) by (simp add: tables_ok_def index_matches_def)
  have post: "i \<in> posting (sv_index s) th \<longleftrightarrow> (\<exists>r. slab_get i (sv_slab s) = Some r \<and> th \<in> name_keys u sub (record_name r))" for th
    using ok by (auto simp: tables_ok_def index_matches_def indexes_def names_def)
  have "i \<in> set (find_grouped (sv_index s) groups) \<longleftrightarrow> (\<forall>g\<in>set groups. \<exists>t\<in>set g. i \<in> posting (sv_index s) (token_hash t))"
    by (rule find_grouped_members [OF ix assms(2,3)])
  also have "\<dots> \<longleftrightarrow> (\<exists>r. slab_get i (sv_slab s) = Some r \<and> (\<forall>g\<in>set groups. \<exists>t\<in>set g. token_hash t \<in> name_keys u sub (record_name r)))"
  proof (cases "slab_get i (sv_slab s)")
    case None
    obtain g gs where "groups = g # gs" "g \<noteq> []" using assms(2,3) by (cases groups) auto
    then show ?thesis using None by (auto simp: post)
  qed (simp add: post)
  finally show ?thesis .
qed

lemma search_returns_live_files_witness:
  "\<exists>s. tables_reached ascii_tables Map.empty sorted_list_of_set False [] s \<and>
     (FileId 5 \<in> set (find_grouped (sv_index s) [[lit ''hd'']]) \<longleftrightarrow>
      (\<exists>r. slab_get (FileId 5) (sv_slab s) = Some r \<and> token_hash (lit ''hd'') \<in> name_keys ascii_tables False (record_name r)))"
proof -
  obtain s where r: "tables_reached ascii_tables Map.empty sorted_list_of_set False [] s"
    using tables_reached_exists [OF sorted_order, of "[]" ascii_tables Map.empty False] by auto
  have one: "(\<forall>g\<in>set [[x]]. \<exists>t\<in>set g. P t) = P x" for P and x :: rstr by simp
  have "[[x]] \<noteq> []" "[] \<notin> set [[x]]" for x :: rstr by simp_all
  from search_returns_live_files [OF r this, of "FileId 5" "lit ''hd''", unfolded one] r show ?thesis by blast
qed

text \<open>When a user leaves, no record keeps it as a source. A file of its set loses exactly its sources, and goes
  when it was the last one; every other file and every other user's set is untouched.\<close>

theorem leaving_takes_the_sources:
  assumes "tables_reached u sw order sub cs s" and "remove_sources_of u order user clock s = Some s'"
  shows "files_of s' user = {} \<and> (\<forall>v. v = user \<or> files_of s' v = files_of s v) \<and>
    (\<forall>i. slab_get i (sv_slab s') =
       (if i \<in> files_of s user then left_by user (slab_get i (sv_slab s)) else slab_get i (sv_slab s)))"
proof -
  have ok: "tables_ok u s" using tables_reached_ok [OF assms(1)] by simp
  have order: "\<forall>S. finite S \<longrightarrow> set (order S) = S" using assms(1) by (simp add: tables_reached_def)
  have L: "tables_ok u s'" "user_sources (slab_of s') user = {}"
    "\<forall>v. v \<noteq> user \<longrightarrow> user_sources (slab_of s') v = user_sources (slab_of s) v"
    "\<forall>i. slab_get i (sv_slab s') = (if i \<in> files_of s user then left_by user (slab_get i (sv_slab s)) else slab_get i (sv_slab s))"
    using remove_sources_ok [OF ok order, of user clock] assms(2) by auto
  have F: "files_of s' w = user_sources (slab_of s') w" "files_of s w = user_sources (slab_of s) w" for w
    using ok L(1) by (simp_all add: tables_ok_def)
  have "files_of s' user = {}" using F(1) [of user] L(2) by simp
  moreover have "v = user \<or> files_of s' v = files_of s v" for v using F [of v] L(3) by (metis (no_types))
  ultimately show ?thesis using L(4) by blast
qed

lemma leaving_takes_the_sources_witness:
  "\<exists>s s'. tables_reached ascii_tables Map.empty sorted_list_of_set False
       [Publish [1, 2, 3, 4, 5, 6, 7, 8] 700 (lit ''HD'') ([7], V4 0x01020304, 4662, True) 5000000000] s \<and>
     remove_sources_of ascii_tables sorted_list_of_set [7] (\<lambda>_. 6) s = Some s' \<and> files_of s' [7] = {}"
proof -
  let ?cs = "[Publish [1, 2, 3, 4, 5, 6, 7, 8] 700 (lit ''HD'') ([7], V4 0x01020304, 4662, True) 5000000000]"
  obtain s where r: "tables_reached ascii_tables Map.empty sorted_list_of_set False ?cs s"
    using tables_reached_exists [OF sorted_order, of ?cs ascii_tables Map.empty False] run_fits_one by auto
  obtain s' where "remove_sources_of ascii_tables sorted_list_of_set [7] (\<lambda>_. 6) s = Some s'"
    using remove_sources_ok [OF _ sorted_order] tables_reached_ok [OF r] by blast
  then show ?thesis using leaving_takes_the_sources [OF r] r by blast
qed

end
