(* ===== verification/Server_Clients.thy ===== *)
theory Server_Clients
  imports File_Slab Admission Frame
begin

text \<open>
  Connected clients (\<open>src/state/mod.rs\<close>): client handles and their push channels, low ids,
  which source a search result names, which addresses are published, and when a login may
  take the place of a live session (\<open>src/server/connection.rs\<close>). The fields of a handle that only
  reports and statistics read (nick, country, software, counters) are left out.
\<close>

section \<open>Handles and channels\<close>

definition CLIENT_CHANNEL_CAP :: nat where "CLIENT_CHANNEL_CAP = 16"

text \<open>The bounded channel to a connection task: what is queued, and whether the receiver is still there.\<close>

record channel =
  ch_queue :: "frame list"
  ch_open :: bool

record client =
  cl_user_hash :: bytes
  cl_assigned_id :: u32
  cl_ip :: ip_addr
  cl_port :: u16
  cl_udp_port :: u16
  cl_natt_capable :: bool
  cl_server_flags :: u32
  cl_high_id :: bool
  cl_ipv6_capable :: bool
  cl_ipv6 :: "u128 option"
  cl_tx :: "channel option"
  cl_last_activity_ms :: u64

definition touch_activity :: "u64 \<Rightarrow> client \<Rightarrow> client" where
  "touch_activity now c = c\<lparr>cl_last_activity_ms := now\<rparr>"

definition idle_ms :: "u64 \<Rightarrow> client \<Rightarrow> u64" where
  "idle_ms now c = (if now \<ge> cl_last_activity_ms c then now - cl_last_activity_ms c else 0)"

definition send_frame :: "frame \<Rightarrow> client \<Rightarrow> push_outcome \<times> client" where
  "send_frame f c =
     (case cl_tx c of
        Some tx \<Rightarrow>
          if \<not> ch_open tx then (Closed, c)
          else if length (ch_queue tx) \<ge> CLIENT_CHANNEL_CAP then (Full, c)
          else (Queued, c\<lparr>cl_tx := Some (tx\<lparr>ch_queue := ch_queue tx @ [f]\<rparr>)\<rparr>)
      | None \<Rightarrow> (Closed, c))"

definition is_alive :: "client \<Rightarrow> bool" where
  "is_alive c = (case cl_tx c of Some tx \<Rightarrow> ch_open tx | None \<Rightarrow> False)"

definition create_client_channel :: "client \<Rightarrow> client" where
  "create_client_channel c = c\<lparr>cl_tx := Some \<lparr>ch_queue = [], ch_open = True\<rparr>\<rparr>"

section \<open>Addresses that may be published\<close>

definition octet :: "nat \<Rightarrow> u32 \<Rightarrow> u32" where
  "octet k a = drop_bit (24 - 8 * k) a AND 0xFF"

definition v4_is_private :: "u32 \<Rightarrow> bool" where
  "v4_is_private a \<longleftrightarrow> octet 0 a = 10 \<or> octet 0 a = 172 \<and> 16 \<le> octet 1 a \<and> octet 1 a \<le> 31 \<or> octet 0 a = 192 \<and> octet 1 a = 168"

definition v4_is_link_local :: "u32 \<Rightarrow> bool" where
  "v4_is_link_local a \<longleftrightarrow> octet 0 a = 169 \<and> octet 1 a = 254"

definition v4_is_multicast :: "u32 \<Rightarrow> bool" where
  "v4_is_multicast a \<longleftrightarrow> 224 \<le> octet 0 a \<and> octet 0 a \<le> 239"

definition is_publishable_ipv6 :: "u128 \<Rightarrow> bool" where
  "is_publishable_ipv6 a \<longleftrightarrow> a \<noteq> 1 \<and> a \<noteq> 0 \<and> drop_bit 120 a \<noteq> 0xFF \<and>
     drop_bit 112 a AND 0xFFC0 \<noteq> 0xFE80 \<and> drop_bit 120 a AND 0xFE \<noteq> 0xFC \<and> to_ipv4_mapped a = None"

fun is_publishable_source_ip :: "ip_addr \<Rightarrow> bool" where
  "is_publishable_source_ip (V4 a) \<longleftrightarrow>
     \<not> v4_is_private a \<and> octet 0 a \<noteq> 127 \<and> \<not> v4_is_link_local a \<and> a \<noteq> 0 \<and> a \<noteq> - 1 \<and> \<not> v4_is_multicast a \<and>
     \<not> (octet 0 a = 100 \<and> 64 \<le> octet 1 a \<and> octet 1 a < 128)"
| "is_publishable_source_ip (V6 a) \<longleftrightarrow> is_publishable_ipv6 a"

section \<open>The source a search result names\<close>

definition SCAN :: nat where "SCAN = 32"

text \<open>Rank, id and port of a source that qualifies.\<close>

definition qualify :: "(bytes \<rightharpoonup> client) \<Rightarrow> source \<Rightarrow> (nat \<times> u32 \<times> u16) option" where
  "qualify clients s =
     (case clients (so_user_hash s) of
        None \<Rightarrow> None
      | Some h \<Rightarrow>
          if \<not> is_alive h \<or> so_port s = 0 then None
          else if cl_high_id h \<and> \<not> is_publishable_source_ip (cl_ip h) then None
          else let rank = (if cl_high_id h then (if so_complete s then 0 else 2) else (if so_complete s then 1 else 3))
               in if cl_assigned_id h = 0 then None else Some (rank, cl_assigned_id h, so_port s))"

fun scan_sources :: "(bytes \<rightharpoonup> client) \<Rightarrow> source list \<Rightarrow> (nat \<times> u32 \<times> u16) option \<Rightarrow> (nat \<times> u32 \<times> u16) option" where
  "scan_sources clients [] best = best"
| "scan_sources clients (s # ss) best =
     (case qualify clients s of
        None \<Rightarrow> scan_sources clients ss best
      | Some (rank, cid, port) \<Rightarrow>
          if (case best of None \<Rightarrow> True | Some b \<Rightarrow> rank < fst b)
          then (if rank = 0 then Some (rank, cid, port) else scan_sources clients ss (Some (rank, cid, port)))
          else scan_sources clients ss best)"

definition search_result_source :: "(bytes \<rightharpoonup> client) \<Rightarrow> source list \<Rightarrow> u32 \<times> u16" where
  "search_result_source clients sources =
     (case scan_sources clients (take SCAN sources) None of None \<Rightarrow> (0, 0) | Some (_, cid, port) \<Rightarrow> (cid, port))"

section \<open>Low ids\<close>

definition allocate_low_id :: "u32 \<Rightarrow> u32 \<times> u32" where
  "allocate_low_id next_low =
     (let cid = next_low; next_low = next_low + 1
      in if cid \<ge> 0x00FFFFFF then (1, 1) else (cid, next_low))"

definition SRVCAP_NATTRAVERSAL :: u32 where "SRVCAP_NATTRAVERSAL = 0x1000"

definition wants_odd_low_id :: "bool \<Rightarrow> u32 \<Rightarrow> bool" where
  "wants_odd_low_id lugdunum_natt server_flags \<longleftrightarrow> lugdunum_natt \<and> server_flags AND SRVCAP_NATTRAVERSAL \<noteq> 0"

text \<open>The loop draws until the parity fits; \<open>None\<close> is a loop that does not end.\<close>

partial_function (option) low_id_loop :: "bool \<Rightarrow> u32 \<Rightarrow> (u32 \<times> u32) option" where
  "low_id_loop wants_odd next_low =
     (case allocate_low_id next_low of (cid, next_low) \<Rightarrow>
        if (cid AND 1 = 1) = wants_odd then Some (cid, next_low) else low_id_loop wants_odd next_low)"

definition allocate_low_id_for :: "bool \<Rightarrow> u32 \<Rightarrow> u32 \<Rightarrow> (u32 \<times> u32) option" where
  "allocate_low_id_for lugdunum_natt server_flags next_low =
     (if \<not> lugdunum_natt then Some (allocate_low_id next_low)
      else low_id_loop (wants_odd_low_id lugdunum_natt server_flags) next_low)"

section \<open>Taking over a session\<close>

definition canon_ip :: "ip_addr \<Rightarrow> ip_addr" where
  "canon_ip ip = (case ip of V6 a \<Rightarrow> (case to_ipv4_mapped a of Some v4 \<Rightarrow> V4 v4 | None \<Rightarrow> ip) | V4 _ \<Rightarrow> ip)"

text \<open>May a login take the place of the live session \<open>prev\<close> of its user hash?\<close>

definition may_replace_session :: "bool \<Rightarrow> bool \<Rightarrow> u8 \<Rightarrow> client \<Rightarrow> ip_addr \<Rightarrow> u16 \<Rightarrow> bool" where
  "may_replace_session from_any_address shared_hash prefix_bits prev ip listen_port =
     (if \<not> is_alive prev \<or> from_any_address then True
      else if shared_hash then True
      else let old = canon_ip (cl_ip prev); new = canon_ip ip
           in if as_ip (source_key_of old prefix_bits) = as_ip (source_key_of new prefix_bits) then True
              else (case (old, new) of
                      (V4 _, V6 v6) \<Rightarrow> cl_ipv6 prev = Some v6 \<and> cl_port prev = listen_port
                    | _ \<Rightarrow> False))"

section \<open>Low ids in use\<close>

lemma allocate_low_id_cases:
  "n < 0x00FFFFFF \<Longrightarrow> allocate_low_id n = (n, n + 1)" "\<not> n < 0x00FFFFFF \<Longrightarrow> allocate_low_id n = (1, 1)"
  by (auto simp: allocate_low_id_def dest: leD leI)

text \<open>The draw that wraps answers 1 and leaves 1 as the next id: two clients in a row get the low id 1.\<close>

lemma wrap_repeats_low_id: "allocate_low_id 0x00FFFFFF = (1, 1) \<and> allocate_low_id 1 = (1, 2)"
  by (simp add: allocate_low_id_cases word_less_nat_alt)

lemma low_id_draw:
  "low_id_loop b n = (case allocate_low_id n of (i, n) \<Rightarrow> if (i AND 1 = 1) = b then Some (i, n) else low_id_loop b n)"
  by (rule low_id_loop.simps)

lemma low_id_loop_even: "low_id_loop False 1 = Some (2, 3)"
  using low_id_draw [of False 1] low_id_draw [of False 2] by (simp add: allocate_low_id_cases word_less_nat_alt)

lemma low_id_loop_large: "\<not> n < 0x00FFFFFF \<Longrightarrow> low_id_loop b n = (if b then Some (1, 1) else Some (2, 3))"
  by (subst low_id_draw) (simp add: allocate_low_id_cases low_id_loop_even)

lemma parity_flips: "((x + 1) AND 1 = 1) = (\<not> (x AND 1 = 1))" for x :: u32
proof -
  have "(x + 1) AND 1 = 1 \<longleftrightarrow> odd (x + 1)" "x AND 1 = 1 \<longleftrightarrow> odd x" by (simp_all add: and_one_eq mod_2_eq_odd)
  then show ?thesis by (simp add: even_plus_one_iff)
qed

text \<open>The parity loop of the low ids ends after at most three draws, from any counter: a client that asked for NAT
  callbacks gets an odd id, any other an even one, and the id is a low id, never 0.\<close>

theorem low_id_parity_ends:
  assumes "0 < next_low"
  shows "\<exists>i n. allocate_low_id_for True flags next_low = Some (i, n) \<and> (i AND 1 = 1) = wants_odd_low_id True flags \<and>
    0 < i \<and> i < 0x00FFFFFF \<and> 0 < n"
proof -
  let ?w = "wants_odd_low_id True flags"
  show ?thesis
  proof (cases "next_low < 0x00FFFFFF")
    case False
    then have "low_id_loop ?w next_low = (if ?w then Some (1, 1) else Some (2, 3))" by (rule low_id_loop_large)
    then show ?thesis by (simp add: allocate_low_id_for_def)
  next
    case True
    have one: "low_id_loop ?w next_low = (if (next_low AND 1 = 1) = ?w then Some (next_low, next_low + 1) else low_id_loop ?w (next_low + 1))"
      using True by (subst low_id_draw) (simp add: allocate_low_id_cases)
    have succ: "0 < next_low + 1" "unat (next_low + 1) = unat next_low + 1"
      using True by (simp_all add: word_less_nat_alt unat_add_lem [symmetric] unat_word_ariths)
    show ?thesis
    proof (cases "(next_low AND 1 = 1) = ?w")
      case True
      then show ?thesis using one assms \<open>next_low < 0x00FFFFFF\<close> succ(1) by (simp add: allocate_low_id_for_def)
    next
      case wrong: False
      show ?thesis
      proof (cases "next_low + 1 < 0x00FFFFFF")
        case True
        have "0 < next_low + 2" using True succ(2) by (simp add: word_less_nat_alt unat_word_ariths)
        moreover have "low_id_loop ?w (next_low + 1) = Some (next_low + 1, next_low + 2)"
          using wrong True parity_flips [of next_low] by (subst low_id_draw) (auto simp: allocate_low_id_cases add.assoc)
        ultimately show ?thesis using one wrong True succ(1) parity_flips [of next_low] by (auto simp: allocate_low_id_for_def)
      next
        case False
        then have "low_id_loop ?w (next_low + 1) = (if ?w then Some (1, 1) else Some (2, 3))" by (rule low_id_loop_large)
        then show ?thesis using one wrong by (simp add: allocate_low_id_for_def)
      qed
    qed
  qed
qed

lemma low_id_parity_ends_witness:
  "\<exists>i n. allocate_low_id_for True 0x1000 0x00FFFFFE = Some (i, n) \<and> (i AND 1 = 1) = wants_odd_low_id True 0x1000"
  using low_id_parity_ends [where next_low = "0x00FFFFFE" and flags = "0x1000"] by (auto simp: word_less_nat_alt)

section \<open>The best source\<close>

definition better :: "(nat \<times> u32 \<times> u16) option \<Rightarrow> (nat \<times> u32 \<times> u16) option \<Rightarrow> bool" where
  "better b q \<longleftrightarrow> (case q of None \<Rightarrow> True | Some x \<Rightarrow> (case b of None \<Rightarrow> False | Some y \<Rightarrow> fst y \<le> fst x))"

lemma scan_sources_best:
  "(scan_sources clients ss best = best \<or> scan_sources clients ss best \<in> qualify clients ` set ss) \<and>
   better (scan_sources clients ss best) best \<and> (\<forall>s\<in>set ss. better (scan_sources clients ss best) (qualify clients s))"
proof (induction ss arbitrary: best)
  case Nil
  then show ?case by (simp add: better_def split: option.split)
next
  case (Cons s ss)
  show ?case
  proof (cases "qualify clients s")
    case None
    then show ?thesis using Cons.IH [of best] by (auto simp: better_def)
  next
    case (Some q)
    obtain rank i port where q: "q = (rank, i, port)" by (metis prod_cases3)
    show ?thesis
    proof (cases "case best of None \<Rightarrow> True | Some b \<Rightarrow> rank < fst b")
      case new: True
      have trans: "better x (Some q) \<Longrightarrow> better x best" for x
        using new by (auto simp: better_def q split: option.splits)
      show ?thesis
      proof (cases "rank = 0")
        case True
        then have r: "scan_sources clients (s # ss) best = Some q" using Some new q by (cases best) simp_all
        have "better (Some q) x" for x using True by (auto simp: better_def q split: option.split)
        moreover have "Some q \<in> qualify clients ` set (s # ss)" using Some by (metis image_eqI list.set_intros(1))
        ultimately show ?thesis unfolding r by blast
      next
        case False
        then have r: "scan_sources clients (s # ss) best = scan_sources clients ss (Some q)"
          using Some new q by (cases best) simp_all
        have "scan_sources clients ss (Some q) \<in> qualify clients ` set (s # ss)" using Cons.IH [of "Some q"] Some by force
        then show ?thesis unfolding r using Cons.IH [of "Some q"] trans Some by auto
      qed
    next
      case False
      then have r: "scan_sources clients (s # ss) best = scan_sources clients ss best" using Some q by simp
      have "better x best \<Longrightarrow> better x (Some q)" for x
        using False by (auto simp: better_def q split: option.splits)
      then show ?thesis unfolding r using Cons.IH [of best] Some by auto
    qed
  qed
qed

text \<open>The source a search result names is that of a connected client among the first 32: a routable HighID or a
  LowID with an id to call back, never port 0, and no other of them is preferred to it. 0/0 is named
  only when none of them qualifies.\<close>

theorem search_source_is_best:
  "(search_result_source clients ss = (0, 0) \<and> (\<forall>s\<in>set (take 32 ss). qualify clients s = None)) \<or>
   (\<exists>s\<in>set (take 32 ss). \<exists>h k. clients (so_user_hash s) = Some h \<and> is_alive h \<and>
      search_result_source clients ss = (cl_assigned_id h, so_port s) \<and> cl_assigned_id h \<noteq> 0 \<and> so_port s \<noteq> 0 \<and>
      (cl_high_id h \<longrightarrow> is_publishable_source_ip (cl_ip h)) \<and> qualify clients s = Some (k, cl_assigned_id h, so_port s) \<and>
      (\<forall>s'\<in>set (take 32 ss). \<forall>k' p. qualify clients s' = Some (k', p) \<longrightarrow> k \<le> k'))"
proof -
  let ?ss = "take 32 ss"
  note best = scan_sources_best [of clients ?ss None]
  show ?thesis
  proof (cases "scan_sources clients ?ss None")
    case None
    have "qualify clients s = None" if "s \<in> set ?ss" for s
    proof -
      have "better None (qualify clients s)" using best that None by simp
      then show ?thesis by (simp add: better_def split: option.splits)
    qed
    then show ?thesis using None by (simp add: search_result_source_def SCAN_def)
  next
    case (Some q)
    then obtain s where s: "s \<in> set ?ss" "qualify clients s = Some q" using best by force
    then obtain h where h: "clients (so_user_hash s) = Some h" "is_alive h" "so_port s \<noteq> 0" "cl_assigned_id h \<noteq> 0"
        "cl_high_id h \<longrightarrow> is_publishable_source_ip (cl_ip h)" "snd q = (cl_assigned_id h, so_port s)"
      by (auto simp: qualify_def Let_def split: option.splits if_splits)
    have "fst q \<le> k'" if "s' \<in> set ?ss" "qualify clients s' = Some (k', p)" for s' k' p
    proof -
      have "better (Some q) (Some (k', p))" using best that Some by force
      then show ?thesis by (simp add: better_def)
    qed
    moreover have "search_result_source clients ss = (cl_assigned_id h, so_port s)"
      using Some h(6) by (cases q) (simp add: search_result_source_def SCAN_def)
    moreover have "qualify clients s = Some (fst q, cl_assigned_id h, so_port s)" using s(2) h(6) by (cases q) simp
    ultimately show ?thesis using s(1) h by blast
  qed
qed

end
