(* ===== verification/Session_Life.thy ===== *)
theory Session_Life
  imports Server_Clients Server_Files
begin

text \<open>
  The life of a session (\<open>connection.rs\<close>, \<open>state/mod.rs\<close>, \<open>ipv6_probe.rs\<close> and \<open>holepunch.rs\<close> under
  \<open>src/\<close>): the tables keyed by user hash and by assigned id, the registration of a login,
  \<open>end_session\<close>, and both as steps on the shared tables, one step per access, so that the tasks of
  several sessions interleave. The seven tables of IPv6 and NAT-T data, which no other
  table depends on, are written in one step.
\<close>

section \<open>The tables of sessions\<close>

record probe =
  pr_addr :: u128
  pr_verdict :: "bool option"
  pr_at :: u64
  pr_dials :: u8

text \<open>A session is its number, which stands for the allocation every copy of its handle shares.\<close>

record session_tables =
  st_clients :: "bytes \<rightharpoonup> nat \<times> client"
  st_ids :: "u32 \<rightharpoonup> bytes"
  st_lowid :: u32
  st_ipv6 :: "bytes \<rightharpoonup> u128"
  st_probe :: "bytes \<rightharpoonup> probe"
  st_natt_ports :: "bytes \<rightharpoonup> u16 \<times> u64"
  st_keepalive_seen :: "bytes \<rightharpoonup> bool"
  st_token :: "bytes \<rightharpoonup> bytes"
  st_proof_counter :: "bytes \<rightharpoonup> u32"
  st_natt_ip :: "bytes \<rightharpoonup> ip_addr"
  st_observed_ports :: "u32 \<rightharpoonup> u16 \<times> u64"

definition tables_empty :: session_tables where
  "tables_empty = \<lparr>st_clients = Map.empty, st_ids = Map.empty, st_lowid = 0, st_ipv6 = Map.empty, st_probe = Map.empty,
     st_natt_ports = Map.empty, st_keepalive_seen = Map.empty, st_token = Map.empty, st_proof_counter = Map.empty,
     st_natt_ip = Map.empty, st_observed_ports = Map.empty\<rparr>"

definition client_by_assigned_id :: "u32 \<Rightarrow> session_tables \<Rightarrow> client option" where
  "client_by_assigned_id i t = Option.bind (st_ids t i) (\<lambda>u. map_option snd (st_clients t u))"

definition index_client_id :: "u32 \<Rightarrow> bytes \<Rightarrow> session_tables \<Rightarrow> session_tables" where
  "index_client_id i user t = (if i \<noteq> 0 then t\<lparr>st_ids := (st_ids t)(i \<mapsto> user)\<rparr> else t)"

definition unindex_client_id :: "u32 \<Rightarrow> bytes \<Rightarrow> session_tables \<Rightarrow> session_tables" where
  "unindex_client_id i user t =
     (if i \<noteq> 0 \<and> st_ids t i = Some user then t\<lparr>st_ids := (st_ids t)(i := None)\<rparr> else t)"

section \<open>The data kept beside a session\<close>

definition SRVFLG_HOLEPUNCH_EXT :: u32 where "SRVFLG_HOLEPUNCH_EXT = 0x00100000"

definition wants_natt_token :: "client \<Rightarrow> bool" where
  "wants_natt_token c \<longleftrightarrow> cl_natt_capable c \<or> cl_server_flags c AND (SRVCAP_NATTRAVERSAL OR SRVFLG_HOLEPUNCH_EXT) \<noteq> 0"

text \<open>Holds an address back until its probe has run; the answer says whether one should start.\<close>

definition mark_pending :: "u64 \<Rightarrow> bytes \<Rightarrow> u128 \<Rightarrow> session_tables \<Rightarrow> bool \<times> session_tables" where
  "mark_pending now user a t =
     (case st_probe t user of
        Some p \<Rightarrow>
          if pr_addr p = a
          then (False, t\<lparr>st_ipv6 := (st_ipv6 t)(user := if pr_verdict p = Some True then Some a else None)\<rparr>)
          else (True, t\<lparr>st_ipv6 := (st_ipv6 t)(user := None),
                        st_probe := (st_probe t)(user \<mapsto> \<lparr>pr_addr = a, pr_verdict = None, pr_at = now, pr_dials = pr_dials p\<rparr>)\<rparr>)
      | None \<Rightarrow> (True, t\<lparr>st_ipv6 := (st_ipv6 t)(user := None),
                        st_probe := (st_probe t)(user \<mapsto> \<lparr>pr_addr = a, pr_verdict = None, pr_at = now, pr_dials = 0\<rparr>)\<rparr>))"

text \<open>What a login writes there: \<open>probing\<close> says whether addresses are dialled back, \<open>token\<close> is the one drawn.\<close>

definition login_side :: "bool \<Rightarrow> bytes \<Rightarrow> u64 \<Rightarrow> client \<Rightarrow> session_tables \<Rightarrow> session_tables" where
  "login_side probing token now c t =
     (let user = cl_user_hash c;
          t = (case cl_ipv6 c of
                 Some a \<Rightarrow>
                   if probing then snd (mark_pending now user a (t\<lparr>st_probe := (st_probe t)(user := None)\<rparr>))
                   else t\<lparr>st_ipv6 := (st_ipv6 t)(user \<mapsto> a), st_probe := (st_probe t)(user := None)\<rparr>
               | None \<Rightarrow> t\<lparr>st_ipv6 := (st_ipv6 t)(user := None), st_probe := (st_probe t)(user := None)\<rparr>)
      in t\<lparr>st_keepalive_seen := (st_keepalive_seen t)(user := None), st_natt_ip := (st_natt_ip t)(user := None),
           st_proof_counter := (st_proof_counter t)(user := None),
           st_token := (st_token t)(user := if wants_natt_token c then Some token else None)\<rparr>)"

definition drop_side :: "bytes \<Rightarrow> session_tables \<Rightarrow> session_tables" where
  "drop_side user t =
     t\<lparr>st_ipv6 := (st_ipv6 t)(user := None), st_probe := (st_probe t)(user := None),
       st_natt_ports := (st_natt_ports t)(user := None), st_keepalive_seen := (st_keepalive_seen t)(user := None),
       st_token := (st_token t)(user := None), st_proof_counter := (st_proof_counter t)(user := None),
       st_natt_ip := (st_natt_ip t)(user := None)\<rparr>"

section \<open>Registration and the end of a session\<close>

abbreviation low :: "client \<Rightarrow> u32" where
  "low c \<equiv> (if cl_high_id c then 0 else 1)"

definition insert_client :: "nat \<Rightarrow> client \<Rightarrow> session_tables \<Rightarrow> (nat \<times> client) option \<times> session_tables" where
  "insert_client n c t = (st_clients t (cl_user_hash c), t\<lparr>st_clients := (st_clients t)(cl_user_hash c \<mapsto> (n, c))\<rparr>)"

text \<open>The compare-and-remove of \<open>end_session\<close>: the entry goes only if it is this session's.\<close>

definition remove_client :: "nat \<Rightarrow> client \<Rightarrow> session_tables \<Rightarrow> bool \<times> session_tables" where
  "remove_client n c t =
     (case st_clients t (cl_user_hash c) of
        Some (m, _) \<Rightarrow> if m = n then (True, t\<lparr>st_clients := (st_clients t)(cl_user_hash c := None)\<rparr>) else (False, t)
      | None \<Rightarrow> (False, t))"

definition uncount_replaced :: "(nat \<times> client) option \<Rightarrow> session_tables \<Rightarrow> session_tables" where
  "uncount_replaced prev t = t\<lparr>st_lowid := st_lowid t - (case prev of Some (_, old) \<Rightarrow> low old | None \<Rightarrow> 0)\<rparr>"

definition retract_old_id :: "client \<Rightarrow> session_tables \<Rightarrow> session_tables" where
  "retract_old_id c t =
     (case st_clients t (cl_user_hash c) of
        Some (_, e) \<Rightarrow> if cl_assigned_id e \<noteq> cl_assigned_id c then unindex_client_id (cl_assigned_id c) (cl_user_hash c) t else t
      | None \<Rightarrow> t)"

text \<open>Both without anything in between. The sources of a departed user go from the file tables.\<close>

definition register_login :: "bool \<Rightarrow> bytes \<Rightarrow> u64 \<Rightarrow> nat \<Rightarrow> client \<Rightarrow> session_tables \<Rightarrow> session_tables" where
  "register_login probing token now n c t =
     (let t = index_client_id (cl_assigned_id c) (cl_user_hash c) t;
          t = login_side probing token now c t;
          (prev, t) = insert_client n c t;
          t = uncount_replaced prev t
      in t\<lparr>st_lowid := st_lowid t + low c\<rparr>)"

definition end_tables :: "nat \<Rightarrow> client \<Rightarrow> session_tables \<Rightarrow> bool \<times> session_tables" where
  "end_tables n c t =
     (let (removed, t) = remove_client n c t
      in if removed
         then let t = t\<lparr>st_lowid := st_lowid t - low c\<rparr>;
                  t = drop_side (cl_user_hash c) t
              in (True, unindex_client_id (cl_assigned_id c) (cl_user_hash c) t)
         else (False, retract_old_id c t))"

definition end_session ::
  "unicode \<Rightarrow> (file_id set \<Rightarrow> file_id list) \<Rightarrow> (file_id \<Rightarrow> u32) \<Rightarrow> nat \<Rightarrow> client \<Rightarrow> session_tables \<times> server_files \<Rightarrow>
   (session_tables \<times> server_files) option" where
  "end_session u order clock n c s =
     (let (t, files) = s; (removed, t) = end_tables n c t
      in if removed then map_option (Pair t) (remove_sources_of u order (cl_user_hash c) clock files) else Some (t, files))"

section \<open>One session, one step at a time\<close>

text \<open>Where the task of a session is: in the registration of its login, online, or in \<open>end_session\<close>.
  A login carries whether addresses are probed, the token drawn for it and the time.\<close>

datatype session_thread =
    Login bool bytes u64 client
  | Indexed bool bytes u64 client
  | Noted client
  | Replaced client "(nat \<times> client) option"
  | Uncounted client
  | Online client
  | Ending client
  | Removed client
  | Discounted client
  | Forgotten client
  | Retracted client
  | Superseded client
  | Ended

text \<open>The next access of session \<open>n\<close>; the removal of its sources, which are in other tables, follows \<open>Retracted\<close>.\<close>

fun advance :: "nat \<Rightarrow> session_thread \<Rightarrow> session_tables \<Rightarrow> session_thread \<times> session_tables" where
  "advance n (Login pr tk now c) t = (Indexed pr tk now c, index_client_id (cl_assigned_id c) (cl_user_hash c) t)"
| "advance n (Indexed pr tk now c) t = (Noted c, login_side pr tk now c t)"
| "advance n (Noted c) t = (let (prev, t) = insert_client n c t in (Replaced c prev, t))"
| "advance n (Replaced c prev) t = (Uncounted c, uncount_replaced prev t)"
| "advance n (Uncounted c) t = (Online c, t\<lparr>st_lowid := st_lowid t + low c\<rparr>)"
| "advance n (Online c) t = (Ending c, t)"
| "advance n (Ending c) t = (let (removed, t) = remove_client n c t in (if removed then Removed c else Superseded c, t))"
| "advance n (Removed c) t = (Discounted c, t\<lparr>st_lowid := st_lowid t - low c\<rparr>)"
| "advance n (Discounted c) t = (Forgotten c, drop_side (cl_user_hash c) t)"
| "advance n (Forgotten c) t = (Retracted c, unindex_client_id (cl_assigned_id c) (cl_user_hash c) t)"
| "advance n (Retracted c) t = (Ended, t)"
| "advance n (Superseded c) t = (Ended, retract_old_id c t)"
| "advance n Ended t = (Ended, t)"

text \<open>All tasks take their steps in any order, and a new connection can appear at any time.\<close>

inductive session_step :: "session_thread list \<times> session_tables \<Rightarrow> session_thread list \<times> session_tables \<Rightarrow> bool" where
  arrive: "session_step (ths, t) (ths @ [Login pr tk now c], t)"
| move: "n < length ths \<Longrightarrow> advance n (ths ! n) t = (th, t') \<Longrightarrow> session_step (ths, t) (ths[n := th], t')"

inductive_cases session_stepE [elim!]: "session_step (ths, t) s"

definition sessions_reached :: "session_thread list \<times> session_tables \<Rightarrow> bool" where
  "sessions_reached s \<longleftrightarrow> session_step\<^sup>*\<^sup>* ([], tables_empty) s"

section \<open>Who owns an entry, and the count of LowIDs\<close>

definition holds :: "session_thread \<Rightarrow> client \<Rightarrow> bool" where
  "holds th c \<longleftrightarrow> th = Uncounted c \<or> th = Online c \<or> th = Ending c \<or> (\<exists>prev. th = Replaced c prev)"

definition settled :: "session_thread \<Rightarrow> bool" where
  "settled th \<longleftrightarrow> (case th of Replaced _ _ \<Rightarrow> False | Uncounted _ \<Rightarrow> False | Removed _ \<Rightarrow> False | _ \<Rightarrow> True)"

definition owed :: "session_thread \<Rightarrow> u32" where
  "owed th = (case th of
     Replaced c prev \<Rightarrow> (case prev of Some (_, old) \<Rightarrow> low old | None \<Rightarrow> 0) - low c
   | Uncounted c \<Rightarrow> - low c
   | Removed c \<Rightarrow> low c
   | _ \<Rightarrow> 0)"

definition low_users :: "session_tables \<Rightarrow> bytes set" where
  "low_users t = {u. \<exists>n c. st_clients t u = Some (n, c) \<and> \<not> cl_high_id c}"

definition owned :: "session_thread list \<times> session_tables \<Rightarrow> bool" where
  "owned s \<longleftrightarrow> finite (dom (st_clients (snd s))) \<and>
     (\<forall>u n c. st_clients (snd s) u = Some (n, c) \<longrightarrow> n < length (fst s) \<and> holds (fst s ! n) c \<and> cl_user_hash c = u)"

definition counted :: "session_thread list \<times> session_tables \<Rightarrow> bool" where
  "counted s \<longleftrightarrow> st_lowid (snd s) = of_nat (card (low_users (snd s))) + sum_list (map owed (fst s))"

lemma side_fields [simp]:
  "st_clients (drop_side u t) = st_clients t" "st_lowid (drop_side u t) = st_lowid t" "st_ids (drop_side u t) = st_ids t"
  "st_clients (login_side pr tk now c t) = st_clients t" "st_lowid (login_side pr tk now c t) = st_lowid t"
  "st_ids (login_side pr tk now c t) = st_ids t"
  by (auto simp: drop_side_def login_side_def mark_pending_def Let_def split: option.split)

lemma index_fields [simp]:
  "st_clients (index_client_id i u t) = st_clients t" "st_lowid (index_client_id i u t) = st_lowid t"
  "st_clients (unindex_client_id i u t) = st_clients t" "st_lowid (unindex_client_id i u t) = st_lowid t"
  "st_clients (retract_old_id c t) = st_clients t" "st_lowid (retract_old_id c t) = st_lowid t"
  "st_clients (uncount_replaced prev t) = st_clients t"
  by (auto simp: index_client_id_def unindex_client_id_def retract_old_id_def uncount_replaced_def split: option.split)

lemma low_users_cong: "st_clients t' = st_clients t \<Longrightarrow> low_users t' = low_users t"
  by (simp add: low_users_def)

lemma sum_owed_update:
  "n < length ths \<Longrightarrow> sum_list (map owed (ths[n := th])) = sum_list (map owed ths) - owed (ths ! n) + owed th"
  by (induction ths arbitrary: n) (auto simp: nth_Cons algebra_simps split: nat.split)

lemma holds_simps [simp]:
  "\<not> holds (Noted c) e" "holds (Ending c) e = (e = c)" "holds (Replaced c prev) e = (e = c)" "holds (Login pr tk now c) e = False"
  by (auto simp: holds_def)

lemma ownedD:
  "owned (ths, t) \<Longrightarrow> st_clients t u = Some (n, c) \<Longrightarrow> n < length ths \<and> holds (ths ! n) c \<and> cl_user_hash c = u"
  by (simp add: owned_def)

lemma ownedI:
  assumes "finite (dom (st_clients t))"
    and "\<And>u n c. st_clients t u = Some (n, c) \<Longrightarrow> n < length ths \<and> holds (ths ! n) c \<and> cl_user_hash c = u"
  shows "owned (ths, t)"
  using assms by (simp add: owned_def)

lemma advance_quiet:
  assumes "advance n th0 t = (th, t')" "\<And>c. th0 \<noteq> Noted c" "\<And>c. th0 \<noteq> Ending c"
  shows "st_clients t' = st_clients t \<and> (\<forall>c. holds th0 c \<longrightarrow> holds th c) \<and> st_lowid t' - owed th = st_lowid t - owed th0"
  using assms by (cases th0) (auto simp: holds_def owed_def uncount_replaced_def)

lemma owned_move:
  assumes own: "owned (ths, t)" and n: "n < length ths" and adv: "advance n (ths ! n) t = (th, t')"
  shows "owned (ths[n := th], t')"
proof (rule ownedI)
  consider c where "ths ! n = Noted c" | c where "ths ! n = Ending c" | "\<And>c. ths ! n \<noteq> Noted c" "\<And>c. ths ! n \<noteq> Ending c"
    by blast
  note cases = this
  have fin: "finite (dom (st_clients t))" using own by (simp add: owned_def)
  show "finite (dom (st_clients t'))" using cases
  proof cases
    case 1
    then show ?thesis using adv fin by (auto simp: insert_client_def)
  next
    case 2
    then show ?thesis using adv fin by (auto simp: remove_client_def split: option.splits if_splits)
  next
    case 3
    then show ?thesis using advance_quiet [OF adv] fin by simp
  qed
  fix u m e
  assume e: "st_clients t' u = Some (m, e)"
  show "m < length (ths[n := th]) \<and> holds (ths[n := th] ! m) e \<and> cl_user_hash e = u" using cases
  proof cases
    case (1 c)
    then have th: "th = Replaced c (st_clients t (cl_user_hash c))" "st_clients t' = (st_clients t)(cl_user_hash c \<mapsto> (n, c))"
      using adv by (auto simp: insert_client_def)
    show ?thesis
    proof (cases "u = cl_user_hash c")
      case True
      then show ?thesis using th e n by simp
    next
      case False
      then have "m < length ths \<and> holds (ths ! m) e \<and> cl_user_hash e = u" using ownedD [OF own] th(2) e by simp
      then show ?thesis using 1 by (cases "m = n") auto
    qed
  next
    case (2 c)
    show ?thesis
    proof (cases "m = n")
      case True
      then have "st_clients t u = Some (n, e) \<and> u \<noteq> cl_user_hash c"
        using adv 2 e by (auto simp: remove_client_def split: option.splits if_splits)
      then show ?thesis using ownedD [OF own, of u n e] 2 by auto
    next
      case False
      have "st_clients t u = Some (m, e)" using adv 2 e by (auto simp: remove_client_def split: option.splits if_splits)
      then show ?thesis using ownedD [OF own, of u m e] False by simp
    qed
  next
    case 3
    then have "st_clients t u = Some (m, e)" "holds (ths ! n) e \<longrightarrow> holds th e" using advance_quiet [OF adv] e by simp_all
    then show ?thesis using ownedD [OF own, of u m e] by (cases "m = n") auto
  qed
qed

lemma low_users_insert:
  "low_users (snd (insert_client n c t)) =
   (if cl_high_id c then low_users t - {cl_user_hash c} else insert (cl_user_hash c) (low_users t))"
  by (auto simp: low_users_def insert_client_def)

lemma low_users_remove:
  "low_users (snd (remove_client n c t)) = (if fst (remove_client n c t) then low_users t - {cl_user_hash c} else low_users t)"
  by (auto simp: low_users_def remove_client_def split: option.splits)

lemma low_users_dom: "low_users t \<subseteq> dom (st_clients t)"
  by (auto simp: low_users_def)

lemma low_users_prev:
  "(cl_user_hash c \<in> low_users t) = (\<exists>n e. st_clients t (cl_user_hash c) = Some (n, e) \<and> \<not> cl_high_id e)"
  by (simp add: low_users_def)

text \<open>A card over which one element is put in or taken out, as a word.\<close>

lemma card_low:
  fixes A :: "bytes set"
  assumes "finite A"
  shows "(of_nat (card (A - {x})) :: u32) = of_nat (card A) - (if x \<in> A then 1 else 0)"
    and "(of_nat (card (insert x A)) :: u32) = of_nat (card A) - (if x \<in> A then 1 else 0) + 1"
proof -
  show "(of_nat (card (A - {x})) :: u32) = of_nat (card A) - (if x \<in> A then 1 else 0)"
    using assms by (cases "x \<in> A") (auto simp: card_Suc_Diff1 [symmetric, of A x] simp del: card_Diff_insert)
  show "(of_nat (card (insert x A)) :: u32) = of_nat (card A) - (if x \<in> A then 1 else 0) + 1"
    using assms by (cases "x \<in> A") (auto simp: insert_absorb)
qed

lemma low_count_insert:
  "finite (low_users t) \<Longrightarrow> (of_nat (card (low_users (snd (insert_client n c t)))) :: u32) =
     of_nat (card (low_users t)) - (if cl_user_hash c \<in> low_users t then 1 else 0) + low c"
  unfolding low_users_insert using card_low [of "low_users t" "cl_user_hash c"] by (cases "cl_high_id c") (simp_all only: if_True if_False simp_thms add_0_right)

lemma low_count_remove:
  "finite (low_users t) \<Longrightarrow> fst (remove_client n c t) \<Longrightarrow> (of_nat (card (low_users (snd (remove_client n c t)))) :: u32) =
     of_nat (card (low_users t)) - (if cl_user_hash c \<in> low_users t then 1 else 0)"
  unfolding low_users_remove using card_low(1) [of "low_users t" "cl_user_hash c"] by (simp only: if_True)

lemma word_balance: "a' - d' = a - d \<Longrightarrow> a' - k - d' = a - k - d" for a a' d d' k :: u32
  unfolding diff_diff_eq add.commute [of k] unfolding diff_diff_eq [symmetric] by simp

lemma counted_move:
  assumes "owned (ths, t)" "counted (ths, t)" "n < length ths" "advance n (ths ! n) t = (th, t')"
  shows "counted (ths[n := th], t')"
proof -
  have "finite (dom (st_clients t))" using assms(1) by (simp add: owned_def)
  then have fin: "finite (low_users t)" by (rule finite_subset [OF low_users_dom])
  have "st_lowid t' - of_nat (card (low_users t')) - owed th = st_lowid t - of_nat (card (low_users t)) - owed (ths ! n)"
  proof (cases "\<exists>c. ths ! n = Noted c \<or> ths ! n = Ending c")
    case False
    then have "st_clients t' = st_clients t \<and> st_lowid t' - owed th = st_lowid t - owed (ths ! n)"
      using advance_quiet [OF assms(4)] by blast
    moreover have "low_users t' = low_users t" using calculation by (intro low_users_cong) simp
    ultimately show ?thesis using word_balance by simp
  next
    case True
    then obtain c where "ths ! n = Noted c \<or> ths ! n = Ending c" by blast
    then show ?thesis
    proof
      assume th: "ths ! n = Noted c"
      obtain prev where ins: "prev = st_clients t (cl_user_hash c)" "th = Replaced c prev" "t' = snd (insert_client n c t)"
        using assms(4) th by (auto simp: insert_client_def)
      have "st_lowid t' = st_lowid t" using ins by (simp add: insert_client_def)
      moreover have "owed th = (if cl_user_hash c \<in> low_users t then 1 else 0) - low c"
        using ins(1,2) by (auto simp: owed_def low_users_prev split: option.split)
      ultimately show ?thesis using th fin by (simp add: ins(3) low_count_insert) (simp add: owed_def)
    next
      assume th: "ths ! n = Ending c"
      show ?thesis
      proof (cases "fst (remove_client n c t)")
        case False
        then show ?thesis using assms(4) th by (auto simp: owed_def remove_client_def split: option.splits if_splits)
      next
        case True
        then obtain e where e: "st_clients t (cl_user_hash c) = Some (n, e)"
          by (auto simp: remove_client_def split: option.splits if_splits)
        then have "holds (ths ! n) e" using assms(1) by (simp add: owned_def)
        then have "e = c" using th by (simp add: holds_def)
        then have "(if cl_user_hash c \<in> low_users t then 1 else 0) = low c" using e by (auto simp: low_users_prev)
        moreover have "th = Removed c" "t' = snd (remove_client n c t)" "st_lowid t' = st_lowid t"
          using assms(4) th e by (auto simp: remove_client_def)
        ultimately show ?thesis using th fin True by (simp add: low_count_remove) (simp add: owed_def)
      qed
    qed
  qed
  then show ?thesis using assms(2,3) by (simp add: counted_def sum_owed_update) (simp add: algebra_simps)
qed

lemma sessions_reached_ok: "sessions_reached s \<Longrightarrow> owned s \<and> counted s"
  unfolding sessions_reached_def
proof (induction rule: rtranclp_induct)
  case base
  then show ?case by (simp add: owned_def counted_def low_users_def tables_empty_def)
next
  case (step s s')
  obtain ths t where s: "s = (ths, t)" by (cases s)
  show ?case using step.hyps(2) step.IH unfolding s
  proof (elim session_stepE)
    fix pr tk now c
    assume ok: "owned (ths, t) \<and> counted (ths, t)" and s': "s' = (ths @ [Login pr tk now c], t)"
    have "owned (ths @ [Login pr tk now c], t)"
    proof (rule ownedI)
      show "finite (dom (st_clients t))" using ok by (simp add: owned_def)
      fix u m e
      assume "st_clients t u = Some (m, e)"
      then have "m < length ths \<and> holds (ths ! m) e \<and> cl_user_hash e = u" using ok ownedD by blast
      then show "m < length (ths @ [Login pr tk now c]) \<and> holds ((ths @ [Login pr tk now c]) ! m) e \<and> cl_user_hash e = u"
        by (simp add: nth_append)
    qed
    moreover have "counted (ths @ [Login pr tk now c], t)" using ok by (simp add: counted_def owed_def)
    ultimately show ?thesis unfolding s' by blast
  next
    fix n th t'
    assume "owned (ths, t) \<and> counted (ths, t)" "s' = (ths[n := th], t')" "n < length ths" "advance n (ths ! n) t = (th, t')"
    then show ?thesis using owned_move counted_move by auto
  qed
qed

text \<open>C21: Whatever the interleaving of logins, takeovers and cleanups, once no task is in the middle of one the
  counter of LowIDs is the number of LowID clients in the client map, and every entry of the map
  belongs to the running session of that very client.\<close>

theorem low_id_count_exact:
  assumes "sessions_reached (ths, t)" "\<forall>th\<in>set ths. settled th"
  shows "st_lowid t = of_nat (card (low_users t)) \<and>
    (\<forall>u n c. st_clients t u = Some (n, c) \<longrightarrow> n < length ths \<and> cl_user_hash c = u \<and> (ths ! n = Online c \<or> ths ! n = Ending c))"
proof (intro conjI allI impI)
  have owed: "settled th \<Longrightarrow> owed th = 0" for th by (cases th) (simp_all add: settled_def owed_def)
  have "sum_list (map owed ths) = 0" using assms(2) owed by (induction ths) simp_all
  then show "st_lowid t = of_nat (card (low_users t))" using sessions_reached_ok [OF assms(1)] by (simp add: counted_def)
  fix u n c
  assume "st_clients t u = Some (n, c)"
  then have e: "n < length ths" "holds (ths ! n) c" "cl_user_hash c = u" using sessions_reached_ok [OF assms(1)] ownedD by blast+
  then have "settled (ths ! n)" using assms(2) by simp
  then show "ths ! n = Online c \<or> ths ! n = Ending c" using e(2) by (auto simp: holds_def settled_def)
  show "n < length ths" "cl_user_hash c = u" using e by auto
qed

section \<open>Schedules\<close>

text \<open>The sessions take their steps in the order of a list.\<close>

fun schedule :: "nat list \<Rightarrow> session_thread list \<times> session_tables \<Rightarrow> session_thread list \<times> session_tables" where
  "schedule [] s = s"
| "schedule (n # ns) (ths, t) =
     (if n < length ths then let (th, t') = advance n (ths ! n) t in schedule ns (ths[n := th], t') else schedule ns (ths, t))"

lemma reached_schedule: "sessions_reached s \<Longrightarrow> sessions_reached (schedule ns s)"
proof (induction ns s rule: schedule.induct)
  case (2 n ns ths t)
  show ?case
  proof (cases "n < length ths")
    case True
    obtain th t' where a: "advance n (ths ! n) t = (th, t')" by (cases "advance n (ths ! n) t")
    have "session_step (ths, t) (ths[n := th], t')" using True a by (rule move)
    then have "sessions_reached (ths[n := th], t')" using 2(3) unfolding sessions_reached_def by (rule rtranclp.rtrancl_into_rtrancl [rotated])
    then show ?thesis using 2(1) [OF True a [symmetric]] True a by simp
  next
    case False
    then show ?thesis using 2 by simp
  qed
qed simp

lemma reached_arrivals: "sessions_reached (map (\<lambda>(pr, tk, now, c). Login pr tk now c) xs, tables_empty)"
proof (induction xs rule: rev_induct)
  case Nil
  then show ?case by (simp add: sessions_reached_def)
next
  case (snoc x xs)
  obtain pr tk now c where "x = (pr, tk, now, c)" by (cases x)
  then have "session_step (map (\<lambda>(pr, tk, now, c). Login pr tk now c) xs, tables_empty)
      (map (\<lambda>(pr, tk, now, c). Login pr tk now c) (xs @ [x]), tables_empty)" by (simp add: arrive)
  then show ?case using snoc unfolding sessions_reached_def by (rule rtranclp.rtrancl_into_rtrancl [rotated])
qed

definition sample_client :: "u32 \<Rightarrow> bool \<Rightarrow> client" where
  "sample_client i high = \<lparr>cl_user_hash = [7], cl_assigned_id = i, cl_ip = V4 i, cl_port = 4662, cl_udp_port = 0,
     cl_natt_capable = False, cl_server_flags = 0, cl_high_id = high, cl_ipv6_capable = False, cl_ipv6 = None,
     cl_tx = None, cl_last_activity_ms = 0\<rparr>"

definition two_logins :: "client \<Rightarrow> client \<Rightarrow> session_thread list \<times> session_tables" where
  "two_logins a b = (map (\<lambda>(pr, tk, now, c). Login pr tk now c) [(False, [], 0, a), (False, [], 0, b)], tables_empty)"

lemma two_logins_reached: "sessions_reached (schedule ns (two_logins a b))"
  unfolding two_logins_def by (rule reached_schedule [OF reached_arrivals])

lemmas run_simps = two_logins_def sample_client_def tables_empty_def index_client_id_def unindex_client_id_def login_side_def
  insert_client_def uncount_replaced_def remove_client_def drop_side_def retract_old_id_def wants_natt_token_def

lemma low_id_count_exact_witness:
  "st_lowid (snd (schedule [0,0,0,0,0, 1,1,1,1,1, 0,0,0] (two_logins (sample_client 5 False) (sample_client 8 False)))) =
   of_nat (card (low_users (snd (schedule [0,0,0,0,0, 1,1,1,1,1, 0,0,0] (two_logins (sample_client 5 False) (sample_client 8 False))))))"
proof -
  let ?s = "schedule [0,0,0,0,0, 1,1,1,1,1, 0,0,0] (two_logins (sample_client 5 False) (sample_client 8 False))"
  have "\<forall>th\<in>set (fst ?s). settled th" by (simp add: run_simps settled_def)
  moreover have "sessions_reached (fst ?s, snd ?s)" using two_logins_reached by simp
  ultimately show ?thesis using low_id_count_exact [of "fst ?s" "snd ?s"] by blast
qed

text \<open>A login can land between the removal of its predecessor's entry and the rest of the
  predecessor's cleanup: with the same HighID the new session is then online, but no longer found
  by its id.\<close>

lemma late_cleanup_unindexes_live:
  "\<exists>t b. sessions_reached ([Ended, Online b], t) \<and> st_clients t (cl_user_hash b) = Some (1, b) \<and>
     cl_assigned_id b \<noteq> 0 \<and> client_by_assigned_id (cl_assigned_id b) t = None"
proof -
  let ?b = "sample_client 0x51020304 True"
  let ?s = "schedule [0,0,0,0,0,0,0, 1,1,1,1,1, 0,0,0,0] (two_logins ?b ?b)"
  have "fst ?s = [Ended, Online ?b]" "st_clients (snd ?s) (cl_user_hash ?b) = Some (1, ?b)" "cl_assigned_id ?b \<noteq> 0"
      "client_by_assigned_id (cl_assigned_id ?b) (snd ?s) = None"
    by (simp_all add: run_simps client_by_assigned_id_def)
  moreover from this have "sessions_reached ([Ended, Online ?b], snd ?s)" using two_logins_reached [of _ ?b ?b] by (metis prod.collapse)
  ultimately show ?thesis by (intro exI [of _ "snd ?s"] exI [of _ ?b] conjI)
qed

text \<open>Uninterrupted, the steps of a login are \<open>register_login\<close> and those of an end the session part of \<open>end_session\<close>.\<close>

lemma schedule_append: "schedule (ns @ ms) s = schedule ms (schedule ns s)"
  by (induction ns s rule: schedule.induct) (simp_all add: Let_def split: prod.split)

lemma schedule_login:
  "n < length ths \<Longrightarrow> ths ! n = Login pr tk now c \<Longrightarrow>
   schedule [n, n, n, n, n] (ths, t) = (ths[n := Online c], register_login pr tk now n c t)"
  by (simp add: register_login_def Let_def insert_client_def)

lemma schedule_leave:
  "n < length ths \<Longrightarrow> ths ! n = Online c \<Longrightarrow> st_clients t (cl_user_hash c) = Some (n, e) \<Longrightarrow>
   schedule [n, n, n, n, n, n] (ths, t) =
   (ths[n := Ended], unindex_client_id (cl_assigned_id c) (cl_user_hash c) (drop_side (cl_user_hash c)
      (t\<lparr>st_clients := (st_clients t)(cl_user_hash c := None), st_lowid := st_lowid t - low c\<rparr>)))"
  by (simp add: remove_client_def)

lemma schedule_superseded:
  "n < length ths \<Longrightarrow> ths ! n = Online c \<Longrightarrow> \<forall>e. st_clients t (cl_user_hash c) \<noteq> Some (n, e) \<Longrightarrow>
   schedule [n, n, n] (ths, t) = (ths[n := Ended], retract_old_id c t)"
  by (auto simp: remove_client_def split: option.split)

lemma registered:
  "st_clients (register_login pr tk now n c t) = (st_clients t)(cl_user_hash c \<mapsto> (n, c))"
  "st_ids (register_login pr tk now n c t) = st_ids (index_client_id (cl_assigned_id c) (cl_user_hash c) t)"
  by (simp_all add: register_login_def Let_def insert_client_def uncount_replaced_def)

text \<open>And a session that was replaced and ends last leaves its id mapped to the user for good, with
  no two tasks in each other's way: the entry it would be compared with is gone.\<close>

lemma last_replaced_id_leaks:
  "\<exists>t (c :: client). sessions_reached ([Ended, Ended], t) \<and> (\<forall>u. st_clients t u = None) \<and> st_ids t (cl_assigned_id c) = Some (cl_user_hash c)"
proof -
  let ?a = "sample_client 5 True" and ?b = "sample_client 6 True"
  have hash: "cl_user_hash ?a = [7]" "cl_user_hash ?b = [7]" "cl_assigned_id ?a = 5" "cl_assigned_id ?b = 6"
    by (simp_all add: sample_client_def)
  define t1 where "t1 = register_login False [] 0 1 ?b (register_login False [] 0 0 ?a tables_empty)"
  have c1: "st_clients t1 = [[7] \<mapsto> (1, ?b)]" and i1: "st_ids t1 = [5 \<mapsto> [7], 6 \<mapsto> [7]]"
    by (simp_all add: t1_def registered hash tables_empty_def index_client_id_def)
  define t2 where "t2 = unindex_client_id 6 [7] (drop_side [7] (t1\<lparr>st_clients := (st_clients t1)([7] := None), st_lowid := st_lowid t1 - low ?b\<rparr>))"
  have c2: "st_clients t2 = Map.empty" and i2: "st_ids t2 5 = Some [7]"
    by (simp_all add: t2_def c1 i1 unindex_client_id_def)
  have "schedule ([0,0,0,0,0] @ [1,1,1,1,1] @ [1,1,1,1,1,1] @ [0,0,0]) (two_logins ?a ?b) = ([Ended, Ended], retract_old_id ?a t2)"
  proof -
    let ?t0 = "register_login False [] 0 0 ?a tables_empty"
    have "schedule [0,0,0,0,0] (two_logins ?a ?b) = ([Online ?a, Login False [] 0 ?b], ?t0)"
      using schedule_login [of 0 "fst (two_logins ?a ?b)" False "[]" 0 ?a tables_empty] by (simp add: two_logins_def del: schedule.simps)
    moreover have "schedule [1,1,1,1,1] ([Online ?a, Login False [] 0 ?b], ?t0) = ([Online ?a, Online ?b], t1)"
      using schedule_login [of 1 "[Online ?a, Login False [] 0 ?b]" False "[]" 0 ?b ?t0] by (simp add: t1_def del: schedule.simps)
    moreover have "schedule [1,1,1,1,1,1] ([Online ?a, Online ?b], t1) = ([Online ?a, Ended], t2)"
      using schedule_leave [of 1 "[Online ?a, Online ?b]" ?b t1] by (simp add: c1 t2_def hash del: schedule.simps)
    moreover have "schedule [0,0,0] ([Online ?a, Ended], t2) = ([Ended, Ended], retract_old_id ?a t2)"
      using schedule_superseded [of 0 "[Online ?a, Ended]" ?a t2] by (simp add: c2 del: schedule.simps)
    ultimately show ?thesis by (simp only: schedule_append)
  qed
  then have "sessions_reached ([Ended, Ended], retract_old_id ?a t2)" using two_logins_reached [of _ ?a ?b] by metis
  moreover have "retract_old_id ?a t2 = t2" by (simp add: retract_old_id_def c2)
  ultimately have "sessions_reached ([Ended, Ended], t2) \<and> (\<forall>u. st_clients t2 u = None) \<and> st_ids t2 (cl_assigned_id ?a) = Some (cl_user_hash ?a)"
    using c2 i2 hash by simp
  then show ?thesis by blast
qed

section \<open>A reconnect before the old session is cleaned up\<close>

text \<open>C23: A user who reconnects before the old connection is noticed to be dead keeps everything: when
  the old session ends after the new login, the client map, the LowID count, the IPv6 and NAT-T data and
  the published files stay as the new login left them, the new session is still found by its id,
  and an old id that differs leads nowhere for this user.\<close>

theorem reconnect_keeps_the_session:
  assumes "cl_user_hash old = cl_user_hash new" "n \<noteq> m" "cl_assigned_id new \<noteq> 0"
  shows "\<exists>t'. end_session u order clock n old (register_login pr tk now m new t, files) = Some (t', files) \<and>
    t' = (register_login pr tk now m new t)\<lparr>st_ids := st_ids t'\<rparr> \<and>
    client_by_assigned_id (cl_assigned_id new) t' = Some new \<and>
    (cl_assigned_id old \<noteq> cl_assigned_id new \<and> cl_assigned_id old \<noteq> 0 \<longrightarrow> st_ids t' (cl_assigned_id old) \<noteq> Some (cl_user_hash new)) \<and>
    (\<forall>i. i \<noteq> cl_assigned_id old \<longrightarrow> st_ids t' i = st_ids (register_login pr tk now m new t) i)"
proof -
  let ?t = "register_login pr tk now m new t"
  let ?t' = "retract_old_id old ?t"
  have e: "st_clients ?t (cl_user_hash old) = Some (m, new)" using assms(1) by (simp add: registered)
  have "remove_client n old ?t = (False, ?t)" using e assms(2) by (simp add: remove_client_def)
  then have ends: "end_session u order clock n old (?t, files) = Some (?t', files)" by (simp add: end_session_def end_tables_def)
  have t': "?t' = (if cl_assigned_id new \<noteq> cl_assigned_id old then unindex_client_id (cl_assigned_id old) (cl_user_hash new) ?t else ?t)"
    using e assms(1) by (simp add: retract_old_id_def)
  have new_id: "st_ids ?t (cl_assigned_id new) = Some (cl_user_hash new)" using assms(3) by (simp add: registered index_client_id_def)
  have live: "client_by_assigned_id (cl_assigned_id new) ?t' = Some new"
  proof (cases "cl_assigned_id new = cl_assigned_id old")
    case True
    then show ?thesis using new_id e assms(1) by (simp add: t' client_by_assigned_id_def)
  next
    case False
    then show ?thesis using new_id e assms(1) by (simp add: t' client_by_assigned_id_def unindex_client_id_def)
  qed
  show ?thesis
    by (intro exI [of _ ?t'] conjI ends live) (simp_all add: t' unindex_client_id_def assms(1))
qed

lemma reconnect_keeps_the_session_witness:
  "client_by_assigned_id 8 (fst (the (end_session ascii_tables sorted_list_of_set (\<lambda>_. 0) 0 (sample_client 5 False)
     (register_login False [] 0 1 (sample_client 8 False) tables_empty, files_new False)))) = Some (sample_client 8 False)"
proof -
  let ?old = "sample_client 5 False" and ?new = "sample_client 8 False"
  have "cl_user_hash ?old = cl_user_hash ?new" "(0::nat) \<noteq> 1" "cl_assigned_id ?new \<noteq> 0" by (simp_all add: sample_client_def)
  then obtain t' where "end_session ascii_tables sorted_list_of_set (\<lambda>_. 0) 0 ?old (register_login False [] 0 1 ?new tables_empty, files_new False) = Some (t', files_new False)"
      "client_by_assigned_id (cl_assigned_id ?new) t' = Some ?new"
    using reconnect_keeps_the_session by blast
  then show ?thesis by (simp add: sample_client_def)
qed

end
