(* ===== verification/Natt_Keepalive.thy ===== *)
theory Natt_Keepalive
  imports Session_Life
begin

text \<open>
  The NAT-T keepalive 0x9F (\<open>src/server/natt_proof.rs\<close>, the handler in \<open>src/server/udp.rs\<close> and the
  endpoint functions of \<open>src/server/holepunch.rs\<close>): the proof of a session's token, what a datagram may
  change of a session, and the UDP endpoint peers are told. SHA-256 is the parameter
  \<open>sha\<close>, of which only the length of the digest is used.
\<close>

section \<open>The proof\<close>

definition PROOF_LEN :: nat where "PROOF_LEN = 36"

definition hmac_sha256 :: "(bytes \<Rightarrow> bytes) \<Rightarrow> bytes \<Rightarrow> bytes \<Rightarrow> bytes" where
  "hmac_sha256 sha key msg =
     (let k = (if length key > 64 then sha key @ replicate 32 0 else key @ replicate (64 - length key) 0);
          ipad = map (\<lambda>b. 0x36 XOR b) k;
          opad = map (\<lambda>b. 0x5C XOR b) k
      in sha (opad @ sha (ipad @ msg)))"

definition mac :: "(bytes \<Rightarrow> bytes) \<Rightarrow> bytes \<Rightarrow> bytes \<Rightarrow> u32 \<Rightarrow> bytes" where
  "mac sha token user counter = take 16 (hmac_sha256 sha token (user @ to_le 4 (unat counter)))"

datatype verdict = Proven u32 | Replay | Bad

definition diff_bytes :: "bytes \<Rightarrow> bytes \<Rightarrow> u8" where
  "diff_bytes xs ys = fold (\<lambda>(a, b) d. d OR (a XOR b)) (zip xs ys) 0"

definition proof_counter :: "bytes \<Rightarrow> u32" where
  "proof_counter payload = of_nat (from_le (take 4 (drop 16 payload)))"

definition check_proof :: "(bytes \<Rightarrow> bytes) \<Rightarrow> bytes \<Rightarrow> bytes option \<Rightarrow> u32 \<Rightarrow> verdict" where
  "check_proof sha payload token last_counter =
     (if length payload \<noteq> PROOF_LEN then Bad
      else case token of
             None \<Rightarrow> Bad
           | Some token \<Rightarrow>
               let user = take 16 payload; counter = proof_counter payload; wanted = mac sha token user counter
               in if diff_bytes wanted (take 16 (drop 20 payload)) \<noteq> 0 then Bad
                  else if counter \<le> last_counter then Replay
                  else Proven counter)"

section \<open>The keepalive datagram\<close>

text \<open>\<open>extension\<close>: the server offers the hole punch extension; \<open>obf\<close>: the datagram was obfuscated.
  The answer is the counter bumped and whether the datagram was taken.\<close>

definition natt_keepalive ::
  "(bytes \<Rightarrow> bytes) \<Rightarrow> bool \<Rightarrow> u64 \<Rightarrow> bool \<Rightarrow> ip_addr \<Rightarrow> u16 \<Rightarrow> bytes \<Rightarrow> session_tables \<Rightarrow> string \<times> bool \<times> session_tables" where
  "natt_keepalive sha extension now obf ip port payload t =
     (if length payload < 16 then ('''', False, t)
      else
        let user = take 16 payload;
            (kind, matched, t) =
              (case st_clients t user of
                 None \<Rightarrow> (''natt_9f_unknown_hash'', False, t)
               | Some (n, h) \<Rightarrow>
                   let same_ip = (canon_ip (cl_ip h) = canon_ip ip);
                       verd = (if length payload = PROOF_LEN
                               then Some (check_proof sha payload (st_token t user)
                                            (case st_proof_counter t user of Some c \<Rightarrow> c | None \<Rightarrow> 0))
                               else None);
                       token_ok = (case verd of Some (Proven _) \<Rightarrow> True | _ \<Rightarrow> False);
                       token_bad = (verd \<noteq> None \<and> \<not> token_ok);
                       sent_obfuscated = (st_keepalive_seen t user = Some True);
                       plain_refused = (\<not> obf \<and> sent_obfuscated \<and> \<not> token_ok \<and> extension);
                       accepted = (\<not> token_bad \<and> (same_ip \<or> token_ok));
                       kind = (if token_bad then (if verd = Some Replay then ''natt_9f_proof_replay'' else ''natt_9f_proof_bad'')
                               else if verd \<noteq> None \<and> \<not> same_ip then ''natt_9f_proof_other_ip''
                               else if \<not> same_ip then ''natt_9f_wrong_ip''
                               else if plain_refused then ''natt_9f_plain_ignored''
                               else if obf then ''natt_9f_obfuscated'' else ''natt_9f_plain'');
                       (h, t) =
                         (if accepted \<and> \<not> plain_refused
                          then ((if cl_udp_port h = 0 then h\<lparr>cl_udp_port := port\<rparr> else h),
                                t\<lparr>st_proof_counter := (case verd of Some (Proven c) \<Rightarrow> (st_proof_counter t)(user \<mapsto> c)
                                                                 | _ \<Rightarrow> st_proof_counter t),
                                  st_natt_ip := (st_natt_ip t)(user := if same_ip then None else Some (canon_ip ip)),
                                  st_natt_ports := (st_natt_ports t)(user \<mapsto> (port, now)),
                                  st_keepalive_seen := (st_keepalive_seen t)(user \<mapsto> sent_obfuscated \<or> obf)\<rparr>)
                          else (h, t))
                   in (kind, accepted \<and> \<not> plain_refused,
                       t\<lparr>st_clients := (st_clients t)(user \<mapsto> (n, touch_activity now h))\<rparr>))
        in (kind, matched,
            case ip of V4 a \<Rightarrow> t\<lparr>st_observed_ports := (st_observed_ports t)(a \<mapsto> (port, now))\<rparr> | V6 _ \<Rightarrow> t))"

section \<open>The endpoint told to peers\<close>

definition OBSERVED_UDP_FRESH :: u64 where "OBSERVED_UDP_FRESH = 600000"

definition elapsed :: "u64 \<Rightarrow> u64 \<Rightarrow> u64" where
  "elapsed now at = (if at \<le> now then now - at else 0)"

definition natt_ip :: "session_tables \<Rightarrow> bytes \<Rightarrow> ip_addr \<Rightarrow> ip_addr" where
  "natt_ip t user session_ip = (case st_natt_ip t user of Some a \<Rightarrow> a | None \<Rightarrow> session_ip)"

text \<open>\<open>conns\<close> counts the connections from an address.\<close>

definition observed_udp_port :: "(ip_addr \<rightharpoonup> nat) \<Rightarrow> u64 \<Rightarrow> session_tables \<Rightarrow> bytes \<Rightarrow> ip_addr \<Rightarrow> u16 \<Rightarrow> u16" where
  "observed_udp_port conns now t user ip announced =
     (let shared =
        (case ip of
           V4 v4 \<Rightarrow>
             if (case conns ip of None \<Rightarrow> True | Some n \<Rightarrow> n \<le> 1)
             then (case st_observed_ports t v4 of
                     Some (port, seen) \<Rightarrow> if port \<noteq> 0 \<and> elapsed now seen < OBSERVED_UDP_FRESH then port else announced
                   | None \<Rightarrow> announced)
             else announced
         | V6 _ \<Rightarrow> announced)
      in case st_natt_ports t user of
           Some (port, seen) \<Rightarrow> if port \<noteq> 0 \<and> elapsed now seen < OBSERVED_UDP_FRESH then port else shared
         | None \<Rightarrow> shared)"

definition session_v4 :: "ip_addr \<Rightarrow> u32 option" where
  "session_v4 ip = (case ip of V4 a \<Rightarrow> Some a | V6 a \<Rightarrow> to_ipv4_mapped a)"

definition own_udp_endpoint :: "u64 \<Rightarrow> session_tables \<Rightarrow> bytes \<Rightarrow> ip_addr \<Rightarrow> (u32 \<times> u16) option" where
  "own_udp_endpoint now t user ip =
     (case st_natt_ports t user of
        None \<Rightarrow> None
      | Some (port, seen) \<Rightarrow>
          if port = 0 \<or> elapsed now seen \<ge> OBSERVED_UDP_FRESH then None
          else map_option (\<lambda>a. (a, port)) (session_v4 ip))"

section \<open>The byte comparison\<close>

lemma xor_zero: "a XOR b = 0 \<longleftrightarrow> a = b" for a b :: u8
  by (metis xor.assoc xor.left_neutral xor.right_neutral xor_self_eq)

lemma fold_or_zero: "fold (\<lambda>(a, b) d. d OR (a XOR b)) ps d = (0 :: u8) \<longleftrightarrow> d = 0 \<and> (\<forall>(a, b)\<in>set ps. a = b)"
proof (induction ps arbitrary: d)
  case (Cons p ps)
  obtain a b where "p = (a, b)" by (cases p)
  moreover have "(d OR (a XOR b) = 0) = (d = 0 \<and> a = b)" by (simp add: or_eq_0_iff xor_zero)
  ultimately show ?case using Cons.IH by auto
qed simp

lemma diff_bytes_eq: "length xs = length ys \<Longrightarrow> diff_bytes xs ys = 0 \<longleftrightarrow> xs = ys"
  unfolding diff_bytes_def fold_or_zero
  by (induction xs ys rule: list_induct2) auto

section \<open>What a datagram can change\<close>

text \<open>The NAT-T data of a user: where its UDP is, and what its keepalives have shown.\<close>

definition natt_data :: "session_tables \<Rightarrow> bytes \<Rightarrow> (u16 \<times> u64) option \<times> ip_addr option \<times> u32 option \<times> bool option" where
  "natt_data t user = (st_natt_ports t user, st_natt_ip t user, st_proof_counter t user, st_keepalive_seen t user)"

definition last_counter :: "session_tables \<Rightarrow> bytes \<Rightarrow> u32" where
  "last_counter t user = (case st_proof_counter t user of Some c \<Rightarrow> c | None \<Rightarrow> 0)"

text \<open>A payload that carries the proof of the session's token.\<close>

definition proves :: "(bytes \<Rightarrow> bytes) \<Rightarrow> session_tables \<Rightarrow> bytes \<Rightarrow> bool" where
  "proves sha t payload \<longleftrightarrow>
     (\<exists>token. st_token t (take 16 payload) = Some token \<and>
        payload = take 16 payload @ to_le 4 (unat (proof_counter payload)) @ mac sha token (take 16 payload) (proof_counter payload))"

abbreviation kept :: "string \<times> bool \<times> session_tables \<Rightarrow> session_tables" where
  "kept r \<equiv> snd (snd r)"

abbreviation taken :: "string \<times> bool \<times> session_tables \<Rightarrow> bool" where
  "taken r \<equiv> fst (snd r)"

lemma to_le_from_le: "length bs = k \<Longrightarrow> to_le k (from_le bs) = bs"
proof (induction bs arbitrary: k)
  case (Cons b bs)
  have byte: "unat b < 256" using unsigned_less [of b] by simp
  have "(unat b + 256 * from_le bs) div 256 = from_le bs" "(unat b + 256 * from_le bs) mod 256 = unat b"
    using byte by simp_all
  then show ?case using Cons by (cases k) simp_all
qed simp

lemma proof_counter_bytes:
  assumes "length payload = 36"
  shows "to_le 4 (unat (proof_counter payload)) = take 4 (drop 16 payload)"
proof -
  let ?b = "take 4 (drop 16 payload)"
  have "length ?b = 4" using assms by simp
  then have "from_le ?b < 2 ^ 32" using from_le_bound [of ?b] by simp
  then have "unat (proof_counter payload) = from_le ?b" by (simp add: proof_counter_def unat_of_nat)
  then show ?thesis using to_le_from_le [OF \<open>length ?b = 4\<close>] by simp
qed

lemma length_mac: "\<forall>m. length (sha m) = 32 \<Longrightarrow> length (mac sha token user c) = 16"
  by (simp add: mac_def hmac_sha256_def Let_def)

lemma payload_split: "length p = 36 \<Longrightarrow> p = take 16 p @ take 4 (drop 16 p) @ take 16 (drop 20 p)"
  using append_take_drop_id [of 16 p] append_take_drop_id [of 4 "drop 16 p"] by simp

lemma check_proof_Proven:
  assumes sha: "\<forall>m. length (sha m) = 32" and "check_proof sha payload (st_token t (take 16 payload)) prev = Proven c"
  shows "proves sha t payload \<and> length payload = 36 \<and> c = proof_counter payload \<and> prev < c"
proof -
  obtain token where tk: "st_token t (take 16 payload) = Some token" and len: "length payload = 36"
    and c: "c = proof_counter payload" "\<not> c \<le> prev"
    and d: "diff_bytes (mac sha token (take 16 payload) c) (take 16 (drop 20 payload)) = 0"
    using assms(2) by (auto simp: check_proof_def PROOF_LEN_def Let_def split: option.splits if_splits)
  have "mac sha token (take 16 payload) c = take 16 (drop 20 payload)"
    using d diff_bytes_eq [of "mac sha token (take 16 payload) c"] len length_mac [OF sha] by simp
  then have "payload = take 16 payload @ to_le 4 (unat (proof_counter payload)) @ mac sha token (take 16 payload) (proof_counter payload)"
    using payload_split [OF len] proof_counter_bytes [OF len] c by simp
  then show ?thesis using tk len c unfolding proves_def by (simp add: not_le)
qed

text \<open>The cases of the handler.\<close>

lemma keepalive_short: "length payload < 16 \<Longrightarrow> natt_keepalive sha ex now obf ip port payload t = ('''', False, t)"
  by (simp add: natt_keepalive_def)

lemma keepalive_cases:
  fixes r :: "string \<times> bool \<times> session_tables"
  assumes "r = natt_keepalive sha ex now obf ip port payload t"
  obtains (unmoved) "\<not> taken r" "\<And>u. natt_data (kept r) u = natt_data t u"
    | (own_ip) n h where "taken r" "st_clients t (take 16 payload) = Some (n, h)" "canon_ip (cl_ip h) = canon_ip ip"
        "length payload \<noteq> 36" "st_proof_counter (kept r) = st_proof_counter t"
        "natt_data (kept r) (take 16 payload) = (Some (port, now), None, st_proof_counter t (take 16 payload),
           Some (st_keepalive_seen t (take 16 payload) = Some True \<or> obf))"
    | (proven) n h c where "taken r" "st_clients t (take 16 payload) = Some (n, h)" "length payload = 36"
        "check_proof sha payload (st_token t (take 16 payload)) (last_counter t (take 16 payload)) = Proven c"
        "natt_data (kept r) (take 16 payload) =
           (Some (port, now), if canon_ip (cl_ip h) = canon_ip ip then None else Some (canon_ip ip), Some c,
            Some (st_keepalive_seen t (take 16 payload) = Some True \<or> obf))"
proof -
  let ?u = "take 16 payload"
  have data: "natt_data (case ip of V4 a \<Rightarrow> t'\<lparr>st_observed_ports := (st_observed_ports t')(a \<mapsto> (port, now))\<rparr> | V6 x \<Rightarrow> t') = natt_data t'" for t'
    by (simp add: natt_data_def fun_eq_iff split: ip_addr.split)
  show thesis
  proof (cases "st_clients t ?u")
    case None
    then show thesis using assms by (intro unmoved) (simp_all add: natt_keepalive_def Let_def data)
  next
    case (Some nh)
    obtain n h where h: "st_clients t ?u = Some (n, h)" using Some by (cases nh) simp
    show thesis
    proof (cases "taken r")
      case False
      then show thesis using assms h
        by (intro unmoved) (auto simp: natt_keepalive_def Let_def data PROOF_LEN_def split: if_splits, simp_all add: natt_data_def)
    next
      case True
      show thesis
      proof (cases "length payload = 36")
        case len: True
        obtain c where c: "check_proof sha payload (st_token t ?u) (last_counter t ?u) = Proven c"
          using True assms h len
          by (auto simp: natt_keepalive_def Let_def PROOF_LEN_def last_counter_def split: if_splits verdict.splits)
        show thesis
          by (rule proven [OF True h len c])
             (use c h len in \<open>simp add: assms natt_keepalive_def Let_def PROOF_LEN_def last_counter_def data, simp add: natt_data_def\<close>)
      next
        case len: False
        have same: "canon_ip (cl_ip h) = canon_ip ip" using True assms h len
          by (auto simp: natt_keepalive_def Let_def PROOF_LEN_def split: if_splits)
        have acc: "16 \<le> length payload" "\<not> (\<not> obf \<and> st_keepalive_seen t ?u = Some True \<and> ex)" using True assms h len
          by (auto simp: natt_keepalive_def Let_def PROOF_LEN_def split: if_splits)
        show thesis
          by (rule own_ip [OF True h same len])
             (use acc h len same in \<open>simp_all add: assms natt_keepalive_def Let_def PROOF_LEN_def data split: ip_addr.split, simp add: natt_data_def\<close>)
      qed
    qed
  qed
qed

lemma keepalive_others:
  "u \<noteq> take 16 payload \<Longrightarrow> natt_data (kept (natt_keepalive sha ex now obf ip port payload t)) u = natt_data t u"
  by (simp add: natt_keepalive_def Let_def natt_data_def split: option.split ip_addr.split verdict.split)

lemma keepalive_token [simp]: "st_token (kept (natt_keepalive sha ex now obf ip port payload t)) = st_token t"
  by (simp add: natt_keepalive_def Let_def split: option.split ip_addr.split verdict.split)

text \<open>C25: A datagram moves where peers look for a client's UDP only if it comes from the address of that
  client's session, or proves the session's token with a counter above the last one accepted; it
  never touches another user.\<close>

theorem natt_data_needs_the_session:
  assumes sha: "\<forall>m. length (sha m) = 32"
    and moved: "natt_data (kept (natt_keepalive sha extension now obf ip port payload t)) user \<noteq> natt_data t user"
  shows "user = take 16 payload \<and>
    (\<exists>n h. st_clients t user = Some (n, h) \<and>
       (canon_ip (cl_ip h) = canon_ip ip \<and> length payload \<noteq> 36 \<or>
        proves sha t payload \<and> last_counter t user < proof_counter payload))"
proof -
  have u: "user = take 16 payload" using moved keepalive_others by metis
  obtain r where r: "r = natt_keepalive sha extension now obf ip port payload t" by blast
  from r show ?thesis
  proof (cases rule: keepalive_cases)
    case unmoved
    then show ?thesis using moved r by simp
  next
    case (own_ip n h)
    then show ?thesis using u by blast
  next
    case (proven n h c)
    then show ?thesis using u check_proof_Proven [OF sha proven(4)] by auto
  qed
qed

subsection \<open>Replays\<close>

text \<open>A datagram as it arrives: time, obfuscated or not, address, port, payload.\<close>

type_synonym datagram = "u64 \<times> bool \<times> ip_addr \<times> u16 \<times> bytes"

fun receive :: "(bytes \<Rightarrow> bytes) \<Rightarrow> bool \<Rightarrow> datagram \<Rightarrow> session_tables \<Rightarrow> session_tables" where
  "receive sha ex (now, obf, ip, port, payload) t = kept (natt_keepalive sha ex now obf ip port payload t)"

lemma counter_grows:
  assumes sha: "\<forall>m. length (sha m) = 32"
  shows "last_counter t user \<le> last_counter (kept (natt_keepalive sha ex now obf ip port payload t)) user"
proof (cases "user = take 16 payload")
  case False
  then show ?thesis using keepalive_others [OF False] by (simp add: natt_data_def last_counter_def)
next
  case u: True
  obtain r where r: "r = natt_keepalive sha ex now obf ip port payload t" by blast
  from r have "last_counter t user \<le> last_counter (kept r) user"
  proof (cases rule: keepalive_cases)
    case unmoved
    then show ?thesis by (simp add: natt_data_def last_counter_def)
  next
    case (own_ip n h)
    then show ?thesis by (simp add: last_counter_def)
  next
    case (proven n h c)
    then have "last_counter (kept r) user = c" using u by (simp add: natt_data_def last_counter_def)
    moreover have "last_counter t user < c" using check_proof_Proven [OF sha proven(4)] u by auto
    ultimately show ?thesis by simp
  qed
  then show ?thesis using r by simp
qed

lemma counter_grows_run:
  assumes sha: "\<forall>m. length (sha m) = 32"
  shows "last_counter t user \<le> last_counter (fold (receive sha ex) ds t) user"
proof (induction ds arbitrary: t)
  case (Cons d ds)
  have "last_counter t user \<le> last_counter (receive sha ex d t) user" using counter_grows [OF sha] by (cases d) simp
  then show ?case using Cons.IH [of "receive sha ex d t"] by simp
qed simp

text \<open>A proof is good once: after it has been taken, and whatever other datagrams came in between, the
  same payload from any address is taken no more and moves nothing.\<close>

theorem proof_is_good_once:
  assumes sha: "\<forall>m. length (sha m) = 32"
    and first: "taken (natt_keepalive sha extension now obf ip port payload t)" "length payload = 36"
    and later: "t' = fold (receive sha extension) ds (kept (natt_keepalive sha extension now obf ip port payload t))"
  shows "\<not> taken (natt_keepalive sha extension now' obf' ip' port' payload t') \<and>
    (\<forall>user. natt_data (kept (natt_keepalive sha extension now' obf' ip' port' payload t')) user = natt_data t' user)"
proof -
  let ?u = "take 16 payload"
  obtain r where r: "r = natt_keepalive sha extension now obf ip port payload t" by blast
  obtain r' where r': "r' = natt_keepalive sha extension now' obf' ip' port' payload t'" by blast
  from r have "proof_counter payload \<le> last_counter (kept r) ?u"
  proof (cases rule: keepalive_cases)
    case (proven n h c)
    then show ?thesis using check_proof_Proven [OF sha proven(4)] by (simp add: natt_data_def last_counter_def)
  qed (use first r in simp_all)
  then have old: "proof_counter payload \<le> last_counter t' ?u"
    using counter_grows_run [OF sha, of "kept r" ?u extension ds] later r by simp
  from r' have "\<not> taken r' \<and> (\<forall>user. natt_data (kept r') user = natt_data t' user)"
  proof (cases rule: keepalive_cases)
    case (proven n h c)
    then have "last_counter t' ?u < proof_counter payload" using check_proof_Proven [OF sha proven(4)] by auto
    then show ?thesis using old by simp
  qed (use first in simp_all)
  then show ?thesis using r' by simp
qed

subsection \<open>A client that proves its token\<close>

text \<open>What a client sends.\<close>

definition proof_payload :: "(bytes \<Rightarrow> bytes) \<Rightarrow> bytes \<Rightarrow> bytes \<Rightarrow> u32 \<Rightarrow> bytes" where
  "proof_payload sha token user counter = user @ to_le 4 (unat counter) @ mac sha token user counter"

lemma from_le_u32: "from_le (to_le 4 (unat c)) = unat c" for c :: u32
  using unsigned_less [of c] by (intro from_le_to_le) simp

lemma proof_payload_parts:
  assumes "\<forall>m. length (sha m) = 32" "length user = 16"
  shows "length (proof_payload sha token user c) = 36" "take 16 (proof_payload sha token user c) = user"
    "proof_counter (proof_payload sha token user c) = c" "drop 20 (proof_payload sha token user c) = mac sha token user c"
  using assms length_mac [OF assms(1)] by (simp_all add: proof_payload_def proof_counter_def from_le_u32)

text \<open>C39: A client behind any address that proves its token with a higher counter is taken, and for ten minutes
  peers are told the address and port it was seen from.\<close>

theorem genuine_proof_is_taken:
  assumes sha: "\<forall>m. length (sha m) = 32" and user: "length user = 16"
    and session: "st_clients t user = Some (n, h)" "st_token t user = Some token" "last_counter t user < counter"
    and port: "port \<noteq> 0" and fresh: "now \<le> later" "later - now < 600000"
    and t': "t' = kept (natt_keepalive sha extension now obf ip port (proof_payload sha token user counter) t)"
  shows "taken (natt_keepalive sha extension now obf ip port (proof_payload sha token user counter) t) \<and>
    observed_udp_port conns later t' user session_ip announced = port \<and>
    natt_ip t' user (canon_ip (cl_ip h)) = canon_ip ip \<and> last_counter t' user = counter"
proof -
  let ?p = "proof_payload sha token user counter"
  note parts = proof_payload_parts [OF sha user, of token counter]
  have "diff_bytes (mac sha token user counter) (mac sha token user counter) = 0" by (simp add: diff_bytes_eq)
  then have ok: "check_proof sha ?p (st_token t (take 16 ?p)) (last_counter t (take 16 ?p)) = Proven counter"
    using session(2,3) parts length_mac [OF sha, of token user counter] by (simp add: check_proof_def PROOF_LEN_def not_le)
  obtain r where r: "r = natt_keepalive sha extension now obf ip port ?p t" by blast
  have taken: "taken r" using session(1) ok parts
    by (simp add: r natt_keepalive_def Let_def PROOF_LEN_def last_counter_def split: ip_addr.split)
  from r show ?thesis
  proof (cases rule: keepalive_cases)
    case (proven m g c)
    then have "g = h" "c = counter" using session(1) parts(2) ok by simp_all
    then have "st_natt_ports t' user = Some (port, now)" "st_natt_ip t' user = (if canon_ip (cl_ip h) = canon_ip ip then None else Some (canon_ip ip))"
        "st_proof_counter t' user = Some counter"
      using proven(5) parts(2) t' r by (simp_all add: natt_data_def)
    then show ?thesis using taken r port fresh
      by (simp add: observed_udp_port_def Let_def elapsed_def OBSERVED_UDP_FRESH_def natt_ip_def last_counter_def)
  qed (use taken parts in simp_all)
qed

subsection \<open>Samples\<close>

text \<open>A session from 5.6.7.8 with a token, and a hash function of the right length.\<close>

definition sample_sha :: "bytes \<Rightarrow> bytes" where "sample_sha m = replicate 32 1"

definition sample_user :: bytes where "sample_user = replicate 16 7"

definition sample_session :: session_tables where
  "sample_session = tables_empty\<lparr>st_clients := [sample_user \<mapsto> (0, (sample_client 5 False)\<lparr>cl_user_hash := sample_user, cl_ip := V4 0x05060708\<rparr>)],
     st_token := [sample_user \<mapsto> replicate 16 9]\<rparr>"

lemma sample_sha: "\<forall>m. length (sample_sha m) = 32"
  by (simp add: sample_sha_def)

lemma sample_facts:
  "length sample_user = 16" "take 16 sample_user = sample_user" "last_counter sample_session sample_user = 0"
  "st_token sample_session sample_user = Some (replicate 16 9)"
  "st_clients sample_session sample_user = Some (0, (sample_client 5 False)\<lparr>cl_user_hash := sample_user, cl_ip := V4 0x05060708\<rparr>)"
  "st_keepalive_seen sample_session sample_user = None"
  by (simp_all add: sample_user_def sample_session_def tables_empty_def last_counter_def)

lemma natt_data_needs_the_session_witness:
  "take 16 sample_user = sample_user \<and>
   natt_data (kept (natt_keepalive sample_sha True 1000 False (V4 0x05060708) 40001 sample_user sample_session)) sample_user \<noteq>
   natt_data sample_session sample_user"
proof -
  let ?r = "natt_keepalive sample_sha True 1000 False (V4 0x05060708) 40001 sample_user sample_session"
  have "st_natt_ports (kept ?r) sample_user = Some (40001, 1000)" "st_natt_ports sample_session sample_user = None"
    using sample_facts by (simp_all add: natt_keepalive_def Let_def PROOF_LEN_def canon_ip_def)
      (simp_all add: sample_session_def tables_empty_def)
  then have "natt_data (kept ?r) sample_user \<noteq> natt_data sample_session sample_user" by (simp add: natt_data_def)
  then show ?thesis using natt_data_needs_the_session [OF sample_sha] by metis
qed

lemma genuine_proof_is_taken_witness:
  "taken (natt_keepalive sample_sha True 1000 False (V4 0x0B0C0D0E) 40001 (proof_payload sample_sha (replicate 16 9) sample_user 1) sample_session) \<and>
   observed_udp_port (\<lambda>_. None) 500000
     (kept (natt_keepalive sample_sha True 1000 False (V4 0x0B0C0D0E) 40001 (proof_payload sample_sha (replicate 16 9) sample_user 1) sample_session))
     sample_user (V4 0x05060708) 4672 = 40001"
proof -
  have "last_counter sample_session sample_user < 1" by (simp add: sample_facts)
  from genuine_proof_is_taken [OF sample_sha sample_facts(1,5,4) this, of 40001 1000 500000] show ?thesis
    by (simp add: word_le_nat_alt word_less_nat_alt)
qed

text \<open>The proof of a session, then one of a later counter, then the first again.\<close>

lemma proof_is_good_once_witness:
  "\<not> taken (natt_keepalive sample_sha True 3000 True (V4 0x05060708) 40003 (proof_payload sample_sha (replicate 16 9) sample_user 1)
       (fold (receive sample_sha True) [(2000, False, V4 0x0B0C0D0E, 40002, proof_payload sample_sha (replicate 16 9) sample_user 2)]
          (kept (natt_keepalive sample_sha True 1000 False (V4 0x0B0C0D0E) 40001 (proof_payload sample_sha (replicate 16 9) sample_user 1) sample_session))))"
proof -
  let ?p = "proof_payload sample_sha (replicate 16 9) sample_user 1"
  note parts = proof_payload_parts [OF sample_sha sample_facts(1), of "replicate 16 9" 1]
  have "diff_bytes (mac sample_sha (replicate 16 9) sample_user 1) (mac sample_sha (replicate 16 9) sample_user 1) = 0"
    by (simp add: diff_bytes_eq)
  then have "check_proof sample_sha ?p (Some (replicate 16 9)) 0 = Proven 1"
    using parts length_mac [OF sample_sha, of "replicate 16 9" sample_user 1] by (simp add: check_proof_def PROOF_LEN_def)
  then have "taken (natt_keepalive sample_sha True 1000 False (V4 0x0B0C0D0E) 40001 ?p sample_session)"
    using sample_facts(3,4,5) parts
    by (simp add: natt_keepalive_def Let_def PROOF_LEN_def last_counter_def split: option.splits)
  from proof_is_good_once [OF sample_sha this parts(1) refl] show ?thesis by blast
qed

section \<open>A takeover keeps the old mapping\<close>

text \<open>\<open>end_session\<close> drops the port of a departed session so that a reconnect from another address is not
  handed out with it. A login that replaces a live session does not: until its own first keepalive,
  the new session from another address is announced with the port the old one's NAT had opened.\<close>

lemma takeover_keeps_the_old_port:
  "let t = kept (natt_keepalive sample_sha True 1000 False (V4 0x05060708) 40001 sample_user sample_session);
       new = (sample_client 6 False)\<lparr>cl_user_hash := sample_user, cl_ip := V4 0x0B0C0D0E, cl_udp_port := 4672\<rparr>;
       t' = register_login False [] 2000 1 new t
   in natt_ip t' sample_user (cl_ip new) = V4 0x0B0C0D0E \<and>
      observed_udp_port (\<lambda>_. None) 3000 t' sample_user (cl_ip new) (cl_udp_port new) = 40001"
proof -
  let ?t = "kept (natt_keepalive sample_sha True 1000 False (V4 0x05060708) 40001 sample_user sample_session)"
  have port: "st_natt_ports ?t sample_user = Some (40001, 1000)"
    using sample_facts by (simp add: natt_keepalive_def Let_def PROOF_LEN_def canon_ip_def)
  have "st_natt_ports (register_login False [] 2000 1 c t) = st_natt_ports t" "st_natt_ip (register_login False [] 2000 1 c t) (cl_user_hash c) = None" for c t
    by (simp_all add: register_login_def Let_def insert_client_def uncount_replaced_def login_side_def index_client_id_def split: option.split)
  note reg = this
  define new where "new = (sample_client 6 False)\<lparr>cl_user_hash := sample_user, cl_ip := V4 0x0B0C0D0E, cl_udp_port := 4672\<rparr>"
  define t' where "t' = register_login False [] 2000 1 new ?t"
  have "cl_user_hash new = sample_user" "cl_ip new = V4 0x0B0C0D0E" by (simp_all add: new_def)
  then have "st_natt_ports t' sample_user = Some (40001, 1000)" "st_natt_ip t' sample_user = None" using port reg [of new ?t] by (simp_all add: t'_def)
  then have "natt_ip t' sample_user (cl_ip new) = V4 0x0B0C0D0E"
      "observed_udp_port (\<lambda>_. None) 3000 t' sample_user (cl_ip new) (cl_udp_port new) = 40001"
    using \<open>cl_ip new = _\<close>
    by (simp_all add: observed_udp_port_def natt_ip_def elapsed_def OBSERVED_UDP_FRESH_def word_le_nat_alt word_less_nat_alt)
  then show ?thesis unfolding Let_def t'_def new_def by blast
qed

end
