(* ===== verification/Ipv6_Probe.thy ===== *)
theory Ipv6_Probe
  imports Session_Life
begin

text \<open>
  The dial-back of a client's IPv6 address (\<open>src/server/ipv6_probe.rs\<close>, with \<open>apply_ipv6_update\<close> of
  \<open>src/server/login.rs\<close> and the handler of \<open>OP_IPV6_UPDATE\<close> in \<open>src/server/connection.rs\<close>): what is published,
  what the client is told, and that the two agree. The dial itself is a parameter: whether a
  permit was free, and whether the answer carried the user hash.
\<close>

section \<open>Probes\<close>

definition MAX_DIALS :: u8 where "MAX_DIALS = 4"

definition probing_active :: "bool \<Rightarrow> bool \<Rightarrow> bool \<Rightarrow> bool" where
  "probing_active ipv6_probe ipv6_publish_sources ipv6_route \<longleftrightarrow> ipv6_probe \<and> ipv6_publish_sources \<and> ipv6_route"

definition probe_verdict :: "session_tables \<Rightarrow> bytes \<Rightarrow> u128 \<Rightarrow> bool option" where
  "probe_verdict t user a = (case st_probe t user of Some p \<Rightarrow> if pr_addr p = a then pr_verdict p else None | None \<Rightarrow> None)"

definition IPV6ST_HAVE :: u8 where "IPV6ST_HAVE = 1"
definition IPV6ST_REACHABLE :: u8 where "IPV6ST_REACHABLE = 2"
definition IPV6ST_PROBED :: u8 where "IPV6ST_PROBED = 4"

definition status_bits :: "bool \<Rightarrow> session_tables \<Rightarrow> bytes \<Rightarrow> u128 option \<Rightarrow> u8" where
  "status_bits active t user addr =
     (case addr of
        None \<Rightarrow> 0
      | Some a \<Rightarrow>
          if \<not> active then IPV6ST_HAVE OR IPV6ST_REACHABLE
          else case probe_verdict t user a of
                 Some True \<Rightarrow> IPV6ST_HAVE OR IPV6ST_REACHABLE OR IPV6ST_PROBED
               | Some False \<Rightarrow> IPV6ST_HAVE OR IPV6ST_PROBED
               | None \<Rightarrow> IPV6ST_HAVE)"

text \<open>The part of \<open>start\<close> before the dial: whether one is made. \<open>permit\<close>: the probe ceiling has room.\<close>

definition probe_start :: "bool \<Rightarrow> bytes \<Rightarrow> u128 \<Rightarrow> session_tables \<Rightarrow> bool \<times> session_tables" where
  "probe_start permit user a t =
     (case st_probe t user of
        None \<Rightarrow> (False, t)
      | Some p \<Rightarrow>
          if pr_addr p \<noteq> a \<or> pr_verdict p \<noteq> None then (False, t)
          else if pr_dials p \<ge> MAX_DIALS then (False, t)
          else (permit, t\<lparr>st_probe := (st_probe t)(user \<mapsto> p\<lparr>pr_dials := pr_dials p + 1\<rparr>)\<rparr>))"

text \<open>The verdict, in the two halves of \<open>conclude\<close>: the check of the session and the write of the verdict, and
  the write of the table of published addresses. The halves are separate accesses; \<open>conclude\<close> is both at
  once.\<close>

definition conclude_record :: "u64 \<Rightarrow> bytes \<Rightarrow> u128 \<Rightarrow> bool \<Rightarrow> session_tables \<Rightarrow> bool \<times> session_tables" where
  "conclude_record now user a ok t =
     (case st_clients t user of
        None \<Rightarrow> (False, t\<lparr>st_probe := (st_probe t)(user := None)\<rparr>)
      | Some (_, c) \<Rightarrow>
          if cl_ipv6 c \<noteq> Some a then (False, t)
          else case st_probe t user of
                 Some p \<Rightarrow>
                   if pr_addr p = a
                   then (True, t\<lparr>st_probe := (st_probe t)(user \<mapsto> p\<lparr>pr_verdict := Some ok, pr_at := now\<rparr>)\<rparr>)
                   else (False, t)
               | None \<Rightarrow> (False, t))"

definition conclude_publish :: "bytes \<Rightarrow> u128 \<Rightarrow> bool \<Rightarrow> session_tables \<Rightarrow> session_tables" where
  "conclude_publish user a ok t = t\<lparr>st_ipv6 := (st_ipv6 t)(user := if ok then Some a else None)\<rparr>"

definition conclude :: "u64 \<Rightarrow> bytes \<Rightarrow> u128 \<Rightarrow> bool \<Rightarrow> session_tables \<Rightarrow> session_tables" where
  "conclude now user a ok t =
     (let (go, t) = conclude_record now user a ok t in if go then conclude_publish user a ok t else t)"

lemma conclude_cases:
  "conclude now user a ok t =
     (case st_clients t user of
        None \<Rightarrow> t\<lparr>st_probe := (st_probe t)(user := None)\<rparr>
      | Some (_, c) \<Rightarrow>
          if cl_ipv6 c \<noteq> Some a then t
          else case st_probe t user of
                 Some p \<Rightarrow>
                   if pr_addr p = a
                   then t\<lparr>st_probe := (st_probe t)(user \<mapsto> p\<lparr>pr_verdict := Some ok, pr_at := now\<rparr>),
                          st_ipv6 := (st_ipv6 t)(user := if ok then Some a else None)\<rparr>
                   else t
               | None \<Rightarrow> t)"
  by (simp add: conclude_def conclude_record_def conclude_publish_def split: option.split prod.split)

text \<open>The minute sweep: entries without a session go, then the stalled ones, in the order \<open>users\<close>
  of the map's iteration, are started again. \<open>permit\<close> says which find room.\<close>

definition stalled :: "u64 \<Rightarrow> probe \<Rightarrow> bool" where
  "stalled now p \<longleftrightarrow> pr_verdict p = None \<and> pr_dials p < MAX_DIALS \<and>
     (if pr_at p \<le> now then now - pr_at p else 0) div 1000 \<ge> 60"

fun restart :: "u64 \<Rightarrow> (bytes \<Rightarrow> bool) \<Rightarrow> (bytes \<times> u128) list \<Rightarrow> session_tables \<Rightarrow> session_tables" where
  "restart now permit [] t = t"
| "restart now permit ((user, a) # xs) t =
     (case st_clients t user of
        None \<Rightarrow> restart now permit xs t
      | Some (_, c) \<Rightarrow>
          if cl_ipv6 c = Some a
          then let t = (case st_probe t user of
                          Some p \<Rightarrow> t\<lparr>st_probe := (st_probe t)(user \<mapsto> p\<lparr>pr_at := now\<rparr>)\<rparr>
                        | None \<Rightarrow> t)
               in restart now permit xs (snd (probe_start (permit user) user a t))
          else restart now permit xs t)"

definition probe_sweep :: "bool \<Rightarrow> u64 \<Rightarrow> (bytes \<Rightarrow> bool) \<Rightarrow> bytes list \<Rightarrow> session_tables \<Rightarrow> session_tables" where
  "probe_sweep active now permit users t =
     (let t = t\<lparr>st_probe := (\<lambda>h. if st_clients t h \<noteq> None then st_probe t h else None)\<rparr>
      in if \<not> active then t
         else restart now permit
                (List.map_filter (\<lambda>h. case st_probe t h of Some p \<Rightarrow> if stalled now p then Some (h, pr_addr p) else None | None \<Rightarrow> None) users) t)"

section \<open>\<open>OP_IPV6_UPDATE\<close>\<close>

datatype ipv6_update = Published u128 | Unusable | Withdrawn | IgnoredV6Session | Malformed

definition apply_ipv6_update :: "bytes \<Rightarrow> bool \<Rightarrow> client \<Rightarrow> ipv6_update \<times> client" where
  "apply_ipv6_update payload session_v6 c =
     (if session_v6 then (IgnoredV6Session, c)
      else if length payload \<noteq> 16 then (Malformed, c)
      else if payload = replicate 16 0 then (Withdrawn, c\<lparr>cl_ipv6 := None, cl_ipv6_capable := False\<rparr>)
      else let a = of_nat (from_le (rev payload)); c = c\<lparr>cl_ipv6_capable := True\<rparr>
           in if is_publishable_ipv6 a then (Published a, c\<lparr>cl_ipv6 := Some a\<rparr>)
              else (Unusable, c\<lparr>cl_ipv6 := None\<rparr>))"

text \<open>What the handler does with the tables when the address changed: the address to dial, and the tables.\<close>

definition mirror_ipv6 :: "bool \<Rightarrow> u64 \<Rightarrow> client \<Rightarrow> session_tables \<Rightarrow> u128 option \<times> session_tables" where
  "mirror_ipv6 active now c t =
     (let user = cl_user_hash c;
          (dial, t) =
            (case cl_ipv6 c of
               Some a \<Rightarrow>
                 if active then (if fst (mark_pending now user a t) then Some a else None, snd (mark_pending now user a t))
                 else (None, t\<lparr>st_ipv6 := (st_ipv6 t)(user \<mapsto> a)\<rparr>)
             | None \<Rightarrow> (None, t\<lparr>st_ipv6 := (st_ipv6 t)(user := None), st_probe := (st_probe t)(user := None)\<rparr>))
      in (dial,
          case st_clients t user of
            Some (n, h) \<Rightarrow> t\<lparr>st_clients := (st_clients t)(user \<mapsto> (n, h\<lparr>cl_ipv6 := cl_ipv6 c, cl_ipv6_capable := cl_ipv6_capable c\<rparr>))\<rparr>
          | None \<Rightarrow> t))"

text \<open>The handler, for the handle \<open>c\<close> of the connection, with the new handle.\<close>

definition ipv6_update_frame ::
  "bool \<Rightarrow> u64 \<Rightarrow> bytes \<Rightarrow> bool \<Rightarrow> client \<Rightarrow> session_tables \<Rightarrow> client \<times> u128 option \<times> session_tables" where
  "ipv6_update_frame active now payload session_v6 c t =
     (let (outcome, c) = apply_ipv6_update payload session_v6 c
      in case outcome of
           IgnoredV6Session \<Rightarrow> (c, None, t)
         | Malformed \<Rightarrow> (c, None, t)
         | _ \<Rightarrow> (c, mirror_ipv6 active now c t))"

section \<open>Operations on the tables, with the dial-back on\<close>

inductive v6_step :: "session_tables \<Rightarrow> session_tables \<Rightarrow> bool" where
  login: "v6_step t (register_login True token now n c t)"
| leave: "v6_step t (snd (end_tables n c t))"
| update: "v6_step t (snd (snd (ipv6_update_frame True now payload session_v6 c t)))"
| dial: "v6_step t (snd (probe_start permit user a t))"
| answer: "v6_step t (conclude now user a ok t)"
| sweep: "v6_step t (probe_sweep True now permits users t)"

inductive_cases v6_stepE: "v6_step t t'"

definition v6_reached :: "session_tables \<Rightarrow> bool" where
  "v6_reached t \<longleftrightarrow> v6_step\<^sup>*\<^sup>* tables_empty t"

text \<open>Per user: what is published is the address of the live client, and its probe succeeded; a client
  whose probe succeeded is published; a probe is over only for a client; and it has its dials.\<close>

definition user_ok :: "(nat \<times> client) option \<Rightarrow> probe option \<Rightarrow> u128 option \<Rightarrow> bool" where
  "user_ok e p v6 \<longleftrightarrow>
     (\<forall>a. v6 = Some a \<longleftrightarrow>
        (\<exists>n c q. e = Some (n, c) \<and> cl_ipv6 c = Some a \<and> p = Some q \<and> pr_addr q = a \<and> pr_verdict q = Some True)) \<and>
     (\<forall>q. p = Some q \<longrightarrow> pr_dials q \<le> MAX_DIALS \<and> (pr_verdict q = Some True \<longrightarrow> v6 = Some (pr_addr q)))"

definition v6_ok :: "session_tables \<Rightarrow> bool" where
  "v6_ok t \<longleftrightarrow> (\<forall>u. user_ok (st_clients t u) (st_probe t u) (st_ipv6 t u))"

lemma v6_okI: "(\<And>u. user_ok (st_clients t u) (st_probe t u) (st_ipv6 t u)) \<Longrightarrow> v6_ok t"
  by (simp add: v6_ok_def)

lemma v6_okD: "v6_ok t \<Longrightarrow> user_ok (st_clients t u) (st_probe t u) (st_ipv6 t u)"
  by (simp add: v6_ok_def)

lemma user_ok_gone [simp]: "user_ok e None None"
  by (simp add: user_ok_def)

lemma user_ok_v6_None: "user_ok e p None \<Longrightarrow> p = Some q \<Longrightarrow> pr_verdict q \<noteq> Some True"
  by (auto simp: user_ok_def)

lemma user_ok_pending: "pr_verdict p \<noteq> Some True \<Longrightarrow> pr_dials p \<le> MAX_DIALS \<Longrightarrow> user_ok e (Some p) None"
  by (auto simp: user_ok_def)

lemma user_ok_good: "cl_ipv6 c = Some (pr_addr p) \<Longrightarrow> pr_verdict p = Some True \<Longrightarrow> pr_dials p \<le> MAX_DIALS \<Longrightarrow>
  user_ok (Some (n, c)) (Some p) (Some (pr_addr p))"
  by (auto simp: user_ok_def)

text \<open>Only what a user's entry says of IPv6 matters.\<close>

lemma user_ok_entry: "user_ok (Some (n, c)) p v \<Longrightarrow> cl_ipv6 c' = cl_ipv6 c \<Longrightarrow> user_ok (Some (n', c')) p v"
  by (simp add: user_ok_def)

lemma user_ok_no_entry: "user_ok None p v \<Longrightarrow> v = None \<and> (\<forall>q. p = Some q \<longrightarrow> pr_verdict q \<noteq> Some True)"
  by (cases v) (auto simp: user_ok_def)

lemma user_ok_dials: "user_ok e (Some p) v \<Longrightarrow> pr_dials p \<le> MAX_DIALS"
  by (simp add: user_ok_def)

lemma v6_tables_empty: "v6_ok tables_empty"
  by (simp add: v6_ok_def tables_empty_def)

lemma login_ok:
  assumes "v6_ok t"
  shows "v6_ok (register_login True tk now n c t)"
proof (rule v6_okI)
  fix u
  let ?t = "register_login True tk now n c t"
  show "user_ok (st_clients ?t u) (st_probe ?t u) (st_ipv6 ?t u)"
  proof (cases "u = cl_user_hash c")
    case False
    then have "st_clients ?t u = st_clients t u" "st_probe ?t u = st_probe t u" "st_ipv6 ?t u = st_ipv6 t u"
      by (simp_all add: register_login_def Let_def insert_client_def uncount_replaced_def login_side_def mark_pending_def
          index_client_id_def split: option.split)
    then show ?thesis using v6_okD [OF assms, of u] by simp
  next
    case True
    then have "st_ipv6 ?t u = None" "\<And>p. st_probe ?t u = Some p \<Longrightarrow> pr_verdict p = None \<and> pr_dials p = 0"
      by (auto simp: register_login_def Let_def insert_client_def uncount_replaced_def login_side_def mark_pending_def
          index_client_id_def split: option.splits)
    then show ?thesis by (cases "st_probe ?t u") (simp_all add: user_ok_pending)
  qed
qed

lemma leave_ok:
  assumes "v6_ok t"
  shows "v6_ok (snd (end_tables n c t))"
proof (rule v6_okI)
  fix u
  let ?t = "snd (end_tables n c t)"
  show "user_ok (st_clients ?t u) (st_probe ?t u) (st_ipv6 ?t u)"
  proof (cases "fst (remove_client n c t) \<and> u = cl_user_hash c")
    case True
    then have "st_probe ?t u = None" "st_ipv6 ?t u = None"
      by (auto simp: end_tables_def Let_def drop_side_def unindex_client_id_def split: prod.split)
    then show ?thesis by simp
  next
    case False
    then have "st_clients ?t u = st_clients t u" "st_probe ?t u = st_probe t u" "st_ipv6 ?t u = st_ipv6 t u"
      by (auto simp: end_tables_def Let_def drop_side_def unindex_client_id_def retract_old_id_def remove_client_def split: option.splits if_splits)
    then show ?thesis using v6_okD [OF assms, of u] by simp
  qed
qed

lemma dial_ok:
  assumes "v6_ok t"
  shows "v6_ok (snd (probe_start permit user a t))"
proof (rule v6_okI)
  fix u
  let ?t = "snd (probe_start permit user a t)"
  note ok = v6_okD [OF assms, of u]
  have c: "st_clients ?t = st_clients t" "st_ipv6 ?t = st_ipv6 t" by (simp_all add: probe_start_def split: option.split)
  show "user_ok (st_clients ?t u) (st_probe ?t u) (st_ipv6 ?t u)"
  proof (cases "st_probe ?t u = st_probe t u")
    case True
    then show ?thesis using ok c by simp
  next
    case False
    then obtain p where p: "u = user" "st_probe t u = Some p" "pr_verdict p = None" "pr_dials p < MAX_DIALS"
        "st_probe ?t u = Some (p\<lparr>pr_dials := pr_dials p + 1\<rparr>)"
      by (auto simp: probe_start_def not_le split: option.splits if_splits)
    have "st_ipv6 t u = None"
    proof (cases "st_ipv6 t u")
      case (Some a)
      then show ?thesis using ok p(2,3) by (simp add: user_ok_def)
    qed
    moreover have "pr_dials p + 1 \<le> MAX_DIALS" using p(4) by (rule inc_le)
    ultimately show ?thesis using p c by (simp add: user_ok_pending)
  qed
qed

lemma answer_ok:
  assumes "v6_ok t"
  shows "v6_ok (conclude now user a ok t)"
proof (rule v6_okI)
  fix u
  note v = v6_okD [OF assms, of u]
  show "user_ok (st_clients (conclude now user a ok t) u) (st_probe (conclude now user a ok t) u) (st_ipv6 (conclude now user a ok t) u)"
  proof (cases "st_clients t user")
    case None
    then show ?thesis using v user_ok_no_entry [of "st_probe t user" "st_ipv6 t user"] by (auto simp: conclude_cases)
  next
    case (Some nc)
    then obtain n c where c: "st_clients t user = Some (n, c)" by (cases nc) simp
    show ?thesis
    proof (cases "u = user \<and> cl_ipv6 c = Some a \<and> (\<exists>p. st_probe t user = Some p \<and> pr_addr p = a)")
      case True
      then obtain p where p: "u = user" "cl_ipv6 c = Some (pr_addr p)" "st_probe t u = Some p" "pr_addr p = a" by blast
      show ?thesis
      proof (cases ok)
        case True
        then show ?thesis using p c v user_ok_good [of c "p\<lparr>pr_verdict := Some True, pr_at := now\<rparr>" n]
          by (auto simp: conclude_cases dest: user_ok_dials)
      next
        case False
        have "pr_dials p \<le> MAX_DIALS" using v p(3) by (simp add: user_ok_dials)
        then show ?thesis using False p c by (simp add: conclude_cases user_ok_pending)
      qed
    next
      case False
      then show ?thesis using v c by (auto simp: conclude_cases split: option.splits)
    qed
  qed
qed

lemma restart_ok: "v6_ok t \<Longrightarrow> v6_ok (restart now permit xs t)"
proof (induction now permit xs t rule: restart.induct)
  case (2 now permit user a xs t)
  have at: "v6_ok (t\<lparr>st_probe := (st_probe t)(user \<mapsto> p\<lparr>pr_at := now\<rparr>)\<rparr>)" if "st_probe t user = Some p" for p
  proof (rule v6_okI)
    fix u
    show "user_ok (st_clients (t\<lparr>st_probe := (st_probe t)(user \<mapsto> p\<lparr>pr_at := now\<rparr>)\<rparr>) u)
        (st_probe (t\<lparr>st_probe := (st_probe t)(user \<mapsto> p\<lparr>pr_at := now\<rparr>)\<rparr>) u) (st_ipv6 (t\<lparr>st_probe := (st_probe t)(user \<mapsto> p\<lparr>pr_at := now\<rparr>)\<rparr>) u)"
      using v6_okD [OF \<open>v6_ok t\<close>, of u] that by (auto simp: user_ok_def)
  qed
  show ?case using 2 at dial_ok by (auto simp: Let_def split: option.splits)
qed simp

lemma sweep_ok:
  assumes "v6_ok t"
  shows "v6_ok (probe_sweep active now permits users t)"
proof -
  let ?t = "t\<lparr>st_probe := (\<lambda>h. if st_clients t h \<noteq> None then st_probe t h else None)\<rparr>"
  have "v6_ok ?t"
  proof (rule v6_okI)
    fix u
    show "user_ok (st_clients ?t u) (st_probe ?t u) (st_ipv6 ?t u)"
      using v6_okD [OF assms, of u] user_ok_no_entry [of "st_probe t u" "st_ipv6 t u"] by (cases "st_clients t u") auto
  qed
  then show ?thesis by (simp add: probe_sweep_def Let_def restart_ok)
qed

lemma mirror_ok:
  assumes "v6_ok t"
  shows "v6_ok (snd (mirror_ipv6 True now c t))"
proof (rule v6_okI)
  fix u
  let ?t = "snd (mirror_ipv6 True now c t)"
  note v = v6_okD [OF assms, of u]
  define t1 where "t1 = (case cl_ipv6 c of Some a \<Rightarrow> snd (mark_pending now (cl_user_hash c) a t)
      | None \<Rightarrow> t\<lparr>st_ipv6 := (st_ipv6 t)(cl_user_hash c := None), st_probe := (st_probe t)(cl_user_hash c := None)\<rparr>)"
  have t1: "st_clients t1 = st_clients t"
    by (simp add: t1_def mark_pending_def split: option.split)
  have t': "?t = (case st_clients t1 (cl_user_hash c) of
      Some (n, h) \<Rightarrow> t1\<lparr>st_clients := (st_clients t1)(cl_user_hash c \<mapsto> (n, h\<lparr>cl_ipv6 := cl_ipv6 c, cl_ipv6_capable := cl_ipv6_capable c\<rparr>))\<rparr>
    | None \<Rightarrow> t1)"
    by (simp add: mirror_ipv6_def t1_def Let_def split: option.split)
  have tp: "st_probe ?t = st_probe t1" "st_ipv6 ?t = st_ipv6 t1" by (simp_all add: t' split: option.split)
  have tc: "st_clients ?t v = (if v = cl_user_hash c
      then map_option (\<lambda>(n, h). (n, h\<lparr>cl_ipv6 := cl_ipv6 c, cl_ipv6_capable := cl_ipv6_capable c\<rparr>)) (st_clients t v)
      else st_clients t v)" for v
    by (auto simp: t' t1 split: option.split)
  show "user_ok (st_clients ?t u) (st_probe ?t u) (st_ipv6 ?t u)"
  proof (cases "u = cl_user_hash c")
    case False
    then have "st_probe t1 u = st_probe t u" "st_ipv6 t1 u = st_ipv6 t u" by (simp_all add: t1_def mark_pending_def split: option.split)
    then show ?thesis using v False by (simp add: tp tc)
  next
    case u: True
    show ?thesis
    proof (cases "cl_ipv6 c")
      case None
      then have "st_ipv6 t1 u = None" "st_probe t1 u = None" by (simp_all add: t1_def u)
      then show ?thesis by (simp add: tp)
    next
      case (Some a)
      show ?thesis
      proof (cases "probe_verdict t u a = Some True")
        case True
        then obtain p where p: "st_probe t u = Some p" "pr_addr p = a" "pr_verdict p = Some True"
          by (auto simp: probe_verdict_def split: option.splits if_splits)
        then have "st_clients t u \<noteq> None" using v user_ok_no_entry by (metis)
        then obtain n h where h: "st_clients t u = Some (n, h)" by auto
        have "st_ipv6 t1 u = Some (pr_addr p)" "st_probe t1 u = Some p" using Some p u by (simp_all add: t1_def mark_pending_def)
        moreover have "pr_dials p \<le> MAX_DIALS" using v p by (simp add: user_ok_dials)
        ultimately show ?thesis using h Some p u user_ok_good [of "h\<lparr>cl_ipv6 := Some a, cl_ipv6_capable := cl_ipv6_capable c\<rparr>" p n]
          by (simp add: tp tc)
      next
        case False
        have "st_ipv6 t1 u = None" using False Some u by (auto simp: t1_def mark_pending_def probe_verdict_def split: option.splits)
        moreover have "pr_verdict p \<noteq> Some True \<and> pr_dials p \<le> MAX_DIALS" if "st_probe t1 u = Some p" for p
          using False Some that v u
          by (auto simp: t1_def mark_pending_def probe_verdict_def split: option.splits if_splits dest: user_ok_dials)
        ultimately have "user_ok e (st_probe t1 u) (st_ipv6 t1 u)" for e by (cases "st_probe t1 u") (auto intro: user_ok_pending)
        then show ?thesis by (simp add: tp)
      qed
    qed
  qed
qed

lemma update_ok:
  assumes "v6_ok t"
  shows "v6_ok (snd (snd (ipv6_update_frame True now payload session_v6 c t)))"
  using assms mirror_ok [OF assms] by (simp add: ipv6_update_frame_def split: prod.split ipv6_update.split)

lemma v6_reached_ok: "v6_reached t \<Longrightarrow> v6_ok t"
  unfolding v6_reached_def
proof (induction rule: rtranclp_induct)
  case base
  then show ?case by (rule v6_tables_empty)
next
  case (step t t')
  from step.hyps(2) step.IH show ?case
    by (cases rule: v6_stepE) (auto intro: login_ok leave_ok update_ok dial_ok answer_ok sweep_ok)
qed

text \<open>C32: With the dial-back on, and after any sequence of logins, departures, address updates, dials,
  verdicts and sweeps, each taken at once: an IPv6 address is published exactly when it is the live client's
  present address and the last probe of that address was answered with the user's hash; that is exactly when the client
  is told it is reachable; and the counter of dials in an entry of the probe table never exceeds four. (The counter
  is not one of the session: see \<open>withdrawals_renew_the_dials\<close>; nor is a verdict one access: see
  \<open>verdict_during_a_withdrawal\<close>.)\<close>

theorem published_ipv6_is_proven:
  assumes "v6_reached t"
  shows "(st_ipv6 t user = Some a \<longleftrightarrow>
      (\<exists>n c. st_clients t user = Some (n, c) \<and> cl_ipv6 c = Some a \<and> probe_verdict t user a = Some True)) \<and>
    (\<forall>n c. st_clients t user = Some (n, c) \<longrightarrow>
      (status_bits True t user (cl_ipv6 c) AND IPV6ST_REACHABLE \<noteq> 0 \<longleftrightarrow> cl_ipv6 c \<noteq> None \<and> st_ipv6 t user = cl_ipv6 c)) \<and>
    (\<forall>p. st_probe t user = Some p \<longrightarrow> pr_dials p \<le> 4)"
proof -
  note ok = v6_okD [OF v6_reached_ok [OF assms], of user]
  have pub: "st_ipv6 t user = Some b \<longleftrightarrow>
      (\<exists>n c. st_clients t user = Some (n, c) \<and> cl_ipv6 c = Some b \<and> probe_verdict t user b = Some True)" for b
    using ok by (auto simp: user_ok_def probe_verdict_def split: option.splits if_splits)
  have bits: "status_bits True t user (Some b) AND IPV6ST_REACHABLE \<noteq> 0 \<longleftrightarrow> probe_verdict t user b = Some True" for b
    by (simp add: status_bits_def IPV6ST_HAVE_def IPV6ST_REACHABLE_def IPV6ST_PROBED_def split: option.split bool.split)
  have "status_bits True t user (cl_ipv6 c) AND IPV6ST_REACHABLE \<noteq> 0 \<longleftrightarrow> cl_ipv6 c \<noteq> None \<and> st_ipv6 t user = cl_ipv6 c"
    if "st_clients t user = Some (n, c)" for n c
  proof (cases "cl_ipv6 c")
    case None
    then show ?thesis by (simp add: status_bits_def)
  next
    case (Some b)
    then show ?thesis using bits [of b] pub [of b] that by simp
  qed
  moreover have "\<forall>p. st_probe t user = Some p \<longrightarrow> pr_dials p \<le> 4" using ok by (auto simp: user_ok_def MAX_DIALS_def)
  ultimately show ?thesis using pub by blast
qed

text \<open>A client logs in with 2001:db8::7, the dial is answered.\<close>

lemma published_ipv6_is_proven_witness:
  "st_ipv6 (conclude 9 [7] 0x20010db8000000000000000000000007 True (register_login True [] 0 0
     ((sample_client 5 False)\<lparr>cl_ipv6 := Some 0x20010db8000000000000000000000007\<rparr>) tables_empty)) [7] =
   Some 0x20010db8000000000000000000000007"
proof -
  let ?c = "(sample_client 5 False)\<lparr>cl_ipv6 := Some 0x20010db8000000000000000000000007\<rparr>"
  let ?t = "register_login True [] 0 0 ?c tables_empty"
  let ?t' = "conclude 9 [7] 0x20010db8000000000000000000000007 True ?t"
  have "v6_step\<^sup>*\<^sup>* tables_empty ?t'" by (rule converse_rtranclp_into_rtranclp, rule v6_step.login, rule r_into_rtranclp, rule v6_step.answer)
  then have "v6_reached ?t'" by (simp add: v6_reached_def)
  moreover have "st_clients ?t' [7] = Some (0, ?c)" "probe_verdict ?t' [7] 0x20010db8000000000000000000000007 = Some True"
    by (simp_all add: register_login_def Let_def insert_client_def uncount_replaced_def login_side_def mark_pending_def
        index_client_id_def conclude_cases probe_verdict_def sample_client_def tables_empty_def)
  ultimately show ?thesis using published_ipv6_is_proven [of ?t' "[7]"] by simp
qed

section \<open>What the code does not keep\<close>

text \<open>One session publishes an address, has it dialled, and withdraws it: the withdrawal deletes the entry with
  its counter, so the next turn dials again. \<open>MAX_DIALS\<close> does not bound the dials of a session.\<close>

definition dial_turn :: "u64 \<Rightarrow> bytes \<Rightarrow> client \<times> session_tables \<Rightarrow> bool \<times> client \<times> session_tables" where
  "dial_turn now payload s =
     (let (c, dial, t) = ipv6_update_frame True now payload False (fst s) (snd s);
          (dialled, t) = (case dial of Some a \<Rightarrow> probe_start True (cl_user_hash c) a t | None \<Rightarrow> (False, t));
          (c, _, t) = ipv6_update_frame True now (replicate 16 0) False c t
      in (dialled, c, t))"

fun dial_turns :: "nat \<Rightarrow> u64 \<Rightarrow> bytes \<Rightarrow> client \<times> session_tables \<Rightarrow> nat \<times> client \<times> session_tables" where
  "dial_turns 0 now payload s = (0, s)"
| "dial_turns (Suc n) now payload s =
     (let (dialled, s) = dial_turn now payload s; (m, s) = dial_turns n now payload s
      in ((if dialled then 1 else 0) + m, s))"

lemma dial_turn_dials:
  assumes "length payload = 16" "is_publishable_ipv6 (of_nat (from_le (rev payload)))" "payload \<noteq> replicate 16 0"
    and "st_probe t (cl_user_hash c) = None" "st_clients t (cl_user_hash c) = Some (n, h)"
  shows "\<exists>c' t' h'. dial_turn now payload (c, t) = (True, c', t') \<and> cl_user_hash c' = cl_user_hash c \<and>
    st_probe t' (cl_user_hash c) = None \<and> st_clients t' (cl_user_hash c) = Some (n, h')"
  using assms
  by (simp add: dial_turn_def ipv6_update_frame_def apply_ipv6_update_def mirror_ipv6_def mark_pending_def probe_start_def
      MAX_DIALS_def Let_def)

lemma withdrawals_renew_the_dials:
  assumes "length payload = 16" "is_publishable_ipv6 (of_nat (from_le (rev payload)))" "payload \<noteq> replicate 16 0"
    and "st_probe t (cl_user_hash c) = None" "st_clients t (cl_user_hash c) = Some (n, h)"
  shows "\<exists>c' t' h'. dial_turns k now payload (c, t) = (k, c', t') \<and> st_clients t' (cl_user_hash c) = Some (n, h')"
  using assms(4,5)
proof (induction k arbitrary: c t h)
  case (Suc k)
  obtain c' t' h' where T: "dial_turn now payload (c, t) = (True, c', t')" "cl_user_hash c' = cl_user_hash c"
      "st_probe t' (cl_user_hash c) = None" "st_clients t' (cl_user_hash c) = Some (n, h')"
    using dial_turn_dials [OF assms(1-3) Suc.prems] by blast
  then show ?case using Suc.IH [of t' c' h'] by (auto simp: Let_def)
qed simp

text \<open>A withdrawal between the halves of a verdict: the address it took back is published again.\<close>

lemma verdict_during_a_withdrawal:
  assumes "st_clients t u = Some (n, c)" "cl_ipv6 c = Some a" "cl_user_hash c = u" "st_probe t u = Some p" "pr_addr p = a"
  shows "let (go, t1) = conclude_record now u a True t;
             (c', _, t2) = ipv6_update_frame True now (replicate 16 0) False c t1;
             t3 = conclude_publish u a True t2
         in go \<and> cl_ipv6 c' = None \<and> st_clients t3 u = Some (n, c') \<and> st_probe t3 u = None \<and> st_ipv6 t3 u = Some a"
  using assms
  by (simp add: conclude_record_def ipv6_update_frame_def apply_ipv6_update_def mirror_ipv6_def conclude_publish_def Let_def)

end
