(* ===== verification/Obfuscation.thy ===== *)
theory Obfuscation
  imports Prelude
begin

text \<open>
  Protocol obfuscation of TCP connections (\<open>src/proto/obfuscation.rs\<close>): RC4, the key derivation, the
  Diffie-Hellman exchange over the fixed 768-bit prime and the server's side of the handshake.
  MD5 and the big integers of \<open>num_bigint\<close> are parameters, with what their documentation states
  as the hypotheses \<open>md5_ok\<close> and \<open>bignum_ok\<close>. The seed of the padding generator, from the clock
  and the standard hasher, is an argument.
\<close>

section \<open>RC4\<close>

record rc4 =
  rc_state :: "u8 list"
  rc_x :: u8
  rc_y :: u8

definition swap_at :: "nat \<Rightarrow> nat \<Rightarrow> 'a list \<Rightarrow> 'a list" where
  "swap_at i j s = s[i := s ! j, j := s ! i]"

text \<open>The state after \<open>x\<close> and \<open>y\<close> have moved on by one byte of keystream.\<close>

definition rc4_advance :: "rc4 \<Rightarrow> rc4" where
  "rc4_advance r =
     (let x = rc_x r + 1; y = rc_y r + rc_state r ! unat x
      in \<lparr>rc_state = swap_at (unat x) (unat y) (rc_state r), rc_x = x, rc_y = y\<rparr>)"

primrec rc4_skip :: "nat \<Rightarrow> rc4 \<Rightarrow> rc4" where
  "rc4_skip 0 r = r"
| "rc4_skip (Suc n) r = rc4_skip n (rc4_advance r)"

definition rc4_byte :: "rc4 \<Rightarrow> u8" where
  "rc4_byte r = rc_state r ! unat (rc_state r ! unat (rc_x r) + rc_state r ! unat (rc_y r))"

primrec rc4_apply :: "bytes \<Rightarrow> rc4 \<Rightarrow> bytes \<times> rc4" where
  "rc4_apply [] r = ([], r)"
| "rc4_apply (b # bs) r =
     (let r = rc4_advance r; (out, r') = rc4_apply bs r in ((b XOR rc4_byte r) # out, r'))"

text \<open>The key schedule. Every caller passes a digest, so the key is not empty.\<close>

primrec rc4_schedule :: "bytes \<Rightarrow> nat list \<Rightarrow> nat \<Rightarrow> u8 list \<Rightarrow> u8 list" where
  "rc4_schedule key [] j s = s"
| "rc4_schedule key (i # is) j s =
     (let j = (j + unat (s ! i) + unat (key ! (i mod length key))) mod 256
      in rc4_schedule key is j (swap_at i j s))"

definition rc4_new :: "bytes \<Rightarrow> bool \<Rightarrow> rc4" where
  "rc4_new key drop_1024 =
     (let r = \<lparr>rc_state = rc4_schedule key [0..<256] 0 (map of_nat [0..<256]), rc_x = 0, rc_y = 0\<rparr>
      in if drop_1024 then rc4_skip 1024 r else r)"

definition rc4_encrypt :: "bytes \<Rightarrow> rc4 \<Rightarrow> bytes \<times> rc4" where
  "rc4_encrypt data r = rc4_apply data r"

section \<open>Keys\<close>

definition DH_PRIME :: bytes where
  "DH_PRIME =
    [0xF2, 0xBF, 0x52, 0xC5, 0x5F, 0x58, 0x7A, 0xDD, 0x53, 0x71, 0xA9, 0x36, 0xE8, 0x86, 0xEB, 0x3C,
     0x62, 0x17, 0xA3, 0x3E, 0xC3, 0x4C, 0xB4, 0x0D, 0xC7, 0x3A, 0x41, 0xA6, 0x43, 0xAF, 0xFC, 0xE7,
     0x21, 0xFC, 0x28, 0x63, 0x66, 0x53, 0x5B, 0xDB, 0xCE, 0x25, 0x9F, 0x22, 0x86, 0xDA, 0x4A, 0x91,
     0xB2, 0x07, 0xCB, 0xAA, 0x52, 0x55, 0xD4, 0xF6, 0x1C, 0xCE, 0xAE, 0xD4, 0x5A, 0xD5, 0xE0, 0x74,
     0x7D, 0xF7, 0x78, 0x18, 0x28, 0x10, 0x5F, 0x34, 0x0F, 0x76, 0x23, 0x87, 0xF8, 0x8B, 0x28, 0x91,
     0x42, 0xFB, 0x42, 0x68, 0x8F, 0x05, 0x15, 0x0F, 0x54, 0x8B, 0x5F, 0x43, 0x6A, 0xF7, 0x0D, 0xF3]"

definition DH_G :: nat where "DH_G = 2"
definition DH_PRIME_SIZE :: nat where "DH_PRIME_SIZE = 96"
definition DH_PRIVATE_SIZE :: nat where "DH_PRIVATE_SIZE = 16"
definition MAGIC_VALUE_SERVER :: u8 where "MAGIC_VALUE_SERVER = 203"
definition MAGIC_VALUE_REQUESTER :: u8 where "MAGIC_VALUE_REQUESTER = 34"
definition MAGIC_SYNC :: u32 where "MAGIC_SYNC = 0x835E6FC4"
definition EM_OBFUSCATE :: u8 where "EM_OBFUSCATE = 0"
definition FORBIDDEN_MARKERS :: "u8 list" where "FORBIDDEN_MARKERS = [0xE3, 0xC5, 0xD4]"

text \<open>\<open>BigUint\<close>: reading and writing big-endian bytes, and \<open>modpow\<close>.\<close>

record bignum =
  bn_read :: "bytes \<Rightarrow> nat"
  bn_write :: "nat \<Rightarrow> bytes"
  bn_modpow :: "nat \<Rightarrow> nat \<Rightarrow> nat \<Rightarrow> nat"

definition bignum_ok :: "bignum \<Rightarrow> bool" where
  "bignum_ok B \<longleftrightarrow>
     (\<forall>bs. bn_read B bs = from_le (rev bs)) \<and>
     (\<forall>n. bn_read B (bn_write B n) = n) \<and>
     (\<forall>n k. 0 < k \<and> n < 256 ^ k \<longrightarrow> length (bn_write B n) \<le> k) \<and>
     (\<forall>g e p. 0 < p \<longrightarrow> bn_modpow B g e p = g ^ e mod p)"

definition md5_ok :: "(bytes \<Rightarrow> bytes) \<Rightarrow> bool" where
  "md5_ok md5 \<longleftrightarrow> (\<forall>m. length (md5 m) = 16)"

definition derive_rc4 :: "(bytes \<Rightarrow> bytes) \<Rightarrow> bytes \<Rightarrow> u8 \<Rightarrow> rc4" where
  "derive_rc4 md5 shared_secret magic =
     rc4_new (md5 (replicate (DH_PRIME_SIZE - length shared_secret) 0 @ shared_secret @ [magic])) True"

definition pad_be :: "bytes \<Rightarrow> bytes" where
  "pad_be bs = replicate (DH_PRIME_SIZE - length bs) 0 @ bs"

definition dh_pow_mod :: "bignum \<Rightarrow> bytes \<Rightarrow> bytes" where
  "dh_pow_mod B exp_bytes = pad_be (bn_write B (bn_modpow B DH_G (bn_read B exp_bytes) (bn_read B DH_PRIME)))"

definition dh_shared :: "bignum \<Rightarrow> bytes \<Rightarrow> bytes \<Rightarrow> bytes" where
  "dh_shared B a_pub b_priv = pad_be (bn_write B (bn_modpow B (bn_read B a_pub) (bn_read B b_priv) (bn_read B DH_PRIME)))"

text \<open>The generator behind \<open>random_bytes\<close>: \<open>seed\<close> is the hash it starts from.\<close>

primrec random_bytes :: "nat \<Rightarrow> u64 \<Rightarrow> bytes" where
  "random_bytes 0 seed = []"
| "random_bytes (Suc n) seed =
     (let seed = seed * 6364136223846793005 + 1442695040888963407
      in ucast (drop_bit 56 seed) # random_bytes n seed)"

definition random_u8 :: "u64 \<Rightarrow> u8" where
  "random_u8 seed = hd (random_bytes 1 seed)"

section \<open>The handshake\<close>

datatype crypt_state = Plain | Waiting | Negotiating | Encrypting

record tcp_obfuscation =
  ob_state :: crypt_state
  ob_send :: "rc4 option"
  ob_recv :: "rc4 option"

definition obfuscation_new :: "bool \<Rightarrow> tcp_obfuscation" where
  "obfuscation_new support_crypt = \<lparr>ob_state = (if support_crypt then Waiting else Plain), ob_send = None, ob_recv = None\<rparr>"

definition is_obfuscated_start :: "u8 \<Rightarrow> bool" where
  "is_obfuscated_start first_byte \<longleftrightarrow> first_byte \<notin> set FORBIDDEN_MARKERS"

datatype crypt_error = NegotiateShort | NoRecvKey | HandshakeShort | WrongSync | UnsupportedMethod | TruncatedPadding

text \<open>\<open>seeds\<close>: those of the private exponent, of the padding's length and of the padding.\<close>

definition negotiate ::
  "(bytes \<Rightarrow> bytes) \<Rightarrow> bignum \<Rightarrow> u64 \<times> u64 \<times> u64 \<Rightarrow> bytes \<Rightarrow> tcp_obfuscation \<Rightarrow> (crypt_error + bytes) \<times> tcp_obfuscation" where
  "negotiate md5 B seeds buf ob =
     (if length buf < 1 + DH_PRIME_SIZE + 1 then (Inl NegotiateShort, ob)
      else
        let (seed_priv, seed_len, seed_pad) = seeds;
            a_pub = take DH_PRIME_SIZE (drop 1 buf);
            b_priv = random_bytes DH_PRIVATE_SIZE seed_priv;
            b_pub = dh_pow_mod B b_priv;
            shared = dh_shared B a_pub b_priv;
            send = derive_rc4 md5 shared MAGIC_VALUE_SERVER;
            recv = derive_rc4 md5 shared MAGIC_VALUE_REQUESTER;
            pad_out = random_bytes (unat (random_u8 seed_len) mod 16) seed_pad;
            plain = to_le 4 (unat MAGIC_SYNC) @ [EM_OBFUSCATE, EM_OBFUSCATE, of_nat (length pad_out)] @ pad_out;
            (enc, send) = rc4_encrypt plain send
        in (Inr (b_pub @ enc), ob\<lparr>ob_send := Some send, ob_recv := Some recv, ob_state := Negotiating\<rparr>))"

definition handshake :: "bytes \<Rightarrow> tcp_obfuscation \<Rightarrow> (crypt_error + bytes) \<times> tcp_obfuscation" where
  "handshake buf ob =
     (case ob_recv ob of
        None \<Rightarrow> (Inl NoRecvKey, ob)
      | Some recv \<Rightarrow>
          let (buf, recv) = rc4_apply buf recv; ob = ob\<lparr>ob_recv := Some recv\<rparr>
          in if length buf < 6 then (Inl HandshakeShort, ob)
             else if from_le (take 4 buf) \<noteq> unat MAGIC_SYNC then (Inl WrongSync, ob)
             else if buf ! 4 \<noteq> EM_OBFUSCATE then (Inl UnsupportedMethod, ob)
             else let data_start = 6 + unat (buf ! 5)
                  in if length buf < data_start then (Inl TruncatedPadding, ob)
                     else (Inr (drop data_start buf), ob\<lparr>ob_state := Encrypting\<rparr>))"

definition ob_decrypt :: "bytes \<Rightarrow> tcp_obfuscation \<Rightarrow> bytes \<times> tcp_obfuscation" where
  "ob_decrypt buf ob =
     (if ob_state ob = Encrypting
      then case ob_recv ob of
             Some k \<Rightarrow> let (buf, k) = rc4_apply buf k in (buf, ob\<lparr>ob_recv := Some k\<rparr>)
           | None \<Rightarrow> (buf, ob)
      else (buf, ob))"

definition ob_encrypt :: "bytes \<Rightarrow> tcp_obfuscation \<Rightarrow> bytes \<times> tcp_obfuscation" where
  "ob_encrypt buf ob =
     (if ob_state ob = Encrypting
      then case ob_send ob of
             Some k \<Rightarrow> let (buf, k) = rc4_apply buf k in (buf, ob\<lparr>ob_send := Some k\<rparr>)
           | None \<Rightarrow> (buf, ob)
      else (buf, ob))"

definition take_keys :: "tcp_obfuscation \<Rightarrow> (rc4 \<times> rc4) option \<times> tcp_obfuscation" where
  "take_keys ob =
     ((case (ob_recv ob, ob_send ob) of (Some r, Some s) \<Rightarrow> Some (r, s) | _ \<Rightarrow> None), ob\<lparr>ob_recv := None, ob_send := None\<rparr>)"

section \<open>The keystream\<close>

lemma rc4_apply_append:
  "rc4_apply (xs @ ys) r = (fst (rc4_apply xs r) @ fst (rc4_apply ys (snd (rc4_apply xs r))), snd (rc4_apply ys (snd (rc4_apply xs r))))"
  by (induction xs arbitrary: r) (simp_all add: Let_def case_prod_unfold)

lemma length_rc4_apply [simp]: "length (fst (rc4_apply xs r)) = length xs"
  by (induction xs arbitrary: r) (simp_all add: Let_def case_prod_unfold)

text \<open>The cipher only depends on how many bytes went through it.\<close>

lemma rc4_apply_state: "length xs = length ys \<Longrightarrow> snd (rc4_apply xs r) = snd (rc4_apply ys r)"
  by (induction xs ys arbitrary: r rule: list_induct2) (simp_all add: Let_def case_prod_unfold)

lemma rc4_apply_twice: "fst (rc4_apply (fst (rc4_apply xs r)) r) = xs"
proof (induction xs arbitrary: r)
  case (Cons b bs)
  have "(b XOR k) XOR k = b" for k :: u8 by (simp add: xor.assoc)
  then show ?case using Cons.IH [of "rc4_advance r"] by (simp add: Let_def case_prod_unfold)
qed simp

lemma rc4_apply_twice_state: "snd (rc4_apply (fst (rc4_apply xs r)) r) = snd (rc4_apply xs r)"
  by (rule rc4_apply_state) simp

lemmas rc4_round_trip = rc4_apply_twice rc4_apply_twice_state

section \<open>The shared secret\<close>

lemma from_le_append: "from_le (xs @ ys) = from_le xs + 256 ^ length xs * from_le ys"
  by (induction xs) (simp_all add: algebra_simps)

lemma from_le_zeros [simp]: "from_le (replicate n 0) = 0"
  by (induction n) simp_all

lemma bn_read_pad: "bignum_ok B \<Longrightarrow> bn_read B (pad_be bs) = bn_read B bs"
  by (simp add: bignum_ok_def pad_be_def from_le_append)

lemma prime_bounds:
  assumes "bignum_ok B"
  shows "0 < bn_read B DH_PRIME" "bn_read B DH_PRIME < 256 ^ 96"
proof -
  have r: "bn_read B DH_PRIME = from_le (rev DH_PRIME)" using assms by (simp add: bignum_ok_def)
  show "0 < bn_read B DH_PRIME" unfolding r by (simp add: DH_PRIME_def)
  have "length (rev DH_PRIME) = 96" by (simp add: DH_PRIME_def)
  then show "bn_read B DH_PRIME < 256 ^ 96" unfolding r using from_le_bound [of "rev DH_PRIME"] by metis
qed

lemma dh_pow_mod_ok:
  assumes "bignum_ok B"
  shows "length (dh_pow_mod B e) = 96" "bn_read B (dh_pow_mod B e) = 2 ^ bn_read B e mod bn_read B DH_PRIME"
proof -
  let ?p = "bn_read B DH_PRIME"
  have w: "bn_modpow B DH_G (bn_read B e) ?p = 2 ^ bn_read B e mod ?p"
    using assms prime_bounds [OF assms] by (simp add: bignum_ok_def DH_G_def)
  have "2 ^ bn_read B e mod ?p < 256 ^ 96"
    using prime_bounds [OF assms] by (meson mod_less_divisor order_less_trans)
  then have "length (bn_write B (2 ^ bn_read B e mod ?p)) \<le> 96" using assms unfolding bignum_ok_def by (metis zero_less_numeral)
  then show "length (dh_pow_mod B e) = 96" unfolding dh_pow_mod_def w by (simp add: pad_be_def DH_PRIME_SIZE_def)
  show "bn_read B (dh_pow_mod B e) = 2 ^ bn_read B e mod ?p"
    unfolding dh_pow_mod_def w bn_read_pad [OF assms] using assms unfolding bignum_ok_def by blast
qed

text \<open>Both sides arrive at the same secret.\<close>

lemma dh_agreement:
  assumes "bignum_ok B"
  shows "dh_shared B (dh_pow_mod B a) b = dh_shared B (dh_pow_mod B b) a"
proof -
  let ?p = "bn_read B DH_PRIME"
  have "bn_modpow B g e ?p = g ^ e mod ?p" for g e using assms prime_bounds [OF assms] by (simp add: bignum_ok_def)
  then have "bn_modpow B (bn_read B (dh_pow_mod B x)) (bn_read B y) ?p = 2 ^ (bn_read B x * bn_read B y) mod ?p" for x y
    by (simp add: dh_pow_mod_ok [OF assms] power_mod power_mult)
  then show ?thesis by (simp add: dh_shared_def mult.commute)
qed

section \<open>A whole handshake\<close>

text \<open>What a client sends and keeps: the hello, its two ciphers once it has read the server's public key,
  and the acknowledgement, which the first bytes of the stream may follow at once.\<close>

definition client_hello :: "bignum \<Rightarrow> u8 \<Rightarrow> bytes \<Rightarrow> bytes \<Rightarrow> bytes" where
  "client_hello B marker a_priv pad = marker # dh_pow_mod B a_priv @ of_nat (length pad) # pad"

definition client_keys :: "(bytes \<Rightarrow> bytes) \<Rightarrow> bignum \<Rightarrow> bytes \<Rightarrow> bytes \<Rightarrow> rc4 \<times> rc4" where
  "client_keys md5 B a_priv response =
     (let shared = dh_shared B (take 96 response) a_priv
      in (derive_rc4 md5 shared MAGIC_VALUE_REQUESTER, derive_rc4 md5 shared MAGIC_VALUE_SERVER))"

definition client_ack :: "bytes \<Rightarrow> bytes \<Rightarrow> bytes" where
  "client_ack pad rest = to_le 4 (unat MAGIC_SYNC) @ [EM_OBFUSCATE, of_nat (length pad)] @ pad @ rest"

lemma length_random_bytes [simp]: "length (random_bytes n seed) = n"
  by (induction n arbitrary: seed) (simp_all add: Let_def)

lemma sync_bytes: "from_le (to_le 4 (unat MAGIC_SYNC)) = unat MAGIC_SYNC"
  by (rule from_le_to_le) (simp add: MAGIC_SYNC_def)

lemma handshake_ack:
  assumes "length pad < 256" "ob_recv ob = Some k"
  shows "handshake (fst (rc4_apply (client_ack pad rest) k)) ob =
    (Inr rest, ob\<lparr>ob_recv := Some (snd (rc4_apply (client_ack pad rest) k)), ob_state := Encrypting\<rparr>)"
proof -
  let ?m = "client_ack pad rest"
  have len: "unat (of_nat (length pad) :: u8) = length pad" using assms(1) by (simp add: unat_of_nat)
  have parts: "6 \<le> length ?m" "take 4 ?m = to_le 4 (unat MAGIC_SYNC)" "?m ! 4 = EM_OBFUSCATE" "?m ! 5 = of_nat (length pad)"
      "drop (6 + length pad) ?m = rest" "6 + length pad \<le> length ?m"
    by (simp_all add: client_ack_def nth_append)
  then show ?thesis using assms(2) len
    by (simp add: handshake_def Let_def rc4_apply_twice rc4_apply_twice_state case_prod_unfold sync_bytes not_less)
qed

lemma handshake_completes:
  assumes B: "bignum_ok B" and pads: "length hello_pad < 256" "length ack_pad < 256"
  shows "\<exists>out ob. negotiate md5 B seeds (client_hello B marker a_priv hello_pad) (obfuscation_new True) = (Inr out, ob) \<and>
    (let (send, recv) = client_keys md5 B a_priv out;
         (opened, recv) = rc4_apply (drop 96 out) recv;
         (ack, send) = rc4_apply (client_ack ack_pad rest) send
     in take 6 opened = to_le 4 (unat MAGIC_SYNC) @ [EM_OBFUSCATE, EM_OBFUSCATE] \<and>
        length opened = 7 + unat (opened ! 6) \<and>
        (\<exists>ob'. handshake ack ob = (Inr rest, ob') \<and> ob_state ob' = Encrypting \<and>
           ob_recv ob' = Some send \<and> ob_send ob' = Some recv))"
proof -
  obtain s1 s2 s3 where seeds: "seeds = (s1, s2, s3)" by (metis prod_cases3)
  let ?hello = "client_hello B marker a_priv hello_pad"
  let ?b = "random_bytes 16 s1"
  let ?pad = "random_bytes (unat (random_u8 s2) mod 16) s3"
  let ?shared = "dh_shared B (dh_pow_mod B a_priv) ?b"
  let ?srv = "derive_rc4 md5 ?shared MAGIC_VALUE_SERVER" and ?req = "derive_rc4 md5 ?shared MAGIC_VALUE_REQUESTER"
  let ?plain = "to_le 4 (unat MAGIC_SYNC) @ [EM_OBFUSCATE, EM_OBFUSCATE, of_nat (length ?pad)] @ ?pad"
  let ?out = "dh_pow_mod B ?b @ fst (rc4_apply ?plain ?srv)"
  let ?ob = "\<lparr>ob_state = Negotiating, ob_send = Some (snd (rc4_apply ?plain ?srv)), ob_recv = Some ?req\<rparr>"
  let ?ack = "client_ack ack_pad rest"
  have la: "length (dh_pow_mod B x) = 96" for x by (rule dh_pow_mod_ok [OF B])
  have hello: "take 96 (drop 1 ?hello) = dh_pow_mod B a_priv" "\<not> length ?hello < 98" by (simp_all add: client_hello_def la)
  have neg: "negotiate md5 B seeds ?hello (obfuscation_new True) = (Inr ?out, ?ob)"
    using hello by (simp add: negotiate_def Let_def seeds DH_PRIME_SIZE_def DH_PRIVATE_SIZE_def rc4_encrypt_def case_prod_unfold obfuscation_new_def)
  have keys: "client_keys md5 B a_priv ?out = (?req, ?srv)"
    using dh_agreement [OF B, of a_priv ?b] by (simp add: client_keys_def la Let_def)
  have opened: "rc4_apply (drop 96 ?out) ?srv = (?plain, snd (rc4_apply ?plain ?srv))"
    by (simp add: la rc4_apply_twice rc4_apply_twice_state prod_eq_iff)
  have shake: "handshake (fst (rc4_apply ?ack ?req)) ?ob = (Inr rest, ?ob\<lparr>ob_recv := Some (snd (rc4_apply ?ack ?req)), ob_state := Encrypting\<rparr>)"
    by (rule handshake_ack) (simp_all add: pads)
  have "unat (of_nat (length ?pad) :: u8) = length ?pad" by (simp add: unat_of_nat)
  then have plain: "take 6 ?plain = to_le 4 (unat MAGIC_SYNC) @ [EM_OBFUSCATE, EM_OBFUSCATE]" "length ?plain = 7 + unat (?plain ! 6)"
    by (simp_all add: nth_append)
  show ?thesis
    by (rule exI [of _ ?out], rule exI [of _ ?ob], rule conjI [OF neg])
       (simp only: keys opened Let_def case_prod_conv prod.case_distrib case_prod_unfold fst_conv snd_conv plain simp_thms shake, simp)
qed

text \<open>A client that follows the protocol is understood, whatever the random exponents, markers and paddings: the
  server answers its hello; in the answer the client reads the sync word, the method and the padding; the
  server accepts the acknowledgement, gives back unchanged the bytes that came with it, and from then on
  each side's sending cipher is the other's receiving one.\<close>

theorem obfuscated_handshake_completes:
  assumes B: "bignum_ok B" and pads: "length hello_pad < 256" "length ack_pad < 256"
  shows "\<exists>out ob. negotiate md5 B seeds (client_hello B marker a_priv hello_pad) (obfuscation_new True) = (Inr out, ob) \<and>
    (let (send, recv) = client_keys md5 B a_priv out;
         (opened, recv) = rc4_apply (drop 96 out) recv;
         (ack, send) = rc4_apply (client_ack ack_pad rest) send
     in take 6 opened = to_le 4 (unat MAGIC_SYNC) @ [EM_OBFUSCATE, EM_OBFUSCATE] \<and>
        length opened = 7 + unat (opened ! 6) \<and>
        (\<exists>ob'. handshake ack ob = (Inr rest, ob') \<and> ob_state ob' = Encrypting \<and>
           ob_recv ob' = Some send \<and> ob_send ob' = Some recv))"
  using assms by (rule handshake_completes)

text \<open>Big integers as the hypothesis states them.\<close>

fun sample_be :: "nat \<Rightarrow> bytes" where
  "sample_be n = (if n = 0 then [] else sample_be (n div 256) @ [of_nat (n mod 256)])"

declare sample_be.simps [simp del]

definition sample_bignum :: bignum where
  "sample_bignum = \<lparr>bn_read = (\<lambda>bs. from_le (rev bs)), bn_write = sample_be, bn_modpow = (\<lambda>g e p. g ^ e mod p)\<rparr>"

lemma sample_be_read: "from_le (rev (sample_be n)) = n"
proof (induction n rule: sample_be.induct)
  case (1 n)
  then show ?case by (cases "n = 0") (simp_all add: sample_be.simps [of n] sample_be.simps [of 0] unat_of_nat_byte)
qed

lemma sample_be_length: "n < 256 ^ k \<Longrightarrow> length (sample_be n) \<le> k"
proof (induction k arbitrary: n)
  case 0
  then show ?case by (simp add: sample_be.simps [of 0])
next
  case (Suc k)
  then have "n div 256 < 256 ^ k" by (simp add: less_mult_imp_div_less mult.commute)
  then show ?case using Suc.IH [of "n div 256"] by (simp add: sample_be.simps [of n])
qed

lemma sample_bignum_ok: "bignum_ok sample_bignum"
  by (simp add: bignum_ok_def sample_bignum_def sample_be_read sample_be_length)

lemma obfuscated_handshake_completes_witness:
  "\<exists>out ob. negotiate (\<lambda>_. replicate 16 3) sample_bignum (1, 2, 3) (client_hello sample_bignum 0x7A (replicate 16 7) [0xEE, 0xEE]) (obfuscation_new True) = (Inr out, ob)"
  using obfuscated_handshake_completes [OF sample_bignum_ok, of "[0xEE, 0xEE]" "[]" "\<lambda>_. replicate 16 3" "(1, 2, 3)" "0x7A"
      "replicate 16 7" "[0xE3]"]
  by simp blast

end
