(* ===== verification/Crypt_Stream.thy ===== *)
theory Crypt_Stream
  imports Obfuscation
begin

text \<open>
  Obfuscated connections (\<open>src/proto/crypt_stream.rs\<close> and \<open>make_stream\<close> of
  \<open>src/server/obfuscated_conn.rs\<close>): the stream that encrypts what is written and decrypts what is read, with
  a socket that may take part of a write, block or fail, and the detection of obfuscation at
  the start of a connection. A socket is what it does at each call: a list of outcomes for writing,
  the arriving segments for reading.
\<close>

section \<open>The stream\<close>

record crypt_stream =
  cs_recv :: "rc4 option"
  cs_send :: "rc4 option"
  cs_prefix :: bytes
  cs_prefix_pos :: nat
  cs_pending :: bytes
  cs_pending_pos :: nat

definition stream_new :: "rc4 option \<Rightarrow> rc4 option \<Rightarrow> bytes \<Rightarrow> crypt_stream" where
  "stream_new recv send prefix = \<lparr>cs_recv = recv, cs_send = send, cs_prefix = prefix, cs_prefix_pos = 0, cs_pending = [], cs_pending_pos = 0\<rparr>"

definition is_encrypted :: "crypt_stream \<Rightarrow> bool" where
  "is_encrypted cs \<longleftrightarrow> cs_recv cs \<noteq> None"

definition MAX_ENCRYPT_CHUNK :: nat where "MAX_ENCRYPT_CHUNK = 65536"

text \<open>What the socket does with a write: take at most so many bytes, block, or fail.\<close>

datatype write_outcome = Accepts nat | Blocks | Fails

datatype 'a poll = Ready 'a | Pending | Failed

text \<open>\<open>poll_drain_pending\<close>, with the bytes the socket took and the outcomes left.\<close>

fun drain_pending :: "write_outcome list \<Rightarrow> crypt_stream \<Rightarrow> unit poll \<times> crypt_stream \<times> bytes \<times> write_outcome list" where
  "drain_pending os cs =
     (if cs_pending_pos cs < length (cs_pending cs)
      then case os of
             [] \<Rightarrow> (Pending, cs, [], [])
           | Blocks # os \<Rightarrow> (Pending, cs, [], os)
           | Fails # os \<Rightarrow> (Failed, cs, [], os)
           | Accepts m # os \<Rightarrow>
               let left = drop (cs_pending_pos cs) (cs_pending cs); n = min m (length left)
               in if n = 0 then (Failed, cs, [], os)
                  else let (r, cs, sent, os) = drain_pending os (cs\<lparr>cs_pending_pos := cs_pending_pos cs + n\<rparr>)
                       in (r, cs, take n left @ sent, os)
      else (Ready (), cs\<lparr>cs_pending := [], cs_pending_pos := 0\<rparr>, [], os))"

declare drain_pending.simps [simp del]

definition poll_write :: "bytes \<Rightarrow> write_outcome list \<Rightarrow> crypt_stream \<Rightarrow> nat poll \<times> crypt_stream \<times> bytes" where
  "poll_write buf os cs =
     (case cs_send cs of
        None \<Rightarrow>
          (case os of
             Accepts m # _ \<Rightarrow> let n = min m (length buf) in (Ready n, cs, take n buf)
           | Fails # _ \<Rightarrow> (Failed, cs, [])
           | _ \<Rightarrow> (Pending, cs, []))
      | Some key \<Rightarrow>
          (case drain_pending os cs of
             (Pending, cs, sent, _) \<Rightarrow> (Pending, cs, sent)
           | (Failed, cs, sent, _) \<Rightarrow> (Failed, cs, sent)
           | (Ready _, cs, sent, os) \<Rightarrow>
               if buf = [] then (Ready 0, cs, sent)
               else let n = min (length buf) MAX_ENCRYPT_CHUNK;
                        (out, key) = rc4_apply (cs_pending cs @ take n buf) key;
                        cs = cs\<lparr>cs_pending := out, cs_send := Some key\<rparr>
                    in case drain_pending os cs of
                         (Failed, cs, sent', _) \<Rightarrow> (Failed, cs, sent @ sent')
                       | (_, cs, sent', _) \<Rightarrow> (Ready n, cs, sent @ sent')))"

text \<open>Flushing; the flush of the socket itself follows when all is out.\<close>

definition poll_flush :: "write_outcome list \<Rightarrow> crypt_stream \<Rightarrow> unit poll \<times> crypt_stream \<times> bytes" where
  "poll_flush os cs = (case drain_pending os cs of (r, cs, sent, _) \<Rightarrow> (r, cs, sent))"

text \<open>Reading into \<open>room\<close> bytes: \<open>None\<close> is a socket with nothing to read yet.\<close>

definition poll_read :: "nat \<Rightarrow> bytes option \<Rightarrow> crypt_stream \<Rightarrow> bytes poll \<times> crypt_stream" where
  "poll_read room arriving cs =
     (if cs_prefix_pos cs < length (cs_prefix cs)
      then let n = min (length (cs_prefix cs) - cs_prefix_pos cs) room
           in (Ready (take n (drop (cs_prefix_pos cs) (cs_prefix cs))), cs\<lparr>cs_prefix_pos := cs_prefix_pos cs + n\<rparr>)
      else case arriving of
             None \<Rightarrow> (Pending, cs)
           | Some bs \<Rightarrow>
               (case cs_recv cs of
                  Some key \<Rightarrow> let (out, key) = rc4_apply bs key in (Ready out, cs\<lparr>cs_recv := Some key\<rparr>)
                | None \<Rightarrow> (Ready bs, cs)))"

section \<open>A session of writes\<close>

datatype write_event = Write bytes "write_outcome list" | Flush "write_outcome list"

text \<open>The stream with the plaintext it has answered for and the bytes on the wire; \<open>None\<close> once a call failed.\<close>

fun write_session :: "write_event list \<Rightarrow> crypt_stream \<times> bytes \<times> bytes \<Rightarrow> (crypt_stream \<times> bytes \<times> bytes) option" where
  "write_session [] s = Some s"
| "write_session (Write buf os # es) (cs, accepted, wire) =
     (case poll_write buf os cs of
        (Ready n, cs, sent) \<Rightarrow> write_session es (cs, accepted @ take n buf, wire @ sent)
      | (Pending, cs, sent) \<Rightarrow> write_session es (cs, accepted, wire @ sent)
      | (Failed, _, _) \<Rightarrow> None)"
| "write_session (Flush os # es) (cs, accepted, wire) =
     (case poll_flush os cs of
        (Failed, _, _) \<Rightarrow> None
      | (_, cs, sent) \<Rightarrow> write_session es (cs, accepted, wire @ sent))"

text \<open>What is left to send.\<close>

definition unsent :: "crypt_stream \<Rightarrow> bytes" where
  "unsent cs = drop (cs_pending_pos cs) (cs_pending cs)"

definition stream_ok :: "rc4 \<Rightarrow> crypt_stream \<times> bytes \<times> bytes \<Rightarrow> bool" where
  "stream_ok k s \<longleftrightarrow> (case s of (cs, accepted, wire) \<Rightarrow>
     wire @ unsent cs = fst (rc4_apply accepted k) \<and> cs_send cs = Some (snd (rc4_apply accepted k)) \<and>
     cs_pending_pos cs \<le> length (cs_pending cs))"

lemma drain_ok:
  assumes "drain_pending os cs = (r, cs', sent, os')" "cs_pending_pos cs \<le> length (cs_pending cs)"
  shows "sent @ unsent cs' = unsent cs \<and> cs_send cs' = cs_send cs \<and> cs_recv cs' = cs_recv cs \<and>
    cs_pending_pos cs' \<le> length (cs_pending cs') \<and> (r = Ready () \<longrightarrow> cs_pending cs' = [] \<and> cs_pending_pos cs' = 0)"
  using assms
proof (induction os cs arbitrary: r cs' sent os' rule: drain_pending.induct)
  case (1 os cs)
  show ?case
  proof (cases "cs_pending_pos cs < length (cs_pending cs)")
    case False
    then show ?thesis using "1.prems" by (auto simp: drain_pending.simps [of os cs] unsent_def)
  next
    case True
    show ?thesis
    proof (cases "\<exists>m os1. os = Accepts m # os1 \<and> min m (length (unsent cs)) \<noteq> 0")
      case False
      then show ?thesis using "1.prems" True
        by (auto simp: drain_pending.simps [of os cs] unsent_def Let_def split: list.splits write_outcome.splits)
    next
      case acc: True
      then obtain m os1 where os: "os = Accepts m # os1" "min m (length (unsent cs)) \<noteq> 0" by blast
      let ?n = "min m (length (unsent cs))"
      let ?cs = "cs\<lparr>cs_pending_pos := cs_pending_pos cs + ?n\<rparr>"
      obtain r1 c1 sent1 o1 where D: "drain_pending os1 ?cs = (r1, c1, sent1, o1)" by (metis prod_cases4)
      have n: "length (drop (cs_pending_pos cs) (cs_pending cs)) = length (unsent cs)" "drop (cs_pending_pos cs) (cs_pending cs) = unsent cs"
        by (simp_all add: unsent_def)
      have "(r1, c1, take ?n (unsent cs) @ sent1, o1) = (r, cs', sent, os')"
        using "1.prems"(1) True os D unfolding os(1) drain_pending.simps [of "Accepts m # os1" cs]
        by (simp only: Let_def n if_True if_False list.case write_outcome.case case_prod_conv)
      then have d: "drain_pending os1 ?cs = (r, cs', sent1, os')" "sent = take ?n (unsent cs) @ sent1" using D by simp_all
      have pos: "cs_pending_pos ?cs \<le> length (cs_pending ?cs)" using "1.prems"(2) by (simp add: unsent_def)
      have "sent1 @ unsent cs' = unsent ?cs \<and> cs_send cs' = cs_send ?cs \<and> cs_recv cs' = cs_recv ?cs \<and>
          cs_pending_pos cs' \<le> length (cs_pending cs') \<and> (r = Ready () \<longrightarrow> cs_pending cs' = [] \<and> cs_pending_pos cs' = 0)"
        using "1.IH" [OF True os(1) refl n(2) [symmetric] refl os(2) d(1) pos] .
      moreover have "unsent ?cs = drop ?n (unsent cs)" by (simp add: unsent_def add.commute)
      ultimately show ?thesis using d(2) by simp
    qed
  qed
qed

lemma write_ok:
  assumes ok: "stream_ok k (cs, accepted, wire)" and w: "poll_write buf os cs = (r, cs', sent)" "r \<noteq> Failed"
  shows "stream_ok k (cs', accepted @ (case r of Ready n \<Rightarrow> take n buf | _ \<Rightarrow> []), wire @ sent)"
proof -
  let ?key = "snd (rc4_apply accepted k)"
  have key: "cs_send cs = Some ?key" and pos: "cs_pending_pos cs \<le> length (cs_pending cs)"
    and un: "wire @ unsent cs = fst (rc4_apply accepted k)" using ok by (simp_all add: stream_ok_def)
  obtain r1 cs1 sent1 os1 where d: "drain_pending os cs = (r1, cs1, sent1, os1)" by (metis prod_cases4)
  note d1 = drain_ok [OF d pos]
  have un1: "(wire @ sent1) @ unsent cs1 = fst (rc4_apply accepted k)" using d1 un by simp
  show ?thesis
  proof (cases r1)
    case Pending
    then have "r = Pending" "cs' = cs1" "sent = sent1" using w d key by (simp_all add: poll_write_def)
    then show ?thesis using d1 un1 key by (simp add: stream_ok_def)
  next
    case Failed
    then show ?thesis using w d key by (simp add: poll_write_def)
  next
    case (Ready x)
    then have empty: "cs_pending cs1 = []" "cs_pending_pos cs1 = 0" using d1 by simp_all
    have all: "wire @ sent1 = fst (rc4_apply accepted k)" using un1 empty by (simp add: unsent_def)
    show ?thesis
    proof (cases "buf = []")
      case True
      then have "r = Ready 0" "cs' = cs1" "sent = sent1" using w d key Ready by (simp_all add: poll_write_def)
      then show ?thesis using d1 un1 key by (simp add: stream_ok_def)
    next
      case False
      let ?n = "min (length buf) MAX_ENCRYPT_CHUNK"
      let ?cs = "cs1\<lparr>cs_pending := fst (rc4_apply (take ?n buf) ?key), cs_send := Some (snd (rc4_apply (take ?n buf) ?key))\<rparr>"
      obtain r2 cs2 sent2 os2 where e: "drain_pending os1 ?cs = (r2, cs2, sent2, os2)" by (metis prod_cases4)
      have "r2 \<noteq> Failed" and r: "r = Ready ?n" "cs' = cs2" "sent = sent1 @ sent2"
        using w d key Ready False empty e by (cases r2; simp add: poll_write_def case_prod_unfold)+
      note d2 = drain_ok [OF e]
      have "sent2 @ unsent cs2 = fst (rc4_apply (take ?n buf) ?key)" "cs_send cs2 = Some (snd (rc4_apply (take ?n buf) ?key))"
          "cs_pending_pos cs2 \<le> length (cs_pending cs2)"
        using d2 empty by (simp_all add: unsent_def)
      then show ?thesis using all r by (simp add: stream_ok_def rc4_apply_append)
    qed
  qed
qed

lemma flush_ok:
  assumes ok: "stream_ok k (cs, accepted, wire)" and w: "poll_flush os cs = (r, cs', sent)"
  shows "stream_ok k (cs', accepted, wire @ sent) \<and> (r = Ready () \<longrightarrow> unsent cs' = [])"
proof -
  obtain os' where d: "drain_pending os cs = (r, cs', sent, os')" using w by (auto simp: poll_flush_def split: prod.splits)
  have "cs_pending_pos cs \<le> length (cs_pending cs)" using ok by (simp add: stream_ok_def)
  note d1 = drain_ok [OF d this]
  then show ?thesis using ok by (auto simp: stream_ok_def unsent_def)
qed

lemma session_ok:
  "stream_ok k s \<Longrightarrow> write_session es s = Some s' \<Longrightarrow> stream_ok k s'"
proof (induction es s rule: write_session.induct)
  case (2 buf os es cs accepted wire)
  obtain r cs1 sent where w: "poll_write buf os cs = (r, cs1, sent)" by (metis prod_cases3)
  then have "r \<noteq> Failed" using "2.prems"(2) by auto
  note ok = write_ok [OF "2.prems"(1) w this]
  show ?case using "2.IH" w ok "2.prems"(2) by (cases r) auto
next
  case (3 os es cs accepted wire)
  obtain r cs1 sent where w: "poll_flush os cs = (r, cs1, sent)" by (metis prod_cases3)
  note ok = flush_ok [OF "3.prems"(1) w]
  show ?case using "3.IH" w ok "3.prems"(2) by (cases r) auto
qed simp

text \<open>C14: Whatever the socket does with each write (takes all, takes part, blocks), every byte the encrypted stream has
  answered for is encrypted exactly once and sent exactly once, in order: a peer with the matching cipher
  decrypts the bytes on the wire to a prefix of what was accepted, and to all of it once a flush has
  succeeded.\<close>

theorem writes_decrypt_in_order:
  assumes "write_session es (stream_new recv (Some k) prefix, [], []) = Some (cs, accepted, wire)"
  shows "fst (rc4_apply wire k) = take (length wire) accepted \<and> length wire + length (unsent cs) = length accepted \<and>
    (\<forall>os cs' sent. poll_flush os cs = (Ready (), cs', sent) \<longrightarrow> fst (rc4_apply (wire @ sent) k) = accepted)"
proof -
  have "stream_ok k (stream_new recv (Some k) prefix, [], [])" by (simp add: stream_ok_def stream_new_def unsent_def)
  then have ok: "stream_ok k (cs, accepted, wire)" using assms by (rule session_ok)
  have dec: "fst (rc4_apply w k) = take (length w) a" if "w @ v = fst (rc4_apply a k)" for w v a
  proof -
    have "length (w @ v) = length a" unfolding that by simp
    then have "w = take (length w) (fst (rc4_apply (take (length w) a @ drop (length w) a) k))" using that by (metis append_eq_conv_conj append_take_drop_id)
    also have "\<dots> = fst (rc4_apply (take (length w) a) k)" using \<open>length (w @ v) = length a\<close>
      by (simp only: rc4_apply_append fst_conv) simp
    finally show ?thesis by (metis rc4_apply_twice)
  qed
  have un: "wire @ unsent cs = fst (rc4_apply accepted k)" using ok by (simp add: stream_ok_def)
  then have "length wire + length (unsent cs) = length accepted" by (metis length_append length_rc4_apply)
  moreover have "fst (rc4_apply (wire @ sent) k) = accepted" if f: "poll_flush os cs = (Ready (), cs', sent)" for os cs' sent
  proof -
    have "(wire @ sent) @ [] = fst (rc4_apply accepted k)" using flush_ok [OF ok f] by (auto simp: stream_ok_def)
    then show ?thesis by (metis append_Nil2 rc4_apply_twice)
  qed
  ultimately show ?thesis using dec [OF un] by blast
qed

text \<open>A write the socket takes half of, and a second one it first refuses.\<close>

lemma writes_decrypt_in_order_witness:
  "\<exists>cs accepted wire. write_session [Write [1, 2, 3, 4] [Accepts 2, Blocks], Write [5] [Blocks], Flush [Accepts 9]]
     (stream_new None (Some \<lparr>rc_state = replicate 256 0, rc_x = 0, rc_y = 0\<rparr>) [], [], []) = Some (cs, accepted, wire) \<and>
   fst (rc4_apply wire \<lparr>rc_state = replicate 256 0, rc_x = 0, rc_y = 0\<rparr>) = take (length wire) accepted"
proof -
  let ?k = "\<lparr>rc_state = replicate 256 0, rc_x = 0, rc_y = 0\<rparr>"
  obtain cs accepted wire where s: "write_session [Write [1, 2, 3, 4] [Accepts 2, Blocks], Write [5] [Blocks], Flush [Accepts 9]]
      (stream_new None (Some ?k) [], [], []) = Some (cs, accepted, wire)"
    by (simp add: stream_new_def poll_write_def poll_flush_def drain_pending.simps case_prod_unfold Let_def MAX_ENCRYPT_CHUNK_def)
  from writes_decrypt_in_order [OF this] s show ?thesis by blast
qed

section \<open>The start of a connection\<close>

text \<open>A socket to read from: what has arrived and was not read, and what arrives after it, in batches.\<close>

type_synonym socket = "bytes \<times> bytes list"

text \<open>A read waits for bytes; the empty answer is the end of the stream. \<open>try_read\<close> does not wait.\<close>

fun sock_read :: "nat \<Rightarrow> socket \<Rightarrow> bytes \<times> socket" where
  "sock_read room (buf, []) = (take room buf, drop room buf, [])"
| "sock_read room (buf, b # bs) = (if buf \<noteq> [] then (take room buf, drop room buf, b # bs) else sock_read room (b, bs))"

definition sock_try_read :: "nat \<Rightarrow> socket \<Rightarrow> (bytes \<times> socket) option" where
  "sock_try_read room s = (case s of (buf, bs) \<Rightarrow> if buf = [] then (if bs = [] then Some ([], s) else None) else Some (take room buf, drop room buf, bs))"

definition PLAIN_MARKERS :: "u8 list" where "PLAIN_MARKERS = [0xE3, 0xC5, 0xD4]"
definition DH_REST_MIN :: nat where "DH_REST_MIN = 97"

datatype connect_error = ClosedBefore | ClosedInHello | ClosedInAck | KeysMissing | Crypt crypt_error

text \<open>The loop that reads the hello: at least 97 bytes, into room for 16 more.\<close>

function fill_hello :: "bytes \<Rightarrow> socket \<Rightarrow> (bytes \<times> socket) option" where
  "fill_hello rest s =
     (if length rest < DH_REST_MIN
      then let (bs, s) = sock_read (DH_REST_MIN + 16 - length rest) s
           in if bs = [] then None else fill_hello (rest @ bs) s
      else Some (rest, s))"
  by auto
termination
  by (relation "measure (\<lambda>(rest, s). DH_REST_MIN - length rest)") (auto simp: length_greater_0_conv [symmetric] simp del: length_greater_0_conv)

declare fill_hello.simps [simp del]

text \<open>The stream, what is still to be read, and what was sent back. Errors of the socket itself are
  not modelled.\<close>

definition make_stream ::
  "(bytes \<Rightarrow> bytes) \<Rightarrow> bignum \<Rightarrow> u64 \<times> u64 \<times> u64 \<Rightarrow> bool \<Rightarrow> socket \<Rightarrow> (connect_error + crypt_stream \<times> socket) \<times> bytes" where
  "make_stream md5 B seeds support_crypt s =
     (if \<not> support_crypt then (Inr (stream_new None None [], s), [])
      else
        let (first, s) = sock_read 1 s
        in if first = [] then (Inl ClosedBefore, [])
           else
             let marker = hd first
             in if marker \<in> set PLAIN_MARKERS then (Inr (stream_new None None [marker], s), [])
                else
                  case fill_hello [] s of
                    None \<Rightarrow> (Inl ClosedInHello, [])
                  | Some (rest, s) \<Rightarrow>
                      let (rest, s) =
                            (if length rest < DH_REST_MIN + 16
                             then case sock_try_read (DH_REST_MIN + 16 - length rest) s of
                                    Some (extra, s) \<Rightarrow> (rest @ extra, s)
                                  | None \<Rightarrow> (rest, s)
                             else (rest, s));
                          (answer, ob) = negotiate md5 B seeds (marker # rest) (obfuscation_new True)
                      in case answer of
                           Inl e \<Rightarrow> (Inl (Crypt e), [])
                         | Inr response \<Rightarrow>
                             let (ack, s) = sock_read 256 s
                             in if ack = [] then (Inl ClosedInAck, response)
                                else
                                  let (result, ob) = handshake ack ob
                                  in case result of
                                       Inl e \<Rightarrow> (Inl (Crypt e), response)
                                     | Inr leftover \<Rightarrow>
                                         (case fst (take_keys ob) of
                                            None \<Rightarrow> (Inl KeysMissing, response)
                                          | Some (recv, send) \<Rightarrow> (Inr (stream_new (Some recv) (Some send) leftover, s), response)))"

text \<open>Reads through the stream, with the room of each.\<close>

fun read_stream :: "nat list \<Rightarrow> crypt_stream \<times> socket \<Rightarrow> bytes \<times> crypt_stream \<times> socket" where
  "read_stream [] s = ([], s)"
| "read_stream (room # rooms) (cs, sock) =
     (let (arrived, sock') = sock_read room sock;
          sock' = (if cs_prefix_pos cs < length (cs_prefix cs) then sock else sock')
      in case poll_read room (Some arrived) cs of
           (Ready bs, cs) \<Rightarrow> let (out, s) = read_stream rooms (cs, sock') in (bs @ out, s)
         | (_, cs) \<Rightarrow> read_stream rooms (cs, sock'))"

definition to_come :: "crypt_stream \<times> socket \<Rightarrow> bytes" where
  "to_come s = (case s of (cs, buf, bs) \<Rightarrow>
     drop (cs_prefix_pos cs) (cs_prefix cs) @
     (case cs_recv cs of None \<Rightarrow> buf @ concat bs | Some k \<Rightarrow> fst (rc4_apply (buf @ concat bs) k)))"

lemma sock_read_bytes: "sock_read room (buf, bs) = (got, buf', bs') \<Longrightarrow> got @ buf' @ concat bs' = buf @ concat bs"
proof (induction room "(buf, bs)" arbitrary: buf bs rule: sock_read.induct)
  case (1 room buf)
  then show ?case by auto
next
  case (2 room buf b bs)
  then show ?case by (cases "buf = []") auto
qed

text \<open>Reading gives the prefix and then the decrypted stream, in whatever portions.\<close>

lemma read_stream_bytes: "fst (read_stream rooms (cs, sock)) @ to_come (snd (read_stream rooms (cs, sock))) = to_come (cs, sock)"
proof (induction rooms arbitrary: cs sock)
  case (Cons room rooms)
  obtain buf bs where sock: "sock = (buf, bs)" by (cases sock)
  obtain got buf' bs' where r: "sock_read room (buf, bs) = (got, buf', bs')" by (metis prod_cases3)
  note split = sock_read_bytes [OF r]
  show ?case
  proof (cases "cs_prefix_pos cs < length (cs_prefix cs)")
    case True
    let ?n = "min (length (cs_prefix cs) - cs_prefix_pos cs) room"
    let ?cs = "cs\<lparr>cs_prefix_pos := cs_prefix_pos cs + ?n\<rparr>"
    have p: "poll_read room (Some got) cs = (Ready (take ?n (drop (cs_prefix_pos cs) (cs_prefix cs))), ?cs)" using True by (simp add: poll_read_def Let_def)
    have "take ?n (drop (cs_prefix_pos cs) (cs_prefix cs)) @ to_come (?cs, sock) = to_come (cs, sock)"
      by (simp add: to_come_def sock) (metis append.assoc append_take_drop_id drop_drop add.commute)
    then show ?thesis using Cons.IH [of ?cs sock] p r True sock by (simp add: case_prod_unfold Let_def)
  next
    case False
    then have pre: "drop (cs_prefix_pos cs) (cs_prefix cs) = []" by simp
    show ?thesis
    proof (cases "cs_recv cs")
      case None
      have p: "poll_read room (Some got) cs = (Ready got, cs)" using False None by (simp add: poll_read_def)
      have "got @ to_come (cs, (buf', bs')) = to_come (cs, sock)" using split pre None by (simp add: to_come_def sock)
      then show ?thesis using Cons.IH [of cs "(buf', bs')"] p r False sock by (simp add: case_prod_unfold Let_def)
    next
      case (Some k)
      let ?cs = "cs\<lparr>cs_recv := Some (snd (rc4_apply got k))\<rparr>"
      have p: "poll_read room (Some got) cs = (Ready (fst (rc4_apply got k)), ?cs)" using False Some by (simp add: poll_read_def case_prod_unfold Let_def)
      have "fst (rc4_apply got k) @ to_come (?cs, buf', bs') = to_come (cs, sock)" using pre Some
        by (simp add: to_come_def sock split [symmetric] rc4_apply_append [of got])
      then show ?thesis using Cons.IH [of ?cs "(buf', bs')"] p r False sock by (simp add: case_prod_unfold Let_def)
    qed
  qed
qed simp

lemma sock_read_all: "buf \<noteq> [] \<Longrightarrow> length buf \<le> room \<Longrightarrow> sock_read room (buf, bs) = (buf, [], bs)"
  by (cases bs) simp_all

lemma fill_hello_next: "length acc < 97 \<Longrightarrow> fill_hello acc ([], b # bs) = fill_hello acc (b, bs)"
  by (simp add: fill_hello.simps [of acc] DH_REST_MIN_def)

lemma fill_batches:
  assumes "length acc < 97" "97 \<le> length (acc @ buf @ concat bs)" "length (acc @ buf @ concat bs) \<le> 113"
    "bs \<noteq> [] \<longrightarrow> length (acc @ buf @ concat (butlast bs)) < 97" "\<forall>b\<in>set bs. b \<noteq> []"
  shows "fill_hello acc (buf, bs @ later_on) = Some (acc @ buf @ concat bs, [], later_on)"
  using assms
proof (induction bs arbitrary: acc buf)
  case Nil
  then have "sock_read (113 - length acc) (buf, later_on) = (buf, [], later_on)" by (intro sock_read_all) auto
  moreover have "buf \<noteq> []" using Nil by auto
  ultimately show ?case using Nil by (simp add: fill_hello.simps [of acc] fill_hello.simps [of "acc @ buf"] DH_REST_MIN_def)
next
  case (Cons b bs)
  have len: "length (acc @ buf) < 97" using Cons.prems(4) by (cases bs) auto
  have "fill_hello (acc @ buf) (b, bs @ later_on) = Some ((acc @ buf) @ b @ concat bs, [], later_on)"
    using Cons.prems len by (intro Cons.IH) auto
  moreover have "fill_hello acc (buf, (b # bs) @ later_on) = fill_hello (acc @ buf) (b, bs @ later_on)"
  proof (cases "buf = []")
    case True
    then show ?thesis using Cons.prems(1) by (simp add: fill_hello_next)
  next
    case False
    then have "sock_read (113 - length acc) (buf, b # bs @ later_on) = (buf, [], b # bs @ later_on)" using len by (intro sock_read_all) auto
    then show ?thesis using False Cons.prems(1) len by (simp add: fill_hello.simps [of acc] DH_REST_MIN_def fill_hello_next)
  qed
  ultimately show ?case by simp
qed

text \<open>The stream up to the answer to a hello.\<close>

lemma make_stream_hello:
  assumes "sock_read 1 s = ([marker], s1)" "marker \<notin> set PLAIN_MARKERS" "fill_hello [] s1 = Some (rest, [], later_on)"
    and "negotiate md5 B seeds (marker # rest) (obfuscation_new True) = (Inr response, ob)"
  shows "make_stream md5 B seeds True s =
    (let (ack, s) = sock_read 256 ([], later_on)
     in if ack = [] then (Inl ClosedInAck, response)
        else let (result, ob) = handshake ack ob
             in case result of
                  Inl e \<Rightarrow> (Inl (Crypt e), response)
                | Inr leftover \<Rightarrow>
                    (case fst (take_keys ob) of
                       None \<Rightarrow> (Inl KeysMissing, response)
                     | Some (recv, send) \<Rightarrow> (Inr (stream_new (Some recv) (Some send) leftover, s), response)))"
proof -
  have "(if length rest < DH_REST_MIN + 16
         then case sock_try_read (DH_REST_MIN + 16 - length rest) ([], later_on) of
                Some (extra, s) \<Rightarrow> (rest @ extra, s) | None \<Rightarrow> (rest, ([], later_on))
         else (rest, ([], later_on))) = (rest, ([], later_on))"
    by (simp add: sock_try_read_def)
  then show ?thesis using assms by (simp add: make_stream_def)
qed

lemma hello_read:
  assumes hello: "concat bs = marker # rst" "\<forall>b\<in>set bs. b \<noteq> []" "length (concat (butlast bs)) < 98"
    and len: "97 \<le> length rst" "length rst \<le> 113"
  shows "\<exists>s. sock_read 1 ([], bs @ later_on) = ([marker], s) \<and> fill_hello [] s = Some (rst, [], later_on)"
proof -
  obtain b bs' where bs: "bs = b # bs'" "b \<noteq> []" using hello(1,2) by (cases bs) auto
  then obtain b' where b: "b = marker # b'" "b' @ concat bs' = rst" using hello(1) by (cases b) auto
  have "sock_read 1 ([], bs @ later_on) = ([marker], b', bs' @ later_on)" by (cases "bs' @ later_on") (simp_all add: bs b)
  moreover have "bs' \<noteq> [] \<longrightarrow> length (b' @ concat (butlast bs')) < 97" using hello(3) by (auto simp: bs b)
  then have "fill_hello [] (b', bs' @ later_on) = Some (rst, [], later_on)"
    using fill_batches [of "[]" b' bs' later_on] len hello(2) b(2) by (auto simp: bs)
  ultimately show ?thesis by blast
qed

text \<open>An obfuscated client is read as it meant: however its hello is cut into pieces, as long as the padding does
  not arrive alone, the server takes up the encrypted stream, and what is read through it,
  in portions of any size, is the plaintext the client sent, from the bytes behind its acknowledgement on.\<close>

theorem obfuscated_client_is_read:
  assumes B: "bignum_ok B" and marker: "marker \<notin> set PLAIN_MARKERS"
    and hello: "concat bs = client_hello B marker a_priv hello_pad" "\<forall>b\<in>set bs. b \<noteq> []" "length (concat (butlast bs)) < 98"
    and pads: "length hello_pad \<le> 16" "length ack_pad < 256" "6 + length ack_pad + length rest \<le> 256"
  shows "\<exists>out. let (send, recv) = client_keys md5 B a_priv out;
      recv = snd (rc4_apply (drop 96 out) recv);
      (ack, send) = rc4_apply (client_ack ack_pad rest) send
    in \<forall>later data. concat later = fst (rc4_apply data send) \<longrightarrow>
      (\<exists>cs. make_stream md5 B seeds True ([], bs @ ack # later) = (Inr (cs, [], later), out) \<and> cs_send cs = Some recv \<and>
        (\<forall>rooms. \<exists>left. fst (read_stream rooms (cs, [], later)) @ left = rest @ data))"
proof -
  obtain out ob where neg: "negotiate md5 B seeds (client_hello B marker a_priv hello_pad) (obfuscation_new True) = (Inr out, ob)"
    and hs: "let (send, recv) = client_keys md5 B a_priv out;
         (opened, recv) = rc4_apply (drop 96 out) recv;
         (ack, send) = rc4_apply (client_ack ack_pad rest) send
     in take 6 opened = to_le 4 (unat MAGIC_SYNC) @ [EM_OBFUSCATE, EM_OBFUSCATE] \<and>
        length opened = 7 + unat (opened ! 6) \<and>
        (\<exists>ob'. handshake ack ob = (Inr rest, ob') \<and> ob_state ob' = Encrypting \<and>
           ob_recv ob' = Some send \<and> ob_send ob' = Some recv)"
    using handshake_completes [OF B, of hello_pad ack_pad md5 seeds marker a_priv rest] pads by auto
  obtain send0 recv0 where keys: "client_keys md5 B a_priv out = (send0, recv0)" by fastforce
  let ?recv = "snd (rc4_apply (drop 96 out) recv0)"
  let ?ack = "fst (rc4_apply (client_ack ack_pad rest) send0)" and ?send = "snd (rc4_apply (client_ack ack_pad rest) send0)"
  obtain ob' where ob': "handshake ?ack ob = (Inr rest, ob')" "ob_recv ob' = Some ?send" "ob_send ob' = Some ?recv"
    using hs by (auto simp: keys Let_def case_prod_unfold)
  let ?tl = "dh_pow_mod B a_priv @ of_nat (length hello_pad) # hello_pad"
  let ?cs = "stream_new (Some ?send) (Some ?recv) rest"
  have len: "97 \<le> length ?tl" "length ?tl \<le> 113" using pads dh_pow_mod_ok(1) [OF B, of a_priv] by simp_all
  have ms: "make_stream md5 B seeds True ([], bs @ ?ack # later) = (Inr (?cs, [], later), out)" for later
  proof -
    obtain s where s: "sock_read 1 ([], bs @ ?ack # later) = ([marker], s)" "fill_hello [] s = Some (?tl, [], ?ack # later)"
      using hello_read [of bs marker ?tl "?ack # later"] hello len by (auto simp: client_hello_def)
    have la: "length ?ack = 6 + length ack_pad + length rest" by (simp add: client_ack_def)
    then have ne: "?ack \<noteq> []" by (metis add_is_0 list.size(3) zero_neq_numeral)
    moreover have "sock_read 256 ([], ?ack # later) = (?ack, [], later)" using sock_read_all [OF ne, of 256 later] la pads(3) by simp
    ultimately show ?thesis using make_stream_hello [OF s(1) marker s(2)] neg ob' by (simp add: client_hello_def take_keys_def)
  qed
  have rd: "\<exists>left. fst (read_stream rooms (?cs, [], later)) @ left = rest @ data" if "concat later = fst (rc4_apply data ?send)" for rooms later data
  proof -
    have "to_come (?cs, [], later) = rest @ data" using that by (simp add: to_come_def stream_new_def rc4_apply_twice)
    then show ?thesis using read_stream_bytes [of rooms ?cs "([], later)"] by metis
  qed
  have "cs_send ?cs = Some ?recv" by (simp add: stream_new_def)
  then show ?thesis using ms rd by (intro exI [of _ out]) (auto simp: keys Let_def case_prod_unfold)
qed

lemma obfuscated_client_is_read_witness:
  "\<exists>ack out cs. make_stream (\<lambda>_. replicate 16 3) sample_bignum (1, 2, 3) True
     ([], [client_hello sample_bignum 0x7A (replicate 16 7) [0xEE], ack]) = (Inr (cs, [], []), out)"
proof -
  let ?hello = "client_hello sample_bignum 0x7A (replicate 16 7) [0xEE]"
  have h: "concat [?hello] = client_hello sample_bignum 0x7A (replicate 16 7) [0xEE]" "\<forall>b\<in>set [?hello]. b \<noteq> []"
      "length (concat (butlast [?hello])) < 98" "0x7A \<notin> set PLAIN_MARKERS"
    by (simp_all add: client_hello_def PLAIN_MARKERS_def)
  note r = obfuscated_client_is_read [OF sample_bignum_ok h(4) h(1-3), of "[]" "[0xE3]" "\<lambda>_. replicate 16 3" "(1, 2, 3)"]
  have small: "length [0xEE :: u8] \<le> 16" "length ([] :: bytes) < 256" "6 + length ([] :: bytes) + length [0xE3 :: u8] \<le> 256" by simp_all
  from r [OF small] obtain out where o: "let (send, recv) = client_keys (\<lambda>_. replicate 16 3) sample_bignum (replicate 16 7) out;
      recv = snd (rc4_apply (drop 96 out) recv);
      (ack, send) = rc4_apply (client_ack [] [0xE3]) send
    in \<forall>later data. concat later = fst (rc4_apply data send) \<longrightarrow>
      (\<exists>cs. make_stream (\<lambda>_. replicate 16 3) sample_bignum (1, 2, 3) True ([], [?hello] @ ack # later) = (Inr (cs, [], later), out) \<and>
        cs_send cs = Some recv \<and> (\<forall>rooms. \<exists>left. fst (read_stream rooms (cs, [], later)) @ left = [0xE3] @ data))"
    by (rule exE)
  obtain send0 recv0 where keys: "client_keys (\<lambda>_. replicate 16 3) sample_bignum (replicate 16 7) out = (send0, recv0)" by fastforce
  obtain ack send where a: "rc4_apply (client_ack [] [0xE3]) send0 = (ack, send)" by fastforce
  have "concat [] = fst (rc4_apply [] send)" by simp
  with o have "\<exists>cs. make_stream (\<lambda>_. replicate 16 3) sample_bignum (1, 2, 3) True ([], [?hello] @ ack # []) = (Inr (cs, [], []), out)"
    unfolding keys a Let_def case_prod_conv by blast
  then show ?thesis by auto
qed

text \<open>Padding that arrives on its own, after the rest of the hello, is taken for the acknowledgement: the
  connection of a client that follows the protocol fails.\<close>

lemma late_padding_fails:
  assumes B: "bignum_ok B" and marker: "marker \<notin> set PLAIN_MARKERS" and pad: "0 < length hello_pad" "length hello_pad < 6"
  shows "fst (make_stream md5 B seeds True ([], take 98 (client_hello B marker a_priv hello_pad) # hello_pad # later_on)) = Inl (Crypt HandshakeShort)"
proof -
  let ?tl = "dh_pow_mod B a_priv @ [of_nat (length hello_pad)]"
  have l: "length (dh_pow_mod B a_priv) = 96" by (rule dh_pow_mod_ok(1) [OF B])
  have t: "take 98 (client_hello B marker a_priv hello_pad) = marker # ?tl" using l by (simp add: client_hello_def)
  obtain s where s: "sock_read 1 ([], [marker # ?tl] @ hello_pad # later_on) = ([marker], s)" "fill_hello [] s = Some (?tl, [], hello_pad # later_on)"
    using hello_read [of "[marker # ?tl]" marker ?tl "hello_pad # later_on"] l by auto
  obtain response ob where neg: "negotiate md5 B seeds (marker # ?tl) (obfuscation_new True) = (Inr response, ob)" "ob_recv ob \<noteq> None"
    using l by (auto simp: negotiate_def Let_def DH_PRIME_SIZE_def case_prod_unfold)
  then obtain k where k: "ob_recv ob = Some k" by auto
  have "fst (handshake hello_pad ob) = Inl HandshakeShort" using k pad by (simp add: handshake_def Let_def case_prod_unfold)
  moreover have "sock_read 256 ([], hello_pad # later_on) = (hello_pad, [], later_on)" "hello_pad \<noteq> []"
    using pad sock_read_all [of hello_pad 256 later_on] by auto
  ultimately show ?thesis using make_stream_hello [OF s(1) marker s(2) neg(1)] t by (cases "handshake hello_pad ob") simp
qed

end
