(* ===== verification/Datagram_Obfuscation.thy ===== *)
theory Datagram_Obfuscation
  imports Obfuscation
begin

text \<open>
  Obfuscated UDP datagrams (\<open>src/proto/server_obfuscation.rs\<close>, the OBF ping of
  \<open>src/server/obf_ping.rs\<close>, and the way \<open>src/server/udp.rs\<close> looks for the key and the formula of a datagram and obfuscates
  its answer): encoding, decoding, the server key of an address. MD5 is a parameter of
  which nothing is assumed, the seed of the generators an argument.
\<close>

section \<open>Keys and ciphers\<close>

definition OBF_MAGIC :: u32 where "OBF_MAGIC = 0x13EF24D5"
definition SERVERKEY_ZERO_FALLBACK :: u32 where "SERVERKEY_ZERO_FALLBACK = 0x5D78B234"
definition MAX_PAD :: nat where "MAX_PAD = 12"

definition word_at :: "nat \<Rightarrow> bytes \<Rightarrow> u32" where
  "word_at i bs = of_nat (from_le (take 4 (drop i bs)))"

definition ip_obfuscate :: "(bytes \<Rightarrow> bytes) \<Rightarrow> bytes \<Rightarrow> u32 \<Rightarrow> u32" where
  "ip_obfuscate md5 seckey peer_ip_le =
     (let digest = md5 (seckey @ to_le 4 (unat peer_ip_le));
          key = word_at 0 digest XOR word_at 4 digest XOR word_at 8 digest XOR word_at 12 digest
      in if key = 0 then SERVERKEY_ZERO_FALLBACK else key)"

definition derive_cipher :: "(bytes \<Rightarrow> bytes) \<Rightarrow> u32 \<Rightarrow> u8 \<times> u8 \<Rightarrow> rc4" where
  "derive_cipher md5 server_key salt = rc4_new (md5 (to_le 4 (unat server_key) @ [fst salt, snd salt, 0])) False"

definition derive_cipher_with_obfbyte :: "(bytes \<Rightarrow> bytes) \<Rightarrow> u32 \<Rightarrow> u8 \<times> u8 \<Rightarrow> u8 \<Rightarrow> rc4" where
  "derive_cipher_with_obfbyte md5 server_key salt obf_byte =
     rc4_new (md5 (to_le 4 (unat server_key) @ [obf_byte, fst salt, snd salt])) False"

section \<open>Decoding\<close>

text \<open>Behind the two functions of the source, which differ in the cipher.\<close>

definition decode_blob :: "bytes \<Rightarrow> rc4 \<Rightarrow> bytes option" where
  "decode_blob encrypted cipher =
     (let blob = fst (rc4_apply encrypted cipher)
      in if word_at 0 blob \<noteq> OBF_MAGIC then None
         else let msg_start = 5 + unat (blob ! 4 AND 0x0F)
              in if length blob \<le> msg_start then None else Some (drop msg_start blob))"

definition decode_datagram :: "(bytes \<Rightarrow> bytes) \<Rightarrow> bytes \<Rightarrow> u32 \<Rightarrow> bytes option" where
  "decode_datagram md5 datagram server_key =
     (if length datagram < 10 then None
      else decode_blob (drop 3 datagram) (derive_cipher md5 server_key (datagram ! 1, datagram ! 2)))"

definition decode_with_obfbyte :: "(bytes \<Rightarrow> bytes) \<Rightarrow> bytes \<Rightarrow> u32 \<Rightarrow> u8 \<Rightarrow> bytes option" where
  "decode_with_obfbyte md5 datagram server_key obf_byte =
     (if length datagram < 10 then None
      else decode_blob (drop 3 datagram) (derive_cipher_with_obfbyte md5 server_key (datagram ! 1, datagram ! 2) obf_byte))"

section \<open>Encoding\<close>

definition xorshift :: "u32 \<Rightarrow> u32" where
  "xorshift s =
     (let s = s XOR push_bit 13 s; s = s XOR drop_bit 17 s
      in s XOR push_bit 5 s)"

definition plain_marker :: "u8 \<Rightarrow> bool" where
  "plain_marker b \<longleftrightarrow> b = 0xE3 \<or> b = 0xD4 \<or> b = 0xC5"

text \<open>The loop that draws a first byte a receiver does not take for a plain frame.\<close>

partial_function (option) draw_pad0 :: "u32 \<Rightarrow> (u8 \<times> u32) option" where
  "draw_pad0 state =
     (let state = xorshift state; pad0 = ucast (state AND 0xFF)
      in if plain_marker pad0 then draw_pad0 state else Some (pad0, state))"

text \<open>What the two encoders draw alike: the first byte, the salt and the length of the padding.\<close>

definition draw_head :: "u32 \<Rightarrow> (u8 \<times> (u8 \<times> u8) \<times> nat) option" where
  "draw_head rng_seed =
     map_option (\<lambda>(pad0, state).
       let state = xorshift state; salt = (ucast (state AND 0xFF), ucast (drop_bit 8 state AND 0xFF));
           state = xorshift state
       in (pad0, salt, unat state mod (MAX_PAD + 1)))
     (draw_pad0 (rng_seed XOR 0x9E3779B9))"

definition plain_blob :: "nat \<Rightarrow> bytes \<Rightarrow> bytes" where
  "plain_blob padlen message = to_le 4 (unat OBF_MAGIC) @ [of_nat padlen AND 0x0F] @ replicate padlen 0 @ message"

definition encode_datagram :: "(bytes \<Rightarrow> bytes) \<Rightarrow> bytes \<Rightarrow> u32 \<Rightarrow> u32 \<Rightarrow> bytes option" where
  "encode_datagram md5 message server_key rng_seed =
     map_option (\<lambda>(pad0, salt, padlen).
       [pad0, fst salt, snd salt] @ fst (rc4_apply (plain_blob padlen message) (derive_cipher md5 server_key salt)))
     (draw_head rng_seed)"

definition encode_with_obfbyte :: "(bytes \<Rightarrow> bytes) \<Rightarrow> bytes \<Rightarrow> u32 \<Rightarrow> u32 \<Rightarrow> u8 \<Rightarrow> bytes option" where
  "encode_with_obfbyte md5 message server_key rng_seed obf_byte =
     map_option (\<lambda>(pad0, salt, padlen).
       [pad0, fst salt, snd salt] @
       fst (rc4_apply (plain_blob padlen message) (derive_cipher_with_obfbyte md5 server_key salt obf_byte)))
     (draw_head rng_seed)"

section \<open>Which key, which formula\<close>

datatype formula = Gossip | ObfA5 | Obf6B

definition try_decode :: "(bytes \<Rightarrow> bytes) \<Rightarrow> bytes \<Rightarrow> u32 \<Rightarrow> formula \<Rightarrow> bytes option" where
  "try_decode md5 data key f =
     (case (case f of Gossip \<Rightarrow> decode_datagram md5 data key
                    | ObfA5 \<Rightarrow> decode_with_obfbyte md5 data key 0xA5
                    | Obf6B \<Rightarrow> decode_with_obfbyte md5 data key 0x6B) of
        Some inner \<Rightarrow> if length inner \<ge> 2 \<and> inner ! 0 = 0xE3 then Some inner else None
      | None \<Rightarrow> None)"

text \<open>The search through keys and formulas, without the pair the cache held, which was tried before.\<close>

fun search_keys ::
  "(bytes \<Rightarrow> bytes) \<Rightarrow> bytes \<Rightarrow> (u32 \<times> formula) option \<Rightarrow> (u32 \<times> formula) list \<Rightarrow> (bytes \<times> u32 \<times> formula) option" where
  "search_keys md5 data tried [] = None"
| "search_keys md5 data tried ((k, f) # kfs) =
     (if tried = Some (k, f) then search_keys md5 data tried kfs
      else case try_decode md5 data k f of
             Some inner \<Rightarrow> Some (inner, k, f)
           | None \<Rightarrow> search_keys md5 data tried kfs)"

text \<open>\<open>cached\<close> is what worked last for the sender, \<open>random_parts\<close> and \<open>seed_keys\<close> are the keys of the servers at its
  address, \<open>ip_key\<close> is its server key, \<open>admitted\<close> says whether the cost of the attempts is granted.\<close>

definition find_key ::
  "(bytes \<Rightarrow> bytes) \<Rightarrow> bytes \<Rightarrow> (u32 \<times> formula) option \<Rightarrow> bool \<Rightarrow> u32 list \<Rightarrow> u32 list \<Rightarrow> u32 \<Rightarrow> (bytes \<times> u32 \<times> formula) option" where
  "find_key md5 data cached admitted random_parts seed_keys ip_key =
     (case (case cached of Some (k, f) \<Rightarrow> map_option (\<lambda>inner. (inner, k, f)) (try_decode md5 data k f) | None \<Rightarrow> None) of
        Some r \<Rightarrow> Some r
      | None \<Rightarrow>
          if \<not> admitted then None
          else case (if cached \<noteq> Some (ip_key, Obf6B) then map_option (\<lambda>inner. (inner, ip_key, Obf6B)) (try_decode md5 data ip_key Obf6B)
                     else None) of
                 Some r \<Rightarrow> Some r
               | None \<Rightarrow>
                   let keys = random_parts @ seed_keys @ [ip_key];
                       formulas = (if length keys = 1 then [Obf6B, ObfA5, Gossip] else [Gossip, ObfA5, Obf6B])
                   in search_keys md5 data cached (concat (map (\<lambda>k. map (Pair k) formulas) keys)))"

text \<open>An answer goes out with the key and the formula of the other direction.\<close>

definition obfuscate_reply :: "(bytes \<Rightarrow> bytes) \<Rightarrow> bytes \<Rightarrow> u32 \<Rightarrow> formula \<Rightarrow> u32 \<Rightarrow> bytes option" where
  "obfuscate_reply md5 message key f rng_seed =
     (case f of Gossip \<Rightarrow> encode_datagram md5 message key rng_seed
              | ObfA5 \<Rightarrow> encode_with_obfbyte md5 message key rng_seed 0x6B
              | Obf6B \<Rightarrow> encode_with_obfbyte md5 message key rng_seed 0xA5)"

section \<open>OBF pings\<close>

definition is_crypt_ping :: "bytes \<Rightarrow> bool" where
  "is_crypt_ping data \<longleftrightarrow> 4 \<le> length data \<and> length data \<le> 19 \<and> take 4 data \<noteq> [0, 0, 0, 0]"

definition quick_random :: "u32 \<Rightarrow> u32" where
  "quick_random s = (let s = xorshift s in if s = 0 then 0x0BADF00D else s)"

primrec draw_bytes :: "nat \<Rightarrow> u32 \<Rightarrow> bytes \<times> u32" where
  "draw_bytes 0 s = ([], s)"
| "draw_bytes (Suc n) s = (let s = quick_random s; (bs, s') = draw_bytes n s in (ucast (s AND 0xFF) # bs, s'))"

text \<open>The first byte is drawn again while it looks like that of a plain frame.\<close>

partial_function (option) redraw_first :: "u8 \<Rightarrow> u32 \<Rightarrow> (u8 \<times> u32) option" where
  "redraw_first b s =
     (if plain_marker b then let s = quick_random s in redraw_first (ucast (s AND 0xFF)) s else Some (b, s))"

text \<open>The datagram of a ping, with the key the ping keeps for the reply.\<close>

definition obf_ping :: "u32 \<Rightarrow> (bytes \<times> u32) option" where
  "obf_ping s =
     (let random_part = quick_random s; s = quick_random random_part;
          (pad, s) = draw_bytes (unat s mod 15) s;
          payload = to_le 4 (unat random_part) @ pad
      in map_option (\<lambda>(b, s). (b # tl payload, random_part)) (redraw_first (hd payload) s))"

definition extract_server_key :: "bytes \<Rightarrow> u32 option" where
  "extract_server_key msg =
     (if length msg < 2 then None
      else if msg ! 0 \<noteq> 0xE3 \<or> msg ! 1 \<noteq> 0x97 then None
      else if length (drop 2 msg) < 40 then None
      else Some (word_at 36 (drop 2 msg)))"

definition read_reply :: "bytes option \<Rightarrow> (u32 \<times> bytes) option" where
  "read_reply msg = Option.bind msg (\<lambda>msg. map_option (\<lambda>key. (key, drop 2 msg)) (extract_server_key msg))"

definition decode_obf_s2s_reply :: "(bytes \<Rightarrow> bytes) \<Rightarrow> bytes \<Rightarrow> u32 \<Rightarrow> (u32 \<times> bytes) option" where
  "decode_obf_s2s_reply md5 packet session_key =
     (if length packet < 10 then None
      else case read_reply (decode_with_obfbyte md5 packet session_key 0xA5) of
             Some r \<Rightarrow> Some r
           | None \<Rightarrow> read_reply (decode_with_obfbyte md5 packet session_key 0))"

section \<open>The generator leaves the marker bytes\<close>

text \<open>\<open>xorshift\<close> is linear over exclusive or, and so is the parity of the low byte.\<close>

definition parity :: "u32 \<Rightarrow> u32" where
  "parity w = (let w = w XOR drop_bit 4 w; w = w XOR drop_bit 2 w; w = w XOR drop_bit 1 w in w AND 1)"

text \<open>A parity over the next six states that is even for every seed, and odd for six marker bytes.\<close>

definition six_parity :: "u32 \<Rightarrow> u32" where
  "six_parity s =
     (let s1 = xorshift s; s2 = xorshift s1; s3 = xorshift s2; s4 = xorshift s3; s5 = xorshift s4; s6 = xorshift s5
      in parity (s1 AND 0x1F) XOR parity (s2 AND 0x9F) XOR parity (s3 AND 0x0E) XOR parity (s4 AND 0xE2) XOR
         parity (s5 AND 0xC8) XOR parity (s6 AND 0x11))"

lemmas xor_ac = xor.assoc xor.commute xor.left_commute

lemma shift_xor:
  "(a XOR b) XOR push_bit n (a XOR b) = (a XOR push_bit n a) XOR (b XOR push_bit n b)"
  "(a XOR b) XOR drop_bit n (a XOR b) = (a XOR drop_bit n a) XOR (b XOR drop_bit n b)" for a b :: u32
  by (simp_all only: push_bit_xor drop_bit_xor xor_ac)

lemma xorshift_xor: "xorshift (a XOR b) = xorshift a XOR xorshift b"
proof -
  define a1 b1 where d1: "a1 = a XOR push_bit 13 a" "b1 = b XOR push_bit 13 b"
  define a2 b2 where d2: "a2 = a1 XOR drop_bit 17 a1" "b2 = b1 XOR drop_bit 17 b1"
  have "xorshift x = (let y = x XOR push_bit 13 x; z = y XOR drop_bit 17 y in z XOR push_bit 5 z)" for x
    by (simp add: xorshift_def)
  then show ?thesis using shift_xor(1) [of a b 13, folded d1] shift_xor(2) [of a1 b1 17, folded d2] shift_xor(1) [of a2 b2 5]
    by (simp only: Let_def d1 [symmetric] d2 [symmetric])
qed

lemma and_xor: "(a XOR b) AND m = (a AND m) XOR (b AND m)" for a b m :: u32
  by (simp add: bit_eq_iff bit_simps) blast

lemma parity_xor: "parity (a XOR b) = parity a XOR parity b"
proof -
  define a1 b1 where d1: "a1 = a XOR drop_bit 4 a" "b1 = b XOR drop_bit 4 b"
  define a2 b2 where d2: "a2 = a1 XOR drop_bit 2 a1" "b2 = b1 XOR drop_bit 2 b1"
  show ?thesis using shift_xor(2) [of a b 4, folded d1] shift_xor(2) [of a1 b1 2, folded d2] shift_xor(2) [of a2 b2 1]
    by (simp only: parity_def Let_def d1 [symmetric] d2 [symmetric]) (rule and_xor)
qed

lemma six_parity_xor: "six_parity (a XOR b) = six_parity a XOR six_parity b"
  unfolding six_parity_def Let_def xorshift_xor and_xor parity_xor by (simp only: xor_ac)

lemma six_parity_steps:
  "six_parity s =
     parity (xorshift s AND 0x1F) XOR parity (xorshift (xorshift s) AND 0x9F) XOR
     parity (xorshift (xorshift (xorshift s)) AND 0x0E) XOR parity (xorshift (xorshift (xorshift (xorshift s))) AND 0xE2) XOR
     parity (xorshift (xorshift (xorshift (xorshift (xorshift s)))) AND 0xC8) XOR
     parity (xorshift (xorshift (xorshift (xorshift (xorshift (xorshift s))))) AND 0x11)"
  by (simp add: six_parity_def Let_def)

text \<open>The orbits of the single bits.\<close>

lemma orbit_1: "map xorshift
     [1, 2, 4, 8, 16, 32, 64, 128, 256, 512, 1024, 2048, 4096, 8192, 16384, 32768, 65536, 131072, 262144, 524288, 1048576,
     2097152, 4194304, 8388608, 16777216, 33554432, 67108864, 134217728, 268435456, 536870912, 1073741824, 2147483648] =
     [270369, 540738, 1081476, 2162952, 4325937, 8651874, 17303748, 34607496, 69214992, 138429984, 276859968, 553719936,
     1107439872, 2214879744, 134792192, 269584384, 539168768, 1078337569, 2156675138, 17301636, 34603272, 69206544, 138413088,
     276826176, 553652352, 1107304704, 2214609408, 134251520, 268503040, 537006080, 1074012160, 2148024320]"
  by (simp add: xorshift_def Let_def)

lemma orbit_2: "map xorshift
     [270369, 540738, 1081476, 2162952, 4325937, 8651874, 17303748, 34607496, 69214992, 138429984, 276859968, 553719936,
     1107439872, 2214879744, 134792192, 269584384, 539168768, 1078337569, 2156675138, 17301636, 34603272, 69206544, 138413088,
     276826176, 553652352, 1107304704, 2214609408, 134251520, 268503040, 537006080, 1074012160, 2148024320] =
     [67634689, 134253570, 268507140, 537014280, 1082410067, 2164820134, 33657164, 67314328, 134628625, 269257250, 538514500,
     1077029000, 2154058033, 13148770, 26297540, 52595080, 105190193, 201982464, 402949120, 570982664, 1141965328, 2283930625,
     272893954, 545787908, 1091575816, 2183151632, 71335968, 143753280, 287506560, 575013153, 1150026306, 2299036804]"
  by (simp add: xorshift_def Let_def)

lemma orbit_3: "map xorshift
     [67634689, 134253570, 268507140, 537014280, 1082410067, 2164820134, 33657164, 67314328, 134628625, 269257250, 538514500,
     1077029000, 2154058033, 13148770, 26297540, 52595080, 105190193, 201982464, 402949120, 570982664, 1141965328, 2283930625,
     272893954, 545787908, 1091575816, 2183151632, 71335968, 143753280, 287506560, 575013153, 1150026306, 2299036804] =
     [2647435461, 697882754, 1395765508, 2791531049, 3385215700, 2476479912, 891888216, 1783776432, 3559173411, 2824460870,
     1352873100, 2705746233, 1108145680, 2216291360, 137615424, 275230881, 542065952, 3306070149, 2552023042, 1998232476,
     3996464921, 3706341968, 3116635296, 1939384640, 3878769280, 3462571297, 2631256642, 732568972, 1465137977, 2921878032,
     1547707424, 2861646152]"
  by (simp add: xorshift_def Let_def)

lemma orbit_4: "map xorshift
     [2647435461, 697882754, 1395765508, 2791531049, 3385215700, 2476479912, 891888216, 1783776432, 3559173411, 2824460870,
     1352873100, 2705746233, 1108145680, 2216291360, 137615424, 275230881, 542065952, 3306070149, 2552023042, 1998232476,
     3996464921, 3706341968, 3116635296, 1939384640, 3878769280, 3462571297, 2631256642, 732568972, 1465137977, 2921878032,
     1547707424, 2861646152] =
     [307599695, 1670953222, 3341906444, 2397225082, 319134170, 873118396, 1025996745, 2051993490, 1906135427, 4047186446,
     4033305909, 3763248681, 1159566999, 2318118190, 340253309, 672108696, 3582921717, 853477706, 579705100, 2840083624,
     1376804146, 564138112, 1364273160, 2963527960, 1632088624, 3256860674, 2519632140, 1802410401, 3596424992, 690619525,
     1078263810, 3585606292]"
  by (simp add: xorshift_def Let_def)

lemma orbit_5: "map xorshift
     [307599695, 1670953222, 3341906444, 2397225082, 319134170, 873118396, 1025996745, 2051993490, 1906135427, 4047186446,
     4033305909, 3763248681, 1159566999, 2318118190, 340253309, 672108696, 3582921717, 853477706, 579705100, 2840083624,
     1376804146, 564138112, 1364273160, 2963527960, 1632088624, 3256860674, 2519632140, 1802410401, 3596424992, 690619525,
     1078263810, 3585606292] =
     [2398689233, 3819972634, 3344977972, 189827724, 2817503589, 150759762, 2820274918, 1344501196, 2919683829, 456042067,
     1677716085, 1124031084, 237937520, 239882185, 235516633, 2575519574, 2865201197, 2905749137, 2753981082, 1970279174,
     1869614281, 1437608536, 4266808864, 3147245528, 2000605104, 2045525165, 2800385003, 3003536396, 3818685180, 1592302424,
     3907204128, 1756881985]"
  by (simp add: xorshift_def Let_def)

lemma orbit_6: "map xorshift
     [2398689233, 3819972634, 3344977972, 189827724, 2817503589, 150759762, 2820274918, 1344501196, 2919683829, 456042067,
     1677716085, 1124031084, 237937520, 239882185, 235516633, 2575519574, 2865201197, 2905749137, 2753981082, 1970279174,
     1869614281, 1437608536, 4266808864, 3147245528, 2000605104, 2045525165, 2800385003, 3003536396, 3818685180, 1592302424,
     3907204128, 1756881985] =
     [745495504, 818967331, 1638950503, 1512175116, 1772357892, 1058741401, 2146130372, 3989289633, 4023508921, 863016321,
     1217503373, 2682476565, 2455307344, 1896918643, 839078128, 4250344226, 42181836, 2548830017, 1205262880, 2500720974,
     3016387613, 1335576197, 643268875, 3001877934, 2010874452, 826642865, 3682241312, 1232793903, 195319997, 4260630201,
     1116279155, 332285342]"
  by (simp add: xorshift_def Let_def)

lemma orbit_parity_1: "map (\<lambda>w. parity (w AND 0x1F))
     [270369, 540738, 1081476, 2162952, 4325937, 8651874, 17303748, 34607496, 69214992, 138429984, 276859968, 553719936,
     1107439872, 2214879744, 134792192, 269584384, 539168768, 1078337569, 2156675138, 17301636, 34603272, 69206544, 138413088,
     276826176, 553652352, 1107304704, 2214609408, 134251520, 268503040, 537006080, 1074012160, 2148024320] =
     [1, 1, 1, 1, 0, 1, 1, 1, 1, 0, 0, 0, 0, 0, 0, 0, 0, 1, 1, 1, 1, 1, 0, 0, 0, 0, 0, 0, 0, 0, 0, 0]"
  by (simp add: parity_def Let_def)

lemma orbit_parity_2: "map (\<lambda>w. parity (w AND 0x9F))
     [67634689, 134253570, 268507140, 537014280, 1082410067, 2164820134, 33657164, 67314328, 134628625, 269257250, 538514500,
     1077029000, 2154058033, 13148770, 26297540, 52595080, 105190193, 201982464, 402949120, 570982664, 1141965328, 2283930625,
     272893954, 545787908, 1091575816, 2183151632, 71335968, 143753280, 287506560, 575013153, 1150026306, 2299036804] =
     [1, 1, 1, 1, 1, 1, 0, 1, 0, 1, 1, 0, 0, 1, 0, 0, 0, 0, 0, 1, 1, 1, 1, 1, 1, 1, 0, 0, 1, 1, 1, 0]"
  by (simp add: parity_def Let_def)

lemma orbit_parity_3: "map (\<lambda>w. parity (w AND 0x0E))
     [2647435461, 697882754, 1395765508, 2791531049, 3385215700, 2476479912, 891888216, 1783776432, 3559173411, 2824460870,
     1352873100, 2705746233, 1108145680, 2216291360, 137615424, 275230881, 542065952, 3306070149, 2552023042, 1998232476,
     3996464921, 3706341968, 3116635296, 1939384640, 3878769280, 3462571297, 2631256642, 732568972, 1465137977, 2921878032,
     1547707424, 2861646152] =
     [1, 1, 1, 1, 1, 1, 1, 0, 1, 0, 0, 1, 0, 0, 0, 0, 0, 1, 1, 0, 1, 0, 0, 0, 0, 0, 1, 0, 1, 0, 0, 1]"
  by (simp add: parity_def Let_def)

lemma orbit_parity_4: "map (\<lambda>w. parity (w AND 0xE2))
     [307599695, 1670953222, 3341906444, 2397225082, 319134170, 873118396, 1025996745, 2051993490, 1906135427, 4047186446,
     4033305909, 3763248681, 1159566999, 2318118190, 340253309, 672108696, 3582921717, 853477706, 579705100, 2840083624,
     1376804146, 564138112, 1364273160, 2963527960, 1632088624, 3256860674, 2519632140, 1802410401, 3596424992, 690619525,
     1078263810, 3585606292] =
     [0, 1, 0, 1, 1, 0, 0, 0, 0, 1, 1, 1, 0, 0, 0, 1, 1, 0, 0, 0, 0, 1, 0, 0, 1, 1, 0, 0, 1, 1, 1, 1]"
  by (simp add: parity_def Let_def)

lemma orbit_parity_5: "map (\<lambda>w. parity (w AND 0xC8))
     [2398689233, 3819972634, 3344977972, 189827724, 2817503589, 150759762, 2820274918, 1344501196, 2919683829, 456042067,
     1677716085, 1124031084, 237937520, 239882185, 235516633, 2575519574, 2865201197, 2905749137, 2753981082, 1970279174,
     1869614281, 1437608536, 4266808864, 3147245528, 2000605104, 2045525165, 2800385003, 3003536396, 3818685180, 1592302424,
     3907204128, 1756881985] =
     [0, 1, 0, 0, 1, 1, 0, 1, 0, 1, 1, 0, 1, 1, 1, 1, 1, 1, 0, 0, 1, 0, 0, 1, 1, 0, 1, 1, 1, 0, 0, 1]"
  by (simp add: parity_def Let_def)

lemma orbit_parity_6: "map (\<lambda>w. parity (w AND 0x11))
     [745495504, 818967331, 1638950503, 1512175116, 1772357892, 1058741401, 2146130372, 3989289633, 4023508921, 863016321,
     1217503373, 2682476565, 2455307344, 1896918643, 839078128, 4250344226, 42181836, 2548830017, 1205262880, 2500720974,
     3016387613, 1335576197, 643268875, 3001877934, 2010874452, 826642865, 3682241312, 1232793903, 195319997, 4260630201,
     1116279155, 332285342] =
     [1, 1, 1, 0, 0, 0, 0, 1, 0, 1, 1, 0, 1, 0, 1, 0, 0, 1, 0, 0, 0, 1, 1, 0, 1, 0, 0, 1, 0, 0, 0, 1]"
  by (simp add: parity_def Let_def)

lemma orbit_sum:
  assumes "map xorshift a0 = a1" "map xorshift a1 = a2" "map xorshift a2 = a3" "map xorshift a3 = a4" "map xorshift a4 = a5"
    "map xorshift a5 = a6" and
    "map (\<lambda>w. parity (w AND 0x1F)) a1 = p1" "map (\<lambda>w. parity (w AND 0x9F)) a2 = p2" "map (\<lambda>w. parity (w AND 0x0E)) a3 = p3"
    "map (\<lambda>w. parity (w AND 0xE2)) a4 = p4" "map (\<lambda>w. parity (w AND 0xC8)) a5 = p5" "map (\<lambda>w. parity (w AND 0x11)) a6 = p6"
    and "k < length a0"
  shows "six_parity (a0 ! k) = p1 ! k XOR p2 ! k XOR p3 ! k XOR p4 ! k XOR p5 ! k XOR p6 ! k"
  using assms by (auto simp: six_parity_steps)

lemma six_parity_bits:
  "\<forall>k<32. six_parity ([1, 2, 4, 8, 16, 32, 64, 128, 256, 512, 1024, 2048, 4096, 8192, 16384, 32768, 65536, 131072, 262144, 524288, 1048576,
     2097152, 4194304, 8388608, 16777216, 33554432, 67108864, 134217728, 268435456, 536870912, 1073741824, 2147483648] ! k) = 0"
proof (intro allI impI)
  fix k :: nat
  assume k: "k < 32"
  have z: "\<forall>k\<in>set [0..<32]. [1, 1, 1, 1, 0, 1, 1, 1, 1, 0, 0, 0, 0, 0, 0, 0, 0, 1, 1, 1, 1, 1, 0, 0, 0, 0, 0, 0, 0, 0, 0, 0] ! k XOR [1, 1, 1, 1, 1, 1, 0, 1, 0, 1, 1, 0, 0, 1, 0, 0, 0, 0, 0, 1, 1, 1, 1, 1, 1, 1, 0, 0, 1, 1, 1, 0] ! k XOR [1, 1, 1, 1, 1, 1, 1, 0, 1, 0, 0, 1, 0, 0, 0, 0, 0, 1, 1, 0, 1, 0, 0, 0, 0, 0, 1, 0, 1, 0, 0, 1] ! k XOR [0, 1, 0, 1, 1, 0, 0, 0, 0, 1, 1, 1, 0, 0, 0, 1, 1, 0, 0, 0, 0, 1, 0, 0, 1, 1, 0, 0, 1, 1, 1, 1] ! k XOR [0, 1, 0, 0, 1, 1, 0, 1, 0, 1, 1, 0, 1, 1, 1, 1, 1, 1, 0, 0, 1, 0, 0, 1, 1, 0, 1, 1, 1, 0, 0, 1] ! k XOR [1, 1, 1, 0, 0, 0, 0, 1, 0, 1, 1, 0, 1, 0, 1, 0, 0, 1, 0, 0, 0, 1, 1, 0, 1, 0, 0, 1, 0, 0, 0, 1] ! k = (0 :: u32)"
    by (simp add: upt_rec)
  show "six_parity ([1, 2, 4, 8, 16, 32, 64, 128, 256, 512, 1024, 2048, 4096, 8192, 16384, 32768, 65536, 131072, 262144, 524288, 1048576,
     2097152, 4194304, 8388608, 16777216, 33554432, 67108864, 134217728, 268435456, 536870912, 1073741824, 2147483648] ! k) = 0"
    by (subst orbit_sum [OF orbit_1 orbit_2 orbit_3 orbit_4 orbit_5 orbit_6 orbit_parity_1 orbit_parity_2 orbit_parity_3
        orbit_parity_4 orbit_parity_5 orbit_parity_6]) (use k z in simp_all)
qed

lemma six_parity_bit:
  assumes "k < 32"
  shows "six_parity (push_bit k 1) = 0"
proof -
  have m: "map (\<lambda>k. push_bit k (1 :: u32)) [0..<32] = [1, 2, 4, 8, 16, 32, 64, 128, 256, 512, 1024, 2048, 4096, 8192, 16384, 32768, 65536, 131072, 262144, 524288, 1048576,
     2097152, 4194304, 8388608, 16777216, 33554432, 67108864, 134217728, 268435456, 536870912, 1073741824, 2147483648]" by (simp add: upt_rec)
  have "push_bit k (1 :: u32) = map (\<lambda>k. push_bit k 1) [0..<32] ! k" using assms by simp
  then show ?thesis using six_parity_bits assms unfolding m by simp
qed

lemma six_parity_0: "six_parity 0 = 0"
proof -
  have "six_parity 0 = six_parity 0 XOR six_parity 0" using six_parity_xor [of 0 0] by simp
  then show ?thesis by simp
qed

lemma six_parity_zero: "six_parity s = 0"
proof -
  have "six_parity (take_bit n s) = 0" if "n \<le> 32" for n
    using that
  proof (induction n)
    case 0
    show ?case by (simp add: six_parity_0)
  next
    case (Suc n)
    have "take_bit (Suc n) s = take_bit n s XOR (if bit s n then push_bit n 1 else 0)"
      by (rule bit_word_eqI) (use Suc.prems in \<open>auto simp: bit_simps less_Suc_eq\<close>)
    then show ?case using Suc six_parity_bit [of n] by (auto simp: six_parity_xor six_parity_0)
  qed
  from this [of 32] show ?thesis by (simp add: take_bit_word_eq_self)
qed

lemma low_byte_marker:
  fixes s :: u32
  assumes "plain_marker (ucast (s AND 0xFF))"
  shows "s AND 0xFF = 0xE3 \<or> s AND 0xFF = 0xD4 \<or> s AND 0xFF = 0xC5"
proof -
  have m: "(0xFF :: u32) = mask 8" by (simp add: mask_eq_exp_minus_1)
  have wide: "ucast (ucast (s AND 0xFF) :: u8) = s AND 0xFF"
    unfolding m by (rule bit_word_eqI) (auto simp: bit_simps)
  consider "ucast (s AND 0xFF) = (0xE3 :: u8)" | "ucast (s AND 0xFF) = (0xD4 :: u8)" | "ucast (s AND 0xFF) = (0xC5 :: u8)"
    using assms by (auto simp: plain_marker_def)
  then show ?thesis
    by cases (use wide in simp_all)
qed

text \<open>The parities of the three marker bytes under the six masks.\<close>

lemma marker_parity:
  fixes s :: u32
  assumes "plain_marker (ucast (s AND 0xFF))"
  shows "parity (s AND 0x1F) = 0" "parity (s AND 0x9F) = 1" "parity (s AND 0x0E) = 1" "parity (s AND 0xE2) = 0"
    "parity (s AND 0xC8) = 0" "parity (s AND 0x11) = 1"
proof -
  have m: "s AND n = (s AND 0xFF) AND n" if "0xFF AND n = n" for n :: u32 using that by (simp add: and.assoc)
  have a: "s AND 0x1F = (s AND 0xFF) AND 0x1F" "s AND 0x9F = (s AND 0xFF) AND 0x9F" "s AND 0x0E = (s AND 0xFF) AND 0x0E"
      "s AND 0xE2 = (s AND 0xFF) AND 0xE2" "s AND 0xC8 = (s AND 0xFF) AND 0xC8" "s AND 0x11 = (s AND 0xFF) AND 0x11"
    by (rule m; simp)+
  show "parity (s AND 0x1F) = 0" "parity (s AND 0x9F) = 1" "parity (s AND 0x0E) = 1" "parity (s AND 0xE2) = 0"
    "parity (s AND 0xC8) = 0" "parity (s AND 0x11) = 1"
    unfolding a using low_byte_marker [OF assms] by (elim disjE; simp add: parity_def Let_def)+
qed

lemma markers_end:
  "\<exists>n<6. \<not> plain_marker (ucast ((xorshift ^^ Suc n) s AND 0xFF))"
proof (rule ccontr)
  assume none: "\<not> ?thesis"
  then have m: "plain_marker (ucast ((xorshift ^^ Suc n) s AND 0xFF))" if "n < 6" for n using that by blast
  have "plain_marker (ucast (xorshift s AND 0xFF))" "plain_marker (ucast (xorshift (xorshift s) AND 0xFF))"
      "plain_marker (ucast (xorshift (xorshift (xorshift s)) AND 0xFF))"
      "plain_marker (ucast (xorshift (xorshift (xorshift (xorshift s))) AND 0xFF))"
      "plain_marker (ucast (xorshift (xorshift (xorshift (xorshift (xorshift s)))) AND 0xFF))"
      "plain_marker (ucast (xorshift (xorshift (xorshift (xorshift (xorshift (xorshift s))))) AND 0xFF))"
    using m [of 0] m [of 1] m [of 2] m [of 3] m [of 4] m [of 5] by (simp_all add: eval_nat_numeral)
  note p = marker_parity(1) [OF this(1)] marker_parity(2) [OF this(2)] marker_parity(3) [OF this(3)]
    marker_parity(4) [OF this(4)] marker_parity(5) [OF this(5)] marker_parity(6) [OF this(6)]
  have "six_parity s = 1" unfolding six_parity_steps p by simp
  then show False using six_parity_zero [of s] by simp
qed

lemma draw_step:
  "draw_pad0 s = (if plain_marker (ucast (xorshift s AND 0xFF)) then draw_pad0 (xorshift s) else Some (ucast (xorshift s AND 0xFF), xorshift s))"
  by (subst draw_pad0.simps) (simp add: Let_def)

lemma draw_pad0_ends: "\<exists>b s'. draw_pad0 s = Some (b, s') \<and> \<not> plain_marker b"
proof -
  have "\<exists>b s'. draw_pad0 s = Some (b, s') \<and> \<not> plain_marker b" if "\<not> plain_marker (ucast ((xorshift ^^ Suc n) s AND 0xFF))" for n s
    using that
  proof (induction n arbitrary: s)
    case 0
    then show ?case by (simp add: draw_step)
  next
    case (Suc n)
    then show ?case by (cases "plain_marker (ucast (xorshift s AND 0xFF))") (auto simp: draw_step [of s] funpow_Suc_right simp del: funpow.simps)
  qed
  then show ?thesis using markers_end [of s] by blast
qed

section \<open>Round trips\<close>

lemma magic_bytes: "from_le (to_le 4 (unat OBF_MAGIC)) = unat OBF_MAGIC"
  by (rule from_le_to_le) (simp add: OBF_MAGIC_def)

lemma decode_blob_ok:
  assumes "padlen \<le> 12" "message \<noteq> []"
  shows "decode_blob (fst (rc4_apply (plain_blob padlen message) k)) k = Some message"
proof -
  have pad: "unat ((of_nat padlen AND 0x0F) AND 0x0F :: u8) = padlen"
  proof -
    have "\<forall>n\<in>set [0..<13]. unat ((of_nat n AND 0x0F) AND 0x0F :: u8) = n" by (simp add: upt_rec)
    then show ?thesis using assms(1) by simp
  qed
  have "word_at 0 (plain_blob padlen message) = OBF_MAGIC"
    by (simp add: word_at_def plain_blob_def magic_bytes)
  moreover have "plain_blob padlen message ! 4 = of_nat padlen AND 0x0F" by (simp add: plain_blob_def nth_append)
  ultimately show ?thesis using assms(2) pad
    by (simp add: decode_blob_def rc4_apply_twice) (simp add: plain_blob_def)
qed

lemma draw_head_ends: "\<exists>pad0 salt padlen. draw_head seed = Some (pad0, salt, padlen) \<and> \<not> plain_marker pad0 \<and> padlen \<le> 12"
proof -
  obtain b s where "draw_pad0 (seed XOR 0x9E3779B9) = Some (b, s)" "\<not> plain_marker b" using draw_pad0_ends by blast
  moreover have "n mod 13 \<le> 12" for n :: nat using mod_less_divisor [of 13 n] by simp
  ultimately show ?thesis by (simp add: draw_head_def Let_def MAX_PAD_def)
qed

text \<open>C28: Every datagram of at least two bytes survives obfuscation, for every key, seed and channel byte: the
  encoder returns (its search for a first byte ends after at most six draws of the generator, whatever
  the seed), the first byte is not that of a plain frame, and the decoder with the same key gives the message back.\<close>

theorem datagrams_survive_obfuscation:
  assumes "2 \<le> length message"
  shows "(\<exists>d. encode_datagram md5 message key rng_seed = Some d \<and> \<not> plain_marker (hd d) \<and> decode_datagram md5 d key = Some message) \<and>
    (\<exists>d. encode_with_obfbyte md5 message key rng_seed obf_byte = Some d \<and> \<not> plain_marker (hd d) \<and>
       decode_with_obfbyte md5 d key obf_byte = Some message)"
proof -
  obtain pad0 salt padlen where h: "draw_head rng_seed = Some (pad0, salt, padlen)" "\<not> plain_marker pad0" "padlen \<le> 12"
    using draw_head_ends by blast
  have len: "\<not> length ([pad0, fst salt, snd salt] @ fst (rc4_apply (plain_blob padlen message) k)) < 10" for k
    using assms by (simp add: plain_blob_def)
  have ne: "message \<noteq> []" using assms by auto
  show ?thesis using h len decode_blob_ok [OF h(3) ne]
    by (simp add: encode_datagram_def encode_with_obfbyte_def decode_datagram_def decode_with_obfbyte_def)
qed

lemma datagrams_survive_obfuscation_witness:
  "\<exists>d. encode_datagram (\<lambda>_. [1]) [0xE3, 0x97] 0xDEADBEEF 12345 = Some d \<and> decode_datagram (\<lambda>_. [1]) d 0xDEADBEEF = Some [0xE3, 0x97]"
  using datagrams_survive_obfuscation [of "[0xE3, 0x97]" "\<lambda>_. [1]" "0xDEADBEEF" 12345] by auto

section \<open>Requests and their answers\<close>

lemma search_keys_sound:
  "search_keys md5 data tried kfs = Some (inner, k, f) \<Longrightarrow> try_decode md5 data k f = Some inner"
  by (induction md5 data tried kfs rule: search_keys.induct) (auto split: if_splits option.splits)

lemma search_keys_complete:
  "(k, f) \<in> set kfs \<Longrightarrow> tried \<noteq> Some (k, f) \<Longrightarrow> try_decode md5 data k f \<noteq> None \<Longrightarrow> search_keys md5 data tried kfs \<noteq> None"
  by (induction md5 data tried kfs rule: search_keys.induct) (auto split: option.splits)

text \<open>The formula in which the sender of a request reads the answer.\<close>

definition reads_answer :: "(bytes \<Rightarrow> bytes) \<Rightarrow> bytes \<Rightarrow> u32 \<Rightarrow> formula \<Rightarrow> bytes option" where
  "reads_answer md5 d key f =
     (case f of Gossip \<Rightarrow> decode_datagram md5 d key
              | ObfA5 \<Rightarrow> decode_with_obfbyte md5 d key 0x6B
              | Obf6B \<Rightarrow> decode_with_obfbyte md5 d key 0xA5)"

lemma encoders_end: "2 \<le> length message \<Longrightarrow> \<exists>d. obfuscate_reply md5 message key f seed = Some d \<and> reads_answer md5 d key f = Some message"
proof -
  assume l: "2 \<le> length message"
  obtain pad0 salt padlen where h: "draw_head seed = Some (pad0, salt, padlen)" "padlen \<le> 12"
    using draw_head_ends by blast
  have len: "\<not> length ([pad0, fst salt, snd salt] @ fst (rc4_apply (plain_blob padlen message) k)) < 10" for k
    using l by (simp add: plain_blob_def)
  have ne: "message \<noteq> []" using l by auto
  show ?thesis using h len decode_blob_ok [OF h(2) ne]
    by (cases f) (simp_all add: obfuscate_reply_def reads_answer_def encode_datagram_def encode_with_obfbyte_def
        decode_datagram_def decode_with_obfbyte_def)
qed

text \<open>If any key the server knows for the address of a datagram opens it under any formula, the server opens
  it, whatever its cache held, and the answer it sends with what it found is readable under that key by
  a peer that listens in the other direction.\<close>

theorem obfuscated_request_is_answered:
  assumes key: "k \<in> set (random_parts @ seed_keys @ [ip_key])" "try_decode md5 data k f \<noteq> None" and admitted: "admitted"
    and answer: "2 \<le> length message"
  shows "\<exists>inner k' f' d. find_key md5 data cached admitted random_parts seed_keys ip_key = Some (inner, k', f') \<and>
    try_decode md5 data k' f' = Some inner \<and>
    obfuscate_reply md5 message k' f' rng_seed = Some d \<and> reads_answer md5 d k' f' = Some message"
proof -
  let ?keys = "random_parts @ seed_keys @ [ip_key]"
  let ?forms = "if length ?keys = 1 then [Obf6B, ObfA5, Gossip] else [Gossip, ObfA5, Obf6B]"
  let ?kfs = "concat (map (\<lambda>k. map (Pair k) ?forms) ?keys)"
  have "f \<in> set ?forms" by (cases f) auto
  then have inn: "(k, f) \<in> set ?kfs" using key(1) by auto
  have "\<exists>inner k' f'. find_key md5 data cached admitted random_parts seed_keys ip_key = Some (inner, k', f') \<and> try_decode md5 data k' f' = Some inner"
  proof (cases "\<exists>k0 f0 i0. cached = Some (k0, f0) \<and> try_decode md5 data k0 f0 = Some i0")
    case True
    then show ?thesis by (auto simp: find_key_def)
  next
    case miss: False
    then have c: "(case cached of Some (k, f) \<Rightarrow> map_option (\<lambda>inner. (inner, k, f)) (try_decode md5 data k f) | None \<Rightarrow> None) = None"
      by (auto split: option.split)
    show ?thesis
    proof (cases "cached \<noteq> Some (ip_key, Obf6B) \<and> try_decode md5 data ip_key Obf6B \<noteq> None")
      case True
      then show ?thesis using c admitted by (auto simp: find_key_def)
    next
      case False
      then have "find_key md5 data cached admitted random_parts seed_keys ip_key = search_keys md5 data cached ?kfs"
        using c admitted by (auto simp: find_key_def Let_def)
      moreover have "cached \<noteq> Some (k, f)" using miss key(2) by auto
      then have "search_keys md5 data cached ?kfs \<noteq> None" using search_keys_complete [OF inn] key(2) by blast
      ultimately show ?thesis using search_keys_sound by (metis not_None_eq prod_cases3)
    qed
  qed
  then show ?thesis using encoders_end [OF answer, of md5] by metis
qed

lemma obfuscated_request_is_answered_witness:
  "\<exists>data inner k' f'. encode_with_obfbyte (\<lambda>_. [1]) [0xE3, 0x96] 7 5 0x6B = Some data \<and>
     find_key (\<lambda>_. [1]) data (Some (9, ObfA5)) True [8] [] 7 = Some (inner, k', f')"
proof -
  obtain data where d: "encode_with_obfbyte (\<lambda>_. [1]) [0xE3, 0x96] 7 5 0x6B = Some data"
      "reads_answer (\<lambda>_. [1]) data 7 ObfA5 = Some [0xE3, 0x96]"
    using encoders_end [of "[0xE3, 0x96]" "\<lambda>_. [1]" 7 ObfA5 5] by (auto simp: obfuscate_reply_def)
  then have "try_decode (\<lambda>_. [1]) data 7 Obf6B \<noteq> None" by (simp add: try_decode_def reads_answer_def)
  then show ?thesis using d obfuscated_request_is_answered [of 7 "[8]" "[]" 7 "\<lambda>_. [1]" data Obf6B True "[0xE3, 0x97]" "Some (9, ObfA5)" 1]
    by auto
qed

section \<open>The key of an OBF ping\<close>

lemma redraw_step:
  "redraw_first b s = (if plain_marker b then redraw_first (ucast (quick_random s AND 0xFF)) (quick_random s) else Some (b, s))"
  by (subst redraw_first.simps) (simp add: Let_def)

lemma redraw_ends: "\<exists>b' s'. redraw_first b s = Some (b', s') \<and> \<not> plain_marker b'"
proof -
  have "\<exists>b' s'. redraw_first (ucast (xorshift s AND 0xFF)) (xorshift s) = Some (b', s') \<and> \<not> plain_marker b'"
    if "\<not> plain_marker (ucast ((xorshift ^^ Suc n) s AND 0xFF))" for n s
    using that
  proof (induction n arbitrary: s)
    case 0
    then show ?case by (simp add: redraw_step)
  next
    case (Suc n)
    show ?case
    proof (cases "xorshift (xorshift s) = 0")
      case True
      then have "quick_random (xorshift s) = 0x0BADF00D" by (simp add: quick_random_def)
      then show ?thesis by (cases "plain_marker (ucast (xorshift s AND 0xFF))")
          (simp_all add: redraw_step [of "ucast (xorshift s AND 0xFF)"] redraw_step [of 13] plain_marker_def)
    next
      case False
      then have "quick_random (xorshift s) = xorshift (xorshift s)" by (simp add: quick_random_def Let_def)
      then show ?thesis using Suc.IH [of "xorshift s"] Suc.prems
        by (cases "plain_marker (ucast (xorshift s AND 0xFF))")
          (simp_all add: redraw_step [of "ucast (xorshift s AND 0xFF)"] funpow_Suc_right del: funpow.simps)
    qed
  qed
  then have steps: "\<exists>b' s'. redraw_first (ucast (xorshift s AND 0xFF)) (xorshift s) = Some (b', s') \<and> \<not> plain_marker b'" for s
    using markers_end [of s] by blast
  show ?thesis
  proof (cases "plain_marker b")
    case False
    then show ?thesis by (simp add: redraw_step)
  next
    case True
    show ?thesis
    proof (cases "xorshift s = 0")
      case True
      then have "quick_random s = 0x0BADF00D" by (simp add: quick_random_def)
      then show ?thesis using \<open>plain_marker b\<close> by (simp add: redraw_step [of b] redraw_step [of 13] plain_marker_def)
    next
      case False
      then have "quick_random s = xorshift s" by (simp add: quick_random_def Let_def)
      then show ?thesis using \<open>plain_marker b\<close> steps [of s] by (simp add: redraw_step [of b])
    qed
  qed
qed

lemma length_draw_bytes [simp]: "length (fst (draw_bytes n s)) = n"
  by (induction n arbitrary: s) (simp_all add: Let_def case_prod_unfold)

lemma to_le_4: "to_le 4 n = of_nat (n mod 256) # to_le 3 (n div 256)"
proof -
  have "(4 :: nat) = Suc 3" by simp
  then show ?thesis by (simp only: to_le.simps)
qed

lemma obf_ping_shape:
  obtains payload b pad where "obf_ping s = Some (payload, quick_random s)" "\<not> plain_marker b"
    "payload = b # to_le 3 (unat (quick_random s) div 256) @ pad" "length pad \<le> 14"
    "\<not> plain_marker (of_nat (unat (quick_random s) mod 256)) \<Longrightarrow> b = of_nat (unat (quick_random s) mod 256)"
proof -
  let ?key = "quick_random s" and ?s = "quick_random (quick_random s)"
  let ?pad = "fst (draw_bytes (unat ?s mod 15) ?s)" and ?s' = "snd (draw_bytes (unat ?s mod 15) ?s)"
  let ?b = "of_nat (unat ?key mod 256) :: u8"
  obtain b s'' where r: "redraw_first ?b ?s' = Some (b, s'')" "\<not> plain_marker b" using redraw_ends by blast
  have "obf_ping s = Some (b # to_le 3 (unat ?key div 256) @ ?pad, ?key)"
    using r(1) by (simp add: obf_ping_def Let_def case_prod_unfold to_le_4)
  moreover have "length ?pad \<le> 14" using mod_less_divisor [of 15 "unat ?s"] by simp
  moreover have "b = ?b" if "\<not> plain_marker ?b" using r(1) that by (simp add: redraw_step)
  ultimately show thesis using r(2) that by blast
qed

lemma word_at_payload: "n < 2 ^ 24 \<Longrightarrow> word_at 0 (b # to_le 3 n @ pad) = of_nat (unat b + 256 * n)"
proof -
  assume "n < 2 ^ 24"
  then have "from_le (to_le 3 n) = n" by (intro from_le_to_le) simp
  moreover have "take 4 (b # to_le 3 n @ pad) = b # to_le 3 n" by (simp add: take_Cons')
  ultimately show ?thesis by (simp add: word_at_def)
qed

lemma key_parts:
  fixes key :: u32
  shows "unat key div 256 < 2 ^ 24" "of_nat (unat (of_nat (unat key mod 256) :: u8) + 256 * (unat key div 256)) = key"
proof -
  have "unat key < 2 ^ 32" using unsigned_less [of key] by simp
  then show "unat key div 256 < 2 ^ 24" by (simp add: less_mult_imp_div_less)
  have "unat (of_nat (unat key mod 256) :: u8) + 256 * (unat key div 256) = unat key" by (simp add: unat_of_nat_byte)
  then show "of_nat (unat (of_nat (unat key mod 256) :: u8) + 256 * (unat key div 256)) = key" by simp
qed

text \<open>An OBF ping is a crypt ping to any server (4 to 19 bytes, not a plain frame), and a peer that obfuscates its
  answer with the key the ping carries is understood: its server key is read from the extended status
  answer. This holds for every state of the generator but those where the key's low byte is that
  of a plain frame.\<close>

theorem obf_ping_answer_is_read:
  assumes "\<not> plain_marker (of_nat (unat (quick_random s) mod 256))"
    and status: "length status = 40 + n"
  shows "\<exists>payload. obf_ping s = Some (payload, quick_random s) \<and> 4 \<le> length payload \<and> length payload \<le> 19 \<and>
    \<not> plain_marker (hd payload) \<and> word_at 0 payload = quick_random s \<and>
    (\<exists>d. encode_with_obfbyte md5 (0xE3 # 0x97 # status) (word_at 0 payload) rng_seed 0xA5 = Some d \<and>
       decode_obf_s2s_reply md5 d (quick_random s) = Some (word_at 36 status, status))"
proof -
  let ?key = "quick_random s"
  obtain payload b pad where p: "obf_ping s = Some (payload, ?key)" "\<not> plain_marker b"
      "payload = b # to_le 3 (unat ?key div 256) @ pad" "length pad \<le> 14" "b = of_nat (unat ?key mod 256)"
    using obf_ping_shape [of s] assms(1) by metis
  have key: "word_at 0 payload = ?key" using word_at_payload [OF key_parts(1)] key_parts(2) by (simp add: p(3,5))
  obtain pad0 salt padlen where h: "draw_head rng_seed = Some (pad0, salt, padlen)" "padlen \<le> 12"
    using draw_head_ends by blast
  let ?d = "[pad0, fst salt, snd salt] @ fst (rc4_apply (plain_blob padlen (0xE3 # 0x97 # status)) (derive_cipher_with_obfbyte md5 ?key salt 0xA5))"
  have len: "\<not> length ?d < 10" by (simp add: plain_blob_def status)
  have e: "encode_with_obfbyte md5 (0xE3 # 0x97 # status) ?key rng_seed 0xA5 = Some ?d" using h by (simp add: encode_with_obfbyte_def)
  have "decode_with_obfbyte md5 ?d ?key 0xA5 = Some (0xE3 # 0x97 # status)"
    using len decode_blob_ok [OF h(2), of "0xE3 # 0x97 # status"] by (simp add: decode_with_obfbyte_def)
  then have "decode_obf_s2s_reply md5 ?d ?key = Some (word_at 36 status, status)"
    using len status by (simp add: decode_obf_s2s_reply_def read_reply_def extract_server_key_def)
  then show ?thesis using p key e by auto
qed

text \<open>For those states the first byte on the wire is changed and the key kept for the answer is not:
  no answer to such a ping is in the key it is read with.\<close>

lemma marker_ping_loses_its_key:
  assumes "plain_marker (of_nat (unat (quick_random s) mod 256))"
  shows "\<exists>payload. obf_ping s = Some (payload, quick_random s) \<and> word_at 0 payload \<noteq> quick_random s"
proof -
  let ?key = "quick_random s"
  obtain payload b pad where p: "obf_ping s = Some (payload, ?key)" "\<not> plain_marker b"
      "payload = b # to_le 3 (unat ?key div 256) @ pad" using obf_ping_shape [of s] by metis
  have "word_at 0 payload \<noteq> ?key"
  proof
    assume "word_at 0 payload = ?key"
    then have "unat (of_nat (unat b + 256 * (unat ?key div 256)) :: u32) = unat ?key"
      using word_at_payload [OF key_parts(1)] by (simp add: p(3))
    moreover have "unat b < 256" "unat ?key div 256 < 2 ^ 24" using unsigned_less [of b] key_parts(1) by simp_all
    then have "unat b + 256 * (unat ?key div 256) < 2 ^ 32" by simp
    then have "unat (of_nat (unat b + 256 * (unat ?key div 256)) :: u32) = unat b + 256 * (unat ?key div 256)"
      unfolding unat_of_nat by simp
    ultimately have "unat b + 256 * (unat ?key div 256) = unat ?key" by (simp only:)
    then have "unat b = unat ?key mod 256" by (metis mult_div_mod_eq add_right_cancel add.commute)
    then have "b = of_nat (unat ?key mod 256)" by (metis word_unat_eq_iff unat_of_nat_byte)
    then show False using assms p(2) by simp
  qed
  then show ?thesis using p(1) by blast
qed

text \<open>The server key of an address is never 0, which peers take for no key.\<close>

theorem server_key_is_never_zero: "ip_obfuscate md5 seckey ip \<noteq> 0"
  by (simp add: ip_obfuscate_def Let_def SERVERKEY_ZERO_FALLBACK_def)

lemma obf_ping_answer_is_read_witness:
  "\<exists>payload d. obf_ping 1 = Some (payload, 270369) \<and> word_at 0 payload = 270369 \<and>
     decode_obf_s2s_reply (\<lambda>_. [1]) d 270369 = Some (word_at 36 (replicate 40 1), replicate 40 1)"
proof -
  have q: "quick_random 1 = 270369" by (simp add: quick_random_def xorshift_def Let_def)
  have "\<not> plain_marker (of_nat (unat (quick_random 1) mod 256))" "length (replicate 40 (1 :: u8)) = 40 + 0"
    by (simp_all add: q plain_marker_def)
  from obf_ping_answer_is_read [OF this] show ?thesis unfolding q by blast
qed

end
