(* ===== verification/Smart_Sources.thy ===== *)
theory Smart_Sources
  imports File_Slab "HOL-Library.AList"
begin

text \<open>
  The cache of encoded source replies (\<open>src/state/smart_sources.rs\<close>): entries that live for
  a configured time, a table of expired keys for the statistics, and caps on both. The two hash maps
  are association lists in the order of their iteration; the clock is in milliseconds.
\<close>

section \<open>The cache\<close>

definition DEFAULT_TTL_SECS :: u64 where "DEFAULT_TTL_SECS = 120"
definition STALE_KEEP_SECS :: u64 where "STALE_KEEP_SECS = 1200"
definition STALE_MAX :: nat where "STALE_MAX = 400000"
definition MAX_ENTRIES :: nat where "MAX_ENTRIES = 200000"

record cache_entry =
  ce_payload :: bytes
  ce_owners :: "u64 list"
  ce_inserted :: nat

type_synonym cache_key = "file_hash \<times> bool"

record smart_sources =
  ss_map :: "(cache_key \<times> cache_entry) list"
  ss_hits :: u64
  ss_misses :: u64
  ss_expired :: u64
  ss_skipped :: u64
  ss_expired_age :: "u64 list"
  ss_ttl_secs :: u64
  ss_stale :: "(cache_key \<times> u32) list"
  ss_base :: nat

definition smart_sources_new :: "nat \<Rightarrow> smart_sources" where
  "smart_sources_new now =
     \<lparr>ss_map = [], ss_hits = 0, ss_misses = 0, ss_expired = 0, ss_skipped = 0, ss_expired_age = [0, 0, 0, 0, 0],
      ss_ttl_secs = DEFAULT_TTL_SECS, ss_stale = [], ss_base = (if 3600000 \<le> now then now - 3600000 else now)\<rparr>"

text \<open>The time to live, in milliseconds.\<close>

definition ttl :: "smart_sources \<Rightarrow> nat" where
  "ttl ss = 1000 * unat (max (ss_ttl_secs ss) 1)"

definition set_ttl_secs :: "u64 \<Rightarrow> smart_sources \<Rightarrow> smart_sources" where
  "set_ttl_secs secs ss =
     (let secs = max 1 (min secs 600)
      in if ss_ttl_secs ss \<noteq> secs
         then ss\<lparr>ss_ttl_secs := secs, ss_hits := 0, ss_misses := 0, ss_expired := 0, ss_skipped := 0,
                ss_expired_age := map (\<lambda>_. 0) (ss_expired_age ss)\<rparr>
         else ss)"

definition age_bucket :: "nat \<Rightarrow> nat" where
  "age_bucket past = (if past \<le> 59 then 0 else if past \<le> 119 then 1 else if past \<le> 299 then 2 else if past \<le> 599 then 3 else 4)"

definition note_expired :: "nat \<Rightarrow> smart_sources \<Rightarrow> smart_sources" where
  "note_expired age ss =
     (let b = age_bucket ((age - ttl ss) div 1000)
      in ss\<lparr>ss_misses := ss_misses ss + 1, ss_expired := ss_expired ss + 1,
            ss_expired_age := (ss_expired_age ss)[b := ss_expired_age ss ! b + 1]\<rparr>)"

definition note_miss :: "nat \<Rightarrow> cache_key \<Rightarrow> smart_sources \<Rightarrow> smart_sources" where
  "note_miss now key ss =
     (case map_of (ss_stale ss) key of
        Some t \<Rightarrow> note_expired (1000 * ((now - ss_base ss) div 1000 - unat t)) ss
      | None \<Rightarrow> ss\<lparr>ss_misses := ss_misses ss + 1\<rparr>)"

definition get_kind_with :: "nat \<Rightarrow> cache_key \<Rightarrow> (bytes \<Rightarrow> u64 list \<Rightarrow> 'r) \<Rightarrow> smart_sources \<Rightarrow> 'r option \<times> smart_sources" where
  "get_kind_with now key f ss =
     (case map_of (ss_map ss) key of
        None \<Rightarrow> (None, note_miss now key ss)
      | Some e \<Rightarrow>
          if now - ce_inserted e < ttl ss
          then (Some (f (ce_payload e) (ce_owners e)), ss\<lparr>ss_hits := ss_hits ss + 1\<rparr>)
          else (None, note_expired (now - ce_inserted e) ss))"

definition put_kind :: "nat \<Rightarrow> cache_key \<Rightarrow> bytes \<Rightarrow> u64 list \<Rightarrow> smart_sources \<Rightarrow> smart_sources" where
  "put_kind now key payload owners ss =
     (let ss = ss\<lparr>ss_stale := AList.delete key (ss_stale ss)\<rparr>;
          store = (\<lambda>ss. ss\<lparr>ss_map := AList.update key \<lparr>ce_payload = payload, ce_owners = owners, ce_inserted = now\<rparr> (ss_map ss)\<rparr>)
      in if length (ss_map ss) \<ge> MAX_ENTRIES \<and> map_of (ss_map ss) key = None
         then let ss = ss\<lparr>ss_map := filter (\<lambda>(_, e). now - ce_inserted e < ttl ss) (ss_map ss)\<rparr>
              in if length (ss_map ss) \<ge> MAX_ENTRIES then ss\<lparr>ss_skipped := ss_skipped ss + 1\<rparr> else store ss
         else store ss)"

text \<open>\<open>u32::try_from(..).unwrap_or(u32::MAX)\<close>.\<close>

definition secs_u32 :: "nat \<Rightarrow> u32" where
  "secs_u32 n = (if n < 2 ^ 32 then of_nat n else - 1)"

fun sweep_entries ::
  "nat \<Rightarrow> nat \<Rightarrow> nat \<Rightarrow> (cache_key \<times> cache_entry) list \<Rightarrow> (cache_key \<times> u32) list \<Rightarrow>
   (cache_key \<times> cache_entry) list \<times> (cache_key \<times> u32) list" where
  "sweep_entries now life base [] stale = ([], stale)"
| "sweep_entries now life base ((k, e) # kes) stale =
     (if now - ce_inserted e < life
      then let (kes, stale) = sweep_entries now life base kes stale in ((k, e) # kes, stale)
      else sweep_entries now life base kes
             (if length stale < STALE_MAX then AList.update k (secs_u32 ((ce_inserted e - base) div 1000)) stale else stale))"

definition sweep_expired :: "nat \<Rightarrow> smart_sources \<Rightarrow> nat \<times> smart_sources" where
  "sweep_expired now ss =
     (let (kes, stale) = sweep_entries now (ttl ss) (ss_base ss) (ss_map ss) (ss_stale ss);
          keep = of_nat (ttl ss div 1000) + ucast STALE_KEEP_SECS :: u32;
          now_s = secs_u32 ((now - ss_base ss) div 1000);
          stale = filter (\<lambda>(_, t). (if t \<le> now_s then now_s - t else 0) < keep) stale
      in (length (ss_map ss) - length kes, ss\<lparr>ss_map := kes, ss_stale := stale\<rparr>))"

definition invalidate :: "file_hash \<Rightarrow> smart_sources \<Rightarrow> smart_sources" where
  "invalidate h ss =
     ss\<lparr>ss_map := AList.delete (h, True) (AList.delete (h, False) (ss_map ss)),
        ss_stale := AList.delete (h, True) (AList.delete (h, False) (ss_stale ss))\<rparr>"

section \<open>What the cache promises\<close>

text \<open>The abstract cache: for each key the last reply put, and when.\<close>

type_synonym replies = "cache_key \<rightharpoonup> bytes \<times> u64 list \<times> nat"

datatype cache_op = Put cache_key bytes "u64 list" | Get cache_key | Sweep | Invalidate file_hash | SetTtl u64

definition cache_op_step :: "nat \<Rightarrow> cache_op \<Rightarrow> smart_sources \<Rightarrow> smart_sources" where
  "cache_op_step now op ss =
     (case op of
        Put key payload owners \<Rightarrow> put_kind now key payload owners ss
      | Get key \<Rightarrow> snd (get_kind_with now key (\<lambda>_ _. ()) ss)
      | Sweep \<Rightarrow> snd (sweep_expired now ss)
      | Invalidate h \<Rightarrow> invalidate h ss
      | SetTtl secs \<Rightarrow> set_ttl_secs secs ss)"

definition replies_step :: "nat \<Rightarrow> cache_op \<Rightarrow> replies \<Rightarrow> replies" where
  "replies_step now op r =
     (case op of
        Put key payload owners \<Rightarrow> r(key \<mapsto> (payload, owners, now))
      | Invalidate h \<Rightarrow> r((h, False) := None, (h, True) := None)
      | _ \<Rightarrow> r)"

text \<open>The two run side by side over operations with their times.\<close>

fun cache_run :: "(nat \<times> cache_op) list \<Rightarrow> smart_sources \<times> replies \<Rightarrow> smart_sources \<times> replies" where
  "cache_run [] s = s"
| "cache_run ((now, op) # ops) (ss, r) = cache_run ops (cache_op_step now op ss, replies_step now op r)"

definition cache_ok :: "smart_sources \<times> replies \<Rightarrow> bool" where
  "cache_ok s \<longleftrightarrow> (case s of (ss, r) \<Rightarrow>
     distinct (map fst (ss_map ss)) \<and> distinct (map fst (ss_stale ss)) \<and>
     set (map fst (ss_map ss)) \<inter> set (map fst (ss_stale ss)) = {} \<and>
     length (ss_map ss) \<le> MAX_ENTRIES \<and> length (ss_stale ss) \<le> STALE_MAX \<and>
     1 \<le> ss_ttl_secs ss \<and> ss_ttl_secs ss \<le> 600 \<and> length (ss_expired_age ss) = 5 \<and>
     (\<forall>k e. map_of (ss_map ss) k = Some e \<longrightarrow> r k = Some (ce_payload e, ce_owners e, ce_inserted e)) \<and>
     set (map fst (ss_stale ss)) \<subseteq> dom r)"

section \<open>Invariant\<close>

lemma length_update: "length (AList.update k v al) = (if k \<in> set (map fst al) then length al else Suc (length al))"
  by (induction al) auto

lemma delete_keys: "set (map fst (AList.delete k al)) = set (map fst al) - {k}"
  by (auto simp: AList.delete_eq)

lemma length_delete: "length (AList.delete k al) \<le> length al"
  by (simp add: AList.delete_eq)

lemma map_of_filter_Some:
  assumes "distinct (map fst al)" "map_of (filter P al) k = Some v"
  shows "map_of al k = Some v"
proof -
  have "(k, v) \<in> set al" using map_of_SomeD [OF assms(2)] by simp
  then show ?thesis using assms(1) by simp
qed

lemma distinct_map_filter: "distinct (map fst al) \<Longrightarrow> distinct (map fst (filter P al))"
  by (induction al) auto

lemma filter_keys: "set (map fst (filter P al)) \<subseteq> set (map fst al)"
  by auto

text \<open>The sweep only moves entries out.\<close>

lemma sweep_entries_ok:
  assumes "sweep_entries now life base kes stale = (kes', stale')"
    and "distinct (map fst kes)" "distinct (map fst stale)" "set (map fst kes) \<inter> set (map fst stale) = {}" "length stale \<le> STALE_MAX"
  shows "kes' = filter (\<lambda>(_, e). now - ce_inserted e < life) kes \<and> distinct (map fst stale') \<and>
    set (map fst kes') \<inter> set (map fst stale') = {} \<and> length stale' \<le> STALE_MAX \<and>
    set (map fst stale') \<subseteq> set (map fst stale) \<union> set (map fst kes)"
  using assms
proof (induction now life base kes stale arbitrary: kes' stale' rule: sweep_entries.induct)
  case (2 now life base k e kes stale)
  show ?case
  proof (cases "now - ce_inserted e < life")
    case True
    obtain kes1 stale1 where s: "sweep_entries now life base kes stale = (kes1, stale1)" by fastforce
    have e: "kes' = (k, e) # kes1" "stale' = stale1" using "2.prems"(1) True s by simp_all
    have "kes1 = filter (\<lambda>(_, e). now - ce_inserted e < life) kes \<and> distinct (map fst stale1) \<and>
        set (map fst kes1) \<inter> set (map fst stale1) = {} \<and> length stale1 \<le> STALE_MAX \<and>
        set (map fst stale1) \<subseteq> set (map fst stale) \<union> set (map fst kes)"
      using "2.prems"(2-5) by (intro "2.IH"(1) [OF True s]) auto
    then have ih: "kes1 = filter (\<lambda>(_, e). now - ce_inserted e < life) kes" "distinct (map fst stale1)"
        "set (map fst kes1) \<inter> set (map fst stale1) = {}" "length stale1 \<le> STALE_MAX"
        "set (map fst stale1) \<subseteq> set (map fst stale) \<union> set (map fst kes)" by blast+
    moreover have "k \<notin> set (map fst stale1)" using ih(5) "2.prems"(2,4) by auto
    ultimately have "set (map fst kes') \<inter> set (map fst stale') = {}" by (simp add: e)
    moreover have "set (map fst stale') \<subseteq> set (map fst stale) \<union> set (map fst ((k, e) # kes))" using ih(5) e by auto
    moreover have "kes' = filter (\<lambda>(_, e). now - ce_inserted e < life) ((k, e) # kes)" using ih(1) e True by simp
    ultimately show ?thesis using ih(2,4) e(2) by blast
  next
    case False
    let ?stale = "if length stale < STALE_MAX then AList.update k (secs_u32 ((ce_inserted e - base) div 1000)) stale else stale"
    have k: "k \<notin> set (map fst stale)" using "2.prems"(4) by auto
    have d: "distinct (map fst ?stale)" using "2.prems"(3) by (simp add: AList.distinct_update)
    have keys: "set (map fst ?stale) \<subseteq> insert k (set (map fst stale))" by (auto simp: AList.dom_update)
    have "length ?stale \<le> STALE_MAX" using "2.prems"(5) k by (simp add: length_update)
    moreover have "set (map fst kes) \<inter> set (map fst ?stale) = {}"
      using keys "2.prems"(2,4) unfolding list.map fst_conv list.set distinct.simps by blast
    moreover have "sweep_entries now life base kes ?stale = (kes', stale')" using "2.prems"(1) False by simp
    ultimately have "kes' = filter (\<lambda>(_, e). now - ce_inserted e < life) kes \<and> distinct (map fst stale') \<and>
        set (map fst kes') \<inter> set (map fst stale') = {} \<and> length stale' \<le> STALE_MAX \<and>
        set (map fst stale') \<subseteq> set (map fst ?stale) \<union> set (map fst kes)"
      using "2.prems"(2) d by (intro "2.IH"(2) [OF False]) auto
    moreover have "filter (\<lambda>(_, e). now - ce_inserted e < life) ((k, e) # kes) = filter (\<lambda>(_, e). now - ce_inserted e < life) kes"
      using False by simp
    moreover have "set (map fst ((k, e) # kes)) = insert k (set (map fst kes))" by simp
    ultimately show ?thesis using keys by (simp only:) blast
  qed
qed simp

lemma cache_okD:
  assumes "cache_ok (ss, r)"
  shows "distinct (map fst (ss_map ss))" "distinct (map fst (ss_stale ss))" "set (map fst (ss_map ss)) \<inter> set (map fst (ss_stale ss)) = {}"
    "length (ss_map ss) \<le> MAX_ENTRIES" "length (ss_stale ss) \<le> STALE_MAX" "1 \<le> ss_ttl_secs ss" "ss_ttl_secs ss \<le> 600"
    "length (ss_expired_age ss) = 5"
    "\<And>k e. map_of (ss_map ss) k = Some e \<Longrightarrow> r k = Some (ce_payload e, ce_owners e, ce_inserted e)"
    "set (map fst (ss_stale ss)) \<subseteq> dom r"
  using assms unfolding cache_ok_def case_prod_conv by blast+

lemma cache_okI:
  assumes "distinct (map fst (ss_map ss))" "distinct (map fst (ss_stale ss))" "set (map fst (ss_map ss)) \<inter> set (map fst (ss_stale ss)) = {}"
    "length (ss_map ss) \<le> MAX_ENTRIES" "length (ss_stale ss) \<le> STALE_MAX" "1 \<le> ss_ttl_secs ss" "ss_ttl_secs ss \<le> 600"
    "length (ss_expired_age ss) = 5"
    "\<And>k e. map_of (ss_map ss) k = Some e \<Longrightarrow> r k = Some (ce_payload e, ce_owners e, ce_inserted e)"
    "set (map fst (ss_stale ss)) \<subseteq> dom r"
  shows "cache_ok (ss, r)"
  using assms unfolding cache_ok_def case_prod_conv by blast

text \<open>Operations that leave the two tables alone.\<close>

lemma cache_ok_counters:
  assumes "cache_ok (ss, r)" "ss_map ss' = ss_map ss" "ss_stale ss' = ss_stale ss" "1 \<le> ss_ttl_secs ss'" "ss_ttl_secs ss' \<le> 600"
    "length (ss_expired_age ss') = 5"
  shows "cache_ok (ss', r)"
  using assms by (simp add: cache_ok_def)

lemma note_expired_tables [simp]:
  "ss_map (note_expired a ss) = ss_map ss" "ss_stale (note_expired a ss) = ss_stale ss" "ss_ttl_secs (note_expired a ss) = ss_ttl_secs ss"
  "length (ss_expired_age (note_expired a ss)) = length (ss_expired_age ss)"
  by (simp_all add: note_expired_def Let_def)

lemma get_tables:
  assumes "cache_ok (ss, r)"
  shows "cache_ok (snd (get_kind_with now key f ss), r)"
  using cache_okD(6,7,8) [OF assms]
  by (intro cache_ok_counters [OF assms]) (simp_all add: get_kind_with_def note_miss_def split: option.split)

lemma store_ok:
  assumes ok: "cache_ok (ss, r)" and m: "distinct (map fst m)" "length m \<le> MAX_ENTRIES" "set (map fst m) \<subseteq> set (map fst (ss_map ss))"
    and sub: "\<And>k e. map_of m k = Some e \<Longrightarrow> map_of (ss_map ss) k = Some e"
    and room: "length m < MAX_ENTRIES \<or> key \<in> set (map fst m)"
  shows "cache_ok (ss\<lparr>ss_stale := AList.delete key (ss_stale ss),
      ss_map := AList.update key \<lparr>ce_payload = payload, ce_owners = owners, ce_inserted = now\<rparr> m\<rparr>, r(key \<mapsto> (payload, owners, now)))"
    (is "cache_ok (_\<lparr>ss_stale := ?stale, ss_map := AList.update key ?e m\<rparr>, _)")
proof (rule cache_okI)
  note okD = cache_okD [OF ok]
  have keys: "set (map fst (AList.update key ?e m)) = insert key (set (map fst m))" by (simp add: AList.dom_update)
  have stk: "set (map fst ?stale) = set (map fst (ss_stale ss)) - {key}" by (rule delete_keys)
  let ?ss = "ss\<lparr>ss_stale := ?stale, ss_map := AList.update key ?e m\<rparr>"
  have f: "ss_map ?ss = AList.update key ?e m" "ss_stale ?ss = ?stale" by simp_all
  show "distinct (map fst (ss_map ?ss))" unfolding f using m(1) by (rule AList.distinct_update)
  show "distinct (map fst (ss_stale ?ss))" unfolding f using okD(2) by (rule AList.distinct_delete)
  show "set (map fst (ss_map ?ss)) \<inter> set (map fst (ss_stale ?ss)) = {}" unfolding f keys stk using m(3) okD(3) by blast
  show "length (ss_map ?ss) \<le> MAX_ENTRIES"
  proof (cases "key \<in> set (map fst m)")
    case True
    then show ?thesis unfolding f length_update if_P [OF True] using m(2) by -
  next
    case False
    with room have "length m < MAX_ENTRIES" by blast
    then show ?thesis unfolding f length_update if_not_P [OF False] by (rule Suc_leI)
  qed
  show "length (ss_stale ?ss) \<le> STALE_MAX" unfolding f using length_delete okD(5) by (rule le_trans)
  show "1 \<le> ss_ttl_secs ?ss" "ss_ttl_secs ?ss \<le> 600" "length (ss_expired_age ?ss) = 5" using okD(6-8) by simp_all
  show "set (map fst (ss_stale ?ss)) \<subseteq> dom (r(key \<mapsto> (payload, owners, now)))" unfolding f stk dom_fun_upd using okD(10) by auto
  fix k e
  assume "map_of (ss_map ?ss) k = Some e"
  then have e: "((map_of m)(key \<mapsto> ?e)) k = Some e" unfolding f AList.update_conv' .
  show "(r(key \<mapsto> (payload, owners, now))) k = Some (ce_payload e, ce_owners e, ce_inserted e)"
  proof (cases "k = key")
    case True
    then have "e = ?e" using e by simp
    then show ?thesis using True by simp
  next
    case False
    then have "map_of (ss_map ss) k = Some e" using e sub [of k e] by simp
    then show ?thesis using False okD(9) by simp
  qed
qed

lemma put_kind_cases:
  "put_kind now key payload owners ss =
     (let stale = AList.delete key (ss_stale ss); m = filter (\<lambda>(_, e). now - ce_inserted e < ttl ss) (ss_map ss);
          store = AList.update key \<lparr>ce_payload = payload, ce_owners = owners, ce_inserted = now\<rparr>
      in if length (ss_map ss) \<ge> MAX_ENTRIES \<and> map_of (ss_map ss) key = None
         then if length m \<ge> MAX_ENTRIES then ss\<lparr>ss_stale := stale, ss_map := m, ss_skipped := ss_skipped ss + 1\<rparr>
              else ss\<lparr>ss_stale := stale, ss_map := store m\<rparr>
         else ss\<lparr>ss_stale := stale, ss_map := store (ss_map ss)\<rparr>)"
  by (simp add: put_kind_def Let_def ttl_def)

lemma put_ok:
  assumes "cache_ok (ss, r)"
  shows "cache_ok (put_kind now key payload owners ss, r(key \<mapsto> (payload, owners, now)))"
proof -
  note ok = cache_okD [OF assms]
  let ?m = "filter (\<lambda>(_, e). now - ce_inserted e < ttl ss) (ss_map ss)"
  let ?stale = "AList.delete key (ss_stale ss)"
  have m: "distinct (map fst ?m)" "length ?m \<le> MAX_ENTRIES" "set (map fst ?m) \<subseteq> set (map fst (ss_map ss))"
    by (rule distinct_map_filter [OF ok(1)]) (rule le_trans [OF length_filter_le ok(4)], rule filter_keys)
  consider (store) "\<not> (length (ss_map ss) \<ge> MAX_ENTRIES \<and> map_of (ss_map ss) key = None)"
    | (skip) "length (ss_map ss) \<ge> MAX_ENTRIES" "map_of (ss_map ss) key = None" "length ?m \<ge> MAX_ENTRIES"
    | (room) "length (ss_map ss) \<ge> MAX_ENTRIES" "map_of (ss_map ss) key = None" "length ?m < MAX_ENTRIES" by linarith
  then show ?thesis
  proof cases
    case store
    then have room: "length (ss_map ss) < MAX_ENTRIES \<or> key \<in> set (map fst (ss_map ss))" by (auto simp: map_of_eq_None_iff not_le)
    have p: "put_kind now key payload owners ss = ss\<lparr>ss_stale := ?stale,
        ss_map := AList.update key \<lparr>ce_payload = payload, ce_owners = owners, ce_inserted = now\<rparr> (ss_map ss)\<rparr>"
      unfolding put_kind_cases Let_def if_not_P [OF store] ..
    show ?thesis unfolding p by (rule store_ok [OF assms ok(1,4) subset_refl _ room]) assumption
  next
    case room
    have p: "put_kind now key payload owners ss = ss\<lparr>ss_stale := ?stale,
        ss_map := AList.update key \<lparr>ce_payload = payload, ce_owners = owners, ce_inserted = now\<rparr> ?m\<rparr>"
      using room by (simp add: put_kind_cases Let_def)
    show ?thesis unfolding p
      by (rule store_ok [OF assms m map_of_filter_Some [OF ok(1)] disjI1 [OF room(3)]]) assumption
  next
    case skip
    let ?ss = "ss\<lparr>ss_stale := ?stale, ss_map := ?m, ss_skipped := ss_skipped ss + 1\<rparr>"
    have f: "ss_map ?ss = ?m" "ss_stale ?ss = ?stale" by simp_all
    have p: "put_kind now key payload owners ss = ?ss" using skip by (simp add: put_kind_cases Let_def)
    have stk: "set (map fst ?stale) = set (map fst (ss_stale ss)) - {key}" by (rule delete_keys)
    show ?thesis unfolding p
    proof (rule cache_okI)
      show "distinct (map fst (ss_map ?ss))" "length (ss_map ?ss) \<le> MAX_ENTRIES" unfolding f by (rule m(1), rule m(2))
      show "distinct (map fst (ss_stale ?ss))" unfolding f using ok(2) by (rule AList.distinct_delete)
      show "set (map fst (ss_map ?ss)) \<inter> set (map fst (ss_stale ?ss)) = {}" unfolding f stk using m(3) ok(3) by blast
      show "length (ss_stale ?ss) \<le> STALE_MAX" unfolding f using length_delete ok(5) by (rule le_trans)
      show "1 \<le> ss_ttl_secs ?ss" "ss_ttl_secs ?ss \<le> 600" "length (ss_expired_age ?ss) = 5" using ok(6-8) by simp_all
      show "set (map fst (ss_stale ?ss)) \<subseteq> dom (r(key \<mapsto> (payload, owners, now)))" unfolding f stk dom_fun_upd using ok(10) by auto
      fix k e
      assume "map_of (ss_map ?ss) k = Some e"
      then have e: "map_of (ss_map ss) k = Some e" unfolding f by (rule map_of_filter_Some [OF ok(1)])
      then have "k \<noteq> key" using skip(2) by auto
      then show "(r(key \<mapsto> (payload, owners, now))) k = Some (ce_payload e, ce_owners e, ce_inserted e)" using ok(9) [OF e] by simp
    qed
  qed
qed

lemma sweep_cache_ok:
  assumes "cache_ok (ss, r)"
  shows "cache_ok (snd (sweep_expired now ss), r)"
proof -
  note ok = cache_okD [OF assms]
  obtain kes stale where s: "sweep_entries now (ttl ss) (ss_base ss) (ss_map ss) (ss_stale ss) = (kes, stale)" by fastforce
  have e: "kes = filter (\<lambda>(_, e). now - ce_inserted e < ttl ss) (ss_map ss)" "distinct (map fst stale)"
      "set (map fst kes) \<inter> set (map fst stale) = {}" "length stale \<le> STALE_MAX"
      "set (map fst stale) \<subseteq> set (map fst (ss_stale ss)) \<union> set (map fst (ss_map ss))"
    using sweep_entries_ok [OF s ok(1,2,3,5)] by blast+
  obtain P where P: "snd (sweep_expired now ss) = ss\<lparr>ss_map := kes, ss_stale := filter P stale\<rparr>"
    by (simp add: sweep_expired_def s Let_def)
  have f: "ss_map (ss\<lparr>ss_map := kes, ss_stale := filter P stale\<rparr>) = kes"
      "ss_stale (ss\<lparr>ss_map := kes, ss_stale := filter P stale\<rparr>) = filter P stale" by simp_all
  show ?thesis unfolding P
  proof (rule cache_okI, unfold f)
    show "distinct (map fst kes)" unfolding e(1) by (rule distinct_map_filter [OF ok(1)])
    show "distinct (map fst (filter P stale))" by (rule distinct_map_filter [OF e(2)])
    show "set (map fst kes) \<inter> set (map fst (filter P stale)) = {}" using e(3) filter_keys [of P stale] by blast
    show "length kes \<le> MAX_ENTRIES" unfolding e(1) by (rule le_trans [OF length_filter_le ok(4)])
    show "length (filter P stale) \<le> STALE_MAX" by (rule le_trans [OF length_filter_le e(4)])
    have "set (map fst (ss_map ss)) \<subseteq> dom r" using ok(9) by (fastforce simp: dom_map_of_conv_image_fst [symmetric])
    then show "set (map fst (filter P stale)) \<subseteq> dom r" using e(5) ok(10) filter_keys [of P stale] by blast
    fix k e
    assume "map_of kes k = Some e"
    then have "map_of (ss_map ss) k = Some e" unfolding e(1) by (rule map_of_filter_Some [OF ok(1)])
    then show "r k = Some (ce_payload e, ce_owners e, ce_inserted e)" by (rule ok(9))
  qed (use ok(6-8) in simp_all)
qed

lemma invalidate_ok:
  assumes "cache_ok (ss, r)"
  shows "cache_ok (invalidate h ss, r((h, False) := None, (h, True) := None))"
proof -
  note ok = cache_okD [OF assms]
  let ?m = "AList.delete (h, True) (AList.delete (h, False) (ss_map ss))"
  let ?stale = "AList.delete (h, True) (AList.delete (h, False) (ss_stale ss))"
  have keys: "set (map fst ?m) = set (map fst (ss_map ss)) - {(h, False)} - {(h, True)}"
    "set (map fst ?stale) = set (map fst (ss_stale ss)) - {(h, False)} - {(h, True)}" by (simp_all only: delete_keys)
  have f: "ss_map (invalidate h ss) = ?m" "ss_stale (invalidate h ss) = ?stale" by (simp_all add: invalidate_def)
  show ?thesis
  proof (rule cache_okI, unfold f)
    show "distinct (map fst ?m)" using ok(1) by (intro AList.distinct_delete)
    show "distinct (map fst ?stale)" using ok(2) by (intro AList.distinct_delete)
    show "set (map fst ?m) \<inter> set (map fst ?stale) = {}" unfolding keys using ok(3) by blast
    show "length ?m \<le> MAX_ENTRIES" using length_delete length_delete ok(4) by (rule le_trans [OF le_trans])
    show "length ?stale \<le> STALE_MAX" using length_delete length_delete ok(5) by (rule le_trans [OF le_trans])
    show "set (map fst ?stale) \<subseteq> dom (r((h, False) := None, (h, True) := None))" unfolding keys using ok(10) by auto
    fix k e
    assume "map_of ?m k = Some e"
    then have "k \<noteq> (h, False)" "k \<noteq> (h, True)" "map_of (ss_map ss) k = Some e"
      by (auto simp: AList.delete_conv' split: if_splits)
    then show "(r((h, False) := None, (h, True) := None)) k = Some (ce_payload e, ce_owners e, ce_inserted e)" using ok(9) by simp
  qed (use ok(6-8) in \<open>simp_all add: invalidate_def\<close>)
qed

lemma set_ttl_ok:
  assumes "cache_ok (ss, r)"
  shows "cache_ok (set_ttl_secs secs ss, r)"
  using cache_okD(6,7,8) [OF assms]
  by (intro cache_ok_counters [OF assms]) (auto simp: set_ttl_secs_def Let_def)

lemma cache_step_ok:
  assumes "cache_ok (ss, r)"
  shows "cache_ok (cache_op_step now op ss, replies_step now op r)"
  using put_ok [OF assms] get_tables [OF assms] sweep_cache_ok [OF assms] invalidate_ok [OF assms] set_ttl_ok [OF assms]
  by (cases op) (simp_all add: cache_op_step_def replies_step_def)

lemma cache_run_ok: "cache_ok s \<Longrightarrow> cache_ok (cache_run ops s)"
  by (induction ops s rule: cache_run.induct) (simp_all add: cache_step_ok)

lemma new_ok: "cache_ok (smart_sources_new now, Map.empty)"
  by (intro cache_okI) (simp_all add: smart_sources_new_def DEFAULT_TTL_SECS_def MAX_ENTRIES_def STALE_MAX_def)

lemma ttl_bound:
  assumes "cache_ok (ss, r)"
  shows "ttl ss \<le> 600000"
proof -
  have "max (ss_ttl_secs ss) 1 \<le> 600" using cache_okD(7) [OF assms] by simp
  then have "unat (max (ss_ttl_secs ss) 1) \<le> unat (600 :: u64)" by (rule word_le_nat_alt [THEN iffD1])
  then show ?thesis by (simp add: ttl_def)
qed

section \<open>Properties\<close>

text \<open>C36: Whatever was put, read, swept, invalidated and reconfigured, in any order and at any times, a read
  answers only with the last reply put under its key since the last invalidation, and one not older than the
  longest time to live of ten minutes; both tables stay under their caps, and the expired keys that are
  remembered are keys of replies that were put and not invalidated since.\<close>

theorem cache_serves_the_last_reply:
  assumes "cache_run ops (smart_sources_new start, Map.empty) = (ss, r)"
  shows "(case fst (get_kind_with now key Pair ss) of
            Some (payload, owners) \<Rightarrow> (\<exists>at. r key = Some (payload, owners, at) \<and> now - at < 600000)
          | None \<Rightarrow> True) \<and>
    length (ss_map ss) \<le> 200000 \<and> length (ss_stale ss) \<le> 400000 \<and> (\<forall>(k, _)\<in>set (ss_stale ss). r k \<noteq> None)"
proof -
  have ok: "cache_ok (ss, r)" using cache_run_ok [OF new_ok, of ops start] unfolding assms .
  have "(case fst (get_kind_with now key Pair ss) of
            Some (payload, owners) \<Rightarrow> (\<exists>at. r key = Some (payload, owners, at) \<and> now - at < 600000)
          | None \<Rightarrow> True)"
  proof (cases "map_of (ss_map ss) key")
    case (Some e)
    then have "r key = Some (ce_payload e, ce_owners e, ce_inserted e)" by (rule cache_okD(9) [OF ok])
    moreover have "now - ce_inserted e < 600000" if "now - ce_inserted e < ttl ss" using that ttl_bound [OF ok] by simp
    ultimately show ?thesis using Some by (simp add: get_kind_with_def)
  qed (simp add: get_kind_with_def)
  moreover have "\<forall>(k, _)\<in>set (ss_stale ss). r k \<noteq> None" using cache_okD(10) [OF ok] by auto
  ultimately show ?thesis using cache_okD(4,5) [OF ok] by (simp add: MAX_ENTRIES_def STALE_MAX_def)
qed

theorem cache_serves_the_last_reply_witness:
  "case cache_run [(0, Put ([1], False) [7] [42]), (500, Put ([1], False) [8] [42, 43]), (700, Put ([2], False) [9] [44]),
        (121000, Sweep), (122000, Put ([1], False) [6] [45]), (123000, Invalidate [2])] (smart_sources_new 0, Map.empty) of
     (ss, r) \<Rightarrow> fst (get_kind_with 124000 ([1], False) Pair ss) = Some ([6], [45]) \<and>
       length (ss_map ss) \<le> 200000 \<and> r ([1], False) = Some ([6], [45], 122000) \<and> ss_stale ss = []"
proof -
  let ?ops = "[(0, Put ([1], False) [7] [42]), (500, Put ([1], False) [8] [42, 43]), (700, Put ([2], False) [9] [44]),
        (121000, Sweep), (122000, Put ([1], False) [6] [45]), (123000, Invalidate [2])]"
  obtain ss r where s: "cache_run ?ops (smart_sources_new 0, Map.empty) = (ss, r)" by fastforce
  note defs = cache_op_step_def replies_step_def put_kind_def sweep_expired_def smart_sources_new_def ttl_def invalidate_def
    MAX_ENTRIES_def STALE_MAX_def DEFAULT_TTL_SECS_def STALE_KEEP_SECS_def secs_u32_def Let_def get_kind_with_def
  have "fst (get_kind_with 124000 ([1], False) Pair ss) = Some ([6], [45])" "r ([1], False) = Some ([6], [45], 122000)"
      "ss_stale ss = []"
    using s by (auto simp: defs)
  then show ?thesis using cache_serves_the_last_reply [OF s] unfolding s by simp
qed

end
