(* ===== verification/Get_Sources.thy ===== *)
theory Get_Sources
  imports Smart_Sources Server_Files Session_Life
begin

text \<open>
  Source requests over TCP (\<open>src/server/get_sources.rs\<close>): the parser of a request, the list of records built
  from the sources of a file, the shared payload that is cached, and the reply cut from it for one requester.
  The content filter is the argument \<open>withheld\<close>.
\<close>

section \<open>Requests\<close>

definition MAX_SOURCES_PER_REPLY :: nat where "MAX_SOURCES_PER_REPLY = 200"
definition SOURCE_SCAN :: nat where "SOURCE_SCAN = 4 * MAX_SOURCES_PER_REPLY"
definition OWNER_NATT :: u64 where "OWNER_NATT = 1"
definition IPV6_SOURCE_SENTINEL :: u32 where "IPV6_SOURCE_SENTINEL = 0xFFFFFFFF"
definition OP_FOUNDSOURCES :: u8 where "OP_FOUNDSOURCES = 0x42"
definition OP_FOUNDSOURCES_OBFU :: u8 where "OP_FOUNDSOURCES_OBFU = 0x44"

record sources_request =
  rq_hash :: file_hash
  rq_size :: "u64 option"
  rq_obfu :: bool

definition parse_sources_request :: "bytes \<Rightarrow> sources_request option" where
  "parse_sources_request payload =
     (if length payload < 16 then None
      else Some \<lparr>rq_hash = take 16 payload,
             rq_size = (if length payload \<ge> 20
               then let lo = from_le (take 4 (drop 16 payload))
                    in if lo = 0 \<and> length payload \<ge> 28 then Some (of_nat (from_le (take 8 (drop 20 payload)))) else Some (of_nat lo)
               else None),
             rq_obfu = False\<rparr>)"

definition lowid_natt :: "client \<Rightarrow> bool" where
  "lowid_natt c \<longleftrightarrow> cl_natt_capable c \<or> cl_server_flags c AND (0x1000 OR 0x00100000) \<noteq> 0"

definition reaches_lowid :: "client \<Rightarrow> bool" where
  "reaches_lowid c \<longleftrightarrow> cl_high_id c \<or> cl_natt_capable c \<or> cl_server_flags c AND (0x1000 OR 0x00100000) \<noteq> 0"

definition reply_opcode :: "sources_request \<Rightarrow> u8" where
  "reply_opcode req = (if rq_obfu req then OP_FOUNDSOURCES_OBFU else OP_FOUNDSOURCES)"

definition crypt_setting :: "u32 \<Rightarrow> u8" where
  "crypt_setting server_flags = ucast (drop_bit 9 server_flags AND 7)"

definition source_crypt :: "session_tables \<Rightarrow> bytes \<Rightarrow> u8" where
  "source_crypt t user =
     (let c = (case st_clients t user of Some (_, h) \<Rightarrow> crypt_setting (cl_server_flags h) | None \<Rightarrow> 0)
      in if c AND 1 \<noteq> 0 then c OR 0x80 else c)"

definition encode_empty_sources :: "file_hash \<Rightarrow> bytes" where
  "encode_empty_sources h = h @ [0]"

section \<open>The records of a reply\<close>

definition owner_key :: "bytes \<Rightarrow> u64" where
  "owner_key user = of_nat (from_le (take 8 user)) AND NOT OWNER_NATT"

text \<open>The record of one source with the key of its owner; \<open>None\<close> is a source the loop skips.\<close>

definition found_source :: "bool \<Rightarrow> bool \<Rightarrow> bool \<Rightarrow> session_tables \<Rightarrow> source \<Rightarrow> (bytes \<times> u64) option" where
  "found_source v6_capable obfu reaches t s =
     (let user = so_user_hash s;
          live = map_option snd (st_clients t user);
          high = (case live of Some h \<Rightarrow> cl_high_id h | None \<Rightarrow> False);
          live_low = (case live of Some h \<Rightarrow> \<not> cl_high_id h | None \<Rightarrow> False);
          natt_low = (case live of Some h \<Rightarrow> \<not> cl_high_id h \<and> lowid_natt h | None \<Rightarrow> False);
          v6 = (if v6_capable
                then (case st_ipv6 t user of Some a \<Rightarrow> if is_publishable_ipv6 a \<and> \<not> high then Some a else None | None \<Rightarrow> None)
                else None);
          stored = (if is_publishable_source_ip (source_ip s) then Some (so_ipv4 s) else None)
      in if v6_capable \<and> v6 = None \<and> live_low \<and> \<not> (reaches \<and> natt_low) then None
         else case (case (v6, live) of
                      (Some _, _) \<Rightarrow> Some IPV6_SOURCE_SENTINEL
                    | (None, Some h) \<Rightarrow> if \<not> cl_high_id h then Some (cl_assigned_id h) else stored
                    | (None, None) \<Rightarrow> stored) of
                None \<Rightarrow> None
              | Some i \<Rightarrow>
                  let c = source_crypt t user;
                      entry = to_le 4 (unat i) @ to_le 2 (unat (so_port s)) @
                              (if obfu then c # (if c AND 0x80 \<noteq> 0 then user else []) else []) @
                              (case v6 of Some a \<Rightarrow> rev (to_le 16 (unat a)) | None \<Rightarrow> [])
                  in Some (entry, owner_key user OR (if natt_low then OWNER_NATT else 0)))"

text \<open>The loop, with the number of records emitted so far.\<close>

fun emit_sources ::
  "bool \<Rightarrow> bool \<Rightarrow> bool \<Rightarrow> bytes \<Rightarrow> session_tables \<Rightarrow> source list \<Rightarrow> nat \<Rightarrow> (bytes \<times> u64) list" where
  "emit_sources v6_capable obfu reaches me t [] n = []"
| "emit_sources v6_capable obfu reaches me t (s # ss) n =
     (if v6_capable \<and> so_user_hash s = me then emit_sources v6_capable obfu reaches me t ss n
      else if n = (if v6_capable then MAX_SOURCES_PER_REPLY else MAX_SOURCES_PER_REPLY + 1) then []
      else case found_source v6_capable obfu reaches t s of
             None \<Rightarrow> emit_sources v6_capable obfu reaches me t ss n
           | Some e \<Rightarrow> e # emit_sources v6_capable obfu reaches me t ss (n + 1))"

text \<open>Connected HighID and departed sources first.\<close>

definition direct_first :: "session_tables \<Rightarrow> source list \<Rightarrow> source list" where
  "direct_first t ss =
     (let live_low = (\<lambda>s. case st_clients t (so_user_hash s) of Some (_, h) \<Rightarrow> \<not> cl_high_id h | None \<Rightarrow> False)
      in filter (\<lambda>s. \<not> live_low s) ss @ filter live_low ss)"

definition sources_payload :: "file_hash \<Rightarrow> (bytes \<times> u64) list \<Rightarrow> bytes" where
  "sources_payload h es = h @ of_nat (length es) # concat (map fst es)"

section \<open>Cutting the reply of one requester\<close>

datatype reach = All | Natt | NoLow

definition reach_of :: "client \<Rightarrow> reach" where
  "reach_of c = (if cl_high_id c then All else if reaches_lowid c then Natt else NoLow)"

fun record_bounds :: "bool \<Rightarrow> bytes \<Rightarrow> u64 list \<Rightarrow> nat \<Rightarrow> (nat \<times> nat) list option" where
  "record_bounds obfu payload [] at = (if at \<noteq> length payload then None else Some [])"
| "record_bounds obfu payload (_ # owners) at =
     (if obfu \<and> length payload \<le> at + 6 then None
      else let len = (if obfu then if payload ! (at + 6) AND 0x80 \<noteq> 0 then 23 else 7 else 6)
           in if at + len > length payload then None
              else map_option (Cons (at, at + len)) (record_bounds obfu payload owners (at + len)))"

definition kept :: "u64 \<Rightarrow> reach \<Rightarrow> u64 \<Rightarrow> bytes \<Rightarrow> bool" where
  "kept me reach owner entry \<longleftrightarrow>
     owner AND NOT OWNER_NATT \<noteq> me \<and>
     (from_le (take 4 entry) < 0x01000000 \<longrightarrow>
        (case reach of All \<Rightarrow> True | Natt \<Rightarrow> owner AND OWNER_NATT \<noteq> 0 | NoLow \<Rightarrow> False))"

fun cut_records :: "u64 \<Rightarrow> reach \<Rightarrow> bytes \<Rightarrow> (u64 \<times> nat \<times> nat) list \<Rightarrow> nat \<Rightarrow> bytes list" where
  "cut_records me reach payload [] n = []"
| "cut_records me reach payload ((owner, a, b) # rs) n =
     (let entry = take (b - a) (drop a payload)
      in if \<not> kept me reach owner entry then cut_records me reach payload rs n
         else if n = MAX_SOURCES_PER_REPLY then []
         else entry # cut_records me reach payload rs (n + 1))"

definition without_owner :: "bytes \<Rightarrow> u64 list \<Rightarrow> u64 \<Rightarrow> bool \<Rightarrow> reach \<Rightarrow> bytes" where
  "without_owner payload owners me obfu reach =
     (if length payload < 17 then payload
      else case record_bounds obfu payload owners 17 of
             None \<Rightarrow> payload
           | Some bounds \<Rightarrow>
               let rs = cut_records me reach payload (zip owners bounds) 0
               in (take 17 payload @ concat rs)[16 := of_nat (length rs)])"

section \<open>The handler\<close>

record source_server =
  sr_files :: server_files
  sr_sessions :: session_tables
  sr_cache :: smart_sources

record sources_config =
  gc_ipv6_publish_sources :: bool
  gc_cache_secs :: u64

definition handle_get_sources ::
  "(file_hash \<Rightarrow> rstr option \<Rightarrow> bool) \<Rightarrow> sources_config \<Rightarrow> nat \<Rightarrow> u32 \<Rightarrow> client \<Rightarrow> sources_request \<Rightarrow> source_server \<Rightarrow>
   (frame \<times> source_server) option" where
  "handle_get_sources withheld cfg now secs requester req s =
     (case with_record_by_hash (rq_hash req) (\<lambda>_ r. record_name r) (sv_slab (sr_files s)) of
        None \<Rightarrow> None
      | Some name \<Rightarrow>
          let reply = (\<lambda>payload. \<lparr>fr_opcode = reply_opcode req, fr_payload = payload\<rparr>)
          in if withheld (rq_hash req) name then Some (reply (encode_empty_sources (rq_hash req)), s)
             else case size_mismatch Map.empty (rq_hash req) (rq_size req) False (cl_ip requester) secs (sr_files s) of
                    None \<Rightarrow> None
                  | Some (True, files) \<Rightarrow> Some (reply (encode_empty_sources (rq_hash req)), s\<lparr>sr_files := files\<rparr>)
                  | Some (False, files) \<Rightarrow>
                      let s = s\<lparr>sr_files := files, sr_cache := set_ttl_secs (gc_cache_secs cfg) (sr_cache s)\<rparr>;
                          v6_capable = (gc_ipv6_publish_sources cfg \<and> cl_ipv6_capable requester \<and> \<not> cl_high_id requester);
                          me = owner_key (cl_user_hash requester); reach = reach_of requester;
                          (cached, cache) = (if v6_capable then (None, sr_cache s)
                             else get_kind_with now (rq_hash req, rq_obfu req)
                                    (\<lambda>p owners. without_owner p owners me (rq_obfu req) reach) (sr_cache s));
                          s = s\<lparr>sr_cache := cache\<rparr>
                      in case cached of
                           Some payload \<Rightarrow> Some (reply payload, s)
                         | None \<Rightarrow>
                             (case with_record_by_hash (rq_hash req) (\<lambda>_ r. take SOURCE_SCAN (fr_sources r)) (sv_slab (sr_files s)) of
                                None \<Rightarrow> None
                              | Some found \<Rightarrow>
                                  let sources = direct_first (sr_sessions s) (case found of Some ss \<Rightarrow> ss | None \<Rightarrow> []);
                                      es = emit_sources v6_capable (rq_obfu req) (reaches_lowid requester) (cl_user_hash requester)
                                             (sr_sessions s) sources 0;
                                      payload = sources_payload (rq_hash req) es; owners = map snd es
                                  in if v6_capable then Some (reply payload, s)
                                     else Some (reply (without_owner payload owners me (rq_obfu req) reach),
                                                s\<lparr>sr_cache := put_kind now (rq_hash req, rq_obfu req) payload owners (sr_cache s)\<rparr>)))"

section \<open>The cut\<close>

text \<open>A record of the wire format, and what the cut keeps of a list of records.\<close>

definition record_ok :: "bool \<Rightarrow> bytes \<Rightarrow> bool" where
  "record_ok obfu e \<longleftrightarrow>
     (if obfu then 7 \<le> length e \<and> length e = (if e ! 6 AND 0x80 \<noteq> 0 then 23 else 7) else length e = 6)"

definition served :: "u64 \<Rightarrow> reach \<Rightarrow> (bytes \<times> u64) list \<Rightarrow> bytes list" where
  "served me reach es = take MAX_SOURCES_PER_REPLY (map fst (filter (\<lambda>(e, owner). kept me reach owner e) es))"

lemma record_bounds_ok:
  assumes "\<forall>(e, _)\<in>set es. record_ok obfu e"
  shows "\<exists>bounds. record_bounds obfu (pre @ concat (map fst es)) (map snd es) (length pre) = Some bounds \<and> length bounds = length es \<and>
    map (\<lambda>(a, b). take (b - a) (drop a (pre @ concat (map fst es)))) bounds = map fst es"
  using assms
proof (induction es arbitrary: pre)
  case (Cons x es)
  obtain e owner where x: "x = (e, owner)" by fastforce
  have e: "record_ok obfu e" using Cons.prems x by simp
  obtain bounds where b: "record_bounds obfu ((pre @ e) @ concat (map fst es)) (map snd es) (length (pre @ e)) = Some bounds"
      "length bounds = length es"
      "map (\<lambda>(a, b). take (b - a) (drop a ((pre @ e) @ concat (map fst es)))) bounds = map fst es"
    using Cons.IH [of "pre @ e"] Cons.prems by auto
  have n: "(pre @ e @ concat (map fst es)) ! (length pre + 6) = e ! 6" if "obfu"
    using e that by (simp add: nth_append record_ok_def)
  have "record_bounds obfu (pre @ concat (map fst (x # es))) (map snd (x # es)) (length pre) =
      Some ((length pre, length pre + length e) # bounds)"
    using b(1) e n x by (auto simp: record_ok_def)
  then show ?case using b(2,3) x by (auto simp del: record_bounds.simps)
qed simp

lemma cut_records_served:
  assumes "length bounds = length es" "map (\<lambda>(a, b). take (b - a) (drop a payload)) bounds = map fst es" "n \<le> MAX_SOURCES_PER_REPLY"
  shows "cut_records me reach payload (zip (map snd es) bounds) n =
    take (MAX_SOURCES_PER_REPLY - n) (map fst (filter (\<lambda>(e, owner). kept me reach owner e) es))"
  using assms
proof (induction es arbitrary: bounds n)
  case (Cons x es)
  obtain e owner where x: "x = (e, owner)" by fastforce
  obtain a b bs where bounds: "bounds = (a, b) # bs" using Cons.prems(1) by (cases bounds) auto
  have r: "length bs = length es" "map (\<lambda>(a, b). take (b - a) (drop a payload)) bs = map fst es" "take (b - a) (drop a payload) = e"
    using Cons.prems(1,2) x bounds by auto
  show ?case
  proof (cases "kept me reach owner e \<and> n < MAX_SOURCES_PER_REPLY")
    case True
    then have "MAX_SOURCES_PER_REPLY - n = Suc (MAX_SOURCES_PER_REPLY - (n + 1))" by (simp add: Suc_diff_Suc)
    then show ?thesis using True Cons.IH [OF r(1,2), of "n + 1"] r(3) x bounds by simp
  next
    case False
    then show ?thesis using Cons.IH [OF r(1,2) Cons.prems(3)] Cons.prems(3) r(3) x bounds by auto
  qed
qed simp

lemma without_owner_served:
  assumes "length h = 16" "\<forall>(e, _)\<in>set es. record_ok obfu e"
  shows "without_owner (sources_payload h es) (map snd es) me obfu reach =
    h @ of_nat (length (served me reach es)) # concat (served me reach es)"
proof -
  let ?p = "sources_payload h es" and ?pre = "h @ [of_nat (length es)]"
  have p: "?p = ?pre @ concat (map fst es)" by (simp add: sources_payload_def)
  have len: "length ?pre = 17" using assms(1) by simp
  obtain bounds where b: "record_bounds obfu ?p (map snd es) 17 = Some bounds" "length bounds = length es"
      "map (\<lambda>(a, b). take (b - a) (drop a ?p)) bounds = map fst es"
    using record_bounds_ok [OF assms(2), of ?pre] unfolding len p by blast
  have "cut_records me reach ?p (zip (map snd es) bounds) 0 = served me reach es"
    using cut_records_served [OF b(2,3)] by (simp add: served_def)
  moreover have "take 17 ?p = ?pre" "\<not> length ?p < 17" using len by (simp_all add: p)
  ultimately show ?thesis using assms(1) b(1) by (simp add: without_owner_def Let_def list_update_append)
qed

section \<open>Every reply in every history\<close>

definition natt_low :: "session_tables \<Rightarrow> bytes \<Rightarrow> bool" where
  "natt_low t user \<longleftrightarrow> (\<exists>n h. st_clients t user = Some (n, h) \<and> \<not> cl_high_id h \<and> lowid_natt h)"

lemma owner_bits:
  "(owner_key user OR (if b then OWNER_NATT else 0)) AND NOT OWNER_NATT = owner_key user"
  "(owner_key user OR (if b then OWNER_NATT else 0)) AND OWNER_NATT \<noteq> 0 \<longleftrightarrow> b"
proof -
  show "(owner_key user OR (if b then OWNER_NATT else 0)) AND NOT OWNER_NATT = owner_key user"
    by (rule bit_word_eqI) (auto simp: owner_key_def OWNER_NATT_def bit_simps)
  have "owner_key user AND OWNER_NATT = 0"
    by (rule bit_word_eqI) (auto simp: owner_key_def OWNER_NATT_def bit_simps)
  then show "(owner_key user OR (if b then OWNER_NATT else 0)) AND OWNER_NATT \<noteq> 0 \<longleftrightarrow> b"
    by (simp add: bit.conj_disj_distrib2 OWNER_NATT_def)
qed

lemma map_option_pair: "map_option (\<lambda>i. (f i, c)) x = Some (a, b) \<Longrightarrow> (\<And>i. a = f i \<Longrightarrow> b = c \<Longrightarrow> thesis) \<Longrightarrow> thesis"
  by auto

lemma found_source_record:
  assumes "found_source False obfu r t s = Some (e, owner)" and "length (so_user_hash s) = 16"
  shows "record_ok obfu e" "owner AND NOT OWNER_NATT = owner_key (so_user_hash s)" "owner AND OWNER_NATT \<noteq> 0 \<longleftrightarrow> natt_low t (so_user_hash s)"
proof -
  let ?user = "so_user_hash s" and ?c = "source_crypt t (so_user_hash s)"
  have n: "(case map_option snd (st_clients t ?user) of None \<Rightarrow> False | Some h \<Rightarrow> \<not> cl_high_id h \<and> lowid_natt h) = natt_low t ?user"
    by (auto simp: natt_low_def split: option.split)
  let ?entry = "\<lambda>i :: u32. to_le 4 (unat i) @ to_le 2 (unat (so_port s)) @ (if obfu then ?c # (if ?c AND 0x80 \<noteq> 0 then ?user else []) else [])"
  let ?stored = "if is_publishable_source_ip (source_ip s) then Some (so_ipv4 s) else None"
  have f: "found_source False obfu r t s = map_option (\<lambda>i. (?entry i, owner_key ?user OR (if natt_low t ?user then OWNER_NATT else 0)))
      (case map_option snd (st_clients t ?user) of Some h \<Rightarrow> if \<not> cl_high_id h then Some (cl_assigned_id h) else ?stored | None \<Rightarrow> ?stored)"
    unfolding found_source_def Let_def n by (simp split: option.split)
  let ?o = "owner_key ?user OR (if natt_low t ?user then OWNER_NATT else 0)"
  obtain i where e: "e = ?entry i" and o: "owner = ?o" by (rule map_option_pair [OF assms(1) [unfolded f]]) (rule that)
  show "record_ok obfu e" using assms(2) by (simp add: e record_ok_def nth_append)
  show "owner AND NOT OWNER_NATT = owner_key (so_user_hash s)" "owner AND OWNER_NATT \<noteq> 0 \<longleftrightarrow> natt_low t (so_user_hash s)"
    unfolding o by (rule owner_bits)+
qed

text \<open>Only a requester with inline IPv6 is told less for what it can reach.\<close>

lemma found_source_classic: "found_source False obfu r t s = found_source False obfu r' t s"
  by (simp add: found_source_def)

text \<open>The sources of a file that a request looks at, and what a record was built from: a source of the file
  \<open>h\<close> in the tables \<open>files\<close>, with the sessions \<open>t\<close>.\<close>

definition scanned :: "server_files \<Rightarrow> file_hash \<Rightarrow> source set" where
  "scanned files h =
     (case with_record_by_hash h (\<lambda>_ r. take SOURCE_SCAN (fr_sources r)) (sv_slab files) of Some (Some ss) \<Rightarrow> set ss | _ \<Rightarrow> {})"

definition built :: "server_files \<Rightarrow> session_tables \<Rightarrow> file_hash \<Rightarrow> bool \<Rightarrow> bytes \<times> u64 \<Rightarrow> bool" where
  "built files t h obfu x \<longleftrightarrow>
     (\<exists>s\<in>scanned files h. found_source False obfu True t s = Some x \<and> length (so_user_hash s) = 16)"

lemma built_record: "built files t h obfu x \<Longrightarrow> record_ok obfu (fst x)"
  by (cases x) (auto simp: built_def dest: found_source_record(1))

lemma emit_built:
  assumes "set ss \<subseteq> scanned files h" "\<forall>s\<in>set ss. length (so_user_hash s) = 16"
  shows "\<forall>x\<in>set (emit_sources False obfu r me t ss n). built files t h obfu x"
  using assms
proof (induction ss arbitrary: n)
  case (Cons s ss)
  have "built files t h obfu x" if "found_source False obfu r t s = Some x" for x
    using Cons.prems that found_source_classic [of obfu r t s True] by (auto simp: built_def)
  then show ?case using Cons by (auto split: option.split)
qed simp

text \<open>A moment: when a file was asked for, and the tables then. Every cached payload was built at one.\<close>

type_synonym moment = "nat \<times> file_hash \<times> server_files \<times> session_tables"

definition cache_sound :: "moment list \<Rightarrow> smart_sources \<Rightarrow> bool" where
  "cache_sound ms ss \<longleftrightarrow> (\<forall>((h, obfu), e)\<in>set (ss_map ss). \<exists>files t es. (ce_inserted e, h, files, t) \<in> set ms \<and> length h = 16 \<and>
     ce_payload e = sources_payload h es \<and> ce_owners e = map snd es \<and> (\<forall>x\<in>set es. built files t h obfu x))"

definition users_ok :: "server_files \<Rightarrow> bool" where
  "users_ok files \<longleftrightarrow> (\<forall>h ss. with_record_by_hash h (\<lambda>_ r. take SOURCE_SCAN (fr_sources r)) (sv_slab files) = Some (Some ss) \<longrightarrow>
     (\<forall>s\<in>set ss. length (so_user_hash s) = 16))"

text \<open>Any requests, with any change of the file and session tables, sweeps and invalidations in between, and
  the moments of the requests; an invalidation strikes those of its file.\<close>

inductive sources_reached :: "moment list \<Rightarrow> source_server \<Rightarrow> bool" where
  start: "users_ok files \<Longrightarrow> sources_reached [] \<lparr>sr_files = files, sr_sessions = t, sr_cache = smart_sources_new now\<rparr>"
| ask: "sources_reached ms s \<Longrightarrow> length (rq_hash req) = 16 \<Longrightarrow>
    handle_get_sources withheld cfg now secs requester req s = Some (f, s') \<Longrightarrow>
    sources_reached ((now, rq_hash req, sr_files s, sr_sessions s) # ms) s'"
| change: "sources_reached ms s \<Longrightarrow> users_ok files \<Longrightarrow> sources_reached ms (s\<lparr>sr_files := files, sr_sessions := t\<rparr>)"
| sweep: "sources_reached ms s \<Longrightarrow> sources_reached ms (s\<lparr>sr_cache := snd (sweep_expired now (sr_cache s))\<rparr>)"
| forget: "sources_reached ms s \<Longrightarrow>
    sources_reached (filter (\<lambda>(_, k, _). k \<noteq> h) ms) (s\<lparr>sr_cache := invalidate h (sr_cache s)\<rparr>)"

lemma size_mismatch_slab:
  assumes "size_mismatch software h sz udp ip secs files = Some (b, files')"
  shows "sv_slab files' = sv_slab files"
  using assms
  by (auto simp: size_mismatch_def note_size_mismatch_def bump_def Let_def split: option.splits if_splits)

lemma cache_sound_sub:
  assumes "cache_sound ms ss" "set (ss_map ss') \<subseteq> set (ss_map ss)"
    and "\<And>m h obfu e. m \<in> set ms \<Longrightarrow> ((h, obfu), e) \<in> set (ss_map ss') \<Longrightarrow> fst (snd m) = h \<Longrightarrow> m \<in> set ms'"
  shows "cache_sound ms' ss'"
  unfolding cache_sound_def
proof (clarify)
  fix h obfu e
  assume e: "((h, obfu), e) \<in> set (ss_map ss')"
  then obtain files t es where "(ce_inserted e, h, files, t) \<in> set ms" "length h = 16" "ce_payload e = sources_payload h es"
      "ce_owners e = map snd es" "\<forall>x\<in>set es. built files t h obfu x"
    using assms(1,2) unfolding cache_sound_def by fast
  then show "\<exists>files t es. (ce_inserted e, h, files, t) \<in> set ms' \<and> length h = 16 \<and> ce_payload e = sources_payload h es \<and>
      ce_owners e = map snd es \<and> (\<forall>x\<in>set es. built files t h obfu x)"
    using assms(3) [OF _ e, of "(ce_inserted e, h, files, t)"] by auto
qed

lemma set_ttl_map [simp]: "ss_map (set_ttl_secs secs ss) = ss_map ss"
  by (simp add: set_ttl_secs_def Let_def)

lemma get_map [simp]: "ss_map (snd (get_kind_with now key f ss)) = ss_map ss"
  by (simp add: get_kind_with_def note_miss_def split: option.split)

lemma sweep_entries_sub: "set (fst (sweep_entries now life base kes stale)) \<subseteq> set kes"
proof (induction now life base kes stale rule: sweep_entries.induct)
  case (2 now life base k e kes stale)
  then show ?case by (cases "now - ce_inserted e < life") (auto simp: Let_def case_prod_unfold split del: if_split)
qed simp

lemma update_sub: "set (AList.update k v al) \<subseteq> insert (k, v) (set al)"
  by (induction al) auto

lemma put_map: "set (ss_map (put_kind now key p owners ss)) \<subseteq> insert (key, \<lparr>ce_payload = p, ce_owners = owners, ce_inserted = now\<rparr>) (set (ss_map ss))"
  (is "_ \<subseteq> insert ?e _")
proof -
  have "set (AList.update key (snd ?e) (filter P (ss_map ss))) \<subseteq> insert ?e (set (ss_map ss))" for P
    using update_sub [of key "snd ?e" "filter P (ss_map ss)"] by auto
  moreover have "set (AList.update key (snd ?e) (ss_map ss)) \<subseteq> insert ?e (set (ss_map ss))" using update_sub [of key "snd ?e"] by simp
  ultimately show ?thesis unfolding put_kind_cases Let_def by auto
qed

lemma cache_sound_more: "cache_sound ms ss \<Longrightarrow> ss_map ss' = ss_map ss \<Longrightarrow> cache_sound (m # ms) ss'"
  by (erule cache_sound_sub) simp_all

lemma cache_sound_put:
  assumes "cache_sound ms ss" "length h = 16" "\<forall>x\<in>set es. built files t h obfu x"
  shows "cache_sound ((now, h, files, t) # ms) (put_kind now (h, obfu) (sources_payload h es) (map snd es) ss)"
  unfolding cache_sound_def
proof (clarify)
  fix k o' e
  let ?e = "\<lparr>ce_payload = sources_payload h es, ce_owners = map snd es, ce_inserted = now\<rparr>"
  assume "((k, o'), e) \<in> set (ss_map (put_kind now (h, obfu) (sources_payload h es) (map snd es) ss))"
  then consider "k = h" "o' = obfu" "e = ?e" | "((k, o'), e) \<in> set (ss_map ss)"
    using put_map [of now "(h, obfu)" "sources_payload h es" "map snd es" ss] by blast
  then show "\<exists>files' t' es. (ce_inserted e, k, files', t') \<in> set ((now, h, files, t) # ms) \<and> length k = 16 \<and>
      ce_payload e = sources_payload k es \<and> ce_owners e = map snd es \<and> (\<forall>x\<in>set es. built files' t' k o' x)"
  proof cases
    case 1
    then show ?thesis using assms(2,3) by (intro exI [of _ files] exI [of _ t] exI [of _ es]) simp
  next
    case 2
    then show ?thesis using assms(1) unfolding cache_sound_def by fastforce
  qed
qed

lemma ttl_set: "ttl (set_ttl_secs secs ss) \<le> 600000"
proof -
  have "ss_ttl_secs (set_ttl_secs secs ss) = max 1 (min secs 600)" by (simp add: set_ttl_secs_def Let_def)
  then have "max (ss_ttl_secs (set_ttl_secs secs ss)) 1 \<le> 600" by (simp add: max_def min_def)
  then have "unat (max (ss_ttl_secs (set_ttl_secs secs ss)) 1) \<le> unat (600 :: u64)" by (rule word_le_nat_alt [THEN iffD1])
  then show ?thesis by (simp add: ttl_def)
qed

text \<open>The ways a request is answered.\<close>

lemma handle_cases [consumes 1, case_names empty hit build inline]:
  assumes "handle_get_sources withheld cfg now secs requester req s = Some (f, s')"
  obtains
    (empty) "fr_payload f = encode_empty_sources (rq_hash req)" "sr_cache s' = sr_cache s" "sv_slab (sr_files s') = sv_slab (sr_files s)"
  | (hit) e where "\<not> (gc_ipv6_publish_sources cfg \<and> cl_ipv6_capable requester \<and> \<not> cl_high_id requester)"
      "((rq_hash req, rq_obfu req), e) \<in> set (ss_map (sr_cache s))" "now - ce_inserted e < 600000"
      "fr_payload f = without_owner (ce_payload e) (ce_owners e) (owner_key (cl_user_hash requester)) (rq_obfu req) (reach_of requester)"
      "ss_map (sr_cache s') = ss_map (sr_cache s)" "sv_slab (sr_files s') = sv_slab (sr_files s)"
  | (build) found es ss where "\<not> (gc_ipv6_publish_sources cfg \<and> cl_ipv6_capable requester \<and> \<not> cl_high_id requester)"
      "with_record_by_hash (rq_hash req) (\<lambda>_ r. take SOURCE_SCAN (fr_sources r)) (sv_slab (sr_files s)) = Some found"
      "es = emit_sources False (rq_obfu req) (reaches_lowid requester) (cl_user_hash requester) (sr_sessions s)
         (direct_first (sr_sessions s) (case found of Some ss \<Rightarrow> ss | None \<Rightarrow> [])) 0"
      "fr_payload f = without_owner (sources_payload (rq_hash req) es) (map snd es) (owner_key (cl_user_hash requester)) (rq_obfu req) (reach_of requester)"
      "ss_map ss = ss_map (sr_cache s)"
      "sr_cache s' = put_kind now (rq_hash req, rq_obfu req) (sources_payload (rq_hash req) es) (map snd es) ss"
      "sv_slab (sr_files s') = sv_slab (sr_files s)"
  | (inline) "gc_ipv6_publish_sources cfg \<and> cl_ipv6_capable requester \<and> \<not> cl_high_id requester"
      "ss_map (sr_cache s') = ss_map (sr_cache s)" "sv_slab (sr_files s') = sv_slab (sr_files s)"
proof -
  let ?h = "rq_hash req" and ?v6 = "gc_ipv6_publish_sources cfg \<and> cl_ipv6_capable requester \<and> \<not> cl_high_id requester"
  let ?cut = "\<lambda>p owners. without_owner p owners (owner_key (cl_user_hash requester)) (rq_obfu req) (reach_of requester)"
  note h = assms [unfolded handle_get_sources_def Let_def]
  obtain name where n: "with_record_by_hash ?h (\<lambda>_ r. record_name r) (sv_slab (sr_files s)) = Some name"
    using h by (cases "with_record_by_hash ?h (\<lambda>_ r. record_name r) (sv_slab (sr_files s))") auto
  show thesis
  proof (cases "withheld ?h name")
    case True
    then show thesis using h n by (intro empty) (auto simp: n)
  next
    case False
    obtain b files where m: "size_mismatch Map.empty ?h (rq_size req) False (cl_ip requester) secs (sr_files s) = Some (b, files)"
      using h n False by (cases "size_mismatch Map.empty ?h (rq_size req) False (cl_ip requester) secs (sr_files s)") auto
    have sl: "sv_slab files = sv_slab (sr_files s)" by (rule size_mismatch_slab [OF m])
    show thesis
    proof (cases b)
      case True
      then show thesis using h n False m sl by (intro empty) auto
    next
      case no: False
      let ?ss = "set_ttl_secs (gc_cache_secs cfg) (sr_cache s)"
      show thesis
      proof (cases ?v6)
        case True
        then show thesis using h n False m no sl by (intro inline) (auto split: option.splits)
      next
        case v6: False
        obtain c ss where g: "get_kind_with now (?h, rq_obfu req) ?cut ?ss = (c, ss)" by fastforce
        have ssm: "ss_map ss = ss_map (sr_cache s)" using get_map [of now "(?h, rq_obfu req)" ?cut ?ss] unfolding g by simp
        show thesis
        proof (cases c)
          case (Some payload)
          obtain e where e: "map_of (ss_map ?ss) (?h, rq_obfu req) = Some e" "payload = ?cut (ce_payload e) (ce_owners e)"
              "now - ce_inserted e < ttl ?ss"
            using g Some by (auto simp: get_kind_with_def split: option.splits if_splits)
          have "now - ce_inserted e < 600000" using e(3) ttl_set by (rule less_le_trans)
          moreover          have "((?h, rq_obfu req), e) \<in> set (ss_map (sr_cache s))" using map_of_SomeD [OF e(1)] by simp
          ultimately show thesis using h n False m no v6 g Some sl e ssm by (intro hit [of e]) auto
        next
          case None
          obtain found where f: "with_record_by_hash ?h (\<lambda>_ r. take SOURCE_SCAN (fr_sources r)) (sv_slab files) = Some found"
            using h n False m no v6 g None by (auto split: option.splits)
          then show thesis using h n False m no v6 g sl ssm None by (intro build [of found _ ss]) auto
        qed
      qed
    qed
  qed
qed

lemma emitted_built:
  assumes "users_ok files" "with_record_by_hash h (\<lambda>_ r. take SOURCE_SCAN (fr_sources r)) (sv_slab files) = Some found"
  shows "\<forall>x\<in>set (emit_sources False obfu r me t (direct_first t (case found of Some ss \<Rightarrow> ss | None \<Rightarrow> [])) 0). built files t h obfu x"
proof (rule emit_built)
  show "set (direct_first t (case found of Some ss \<Rightarrow> ss | None \<Rightarrow> [])) \<subseteq> scanned files h"
    using assms(2) by (auto simp: direct_first_def scanned_def Let_def split: option.splits)
qed (use assms in \<open>auto simp: direct_first_def users_ok_def split: option.splits\<close>)

lemma sources_reached_ok: "sources_reached ms s \<Longrightarrow> users_ok (sr_files s) \<and> cache_sound ms (sr_cache s)"
proof (induction rule: sources_reached.induct)
  case (start files t now)
  then show ?case by (simp add: cache_sound_def smart_sources_new_def)
next
  case (ask ms s req withheld cfg now secs requester f s')
  let ?m = "(now, rq_hash req, sr_files s, sr_sessions s)"
  have u: "users_ok (sr_files s')" if "sv_slab (sr_files s') = sv_slab (sr_files s)" using ask.IH that by (simp add: users_ok_def)
  have c: "cache_sound (?m # ms) (sr_cache s')" if "ss_map (sr_cache s') = ss_map (sr_cache s)"
    by (rule cache_sound_more [OF conjunct2 [OF ask.IH] that])
  from ask(3) show ?case
  proof (cases rule: handle_cases)
    case (build found es ss)
    have "cache_sound ms ss" using ask.IH build(5) by (simp add: cache_sound_def)
    moreover have "\<forall>x\<in>set es. built (sr_files s) (sr_sessions s) (rq_hash req) (rq_obfu req) x"
      unfolding build(3) using ask.IH build(2) by (intro emitted_built) auto
    ultimately show ?thesis unfolding build(6) using u [OF build(7)] cache_sound_put ask(2) by blast
  qed (use u c in auto)
next
  case (sweep ms s now)
  have "set (ss_map (snd (sweep_expired now (sr_cache s)))) \<subseteq> set (ss_map (sr_cache s))"
    using sweep_entries_sub by (fastforce simp: sweep_expired_def Let_def case_prod_unfold)
  then have "cache_sound ms (snd (sweep_expired now (sr_cache s)))" by (rule cache_sound_sub [OF conjunct2 [OF sweep.IH]])
  then show ?case using sweep.IH by simp
next
  case (forget ms s h)
  have gone: "ss_map (invalidate h (sr_cache s)) = filter (\<lambda>((k, _), _). k \<noteq> h) (ss_map (sr_cache s))"
    by (auto simp: invalidate_def AList.delete_eq intro!: filter_cong)
  have "cache_sound (filter (\<lambda>(_, k, _). k \<noteq> h) ms) (invalidate h (sr_cache s))"
    by (rule cache_sound_sub [OF conjunct2 [OF forget.IH]]) (auto simp: gone)
  then show ?case using forget.IH by simp
qed simp_all

section \<open>Properties\<close>

lemma reach_of_cases:
  "reach_of c = NoLow \<Longrightarrow> \<not> cl_high_id c" "reach_of c = Natt \<Longrightarrow> \<not> cl_high_id c \<and> reaches_lowid c" "reach_of c = All \<Longrightarrow> cl_high_id c"
  by (auto simp: reach_of_def split: if_splits)

lemma served_record:
  assumes "\<forall>x\<in>set es. built files t h obfu x" "e \<in> set (served (owner_key me) (reach_of c) es)"
  shows "record_ok obfu e \<and> (\<exists>s\<in>scanned files h. \<exists>owner. found_source False obfu True t s = Some (e, owner) \<and> so_user_hash s \<noteq> me \<and>
    (from_le (take 4 e) < 0x01000000 \<longrightarrow> cl_high_id c \<or> reaches_lowid c \<and> natt_low t (so_user_hash s)))"
proof -
  obtain owner where e: "(e, owner) \<in> set es" "kept (owner_key me) (reach_of c) owner e"
    using assms(2) by (auto simp: served_def dest!: in_set_takeD)
  then obtain s where f: "found_source False obfu True t s = Some (e, owner)" "length (so_user_hash s) = 16" and s: "s \<in> scanned files h"
    using assms(1) by (auto simp: built_def)
  note fs = found_source_record [OF f]
  have "so_user_hash s \<noteq> me" using e(2) fs(2) by (auto simp: kept_def)
  moreover have "cl_high_id c \<or> reaches_lowid c \<and> natt_low t (so_user_hash s)" if "from_le (take 4 e) < 0x01000000"
    using e(2) fs(3) that reach_of_cases [of c] by (cases "reach_of c") (auto simp: kept_def)
  ultimately show ?thesis using fs(1) f(1) s by blast
qed

text \<open>C24: Whatever was asked before, and however files and sessions changed since a payload was cached: the
  reply to a requester without inline IPv6 is well formed, with the count of its records and at most
  200 of them, and tells of one moment: now, or a request for the same file less than ten minutes
  ago and since its last invalidation. Each record is the one that the sessions of that moment
  give for a source which the file had then, a source of another user than the requester; and a
  LowID record goes only to a requester that can reach it, by callback or with NAT traversal on both sides.\<close>

theorem sources_reply_fits_requester:
  assumes "sources_reached ms s" "length (rq_hash req) = 16"
    and "\<not> (gc_ipv6_publish_sources cfg \<and> cl_ipv6_capable requester \<and> \<not> cl_high_id requester)"
    and "handle_get_sources withheld cfg now secs requester req s = Some (f, s')"
  shows "\<exists>at files t es. (at, rq_hash req, files, t) \<in> set ((now, rq_hash req, sr_files s, sr_sessions s) # ms) \<and> now - at < 600000 \<and>
    fr_payload f = rq_hash req @ of_nat (length es) # concat es \<and> length es \<le> 200 \<and>
    (\<forall>e\<in>set es. record_ok (rq_obfu req) e \<and>
       (\<exists>u\<in>scanned files (rq_hash req). \<exists>owner. found_source False (rq_obfu req) True t u = Some (e, owner) \<and>
         so_user_hash u \<noteq> cl_user_hash requester \<and>
         (from_le (take 4 e) < 0x01000000 \<longrightarrow> cl_high_id requester \<or> reaches_lowid requester \<and> natt_low t (so_user_hash u))))"
proof -
  let ?me = "owner_key (cl_user_hash requester)" and ?h = "rq_hash req" and ?ms = "(now, rq_hash req, sr_files s, sr_sessions s) # ms"
  have ok: "users_ok (sr_files s)" "cache_sound ms (sr_cache s)" using sources_reached_ok [OF assms(1)] by simp_all
  have fits: ?thesis if m: "(at, ?h, files, t) \<in> set ?ms" "now - at < 600000" and b: "\<forall>x\<in>set es. built files t ?h (rq_obfu req) x"
      and f: "fr_payload f = without_owner (sources_payload ?h es) (map snd es) ?me (rq_obfu req) (reach_of requester)" for at files t es
  proof (rule exI [of _ at], rule exI [of _ files], rule exI [of _ t], intro exI conjI)
    let ?es = "served ?me (reach_of requester) es"
    have "\<forall>(e, _)\<in>set es. record_ok (rq_obfu req) e" using b built_record by fastforce
    then show "fr_payload f = ?h @ of_nat (length ?es) # concat ?es" unfolding f by (rule without_owner_served [OF assms(2)])
    show "length ?es \<le> 200" by (simp add: served_def MAX_SOURCES_PER_REPLY_def)
  qed (use m served_record [OF b] in blast)+
  from assms(4) show ?thesis
  proof (cases rule: handle_cases)
    case empty
    then show ?thesis
      by (intro exI [of _ now] exI [of _ "sr_files s"] exI [of _ "sr_sessions s"] exI [of _ "[]"]) (simp add: encode_empty_sources_def)
  next
    case (hit e)
    then obtain files t es where e: "(ce_inserted e, ?h, files, t) \<in> set ms" "ce_payload e = sources_payload ?h es" "ce_owners e = map snd es"
        "\<forall>x\<in>set es. built files t ?h (rq_obfu req) x"
      using ok(2) unfolding cache_sound_def by fast
    show ?thesis by (rule fits [OF _ hit(3) e(4)]) (use e hit(4) in simp_all)
  next
    case (build found es ss)
    show ?thesis
    proof (rule fits [where at = now])
      show "\<forall>x\<in>set es. built (sr_files s) (sr_sessions s) ?h (rq_obfu req) x" unfolding build(3) by (rule emitted_built [OF ok(1) build(2)])
    qed (use build(4) in simp_all)
  next
    case inline
    then show ?thesis using assms(3) by simp
  qed
qed

text \<open>Nothing is lost by cutting a shared payload: a HighID requester gets the first 200 of all the records of the
  scan but its own, when no two owners share a key.\<close>

lemma emit_take:
  "emit_sources False obfu r me t ss n = take (201 - n) (List.map_filter (found_source False obfu r t) ss)" if "n \<le> 201"
  using that
proof (induction ss arbitrary: n)
  case (Cons s ss)
  show ?case
  proof (cases "n = 201")
    case False
    then have "201 - n = Suc (201 - (n + 1))" using Cons.prems by simp
    then show ?thesis using Cons.IH [of n] Cons.IH [of "n + 1"] Cons.prems False
      by (cases "found_source False obfu r t s") (simp_all add: MAX_SOURCES_PER_REPLY_def List.map_filter_def)
  qed (simp add: MAX_SOURCES_PER_REPLY_def)
qed (simp add: List.map_filter_def)

lemma filter_take_one:
  assumes "length (filter (\<lambda>x. \<not> P x) xs) \<le> 1"
  shows "take n (filter P (take (Suc n) xs)) = take n (filter P xs)"
  using assms
proof (induction xs arbitrary: n)
  case (Cons x xs)
  show ?case
  proof (cases "P x")
    case True
    then show ?thesis using Cons by (cases n) auto
  next
    case False
    then have "filter P xs = xs" using Cons.prems by (auto simp: filter_empty_conv intro: filter_True)
    then have "\<forall>y\<in>set xs. P y" by (simp add: filter_id_conv)
    then have "filter P (take n xs) = take n xs" by (auto intro!: filter_True dest: in_set_takeD)
    then show ?thesis using False \<open>filter P xs = xs\<close> by simp
  qed
qed simp

theorem highid_gets_the_first_200:
  assumes "cl_high_id requester"
    and "distinct (map (\<lambda>x. snd x AND NOT OWNER_NATT) (List.map_filter (found_source False obfu r t) ss))"
  shows "served (owner_key (cl_user_hash requester)) (reach_of requester) (emit_sources False obfu r me t ss 0) =
    take 200 (map fst (filter (\<lambda>x. snd x AND NOT OWNER_NATT \<noteq> owner_key (cl_user_hash requester))
      (List.map_filter (found_source False obfu r t) ss)))"
proof -
  let ?all = "List.map_filter (found_source False obfu r t) ss" and ?k = "owner_key (cl_user_hash requester)"
  let ?P = "\<lambda>x :: bytes \<times> u64. snd x AND NOT OWNER_NATT \<noteq> ?k"
  have kept: "(\<lambda>(e, owner). kept ?k (reach_of requester) owner e) = ?P"
    using assms(1) by (auto simp: kept_def reach_of_def)
  have "length (filter (\<lambda>x. \<not> ?P x) xs) \<le> 1" if "distinct (map (\<lambda>x. snd x AND NOT OWNER_NATT) xs)" for xs :: "(bytes \<times> u64) list"
    using that
  proof (induction xs)
    case (Cons x xs)
    have "filter (\<lambda>x. \<not> ?P x) xs = []" if "\<not> ?P x" using Cons.prems that by (force simp: filter_empty_conv)
    then show ?case using Cons by auto
  qed simp
  then have "take 200 (filter ?P (take (Suc 200) ?all)) = take 200 (filter ?P ?all)"
    using assms(2) by (intro filter_take_one) blast
  then show ?thesis by (simp add: served_def kept emit_take MAX_SOURCES_PER_REPLY_def take_map)
qed

lemma found_record:
  fixes f :: "file_id \<Rightarrow> file_record \<Rightarrow> 'r"
  assumes "slab_ok sl" "File_Spec.holds (slab_map sl) h i r"
  shows "with_record_by_hash h f sl = Some (Some (f i r))"
  using assms(1)
proof (cases rule: find_cases [of _ h])
  case unknown
  then show ?thesis using assms(2) by (simp add: unknown_def)
next
  case (known j q idx)
  have e: "j = i" "q = r" using holds_unique [OF assms(1) known(4) assms(2)] by simp_all
  have "slab_get i sl = Some (sh_records (sl_shards sl ! unat (shard_of_hash h)) ! unat idx) \<and>
      alive_in (sl_shards sl ! unat (shard_of_hash h)) idx"
    using find_in_slab [OF assms(1), of h] known(2,3,5) slab_get_make_id [of sl "shard_of_hash h" idx] assms(1) shard_of_hash_bound e
    by (auto simp: slab_ok_def)
  then show ?thesis using known e by (auto simp: with_record_by_hash_def Let_def alive_in_def)
qed

lemma unknown_record:
  fixes f :: "file_id \<Rightarrow> file_record \<Rightarrow> 'r"
  assumes "slab_ok sl" "unknown (slab_map sl) h"
  shows "with_record_by_hash h f sl = Some None"
  using assms(1)
  by (cases rule: find_cases [of _ h]) (use assms(2) in \<open>auto simp: with_record_by_hash_def Let_def unknown_def\<close>)

text \<open>Tables with one file.\<close>

lemma one_file:
  assumes "length (so_user_hash src) = 16"
  shows "\<exists>files. users_ok files \<and> slab_ok (sv_slab files) \<and>
    (\<exists>i. File_Spec.holds (slab_map (sv_slab files)) h i (record_new h sz name [src]))"
proof -
  let ?rec = "record_new h sz name [src]"
  have new: "slab_ok slab_new" "slots_left 1 slab_new" "unknown (slab_map slab_new) h" "record_alive ?rec" "fr_hash ?rec = h"
    using slab_new_ok by (auto simp: slots_left_def unknown_def File_Spec.holds_def record_new_def record_alive_def)
  obtain i sl where I: "slab_map sl = (slab_map slab_new)(i \<mapsto> ?rec)" "slab_next 0 slab_new sl"
    using insert_step [OF new(1,2,4), of 0, unfolded new(5)] new(3) by (auto simp: unknown_def)
  then have ok: "slab_ok sl" and m: "slab_map sl = [i \<mapsto> ?rec]" using slab_new_ok by (simp_all add: slab_next_def)
  have "users_ok ((files_new False)\<lparr>sv_slab := sl\<rparr>)"
    unfolding users_ok_def
  proof (intro allI impI)
    fix k ss
    assume w: "with_record_by_hash k (\<lambda>_ r. take SOURCE_SCAN (fr_sources r)) (sv_slab ((files_new False)\<lparr>sv_slab := sl\<rparr>)) = Some (Some ss)"
    have "k = h"
    proof (rule ccontr)
      assume "k \<noteq> h"
      then have "unknown (slab_map sl) k" using new(5) by (auto simp: m unknown_def File_Spec.holds_def split: if_splits)
      then show False using w unknown_record [OF ok, of k "\<lambda>_ r. take SOURCE_SCAN (fr_sources r)"] by simp
    qed
    then have "ss = take SOURCE_SCAN [src]" using w found_record [OF ok, of h i ?rec "\<lambda>_ r. take SOURCE_SCAN (fr_sources r)"]
      by (simp add: m File_Spec.holds_def new(5)) (simp add: record_new_def)
    then show "\<forall>s\<in>set ss. length (so_user_hash s) = 16" using assms by (auto dest: in_set_takeD)
  qed
  then show ?thesis using ok by (intro exI [of _ "(files_new False)\<lparr>sv_slab := sl\<rparr>"])
    (auto simp: m File_Spec.holds_def new(5))
qed

definition sample_request :: sources_request where
  "sample_request = \<lparr>rq_hash = replicate 16 9, rq_size = None, rq_obfu = False\<rparr>"

lemma to_le_numeral: "to_le (numeral k) n = of_nat (n mod 256) # to_le (pred_numeral k) (n div 256)"
  by (simp only: numeral_eq_Suc [of k] to_le.simps)

lemma replicate_numeral_eq: "replicate (numeral k) x = x # replicate (pred_numeral k) x"
  by (simp only: numeral_eq_Suc [of k] replicate.simps)

lemma sample_record:
  "found_source False False r tables_empty (source_new (replicate 16 7) (V4 0x05060708) 4662 True) =
     Some ([5, 6, 7, 8, 0x36, 0x12], 0x0707070707070706)"
  by (simp add: found_source_def source_new_def source_ip_def tables_empty_def source_crypt_def owner_key_def
      OWNER_NATT_def octet_def v4_is_private_def v4_is_link_local_def v4_is_multicast_def to_le_numeral replicate_numeral_eq Let_def)

text \<open>The one source of a file, for a client of another user.\<close>

lemma sources_reply_fits_requester_witness:
  "\<exists>s f s' at files t es u owner. handle_get_sources (\<lambda>_ _. False) \<lparr>gc_ipv6_publish_sources = True, gc_cache_secs = 120\<rparr> 5000 5
       (sample_client 5 False) sample_request s = Some (f, s') \<and>
     fr_payload f = replicate 16 9 @ [1, 5, 6, 7, 8, 0x36, 0x12] \<and>
     fr_payload f = replicate 16 9 @ of_nat (length es) # concat es \<and> length es \<le> 200 \<and> [5, 6, 7, 8, 0x36, 0x12] \<in> set es \<and>
     (at, files, t) = (5000, sr_files s, sr_sessions s) \<and> u \<in> scanned files (replicate 16 9) \<and>
     found_source False False True t u = Some ([5, 6, 7, 8, 0x36, 0x12], owner) \<and> so_user_hash u \<noteq> [7]"
proof -
  let ?h = "replicate 16 9 :: bytes" and ?c = "sample_client 5 False"
  let ?src = "source_new (replicate 16 7) (V4 0x05060708) 4662 True" and ?e = "[5, 6, 7, 8, 0x36, 0x12] :: bytes"
  let ?cfg = "\<lparr>gc_ipv6_publish_sources = True, gc_cache_secs = 120\<rparr>"
  have so: "so_user_hash ?src = replicate 16 7" by (simp add: source_new_def)
  then have "length (so_user_hash ?src) = 16" by simp
  from one_file [OF this, of ?h 700 "[97]"] obtain files i where F: "users_ok files" "slab_ok (sv_slab files)"
      "File_Spec.holds (slab_map (sv_slab files)) ?h i (record_new ?h 700 [97] [?src])" by (elim exE conjE)
  let ?s = "\<lparr>sr_files = files, sr_sessions = tables_empty, sr_cache = smart_sources_new 0\<rparr>"
  have v6: "\<not> (gc_ipv6_publish_sources ?cfg \<and> cl_ipv6_capable ?c \<and> \<not> cl_high_id ?c)" by (simp add: sample_client_def)
  have u: "cl_user_hash ?c = [7]" "reach_of ?c = NoLow" "cl_ipv6_capable ?c = False"
    by (simp_all add: sample_client_def reach_of_def reaches_lowid_def)
  have req: "length (rq_hash sample_request) = 16" "rq_hash sample_request = ?h" "rq_obfu sample_request = False" "rq_size sample_request = None"
    by (simp_all add: sample_request_def)
  have "direct_first tables_empty [?src] = [?src]" by (simp add: direct_first_def tables_empty_def Let_def)
  then have es: "emit_sources False False r me tables_empty (direct_first tables_empty (take SOURCE_SCAN [?src])) 0 = [(?e, 0x0707070707070706)]" for r me
    using sample_record [of r] by (simp add: SOURCE_SCAN_def MAX_SOURCES_PER_REPLY_def)
  have k: "owner_key [7] = 6" by (simp add: owner_key_def OWNER_NATT_def)
  have "record_ok False ?e" "kept 6 NoLow 0x0707070707070706 ?e" by (simp_all add: record_ok_def kept_def OWNER_NATT_def)
  then have cut: "without_owner (sources_payload ?h [(?e, 0x0707070707070706)]) [0x0707070707070706] 6 False NoLow = ?h @ 1 # ?e"
    using without_owner_served [of ?h "[(?e, 0x0707070707070706)]" False 6 NoLow]
    by (simp add: served_def MAX_SOURCES_PER_REPLY_def)
  obtain f s' where h: "handle_get_sources (\<lambda>_ _. False) ?cfg 5000 5 ?c sample_request ?s = Some (f, s')" and p: "fr_payload f = ?h @ 1 # ?e"
    using es cut
    by (auto simp: handle_get_sources_def req u k found_record [OF F(2,3)] size_mismatch_def Let_def record_new_def
        get_kind_with_def note_miss_def smart_sources_new_def set_ttl_secs_def DEFAULT_TTL_SECS_def)
  from sources_reply_fits_requester [OF sources_reached.start [OF F(1)] req(1) v6 h]
  obtain at files' t es where M: "(at, rq_hash sample_request, files', t) \<in> set [(5000, rq_hash sample_request, sr_files ?s, sr_sessions ?s)]" "5000 - at < (600000 :: nat)"
      and E: "fr_payload f = rq_hash sample_request @ of_nat (length es) # concat es" "length es \<le> 200"
      "\<forall>e\<in>set es. record_ok (rq_obfu sample_request) e \<and>
         (\<exists>u\<in>scanned files' (rq_hash sample_request). \<exists>owner. found_source False (rq_obfu sample_request) True t u = Some (e, owner) \<and>
           so_user_hash u \<noteq> cl_user_hash ?c \<and>
           (from_le (take 4 e) < 0x01000000 \<longrightarrow> cl_high_id ?c \<or> reaches_lowid ?c \<and> natt_low t (so_user_hash u)))"
    by (elim exE conjE)
  note E = E [unfolded req u]
  have M: "files' = files" "t = tables_empty" using M(1) by simp_all
  have "\<forall>e\<in>set es. length e = 6" using E(3) by (auto simp: record_ok_def)
  moreover have c: "concat es = ?e" using E(1) p by simp
  ultimately have "es = [?e]" by (cases es; cases "tl es") (auto simp: append_eq_conv_conj)
  then have e: "?e \<in> set es" by simp
  then obtain u owner where "u \<in> scanned files ?h" "found_source False False True tables_empty u = Some (?e, owner)" "so_user_hash u \<noteq> [7]"
    using E(3) M by blast
  with h p E(1,2) e show ?thesis
    by (intro exI [of _ ?s] exI [of _ f] exI [of _ s'] exI [of _ 5000] exI [of _ files] exI [of _ tables_empty] exI [of _ es]
        exI [of _ u] exI [of _ owner] conjI) simp_all
qed

lemma highid_gets_the_first_200_witness:
  "served (owner_key [7]) (reach_of (sample_client 5 True))
     (emit_sources False False True [] tables_empty [source_new (replicate 16 1) (V4 0x05060708) 4662 True, source_new [7] (V4 0x05060709) 4663 False] 0) =
   [[5, 6, 7, 8, 0x36, 0x12]]"
proof -
  let ?ss = "[source_new (replicate 16 1) (V4 0x05060708) 4662 True, source_new [7] (V4 0x05060709) 4663 False]"
  let ?c = "sample_client 5 True"
  have found: "List.map_filter (found_source False False True tables_empty) ?ss =
      [([5, 6, 7, 8, 0x36, 0x12], 0x0101010101010100), ([5, 6, 7, 9, 0x37, 0x12], 6)]"
    by (simp add: List.map_filter_def found_source_def source_new_def source_ip_def tables_empty_def source_crypt_def owner_key_def
        OWNER_NATT_def octet_def v4_is_private_def v4_is_link_local_def v4_is_multicast_def to_le_numeral replicate_numeral_eq Let_def)
  have u: "cl_user_hash ?c = [7]" "cl_high_id ?c" by (simp_all add: sample_client_def)
  have "distinct (map (\<lambda>x. snd x AND NOT OWNER_NATT) (List.map_filter (found_source False False True tables_empty) ?ss))"
    unfolding found by (simp add: OWNER_NATT_def)
  from highid_gets_the_first_200 [OF u(2) this, of "[]"] show ?thesis
    unfolding found u(1) by (simp add: owner_key_def OWNER_NATT_def)
qed

end
