(* ===== verification/Latin_Compose.thy ===== *)
theory Latin_Compose
  imports Rust_Str
begin

text \<open>
  Recomposition of decomposed Latin letters (\<open>src/filter/nfc.rs\<close>): a base letter followed by a
  combining mark becomes the precomposed letter, a pair the table does not know is left as it
  is. \<open>compose_table\<close> is the match of \<open>compose\<close>, grouped by base letter.

  Recomposition replaces a pair only by its canonical equal (\<open>decomp\<close>: writing some letters of the result as pairs gives the name back) and
  a second pass changes nothing.
\<close>

section \<open>Marks and pairs\<close>

definition is_combining_mark :: "rchar \<Rightarrow> bool" where
  "is_combining_mark c \<longleftrightarrow>
     (0x0300 \<le> c \<and> c \<le> 0x036F) \<or> (0x1AB0 \<le> c \<and> c \<le> 0x1AFF) \<or> (0x1DC0 \<le> c \<and> c \<le> 0x1DFF) \<or>
     (0x20D0 \<le> c \<and> c \<le> 0x20FF) \<or> (0xFE20 \<le> c \<and> c \<le> 0xFE2F)"

definition compose_table :: "(rchar \<times> (rchar \<times> rchar) list) list" where
  "compose_table =
  [(97, [(0x300, 0xE0), (0x301, 0xE1), (0x302, 0xE2), (0x303, 0xE3), (0x304, 0x101), (0x306, 0x103), (0x307, 0x227), (0x308, 0xE4), (0x30A, 0xE5), (0x30C, 0x1CE), (0x328, 0x105)]),
   (101, [(0x300, 0xE8), (0x301, 0xE9), (0x302, 0xEA), (0x303, 0x1EBD), (0x304, 0x113), (0x306, 0x115), (0x307, 0x117), (0x308, 0xEB), (0x30C, 0x11B), (0x327, 0x229), (0x328, 0x119)]),
   (105, [(0x300, 0xEC), (0x301, 0xED), (0x302, 0xEE), (0x303, 0x129), (0x304, 0x12B), (0x306, 0x12D), (0x308, 0xEF), (0x30C, 0x1D0), (0x328, 0x12F)]),
   (111, [(0x300, 0xF2), (0x301, 0xF3), (0x302, 0xF4), (0x303, 0xF5), (0x304, 0x14D), (0x306, 0x14F), (0x307, 0x22F), (0x308, 0xF6), (0x30B, 0x151), (0x30C, 0x1D2), (0x328, 0x1EB)]),
   (117, [(0x300, 0xF9), (0x301, 0xFA), (0x302, 0xFB), (0x303, 0x169), (0x304, 0x16B), (0x306, 0x16D), (0x308, 0xFC), (0x30A, 0x16F), (0x30B, 0x171), (0x30C, 0x1D4), (0x328, 0x173)]),
   (121, [(0x300, 0x1EF3), (0x301, 0xFD), (0x302, 0x177), (0x303, 0x1EF9), (0x304, 0x233), (0x307, 0x1E8F), (0x308, 0xFF), (0x30A, 0x1E99)]),
   (110, [(0x300, 0x1F9), (0x301, 0x144), (0x303, 0xF1), (0x307, 0x1E45), (0x30C, 0x148), (0x327, 0x146)]),
   (99, [(0x301, 0x107), (0x302, 0x109), (0x307, 0x10B), (0x30C, 0x10D), (0x327, 0xE7)]),
   (115, [(0x301, 0x15B), (0x302, 0x15D), (0x307, 0x1E61), (0x30C, 0x161), (0x327, 0x15F)]),
   (122, [(0x301, 0x17A), (0x302, 0x1E91), (0x307, 0x17C), (0x30C, 0x17E)]),
   (114, [(0x301, 0x155), (0x307, 0x1E59), (0x30C, 0x159), (0x327, 0x157)]),
   (100, [(0x307, 0x1E0B), (0x30C, 0x10F), (0x327, 0x1E11)]),
   (116, [(0x307, 0x1E6B), (0x308, 0x1E97), (0x30C, 0x165), (0x327, 0x163)]),
   (108, [(0x301, 0x13A), (0x30C, 0x13E), (0x327, 0x13C)]),
   (103, [(0x301, 0x1F5), (0x302, 0x11D), (0x304, 0x1E21), (0x306, 0x11F), (0x307, 0x121), (0x30C, 0x1E7), (0x327, 0x123)]),
   (107, [(0x301, 0x1E31), (0x30C, 0x1E9), (0x327, 0x137)]),
   (104, [(0x302, 0x125), (0x307, 0x1E23), (0x308, 0x1E27), (0x30C, 0x21F), (0x327, 0x1E29)]),
   (106, [(0x302, 0x135), (0x30C, 0x1F0)]),
   (119, [(0x300, 0x1E81), (0x301, 0x1E83), (0x302, 0x175), (0x307, 0x1E87), (0x308, 0x1E85), (0x30A, 0x1E98)]),
   (65, [(0x300, 0xC0), (0x301, 0xC1), (0x302, 0xC2), (0x303, 0xC3), (0x304, 0x100), (0x306, 0x102), (0x307, 0x226), (0x308, 0xC4), (0x30A, 0xC5), (0x30C, 0x1CD), (0x328, 0x104)]),
   (69, [(0x300, 0xC8), (0x301, 0xC9), (0x302, 0xCA), (0x303, 0x1EBC), (0x304, 0x112), (0x306, 0x114), (0x307, 0x116), (0x308, 0xCB), (0x30C, 0x11A), (0x327, 0x228), (0x328, 0x118)]),
   (73, [(0x300, 0xCC), (0x301, 0xCD), (0x302, 0xCE), (0x303, 0x128), (0x304, 0x12A), (0x306, 0x12C), (0x307, 0x130), (0x308, 0xCF), (0x30C, 0x1CF), (0x328, 0x12E)]),
   (79, [(0x300, 0xD2), (0x301, 0xD3), (0x302, 0xD4), (0x303, 0xD5), (0x304, 0x14C), (0x306, 0x14E), (0x307, 0x22E), (0x308, 0xD6), (0x30B, 0x150), (0x30C, 0x1D1), (0x328, 0x1EA)]),
   (85, [(0x300, 0xD9), (0x301, 0xDA), (0x302, 0xDB), (0x303, 0x168), (0x304, 0x16A), (0x306, 0x16C), (0x308, 0xDC), (0x30A, 0x16E), (0x30B, 0x170), (0x30C, 0x1D3), (0x328, 0x172)]),
   (89, [(0x300, 0x1EF2), (0x301, 0xDD), (0x302, 0x176), (0x303, 0x1EF8), (0x304, 0x232), (0x307, 0x1E8E), (0x308, 0x178)]),
   (78, [(0x300, 0x1F8), (0x301, 0x143), (0x303, 0xD1), (0x307, 0x1E44), (0x30C, 0x147), (0x327, 0x145)]),
   (67, [(0x301, 0x106), (0x302, 0x108), (0x307, 0x10A), (0x30C, 0x10C), (0x327, 0xC7)]),
   (83, [(0x301, 0x15A), (0x302, 0x15C), (0x307, 0x1E60), (0x30C, 0x160), (0x327, 0x15E)]),
   (90, [(0x301, 0x179), (0x302, 0x1E90), (0x307, 0x17B), (0x30C, 0x17D)]),
   (82, [(0x301, 0x154), (0x307, 0x1E58), (0x30C, 0x158), (0x327, 0x156)]),
   (68, [(0x307, 0x1E0A), (0x30C, 0x10E), (0x327, 0x1E10)]),
   (84, [(0x307, 0x1E6A), (0x30C, 0x164), (0x327, 0x162)]),
   (76, [(0x301, 0x139), (0x30C, 0x13D), (0x327, 0x13B)]),
   (71, [(0x301, 0x1F4), (0x302, 0x11C), (0x304, 0x1E20), (0x306, 0x11E), (0x307, 0x120), (0x30C, 0x1E6), (0x327, 0x122)]),
   (75, [(0x301, 0x1E30), (0x30C, 0x1E8), (0x327, 0x136)]),
   (72, [(0x302, 0x124), (0x307, 0x1E22), (0x308, 0x1E26), (0x30C, 0x21E), (0x327, 0x1E28)]),
   (74, [(0x302, 0x134)]),
   (87, [(0x300, 0x1E80), (0x301, 0x1E82), (0x302, 0x174), (0x307, 0x1E86), (0x308, 0x1E84)])]"

definition compose :: "rchar \<Rightarrow> rchar \<Rightarrow> rchar option" where
  "compose base mark =
     (case map_of compose_table base of None \<Rightarrow> None | Some ms \<Rightarrow> map_of ms mark)"

section \<open>The pass over a name\<close>

definition compose_step :: "rstr \<Rightarrow> rchar \<Rightarrow> rstr" where
  "compose_step out c =
     (if is_combining_mark c \<and> out \<noteq> [] then
        (case compose (last out) c of
           Some composed \<Rightarrow> butlast out @ [composed]
         | None \<Rightarrow> out @ [c])
      else out @ [c])"

definition compose_latin :: "rstr \<Rightarrow> rstr" where
  "compose_latin s = (if list_ex is_combining_mark s then foldl compose_step [] s else s)"

section \<open>Facts of the table\<close>

definition entry_ok :: "rchar \<Rightarrow> rchar \<times> rchar \<Rightarrow> bool" where
  "entry_ok b p \<longleftrightarrow> (case p of (m, d) \<Rightarrow>
     b < 128 \<and> is_combining_mark m \<and> 128 \<le> d \<and> \<not> is_combining_mark d)"

lemma table_ok: "list_all (\<lambda>(b, ms). list_all (entry_ok b) ms) compose_table"
  by (simp add: compose_table_def entry_ok_def is_combining_mark_def)

lemma compose_SomeD:
  assumes "compose b m = Some d"
  shows "b < 128" "is_combining_mark m" "128 \<le> d" "\<not> is_combining_mark d"
proof -
  have "entry_ok b (m, d)"
    using assms table_ok
    by (auto simp: compose_def list_all_iff split: option.splits dest!: map_of_SomeD)
  then show "b < 128" "is_combining_mark m" "128 \<le> d" "\<not> is_combining_mark d"
    by (simp_all add: entry_ok_def)
qed

lemma compose_non_ascii: "128 \<le> b \<Longrightarrow> compose b m = None"
  using compose_SomeD(1) [of b m] by (cases "compose b m") auto

lemma compose_non_mark: "\<not> is_combining_mark m \<Longrightarrow> compose b m = None"
  using compose_SomeD(2) [of b m] by (cases "compose b m") auto

section \<open>Recomposition is canonical and settles\<close>

text \<open>\<open>decomp s t\<close>: \<open>t\<close> is \<open>s\<close> with some of its precomposed letters written as their pairs.\<close>

inductive decomp :: "rstr \<Rightarrow> rstr \<Rightarrow> bool" where
  decomp_Nil: "decomp [] []"
| decomp_same: "decomp s t \<Longrightarrow> decomp (s @ [c]) (t @ [c])"
| decomp_pair: "decomp s t \<Longrightarrow> compose b m = Some d \<Longrightarrow> decomp (s @ [d]) (t @ [b, m])"

inductive_cases decomp_snocE: "decomp (s @ [c]) t"

lemma decomp_compose_step:
  assumes "decomp out t" shows "decomp (compose_step out c) (t @ [c])"
proof (cases "is_combining_mark c \<and> out \<noteq> [] \<and> compose (last out) c \<noteq> None")
  case True
  then obtain o1 b d where o: "out = o1 @ [b]" and d: "compose b c = Some d"
    by (cases out rule: rev_cases) auto
  have e: "compose_step out c = o1 @ [d]" using True d by (simp add: compose_step_def o)
  from assms have "decomp (o1 @ [b]) t" by (simp add: o)
  moreover have "b \<noteq> d'" if "compose b' m = Some d'" for b' m d'
    using compose_SomeD(1) [OF d] compose_SomeD(3) [OF that] by simp
  ultimately obtain t' where t': "decomp o1 t'" "t = t' @ [b]"
    by (auto elim!: decomp_snocE)
  show ?thesis using decomp_pair [OF t'(1) d] by (simp add: e t'(2))
next
  case False
  then have "compose_step out c = out @ [c]" by (auto simp: compose_step_def)
  then show ?thesis using decomp_same [OF assms] by simp
qed

lemma decomp_foldl: "decomp out t \<Longrightarrow> decomp (foldl compose_step out s) (t @ s)"
proof (induction s arbitrary: out t)
  case (Cons c s)
  then show ?case using Cons.IH [OF decomp_compose_step [OF Cons.prems, of c]] by simp
qed simp

definition settled :: "rstr \<Rightarrow> bool" where
  "settled s \<longleftrightarrow> (\<forall>a b m z. s = a @ b # m # z \<longrightarrow> compose b m = None)"

lemma settled_Nil: "settled []" "settled [c]"
  by (auto simp: settled_def Cons_eq_append_conv)

lemma settled_snoc: "settled (s @ [b, c]) \<longleftrightarrow> settled (s @ [b]) \<and> compose b c = None"
proof
  assume *: "settled (s @ [b, c])"
  have "compose b c = None" using * unfolding settled_def by blast
  moreover have "settled (s @ [b])"
    using * unfolding settled_def by (metis append.assoc append_Cons append_Nil)
  ultimately show "settled (s @ [b]) \<and> compose b c = None" by simp
next
  assume *: "settled (s @ [b]) \<and> compose b c = None"
  show "settled (s @ [b, c])"
    unfolding settled_def
  proof (intro allI impI)
    fix a x m z assume e: "s @ [b, c] = a @ x # m # z"
    show "compose x m = None"
    proof (cases z rule: rev_cases)
      case Nil
      then have "x = b" "m = c" using e by (simp_all add: append_eq_append_conv2 append_eq_Cons_conv Cons_eq_append_conv)
        (metis append_butlast_last_id butlast.simps(2) butlast_append last_snoc list.distinct(1) append1_eq_conv append_Cons append_Nil append_assoc)+
      then show ?thesis using * by simp
    next
      case (snoc z' y)
      then have "s @ [b] = a @ x # m # z'" using e
        by (metis append.assoc append_Cons append_Nil butlast_snoc)
      then show ?thesis using * unfolding settled_def by blast
    qed
  qed
qed

lemma settled_snoc_iff: "settled (s @ [c]) \<longleftrightarrow> (s = [] \<or> settled s \<and> compose (last s) c = None)"
  by (cases s rule: rev_cases) (simp_all add: settled_Nil settled_snoc)

lemma settled_compose_step: assumes "settled out" shows "settled (compose_step out c)"
proof (cases "is_combining_mark c \<and> out \<noteq> []")
  case True
  then obtain o1 b where o: "out = o1 @ [b]" by (cases out rule: rev_cases) auto
  have o1: "o1 = [] \<or> settled o1" using assms by (auto simp: o settled_snoc_iff)
  show ?thesis
  proof (cases "compose b c")
    case None
    then show ?thesis using assms True by (simp add: compose_step_def o settled_snoc)
  next
    case (Some d)
    then have "compose x d = None" for x by (simp add: compose_non_mark compose_SomeD(4))
    then show ?thesis using True o1 Some by (auto simp: compose_step_def o settled_snoc_iff)
  qed
next
  case False
  then have e: "compose_step out c = out @ [c]" by (auto simp: compose_step_def)
  show ?thesis using False assms compose_non_mark [of c "last out"] unfolding e settled_snoc_iff by blast
qed

lemma settled_foldl: "settled out \<Longrightarrow> settled (foldl compose_step out s)"
  by (induction s arbitrary: out) (simp_all add: settled_compose_step)

lemma foldl_compose_settled: "settled (out @ s) \<Longrightarrow> foldl compose_step out s = out @ s"
proof (induction s arbitrary: out)
  case (Cons c s)
  have "compose_step out c = out @ [c]"
  proof (cases out rule: rev_cases)
    case (snoc o1 b)
    then have "compose b c = None" using Cons.prems unfolding settled_def by auto
    then show ?thesis by (simp add: compose_step_def snoc)
  qed (simp add: compose_step_def)
  then show ?case using Cons.IH [of "out @ [c]"] Cons.prems by simp
qed simp

lemma compose_latin_as_fold: "compose_latin s = foldl compose_step [] s"
proof (cases "list_ex is_combining_mark s")
  case False
  have "foldl compose_step out s = out @ s" for out
    using False by (induction s arbitrary: out) (auto simp: compose_step_def)
  then show ?thesis using False by (simp add: compose_latin_def)
qed (simp add: compose_latin_def)

lemma compose_latin_canonical: "decomp (compose_latin s) s"
  using decomp_foldl [OF decomp_Nil, of s] by (simp add: compose_latin_as_fold)

lemma compose_latin_idem: "compose_latin (compose_latin s) = compose_latin s"
  unfolding compose_latin_as_fold
  using foldl_compose_settled [of "[]" "foldl compose_step [] s"] settled_foldl [OF settled_Nil(1), of s] by simp

lemma compose_latin_ascii: "is_ascii s \<Longrightarrow> compose_latin s = s"
  by (auto simp: compose_latin_def is_ascii_def list_all_iff list_ex_iff is_combining_mark_def)

end
