(* ===== verification/Term_Match.thy ===== *)
theory Term_Match
  imports Latin_Compose
begin

text \<open>
  The term matcher of the content filter (\<open>src/filter/jargon.rs\<close>): boundary rules, flexible
  separators, the term list with its prefilter. Positions in a name are character positions:
  the code's byte offsets are always on character boundaries (\<open>next_char_boundary\<close>), and its
  byte comparisons only ever succeed on ASCII characters.

  Parameters: the Unicode tables (\<open>unicode\<close>) and the Aho-Corasick automaton, a function from
  the literals to a search that lists the patterns occurring in a text (\<open>ac_ok\<close>).

  Results: the prefilter never changes the answer, and the answer is the first term of the
  list that a spelling of stands in the name with its boundaries (\<open>term_in_name\<close>).
\<close>

section \<open>Characters and boundaries\<close>

definition SUBSTRING_MIN_CHARS :: nat where
  "SUBSTRING_MIN_CHARS = 6"

definition RIGHT_ANCHOR :: rchar where
  "RIGHT_ANCHOR = 36"

definition is_word_char :: "rchar \<Rightarrow> bool" where
  "is_word_char c \<longleftrightarrow> is_ascii_letter c \<or> is_ascii_digit c \<or> c = 95"

definition is_letter_char :: "unicode \<Rightarrow> rchar \<Rightarrow> bool" where
  "is_letter_char u c \<longleftrightarrow>
     (if c < 128 then is_ascii_letter c
      else ((0x00C0 \<le> c \<and> c \<le> 0x024F) \<or> (0x1E00 \<le> c \<and> c \<le> 0x1EFF)) \<and> u_alphabetic u c)"

definition is_word_char_at :: "unicode \<Rightarrow> rchar \<Rightarrow> bool" where
  "is_word_char_at u c \<longleftrightarrow> is_letter_char u c \<or> is_ascii_digit c \<or> c = 95"

definition char_before :: "rstr \<Rightarrow> nat \<Rightarrow> rchar option" where
  "char_before s at = find (\<lambda>c. \<not> is_combining_mark c) (rev (take at s))"

definition char_at :: "rstr \<Rightarrow> nat \<Rightarrow> rchar option" where
  "char_at s at = (if at < length s then Some (s ! at) else None)"

definition mark_at :: "rstr \<Rightarrow> nat \<Rightarrow> bool" where
  "mark_at s at = (case char_at s at of Some c \<Rightarrow> is_combining_mark c | None \<Rightarrow> False)"

datatype right_rule = Free | NotLetter | NotWordChar

definition edge_is_ascii_word :: "rchar option \<Rightarrow> bool" where
  "edge_is_ascii_word b = (case b of Some c \<Rightarrow> is_word_char c | None \<Rightarrow> False)"

definition first_char :: "rstr \<Rightarrow> rchar option" where
  "first_char s = (case s of [] \<Rightarrow> None | c # _ \<Rightarrow> Some c)"

definition last_char :: "rstr \<Rightarrow> rchar option" where
  "last_char s = first_char (rev s)"

definition split_anchor :: "rstr \<Rightarrow> rstr \<times> bool" where
  "split_anchor term =
     (if last_char term = Some RIGHT_ANCHOR \<and> butlast term \<noteq> [] then (butlast term, True)
      else (term, False))"

definition is_separator :: "rchar \<Rightarrow> bool" where
  "is_separator c \<longleftrightarrow> c \<in> set (lit '' -_.'')"

section \<open>Searching a name\<close>

fun str_find :: "rstr \<Rightarrow> rstr \<Rightarrow> nat option" where
  "str_find s p =
     (if take (length p) s = p then Some 0
      else case s of [] \<Rightarrow> None | _ # s' \<Rightarrow> map_option Suc (str_find s' p))"

declare str_find.simps [simp del]

fun flex_match :: "rstr \<Rightarrow> rstr \<Rightarrow> nat option" where
  "flex_match [] hay = Some 0"
| "flex_match (c # t) hay =
     (if c = 32 then
        (let n = length (takeWhile is_separator hay) in
         if n = 0 then None else map_option ((+) n) (flex_match t (drop n hay)))
      else
        (case hay of
           [] \<Rightarrow> None
         | h # hay' \<Rightarrow> if h \<noteq> c then None else map_option Suc (flex_match t hay')))"

definition has_space :: "rstr \<Rightarrow> bool" where
  "has_space s \<longleftrightarrow> 32 \<in> set s"

text \<open>The labelled loop of \<open>find_flexible\<close>: anchor on the first character, match from there, on
  a mismatch go on one character further.\<close>

function find_spaced :: "rstr \<Rightarrow> rstr \<Rightarrow> nat \<Rightarrow> (nat \<times> nat) option" where
  "find_spaced hay term start =
     (if start < length hay then
        (case str_find (drop start hay) [hd term] of
           None \<Rightarrow> None
         | Some p \<Rightarrow>
             (case flex_match term (drop (start + p) hay) of
                Some n \<Rightarrow> Some (start + p, start + p + n)
              | None \<Rightarrow> find_spaced hay term (start + p + 1)))
      else None)"
  by auto
termination by (relation "measure (\<lambda>(hay, term, start). length hay - start)") auto

declare find_spaced.simps [simp del]

definition find_flexible :: "rstr \<Rightarrow> rstr \<Rightarrow> nat \<Rightarrow> (nat \<times> nat) option" where
  "find_flexible hay term from =
     (if \<not> has_space term \<or> \<not> is_ascii term then
        map_option (\<lambda>p. (from + p, from + p + length term)) (str_find (drop from hay) term)
      else find_spaced hay term from)"

definition before_ok :: "unicode \<Rightarrow> rstr \<Rightarrow> rstr \<Rightarrow> nat \<Rightarrow> bool" where
  "before_ok u lowered term pos \<longleftrightarrow>
     \<not> edge_is_ascii_word (first_char term) \<or>
     \<not> (case char_before lowered pos of Some c \<Rightarrow> is_letter_char u c | None \<Rightarrow> False)"

definition after_ok :: "unicode \<Rightarrow> rstr \<Rightarrow> rstr \<Rightarrow> right_rule \<Rightarrow> nat \<Rightarrow> bool" where
  "after_ok u lowered term right end_at \<longleftrightarrow>
     \<not> (right \<noteq> Free \<and> edge_is_ascii_word (last_char term)) \<or>
     (case char_at lowered end_at of
        None \<Rightarrow> True
      | Some c \<Rightarrow>
          (case right of
             Free \<Rightarrow> True
           | NotLetter \<Rightarrow> \<not> is_letter_char u c \<and> \<not> mark_at lowered end_at
           | NotWordChar \<Rightarrow> \<not> is_word_char_at u c \<and> \<not> mark_at lowered end_at))"

lemma str_find_Nil: "str_find [] p = (if p = [] then Some 0 else None)"
  by (subst str_find.simps) simp

lemma str_find_Cons:
  "str_find (c # s) p = (if take (length p) (c # s) = p then Some 0 else map_option Suc (str_find s p))"
  by (subst str_find.simps) simp

lemma str_find_bound: "str_find s p = Some i \<Longrightarrow> i + length p \<le> length s"
proof (induction s arbitrary: i)
  case (Cons c s)
  show ?case
  proof (cases "take (length p) (c # s) = p")
    case True
    then have "length p \<le> length (c # s)" by (metis nat_le_linear take_all length_take min.absorb_iff2)
    then show ?thesis using Cons.prems True by (simp add: str_find_Cons)
  next
    case False
    then show ?thesis using Cons.prems Cons.IH by (auto simp: str_find_Cons)
  qed
qed (simp add: str_find_Nil split: if_splits)

lemma find_spaced_bound: "find_spaced hay term start = Some (i, e) \<Longrightarrow> start \<le> i \<and> i < length hay"
proof (induction hay "term" start rule: find_spaced.induct)
  case (1 hay "term" start)
  show ?case
  proof (cases "start < length hay")
    case True
    show ?thesis
    proof (cases "str_find (drop start hay) [hd term]")
      case None
      then show ?thesis using "1.prems" True by (subst (asm) find_spaced.simps) simp
    next
      case (Some p)
      have p: "start + p < length hay" using str_find_bound [OF Some] True by simp
      show ?thesis
      proof (cases "flex_match term (drop (start + p) hay)")
        case None
        then have "find_spaced hay term (start + p + 1) = Some (i, e)"
          using "1.prems" True Some by (subst (asm) find_spaced.simps) simp
        then show ?thesis using "1.IH" [OF True Some None] by simp
      next
        case (Some n)
        then show ?thesis using "1.prems" True p \<open>str_find _ _ = Some p\<close>
          by (subst (asm) find_spaced.simps) auto
      qed
    qed
  next
    case False
    then show ?thesis using "1.prems" by (subst (asm) find_spaced.simps) simp
  qed
qed

lemma find_flexible_bound:
  assumes "find_flexible hay term from = Some (i, e)"
  shows "from \<le> i \<and> (i < length hay \<or> (term = [] \<and> i \<le> max from (length hay)))"
proof (cases "\<not> has_space term \<or> \<not> is_ascii term")
  case True
  then obtain p where p: "str_find (drop from hay) term = Some p" "i = from + p"
    using assms by (auto simp: find_flexible_def)
  then show ?thesis using str_find_bound [OF p(1)] by (cases "term") auto
next
  case False
  then show ?thesis using assms by (auto simp: find_flexible_def dest!: find_spaced_bound)
qed

text \<open>The scan of \<open>contains_bounded\<close>. \<open>str\<close> slicing at an offset past the end panics, so the
  recursion stops there; for a term that is not empty the search has returned \<open>None\<close> before.\<close>

function contains_from :: "unicode \<Rightarrow> rstr \<Rightarrow> rstr \<Rightarrow> right_rule \<Rightarrow> nat \<Rightarrow> bool" where
  "contains_from u lowered term right start =
     (if start > length lowered then False
      else case find_flexible lowered term start of
        None \<Rightarrow> False
      | Some (pos, end_at) \<Rightarrow>
          if before_ok u lowered term pos \<and> after_ok u lowered term right end_at then True
          else contains_from u lowered term right (pos + 1))"
  by pat_completeness auto
termination
  by (relation "measure (\<lambda>(u, lowered, term, right, start). length lowered + 1 - start)")
     (auto dest!: find_flexible_bound)

declare contains_from.simps [simp del]

definition contains_bounded :: "unicode \<Rightarrow> rstr \<Rightarrow> rstr \<Rightarrow> right_rule \<Rightarrow> bool" where
  "contains_bounded u lowered term right = contains_from u lowered term right 0"

section \<open>The term list\<close>

definition right_rule_of :: "rstr \<Rightarrow> bool \<Rightarrow> right_rule" where
  "right_rule_of text anchored =
     (if anchored then NotWordChar
      else if SUBSTRING_MIN_CHARS \<le> length text then Free
      else NotLetter)"

definition term_fires :: "unicode \<Rightarrow> rstr \<Rightarrow> rstr \<Rightarrow> bool" where
  "term_fires u lowered term =
     (case split_anchor term of (text, anchored) \<Rightarrow>
        contains_bounded u lowered text (right_rule_of text anchored))"

definition max_by_len :: "rstr list \<Rightarrow> rstr option" where
  "max_by_len ps = foldl (\<lambda>acc p. case acc of None \<Rightarrow> Some p
     | Some q \<Rightarrow> if str_len q \<le> str_len p then Some p else Some q) None ps"

definition required_literal :: "rstr \<Rightarrow> rstr option" where
  "required_literal term =
     (let text = fst (split_anchor term) in
      if text = [] then None
      else if \<not> has_space text \<or> \<not> is_ascii text then Some text
      else max_by_len (filter (\<lambda>p. p \<noteq> []) (split_by (\<lambda>c. c = 32) text)))"

type_synonym candidates = "u64 list"

definition cand_insert :: "candidates \<Rightarrow> nat \<Rightarrow> candidates" where
  "cand_insert c i = c[i div 64 := or (c ! (i div 64)) (push_bit (i mod 64) 1)]"

definition cand_contains :: "candidates \<Rightarrow> nat \<Rightarrow> bool" where
  "cand_contains c i \<longleftrightarrow> and (c ! (i div 64)) (push_bit (i mod 64) 1) \<noteq> 0"

type_synonym automaton = "rstr \<Rightarrow> nat list"

record term_list =
  tl_terms :: "rstr list"
  tl_ac :: "automaton option"
  tl_by_pattern :: "nat list list"
  tl_always :: "nat list"

record build =
  b_literals :: "rstr list"
  b_by_pattern :: "nat list list"
  b_index :: "rstr \<rightharpoonup> nat"
  b_always :: "nat list"

definition build_step :: "build \<Rightarrow> nat \<times> rstr \<Rightarrow> build" where
  "build_step b it =
     (case it of (i, term) \<Rightarrow>
        if term = [] then b
        else case required_literal term of
          Some l \<Rightarrow>
            (case b_index b l of
               Some p \<Rightarrow> b\<lparr>b_by_pattern := (b_by_pattern b)[p := b_by_pattern b ! p @ [i]]\<rparr>
             | None \<Rightarrow> b\<lparr>b_literals := b_literals b @ [l], b_by_pattern := b_by_pattern b @ [[i]],
                         b_index := (b_index b)(l \<mapsto> length (b_literals b))\<rparr>)
        | None \<Rightarrow> b\<lparr>b_always := b_always b @ [i]\<rparr>)"

definition build_terms :: "rstr list \<Rightarrow> build" where
  "build_terms terms =
     foldl build_step \<lparr>b_literals = [], b_by_pattern = [], b_index = Map.empty, b_always = []\<rparr>
       (enumerate 0 terms)"

definition term_list_new :: "(rstr list \<Rightarrow> automaton option) \<Rightarrow> rstr list \<Rightarrow> term_list" where
  "term_list_new ac_new terms =
     (let b = build_terms terms in
      if b_literals b = [] then
        \<lparr>tl_terms = terms, tl_ac = None, tl_by_pattern = b_by_pattern b, tl_always = b_always b\<rparr>
      else case ac_new (b_literals b) of
        Some ac \<Rightarrow>
          \<lparr>tl_terms = terms, tl_ac = Some ac, tl_by_pattern = b_by_pattern b, tl_always = b_always b\<rparr>
      | None \<Rightarrow>
          \<lparr>tl_terms = terms, tl_ac = None, tl_by_pattern = [], tl_always = [0..<length terms]\<rparr>)"

definition list_candidates :: "term_list \<Rightarrow> rstr \<Rightarrow> candidates" where
  "list_candidates ts lowered =
     (let c = foldl cand_insert (replicate ((length (tl_terms ts) + 63) div 64) 0) (tl_always ts) in
      case tl_ac ts of
        None \<Rightarrow> c
      | Some ac \<Rightarrow> foldl (\<lambda>c m. foldl cand_insert c (tl_by_pattern ts ! m)) c (ac lowered))"

definition matches_terms :: "unicode \<Rightarrow> rstr \<Rightarrow> term_list \<Rightarrow> rstr option" where
  "matches_terms u lowered ts =
     (let candidates = list_candidates ts lowered in
      map_option snd (find (\<lambda>(i, term). \<not> (term = [] \<or> \<not> cand_contains candidates i) \<and>
          term_fires u lowered term) (enumerate 0 (tl_terms ts))))"

section \<open>The searches find the first occurrence\<close>

definition occ_at :: "rstr \<Rightarrow> rstr \<Rightarrow> nat \<Rightarrow> nat option" where
  "occ_at hay term i =
     (if \<not> has_space term \<or> \<not> is_ascii term then
        (if take (length term) (drop i hay) = term then Some (i + length term) else None)
      else if i < length hay \<and> hay ! i = hd term then
        map_option ((+) i) (flex_match term (drop i hay))
      else None)"

lemma str_find_Some:
  "str_find s p = Some i \<Longrightarrow> take (length p) (drop i s) = p \<and> (\<forall>j<i. take (length p) (drop j s) \<noteq> p)"
proof (induction s arbitrary: i)
  case (Cons c s)
  show ?case
  proof (cases "take (length p) (c # s) = p")
    case False
    then obtain k where k: "str_find s p = Some k" "i = Suc k" using Cons.prems by (auto simp: str_find_Cons)
    then show ?thesis using Cons.IH [OF k(1)] False
      by (auto simp: less_Suc_eq_0_disj)
  qed (use Cons.prems in \<open>simp add: str_find_Cons\<close>)
qed (simp add: str_find_Nil split: if_splits)

lemma str_find_None: "str_find s p = None \<Longrightarrow> take (length p) (drop i s) \<noteq> p"
proof (induction s arbitrary: i)
  case (Cons c s)
  then show ?case by (cases i) (auto simp: str_find_Cons split: if_splits)
qed (simp add: str_find_Nil split: if_splits)

lemma take_one_iff: "take (length [a]) (drop i s) = [a] \<longleftrightarrow> i < length s \<and> s ! i = a"
proof (cases "i < length s")
  case True
  then show ?thesis by (simp flip: Cons_nth_drop_Suc)
qed simp

lemma char_find_Some:
  assumes "str_find (drop start hay) [a] = Some p"
  shows "start + p < length hay" "hay ! (start + p) = a" "\<forall>j. start \<le> j \<and> j < start + p \<longrightarrow> hay ! j \<noteq> a"
proof -
  note f = str_find_Some [OF assms, unfolded drop_drop]
  note 1 = f [THEN conjunct1] and 2 = f [THEN conjunct2]
  show l: "start + p < length hay" "hay ! (start + p) = a"
    using 1 by (simp_all only: take_one_iff add.commute)
  show "\<forall>j. start \<le> j \<and> j < start + p \<longrightarrow> hay ! j \<noteq> a"
  proof (intro allI impI)
    fix j assume "start \<le> j \<and> j < start + p"
    then have "j - start < p" "j - start + start = j" "j < length hay" using l(1) by auto
    with 2 show "hay ! j \<noteq> a" by (metis take_one_iff)
  qed
qed

lemma char_find_None:
  assumes "str_find (drop start hay) [a] = None" "start \<le> j" "j < length hay"
  shows "hay ! j \<noteq> a"
  using str_find_None [OF assms(1), of "j - start"] assms(2,3)
  by (metis drop_drop le_add_diff_inverse2 take_one_iff)

lemma find_spaced_least:
  assumes "has_space term" "is_ascii term"
  shows "(\<forall>i e. find_spaced hay term start = Some (i, e) \<longrightarrow>
            occ_at hay term i = Some e \<and> (\<forall>j. start \<le> j \<and> j < i \<longrightarrow> occ_at hay term j = None)) \<and>
         (find_spaced hay term start = None \<longrightarrow> (\<forall>j\<ge>start. occ_at hay term j = None))"
  using assms
proof (induction hay "term" start rule: find_spaced.induct)
  case (1 hay "term" start)
  have occ: "occ_at hay term i = (if i < length hay \<and> hay ! i = hd term
      then map_option ((+) i) (flex_match term (drop i hay)) else None)" for i
    using "1.prems" by (simp add: occ_at_def)
  show ?case
  proof (cases "start < length hay")
    case True
    show ?thesis
    proof (cases "str_find (drop start hay) [hd term]")
      case None
      then have "find_spaced hay term start = None" using True by (subst find_spaced.simps) simp
      then show ?thesis using char_find_None [OF None] by (auto simp: occ)
    next
      case (Some p)
      note p = char_find_Some [OF Some]
      show ?thesis
      proof (cases "flex_match term (drop (start + p) hay)")
        case None
        then have e: "find_spaced hay term start = find_spaced hay term (start + p + 1)"
          using True Some by (subst find_spaced.simps) simp
        have skip: "occ_at hay term j = None" if "start \<le> j" "j \<le> start + p" for j
          using that p None by (cases "j = start + p") (auto simp: occ)
        show ?thesis unfolding e
          using "1.IH" [OF True Some None "1.prems"] skip by (metis Suc_eq_plus1 not_less_eq_eq)
      next
        case (Some n)
        then have "find_spaced hay term start = Some (start + p, start + p + n)"
          using True \<open>str_find _ _ = Some p\<close> by (subst find_spaced.simps) simp
        then show ?thesis using p Some by (auto simp: occ)
      qed
    qed
  next
    case False
    then have "find_spaced hay term start = None" by (subst find_spaced.simps) simp
    then show ?thesis using False by (simp add: occ)
  qed
qed

lemma find_flexible_Some:
  assumes "find_flexible hay term from = Some (i, e)"
  shows "occ_at hay term i = Some e \<and> (\<forall>j. from \<le> j \<and> j < i \<longrightarrow> occ_at hay term j = None)"
proof (cases "\<not> has_space term \<or> \<not> is_ascii term")
  case True
  then obtain p where p: "str_find (drop from hay) term = Some p" "i = from + p" "e = from + p + length term"
    using assms by (auto simp: find_flexible_def)
  have "take (length term) (drop j hay) \<noteq> term" if "from \<le> j" "j < from + p" for j
    using str_find_Some [OF p(1)] that by (auto simp: add.commute dest!: spec [of _ "j - from"])
  then show ?thesis using True str_find_Some [OF p(1)] p by (auto simp: occ_at_def add.commute)
next
  case False
  then show ?thesis using assms find_spaced_least by (simp add: find_flexible_def)
qed

lemma find_flexible_None:
  assumes "find_flexible hay term from = None" "from \<le> j"
  shows "occ_at hay term j = None"
proof (cases "\<not> has_space term \<or> \<not> is_ascii term")
  case True
  then show ?thesis using assms str_find_None [of "drop from hay" "term" "j - from"]
    by (auto simp: find_flexible_def occ_at_def)
next
  case False
  then show ?thesis using assms find_spaced_least by (simp add: find_flexible_def)
qed

lemma occ_at_bound: "term \<noteq> [] \<Longrightarrow> occ_at hay term i = Some e \<Longrightarrow> i < length hay"
  by (cases "i < length hay") (auto simp: occ_at_def split: if_splits)

lemma contains_from_iff:
  assumes "term \<noteq> []"
  shows "contains_from u s term right start \<longleftrightarrow>
     (\<exists>i e. start \<le> i \<and> occ_at s term i = Some e \<and> before_ok u s term i \<and> after_ok u s term right e)"
  using assms
proof (induction u s "term" right start rule: contains_from.induct)
  case (1 u s "term" right start)
  show ?case
  proof (cases "start > length s")
    case True
    then have "\<not> contains_from u s term right start" by (subst contains_from.simps) simp
    moreover have "\<not> start \<le> i" if "occ_at s term i = Some e" for i e
      using occ_at_bound [OF "1.prems" that] True by simp
    ultimately show ?thesis by blast
  next
    case False
    show ?thesis
    proof (cases "find_flexible s term start")
      case None
      then show ?thesis using find_flexible_None [OF None] False by (subst contains_from.simps) auto
    next
      case (Some ie)
      obtain i e where ie: "ie = (i, e)" by (cases ie)
      note f = find_flexible_Some [OF Some [unfolded ie]] find_flexible_bound [OF Some [unfolded ie]]
      show ?thesis
      proof (cases "before_ok u s term i \<and> after_ok u s term right e")
        case True
        then show ?thesis using False Some f by (subst contains_from.simps) (auto simp: ie)
      next
        case no: False
        have IH: "contains_from u s term right (i + 1) \<longleftrightarrow>
          (\<exists>j e. i + 1 \<le> j \<and> occ_at s term j = Some e \<and> before_ok u s term j \<and> after_ok u s term right e)"
          by (rule "1.IH" [OF False Some ie [symmetric] no "1.prems"])
        have "contains_from u s term right start = contains_from u s term right (i + 1)"
          using False Some no by (subst contains_from.simps) (auto simp: ie)
        moreover have "i + 1 \<le> j" if "start \<le> j" "occ_at s term j = Some e'" "before_ok u s term j"
          "after_ok u s term right e'" for j e'
        proof -
          have "\<not> j < i" using f(1) that(1,2) by auto
          moreover have "j \<noteq> i" using f(1) that(2-4) no by auto
          ultimately show ?thesis by simp
        qed
        moreover have "start \<le> j" if "i + 1 \<le> j" for j using that f(2) by simp
        ultimately show ?thesis unfolding IH by blast
      qed
    qed
  qed
qed

section \<open>The prefilter is exact\<close>

lemma flex_match_pieces:
  "flex_match t hay = Some n \<Longrightarrow>
     (\<exists>r. hay = hd (split_by (\<lambda>c. c = 32) t) @ r) \<and> (\<forall>p\<in>set (split_by (\<lambda>c. c = 32) t). str_contains hay p)"
proof (induction t arbitrary: hay n)
  case Nil
  have "hay = [] @ [] @ hay" by simp
  then show ?case unfolding str_contains_iff by (simp) blast
next
  case (Cons c t)
  show ?case
  proof (cases "c = 32")
    case True
    then obtain m where m: "flex_match t (drop (length (takeWhile is_separator hay)) hay) = Some m"
      using Cons.prems by (auto simp: Let_def split: if_splits)
    have mono: "str_contains hay p" if "str_contains (drop k hay) p" for k p
      using that by (metis append.assoc append_take_drop_id str_contains_iff)
    moreover have "str_contains hay []" using str_contains_iff [of hay "[]"] by auto
    ultimately show ?thesis using Cons.IH [OF m] True by auto
  next
    case False
    then obtain h hay' m where m: "hay = c # hay'" "flex_match t hay' = Some m"
      using Cons.prems by (auto split: list.splits if_splits)
    note IH = Cons.IH [OF m(2)]
    obtain p ps where ps: "split_by (\<lambda>c. c = 32) t = p # ps" using split_by_not_Nil by (metis list.exhaust)
    have "str_contains (c # hay') q" if "str_contains hay' q" for q
      using that by (metis append_Cons str_contains_iff)
    then show ?thesis using IH False by (auto simp: m(1) ps str_contains_iff)
  qed
qed

lemma max_by_len_mem: "max_by_len ps = Some p \<Longrightarrow> p \<in> set ps"
proof -
  have "foldl (\<lambda>acc p. case acc of None \<Rightarrow> Some p
     | Some q \<Rightarrow> if str_len q \<le> str_len p then Some p else Some q) a ps = Some p \<Longrightarrow> p \<in> set ps \<or> a = Some p" for a
    by (induction ps arbitrary: a) (auto split: option.splits if_splits)
  from this [of None] show "max_by_len ps = Some p \<Longrightarrow> p \<in> set ps" by (auto simp: max_by_len_def)
qed

lemma split_anchor_not_Nil: "t \<noteq> [] \<Longrightarrow> split_anchor t = (x, b) \<Longrightarrow> x \<noteq> []"
  by (auto simp: split_anchor_def split: if_splits)

lemma required_literal_needed:
  assumes "t \<noteq> []" "term_fires u s t" "required_literal t = Some l"
  shows "str_contains s l"
proof -
  obtain x b where x: "split_anchor t = (x, b)" by (cases "split_anchor t")
  have ne: "x \<noteq> []" using split_anchor_not_Nil [OF assms(1) x] .
  from assms(2) obtain i e where i: "occ_at s x i = Some e"
    using contains_from_iff [OF ne] by (auto simp: term_fires_def x contains_bounded_def)
  show ?thesis
  proof (cases "\<not> has_space x \<or> \<not> is_ascii x")
    case True
    then have l: "l = x" and "take (length x) (drop i s) = x"
      using assms(3) ne i by (auto simp: required_literal_def x occ_at_def split: if_splits)
    then have "s = take i s @ x @ drop (length x) (drop i s)" by (metis append_take_drop_id)
    then show ?thesis unfolding l str_contains_iff by blast
  next
    case False
    then obtain n where n: "flex_match x (drop i s) = Some n"
      using i by (auto simp: occ_at_def split: if_splits)
    have "l \<in> set (split_by (\<lambda>c. c = 32) x)"
      using False assms(3) ne by (auto simp: required_literal_def x dest: max_by_len_mem)
    then have "str_contains (drop i s) l" using flex_match_pieces [OF n] by blast
    then show ?thesis by (metis append.assoc append_take_drop_id str_contains_iff)
  qed
qed

lemma cand_contains_bit: "cand_contains c i \<longleftrightarrow> bit (c ! (i div 64)) (i mod 64)"
  by (simp add: cand_contains_def bit_iff_and_push_bit_not_eq_0)

lemma length_cand_insert [simp]: "length (cand_insert c i) = length c"
  by (simp add: cand_insert_def)

lemma length_cand_fold [simp]: "length (foldl cand_insert c is) = length c"
  by (induction "is" arbitrary: c) simp_all

lemma cand_insert_mono: "cand_contains c i \<Longrightarrow> cand_contains (cand_insert c j) i"
  by (cases "j div 64 < length c")
     (auto simp: cand_contains_bit cand_insert_def nth_list_update bit_or_iff list_update_beyond not_less)

lemma cand_insert_self: "i div 64 < length c \<Longrightarrow> cand_contains (cand_insert c i) i"
  by (simp add: cand_contains_bit cand_insert_def bit_or_iff bit_exp_iff)

lemma cand_fold_mono: "cand_contains c i \<Longrightarrow> cand_contains (foldl cand_insert c is) i"
  by (induction "is" arbitrary: c) (simp_all add: cand_insert_mono)

lemma cand_fold_mem: "i \<in> set is \<Longrightarrow> i div 64 < length c \<Longrightarrow> cand_contains (foldl cand_insert c is) i"
  by (induction "is" arbitrary: c) (auto simp: cand_insert_self cand_fold_mono)

text \<open>The two folds of \<open>candidates\<close>.\<close>

lemma cand_fold2_mono:
  "cand_contains c i \<Longrightarrow> cand_contains (foldl (\<lambda>c m. foldl cand_insert c (byp ! m)) c ms) i"
  by (induction ms arbitrary: c) (simp_all add: cand_fold_mono)

lemma cand_fold2_mem:
  "m \<in> set ms \<Longrightarrow> i \<in> set (byp ! m) \<Longrightarrow> i div 64 < length c \<Longrightarrow>
     cand_contains (foldl (\<lambda>c m. foldl cand_insert c (byp ! m)) c ms) i"
  by (induction ms arbitrary: c) (auto simp: cand_fold2_mono cand_fold_mem)

text \<open>What the builder promises of the terms it has seen.\<close>

definition served :: "build \<Rightarrow> rstr \<Rightarrow> nat \<Rightarrow> bool" where
  "served b l i \<longleftrightarrow> (\<exists>p<length (b_literals b). b_literals b ! p = l \<and> i \<in> set (b_by_pattern b ! p))"

definition build_ok :: "(nat \<times> rstr) set \<Rightarrow> build \<Rightarrow> bool" where
  "build_ok D b \<longleftrightarrow>
     length (b_by_pattern b) = length (b_literals b) \<and>
     (\<forall>l p. b_index b l = Some p \<longrightarrow> p < length (b_literals b) \<and> b_literals b ! p = l) \<and>
     (\<forall>(i, t)\<in>D. t \<noteq> [] \<longrightarrow>
        (case required_literal t of
           Some l \<Rightarrow> served b l i
         | None \<Rightarrow> i \<in> set (b_always b)))"

lemma build_ok_insert:
  assumes "build_ok D b" "length (b_by_pattern c) = length (b_literals c)"
    "\<And>l p. b_index c l = Some p \<Longrightarrow> p < length (b_literals c) \<and> b_literals c ! p = l"
    "\<And>l j. served b l j \<Longrightarrow> served c l j" "set (b_always b) \<subseteq> set (b_always c)"
    "t \<noteq> [] \<Longrightarrow> (case required_literal t of Some l \<Rightarrow> served c l i | None \<Rightarrow> i \<in> set (b_always c))"
  shows "build_ok (insert (i, t) D) c"
  using assms unfolding build_ok_def by (fastforce split: option.splits)

lemma build_step_ok:
  assumes ok: "build_ok D b" shows "build_ok (insert (i, t) D) (build_step b (i, t))"
proof -
  have len: "length (b_by_pattern b) = length (b_literals b)"
    and idx: "\<And>l p. b_index b l = Some p \<Longrightarrow> p < length (b_literals b) \<and> b_literals b ! p = l"
    using ok by (auto simp: build_ok_def)
  show ?thesis
  proof (cases "t = []")
    case True
    then have "build_step b (i, t) = b" by (simp add: build_step_def)
    then show ?thesis using build_ok_insert [OF ok len idx, of t i] True by simp
  next
    case ne: False
    show ?thesis
    proof (cases "required_literal t")
      case None
      then have e: "build_step b (i, t) = b\<lparr>b_always := b_always b @ [i]\<rparr>" using ne by (simp add: build_step_def)
      show ?thesis unfolding e
        by (rule build_ok_insert [OF ok]) (auto simp: len idx None served_def)
    next
      case (Some l)
      show ?thesis
      proof (cases "b_index b l")
        case None
        then have e: "build_step b (i, t) = b\<lparr>b_literals := b_literals b @ [l],
            b_by_pattern := b_by_pattern b @ [[i]], b_index := (b_index b)(l \<mapsto> length (b_literals b))\<rparr>"
          using ne Some by (simp add: build_step_def)
        show ?thesis unfolding e
        proof (rule build_ok_insert [OF ok])
          fix m j assume "served b m j"
          then obtain p where "p < length (b_literals b)" "b_literals b ! p = m" "j \<in> set (b_by_pattern b ! p)"
            by (auto simp: served_def)
          then show "served (b\<lparr>b_literals := b_literals b @ [l], b_by_pattern := b_by_pattern b @ [[i]],
              b_index := (b_index b)(l \<mapsto> length (b_literals b))\<rparr>) m j"
            unfolding served_def by (intro exI [of _ p]) (simp add: nth_append len)
        next
          show "case required_literal t of None \<Rightarrow> i \<in> set (b_always (b\<lparr>b_literals := b_literals b @ [l],
              b_by_pattern := b_by_pattern b @ [[i]], b_index := (b_index b)(l \<mapsto> length (b_literals b))\<rparr>))
            | Some la \<Rightarrow> served (b\<lparr>b_literals := b_literals b @ [l], b_by_pattern := b_by_pattern b @ [[i]],
              b_index := (b_index b)(l \<mapsto> length (b_literals b))\<rparr>) la i"
            unfolding Some option.case served_def
            by (intro exI [of _ "length (b_literals b)"]) (simp add: nth_append len)
        qed (auto simp: len nth_append split: if_splits dest: idx)
      next
        case (Some p)
        then have e: "build_step b (i, t) = b\<lparr>b_by_pattern := (b_by_pattern b)[p := b_by_pattern b ! p @ [i]]\<rparr>"
          using ne \<open>required_literal t = _\<close> by (simp add: build_step_def)
        show ?thesis unfolding e
          by (rule build_ok_insert [OF ok])
             (use idx [OF Some] in \<open>auto simp: len idx served_def nth_list_update \<open>required_literal t = _\<close>\<close>)
      qed
    qed
  qed
qed

lemma build_terms_ok: "build_ok (set (enumerate 0 terms)) (build_terms terms)"
proof -
  have "build_ok D b \<Longrightarrow> build_ok (set xs \<union> D) (foldl build_step b xs)" for xs D b
  proof (induction xs arbitrary: D b)
    case (Cons x xs)
    obtain i t where x: "x = (i, t)" by (cases x)
    show ?case using Cons.IH [OF build_step_ok [OF Cons.prems, of i t]] by (simp add: x)
  qed simp
  from this [of "{}"] show ?thesis by (simp add: build_terms_def build_ok_def)
qed

text \<open>What is documented of the automaton's overlapping search: it reports exactly the
  patterns that occur in the text, each at least once.\<close>

definition ac_ok :: "(rstr list \<Rightarrow> automaton option) \<Rightarrow> bool" where
  "ac_ok ac_new \<longleftrightarrow>
     (\<forall>ls f s. ac_new ls = Some f \<longrightarrow> set (f s) = {p. p < length ls \<and> str_contains s (ls ! p)})"

definition ac_naive :: "rstr list \<Rightarrow> automaton option" where
  "ac_naive ls = Some (\<lambda>s. filter (\<lambda>p. str_contains s (ls ! p)) [0..<length ls])"

lemma ac_naive_ok: "ac_ok ac_naive"
  by (auto simp: ac_ok_def ac_naive_def)

lemma candidates_mem:
  assumes "i < length (tl_terms ts)"
    "i \<in> set (tl_always ts) \<or> (\<exists>f m. tl_ac ts = Some f \<and> m \<in> set (f s) \<and> i \<in> set (tl_by_pattern ts ! m))"
  shows "cand_contains (list_candidates ts s) i"
proof -
  have z: "i div 64 < (length (tl_terms ts) + 63) div 64" using assms(1) by simp
  show ?thesis using assms(2)
    by (auto simp: list_candidates_def Let_def cand_fold2_mono cand_fold_mem cand_fold2_mem z split: option.split)
qed

lemma tl_terms_new [simp]: "tl_terms (term_list_new ac_new terms) = terms"
  by (auto simp: term_list_new_def Let_def split: option.splits)

lemma firing_term_is_candidate:
  assumes ac: "ac_ok ac_new" and i: "(i, t) \<in> set (enumerate 0 terms)"
    and ne: "t \<noteq> []" and fires: "term_fires u s t"
  shows "cand_contains (list_candidates (term_list_new ac_new terms) s) i"
proof (rule candidates_mem)
  let ?b = "build_terms terms" and ?ts = "term_list_new ac_new terms"
  show il: "i < length (tl_terms ?ts)" using i by (auto simp: in_set_enumerate_eq)
  have ok: "case required_literal t of Some l \<Rightarrow> served ?b l i | None \<Rightarrow> i \<in> set (b_always ?b)"
    using build_terms_ok [of terms] i ne unfolding build_ok_def by blast
  show "i \<in> set (tl_always ?ts) \<or> (\<exists>f m. tl_ac ?ts = Some f \<and> m \<in> set (f s) \<and> i \<in> set (tl_by_pattern ?ts ! m))"
  proof (cases "b_literals ?b \<noteq> [] \<and> ac_new (b_literals ?b) = None")
    case True
    then show ?thesis using il by (simp add: term_list_new_def Let_def)
  next
    case False
    then have e: "tl_always ?ts = b_always ?b" "tl_by_pattern ?ts = b_by_pattern ?b"
      "tl_ac ?ts = (if b_literals ?b = [] then None else ac_new (b_literals ?b))"
      by (auto simp: term_list_new_def Let_def split: option.split)
    show ?thesis
    proof (cases "required_literal t")
      case None
      then show ?thesis using ok by (simp add: e)
    next
      case (Some l)
      then obtain p where p: "p < length (b_literals ?b)" "b_literals ?b ! p = l" "i \<in> set (b_by_pattern ?b ! p)"
        using ok by (auto simp: served_def)
      then obtain f where f: "ac_new (b_literals ?b) = Some f" "b_literals ?b \<noteq> []" using False by fastforce
      have "str_contains s l" by (rule required_literal_needed [OF ne fires Some])
      then have "p \<in> set (f s)" using ac f(1) p(1,2) unfolding ac_ok_def by blast
      then show ?thesis using p(3) f by (auto simp: e)
    qed
  qed
qed

lemma find_cong_set: "(\<And>x. x \<in> set xs \<Longrightarrow> P x = Q x) \<Longrightarrow> find P xs = find Q xs"
  by (induction xs) auto

lemma find_enumerate_snd: "map_option snd (find (\<lambda>(i, x). P x) (enumerate k xs)) = find P xs"
  by (induction xs arbitrary: k) auto

lemma matches_terms_full_scan:
  assumes "ac_ok ac_new"
  shows "matches_terms u s (term_list_new ac_new terms) = find (\<lambda>t. t \<noteq> [] \<and> term_fires u s t) terms"
proof -
  let ?c = "list_candidates (term_list_new ac_new terms) s"
  have "find (\<lambda>(i, t). \<not> (t = [] \<or> \<not> cand_contains ?c i) \<and> term_fires u s t) (enumerate 0 terms)
      = find (\<lambda>(i, t). t \<noteq> [] \<and> term_fires u s t) (enumerate 0 terms)"
    by (rule find_cong_set) (auto intro: firing_term_is_candidate [OF assms])
  then show ?thesis by (simp add: matches_terms_def find_enumerate_snd)
qed

section \<open>What the matcher looks for\<close>

text \<open>\<open>spells t w\<close>: the text \<open>w\<close> is the term \<open>t\<close> with one or more separators for every space.\<close>

inductive spells :: "rstr \<Rightarrow> rstr \<Rightarrow> bool" where
  spells_Nil: "spells [] []"
| spells_char: "c \<noteq> 32 \<Longrightarrow> spells t w \<Longrightarrow> spells (c # t) (c # w)"
| spells_space: "sp \<noteq> [] \<Longrightarrow> list_all is_separator sp \<Longrightarrow> spells t w \<Longrightarrow> spells (32 # t) (sp @ w)"

inductive_cases spells_NilE: "spells [] w"
inductive_cases spells_ConsE: "spells (c # t) w"

definition spelled :: "rstr \<Rightarrow> rstr \<Rightarrow> bool" where
  "spelled text w \<longleftrightarrow> (if has_space text \<and> is_ascii text then spells text w else w = text)"

definition left_free :: "unicode \<Rightarrow> rstr \<Rightarrow> rstr \<Rightarrow> bool" where
  "left_free u text a \<longleftrightarrow>
     edge_is_ascii_word (first_char text) \<longrightarrow>
     (case find (\<lambda>c. \<not> is_combining_mark c) (rev a) of None \<Rightarrow> True | Some c \<Rightarrow> \<not> is_letter_char u c)"

definition right_free :: "unicode \<Rightarrow> rstr \<Rightarrow> right_rule \<Rightarrow> rstr \<Rightarrow> bool" where
  "right_free u text right b \<longleftrightarrow>
     right \<noteq> Free \<and> edge_is_ascii_word (last_char text) \<longrightarrow>
     (case b of [] \<Rightarrow> True | c # _ \<Rightarrow> \<not> is_combining_mark c \<and> \<not> is_letter_char u c \<and>
        (right = NotWordChar \<longrightarrow> \<not> is_ascii_digit c \<and> c \<noteq> 95))"

definition term_in_name :: "unicode \<Rightarrow> rstr \<Rightarrow> rstr \<Rightarrow> bool" where
  "term_in_name u s t \<longleftrightarrow>
     (case split_anchor t of (text, anchored) \<Rightarrow>
        \<exists>a w b. s = a @ w @ b \<and> spelled text w \<and> left_free u text a \<and>
                right_free u text (right_rule_of text anchored) b)"

text \<open>A term is clean when its text does not start with a space and no space is followed by a
  separator; the loader's trimming gives the first part.\<close>

fun spaces_apart :: "rstr \<Rightarrow> bool" where
  "spaces_apart (c # d # t) \<longleftrightarrow> (c = 32 \<longrightarrow> \<not> is_separator d) \<and> spaces_apart (d # t)"
| "spaces_apart _ \<longleftrightarrow> True"

definition clean_term :: "rstr \<Rightarrow> bool" where
  "clean_term t \<longleftrightarrow> first_char t \<noteq> Some 32 \<and> spaces_apart (fst (split_anchor t))"

lemma is_separator_space [simp]: "is_separator 32"
  by (simp add: is_separator_def lit_def)

lemma flex_match_spells: "flex_match t hay = Some n \<Longrightarrow> n \<le> length hay \<and> spells t (take n hay)"
proof (induction t arbitrary: hay n)
  case (Cons c t)
  show ?case
  proof (cases "c = 32")
    case True
    let ?sp = "takeWhile is_separator hay"
    obtain m where m: "flex_match t (drop (length ?sp) hay) = Some m" "n = length ?sp + m" "?sp \<noteq> []"
      using Cons.prems True by (auto simp: Let_def split: if_splits)
    have "take n hay = ?sp @ take m (drop (length ?sp) hay)"
      unfolding m(2) take_add by (simp add: takeWhile_eq_take [symmetric])
    then show ?thesis using Cons.IH [OF m(1)] m(2,3) True length_takeWhile_le [of is_separator hay]
      by (auto intro!: spells_space simp: list_all_iff dest: set_takeWhileD)
  next
    case False
    then obtain hay' m where m: "hay = c # hay'" "flex_match t hay' = Some m" "n = Suc m"
      using Cons.prems by (auto split: list.splits if_splits)
    then show ?thesis using Cons.IH [OF m(2)] False by (simp add: spells_char)
  qed
qed (simp add: spells_Nil)

lemma last_char_Cons [simp]: "last_char (c # d # t) = last_char (d # t)"
  by (simp add: last_char_def first_char_def) (cases "rev t"; simp)

lemma spells_flex_match:
  "spells t w \<Longrightarrow> spaces_apart t \<Longrightarrow>
     \<exists>n. flex_match t (w @ r) = Some n \<and> (last_char t \<noteq> Some 32 \<longrightarrow> n = length w)"
proof (induction rule: spells.induct)
  case (spells_char c t w)
  then have "spaces_apart t" by (cases t) auto
  then obtain n where "flex_match t (w @ r) = Some n" "last_char t \<noteq> Some 32 \<longrightarrow> n = length w"
    using spells_char by blast
  moreover have "last_char (c # t) \<noteq> Some 32 \<longrightarrow> last_char t \<noteq> Some 32"
    by (cases "rev t") (simp_all add: last_char_def first_char_def)
  ultimately show ?case using spells_char(1) by auto
next
  case (spells_space sp t w)
  show ?case
  proof (cases t)
    case Nil
    then have "w = []" using spells_space(3) by (auto elim: spells_NilE)
    moreover have "takeWhile is_separator (sp @ r) \<noteq> []" using spells_space(1,2) by (cases sp) auto
    ultimately show ?thesis by (simp add: Nil last_char_def first_char_def Let_def)
  next
    case (Cons d t')
    then have d: "\<not> is_separator d" "d \<noteq> 32" and ap: "spaces_apart t" using spells_space(5) by auto
    then obtain w' where w: "w = d # w'" using spells_space(3) Cons by (auto elim: spells_ConsE)
    obtain n where n: "flex_match t (w @ r) = Some n" "last_char t \<noteq> Some 32 \<longrightarrow> n = length w"
      using spells_space(4) ap by blast
    have tw: "takeWhile is_separator (sp @ w @ r) = sp"
      using spells_space(2) d by (simp add: w list_all_iff)
    show ?thesis using n tw spells_space(1) by (auto simp: Cons Let_def)
  qed
qed (simp)

lemma before_ok_left_free: "before_ok u s text i \<longleftrightarrow> left_free u text (take i s)"
  by (auto simp: before_ok_def left_free_def char_before_def split: option.split)

lemma after_ok_right_free: "after_ok u s text right e \<longleftrightarrow> right_free u text right (drop e s)"
proof (cases "e < length s")
  case True
  then have d: "drop e s = s ! e # drop (Suc e) s" by (simp add: Cons_nth_drop_Suc)
  show ?thesis using True unfolding after_ok_def right_free_def d
    by (auto simp: char_at_def mark_at_def is_word_char_at_def split: right_rule.split)
qed (simp add: after_ok_def right_free_def char_at_def)

lemma spells_first: "spells t w \<Longrightarrow> t \<noteq> [] \<Longrightarrow> hd t \<noteq> 32 \<Longrightarrow> \<exists>w'. w = hd t # w'"
  by (induction rule: spells.induct) auto

lemma after_ok_space: "last_char text = Some 32 \<Longrightarrow> after_ok u s text right e"
  by (simp add: after_ok_def edge_is_ascii_word_def is_word_char_def is_ascii_letter_def is_ascii_digit_def)

lemma term_fires_iff:
  assumes ne: "t \<noteq> []" and clean: "clean_term t"
  shows "term_fires u s t \<longleftrightarrow> term_in_name u s t"
proof -
  obtain x b where x: "split_anchor t = (x, b)" by (cases "split_anchor t")
  have xne: "x \<noteq> []" by (rule split_anchor_not_Nil [OF ne x])
  have hd: "hd x \<noteq> 32" and apart: "spaces_apart x"
    using clean x xne by (auto simp: clean_term_def split_anchor_def first_char_def split: if_splits list.splits)
  let ?r = "right_rule_of x b"
  have "(\<exists>i e. occ_at s x i = Some e \<and> before_ok u s x i \<and> after_ok u s x ?r e) \<longleftrightarrow>
        (\<exists>a w c. s = a @ w @ c \<and> spelled x w \<and> left_free u x a \<and> right_free u x ?r c)" (is "?L \<longleftrightarrow> ?R")
  proof
    assume ?L
    then obtain i e where ie: "occ_at s x i = Some e" "before_ok u s x i" "after_ok u s x ?r e" by blast
    have "\<exists>n. e = i + n \<and> spelled x (take n (drop i s))"
      using ie(1) by (auto simp: occ_at_def spelled_def split: if_splits dest: flex_match_spells)
    then obtain n where n: "e = i + n" "spelled x (take n (drop i s))" by blast
    have "s = take i s @ take n (drop i s) @ drop e s"
      unfolding n(1) by (metis add.commute append_take_drop_id drop_drop)
    then show ?R using n(2) ie(2,3) unfolding before_ok_left_free after_ok_right_free by blast
  next
    assume ?R
    then obtain a w c where w: "s = a @ w @ c" "spelled x w" "left_free u x a" "right_free u x ?r c" by blast
    have bo: "before_ok u s x (length a)" using w by (simp add: before_ok_left_free)
    have ao: "after_ok u s x ?r (length a + length w)" using w by (simp add: after_ok_right_free)
    show ?L
    proof (cases "has_space x \<and> is_ascii x")
      case False
      then have "occ_at s x (length a) = Some (length a + length w)"
        using w by (auto simp: spelled_def occ_at_def)
      then show ?thesis using bo ao by blast
    next
      case True
      then have sp: "spells x w" using w(2) by (simp add: spelled_def)
      obtain w' where w': "w = hd x # w'" using spells_first [OF sp xne hd] by blast
      obtain n where n: "flex_match x (w @ c) = Some n" "last_char x \<noteq> Some 32 \<longrightarrow> n = length w"
        using spells_flex_match [OF sp apart, of c] by blast
      have "occ_at s x (length a) = Some (length a + n)"
        using True n(1) by (simp add: occ_at_def w(1) w')
      moreover have "after_ok u s x ?r (length a + n)"
        using ao n(2) after_ok_space by (cases "last_char x = Some 32") auto
      ultimately show ?thesis using bo by blast
    qed
  qed
  then show ?thesis
    by (simp add: term_fires_def term_in_name_def x contains_bounded_def contains_from_iff [OF xne])
qed

text \<open>C18: \<open>matches_terms\<close>, prefilter, candidate bitset and greedy separator loop included,
  returns the first term of the list that is spelled in the name with its boundaries: some
  part of the name is the term with one or more separators for each of its spaces, no Latin
  letter before it (looking through combining marks), after it what the term's right rule
  allows. The terms are clean: no leading space, no space before a separator.\<close>

theorem first_term_in_the_name:
  assumes "ac_ok ac_new" "list_all clean_term terms"
  shows "matches_terms u s (term_list_new ac_new terms) = find (\<lambda>t. t \<noteq> [] \<and> term_in_name u s t) terms"
proof -
  have "find (\<lambda>t. t \<noteq> [] \<and> term_fires u s t) terms = find (\<lambda>t. t \<noteq> [] \<and> term_in_name u s t) terms"
    using assms(2) by (intro find_cong_set) (auto simp: list_all_iff term_fires_iff)
  then show ?thesis using matches_terms_full_scan [OF assms(1)] by simp
qed

lemma spells_example: "spells (lit ''star war'') (lit ''star-.war'')"
proof -
  have "spells (lit ''war'') (lit ''war'')"
    by (simp add: lit_def spells_char spells_Nil)
  then have "spells (32 # lit ''war'') (lit ''-.'' @ lit ''war'')"
    by (intro spells_space) (simp_all add: lit_def is_separator_def)
  then show ?thesis by (simp add: lit_def spells_char)
qed

lemma term_in_nameI:
  "split_anchor t = (x, b) \<Longrightarrow> s = a @ w @ c \<Longrightarrow> spelled x w \<Longrightarrow> left_free u x a \<Longrightarrow>
     right_free u x (right_rule_of x b) c \<Longrightarrow> term_in_name u s t"
  by (auto simp: term_in_name_def)

text \<open>Its hypotheses hold of the plain search and of the term \<open>star war\<close>, which is found in
  \<open>a_star-.war\<close>.\<close>

theorem first_term_in_the_name_witness:
  "matches_terms ascii_tables (lit ''a_star-.war'') (term_list_new ac_naive [lit ''star war'']) =
     Some (lit ''star war'')"
proof -
  let ?t = "lit ''star war''"
  have clean: "list_all clean_term [?t]"
    by (simp add: clean_term_def lit_def split_anchor_def first_char_def last_char_def RIGHT_ANCHOR_def is_separator_def)
  have "term_in_name ascii_tables (lit ''a_star-.war'') ?t"
  proof (rule term_in_nameI [where a = "lit ''a_''" and w = "lit ''star-.war''" and c = "[]"])
    show "split_anchor ?t = (?t, False)"
      by (simp add: lit_def split_anchor_def first_char_def last_char_def RIGHT_ANCHOR_def)
    show "spelled ?t (lit ''star-.war'')"
      using spells_example by (simp add: spelled_def lit_def has_space_def is_ascii_def)
    show "left_free ascii_tables ?t (lit ''a_'')"
      by (simp add: left_free_def lit_def is_combining_mark_def is_letter_char_def is_ascii_letter_def)
  qed (simp_all add: lit_def right_free_def)
  moreover have "?t \<noteq> []" by (simp add: lit_def)
  ultimately show ?thesis unfolding first_term_in_the_name [OF ac_naive_ok clean] by simp
qed

section \<open>A term that can never match\<close>

lemma flex_match_stuck: "is_separator d \<Longrightarrow> flex_match (x @ 32 # d # y) hay = None"
proof (induction x arbitrary: hay)
  case Nil
  let ?r = "drop (length (takeWhile is_separator hay)) hay"
  have r: "?r = dropWhile is_separator hay" by (simp add: dropWhile_eq_drop)
  have "takeWhile is_separator ?r = []"
    unfolding r by (induction hay) simp_all
  moreover have "h \<noteq> d" if "?r = h # hs" for h hs
    using that Nil unfolding r by (auto simp: dropWhile_eq_Cons_conv)
  ultimately show ?case by (auto simp: Let_def split: list.splits)
next
  case (Cons c x)
  then show ?case by (auto simp: Let_def split: list.splits)
qed

text \<open>The loop takes every separator of the name for one space, so a term with a space before
  a hyphen (or before a second space) does not even match itself.\<close>

theorem space_before_separator_never_fires:
  assumes "split_anchor t = (x @ 32 # d # y, b)" "is_separator d" "is_ascii (x @ 32 # d # y)"
  shows "\<not> term_fires u s t"
proof -
  have "occ_at s (x @ 32 # d # y) i = None" for i
    using assms(2,3) by (simp add: occ_at_def has_space_def flex_match_stuck)
  then show ?thesis by (simp add: term_fires_def assms(1) contains_bounded_def contains_from_iff)
qed

end
