(* ===== verification/Content_Filter.thy ===== *)
theory Content_Filter
  imports Term_Match Search_Tree File_Slab
begin

text \<open>
  The content filter (\<open>src/filter/mod.rs\<close>): its lists, the layered check, the recovery of
  mangled names, the list files, and the verdict cache that serves searches and source
  requests while an operator replaces the lists.

  A check is a program of loads (\<open>reading\<close>): every \<open>ArcSwap::load\<close> of \<open>check_inner\<close> is one node,
  so a check can be run at once on given lists (\<open>run\<close>) or one load at a time, interleaved with
  replacements, which is how the step relation of the cache runs it.

  Parameters: the Unicode tables; \<open>hex::decode\<close>; the keyed hash of a name; and the age scanner
  of Layer 2 (\<open>matches_layer2\<close>), any function of the two forms of the name and the vocabulary,
  since nothing here depends on what it finds.
\<close>

section \<open>Layers and verdicts\<close>

datatype layer = L1Jargon | L2AgePattern | L3HashBlock | L4Extra | L5Poison

definition counts_against_publisher :: "layer \<Rightarrow> bool" where
  "counts_against_publisher l \<longleftrightarrow> l \<noteq> L5Poison"

fun stat_key :: "layer \<Rightarrow> string" where
  "stat_key L1Jargon = ''csam_L1_jargon''"
| "stat_key L2AgePattern = ''csam_L2_age''"
| "stat_key L3HashBlock = ''csam_L3_hash''"
| "stat_key L4Extra = ''csam_L4_extra''"
| "stat_key L5Poison = ''poison_L5_hash''"

datatype filter_result = F_Allow | F_Block layer rstr

fun is_blocked :: "filter_result \<Rightarrow> bool" where
  "is_blocked F_Allow = False"
| "is_blocked (F_Block l r) = True"

section \<open>Names\<close>

text \<open>\<open>String::from_utf8\<close>: a byte sequence is accepted when it is the encoding of its decoding.\<close>

definition from_utf8 :: "bytes \<Rightarrow> rstr option" where
  "from_utf8 bs = (let s = from_utf8_lossy bs in if utf8 s = bs then Some s else None)"

definition one_round :: "rstr \<Rightarrow> rstr option" where
  "one_round s =
     (if \<not> list_ex (\<lambda>c. 0x80 \<le> c) s then None
      else if \<not> list_all (\<lambda>c. c < 0x100) s then None
      else case from_utf8 (map of_nat s) of
        None \<Rightarrow> None
      | Some decoded \<Rightarrow> if decoded \<noteq> s then Some decoded else None)"

definition undo_mojibake :: "rstr \<Rightarrow> rstr option" where
  "undo_mojibake name =
     (case one_round name of
        None \<Rightarrow> None
      | Some first \<Rightarrow> Some (case one_round first of Some second \<Rightarrow> second | None \<Rightarrow> first))"

definition is_ascii_alnum :: "rchar \<Rightarrow> bool" where
  "is_ascii_alnum c \<longleftrightarrow> is_ascii_letter c \<or> is_ascii_digit c"

definition without_extension :: "rstr \<Rightarrow> rstr" where
  "without_extension lowered =
     (let ext = rev (takeWhile (\<lambda>c. c \<noteq> 46) (rev lowered));
          stem = rev (drop 1 (dropWhile (\<lambda>c. c \<noteq> 46) (rev lowered)))
      in if 46 \<in> set lowered \<and> stem \<noteq> [] then
           (if 1 \<le> length ext \<and> length ext \<le> 8 \<and> list_all is_ascii_alnum ext then stem else lowered)
         else lowered)"

definition normalize_terms :: "unicode \<Rightarrow> rstr list \<Rightarrow> rstr list" where
  "normalize_terms u terms = filter (\<lambda>t. t \<noteq> []) (map (\<lambda>t. u_str_lower u (trim t)) terms)"

text \<open>\<open>layer2_terms::normalize_separators\<close>: \<open>(out, pending_space)\<close> is the loop's state.\<close>

definition normalize_step :: "unicode \<Rightarrow> rstr \<times> bool \<Rightarrow> rchar \<Rightarrow> rstr \<times> bool" where
  "normalize_step u st c =
     (case st of (out, pending_space) \<Rightarrow>
        if is_combining_mark c then (out, pending_space)
        else if \<not> u_alphanumeric u c then (out, out \<noteq> [])
        else ((if pending_space then out @ [32] else out) @ u_lower u c, False))"

definition normalize_separators :: "unicode \<Rightarrow> rstr \<Rightarrow> rstr" where
  "normalize_separators u name = fst (foldl (normalize_step u) ([], False) name)"

section \<open>The lists\<close>

record layer2_terms =
  sex_substring :: "rstr list"
  sex_prefix :: "rstr list"
  sex_bounded :: "rstr list"
  exceptions :: "rstr list"
  term_exceptions :: "rstr list"
  minor_cjk :: "rstr list"
  minor_latin :: "rstr list"
  minor_ru :: "rstr list"
  sex_ru :: "rstr list"
  age_guard :: "rstr list"
  unpaired_age_max :: nat
  age_guard_window :: nat

record filter_lists =
  hash_blocklist :: "file_hash set"
  extra_terms :: term_list
  jargon_terms :: term_list
  l2_terms :: layer2_terms
  hash_filter_set :: "file_hash set"
  hash_whitelist :: "file_hash set"

definition hash_is_listed :: "filter_lists \<Rightarrow> file_hash \<Rightarrow> bool" where
  "hash_is_listed L h \<longleftrightarrow>
     (if h \<in> hash_whitelist L then False else h \<in> hash_blocklist L \<or> h \<in> hash_filter_set L)"

section \<open>The check, load by load\<close>

datatype set_slot = SBlock | SPoison | SWhite
datatype term_slot = TJargon | TExtra

fun get_set :: "filter_lists \<Rightarrow> set_slot \<Rightarrow> file_hash set" where
  "get_set L SBlock = hash_blocklist L"
| "get_set L SPoison = hash_filter_set L"
| "get_set L SWhite = hash_whitelist L"

fun get_terms :: "filter_lists \<Rightarrow> term_slot \<Rightarrow> term_list" where
  "get_terms L TJargon = jargon_terms L"
| "get_terms L TExtra = extra_terms L"

datatype 'r reading =
    Done 'r
  | Load_Set set_slot "file_hash set \<Rightarrow> 'r reading"
  | Load_Terms term_slot "term_list \<Rightarrow> 'r reading"
  | Load_L2 "layer2_terms \<Rightarrow> 'r reading"

primrec run :: "filter_lists \<Rightarrow> 'r reading \<Rightarrow> 'r" where
  "run L (Done r) = r"
| "run L (Load_Set sl k) = run L (k (get_set L sl))"
| "run L (Load_Terms sl k) = run L (k (get_terms L sl))"
| "run L (Load_L2 k) = run L (k (l2_terms L))"

type_synonym scanner = "rstr \<Rightarrow> rstr \<Rightarrow> layer2_terms \<Rightarrow> rstr option"

definition mojibake_note :: rstr where
  "mojibake_note = lit '' (mojibake)''"

text \<open>The end of \<open>check_inner\<close>: the three term layers on the name as it stands.\<close>

definition check_plain :: "unicode \<Rightarrow> scanner \<Rightarrow> rstr \<Rightarrow> rstr \<Rightarrow> layer2_terms \<Rightarrow> bool \<Rightarrow> filter_result reading" where
  "check_plain u scan filename lowered l2 terms_apply =
     (let stem = without_extension lowered;
          layer4 = Load_Terms TExtra (\<lambda>extra.
            if terms_apply then
              (case matches_terms u stem extra of
                 Some t \<Rightarrow> Done (F_Block L4Extra t)
               | None \<Rightarrow> Done F_Allow)
            else Done F_Allow);
          layer2 = (case scan filename lowered l2 of
              Some reason \<Rightarrow> Done (F_Block L2AgePattern reason)
            | None \<Rightarrow> layer4)
      in Load_Terms TJargon (\<lambda>jargon.
           if terms_apply then
             (case matches_terms u stem jargon of
                Some t \<Rightarrow> Done (F_Block L1Jargon t)
              | None \<Rightarrow> layer2)
           else layer2))"

text \<open>The recovered name, when there is one.\<close>

definition check_recovered ::
  "unicode \<Rightarrow> scanner \<Rightarrow> rstr \<Rightarrow> layer2_terms \<Rightarrow> bool \<Rightarrow> filter_result reading \<Rightarrow> filter_result reading" where
  "check_recovered u scan recovered l2 term_exempt rest =
     (let rec_lower = u_str_lower u recovered;
          layer2 = (case scan recovered rec_lower l2 of
              Some reason \<Rightarrow> Done (F_Block L2AgePattern (reason @ mojibake_note))
            | None \<Rightarrow> rest);
          rec_stem = without_extension rec_lower
      in if term_exempt then layer2
         else Load_Terms TJargon (\<lambda>jt.
           case matches_terms u rec_stem jt of
             Some t \<Rightarrow> Done (F_Block L1Jargon (t @ mojibake_note))
           | None \<Rightarrow> Load_Terms TExtra (\<lambda>ex.
               case matches_terms u rec_stem ex of
                 Some t \<Rightarrow> Done (F_Block L4Extra (t @ mojibake_note))
               | None \<Rightarrow> layer2)))"

definition term_exempt :: "unicode \<Rightarrow> rstr \<Rightarrow> layer2_terms \<Rightarrow> bool" where
  "term_exempt u filename l2 \<longleftrightarrow>
     term_exceptions l2 \<noteq> [] \<and>
     list_ex (\<lambda>p. str_contains (normalize_separators u filename) p) (term_exceptions l2)"

definition check_names :: "unicode \<Rightarrow> scanner \<Rightarrow> rstr \<Rightarrow> filter_result reading" where
  "check_names u scan name =
     (let filename = compose_latin name;
          lowered = u_str_lower u filename
      in Load_L2 (\<lambda>l2.
           let exempt = term_exempt u filename l2 in
           case undo_mojibake filename of
             None \<Rightarrow> check_plain u scan filename lowered l2 (\<not> exempt)
           | Some recovered \<Rightarrow>
               check_recovered u scan recovered l2 exempt (check_plain u scan filename lowered l2 False)))"

definition check_inner :: "unicode \<Rightarrow> scanner \<Rightarrow> file_hash \<Rightarrow> rstr \<Rightarrow> bool \<Rightarrow> filter_result reading" where
  "check_inner u scan h filename whitelist =
     (let hashes = Load_Set SBlock (\<lambda>b.
            if h \<in> b then Done (F_Block L3HashBlock (lit ''hash''))
            else Load_Set SPoison (\<lambda>f.
              if h \<in> f then Done (F_Block L5Poison (lit ''poison''))
              else check_names u scan filename))
      in if whitelist then Load_Set SWhite (\<lambda>w. if h \<in> w then Done F_Allow else hashes)
         else hashes)"

definition check_file :: "unicode \<Rightarrow> scanner \<Rightarrow> filter_lists \<Rightarrow> file_hash \<Rightarrow> rstr \<Rightarrow> filter_result" where
  "check_file u scan L h filename = run L (check_inner u scan h filename True)"

definition check_ignoring_whitelist :: "unicode \<Rightarrow> scanner \<Rightarrow> filter_lists \<Rightarrow> file_hash \<Rightarrow> rstr \<Rightarrow> filter_result" where
  "check_ignoring_whitelist u scan L h filename = run L (check_inner u scan h filename False)"

definition withheld :: "unicode \<Rightarrow> scanner \<Rightarrow> filter_lists \<Rightarrow> file_hash \<Rightarrow> rstr \<Rightarrow> bool" where
  "withheld u scan L h filename = is_blocked (check_file u scan L h filename)"

section \<open>The verdict cache\<close>

definition VERDICT_CACHE_MAX :: nat where
  "VERDICT_CACHE_MAX = 131072"

text \<open>A replacement (\<open>publish\<close>) stores the new list, moves the generation, then clears the cache. A
  reader (\<open>is_withheld\<close>) reads the generation, looks its file up, otherwise runs the check load
  by load, clears a full cache and inserts the verdict. Each atomic access is one step; the
  generation is a number, its \<open>u64\<close> never wraps.\<close>

datatype publisher = P_Stored | P_Bumped

datatype reader_at =
    R_Gen file_hash rstr nat
  | R_Run file_hash rstr nat "filter_result reading"
  | R_Insert file_hash rstr nat bool
  | R_Answer file_hash rstr nat bool

record filter_state =
  lists :: filter_lists
  generation :: nat
  verdicts :: "file_hash \<rightharpoonup> nat \<times> u64 \<times> bool"
  verdict_count :: nat
  publishers :: "nat \<rightharpoonup> publisher"
  readers :: "nat \<rightharpoonup> reader_at"

datatype replacement =
    New_Set set_slot "file_hash set"
  | New_Terms term_slot term_list
  | New_L2 layer2_terms

fun replace_list :: "replacement \<Rightarrow> filter_lists \<Rightarrow> filter_lists" where
  "replace_list (New_Set SBlock v) L = L\<lparr>hash_blocklist := v\<rparr>"
| "replace_list (New_Set SPoison v) L = L\<lparr>hash_filter_set := v\<rparr>"
| "replace_list (New_Set SWhite v) L = L\<lparr>hash_whitelist := v\<rparr>"
| "replace_list (New_Terms TJargon v) L = L\<lparr>jargon_terms := v\<rparr>"
| "replace_list (New_Terms TExtra v) L = L\<lparr>extra_terms := v\<rparr>"
| "replace_list (New_L2 v) L = L\<lparr>l2_terms := v\<rparr>"

fun next_load :: "filter_lists \<Rightarrow> filter_result reading \<Rightarrow> filter_result reading option" where
  "next_load L (Done r) = None"
| "next_load L (Load_Set sl k) = Some (k (get_set L sl))"
| "next_load L (Load_Terms sl k) = Some (k (get_terms L sl))"
| "next_load L (Load_L2 k) = Some (k (l2_terms L))"

definition lookup_verdict :: "(rstr \<Rightarrow> u64) \<Rightarrow> filter_state \<Rightarrow> file_hash \<Rightarrow> rstr \<Rightarrow> nat \<Rightarrow> bool option" where
  "lookup_verdict name_key s h n gen =
     (case verdicts s h of
        None \<Rightarrow> None
      | Some (g, k, w) \<Rightarrow> if g = gen \<and> k = name_key n then Some w else None)"

inductive filter_step ::
  "(rstr \<Rightarrow> u64) \<Rightarrow> rstr set \<Rightarrow> (file_hash \<Rightarrow> rstr \<Rightarrow> filter_result reading) \<Rightarrow>
     filter_state \<Rightarrow> filter_state \<Rightarrow> bool"
  for name_key names chk where
  store: "publishers s p = None \<Longrightarrow>
     filter_step name_key names chk s
       (s\<lparr>lists := replace_list v (lists s), publishers := (publishers s)(p \<mapsto> P_Stored)\<rparr>)"
| bump: "publishers s p = Some P_Stored \<Longrightarrow>
     filter_step name_key names chk s
       (s\<lparr>generation := generation s + 1, publishers := (publishers s)(p \<mapsto> P_Bumped)\<rparr>)"
| clear: "publishers s p = Some P_Bumped \<Longrightarrow>
     filter_step name_key names chk s
       (s\<lparr>verdicts := Map.empty, verdict_count := 0, publishers := (publishers s)(p := None)\<rparr>)"
| read_gen: "readers s r = None \<Longrightarrow> n \<in> names \<Longrightarrow>
     filter_step name_key names chk s (s\<lparr>readers := (readers s)(r \<mapsto> R_Gen h n (generation s))\<rparr>)"
| hit: "readers s r = Some (R_Gen h n g) \<Longrightarrow> lookup_verdict name_key s h n g = Some w \<Longrightarrow>
     filter_step name_key names chk s (s\<lparr>readers := (readers s)(r \<mapsto> R_Answer h n g w)\<rparr>)"
| miss: "readers s r = Some (R_Gen h n g) \<Longrightarrow> lookup_verdict name_key s h n g = None \<Longrightarrow>
     filter_step name_key names chk s (s\<lparr>readers := (readers s)(r \<mapsto> R_Run h n g (chk h n))\<rparr>)"
| load: "readers s r = Some (R_Run h n g c) \<Longrightarrow> next_load (lists s) c = Some c' \<Longrightarrow>
     filter_step name_key names chk s (s\<lparr>readers := (readers s)(r \<mapsto> R_Run h n g c')\<rparr>)"
| full: "readers s r = Some (R_Run h n g (Done v)) \<Longrightarrow> VERDICT_CACHE_MAX \<le> verdict_count s \<Longrightarrow>
     filter_step name_key names chk s
       (s\<lparr>verdicts := Map.empty, verdict_count := 0,
          readers := (readers s)(r \<mapsto> R_Insert h n g (is_blocked v))\<rparr>)"
| room: "readers s r = Some (R_Run h n g (Done v)) \<Longrightarrow> verdict_count s < VERDICT_CACHE_MAX \<Longrightarrow>
     filter_step name_key names chk s (s\<lparr>readers := (readers s)(r \<mapsto> R_Insert h n g (is_blocked v))\<rparr>)"
| insert: "readers s r = Some (R_Insert h n g w) \<Longrightarrow>
     filter_step name_key names chk s
       (s\<lparr>verdicts := (verdicts s)(h \<mapsto> (g, name_key n, w)),
          verdict_count := (if verdicts s h = None then verdict_count s + 1 else verdict_count s),
          readers := (readers s)(r \<mapsto> R_Answer h n g w)\<rparr>)"
| answer: "readers s r = Some (R_Answer h n g w) \<Longrightarrow>
     filter_step name_key names chk s (s\<lparr>readers := (readers s)(r := None)\<rparr>)"

definition filter_new :: "filter_lists \<Rightarrow> filter_state" where
  "filter_new L = \<lparr>lists = L, generation = 0, verdicts = Map.empty, verdict_count = 0,
     publishers = Map.empty, readers = Map.empty\<rparr>"

text \<open>No list is stored whose generation has not moved yet.\<close>

definition quiet :: "filter_state \<Rightarrow> bool" where
  "quiet s \<longleftrightarrow> (\<forall>p. publishers s p \<noteq> Some P_Stored)"

text \<open>What is held under the current generation is exact whenever no replacement is half done.\<close>

fun reader_exact :: "(file_hash \<Rightarrow> rstr \<Rightarrow> filter_result reading) \<Rightarrow> filter_lists \<Rightarrow> nat \<Rightarrow> reader_at \<Rightarrow> bool" where
  "reader_exact chk L gen (R_Gen h n g) \<longleftrightarrow> True"
| "reader_exact chk L gen (R_Run h n g c) \<longleftrightarrow> (g = gen \<longrightarrow> run L c = run L (chk h n))"
| "reader_exact chk L gen (R_Insert h n g w) \<longleftrightarrow> (g = gen \<longrightarrow> w = is_blocked (run L (chk h n)))"
| "reader_exact chk L gen (R_Answer h n g w) \<longleftrightarrow> (g = gen \<longrightarrow> w = is_blocked (run L (chk h n)))"

definition entry_exact ::
  "(rstr \<Rightarrow> u64) \<Rightarrow> rstr set \<Rightarrow> (file_hash \<Rightarrow> rstr \<Rightarrow> filter_result reading) \<Rightarrow> filter_lists \<Rightarrow> nat \<Rightarrow>
     file_hash \<Rightarrow> nat \<times> u64 \<times> bool \<Rightarrow> bool" where
  "entry_exact name_key names chk L gen h e \<longleftrightarrow>
     (case e of (g, k, w) \<Rightarrow>
        g = gen \<longrightarrow> (\<exists>n\<in>names. k = name_key n \<and> w = is_blocked (run L (chk h n))))"

fun reader_gen :: "reader_at \<Rightarrow> nat" where
  "reader_gen (R_Gen h n g) = g"
| "reader_gen (R_Run h n g c) = g"
| "reader_gen (R_Insert h n g w) = g"
| "reader_gen (R_Answer h n g w) = g"

fun reader_name :: "reader_at \<Rightarrow> rstr" where
  "reader_name (R_Gen h n g) = n"
| "reader_name (R_Run h n g c) = n"
| "reader_name (R_Insert h n g w) = n"
| "reader_name (R_Answer h n g w) = n"

definition filter_inv ::
  "(rstr \<Rightarrow> u64) \<Rightarrow> rstr set \<Rightarrow> (file_hash \<Rightarrow> rstr \<Rightarrow> filter_result reading) \<Rightarrow> filter_state \<Rightarrow> bool" where
  "filter_inv name_key names chk s \<longleftrightarrow>
     (\<forall>r a. readers s r = Some a \<longrightarrow> reader_gen a \<le> generation s \<and> reader_name a \<in> names) \<and>
     (\<forall>h g k w. verdicts s h = Some (g, k, w) \<longrightarrow> g \<le> generation s) \<and>
     (quiet s \<longrightarrow>
       (\<forall>r a. readers s r = Some a \<longrightarrow> reader_exact chk (lists s) (generation s) a) \<and>
       (\<forall>h e. verdicts s h = Some e \<longrightarrow> entry_exact name_key names chk (lists s) (generation s) h e))"

lemma run_next_load: "next_load L c = Some c' \<Longrightarrow> run L c' = run L c"
  by (cases c) auto

lemma filter_inv_new: "filter_inv name_key names chk (filter_new L)"
  by (simp add: filter_inv_def filter_new_def)

lemma filter_invD:
  assumes "filter_inv name_key names chk s"
  shows "readers s r = Some a \<Longrightarrow> reader_gen a \<le> generation s"
    and "readers s r = Some a \<Longrightarrow> reader_name a \<in> names"
    and "verdicts s h = Some e \<Longrightarrow> fst e \<le> generation s"
    and "quiet s \<Longrightarrow> readers s r = Some a \<Longrightarrow> reader_exact chk (lists s) (generation s) a"
    and "quiet s \<Longrightarrow> verdicts s h = Some e \<Longrightarrow> entry_exact name_key names chk (lists s) (generation s) h e"
  using assms unfolding filter_inv_def by (blast, blast, (cases e; simp; blast), blast, blast)

lemma filter_invI:
  assumes "\<And>r a. readers s r = Some a \<Longrightarrow> reader_gen a \<le> generation s \<and> reader_name a \<in> names"
    and "\<And>h e. verdicts s h = Some e \<Longrightarrow> fst e \<le> generation s"
    and "\<And>r a. quiet s \<Longrightarrow> readers s r = Some a \<Longrightarrow> reader_exact chk (lists s) (generation s) a"
    and "\<And>h e. quiet s \<Longrightarrow> verdicts s h = Some e \<Longrightarrow> entry_exact name_key names chk (lists s) (generation s) h e"
  shows "filter_inv name_key names chk s"
  unfolding filter_inv_def using assms by (intro conjI allI impI) fastforce+

lemma reader_exact_old: "reader_gen a < gen \<Longrightarrow> reader_exact chk L gen a"
  by (cases a) auto

lemma quiet_cong: "publishers s' = publishers s \<Longrightarrow> quiet s' = quiet s"
  by (simp add: quiet_def)

text \<open>A step of one reader keeps the invariant if its own next position and the entry it may
  write are exact.\<close>

lemma filter_inv_reader:
  assumes inv: "filter_inv name_key names chk s"
    and s': "lists s' = lists s" "generation s' = generation s" "publishers s' = publishers s"
    and r: "readers s' = (readers s)(r := ao)"
    and a: "\<And>a. ao = Some a \<Longrightarrow> reader_gen a \<le> generation s \<and> reader_name a \<in> names \<and>
                  (quiet s \<longrightarrow> reader_exact chk (lists s) (generation s) a)"
    and v: "\<And>h e. verdicts s' h = Some e \<Longrightarrow> verdicts s h = Some e \<or>
                  (fst e \<le> generation s \<and> (quiet s \<longrightarrow> entry_exact name_key names chk (lists s) (generation s) h e))"
  shows "filter_inv name_key names chk s'"
proof (rule filter_invI)
  have q: "quiet s' = quiet s" by (rule quiet_cong) (rule s'(3))
  note D = filter_invD [OF inv]
  fix x b assume b: "readers s' x = Some b"
  show "reader_gen b \<le> generation s' \<and> reader_name b \<in> names"
    using a [of b] D(1,2) [of x b] b by (auto simp: r s' split: if_splits)
  show "reader_exact chk (lists s') (generation s') b" if "quiet s'"
    using a [of b] D(4) [of x b] b that by (auto simp: r s' q split: if_splits)
next
  have q: "quiet s' = quiet s" by (rule quiet_cong) (rule s'(3))
  note D = filter_invD [OF inv]
  fix h e assume e: "verdicts s' h = Some e"
  show "fst e \<le> generation s'" using v [OF e] D(3) [of h e] by (auto simp: s')
  show "entry_exact name_key names chk (lists s') (generation s') h e" if "quiet s'"
    using v [OF e] D(5) [of h e] that by (auto simp: s' q)
qed

lemma filter_inv_step:
  assumes inj: "inj_on name_key names"
    and step: "filter_step name_key names chk s s'" and inv: "filter_inv name_key names chk s"
  shows "filter_inv name_key names chk s'"
  using step
proof (cases rule: filter_step.cases)
  note D = filter_invD [OF inv]
  case (store p v)
  then have "\<not> quiet s'" by (auto simp: quiet_def)
  then show ?thesis using D(1-3) by (intro filter_invI) (auto simp: store(1))
next
  note D = filter_invD [OF inv]
  case (bump p)
  show ?thesis
  proof (rule filter_invI)
    fix r a assume "readers s' r = Some a"
    then have a: "readers s r = Some a" by (simp add: bump(1))
    show "reader_gen a \<le> generation s' \<and> reader_name a \<in> names"
      using D(1,2) [OF a] by (simp add: bump(1))
    show "reader_exact chk (lists s') (generation s') a"
      using D(1) [OF a] by (intro reader_exact_old) (simp add: bump(1))
  next
    fix h e assume "verdicts s' h = Some e"
    then have e: "verdicts s h = Some e" by (simp add: bump(1))
    show "fst e \<le> generation s'" using D(3) [OF e] by (simp add: bump(1))
    show "entry_exact name_key names chk (lists s') (generation s') h e"
      using D(3) [OF e] by (cases e) (simp add: bump(1) entry_exact_def)
  qed
next
  note D = filter_invD [OF inv]
  case (clear p)
  then have "quiet s' = quiet s"
    unfolding quiet_def by (auto split: if_splits) (metis option.inject publisher.distinct(1))
  then show ?thesis using D(1,2,4) by (intro filter_invI) (auto simp: clear(1))
next
  case (read_gen r n h)
  then show ?thesis by (intro filter_inv_reader [OF inv, where r = r and ao = "Some (R_Gen h n (generation s))"]) auto
next
  note D = filter_invD [OF inv]
  case (hit r h n g w)
  note nm = D(1,2) [OF hit(2), simplified]
  have "w = is_blocked (run (lists s) (chk h n))" if q: "quiet s" and g: "g = generation s"
  proof -
    have e: "verdicts s h = Some (g, name_key n, w)"
      using hit(3) by (auto simp: lookup_verdict_def split: option.splits if_splits)
    obtain m where "m \<in> names" "name_key n = name_key m" "w = is_blocked (run (lists s) (chk h m))"
      using D(5) [OF q e] g by (auto simp: entry_exact_def)
    then show ?thesis using inj nm(2) by (metis inj_onD)
  qed
  then show ?thesis using nm hit(1)
    by (intro filter_inv_reader [OF inv, where r = r and ao = "Some (R_Answer h n g w)"]) auto
next
  note D = filter_invD [OF inv]
  case (miss r h n g)
  then show ?thesis using D(1,2) [OF miss(2)]
    by (intro filter_inv_reader [OF inv, where r = r and ao = "Some (R_Run h n g (chk h n))"]) auto
next
  note D = filter_invD [OF inv]
  case (load r h n g c c')
  then show ?thesis using D(1,2) [OF load(2)] D(4) [OF _ load(2)] run_next_load [OF load(3)]
    by (intro filter_inv_reader [OF inv, where r = r and ao = "Some (R_Run h n g c')"]) auto
next
  note D = filter_invD [OF inv]
  case (full r h n g v)
  then show ?thesis using D(1,2) [OF full(2)] D(4) [OF _ full(2)]
    by (intro filter_inv_reader [OF inv, where r = r and ao = "Some (R_Insert h n g (is_blocked v))"]) auto
next
  note D = filter_invD [OF inv]
  case (room r h n g v)
  then show ?thesis using D(1,2) [OF room(2)] D(4) [OF _ room(2)]
    by (intro filter_inv_reader [OF inv, where r = r and ao = "Some (R_Insert h n g (is_blocked v))"]) auto
next
  note D = filter_invD [OF inv]
  case (insert r h n g w)
  note nm = D(1,2) [OF insert(2), simplified]
  have x: "g = generation s \<longrightarrow> w = is_blocked (run (lists s) (chk h n))" if "quiet s"
    using D(4) [OF that insert(2)] by simp
  show ?thesis
    by (rule filter_inv_reader [OF inv, where r = r and ao = "Some (R_Answer h n g w)"])
       (use nm x in \<open>auto simp: insert(1) entry_exact_def split: if_splits\<close>)
next
  case (answer r h n g w)
  then show ?thesis by (intro filter_inv_reader [OF inv, where r = r and ao = None]) auto
qed

inductive filter_reaches ::
  "(rstr \<Rightarrow> u64) \<Rightarrow> rstr set \<Rightarrow> (file_hash \<Rightarrow> rstr \<Rightarrow> filter_result reading) \<Rightarrow> filter_lists \<Rightarrow>
     filter_state \<Rightarrow> bool"
  for name_key names chk L where
  start: "filter_reaches name_key names chk L (filter_new L)"
| step: "filter_reaches name_key names chk L s \<Longrightarrow> filter_step name_key names chk s s' \<Longrightarrow>
     filter_reaches name_key names chk L s'"

lemma filter_reaches_inv:
  assumes "inj_on name_key names" "filter_reaches name_key names chk L s"
  shows "filter_inv name_key names chk s"
  using assms(2) by induction (auto simp: filter_inv_new intro: filter_inv_step [OF assms(1)])

text \<open>C4: the verdict cache never serves a stale answer. Searches and source requests run the
  check load by load and share the cache while lists are replaced in between, in any
  interleaving; whenever no replacement is between storing its list and moving the
  generation, every answer given under the current generation, from the cache or
  computed, is what the check says of that file and name on the current lists.\<close>

theorem cached_verdicts_are_current:
  assumes "inj_on name_key names"
    and "filter_reaches name_key names (\<lambda>h n. check_inner u scan h n True) L0 s" "quiet s"
    and "readers s r = Some (R_Answer h n (generation s) w)"
  shows "w = withheld u scan (lists s) h n"
  using filter_invD(4) [OF filter_reaches_inv [OF assms(1,2)] assms(3,4)]
  by (simp add: withheld_def check_file_def)

definition no_terms :: term_list where
  "no_terms = \<lparr>tl_terms = [], tl_ac = None, tl_by_pattern = [], tl_always = []\<rparr>"

definition no_l2 :: layer2_terms where
  "no_l2 = \<lparr>sex_substring = [], sex_prefix = [], sex_bounded = [], exceptions = [], term_exceptions = [],
     minor_cjk = [], minor_latin = [], minor_ru = [], sex_ru = [], age_guard = [],
     unpaired_age_max = 12, age_guard_window = 24\<rparr>"

definition no_lists :: filter_lists where
  "no_lists = \<lparr>hash_blocklist = {}, extra_terms = no_terms, jargon_terms = no_terms, l2_terms = no_l2,
     hash_filter_set = {}, hash_whitelist = {}\<rparr>"

text \<open>The hypotheses hold after a hash is added to the ban list and a reader, in the new
  generation, asks for it.\<close>

theorem cached_verdicts_are_current_witness:
  "withheld ascii_tables (\<lambda>_ _ _. None) (no_lists\<lparr>hash_blocklist := {[1]}\<rparr>) [1] (lit ''a'')"
proof -
  define chk where "chk h n = check_inner ascii_tables (\<lambda>_ _ _. None) h n True" for h n
  define L where "L = no_lists\<lparr>hash_blocklist := {[1]}\<rparr>"
  define n where "n = lit ''a''"
  let ?stp = "filter_step (\<lambda>_. 0) {n} chk"
  let ?R = "filter_reaches (\<lambda>_. 0) {n} chk no_lists"
  have go: "?R t'" if "?R t" "?stp t u'" "u' = t'" for t u' t' using filter_reaches.step [OF that(1,2)] that(3) by simp
  obtain c where c1: "next_load L (chk [1] n) = Some c"
    and c2: "next_load L c = Some (Done (F_Block L3HashBlock (lit ''hash'')))"
    by (simp add: L_def chk_def check_inner_def no_lists_def Let_def)
  define s where "s v k r = \<lparr>lists = L, generation = 1, verdicts = v, verdict_count = k,
     publishers = Map.empty, readers = r\<rparr>"
    for v :: "file_hash \<rightharpoonup> nat \<times> u64 \<times> bool" and k and r :: "nat \<rightharpoonup> reader_at"
  note S = s_def filter_new_def lookup_verdict_def VERDICT_CACHE_MAX_def
  have "?R (filter_new no_lists)" by (rule filter_reaches.start)
  from go [OF this filter_step.store [of _ 0 _ _ _ "New_Set SBlock {[1]}"]]
  have "?R (filter_new no_lists\<lparr>lists := L, publishers := [0 \<mapsto> P_Stored]\<rparr>)" by (simp add: filter_new_def L_def)
  from go [OF this filter_step.bump [of _ 0]]
  have "?R (filter_new no_lists\<lparr>lists := L, generation := 1, publishers := [0 \<mapsto> P_Bumped]\<rparr>)" by (simp add: filter_new_def)
  from go [OF this filter_step.clear [of _ 0]] have "?R (s Map.empty 0 Map.empty)" by (simp add: S)
  from go [OF this filter_step.read_gen [of _ 0 n _ _ _ "[1]"]] have "?R (s Map.empty 0 [0 \<mapsto> R_Gen [1] n 1])" by (simp add: S)
  from go [OF this filter_step.miss [of _ 0 "[1]" n 1]] have "?R (s Map.empty 0 [0 \<mapsto> R_Run [1] n 1 (chk [1] n)])" by (simp add: S)
  from go [OF this filter_step.load [of _ 0 "[1]" n 1 _ c]] have "?R (s Map.empty 0 [0 \<mapsto> R_Run [1] n 1 c])" by (simp add: S c1)
  from go [OF this filter_step.load [of _ 0 "[1]" n 1 c]]
  have "?R (s Map.empty 0 [0 \<mapsto> R_Run [1] n 1 (Done (F_Block L3HashBlock (lit ''hash'')))])" by (simp add: S c2)
  from go [OF this filter_step.room [of _ 0 "[1]" n 1]] have "?R (s Map.empty 0 [0 \<mapsto> R_Insert [1] n 1 True])" by (simp add: S)
  from go [OF this filter_step.insert [of _ 0 "[1]" n 1 True]]
  have r: "?R (s [[1] \<mapsto> (1, 0, True)] 1 [0 \<mapsto> R_Answer [1] n 1 True])" by (simp add: S)
  have "inj_on (\<lambda>_. 0 :: u64) {n}" by simp
  from cached_verdicts_are_current [OF this r [unfolded chk_def [abs_def]], of 0 "[1]" n True]
  show ?thesis by (simp add: s_def quiet_def L_def n_def)
qed

section \<open>Recovering mangled names\<close>

text \<open>The damage: a name's UTF-8 bytes read as Latin-1.\<close>

definition mangle :: "rstr \<Rightarrow> rstr" where
  "mangle s = map unat (utf8 s)"

lemma length_utf8_char_wide: "128 \<le> c \<Longrightarrow> 1 < length (utf8_char c)"
  by (auto simp: utf8_char_def)

lemma mangle_longer: "\<not> is_ascii s \<Longrightarrow> length s < length (mangle s)"
proof (induction s)
  case (Cons c s)
  show ?case
  proof (cases "c < 128")
    case True
    then show ?thesis using Cons by (simp add: mangle_def)
  next
    case False
    then show ?thesis using length_utf8_char_wide [of c] str_len_ge_length [of s]
      by (simp add: mangle_def str_len_def)
  qed
qed simp

lemma utf8_char_high_bytes: "128 \<le> c \<Longrightarrow> c < 0x110000 \<Longrightarrow> \<exists>b\<in>set (utf8_char c). 128 \<le> unat b"
proof -
  assume "128 \<le> c" "c < 0x110000"
  let ?b = "of_nat (0x80 + c mod 64) :: u8"
  have "c mod 64 < 64" by simp
  then have "unat ?b = 0x80 + c mod 64" by (intro unat_u8) simp
  moreover have "?b \<in> set (utf8_char c)" using \<open>128 \<le> c\<close> by (simp add: utf8_char_def)
  ultimately show ?thesis by (intro bexI [of _ ?b]) simp_all
qed

lemma one_round_mangle:
  assumes v: "valid_str s" and na: "\<not> is_ascii s"
  shows "one_round (mangle s) = Some s" "valid_str (mangle s)" "\<not> is_ascii (mangle s)"
proof -
  have small: "list_all (\<lambda>c. c < 256) (mangle s)"
  proof -
    have "unat b < 256" for b :: u8 using unsigned_less [of b] by simp
    then show ?thesis by (auto simp: mangle_def list_all_iff)
  qed
  have bytes: "map of_nat (mangle s) = utf8 s" by (simp add: mangle_def comp_def)
  obtain c where c: "c \<in> set s" "128 \<le> c" using na by (auto simp: is_ascii_def list_all_iff not_less)
  then have "c < 0x110000" using v by (auto simp: valid_str_def list_all_iff scalar_def)
  then obtain b where "b \<in> set (utf8_char c)" "128 \<le> unat b" using utf8_char_high_bytes c(2) by blast
  then have high: "list_ex (\<lambda>c. 128 \<le> c) (mangle s)"
    using c(1) by (auto simp: mangle_def utf8_def list_ex_iff)
  then show "\<not> is_ascii (mangle s)" by (auto simp: is_ascii_def list_all_iff list_ex_iff not_less)
  show "valid_str (mangle s)" using small by (auto simp: valid_str_def list_all_iff scalar_def)
  have "from_utf8 (utf8 s) = Some s" using v by (simp add: from_utf8_def from_utf8_lossy_utf8)
  moreover have "s \<noteq> mangle s" using mangle_longer [OF na] by auto
  ultimately show "one_round (mangle s) = Some s"
    using small high by (simp add: one_round_def bytes)
qed

text \<open>a name that was mangled once or twice is recovered exactly, if it is not itself
  readable as a mangled name.\<close>

theorem mojibake_is_undone:
  assumes "valid_str s" "\<not> is_ascii s" "one_round s = None"
  shows "undo_mojibake (mangle s) = Some s \<and> undo_mojibake (mangle (mangle s)) = Some s"
  using one_round_mangle [OF assms(1,2)] one_round_mangle(1) [of "mangle s"] assms(3)
  by (simp add: undo_mojibake_def)

text \<open>An e with an acute accent: one damaged byte pair, or two rounds of it.\<close>

theorem mojibake_is_undone_witness:
  "undo_mojibake (mangle [0xE9]) = Some [0xE9] \<and> undo_mojibake (mangle (mangle [0xE9])) = Some [0xE9]"
proof (rule mojibake_is_undone)
  show "valid_str [0xE9]" by (simp add: valid_str_def scalar_def)
  show "\<not> is_ascii [0xE9]" by simp
  show "one_round [0xE9] = None"
    by (simp add: one_round_def from_utf8_def from_utf8_lossy_def utf8_next_def want_def utf8_char_def)
qed

section \<open>The hash layers\<close>

lemma check_whitelisted: "h \<in> hash_whitelist L \<Longrightarrow> check_file u scan L h n = F_Allow"
  by (simp add: check_file_def check_inner_def Let_def)

lemma check_banned:
  "h \<notin> hash_whitelist L \<Longrightarrow> h \<in> hash_blocklist L \<Longrightarrow> check_file u scan L h n = F_Block L3HashBlock (lit ''hash'')"
  by (simp add: check_file_def check_inner_def Let_def)

text \<open>A poisoned hash is never counted against its publisher, whatever terms its name carries.\<close>

lemma check_poisoned:
  "h \<notin> hash_whitelist L \<Longrightarrow> h \<notin> hash_blocklist L \<Longrightarrow> h \<in> hash_filter_set L \<Longrightarrow>
     check_file u scan L h n = F_Block L5Poison (lit ''poison'')"
  by (simp add: check_file_def check_inner_def Let_def)

definition is_withheld_opt :: "unicode \<Rightarrow> scanner \<Rightarrow> filter_lists \<Rightarrow> file_hash \<Rightarrow> rstr option \<Rightarrow> bool" where
  "is_withheld_opt u scan L h filename =
     (case filename of Some n \<Rightarrow> withheld u scan L h n | None \<Rightarrow> hash_is_listed L h)"

lemma listed_is_withheld: "hash_is_listed L h \<Longrightarrow> withheld u scan L h n"
  by (cases "h \<in> hash_blocklist L")
     (auto simp: hash_is_listed_def withheld_def check_banned check_poisoned split: if_splits)

section \<open>The list files\<close>

text \<open>\<open>str::lines\<close>: a carriage return before the line feed goes with it.\<close>

definition strip_cr :: "rstr \<Rightarrow> rstr" where
  "strip_cr l = (if l \<noteq> [] \<and> last l = 13 then butlast l else l)"

definition str_lines :: "rstr \<Rightarrow> rstr list" where
  "str_lines s =
     (let ls = split_by (\<lambda>c. c = 10) s in
      map strip_cr (butlast ls) @ (if last ls = [] then [] else [last ls]))"

definition hash_line :: "(rstr \<Rightarrow> bytes option) \<Rightarrow> rstr \<Rightarrow> file_hash list" where
  "hash_line hex_decode line =
     (let trimmed = trim line in
      if trimmed = [] \<or> hd trimmed = 35 then []
      else case hex_decode (trim (hd (split_by (\<lambda>c. c = 59) trimmed))) of
        Some b \<Rightarrow> if length b = 16 then [b] else []
      | None \<Rightarrow> [])"

definition load_hash_file :: "(rstr \<Rightarrow> bytes option) \<Rightarrow> bytes \<Rightarrow> file_hash list" where
  "load_hash_file hex_decode content =
     concat (map (hash_line hex_decode) (str_lines (from_utf8_lossy content)))"

definition load_terms_file :: "bytes \<Rightarrow> rstr list" where
  "load_terms_file content =
     filter (\<lambda>s. s \<noteq> [] \<and> hd s \<noteq> 35) (map trim (str_lines (from_utf8_lossy content)))"

lemma split_by_lines: "\<forall>l\<in>set ls. 10 \<notin> set l \<Longrightarrow>
  split_by (\<lambda>c. c = 10) (concat (map (\<lambda>l. l @ [10]) ls)) = ls @ [[]]"
proof (induction ls)
  case (Cons l ls)
  then have "split_by (\<lambda>c. c = 10) l = [l]" by (intro split_by_none) auto
  then show ?case using Cons split_by_append_sep [of "\<lambda>c. c = 10" 10 l] by simp
qed simp

lemma str_lines_concat: "\<forall>l\<in>set ls. 10 \<notin> set l \<Longrightarrow> str_lines (concat (map (\<lambda>l. l @ [10]) ls)) = map strip_cr ls"
  by (simp add: str_lines_def split_by_lines Let_def)

lemma trim_strip_cr: "trim (strip_cr l) = trim l"
proof (cases "l \<noteq> [] \<and> last l = 13")
  case True
  then obtain l' where l: "l = l' @ [13]" by (cases l rule: rev_cases) auto
  have w: "is_whitespace 13" by (simp add: is_whitespace_def)
  show ?thesis
  proof (cases "\<forall>c\<in>set l'. is_whitespace c")
    case True
    then have "dropWhile is_whitespace (l' @ [13]) = []" "dropWhile is_whitespace l' = []"
      using w by (simp_all add: dropWhile_eq_Nil_conv)
    then have "trim (l' @ [13]) = []" "trim l' = []" unfolding trim_def by (simp_all only: rev.simps dropWhile.simps)
    then show ?thesis by (simp add: l strip_cr_def)
  next
    case False
    then obtain z where "dropWhile is_whitespace (l' @ [13]) = dropWhile is_whitespace l' @ [13]"
      using dropWhile_append [of is_whitespace l' "[13]"] by (auto simp: dropWhile_eq_Nil_conv)
    then show ?thesis by (simp add: l strip_cr_def trim_def w)
  qed
qed (auto simp: strip_cr_def)

text \<open>Writing a list, one hash and its comment on a line, and loading it gives the hashes back,
  whatever valid text the comments hold. \<open>hex\<close> is any spelling the decoder accepts.\<close>

definition hash_lines :: "(file_hash \<Rightarrow> rstr) \<Rightarrow> (file_hash \<times> rstr) list \<Rightarrow> rstr" where
  "hash_lines hex es = concat (map (\<lambda>l. l @ [10]) (map (\<lambda>(h, c). hex h @ [59] @ c) es))"

definition entry_text_ok :: "(rstr \<Rightarrow> bytes option) \<Rightarrow> (file_hash \<Rightarrow> rstr) \<Rightarrow> file_hash \<times> rstr \<Rightarrow> bool" where
  "entry_text_ok hex_decode hex e \<longleftrightarrow>
     (case e of (h, c) \<Rightarrow> length h = 16 \<and> hex_decode (hex h) = Some h \<and> hex h \<noteq> [] \<and>
        list_all is_ascii_alnum (hex h) \<and> valid_str c \<and> 10 \<notin> set c)"

lemma alnum_plain: "is_ascii_alnum c \<Longrightarrow> \<not> is_whitespace c \<and> c \<noteq> 59 \<and> c \<noteq> 35 \<and> c \<noteq> 10 \<and> scalar c"
  by (auto simp: is_ascii_alnum_def is_ascii_letter_def is_ascii_digit_def is_whitespace_def scalar_def)

lemma trim_prefix:
  assumes "p \<noteq> []" "\<not> is_whitespace (hd p)" "\<not> is_whitespace (last p)"
  shows "\<exists>c'. trim (p @ c) = p @ c'"
proof -
  have "dropWhile is_whitespace (p @ c) = p @ c" using assms(1,2) by (cases p) auto
  moreover have "\<exists>c'. rev (dropWhile is_whitespace (rev (p @ c))) = p @ c'"
  proof (cases "\<forall>x\<in>set c. is_whitespace x")
    case True
    have "dropWhile is_whitespace (rev p) = rev p" using assms(1,3) by (cases p rule: rev_cases) auto
    moreover have "dropWhile is_whitespace (rev c @ rev p) = dropWhile is_whitespace (rev p)"
      using True by (intro dropWhile_append2) simp
    ultimately show ?thesis by simp
  next
    case False
    then obtain x where "x \<in> set (rev c)" "\<not> is_whitespace x" by auto
    then show ?thesis by (simp add: dropWhile_append1)
  qed
  ultimately show ?thesis by (simp add: trim_def)
qed

lemma hash_line_entry:
  assumes "entry_text_ok hex_decode hex (h, c)"
  shows "hash_line hex_decode (strip_cr (hex h @ [59] @ c)) = [h]"
proof -
  let ?p = "hex h @ [59]"
  have a: "\<forall>x\<in>set (hex h). \<not> is_whitespace x \<and> x \<noteq> 59 \<and> x \<noteq> 35" "hex h \<noteq> []"
    using assms alnum_plain by (auto simp: entry_text_ok_def list_all_iff)
  have "\<exists>c'. trim (?p @ c) = ?p @ c'"
    using a by (intro trim_prefix) (auto simp: is_whitespace_def)
  then obtain c' where c': "trim (strip_cr (hex h @ 59 # c)) = hex h @ 59 # c'"
    by (auto simp: trim_strip_cr)
  have "split_by (\<lambda>c. c = 59) (hex h @ 59 # c') = hex h # split_by (\<lambda>c. c = 59) c'"
    using a by (simp add: split_by_append_sep split_by_none)
  moreover have "hd (hex h @ 59 # c') \<noteq> 35" using a by (cases "hex h") auto
  moreover have "trim (hex h) = hex h" using a by (intro trim_id) auto
  ultimately show ?thesis using assms
    by (simp add: hash_line_def c' Let_def entry_text_ok_def)
qed

text \<open>a hash list written with one hash and its comment on a line loads as exactly its
  hashes, in order, whatever valid text the comments hold (file names, a carriage return at
  the end, more semicolons).\<close>

theorem hash_file_roundtrip:
  assumes "list_all (entry_text_ok hex_decode hex) es"
  shows "load_hash_file hex_decode (utf8 (hash_lines hex es)) = map fst es"
proof -
  let ?ls = "map (\<lambda>(h, c). hex h @ [59] @ c) es"
  have nl: "\<forall>l\<in>set ?ls. 10 \<notin> set l" and v: "valid_str (hash_lines hex es)"
    using assms
    by (auto simp: list_all_iff entry_text_ok_def valid_str_def hash_lines_def scalar_def [of 10] scalar_def [of 59]
        dest!: bspec dest: alnum_plain)
  have "concat (map (hash_line hex_decode) (map strip_cr ?ls)) = map fst es"
    using assms by (induction es) (auto simp: hash_line_entry [simplified])
  moreover have "str_lines (hash_lines hex es) = map strip_cr ?ls"
    unfolding hash_lines_def by (rule str_lines_concat [OF nl])
  ultimately show ?thesis using v by (simp only: load_hash_file_def from_utf8_lossy_utf8)
qed

theorem hash_file_roundtrip_witness:
  "load_hash_file (\<lambda>s. if s = lit ''00ff'' then Some (replicate 16 7) else None)
     (utf8 (hash_lines (\<lambda>_. lit ''00ff'') [(replicate 16 7, lit '' a; b.avi'')])) = [replicate 16 7]"
  using hash_file_roundtrip [of "\<lambda>s. if s = lit ''00ff'' then Some (replicate 16 7) else None"
      "\<lambda>_. lit ''00ff''" "[(replicate 16 7, lit '' a; b.avi'')]"]
  by (simp add: entry_text_ok_def lit_def is_ascii_alnum_def is_ascii_letter_def is_ascii_digit_def
      valid_str_def scalar_def)

end
