(* ===== verification/Publishing.thy ===== *)
theory Publishing
  imports Server_Files Content_Filter Tags
begin

text \<open>
  Publishing files (\<open>src/server/offerfiles.rs\<close>, and of \<open>src/state/mod.rs\<close> the tables it fills):
  the records of an OFFERFILES packet, and the handler that takes a batch through the content
  filter, the accounting of blocked publishers, the soft limit and the file tables.

  The record of a packet is read as the code reads it, tag by tag; every error of the parser
  is a constructor of \<open>offer_error\<close>. The handler works record by record on the tables it
  shares; \<open>now i\<close> is the clock at record \<open>i\<close> and \<open>lists i\<close> the filter lists in force then, which
  a reload may replace between two records. \<open>None\<close> is a panic of a chain walk in the slab.
\<close>

section \<open>The records of a packet\<close>

definition FT_FILENAME :: u8 where "FT_FILENAME = 0x01"
definition FT_FILESIZE :: u8 where "FT_FILESIZE = 0x02"
definition FT_FILESIZE_HI :: u8 where "FT_FILESIZE_HI = 0x3A"
definition SELF_INCOMPLETE_ID :: u32 where "SELF_INCOMPLETE_ID = 0xFCFCFCFC"
definition SELF_INCOMPLETE_PORT :: u16 where "SELF_INCOMPLETE_PORT = 0xFCFC"

record media_tags =
  mt_length :: "u32 option"
  mt_bitrate :: "u32 option"
  mt_codec :: "rstr option"
  mt_artist_album_title :: bool

definition media_none :: media_tags where
  "media_none = \<lparr>mt_length = None, mt_bitrate = None, mt_codec = None, mt_artist_album_title = False\<rparr>"

definition media_any :: "media_tags \<Rightarrow> bool" where
  "media_any m \<longleftrightarrow> mt_length m \<noteq> None \<or> mt_bitrate m \<noteq> None \<or> mt_codec m \<noteq> None"

definition to_media :: "media_tags \<Rightarrow> codec_table \<Rightarrow> media \<times> codec_table" where
  "to_media m codecs =
     (let (codec, codecs') = (case mt_codec m of None \<Rightarrow> (0, codecs) | Some c \<Rightarrow> codec_intern c codecs)
      in (media_new (case mt_length m of Some l \<Rightarrow> l | None \<Rightarrow> 0)
                    (case mt_bitrate m of Some b \<Rightarrow> b | None \<Rightarrow> 0) codec, codecs'))"

record offered_file =
  of_hash :: file_hash
  of_client_id :: u32
  of_port :: u16
  of_filename :: rstr
  of_size :: u64
  of_media :: media_tags

datatype offer_error =
    Offer_Too_Short | Count_Unreasonable u32 | Header_Truncated | Tag_Count_Unreasonable u32

definition media_id :: "tag_name \<Rightarrow> u8 option" where
  "media_id n =
     (case n of
        Byte b \<Rightarrow> Some b
      | Str s \<Rightarrow>
          if eq_ignore_ascii_case s (lit ''length'') then Some 0xD3
          else if eq_ignore_ascii_case s (lit ''bitrate'') then Some 0xD4
          else if eq_ignore_ascii_case s (lit ''codec'') then Some 0xD5
          else None)"

definition nonzero :: "u32 option \<Rightarrow> u32 option" where
  "nonzero v = (case v of Some n \<Rightarrow> if n \<noteq> 0 then Some n else None | None \<Rightarrow> None)"

definition media_tag :: "tag \<Rightarrow> media_tags \<Rightarrow> media_tags" where
  "media_tag t m =
     (case media_id (tg_name t) of
        None \<Rightarrow> m
      | Some b \<Rightarrow>
          if 0xD0 \<le> b \<and> b \<le> 0xD2 then m\<lparr>mt_artist_album_title := True\<rparr>
          else if b = 0xD3 then
            m\<lparr>mt_length := nonzero (case tag_as_u32 t of Some v \<Rightarrow> Some v
                                   | None \<Rightarrow> map_option parse_length_text (tag_str_value t))\<rparr>
          else if b = 0xD4 then m\<lparr>mt_bitrate := nonzero (tag_as_u32 t)\<rparr>
          else if b = 0xD5 then m\<lparr>mt_codec := Option.bind (tag_str_value t) codec_normalise\<rparr>
          else m)"

text \<open>The name and the two halves of the size.\<close>

definition field_tag :: "tag \<Rightarrow> rstr \<times> u32 \<times> u32 \<Rightarrow> rstr \<times> u32 \<times> u32" where
  "field_tag t st =
     (case st of (filename, size_lo, size_hi) \<Rightarrow>
        case tg_name t of
          Str _ \<Rightarrow> (filename, size_lo, size_hi)
        | Byte b \<Rightarrow>
            if b = FT_FILENAME then
              (case tag_str_value t of Some s \<Rightarrow> s | None \<Rightarrow> filename, size_lo, size_hi)
            else if b = FT_FILESIZE then
              (case tag_as_u32 t of
                 Some v \<Rightarrow> (filename, v, size_hi)
               | None \<Rightarrow> (case tag_as_u64 t of
                   Some v \<Rightarrow> (filename, ucast v, ucast (drop_bit 32 v))
                 | None \<Rightarrow> (filename, size_lo, size_hi)))
            else if b = FT_FILESIZE_HI then
              (filename, size_lo, case tag_as_u32 t of Some v \<Rightarrow> v | None \<Rightarrow> size_hi)
            else (filename, size_lo, size_hi))"

definition record_of_tags :: "file_hash \<Rightarrow> u32 \<Rightarrow> u16 \<Rightarrow> tag list \<Rightarrow> offered_file" where
  "record_of_tags h client_id port tags =
     (let (filename, lo, hi) = fold field_tag tags ([], 0, 0)
      in \<lparr>of_hash = h, of_client_id = client_id, of_port = port, of_filename = filename,
          of_size = or (push_bit 32 (ucast hi)) (ucast lo), of_media = fold media_tag tags media_none\<rparr>)"

fun parse_records :: "nat \<Rightarrow> bytes \<Rightarrow> offer_error + offered_file list" where
  "parse_records 0 rest = Inr []"
| "parse_records (Suc n) rest =
     (if length rest < 26 then Inl Header_Truncated
      else let h = take 16 rest;
               client_id = of_nat (from_le (take 4 (drop 16 rest)));
               port = of_nat (from_le (take 2 (drop 20 rest)));
               tag_count = of_nat (from_le (take 4 (drop 22 rest))) :: u32
           in if tag_count > 50 then Inl (Tag_Count_Unreasonable tag_count)
              else let (tags, after) = read_tag_list (unat tag_count) (drop 26 rest)
                   in case parse_records n after of
                        Inl e \<Rightarrow> Inl e
                      | Inr fs \<Rightarrow> Inr (record_of_tags h client_id port tags # fs))"

definition parse_offerfiles :: "bytes \<Rightarrow> offer_error + offered_file list" where
  "parse_offerfiles payload =
     (if length payload < 4 then Inl Offer_Too_Short
      else let count = of_nat (from_le (take 4 payload)) :: u32
           in if count > 100000 then Inl (Count_Unreasonable count)
              else parse_records (unat count) (drop 4 payload))"

definition declared_count :: "bytes \<Rightarrow> u32 option" where
  "declared_count payload = (if length payload < 4 then None else Some (of_nat (from_le (take 4 payload))))"

definition over_hard_limit :: "u32 \<Rightarrow> u32 \<Rightarrow> bool" where
  "over_hard_limit declared hard \<longleftrightarrow> hard > 0 \<and> declared \<ge> hard"

section \<open>The tables of blocked publishers\<close>

record csam_catch =
  cc_name :: rstr
  cc_layer :: layer
  cc_reason :: rstr
  cc_size :: u64
  cc_at :: nat

type_synonym csam_user = "(file_hash \<times> csam_catch) list \<times> nat"

text \<open>\<open>now\<close>, the two windows and the stamps are in the same unit.\<close>

definition record_csam_file_for_user ::
  "bytes \<Rightarrow> file_hash \<Rightarrow> csam_catch \<Rightarrow> u32 \<Rightarrow> nat \<Rightarrow> nat \<Rightarrow> nat \<Rightarrow> (bytes \<rightharpoonup> csam_user) \<Rightarrow>
     bool \<times> (bytes \<rightharpoonup> csam_user)" where
  "record_csam_file_for_user user h catch threshold count_window retention now tbl =
     (let (files, stamp) = (case tbl user of Some e \<Rightarrow> e | None \<Rightarrow> ([], now));
          files = (if now - stamp > retention then [] else files);
          files = (case map_of files h of None \<Rightarrow> (h, catch\<lparr>cc_at := now\<rparr>) # files | Some _ \<Rightarrow> files);
          counted = of_nat (length (filter (\<lambda>(_, c). now - cc_at c \<le> count_window) files)) :: u32
      in (counted > threshold, tbl(user \<mapsto> (files, now))))"

record name_event =
  ne_hash :: file_hash
  ne_size :: u64
  ne_name :: rstr
  ne_layer :: u8
  ne_rule :: "rstr option"
  ne_whitelisted :: bool
  ne_user :: bytes
  ne_net :: u64

fun layer_code :: "layer option \<Rightarrow> u8" where
  "layer_code None = 0"
| "layer_code (Some L1Jargon) = 1"
| "layer_code (Some L2AgePattern) = 2"
| "layer_code (Some L3HashBlock) = 3"
| "layer_code (Some L4Extra) = 4"
| "layer_code (Some L5Poison) = 5"

text \<open>The two arguments of the filter: what the check says, and what it says without the whitelist.\<close>

definition name_verdict :: "bool \<Rightarrow> filter_result \<Rightarrow> filter_result \<Rightarrow> u8 \<times> rstr option \<times> bool" where
  "name_verdict is_whitelisted without_whitelist result =
     (case result of
        F_Block l r \<Rightarrow> (layer_code (Some l), Some r, False)
      | F_Allow \<Rightarrow>
          if is_whitelisted then
            (case without_whitelist of
               F_Block l r \<Rightarrow> (layer_code (Some l), Some r, True)
             | F_Allow \<Rightarrow> (0, None, True))
          else (0, None, False))"

definition net_of :: "ip_addr \<Rightarrow> u64" where
  "net_of ip = (case ip of
       V4 a \<Rightarrow> ucast (drop_bit 8 a)
     | V6 a \<Rightarrow> or (push_bit 63 1) (ucast (drop_bit 80 a)))"

section \<open>The handler\<close>

record media_stats =
  ms_files :: u64
  ms_with_any :: u64
  ms_length :: u64
  ms_bitrate :: u64
  ms_codec :: u64
  ms_artist_album_title :: u64
  ms_codec_bytes :: u64
  ms_codecs :: "rstr \<rightharpoonup> u64"
  ms_codecs_overflow :: u64

definition MAX_CODECS :: nat where "MAX_CODECS = 1024"

definition note_codec :: "rstr \<Rightarrow> media_stats \<Rightarrow> media_stats" where
  "note_codec c s =
     (let s = s\<lparr>ms_codec := ms_codec s + 1, ms_codec_bytes := ms_codec_bytes s + of_nat (str_len c)\<rparr>
      in case ms_codecs s c of
           Some n \<Rightarrow> s\<lparr>ms_codecs := (ms_codecs s)(c \<mapsto> n + 1)\<rparr>
         | None \<Rightarrow>
             if card (dom (ms_codecs s)) < MAX_CODECS then s\<lparr>ms_codecs := (ms_codecs s)(c \<mapsto> 1)\<rparr>
             else s\<lparr>ms_codecs_overflow := ms_codecs_overflow s + 1\<rparr>)"

definition note_media :: "media_tags \<Rightarrow> media_stats \<Rightarrow> media_stats" where
  "note_media m s =
     (let one = \<lambda>b. if b then 1 else 0;
          s = s\<lparr>ms_files := ms_files s + 1, ms_with_any := ms_with_any s + one (media_any m),
                ms_length := ms_length s + one (mt_length m \<noteq> None),
                ms_bitrate := ms_bitrate s + one (mt_bitrate m \<noteq> None),
                ms_artist_album_title := ms_artist_album_title s + one (mt_artist_album_title m)\<rparr>
      in case mt_codec m of None \<Rightarrow> s | Some c \<Rightarrow> note_codec c s)"

record publish_state =
  ps_files :: server_files
  ps_blocked :: "file_hash \<rightharpoonup> nat"
  ps_unique_ips :: "ip_addr \<rightharpoonup> u64"
  ps_csam :: "bytes \<rightharpoonup> csam_user"
  ps_banned :: "bytes \<rightharpoonup> nat"
  ps_clients :: "bytes \<rightharpoonup> u32"
  ps_over_soft :: "u64 \<times> u64"
  ps_media :: media_stats
  ps_names :: "name_event list option"

text \<open>What the handler reads and writes of the session: \<open>oc_policy_soft\<close> is the soft limit of a v1
  session's policy.\<close>

record offer_client =
  oc_user :: bytes
  oc_ip :: ip_addr
  oc_port :: u16
  oc_policy_soft :: "u32 option"
  oc_attempts :: u32
  oc_warned :: bool

record offer_env =
  oe_now :: nat
  oe_lists :: filter_lists
  oe_soft_limit_files :: u32
  oe_max_string_size :: u32
  oe_threshold :: u32
  oe_count_window :: nat
  oe_retention :: nat
  oe_v6_bits :: u8

record offer_run =
  or_state :: publish_state
  or_client :: offer_client
  or_sourced :: nat
  or_accepted :: u32
  or_blocked :: u32
  or_over :: u32

definition put_attempts :: "offer_client \<Rightarrow> publish_state \<Rightarrow> publish_state" where
  "put_attempts c s =
     (case ps_clients s (oc_user c) of
        None \<Rightarrow> s
      | Some _ \<Rightarrow> s\<lparr>ps_clients := (ps_clients s)(oc_user c \<mapsto> oc_attempts c)\<rparr>)"

definition ps_bump :: "string \<Rightarrow> publish_state \<Rightarrow> publish_state" where
  "ps_bump key s = s\<lparr>ps_files := bump key (ps_files s)\<rparr>"

definition ban_publisher_is_new :: "bytes \<Rightarrow> nat \<Rightarrow> publish_state \<Rightarrow> bool \<times> publish_state" where
  "ban_publisher_is_new user now s =
     (let was_new = (ps_banned s user = None); s = s\<lparr>ps_banned := (ps_banned s)(user \<mapsto> now)\<rparr>
      in (was_new, if was_new then ps_bump ''publisher_ban'' s else s))"

definition already_sources :: "server_files \<Rightarrow> bytes \<Rightarrow> file_hash \<Rightarrow> bool option" where
  "already_sources s user h =
     (case id_of h (sv_slab s) of
        None \<Rightarrow> None
      | Some None \<Rightarrow> Some False
      | Some (Some i) \<Rightarrow> Some (i \<in> files_of s user))"

definition layer_count :: "server_files \<Rightarrow> bytes \<Rightarrow> nat" where
  "layer_count s user = card (files_of s user)"

text \<open>A blocked hash is counted once: under its kind, its layer and, when it counts against the
  publisher, the publisher's network.\<close>

definition note_blocked_hash :: "offer_env \<Rightarrow> file_hash \<Rightarrow> layer \<Rightarrow> offer_client \<Rightarrow> publish_state \<Rightarrow> publish_state" where
  "note_blocked_hash e h l c s =
     (let counts = counts_against_publisher l; is_new_hash = (ps_blocked s h = None);
          s = s\<lparr>ps_blocked := (ps_blocked s)(h \<mapsto> oe_now e)\<rparr>;
          key = as_ip (source_key_of (oc_ip c) (oe_v6_bits e))
      in if \<not> is_new_hash then s
         else let s = ps_bump (stat_key l) (ps_bump (if counts then ''csam'' else ''poison'') s)
              in if counts
                 then s\<lparr>ps_unique_ips := (ps_unique_ips s)(key \<mapsto>
                        (case ps_unique_ips s key of None \<Rightarrow> 0 | Some n \<Rightarrow> n) + 1)\<rparr>
                 else s)"

text \<open>A blocked record: the session, the counters, the publisher's record; the flag says that the
  publisher is over the threshold and the rest of the batch is dropped.\<close>

definition block_record ::
  "offer_env \<Rightarrow> offered_file \<Rightarrow> layer \<Rightarrow> rstr \<Rightarrow> offer_run \<Rightarrow> bool \<times> offer_run" where
  "block_record e f l reason r =
     (let counts = counts_against_publisher l; c = or_client r; h = of_hash f;
          c = (if counts then c\<lparr>oc_attempts := sat_add (oc_attempts c) 1\<rparr> else c);
          s = note_blocked_hash e h l c (or_state r);
          r = r\<lparr>or_client := c, or_blocked := or_blocked r + 1\<rparr>
      in if \<not> counts then (False, r\<lparr>or_state := s\<rparr>)
         else let (over, tbl) = record_csam_file_for_user (oc_user c) h
                    \<lparr>cc_name = of_filename f, cc_layer = l, cc_reason = reason, cc_size = of_size f, cc_at = oe_now e\<rparr>
                    (oe_threshold e) (oe_count_window e) (oe_retention e) (oe_now e) (ps_csam s);
                  s = s\<lparr>ps_csam := tbl\<rparr>
              in if over
                 then (True, r\<lparr>or_state := put_attempts c (snd (ban_publisher_is_new (oc_user c) (oe_now e) s))\<rparr>)
                 else (False, r\<lparr>or_state := s\<rparr>))"

definition has_complete :: "offered_file \<Rightarrow> bool" where
  "has_complete f \<longleftrightarrow> \<not> (of_client_id f = SELF_INCOMPLETE_ID \<and> of_port f = SELF_INCOMPLETE_PORT)"

definition add_media :: "offered_file \<Rightarrow> server_files \<Rightarrow> server_files option" where
  "add_media f s =
     (if media_any (of_media f)
      then let (m, codecs) = to_media (of_media f) (sl_codecs (sv_slab s))
           in map_option (\<lambda>sl. s\<lparr>sv_slab := sl\<rparr>) (merge_media (of_hash f) m (sv_slab s\<lparr>sl_codecs := codecs\<rparr>))
      else Some s)"

definition allow_record ::
  "unicode \<Rightarrow> (bytes \<rightharpoonup> rstr) \<Rightarrow> offer_env \<Rightarrow> nat \<Rightarrow> u32 \<Rightarrow> offered_file \<Rightarrow> offer_run \<Rightarrow> offer_run option" where
  "allow_record u software e soft max_string f r =
     (let s = or_state r; c = or_client r
      in case (if soft > 0 \<and> or_sourced r \<ge> soft then map_option (\<lambda>b. \<not> b) (already_sources (ps_files s) (oc_user c) (of_hash f))
               else Some False) of
           None \<Rightarrow> None
         | Some True \<Rightarrow> Some (r\<lparr>or_over := or_over r + 1\<rparr>)
         | Some False \<Rightarrow>
             (case add_file_with_source u software (of_hash f) (of_size f) (cap_string (of_filename f) max_string)
                     (oc_user c, oc_ip c, oc_port c, has_complete f) (oe_now e) (ps_files s) of
                None \<Rightarrow> None
              | Some fs \<Rightarrow>
                  (case add_media f fs of
                     None \<Rightarrow> None
                   | Some fs \<Rightarrow>
                       Some (r\<lparr>or_state := put_attempts c (s\<lparr>ps_files := fs\<rparr>), or_accepted := or_accepted r + 1,
                         or_sourced := (if soft > 0 then layer_count fs (oc_user c) else or_sourced r)\<rparr>))))"

definition note_name :: "unicode \<Rightarrow> scanner \<Rightarrow> offer_env \<Rightarrow> offered_file \<Rightarrow> offer_run \<Rightarrow> offer_run" where
  "note_name u scan e f r =
     (case ps_names (or_state r) of
        None \<Rightarrow> r
      | Some evs \<Rightarrow>
          (let L = oe_lists e; h = of_hash f; n = of_filename f;
               (l, rule, white) = name_verdict (h \<in> hash_whitelist L)
                   (check_ignoring_whitelist u scan L h n) (check_file u scan L h n);
               ev = \<lparr>ne_hash = h, ne_size = of_size f, ne_name = n, ne_layer = l, ne_rule = rule, ne_whitelisted = white,
                     ne_user = oc_user (or_client r), ne_net = net_of (oc_ip (or_client r))\<rparr>
           in r\<lparr>or_state := or_state r\<lparr>ps_names := Some (evs @ [ev])\<rparr>\<rparr>))"

fun offer_loop ::
  "unicode \<Rightarrow> scanner \<Rightarrow> (bytes \<rightharpoonup> rstr) \<Rightarrow> nat \<Rightarrow> u32 \<Rightarrow> (offered_file \<times> offer_env) list \<Rightarrow> offer_run \<Rightarrow> offer_run option" where
  "offer_loop u scan sw soft max_string [] r = Some r"
| "offer_loop u scan sw soft max_string ((f, e) # fs) r =
     (let r = note_name u scan e f r
      in case check_file u scan (oe_lists e) (of_hash f) (of_filename f) of
           F_Block l reason \<Rightarrow>
             (case block_record e f l reason r of
                (True, r) \<Rightarrow> Some r
              | (False, r) \<Rightarrow> offer_loop u scan sw soft max_string fs r)
         | F_Allow \<Rightarrow>
             (case allow_record u sw e soft max_string f r of
                None \<Rightarrow> None
              | Some r \<Rightarrow> offer_loop u scan sw soft max_string fs r))"

text \<open>\<open>e0\<close> is the configuration at the start of the batch; each record comes with the clock, the
  lists and the configuration at its turn.\<close>

definition soft_limit_of :: "offer_env \<Rightarrow> offer_client \<Rightarrow> nat" where
  "soft_limit_of e0 c = unat (case oc_policy_soft c of Some p \<Rightarrow> p | None \<Rightarrow> oe_soft_limit_files e0)"

definition start_batch :: "nat \<Rightarrow> (offered_file \<times> offer_env) list \<Rightarrow> offer_client \<Rightarrow> publish_state \<Rightarrow> offer_run" where
  "start_batch soft files c s =
     \<lparr>or_state = s\<lparr>ps_media := fold (\<lambda>(f, _). note_media (of_media f)) files (ps_media s)\<rparr>, or_client = c,
      or_sourced = (if soft > 0 then layer_count (ps_files s) (oc_user c) else 0),
      or_accepted = 0, or_blocked = 0, or_over = 0\<rparr>"

definition end_batch :: "offer_run \<Rightarrow> (u32 \<times> u32) \<times> offer_client \<times> publish_state" where
  "end_batch r =
     (let s = or_state r; c = or_client r; counts = (or_accepted r, or_blocked r)
      in if or_over r > 0
         then (counts, c\<lparr>oc_warned := True\<rparr>,
               s\<lparr>ps_over_soft := (fst (ps_over_soft s) + 1, snd (ps_over_soft s) + ucast (or_over r))\<rparr>)
         else (counts, c, s))"

definition handle_offerfiles ::
  "unicode \<Rightarrow> scanner \<Rightarrow> (bytes \<rightharpoonup> rstr) \<Rightarrow> offer_env \<Rightarrow> (offered_file \<times> offer_env) list \<Rightarrow> offer_client \<Rightarrow> publish_state \<Rightarrow>
     ((u32 \<times> u32) \<times> offer_client \<times> publish_state) option" where
  "handle_offerfiles u scan sw e0 files c s =
     (let soft = soft_limit_of e0 c
      in map_option end_batch
           (offer_loop u scan sw soft (oe_max_string_size e0) files (start_batch soft files c s)))"

section \<open>Reading back a packet\<close>

text \<open>The client's side: a record is its hash, the two identity fields and its tags.\<close>

type_synonym offer_entry = "file_hash \<times> u32 \<times> u16 \<times> tag list"

definition write_offer :: "offer_entry \<Rightarrow> bytes" where
  "write_offer x =
     (case x of (h, client_id, port, tags) \<Rightarrow>
        h @ to_le 4 (unat client_id) @ to_le 2 (unat port) @ write_tag_list tags)"

definition offer_entry_ok :: "offer_entry \<Rightarrow> bool" where
  "offer_entry_ok x \<longleftrightarrow>
     (case x of (h, _, _, tags) \<Rightarrow> length h = 16 \<and> length tags \<le> 50 \<and> list_all tag_ok tags)"

definition write_offerfiles :: "offer_entry list \<Rightarrow> bytes" where
  "write_offerfiles xs = to_le 4 (length xs) @ concat (map write_offer xs)"

lemma of_nat_le4: "unat (w :: u32) < 256 ^ 4"
  using unsigned_less [of w] by simp

lemma of_nat_le2: "unat (w :: u16) < 256 ^ 2"
  using unsigned_less [of w] by simp

lemma parse_records_write:
  "list_all offer_entry_ok xs \<Longrightarrow>
     parse_records (length xs) (concat (map write_offer xs) @ r) =
       Inr (map (\<lambda>(h, client_id, port, tags). record_of_tags h client_id port (map tag_read tags)) xs)"
proof (induction xs)
  case (Cons x xs)
  obtain h i p ts where x: "x = (h, i, p, ts)" by (cases x) auto
  have ok: "length h = 16" "length ts \<le> 50" "list_all tag_ok ts"
    using Cons.prems by (auto simp: x offer_entry_ok_def)
  let ?rest = "concat (map write_offer xs) @ r"
  let ?tags = "concat (map write_tag ts) @ ?rest"
  let ?b = "h @ to_le 4 (unat i) @ to_le 2 (unat p) @ to_le 4 (length ts) @ ?tags"
  have b: "concat (map write_offer (x # xs)) @ r = ?b"
    by (simp add: x write_offer_def write_tag_list_def)
  have parts: "take 16 ?b = h" "take 4 (drop 16 ?b) = to_le 4 (unat i)" "take 2 (drop 20 ?b) = to_le 2 (unat p)"
    "take 4 (drop 22 ?b) = to_le 4 (length ts)" "drop 26 ?b = ?tags" "\<not> length ?b < 26"
    using ok(1) by simp_all
  have n: "from_le (to_le 4 (length ts)) = length ts"
    using ok(2) by (intro from_le_to_le) simp
  have u: "unat (of_nat (length ts) :: u32) = length ts" using ok(2) by (simp add: unat_of_nat)
  have "\<not> (of_nat (length ts) :: u32) > 50" using ok(2) u by (simp add: word_less_nat_alt)
  then show ?case unfolding b length_Cons parse_records.simps parts Let_def n u
    using Cons tag_list_read [OF ok(3), of ?rest] ok(1)
    by (simp add: from_le_to_le [OF of_nat_le4] from_le_to_le [OF of_nat_le2] x)
qed simp

lemma offers_read:
  assumes "list_all offer_entry_ok xs" "length xs \<le> 100000"
  shows "parse_offerfiles (write_offerfiles xs @ r) =
    Inr (map (\<lambda>(h, client_id, port, tags). record_of_tags h client_id port (map tag_read tags)) xs)"
proof -
  have n: "from_le (to_le 4 (length xs)) = length xs" using assms(2) by (intro from_le_to_le) simp
  have u: "unat (of_nat (length xs) :: u32) = length xs" using assms(2) by (simp add: unat_of_nat)
  have "\<not> (of_nat (length xs) :: u32) > 100000" using assms(2) u by (simp add: word_less_nat_alt)
  then show ?thesis using parse_records_write [OF assms(1), of r]
    by (simp add: parse_offerfiles_def write_offerfiles_def n u Let_def)
qed

text \<open>C34: an OFFERFILES packet is read back as it was written, whatever follows it: every record
  with its hash, its identity fields and what its tags say of name, size and media.\<close>

theorem offer_round_trip:
  assumes "list_all offer_entry_ok xs" "length xs \<le> 100000"
  shows "parse_offerfiles (write_offerfiles xs @ r) =
    Inr (map (\<lambda>(h, client_id, port, tags). record_of_tags h client_id port (map tag_read tags)) xs)"
  using assms by (rule offers_read)

section \<open>The handler keeps the tables, and only indexes what the filter allows\<close>

lemma publish_frame:
  assumes ok: "tables_ok u s" and room: "slots_left 2 (sv_slab s)" and so: "source = (user, ip, port, complete)"
  obtains s' i where "add_file_with_source u sw h sz name source now s = Some s'" "tables_ok u s'"
    "\<forall>n. slots_left (Suc n) (sv_slab s) \<longrightarrow> slots_left n (sv_slab s')"
    "\<forall>j r. slab_of s' j = Some r \<longrightarrow> slab_of s j = Some r \<or> fr_hash r = h"
    "files_of s' user \<subseteq> insert i (files_of s user)"
    "\<forall>j r. File_Spec.holds (slab_of s) h j r \<longrightarrow> i = j"
proof (cases "unknown (slab_of s) h")
  case True
  obtain i s' where P: "add_file_with_source u sw h sz name source now s = Some s'"
    "slab_of s' = (slab_of s)(i \<mapsto> record_new h sz name [source_new user ip port complete])" "tables_ok u s'"
    "\<forall>n. slots_left (Suc n) (sv_slab s) \<longrightarrow> slots_left n (sv_slab s')"
    using publish_fresh [OF ok room True so] by metis
  have fl: "files_of s' user \<subseteq> insert i (files_of s user)"
    using ok P(2,3) by (auto simp: tables_ok_def user_sources_put split: if_splits)
  have fr: "\<forall>j r. slab_of s' j = Some r \<longrightarrow> slab_of s j = Some r \<or> fr_hash r = h"
    by (auto simp: fun_cong [OF P(2)] record_new_def)
  have "\<forall>j r. File_Spec.holds (slab_of s) h j r \<longrightarrow> i = j" using True unfolding unknown_def by blast
  then show ?thesis using that [OF P(1,3,4) fr fl] by blast
next
  case False
  then obtain i r where h: "File_Spec.holds (slab_of s) h i r" by (auto simp: unknown_def)
  obtain s' where P: "add_file_with_source u sw h sz name source now s = Some s'" "tables_ok u s'"
    "\<forall>n. slots_left n (sv_slab s) \<longrightarrow> slots_left n (sv_slab s')"
    "slab_of s' = slab_of s \<or>
     slab_of s' = (slab_of s)(i \<mapsto> refresh (source_new user ip port complete) (r\<lparr>fr_size := merged_size (fr_size r) sz\<rparr>))"
    using publish_known [OF ok h so] by metis
  have sok: "slab_ok (sv_slab s)" using ok by (simp add: tables_ok_def index_matches_def)
  have "files_of s' user \<subseteq> insert i (files_of s user)"
    using ok P(2,4) by (auto simp: tables_ok_def user_sources_put split: if_splits)
  moreover have "\<forall>j q. slab_of s' j = Some q \<longrightarrow> slab_of s j = Some q \<or> fr_hash q = h"
  proof (intro allI impI)
    fix j q assume q: "slab_of s' j = Some q"
    have "slab_of s' j = slab_of s j \<or> (\<exists>srcs n. slab_of s' j = Some (r\<lparr>fr_size := n, fr_sources := srcs\<rparr>))"
      using P(4) by (elim disjE) (drule fun_cong [where x = j], auto split: if_splits)+
    then show "slab_of s j = Some q \<or> fr_hash q = h" using q h by (auto simp: File_Spec.holds_def)
  qed
  moreover have "\<forall>n. slots_left (Suc n) (sv_slab s) \<longrightarrow> slots_left n (sv_slab s')"
    using P(3) slots_left_Suc by blast
  ultimately show ?thesis using that [OF P(1,2)] holds_unique [OF sok h] by blast
qed

lemma codecs_get [simp]: "slab_get i (sl\<lparr>sl_codecs := c\<rparr>) = slab_get i sl"
  by (simp add: slab_get_def)

lemma codecs_frame [simp]:
  "slab_ok (sl\<lparr>sl_codecs := c\<rparr>) = slab_ok sl" "slots_left n (sl\<lparr>sl_codecs := c\<rparr>) = slots_left n sl"
  by (simp_all add: slab_ok_def slots_left_def)

lemma add_media_frame:
  assumes ok: "tables_ok u s"
  obtains s' where "add_media f s = Some s'" "tables_ok u s'" "slab_of s' = slab_of s"
    "files_of s' = files_of s" "\<forall>n. slots_left n (sv_slab s) \<longrightarrow> slots_left n (sv_slab s')"
proof (cases "media_any (of_media f)")
  case False
  then show ?thesis using that ok by (simp add: add_media_def)
next
  case True
  obtain m c where m: "to_media (of_media f) (sl_codecs (sv_slab s)) = (m, c)" by fastforce
  have sok: "slab_ok (sv_slab s\<lparr>sl_codecs := c\<rparr>)" using ok by (simp add: tables_ok_def index_matches_def)
  obtain sl' where sl': "merge_media (of_hash f) m (sv_slab s\<lparr>sl_codecs := c\<rparr>) = Some sl'" "slab_ok sl'"
    "slab_map sl' = slab_of s" "\<forall>n. slots_left n (sv_slab s) \<longrightarrow> slots_left n sl'"
    using merge_media_ok [OF sok, of "of_hash f" m] codecs_get codecs_frame(2) by metis
  let ?s = "s\<lparr>sv_slab := sl'\<rparr>"
  have "files_of ?s = files_of s" by (simp add: files_of_def fun_eq_iff)
  moreover have "tables_ok u ?s"
    using ok sl' calculation by (simp add: tables_ok_def index_matches_def)
  moreover have "add_media f s = Some ?s" using True m sl'(1) by (simp add: add_media_def)
  ultimately show ?thesis using that sl' by simp
qed

text \<open>What one batch may do to the tables: \<open>A\<close> are the hashes the filter let through.\<close>

definition run_ok :: "unicode \<Rightarrow> nat \<Rightarrow> bytes \<Rightarrow> offer_run \<Rightarrow> bool" where
  "run_ok u soft user r \<longleftrightarrow> tables_ok u (ps_files (or_state r)) \<and> oc_user (or_client r) = user \<and>
     (soft > 0 \<longrightarrow> or_sourced r = card (files_of (ps_files (or_state r)) user))"

definition only_of :: "file_hash set \<Rightarrow> server_files \<Rightarrow> server_files \<Rightarrow> bool" where
  "only_of A s s' \<longleftrightarrow> (\<forall>i r. slab_of s' i = Some r \<longrightarrow> slab_of s i = Some r \<or> fr_hash r \<in> A)"

lemma only_of_refl: "only_of A s s"
  by (simp add: only_of_def)

lemma only_of_trans: "only_of A s s' \<Longrightarrow> only_of B s' s'' \<Longrightarrow> only_of (A \<union> B) s s''"
  unfolding only_of_def by blast

lemma already_sources_ok:
  assumes "slab_ok (sv_slab s)"
  shows "\<exists>b. already_sources s user h = Some b \<and> (b \<longrightarrow> (\<exists>i r. File_Spec.holds (slab_of s) h i r \<and> i \<in> files_of s user))"
proof -
  obtain x where "id_of h (sv_slab s) = Some x"
    "\<forall>i. x = Some i \<longleftrightarrow> (\<exists>rec. slab_get i (sv_slab s) = Some rec \<and> fr_hash rec = h)"
    using id_of_ok [OF assms, of h] by blast
  then show ?thesis by (cases x) (auto simp: already_sources_def File_Spec.holds_def, metis)
qed

lemma put_attempts_files [simp]: "ps_files (put_attempts c s) = ps_files s"
  by (simp add: put_attempts_def split: option.split)

lemma card_grow:
  assumes "A \<subseteq> insert i B" "finite B" shows "card A \<le> Suc (card B)"
proof -
  have "card A \<le> card (insert i B)" using assms by (intro card_mono) auto
  then show ?thesis using assms(2) by (simp add: card_insert_if split: if_splits)
qed

lemma files_of_finite: "tables_ok u s \<Longrightarrow> finite (files_of s user)"
proof -
  assume "tables_ok u s"
  then have "files_of s user \<subseteq> dom (slab_of s)" by (auto simp: tables_ok_def user_sources_def)
  then show ?thesis using finite_ids [of "sv_slab s"] by (rule finite_subset)
qed

lemma bump_frame [simp]: "sv_slab (bump k s) = sv_slab s" "sv_index (bump k s) = sv_index s" "sv_users (bump k s) = sv_users s"
  by (simp_all add: bump_def)

lemma bump_tables [simp]: "tables_ok u (bump k s) = tables_ok u s" "files_of (bump k s) = files_of s"
  by (simp_all add: tables_ok_def index_matches_def files_of_def fun_eq_iff)

lemma ps_bump_files [simp]: "ps_files (ps_bump k s) = bump k (ps_files s)"
  by (simp add: ps_bump_def)

definition bumped :: "server_files \<Rightarrow> server_files \<Rightarrow> bool" where
  "bumped s s' \<longleftrightarrow> (\<exists>ks. s' = fold bump ks s)"

lemma bumped_refl [simp]: "bumped s s"
  unfolding bumped_def by (intro exI [of _ "[]"]) simp

lemma bumped_bump: "bumped s s' \<Longrightarrow> bumped s (bump k s')"
  unfolding bumped_def by (elim exE) (rule_tac x = "ks @ [k]" in exI, simp)

lemma bumped_trans: "bumped s s' \<Longrightarrow> bumped s' s'' \<Longrightarrow> bumped s s''"
  unfolding bumped_def by (metis fold_append comp_apply)

lemma bumpedD:
  assumes "bumped s s'"
  shows "sv_slab s' = sv_slab s" "tables_ok u s' = tables_ok u s" "files_of s' = files_of s"
proof -
  obtain ks where "s' = fold bump ks s" using assms by (auto simp: bumped_def)
  moreover have "sv_slab (fold bump ks s) = sv_slab s" "tables_ok u (fold bump ks s) = tables_ok u s"
    "files_of (fold bump ks s) = files_of s" for ks
    by (induction ks arbitrary: s) simp_all
  ultimately show "sv_slab s' = sv_slab s" "tables_ok u s' = tables_ok u s" "files_of s' = files_of s" by simp_all
qed

lemma note_blocked_bumped: "bumped (ps_files s) (ps_files (note_blocked_hash e h l c s))"
  by (simp add: note_blocked_hash_def Let_def bumped_bump)

lemma ban_bumped: "bumped (ps_files s) (ps_files (snd (ban_publisher_is_new user now s)))"
  by (simp add: ban_publisher_is_new_def Let_def bumped_bump)

lemma block_record_files: "bumped (ps_files (or_state r)) (ps_files (or_state (snd (block_record e f l reason r))))"
proof -
  have "bumped (ps_files (or_state r)) (ps_files (snd (ban_publisher_is_new user now
      (note_blocked_hash e h l c (or_state r)\<lparr>ps_csam := tbl\<rparr>))))" for user now h c tbl
    using bumped_trans [OF note_blocked_bumped [of "or_state r" e h l c]
        ban_bumped [of "note_blocked_hash e h l c (or_state r)\<lparr>ps_csam := tbl\<rparr>", simplified]] by simp
  then show ?thesis
    by (simp add: block_record_def Let_def note_blocked_bumped split: prod.split)
qed

lemma block_record_client:
  "oc_user (or_client (snd (block_record e f l reason r))) = oc_user (or_client r)"
  "or_sourced (snd (block_record e f l reason r)) = or_sourced r"
  by (auto simp: block_record_def Let_def split: prod.split)

lemma note_name_frame [simp]:
  "ps_files (or_state (note_name u scan e f r)) = ps_files (or_state r)" "or_client (note_name u scan e f r) = or_client r"
  "or_sourced (note_name u scan e f r) = or_sourced r"
  by (auto simp: note_name_def Let_def split: option.split prod.split)

lemma allow_record_ok:
  assumes ok: "run_ok u soft user r" and room: "slots_left 2 (sv_slab (ps_files (or_state r)))"
  shows "\<exists>r'. allow_record u sw e soft max_string f r = Some r' \<and> run_ok u soft user r' \<and>
     only_of {of_hash f} (ps_files (or_state r)) (ps_files (or_state r')) \<and>
     (\<forall>n. slots_left (Suc n) (sv_slab (ps_files (or_state r))) \<longrightarrow> slots_left n (sv_slab (ps_files (or_state r')))) \<and>
     (soft > 0 \<longrightarrow> card (files_of (ps_files (or_state r')) user) \<le> max soft (card (files_of (ps_files (or_state r)) user)))"
proof -
  let ?s = "ps_files (or_state r)" and ?h = "of_hash f"
  have tok: "tables_ok u ?s" and user: "oc_user (or_client r) = user" using ok by (simp_all add: run_ok_def)
  have sok: "slab_ok (sv_slab ?s)" using tok by (simp add: tables_ok_def index_matches_def)
  obtain b where b: "already_sources ?s user ?h = Some b"
    "b \<longrightarrow> (\<exists>i q. File_Spec.holds (slab_of ?s) ?h i q \<and> i \<in> files_of ?s user)"
    using already_sources_ok [OF sok] by blast
  define full where "full \<longleftrightarrow> soft > 0 \<and> or_sourced r \<ge> soft"
  show ?thesis
  proof (cases "full \<and> \<not> b")
    case True
    then have "allow_record u sw e soft max_string f r = Some (r\<lparr>or_over := or_over r + 1\<rparr>)"
      using b(1) user by (simp add: allow_record_def Let_def full_def)
    then show ?thesis using ok only_of_refl slots_left_Suc by (auto simp: run_ok_def)
  next
    case False
    then have go: "(if soft > 0 \<and> or_sourced r \<ge> soft then map_option (\<lambda>b. \<not> b) (already_sources ?s (oc_user (or_client r)) ?h)
        else Some False) = Some False"
      using b(1) user by (auto simp: full_def)
    obtain fs i where A: "add_file_with_source u sw ?h (of_size f) (cap_string (of_filename f) max_string)
        (oc_user (or_client r), oc_ip (or_client r), oc_port (or_client r), has_complete f) (oe_now e) ?s = Some fs"
      "tables_ok u fs" "\<forall>n. slots_left (Suc n) (sv_slab ?s) \<longrightarrow> slots_left n (sv_slab fs)"
      "\<forall>j q. slab_of fs j = Some q \<longrightarrow> slab_of ?s j = Some q \<or> fr_hash q = ?h"
      "files_of fs (oc_user (or_client r)) \<subseteq> insert i (files_of ?s (oc_user (or_client r)))"
      "\<forall>j q. File_Spec.holds (slab_of ?s) ?h j q \<longrightarrow> i = j"
      by (rule publish_frame [OF tok room refl])
    obtain fs' where M: "add_media f fs = Some fs'" "tables_ok u fs'" "slab_of fs' = slab_of fs" "files_of fs' = files_of fs"
      "\<forall>n. slots_left n (sv_slab fs) \<longrightarrow> slots_left n (sv_slab fs')"
      by (rule add_media_frame [OF A(2)])
    define r' where "r' = r\<lparr>or_state := put_attempts (or_client r) (or_state r\<lparr>ps_files := fs'\<rparr>), or_accepted := or_accepted r + 1,
        or_sourced := (if soft > 0 then layer_count fs' (oc_user (or_client r)) else or_sourced r)\<rparr>"
    have res: "allow_record u sw e soft max_string f r = Some r'"
      unfolding allow_record_def Let_def go by (simp add: A(1) M(1) r'_def)
    have f': "ps_files (or_state r') = fs'" by (simp add: r'_def)
    have "run_ok u soft user r'" using M(2) user by (simp add: run_ok_def r'_def layer_count_def)
    moreover have "only_of {?h} ?s fs'" using A(4) fun_cong [OF M(3)] by (auto simp: only_of_def)
    moreover have "card (files_of fs' user) \<le> max soft (card (files_of ?s user))" if "soft > 0"
    proof (cases "b")
      case True
      then obtain j q where "File_Spec.holds (slab_of ?s) ?h j q" "j \<in> files_of ?s user" using b(2) by blast
      then have "files_of fs user \<subseteq> files_of ?s user" using A(5,6) user by auto
      then have "card (files_of fs user) \<le> card (files_of ?s user)"
        using files_of_finite [OF tok] by (rule card_mono [rotated])
      then show ?thesis by (simp add: M(4))
    next
      case nb: False
      then have "or_sourced r < soft" using False that by (simp add: full_def)
      then have "card (files_of ?s user) < soft" using ok that by (simp add: run_ok_def)
      moreover have "card (files_of fs user) \<le> Suc (card (files_of ?s user))"
        using card_grow [OF A(5) files_of_finite [OF tok]] user by simp
      ultimately show ?thesis by (simp add: M(4))
    qed
    ultimately show ?thesis using res A(3) M(5) by (auto simp: f')
  qed
qed

definition allowed_hashes :: "unicode \<Rightarrow> scanner \<Rightarrow> (offered_file \<times> offer_env) list \<Rightarrow> file_hash set" where
  "allowed_hashes u scan fs =
     {h. \<exists>f e. (f, e) \<in> set fs \<and> of_hash f = h \<and> check_file u scan (oe_lists e) (of_hash f) (of_filename f) = F_Allow}"

lemma allowed_hashes_Cons:
  "allowed_hashes u scan fs \<subseteq> allowed_hashes u scan (x # fs)"
  "check_file u scan (oe_lists e) (of_hash f) (of_filename f) = F_Allow \<Longrightarrow> of_hash f \<in> allowed_hashes u scan ((f, e) # fs)"
  by (auto simp: allowed_hashes_def)

lemma offer_loop_ok:
  "run_ok u soft user r \<Longrightarrow> slots_left (Suc (length fs)) (sv_slab (ps_files (or_state r))) \<Longrightarrow>
   \<exists>r'. offer_loop u scan sw soft max_string fs r = Some r' \<and> tables_ok u (ps_files (or_state r')) \<and>
     only_of (allowed_hashes u scan fs)
       (ps_files (or_state r)) (ps_files (or_state r')) \<and>
     (soft > 0 \<longrightarrow> card (files_of (ps_files (or_state r')) user) \<le> max soft (card (files_of (ps_files (or_state r)) user)))"
proof (induction fs arbitrary: r)
  case Nil
  then show ?case by (auto simp: run_ok_def only_of_refl)
next
  case (Cons x fs)
  obtain f e where x: "x = (f, e)" by (cases x)
  define r1 where "r1 = note_name u scan e f r"
  have f1: "ps_files (or_state r1) = ps_files (or_state r)" by (simp add: r1_def)
  have ok1: "run_ok u soft user r1" using Cons.prems(1) by (simp add: run_ok_def r1_def)
  let ?A = "allowed_hashes u scan"
  have wider: "only_of A s s' \<Longrightarrow> A \<subseteq> B \<Longrightarrow> only_of B s s'" for A B s s' by (auto simp: only_of_def)
  show ?case
  proof (cases "check_file u scan (oe_lists e) (of_hash f) (of_filename f)")
    case (F_Block l reason)
    obtain stop r2 where b: "block_record e f l reason r1 = (stop, r2)" by fastforce
    have bm: "bumped (ps_files (or_state r)) (ps_files (or_state r2))"
      using block_record_files [of r1 e f l reason] by (simp add: b f1)
    note D = bumpedD [OF bm]
    have oo: "only_of {} (ps_files (or_state r)) (ps_files (or_state r2))" by (simp add: only_of_def D(1))
    have ok2: "run_ok u soft user r2"
      using ok1 block_record_client [of e f l reason r1] by (simp add: run_ok_def b f1 D)
    show ?thesis
    proof (cases stop)
      case True
      then have "offer_loop u scan sw soft max_string (x # fs) r = Some r2"
        using F_Block b by (simp add: x r1_def)
      then show ?thesis using ok2 wider [OF oo] by (auto simp: run_ok_def D(3))
    next
      case False
      then have e: "offer_loop u scan sw soft max_string (x # fs) r = offer_loop u scan sw soft max_string fs r2"
        using F_Block b by (simp add: x r1_def)
      have "slots_left (Suc (length fs)) (sv_slab (ps_files (or_state r2)))"
        using Cons.prems(2) slots_left_Suc by (simp add: D(1))
      from Cons.IH [OF ok2 this] obtain r' where r': "offer_loop u scan sw soft max_string fs r2 = Some r'"
        "tables_ok u (ps_files (or_state r'))" "only_of (?A fs) (ps_files (or_state r2)) (ps_files (or_state r'))"
        "soft > 0 \<longrightarrow> card (files_of (ps_files (or_state r')) user) \<le> max soft (card (files_of (ps_files (or_state r2)) user))"
        by blast
      have "only_of (?A (x # fs)) (ps_files (or_state r)) (ps_files (or_state r'))"
        by (rule wider [OF only_of_trans [OF oo r'(3)]]) (simp add: allowed_hashes_Cons)
      then show ?thesis using r' by (simp add: e D(3))
    qed
  next
    case F_Allow
    have room: "slots_left (Suc (Suc (length fs))) (sv_slab (ps_files (or_state r1)))" using Cons.prems(2) by (simp add: f1)
    then have "slots_left 2 (sv_slab (ps_files (or_state r1)))" by (auto simp: slots_left_def)
    from allow_record_ok [OF ok1 this, of sw e max_string f]
    obtain r2 where r2: "allow_record u sw e soft max_string f r1 = Some r2" "run_ok u soft user r2"
      "only_of {of_hash f} (ps_files (or_state r)) (ps_files (or_state r2))"
      "slots_left (Suc (length fs)) (sv_slab (ps_files (or_state r2)))"
      "soft > 0 \<longrightarrow> card (files_of (ps_files (or_state r2)) user) \<le> max soft (card (files_of (ps_files (or_state r)) user))"
      using room unfolding f1 by blast
    have e: "offer_loop u scan sw soft max_string (x # fs) r = offer_loop u scan sw soft max_string fs r2"
      using F_Allow r2(1) by (simp add: x r1_def)
    from Cons.IH [OF r2(2,4)] obtain r' where r': "offer_loop u scan sw soft max_string fs r2 = Some r'"
      "tables_ok u (ps_files (or_state r'))" "only_of (?A fs) (ps_files (or_state r2)) (ps_files (or_state r'))"
      "soft > 0 \<longrightarrow> card (files_of (ps_files (or_state r')) user) \<le> max soft (card (files_of (ps_files (or_state r2)) user))"
      by blast
    have "only_of (?A (x # fs)) (ps_files (or_state r)) (ps_files (or_state r'))"
      by (rule wider [OF only_of_trans [OF r2(3) r'(3)]]) (simp add: x allowed_hashes_Cons F_Allow)
    moreover have "soft > 0 \<longrightarrow> card (files_of (ps_files (or_state r')) user) \<le> max soft (card (files_of (ps_files (or_state r)) user))"
      using r'(4) r2(5) by linarith
    ultimately show ?thesis using r' by (simp add: e)
  qed
qed

lemma batch_ok:
  assumes "tables_ok u (ps_files s)" "slots_left (Suc (length files)) (sv_slab (ps_files s))"
  shows "\<exists>res c' s'. handle_offerfiles u scan sw e0 files c s = Some (res, c', s') \<and> tables_ok u (ps_files s') \<and>
    only_of (allowed_hashes u scan files)
       (ps_files s) (ps_files s') \<and>
    (soft_limit_of e0 c > 0 \<longrightarrow>
       card (files_of (ps_files s') (oc_user c)) \<le> max (soft_limit_of e0 c) (card (files_of (ps_files s) (oc_user c))))"
proof -
  let ?soft = "soft_limit_of e0 c"
  have st: "ps_files (or_state (start_batch ?soft files c s)) = ps_files s" by (simp add: start_batch_def)
  have "run_ok u ?soft (oc_user c) (start_batch ?soft files c s)"
    using assms(1) by (simp add: run_ok_def start_batch_def layer_count_def)
  from offer_loop_ok [OF this, of files scan sw "oe_max_string_size e0", unfolded st, OF assms(2)]
  obtain r' where r': "offer_loop u scan sw ?soft (oe_max_string_size e0) files (start_batch ?soft files c s) = Some r'"
    "tables_ok u (ps_files (or_state r'))"
    "only_of (allowed_hashes u scan files)
       (ps_files s) (ps_files (or_state r'))"
    "?soft > 0 \<longrightarrow> card (files_of (ps_files (or_state r')) (oc_user c)) \<le> max ?soft (card (files_of (ps_files s) (oc_user c)))"
    by (elim exE conjE) (rule that, assumption+)
  obtain res c' s' where e: "end_batch r' = (res, c', s')" by (cases "end_batch r'") auto
  then have f: "ps_files s' = ps_files (or_state r')" by (auto simp: end_batch_def Let_def split: if_splits)
  have h: "handle_offerfiles u scan sw e0 files c s = Some (res, c', s')" by (simp add: handle_offerfiles_def Let_def r'(1) e)
  show ?thesis
    by (rule exI [of _ res], rule exI [of _ c'], rule exI [of _ s'], unfold f) (intro conjI h r'(2-4))
qed

text \<open>C3: the handler never panics while the slab has slots, it keeps the slab, the keyword index
  and the reverse index consistent, and every record of the tables that it adds or changes is
  of a hash that the content filter let through under a name of the batch.\<close>

theorem only_filtered_records_are_indexed:
  assumes "tables_ok u (ps_files s)" "slots_left (Suc (length files)) (sv_slab (ps_files s))"
  shows "\<exists>res c' s'. handle_offerfiles u scan sw e0 files c s = Some (res, c', s') \<and> tables_ok u (ps_files s') \<and>
    (\<forall>i r. slab_get i (sv_slab (ps_files s')) = Some r \<longrightarrow> slab_get i (sv_slab (ps_files s)) = Some r \<or>
       (\<exists>f e. (f, e) \<in> set files \<and> of_hash f = fr_hash r \<and>
              check_file u scan (oe_lists e) (of_hash f) (of_filename f) = F_Allow))"
proof -
  obtain res c' s' where h: "handle_offerfiles u scan sw e0 files c s = Some (res, c', s')" "tables_ok u (ps_files s')"
    "only_of (allowed_hashes u scan files)
       (ps_files s) (ps_files s')"
    using batch_ok [OF assms] by blast
  have "slab_get i (sv_slab (ps_files s)) = Some r \<or>
       (\<exists>f e. (f, e) \<in> set files \<and> of_hash f = fr_hash r \<and>
              check_file u scan (oe_lists e) (of_hash f) (of_filename f) = F_Allow)"
    if "slab_get i (sv_slab (ps_files s')) = Some r" for i r
  proof -
    have "slab_get i (sv_slab (ps_files s)) = Some r \<or> fr_hash r \<in> allowed_hashes u scan files"
      using h(3) that unfolding only_of_def by blast
    then show ?thesis by (simp add: allowed_hashes_def)
  qed
  then show ?thesis using h(1,2) by blast
qed

text \<open>C22: the soft limit is a limit: a batch never takes a client past it, and a client that is past
  it already (the limit was lowered) gains no file.\<close>

theorem soft_limit_holds:
  assumes "tables_ok u (ps_files s)" "slots_left (Suc (length files)) (sv_slab (ps_files s))"
    and "handle_offerfiles u scan sw e0 files c s = Some (res, c', s')" "soft_limit_of e0 c > 0"
  shows "card (files_of (ps_files s') (oc_user c)) \<le> max (soft_limit_of e0 c) (card (files_of (ps_files s) (oc_user c)))"
  using batch_ok [OF assms(1,2), of scan sw e0 c] assms(3,4) by auto

section \<open>Disconnected, not banned\<close>

text \<open>The session is dropped when its blocked attempts exceed the threshold, the user is banned when
  the distinct files caught exceed it. The two do not agree on a client that offers the same
  blocked file again and again.\<close>

definition caught_once :: "offer_env \<Rightarrow> bytes \<Rightarrow> file_hash \<Rightarrow> publish_state \<Rightarrow> bool" where
  "caught_once e user h s \<longleftrightarrow>
     (case ps_csam s user of None \<Rightarrow> True | Some (fs, stamp) \<Rightarrow> stamp = oe_now e \<and> (\<exists>k. fs = [(h, k)] \<and> cc_at k = oe_now e))"

lemma note_blocked_frame [simp]:
  "ps_csam (note_blocked_hash e h l c s) = ps_csam s" "ps_banned (note_blocked_hash e h l c s) = ps_banned s"
  "ps_names (note_blocked_hash e h l c s) = ps_names s"
  by (simp_all add: note_blocked_hash_def Let_def ps_bump_def)

lemma block_again:
  assumes l: "counts_against_publisher l" and t: "0 < oe_threshold e"
    and once: "caught_once e (oc_user (or_client r)) (of_hash f) (or_state r)"
  shows "\<exists>r'. block_record e f l reason r = (False, r') \<and> caught_once e (oc_user (or_client r)) (of_hash f) (or_state r') \<and>
     ps_banned (or_state r') = ps_banned (or_state r) \<and> oc_user (or_client r') = oc_user (or_client r) \<and>
     oc_attempts (or_client r') = sat_add (oc_attempts (or_client r)) 1"
proof -
  let ?user = "oc_user (or_client r)" and ?h = "of_hash f"
  have "\<not> (1 :: u32) > oe_threshold e" using t by (simp add: word_gt_0_no)
  then have one: "\<not> oe_threshold e < 1" by simp
  show ?thesis
  proof (cases "ps_csam (or_state r) ?user")
    case None
    then show ?thesis using l one
      by (simp add: block_record_def record_csam_file_for_user_def Let_def caught_once_def)
  next
    case (Some x)
    then obtain k where "x = ([(?h, k)], oe_now e)" "cc_at k = oe_now e"
      using once by (cases x) (auto simp: caught_once_def)
    then show ?thesis using l one Some
      by (simp add: block_record_def record_csam_file_for_user_def Let_def caught_once_def)
  qed
qed

lemma repeat_loop:
  assumes chk: "check_file u scan (oe_lists e) (of_hash f) (of_filename f) = F_Block l reason"
    and l: "counts_against_publisher l" and t: "0 < oe_threshold e"
  shows "caught_once e (oc_user (or_client r)) (of_hash f) (or_state r) \<Longrightarrow> unat (oc_attempts (or_client r)) + n < 2 ^ 32 \<Longrightarrow>
    \<exists>r'. offer_loop u scan sw soft ms (replicate n (f, e)) r = Some r' \<and> ps_banned (or_state r') = ps_banned (or_state r) \<and>
      unat (oc_attempts (or_client r')) = unat (oc_attempts (or_client r)) + n"
proof (induction n arbitrary: r)
  case (Suc n)
  let ?r = "note_name u scan e f r"
  have st: "caught_once e (oc_user (or_client ?r)) (of_hash f) (or_state ?r)" "ps_banned (or_state ?r) = ps_banned (or_state r)"
    using Suc.prems(1) by (auto simp: caught_once_def note_name_def Let_def split: option.splits prod.splits)
  obtain r1 where r1: "block_record e f l reason ?r = (False, r1)" "caught_once e (oc_user (or_client ?r)) (of_hash f) (or_state r1)"
    "ps_banned (or_state r1) = ps_banned (or_state ?r)" "oc_user (or_client r1) = oc_user (or_client ?r)"
    "oc_attempts (or_client r1) = sat_add (oc_attempts (or_client ?r)) 1"
    using block_again [OF l t st(1)] by blast
  have a: "unat (oc_attempts (or_client r1)) = unat (oc_attempts (or_client r)) + 1"
    using Suc.prems(2) by (simp add: r1(5) unat_sat_add)
  have "caught_once e (oc_user (or_client r1)) (of_hash f) (or_state r1)" using r1(2,4) by simp
  from Suc.IH [OF this] Suc.prems(2) a
  obtain r' where "offer_loop u scan sw soft ms (replicate n (f, e)) r1 = Some r'" "ps_banned (or_state r') = ps_banned (or_state r1)"
    "unat (oc_attempts (or_client r')) = unat (oc_attempts (or_client r1)) + n"
    by auto
  then show ?case using r1(1,3) st(2) a chk by (simp add: Let_def)
qed simp

text \<open>a new publisher who offers one blocked file \<open>n\<close> times in a batch has \<open>n\<close> attempts on the
  session, past the threshold that drops it for any \<open>n\<close> above it, but is never banned, so
  the next login succeeds.\<close>

theorem repeats_never_ban:
  assumes "check_file u scan (oe_lists e) (of_hash f) (of_filename f) = F_Block l reason" "counts_against_publisher l"
    and "0 < oe_threshold e" "ps_csam s (oc_user c) = None" "oc_attempts c = 0" "n < 2 ^ 32"
  shows "\<exists>res c' s'. handle_offerfiles u scan sw e0 (replicate n (f, e)) c s = Some (res, c', s') \<and>
    unat (oc_attempts c') = n \<and> ps_banned s' = ps_banned s"
proof -
  let ?soft = "soft_limit_of e0 c" and ?r = "start_batch (soft_limit_of e0 c) (replicate n (f, e)) c s"
  have st: "caught_once e (oc_user (or_client ?r)) (of_hash f) (or_state ?r)" "ps_banned (or_state ?r) = ps_banned s"
    "oc_attempts (or_client ?r) = 0"
    using assms(4,5) by (simp_all add: start_batch_def caught_once_def)
  from repeat_loop [OF assms(1-3) st(1), of n sw ?soft "oe_max_string_size e0"] assms(6) st(2,3)
  obtain r' where r': "offer_loop u scan sw ?soft (oe_max_string_size e0) (replicate n (f, e)) ?r = Some r'"
    "ps_banned (or_state r') = ps_banned s" "unat (oc_attempts (or_client r')) = n"
    by auto
  obtain res c' s' where e: "end_batch r' = (res, c', s')" by (cases "end_batch r'") auto
  then have "ps_banned s' = ps_banned (or_state r')" "oc_attempts c' = oc_attempts (or_client r')"
    by (auto simp: end_batch_def Let_def split: if_splits)
  then show ?thesis using r' by (intro exI [of _ res] exI [of _ c'] exI [of _ s']) (simp add: handle_offerfiles_def Let_def e)
qed

section \<open>Concrete batches\<close>

definition no_stats :: media_stats where
  "no_stats = \<lparr>ms_files = 0, ms_with_any = 0, ms_length = 0, ms_bitrate = 0, ms_codec = 0, ms_artist_album_title = 0,
     ms_codec_bytes = 0, ms_codecs = Map.empty, ms_codecs_overflow = 0\<rparr>"

definition publish_new :: publish_state where
  "publish_new = \<lparr>ps_files = files_new False, ps_blocked = Map.empty, ps_unique_ips = Map.empty, ps_csam = Map.empty,
     ps_banned = Map.empty, ps_clients = Map.empty, ps_over_soft = (0, 0), ps_media = no_stats, ps_names = None\<rparr>"

definition an_env :: offer_env where
  "an_env = \<lparr>oe_now = 7, oe_lists = no_lists\<lparr>hash_blocklist := {replicate 16 9}\<rparr>, oe_soft_limit_files = 1,
     oe_max_string_size = 0, oe_threshold = 3, oe_count_window = 100, oe_retention = 100, oe_v6_bits = 64\<rparr>"

definition a_client :: offer_client where
  "a_client = \<lparr>oc_user = [1], oc_ip = V4 1, oc_port = 4662, oc_policy_soft = None, oc_attempts = 0, oc_warned = False\<rparr>"

definition a_file :: "u8 \<Rightarrow> offered_file" where
  "a_file k = \<lparr>of_hash = replicate 16 k, of_client_id = 5, of_port = 4662, of_filename = lit ''a b'', of_size = 700,
     of_media = media_none\<rparr>"

lemma publish_new_ok: "tables_ok u (ps_files publish_new)" "slots_left 3 (sv_slab (ps_files publish_new))"
  using files_new_ok [of u False] by (auto simp: publish_new_def slots_left_def)

text \<open>A batch of a file and a banned one; the limit of one file with two offered; the banned file five
  times with a threshold of three.\<close>

theorem only_filtered_records_are_indexed_witness:
  "\<exists>res c' s'. handle_offerfiles ascii_tables (\<lambda>_ _ _. None) Map.empty an_env [(a_file 1, an_env), (a_file 9, an_env)] a_client
     publish_new = Some (res, c', s') \<and> tables_ok ascii_tables (ps_files s')"
  using only_filtered_records_are_indexed [OF publish_new_ok(1), of "[(a_file 1, an_env), (a_file 9, an_env)]" ascii_tables
      "\<lambda>_ _ _. None" Map.empty an_env a_client] publish_new_ok(2) by (auto simp: numeral_3_eq_3)

theorem soft_limit_holds_witness:
  "\<exists>res c' s'. handle_offerfiles ascii_tables (\<lambda>_ _ _. None) Map.empty an_env [(a_file 1, an_env), (a_file 2, an_env)] a_client
     publish_new = Some (res, c', s') \<and> card (files_of (ps_files s') [1]) \<le> 1"
proof -
  let ?fs = "[(a_file 1, an_env), (a_file 2, an_env)]"
  have room: "slots_left (Suc (length ?fs)) (sv_slab (ps_files publish_new))" using publish_new_ok(2) by (simp add: numeral_3_eq_3)
  obtain res c' s' where h: "handle_offerfiles ascii_tables (\<lambda>_ _ _. None) Map.empty an_env ?fs a_client publish_new = Some (res, c', s')"
    using batch_ok [OF publish_new_ok(1) room] by blast
  have soft: "soft_limit_of an_env a_client = 1" by (simp add: soft_limit_of_def an_env_def a_client_def)
  have "card (files_of (ps_files s') (oc_user a_client)) \<le> max (soft_limit_of an_env a_client) (card (files_of (ps_files publish_new) (oc_user a_client)))"
    by (rule soft_limit_holds [OF publish_new_ok(1) room h]) (simp add: soft)
  moreover have "oc_user a_client = [1]" by (simp add: a_client_def)
  moreover have "files_of (ps_files publish_new) [1] = {}" by (simp add: publish_new_def files_of_def files_new_def)
  ultimately have "card (files_of (ps_files s') [1]) \<le> 1" by (simp add: soft)
  then show ?thesis using h by blast
qed

theorem repeats_never_ban_witness:
  "\<exists>res c' s'. handle_offerfiles ascii_tables (\<lambda>_ _ _. None) Map.empty an_env (replicate 5 (a_file 9, an_env)) a_client
     publish_new = Some (res, c', s') \<and> unat (oc_attempts c') = 5 \<and> ps_banned s' = Map.empty"
  using repeats_never_ban [of ascii_tables "\<lambda>_ _ _. None" an_env "a_file 9" L3HashBlock "lit ''hash''" publish_new a_client 5
      Map.empty an_env]
  by (simp add: check_file_def check_inner_def Let_def an_env_def no_lists_def a_file_def counts_against_publisher_def
      publish_new_def a_client_def)

theorem offer_round_trip_witness:
  "parse_offerfiles (write_offerfiles [(replicate 16 7, 5, 4662, [tag_byte FT_FILENAME (VString (lit ''a''))])] @ [1, 2]) =
     Inr [record_of_tags (replicate 16 7) 5 4662 [tag_byte FT_FILENAME (VString (lit ''a''))]]"
  using offer_round_trip [of "[(replicate 16 7, 5, 4662, [tag_byte FT_FILENAME (VString (lit ''a''))])]" "[1, 2]"]
  by (simp add: offer_entry_ok_def tag_ok_def tag_byte_def valid_str_def lit_def scalar_def str_len_ascii tag_read_def)

end
