(* ===== verification/Search_Handler.thy ===== *)
theory Search_Handler
  imports Server_Files Content_Filter Search_Candidates "HOL-Library.Multiset"
begin

text \<open>
  The TCP search (\<open>handle_search\<close> of \<open>src/server/search.rs\<close>): a search by hash, the rewriting of
  unknown words, the candidates of the keyword index or a bounded walk of the slab, the
  predicate, the content filter, and the bounded heap that keeps the best results.

  A search runs on the tables as they are; it is read here on one state of them. The heap is
  the list of its elements, best first (\<open>into_sorted_vec\<close>): \<open>push\<close> inserts, \<open>peek\<close> is the last,
  \<open>pop\<close> drops it. Parameters: the Unicode tables, the keyed hash of the query's groups, and
  the content filter's answer for a file (\<open>is_withheld\<close>, which \<open>Content_Filter\<close> proves current).
\<close>

section \<open>Ranking\<close>

record ranked =
  rk_sources :: u32
  rk_tie :: u64
  rk_id :: file_id
  rk_rec :: file_record

definition outranks :: "ranked \<Rightarrow> ranked \<Rightarrow> bool" where
  "outranks a b \<longleftrightarrow>
     rk_sources a > rk_sources b \<or>
     (rk_sources a = rk_sources b \<and>
        (rk_tie a > rk_tie b \<or> (rk_tie a = rk_tie b \<and> rk_id a < rk_id b)))"

definition tie_key :: "u64 \<Rightarrow> file_hash \<Rightarrow> u64" where
  "tie_key seed h =
     (let z = xor (of_nat (from_le (take 8 h))) seed;
          z = z + 0x9E3779B97F4A7C15;
          z = xor z (drop_bit 30 z) * 0xBF58476D1CE4E5B9;
          z = xor z (drop_bit 27 z) * 0x94D049BB133111EB
      in xor z (drop_bit 31 z))"

fun heap_push :: "ranked \<Rightarrow> ranked list \<Rightarrow> ranked list" where
  "heap_push x [] = [x]"
| "heap_push x (y # ys) = (if outranks x y then x # y # ys else y # heap_push x ys)"

definition rank :: "u64 \<Rightarrow> file_id \<Rightarrow> file_record \<Rightarrow> ranked" where
  "rank seed i r =
     \<lparr>rk_sources = of_nat (length (fr_sources r)), rk_tie = tie_key seed (fr_hash r), rk_id = i, rk_rec = r\<rparr>"

section \<open>Testing a candidate\<close>

definition MAX_UNINDEXED_SCAN :: nat where "MAX_UNINDEXED_SCAN = 50000"

record search_run =
  sr_heap :: "ranked list"
  sr_candidates :: nat
  sr_scanned :: nat
  sr_scan_capped :: bool
  sr_rank_capped :: bool
  sr_matched :: nat

definition run_new :: search_run where
  "run_new = \<lparr>sr_heap = [], sr_candidates = 0, sr_scanned = 0, sr_scan_capped = False, sr_rank_capped = False,
     sr_matched = 0\<rparr>"

record search_job =
  sj_prepared :: search_node
  sj_want_complete :: bool
  sj_want_media :: bool
  sj_seed :: u64
  sj_max_results :: nat
  sj_rank_scan :: nat

definition file_facts_of :: "file_record \<Rightarrow> bool \<Rightarrow> media option \<Rightarrow> file_facts" where
  "file_facts_of r want_complete media =
     \<lparr>ff_size = fr_size r, ff_sources = Some (of_nat (length (fr_sources r))),
      ff_complete_sources = (if want_complete then Some (complete_source_count r) else None), ff_media = media\<rparr>"

definition prepared_tree :: "unicode \<Rightarrow> codec_table \<Rightarrow> search_node \<Rightarrow> search_node" where
  "prepared_tree u codecs tree = resolve_codecs (codec_lookup codecs) (prepare u tree)"

definition satisfies :: "unicode \<Rightarrow> search_job \<Rightarrow> file_record \<Rightarrow> media option \<Rightarrow> bool" where
  "satisfies u j r media =
     evaluate_prepared u (sj_prepared j) (fold_for_match u (record_name r))
       (file_facts_of r (sj_want_complete j)
          (if sj_want_media j then Some (case media of Some m \<Rightarrow> m | None \<Rightarrow> 0) else None))"

definition consider_file ::
  "unicode \<Rightarrow> (file_hash \<Rightarrow> rstr \<Rightarrow> bool) \<Rightarrow> search_job \<Rightarrow> file_id \<times> file_record \<times> media option \<Rightarrow> search_run \<Rightarrow> bool \<times> search_run" where
  "consider_file u hidden j c s =
     (case c of (i, entry, media) \<Rightarrow>
        let s = s\<lparr>sr_scanned := sr_scanned s + 1\<rparr>
        in if fr_sources entry = [] then (True, s)
           else let s = (if satisfies u j entry media
                         then let s = s\<lparr>sr_matched := sr_matched s + 1\<rparr>;
                                  x = rank (sj_seed j) i entry;
                                  keep = (if sr_heap s \<noteq> [] \<and> length (sr_heap s) \<ge> sj_max_results j
                                          then outranks x (last (sr_heap s)) else True)
                              in if keep \<and> \<not> hidden (fr_hash entry) (record_name entry)
                                 then let h = heap_push x (sr_heap s)
                                      in s\<lparr>sr_heap := (if length h > sj_max_results j then butlast h else h)\<rparr>
                                 else s
                         else s)
                in if sr_scanned s \<ge> sj_rank_scan j then (False, s\<lparr>sr_rank_capped := True\<rparr>) else (True, s))"

section \<open>The search\<close>

record search_stats =
  ss_total :: u64
  ss_by_hash :: u64
  ss_words_dropped :: u64
  ss_rank_capped :: u64

record search_cfg =
  sc_max_search_results :: u32
  sc_search_rank_scan :: u32
  sc_drop_unknown_words :: bool

text \<open>\<open>None\<close> at the outside is a panic of a chain walk; inside, not a search by hash.\<close>

definition search_by_hash ::
  "(file_hash \<Rightarrow> rstr \<Rightarrow> bool) \<Rightarrow> server_files \<Rightarrow> search_node \<Rightarrow> file_record list option option" where
  "search_by_hash hidden s tree =
     (case ed2k_file_search tree of
        None \<Rightarrow> Some None
      | Some (h, sz) \<Rightarrow>
          (case get_by_hash h (sv_slab s) of
             None \<Rightarrow> None
           | Some None \<Rightarrow> Some (Some [])
           | Some (Some r) \<Rightarrow>
               Some (Some (if fr_sources r \<noteq> [] \<and> (sz = 0 \<or> fr_size r = sz) \<and> \<not> hidden (fr_hash r) (record_name r)
                           then [r] else []))))"

definition star_words :: "rstr list" where
  "star_words = [lit ''*'', lit ''**'']"

definition search_tree_of :: "unicode \<Rightarrow> search_cfg \<Rightarrow> server_files \<Rightarrow> search_node \<Rightarrow> search_node \<times> rstr list" where
  "search_tree_of u cfg s tree =
     (if sc_drop_unknown_words cfg then drop_unknown_words u (contains_token (sv_index s)) tree else (tree, []))"

definition search_job_of :: "unicode \<Rightarrow> (rstr list list \<Rightarrow> u64) \<Rightarrow> search_cfg \<Rightarrow> server_files \<Rightarrow> search_node \<Rightarrow> search_job" where
  "search_job_of u query_seed cfg s tree =
     (let prepared = prepared_tree u (sl_codecs (sv_slab s)) tree; n = unat (sc_max_search_results cfg)
      in \<lparr>sj_prepared = prepared, sj_want_complete = uses_complete_sources prepared, sj_want_media = uses_media prepared,
          sj_seed = query_seed (candidate_groups u tree), sj_max_results = n,
          sj_rank_scan = max (unat (sc_search_rank_scan cfg)) n\<rparr>)"

definition has_keyword :: "unicode \<Rightarrow> search_node \<Rightarrow> bool" where
  "has_keyword u tree \<longleftrightarrow>
     filter (\<lambda>t. t \<notin> set star_words) (concat (map (tokenize_search_term u) (collect_terms tree))) \<noteq> []"

definition search_run_of ::
  "unicode \<Rightarrow> (file_hash \<Rightarrow> rstr \<Rightarrow> bool) \<Rightarrow> search_job \<Rightarrow> server_files \<Rightarrow> search_node \<Rightarrow> search_run" where
  "search_run_of u hidden j s tree =
     (if has_keyword u tree
      then let ids = find_grouped_capped (sv_index s) (candidate_groups u tree) (2 * sj_rank_scan j + 1)
           in visit_while (\<lambda>i st. case with_record_media i (sj_want_media j) (\<lambda>r m. consider_file u hidden j (i, r, m) st) (sv_slab s) of
                                    Some res \<Rightarrow> res | None \<Rightarrow> (True, st))
                ids (run_new\<lparr>sr_candidates := length ids\<rparr>)
      else for_each_live_while_media (sj_want_media j)
             (\<lambda>c st. if sr_candidates st \<ge> MAX_UNINDEXED_SCAN then (False, st\<lparr>sr_scan_capped := True\<rparr>)
                     else consider_file u hidden j c (st\<lparr>sr_candidates := sr_candidates st + 1\<rparr>))
             (sv_slab s) run_new)"

definition handle_search ::
  "unicode \<Rightarrow> (file_hash \<Rightarrow> rstr \<Rightarrow> bool) \<Rightarrow> (rstr list list \<Rightarrow> u64) \<Rightarrow> search_cfg \<Rightarrow> server_files \<Rightarrow> search_node \<Rightarrow>
     search_stats \<Rightarrow> (file_record list \<times> search_stats) option" where
  "handle_search u hidden query_seed cfg s request st =
     (let st = st\<lparr>ss_total := ss_total st + 1\<rparr>
      in case search_by_hash hidden s request of
           None \<Rightarrow> None
         | Some (Some found) \<Rightarrow> Some (found, st\<lparr>ss_by_hash := ss_by_hash st + 1\<rparr>)
         | Some None \<Rightarrow>
             (let (tree, dropped) = search_tree_of u cfg s request;
                  st = (if dropped \<noteq> [] then st\<lparr>ss_words_dropped := ss_words_dropped st + 1\<rparr> else st);
                  r = search_run_of u hidden (search_job_of u query_seed cfg s tree) s tree;
                  st = (if sr_rank_capped r then st\<lparr>ss_rank_capped := ss_rank_capped st + 1\<rparr> else st)
              in Some (map rk_rec (sr_heap r), st)))"

section \<open>The heap keeps the best\<close>

lemma outranks_trans: "outranks a b \<Longrightarrow> outranks b c \<Longrightarrow> outranks a c"
  by (auto simp: outranks_def)

text \<open>Not worse than: a total preorder.\<close>

abbreviation nowhere_below :: "ranked \<Rightarrow> ranked \<Rightarrow> bool" where
  "nowhere_below a b \<equiv> \<not> outranks b a"

lemma nowhere_below_trans: "nowhere_below a b \<Longrightarrow> nowhere_below b c \<Longrightarrow> nowhere_below a c"
  by (auto simp: outranks_def not_less)

lemma outranks_nowhere: "outranks a b \<Longrightarrow> nowhere_below a b"
  by (auto simp: outranks_def)

definition best_first :: "ranked list \<Rightarrow> bool" where
  "best_first l \<longleftrightarrow> sorted_wrt nowhere_below l"

lemma mset_push [simp]: "mset (heap_push x l) = add_mset x (mset l)"
  by (induction l) auto

lemma set_push [simp]: "set (heap_push x l) = insert x (set l)"
  by (induction l) auto

lemma length_push [simp]: "length (heap_push x l) = Suc (length l)"
  by (induction l) auto

lemma best_first_push: "best_first l \<Longrightarrow> best_first (heap_push x l)"
proof (induction l)
  case (Cons y ys)
  then have y: "\<forall>z\<in>set ys. nowhere_below y z" "best_first ys" by (simp_all add: best_first_def)
  show ?case
  proof (cases "outranks x y")
    case True
    then have "nowhere_below x z" if "z \<in> set ys" for z
      using nowhere_below_trans [OF outranks_nowhere [OF True]] y(1) that by blast
    then show ?thesis using True Cons.prems outranks_nowhere by (auto simp: best_first_def)
  next
    case False
    then show ?thesis using Cons.IH [OF y(2)] y(1) by (auto simp: best_first_def)
  qed
qed (simp add: best_first_def)

lemma take_push_take: "take n (heap_push x (take n l)) = take n (heap_push x l)"
proof (induction l arbitrary: n)
  case (Cons y ys)
  show ?case
  proof (cases n)
    case (Suc m)
    have "take m (y # take m ys) = take m (y # ys)" by (cases m) (simp_all add: min_def)
    then show ?thesis using Cons.IH [of m] by (simp add: Suc)
  qed simp
qed simp

lemma push_no_better:
  "\<forall>y\<in>set l. \<not> outranks x y \<Longrightarrow> heap_push x l = l @ [x]"
  by (induction l) auto

lemma take_push_worse:
  assumes "best_first l" "n \<le> length l" "n \<noteq> 0" "\<not> outranks x (last (take n l))"
  shows "take n (heap_push x l) = take n l"
proof -
  let ?t = "take n l"
  have ne: "?t \<noteq> []" using assms(2,3) by (cases l) auto
  have "best_first ?t" using assms(1) by (simp add: best_first_def sorted_wrt_take)
  then have "sorted_wrt nowhere_below (butlast ?t @ [last ?t])" using ne by (simp add: best_first_def)
  then have b: "nowhere_below y (last ?t)" if "y \<in> set (butlast ?t)" for y using that by (simp add: sorted_wrt_append)
  have st: "set ?t = insert (last ?t) (set (butlast ?t))"
    using arg_cong [OF append_butlast_last_id [OF ne], of set] by simp
  have "\<not> outranks x y" if "y \<in> set ?t" for y
  proof (cases "y = last ?t")
    case False
    then have "nowhere_below y (last ?t)" using that st b by blast
    then show ?thesis using nowhere_below_trans [where a = y and b = "last ?t" and c = x] assms(4) by blast
  qed (simp add: assms(4))
  then have "heap_push x ?t = ?t @ [x]" by (intro push_no_better) blast
  then have "take n (heap_push x ?t) = ?t" using assms(2) by simp
  then show ?thesis by (simp add: take_push_take)
qed

section \<open>What one candidate does\<close>

definition servable :: "unicode \<Rightarrow> (file_hash \<Rightarrow> rstr \<Rightarrow> bool) \<Rightarrow> search_job \<Rightarrow> file_id \<times> file_record \<times> media option \<Rightarrow> bool" where
  "servable u hidden j c \<longleftrightarrow>
     (case c of (i, r, media) \<Rightarrow>
        fr_sources r \<noteq> [] \<and> satisfies u j r media \<and> \<not> hidden (fr_hash r) (record_name r))"

definition rank_of :: "search_job \<Rightarrow> file_id \<times> file_record \<times> media option \<Rightarrow> ranked" where
  "rank_of j c = (case c of (i, r, media) \<Rightarrow> rank (sj_seed j) i r)"

definition keep_best :: "nat \<Rightarrow> bool \<Rightarrow> ranked \<Rightarrow> ranked list \<Rightarrow> ranked list" where
  "keep_best n ok x h =
     (if (if h \<noteq> [] \<and> length h \<ge> n then outranks x (last h) else True) \<and> ok
      then (let h' = heap_push x h in if length h' > n then butlast h' else h')
      else h)"

lemma keep_best_take:
  assumes "best_first l"
  shows "keep_best n ok x (take n l) = take n (if ok then heap_push x l else l)"
proof (cases "ok")
  case True
  let ?h = "take n l"
  show ?thesis
  proof (cases "?h \<noteq> [] \<and> length ?h \<ge> n \<and> \<not> outranks x (last ?h)")
    case no: True
    then have "n \<le> length l" "n \<noteq> 0" by auto
    then show ?thesis using take_push_worse [OF assms, of n x] no True by (simp add: keep_best_def)
  next
    case False
    let ?p = "heap_push x ?h"
    have k: "keep_best n ok x ?h = (if length ?p > n then butlast ?p else ?p)"
      using False True by (auto simp: keep_best_def Let_def)
    have "(if length ?p > n then butlast ?p else ?p) = take n ?p"
    proof (cases "length ?p > n")
      case True
      then have "length ?p = Suc n" by simp
      then show ?thesis by (simp add: butlast_conv_take)
    next
      case False
      then have "take n ?p = ?p" by (intro take_all) (simp only: not_less)
      then show ?thesis using False by presburger
    qed
    then show ?thesis unfolding k using True by (simp add: take_push_take)
  qed
qed (simp add: keep_best_def)

lemma consider_step:
  assumes "consider_file u hidden j c s = (go, s')"
  shows "sr_heap s' = keep_best (sj_max_results j) (servable u hidden j c) (rank_of j c) (sr_heap s) \<or>
         (\<not> servable u hidden j c \<and> sr_heap s' = sr_heap s)"
    and "sr_scanned s' = sr_scanned s + 1" "sr_candidates s' = sr_candidates s"
    and "go \<longleftrightarrow> fr_sources (fst (snd c)) = [] \<or> sr_scanned s + 1 < sj_rank_scan j"
  using assms
  by (auto simp: consider_file_def keep_best_def servable_def rank_of_def Let_def split: prod.splits if_splits)

lemma consider_heap:
  assumes "consider_file u hidden j c s = (go, s')" "best_first l" "sr_heap s = take (sj_max_results j) l"
  shows "sr_heap s' = take (sj_max_results j) (if servable u hidden j c then heap_push (rank_of j c) l else l)"
  using consider_step(1) [OF assms(1)] keep_best_take [OF assms(2), of "sj_max_results j" "servable u hidden j c" "rank_of j c"]
    assms(3) by (auto split: if_splits)

text \<open>The candidates that are looked at: the budget is tested after a candidate that has a source.\<close>

fun examined :: "nat \<Rightarrow> (file_id \<times> file_record \<times> media option) list \<Rightarrow> (file_id \<times> file_record \<times> media option) list" where
  "examined n [] = []"
| "examined n (c # cs) = c # (if fr_sources (fst (snd c)) \<noteq> [] \<and> n \<le> 1 then [] else examined (n - 1) cs)"

lemma examined_all: "length cs \<le> n \<Longrightarrow> examined n cs = cs"
proof (induction cs arbitrary: n)
  case (Cons c cs)
  then show ?case using Cons.IH [of "n - 1"] by (cases cs) auto
qed simp

definition push_all :: "search_job \<Rightarrow> (file_id \<times> file_record \<times> media option) list \<Rightarrow> ranked list \<Rightarrow> ranked list" where
  "push_all j cs l = fold (\<lambda>c. heap_push (rank_of j c)) cs l"

lemma push_all_simps [simp]:
  "push_all j [] l = l" "push_all j (c # cs) l = push_all j cs (heap_push (rank_of j c) l)"
  by (simp_all add: push_all_def)

lemma push_all_sorted: "best_first l \<Longrightarrow> best_first (push_all j cs l)"
  by (induction cs arbitrary: l) (simp_all add: best_first_push)

lemma push_all_mset: "mset (push_all j cs l) = mset (map (rank_of j) cs) + mset l"
  by (induction cs arbitrary: l) simp_all

lemma visit_consider:
  assumes "best_first l" "sr_heap s = take (sj_max_results j) l"
  shows "sr_heap (visit_while (consider_file u hidden j) cs s) =
    take (sj_max_results j) (push_all j (filter (servable u hidden j) (examined (sj_rank_scan j - sr_scanned s) cs)) l)"
  using assms
proof (induction cs arbitrary: s l)
  case (Cons c cs)
  obtain go s' where c: "consider_file u hidden j c s = (go, s')" by fastforce
  note st = consider_step(2,4) [OF c]
  define l' where "l' = (if servable u hidden j c then heap_push (rank_of j c) l else l)"
  have h': "sr_heap s' = take (sj_max_results j) l'" "best_first l'"
    using consider_heap [OF c Cons.prems] Cons.prems(1) by (auto simp: l'_def best_first_push)
  have cut: "(fr_sources (fst (snd c)) \<noteq> [] \<and> sj_rank_scan j - sr_scanned s \<le> 1) = (\<not> go)"
    using st(2) by auto
  show ?case
  proof (cases go)
    case True
    then show ?thesis using Cons.IH [OF h'(2,1)] c cut st(1) by (auto simp: l'_def)
  next
    case False
    then show ?thesis using h'(1) c cut by (auto simp: l'_def)
  qed
qed simp

lemma visit_capped:
  assumes "best_first l" "sr_heap s = take (sj_max_results j) l"
  shows "sr_heap (visit_while (\<lambda>c st. if sr_candidates st \<ge> M then (False, st\<lparr>sr_scan_capped := True\<rparr>)
             else consider_file u hidden j c (st\<lparr>sr_candidates := sr_candidates st + 1\<rparr>)) cs s) =
    take (sj_max_results j)
      (push_all j (filter (servable u hidden j) (examined (sj_rank_scan j - sr_scanned s) (take (M - sr_candidates s) cs))) l)"
  using assms
proof (induction cs arbitrary: s l)
  case (Cons c cs)
  show ?case
  proof (cases "sr_candidates s \<ge> M")
    case True
    then show ?thesis using Cons.prems by simp
  next
    case False
    then obtain m where m: "M - sr_candidates s = Suc m" "m = M - (sr_candidates s + 1)" by (metis Suc_diff_Suc add.commute not_le plus_1_eq_Suc)
    let ?s = "s\<lparr>sr_candidates := sr_candidates s + 1\<rparr>"
    obtain go s' where c: "consider_file u hidden j c ?s = (go, s')" by fastforce
    note st = consider_step(2-4) [OF c]
    define l' where "l' = (if servable u hidden j c then heap_push (rank_of j c) l else l)"
    have h': "sr_heap s' = take (sj_max_results j) l'" "best_first l'"
      using consider_heap [OF c Cons.prems(1)] Cons.prems by (auto simp: l'_def best_first_push)
    have cut: "(fr_sources (fst (snd c)) \<noteq> [] \<and> sj_rank_scan j - sr_scanned s \<le> 1) = (\<not> go)"
      using st(3) by auto
    show ?thesis
    proof (cases go)
      case True
      then show ?thesis using Cons.IH [OF h'(2,1)] c cut st False m by (auto simp: l'_def)
    next
      case no: False
      then show ?thesis using h'(1) c cut False m by (auto simp: l'_def)
    qed
  qed
qed simp

section \<open>The candidates\<close>

definition word_candidates ::
  "bool \<Rightarrow> file_slab \<Rightarrow> file_id list \<Rightarrow> (file_id \<times> file_record \<times> media option) list" where
  "word_candidates wanted sl ids = concat (map (\<lambda>i. case with_record_media i wanted (\<lambda>r m. (i, r, m)) sl of
     Some c \<Rightarrow> [c] | None \<Rightarrow> []) ids)"

definition live_candidates :: "bool \<Rightarrow> file_slab \<Rightarrow> (file_id \<times> file_record \<times> media option) list" where
  "live_candidates wanted sl =
     map (\<lambda>(s_no, i, r). (make_id (of_nat s_no) (of_nat i), r, if wanted then sh_media (sl_shards sl ! s_no) (of_nat i) else None))
       (filter (\<lambda>(s_no, i, r). record_alive r) (slab_slots sl))"

definition search_candidates :: "unicode \<Rightarrow> search_job \<Rightarrow> server_files \<Rightarrow> search_node \<Rightarrow> (file_id \<times> file_record \<times> media option) list" where
  "search_candidates u j s tree =
     (if has_keyword u tree
      then word_candidates (sj_want_media j) (sv_slab s)
             (find_grouped_capped (sv_index s) (candidate_groups u tree) (2 * sj_rank_scan j + 1))
      else take MAX_UNINDEXED_SCAN (live_candidates (sj_want_media j) (sv_slab s)))"

lemma visit_found:
  "visit_while (\<lambda>i st. case map_option (\<lambda>c. g c st) (C i) of Some res \<Rightarrow> res | None \<Rightarrow> (True, st)) ids s =
   visit_while g (concat (map (\<lambda>i. case C i of Some c \<Rightarrow> [c] | None \<Rightarrow> []) ids)) s"
  by (induction ids arbitrary: s) (auto split: option.split prod.split bool.split)

lemma visit_words:
  "visit_while (\<lambda>i st. case with_record_media i w (\<lambda>r m. g (i, r, m) st) sl of Some res \<Rightarrow> res | None \<Rightarrow> (True, st)) ids s =
   visit_while g (word_candidates w sl ids) s"
proof -
  have "with_record_media i w (\<lambda>r m. g (i, r, m) st) sl = map_option (\<lambda>c. g c st) (with_record_media i w (\<lambda>r m. (i, r, m)) sl)" for i st
    by (simp add: with_record_media_def option.map_comp comp_def)
  then show ?thesis unfolding word_candidates_def by (simp only: visit_found)
qed

lemma visit_live:
  "for_each_live_while_media w g sl s = visit_while g (live_candidates w sl) s"
proof -
  have "visit_while (\<lambda>(s_no, i, r) s. if record_alive r
         then g (make_id (of_nat s_no) (of_nat i), r, if w then sh_media (sl_shards sl ! s_no) (of_nat i) else None) s
         else (True, s)) xs s =
     visit_while g (map (\<lambda>(s_no, i, r). (make_id (of_nat s_no) (of_nat i), r, if w then sh_media (sl_shards sl ! s_no) (of_nat i) else None))
       (filter (\<lambda>(s_no, i, r). record_alive r) xs)) s" for xs
    by (induction xs arbitrary: s) (auto split: prod.split bool.split)
  then show ?thesis by (simp add: for_each_live_while_media_def live_candidates_def)
qed

lemma search_run_heap:
  "sr_heap (search_run_of u hidden j s tree) =
     take (sj_max_results j) (push_all j (filter (servable u hidden j) (examined (sj_rank_scan j) (search_candidates u j s tree))) [])"
proof -
  have b: "best_first []" by (simp add: best_first_def)
  show ?thesis
  proof (cases "has_keyword u tree")
    case True
    then show ?thesis
      using visit_consider [OF b, of "run_new\<lparr>sr_candidates := length (find_grouped_capped (sv_index s) (candidate_groups u tree) (2 * sj_rank_scan j + 1))\<rparr>" j]
      by (simp add: search_run_of_def visit_words search_candidates_def run_new_def Let_def)
  next
    case False
    then show ?thesis
      using visit_capped [OF b, of run_new j MAX_UNINDEXED_SCAN]
      by (simp add: search_run_of_def visit_live search_candidates_def run_new_def)
  qed
qed

text \<open>C5: a search that is not by hash answers with the best of what it examined: among the
  candidates within the scan budget that have a source, satisfy the whole tree and are not
  withheld by the content filter, the \<open>max_search_results\<close> best by source count and tie key,
  best first. The early rejection against the heap and the filter test that comes last lose
  nothing.\<close>

theorem search_returns_the_best:
  assumes "ed2k_file_search request = None" "tree = fst (search_tree_of u cfg s request)"
    and "j = search_job_of u query_seed cfg s tree"
  shows "\<exists>l st'. handle_search u hidden query_seed cfg s request st =
      Some (map rk_rec (take (unat (sc_max_search_results cfg)) l), st') \<and> best_first l \<and>
      mset l = mset (map (rank_of j)
        (filter (servable u hidden j) (examined (sj_rank_scan j) (search_candidates u j s tree))))"
proof -
  let ?l = "push_all j (filter (servable u hidden j) (examined (sj_rank_scan j) (search_candidates u j s tree))) []"
  have n: "sj_max_results j = unat (sc_max_search_results cfg)" by (simp add: assms(3) search_job_of_def Let_def)
  have "\<exists>st'. handle_search u hidden query_seed cfg s request st =
      Some (map rk_rec (sr_heap (search_run_of u hidden j s tree)), st')"
    using assms by (simp add: handle_search_def search_by_hash_def Let_def split: prod.split)
  moreover have "best_first ?l" by (rule push_all_sorted) (simp add: best_first_def)
  moreover have "mset ?l = mset (map (rank_of j)
        (filter (servable u hidden j) (examined (sj_rank_scan j) (search_candidates u j s tree))))"
    by (simp add: push_all_mset)
  ultimately show ?thesis unfolding search_run_heap n by blast
qed

theorem search_returns_the_best_witness:
  "\<exists>l st'. handle_search ascii_tables (\<lambda>_ _. False) (\<lambda>_. 7) \<lparr>sc_max_search_results = 200, sc_search_rank_scan = 20000, sc_drop_unknown_words = True\<rparr>
        (files_new False) (BoolNode And (Term (lit ''hd'')) (Term (lit ''tv'')))
        \<lparr>ss_total = 0, ss_by_hash = 0, ss_words_dropped = 0, ss_rank_capped = 0\<rparr> =
      Some (map rk_rec (take 200 l), st') \<and> best_first l"
  using search_returns_the_best [of "BoolNode And (Term (lit ''hd'')) (Term (lit ''tv''))" _ ascii_tables
      "\<lparr>sc_max_search_results = 200, sc_search_rank_scan = 20000, sc_drop_unknown_words = True\<rparr>" "files_new False", OF _ refl refl]
  by fastforce

end
