(* ===== verification/Search_Pages.thy ===== *)
theory Search_Pages
  imports Search_Handler Publishing Server_Clients Frame
begin

text \<open>
  The pages of a search result: \<open>build_search_result_page\<close> and \<open>push_media_tags\<close>
  (\<open>src/server/search.rs\<close>), and the two handlers that send them, \<open>OP_SEARCHREQUEST\<close> and
  \<open>OP_QUERY_MORE_RESULT\<close> (\<open>src/server/connection.rs\<close>), with what a connection keeps for later pages.

  A result has the layout of an offered record, so a page is read here with the parser of
  \<open>Publishing\<close>. \<open>None\<close> is a panic of a chain walk.
\<close>

section \<open>A page\<close>

definition FT_FILETYPE :: u8 where "FT_FILETYPE = 0x03"
definition FT_SOURCES :: u8 where "FT_SOURCES = 0x15"
definition FT_COMPLETE_SOURCES :: u8 where "FT_COMPLETE_SOURCES = 0x30"
definition OP_SEARCHRESULT :: u8 where "OP_SEARCHRESULT = 0x33"
definition SEARCH_PAGE_HARD_MAX :: nat where "SEARCH_PAGE_HARD_MAX = 2000"

definition push_media_tags :: "file_slab \<Rightarrow> file_hash \<Rightarrow> tag list \<Rightarrow> tag list option" where
  "push_media_tags sl h tags =
     (case media_of_hash h sl of
        None \<Rightarrow> None
      | Some None \<Rightarrow> Some tags
      | Some (Some m) \<Rightarrow>
          Some (tags
            @ (if media_bitrate m \<noteq> 0 then [tag_byte 0xD4 (tag_uint (media_bitrate m))] else [])
            @ (case codec_name (sl_codecs sl) (media_codec m) of Some c \<Rightarrow> [tag_byte 0xD5 (VString c)] | None \<Rightarrow> [])
            @ (if media_length m \<noteq> 0 then [tag_byte 0xD3 (tag_uint (media_length m))] else [])))"

definition record_tags :: "unicode \<Rightarrow> file_record \<Rightarrow> tag list" where
  "record_tags u r =
     (let size_lo = ucast (fr_size r); size_hi = ucast (drop_bit 32 (fr_size r));
          ftype = ed2k_file_type_id (u_str_lower u (record_name r))
      in [tag_byte FT_FILENAME (VString (record_name r)), tag_byte FT_FILESIZE (tag_uint size_lo)]
         @ (if size_hi > 0 then [tag_byte FT_FILESIZE_HI (tag_uint size_hi)] else [])
         @ [tag_byte FT_SOURCES (tag_uint (of_nat (length (fr_sources r)))),
            tag_byte FT_COMPLETE_SOURCES (tag_uint (complete_source_count r))]
         @ (if ftype \<noteq> 0 then [tag_byte FT_FILETYPE (tag_uint ftype)] else []))"

definition write_result :: "(bytes \<rightharpoonup> client) \<Rightarrow> file_record \<Rightarrow> tag list \<Rightarrow> bytes" where
  "write_result clients r tags =
     (let (cid, port) = search_result_source clients (fr_sources r)
      in fr_hash r @ to_le 4 (unat cid) @ to_le 2 (unat port) @ write_tag_list tags)"

fun write_results :: "unicode \<Rightarrow> file_slab \<Rightarrow> (bytes \<rightharpoonup> client) \<Rightarrow> file_record list \<Rightarrow> bytes option" where
  "write_results u sl clients [] = Some []"
| "write_results u sl clients (r # rs) =
     (case push_media_tags sl (fr_hash r) (record_tags u r) of
        None \<Rightarrow> None
      | Some tags \<Rightarrow> map_option (\<lambda>b. write_result clients r tags @ b) (write_results u sl clients rs))"

definition build_search_result_page ::
  "unicode \<Rightarrow> file_slab \<Rightarrow> (bytes \<rightharpoonup> client) \<Rightarrow> file_record list \<Rightarrow> bool \<Rightarrow> frame option" where
  "build_search_result_page u sl clients page has_more =
     map_option (\<lambda>b. \<lparr>fr_opcode = OP_SEARCHRESULT,
         fr_payload = to_le 4 (length page) @ b @ [if has_more then 1 else 0]\<rparr>)
       (write_results u sl clients page)"

definition search_page_size :: "u32 \<Rightarrow> nat" where
  "search_page_size max_search_results = max 1 (min (unat max_search_results) SEARCH_PAGE_HARD_MAX)"

section \<open>The two requests\<close>

text \<open>What a request sees: the tables and the configuration at its moment.\<close>

record page_env =
  pe_files :: server_files
  pe_clients :: "bytes \<rightharpoonup> client"
  pe_cfg :: search_cfg

definition empty_result :: frame where
  "empty_result = \<lparr>fr_opcode = OP_SEARCHRESULT, fr_payload = to_le 4 0 @ [0]\<rparr>"

text \<open>Cutting a page off what is left; the rest stays with the connection.\<close>

definition next_page :: "unicode \<Rightarrow> page_env \<Rightarrow> file_record list \<Rightarrow> (frame \<times> file_record list) option" where
  "next_page u e all =
     (let n = min (length all) (search_page_size (sc_max_search_results (pe_cfg e)));
          page = take n all; rest = drop n all
      in map_option (\<lambda>f. (f, rest))
           (build_search_result_page u (sv_slab (pe_files e)) (pe_clients e) page (rest \<noteq> [])))"

text \<open>\<open>permit\<close> is whether the search lane had room in time; a search that panics answers nothing.\<close>

definition on_searchrequest ::
  "unicode \<Rightarrow> (file_hash \<Rightarrow> rstr \<Rightarrow> bool) \<Rightarrow> (rstr list list \<Rightarrow> u64) \<Rightarrow> bool \<Rightarrow> page_env \<Rightarrow> page_env \<Rightarrow> bytes \<Rightarrow> search_stats \<Rightarrow>
     (frame \<times> file_record list \<times> search_stats) option" where
  "on_searchrequest u hidden query_seed permit e e' payload st =
     (case parse payload of
        Inl _ \<Rightarrow> Some (empty_result, [], st)
      | Inr request \<Rightarrow>
          (let (all, st) = (if \<not> permit then ([], st)
                 else case handle_search u hidden query_seed (pe_cfg e) (pe_files e) request st of
                        Some res \<Rightarrow> res
                      | None \<Rightarrow> ([], st\<lparr>ss_total := ss_total st + 1\<rparr>))
           in map_option (\<lambda>(f, rest). (f, rest, st)) (next_page u e' all)))"

definition on_query_more :: "unicode \<Rightarrow> page_env \<Rightarrow> file_record list \<Rightarrow> (frame \<times> file_record list) option" where
  "on_query_more u e pending =
     (if pending = [] then Some (empty_result, []) else next_page u e pending)"

fun query_more_run :: "unicode \<Rightarrow> page_env list \<Rightarrow> file_record list \<Rightarrow> (frame list \<times> file_record list) option" where
  "query_more_run u [] pending = Some ([], pending)"
| "query_more_run u (e # es) pending =
     (case on_query_more u e pending of
        None \<Rightarrow> None
      | Some (f, pending) \<Rightarrow> map_option (\<lambda>(fs, pending). (f # fs, pending)) (query_more_run u es pending))"

section \<open>Reading a page\<close>

text \<open>What a record must be to fit the wire: names fit a string tag, codec names were normalised.\<close>

definition result_ok :: "file_record \<Rightarrow> bool" where
  "result_ok r \<longleftrightarrow> length (fr_hash r) = 16 \<and> valid_str (record_name r) \<and> str_len (record_name r) < 65536"

definition codecs_plain :: "codec_table \<Rightarrow> bool" where
  "codecs_plain t \<longleftrightarrow> (\<forall>c\<in>set (ct_names t). is_ascii c \<and> length c \<le> CODEC_MAX_LEN)"

definition stored_media :: "file_slab \<Rightarrow> file_hash \<Rightarrow> media" where
  "stored_media sl h = (case media_of_hash h sl of Some (Some m) \<Rightarrow> m | _ \<Rightarrow> 0)"

lemma uint_read [simp]: "tag_as_u32 (tag_read (tag_byte n (tag_uint v))) = Some v"
proof -
  have "take_bit 8 (unat v) = unat v" if "v \<le> 0xFF"
    using that by (intro take_bit_nat_eq_self) (simp add: word_le_nat_alt)
  moreover have "take_bit 16 (unat v) = unat v" if "v \<le> 0xFFFF"
    using that by (intro take_bit_nat_eq_self) (simp add: word_le_nat_alt)
  ultimately have "v \<le> 0xFF \<Longrightarrow> ucast (ucast v :: u8) = v" "v \<le> 0xFFFF \<Longrightarrow> ucast (ucast v :: u16) = v"
    by (simp_all add: word_unat_eq_iff unsigned_ucast_eq unsigned_take_bit_eq)
  then show ?thesis by (auto simp: tag_as_u32_def tag_read_def tag_byte_def tag_uint_def)
qed

lemma uint_read_str [simp]: "tag_str_value (tag_read (tag_byte n (tag_uint v))) = None"
  by (simp add: tag_str_value_def tag_read_def tag_byte_def tag_uint_def)

lemma string_read [simp]:
  "tag_as_u32 (tag_read (tag_byte n (VString s))) = None"
  "tag_str_value (tag_read (tag_byte n (VString s))) = Some s"
  by (simp_all add: tag_as_u32_def tag_str_value_def tag_read_def tag_byte_def)

lemma byte_name [simp]: "tg_name (tag_read (tag_byte n v)) = Byte n"
  by (simp add: tag_read_def tag_byte_def)

lemma uint_ok [simp]: "tag_ok (tag_byte n (tag_uint v))"
  by (simp add: tag_ok_def tag_byte_def tag_uint_def)

lemma string_ok [simp]: "tag_ok (tag_byte n (VString s)) \<longleftrightarrow> valid_str s \<and> str_len s < 65536"
  by (simp add: tag_ok_def tag_byte_def)

lemma size_halves: "or (push_bit 32 (ucast (ucast (drop_bit 32 x) :: u32))) (ucast (ucast x :: u32)) = (x :: u64)"
  by (rule bit_word_eqI) (auto simp: bit_simps)

lemma high_half: "(0 :: u32) < ucast (drop_bit 32 (x :: u64)) \<longleftrightarrow> (ucast (drop_bit 32 x) :: u32) \<noteq> 0"
  by (simp add: word_gt_0)

text \<open>A normalised codec name is plain.\<close>

lemma normalised_plain:
  assumes "codec_normalise raw = Some c"
  shows "is_ascii c \<and> length c \<le> CODEC_MAX_LEN"
proof -
  have c: "c = take CODEC_MAX_LEN (map ascii_lower (trim raw))"
    and b: "list_all (\<lambda>b. 0x20 \<le> b \<and> b < 0x7F) (utf8 (trim raw))"
    using assms by (auto simp: codec_normalise_def Let_def split: if_splits)
  have low: "ch < 128" if "list_all (\<lambda>b. b < (0x7F :: u8)) (utf8_char ch)" for ch
  proof (rule ccontr)
    assume "\<not> ch < 128"
    moreover have "unat (of_nat (0x80 + ch mod 64) :: u8) = 0x80 + ch mod 64" by (simp add: unat_of_nat del: of_nat_add)
    ultimately show False using that
      by (auto simp: utf8_char_def word_less_nat_alt simp del: of_nat_add split: if_splits)
  qed
  have "is_ascii s" if "list_all (\<lambda>b. 0x20 \<le> b \<and> b < (0x7F :: u8)) (utf8 s)" for s
    using that by (induction s) (auto intro!: low simp: list_all_iff)
  then have "is_ascii (trim raw)" using b by blast
  then have "\<forall>x\<in>set c. x < 128"
    unfolding c is_ascii_def by (auto dest!: in_set_takeD simp: ascii_lower_def list_all_iff)
  then show ?thesis by (simp add: is_ascii_def list_all_iff c)
qed

lemma plain_codec_ok:
  assumes "codecs_plain t" "codec_name t i = Some c"
  shows "valid_str c" "str_len c < 65536"
proof -
  have "c \<in> set (ct_names t)" using assms(2) by (auto simp: codec_name_def split: if_splits)
  then have c: "is_ascii c" "length c \<le> 19" using assms(1) by (auto simp: codecs_plain_def CODEC_MAX_LEN_def)
  then show "valid_str c" by (auto simp: valid_str_def is_ascii_def list_all_iff scalar_def)
  show "str_len c < 65536" using c str_len_ascii [of c] by simp
qed

text \<open>The tags of one result, and what a reader makes of them.\<close>

definition media_part :: "file_slab \<Rightarrow> file_hash \<Rightarrow> tag list" where
  "media_part sl h = (case push_media_tags sl h [] of Some tags \<Rightarrow> tags | None \<Rightarrow> [])"

lemma media_part:
  assumes "media_of_hash h sl \<noteq> None"
  shows "push_media_tags sl h tags = Some (tags @ media_part sl h)"
  using assms by (auto simp: push_media_tags_def media_part_def split: option.splits)

definition result_tags :: "unicode \<Rightarrow> file_slab \<Rightarrow> file_record \<Rightarrow> tag list" where
  "result_tags u sl r = record_tags u r @ media_part sl (fr_hash r)"

lemma record_tags_ok:
  "result_ok r \<Longrightarrow> list_all tag_ok (record_tags u r) \<and> length (record_tags u r) \<le> 6"
  by (simp add: record_tags_def Let_def result_ok_def)

lemma media_part_ok:
  "codecs_plain (sl_codecs sl) \<Longrightarrow> list_all tag_ok (media_part sl h) \<and> length (media_part sl h) \<le> 3"
  by (auto simp: media_part_def push_media_tags_def plain_codec_ok split: option.split)

lemmas tag_bytes = FT_FILENAME_def FT_FILESIZE_def FT_FILESIZE_HI_def FT_SOURCES_def FT_COMPLETE_SOURCES_def FT_FILETYPE_def

lemma field_record_tags:
  "fold field_tag (map tag_read (record_tags u r)) ([], 0, 0) =
     (record_name r, ucast (fr_size r), ucast (drop_bit 32 (fr_size r)))"
  by (simp add: record_tags_def Let_def field_tag_def tag_bytes high_half)

lemma field_media_part: "fold field_tag (map tag_read (media_part sl h)) st = st"
  by (cases st) (simp add: media_part_def push_media_tags_def field_tag_def tag_bytes split: option.split)

lemma media_record_tags: "fold media_tag (map tag_read (record_tags u r)) m = m"
  by (simp add: record_tags_def Let_def media_tag_def media_id_def tag_bytes word_le_nat_alt)

definition media_shown :: "file_slab \<Rightarrow> file_hash \<Rightarrow> media_tags" where
  "media_shown sl h =
     (let m = stored_media sl h
      in \<lparr>mt_length = nonzero (Some (media_length m)), mt_bitrate = nonzero (Some (media_bitrate m)),
          mt_codec = Option.bind (codec_name (sl_codecs sl) (media_codec m)) codec_normalise, mt_artist_album_title = False\<rparr>)"

lemma empty_media: "media_length 0 = 0" "media_bitrate 0 = 0" "media_codec 0 = 0"
  by (simp_all add: media_length_def media_bitrate_def media_codec_def)

lemma media_media_part: "fold media_tag (map tag_read (media_part sl h)) media_none = media_shown sl h"
  by (auto simp: media_part_def push_media_tags_def media_shown_def stored_media_def media_tag_def media_id_def nonzero_def
      media_none_def empty_media codec_name_def [of _ 0] Let_def split: option.split)

definition shown :: "file_slab \<Rightarrow> (bytes \<rightharpoonup> client) \<Rightarrow> file_record \<Rightarrow> offered_file" where
  "shown sl clients r =
     (let (cid, port) = search_result_source clients (fr_sources r)
      in \<lparr>of_hash = fr_hash r, of_client_id = cid, of_port = port, of_filename = record_name r, of_size = fr_size r,
          of_media = media_shown sl (fr_hash r)\<rparr>)"

lemma result_read:
  "search_result_source clients (fr_sources r) = (cid, port) \<Longrightarrow>
     record_of_tags (fr_hash r) cid port (map tag_read (result_tags u sl r)) = shown sl clients r"
  by (simp add: record_of_tags_def result_tags_def field_record_tags field_media_part media_record_tags media_media_part
      shown_def size_halves)

section \<open>A page reads back\<close>

definition lookups_return :: "file_slab \<Rightarrow> file_record list \<Rightarrow> bool" where
  "lookups_return sl rs \<longleftrightarrow> (\<forall>r\<in>set rs. media_of_hash (fr_hash r) sl \<noteq> None)"

definition result_entry :: "unicode \<Rightarrow> file_slab \<Rightarrow> (bytes \<rightharpoonup> client) \<Rightarrow> file_record \<Rightarrow> offer_entry" where
  "result_entry u sl clients r =
     (fr_hash r, fst (search_result_source clients (fr_sources r)), snd (search_result_source clients (fr_sources r)),
      result_tags u sl r)"

lemma write_results_entries:
  assumes "lookups_return sl rs"
  shows "write_results u sl clients rs = Some (concat (map (\<lambda>r. write_offer (result_entry u sl clients r)) rs))"
  using assms
proof (induction rs)
  case (Cons r rs)
  then have "push_media_tags sl (fr_hash r) (record_tags u r) = Some (result_tags u sl r)"
    by (simp add: lookups_return_def media_part result_tags_def)
  then show ?case using Cons
    by (simp add: write_result_def write_offer_def result_entry_def lookups_return_def split: prod.split)
qed simp

lemma page_bytes:
  assumes "lookups_return sl page"
  obtains f where "build_search_result_page u sl clients page hm = Some f" "fr_opcode f = OP_SEARCHRESULT"
    "fr_payload f = write_offerfiles (map (result_entry u sl clients) page) @ [if hm then 1 else 0]"
  by (rule that [of "\<lparr>fr_opcode = OP_SEARCHRESULT,
      fr_payload = write_offerfiles (map (result_entry u sl clients) page) @ [if hm then 1 else 0]\<rparr>"])
    (simp_all add: build_search_result_page_def write_results_entries [OF assms] write_offerfiles_def comp_def)

lemma result_entry_ok:
  "result_ok r \<Longrightarrow> codecs_plain (sl_codecs sl) \<Longrightarrow> offer_entry_ok (result_entry u sl clients r)"
  using record_tags_ok [of r u] media_part_ok [of sl "fr_hash r"]
  by (simp add: offer_entry_ok_def result_entry_def result_tags_def result_ok_def)

lemma page_read:
  assumes "lookups_return sl page" "codecs_plain (sl_codecs sl)" "list_all result_ok page" "length page \<le> 100000"
  obtains f where "build_search_result_page u sl clients page hm = Some f" "fr_opcode f = OP_SEARCHRESULT"
    "parse_offerfiles (fr_payload f) = Inr (map (shown sl clients) page)" "last (fr_payload f) = (if hm then 1 else 0)"
proof -
  obtain f where f: "build_search_result_page u sl clients page hm = Some f" "fr_opcode f = OP_SEARCHRESULT"
    "fr_payload f = write_offerfiles (map (result_entry u sl clients) page) @ [if hm then 1 else 0]"
    by (rule page_bytes [OF assms(1)])
  have "list_all offer_entry_ok (map (result_entry u sl clients) page)"
    using assms(2,3) result_entry_ok by (auto simp: list_all_iff)
  moreover have "(\<lambda>(h, client_id, port, tags). record_of_tags h client_id port (map tag_read tags)) (result_entry u sl clients r) =
      shown sl clients r" for r
    by (simp add: result_entry_def result_read)
  ultimately have "parse_offerfiles (fr_payload f) = Inr (map (shown sl clients) page)"
    using offers_read [of "map (result_entry u sl clients) page" "[if hm then 1 else 0]"] assms(4) f(3) by (simp add: comp_def)
  then show ?thesis using that f by simp
qed

section \<open>Paging\<close>

definition page_env_ok :: "unicode \<Rightarrow> page_env \<Rightarrow> bool" where
  "page_env_ok u e \<longleftrightarrow> tables_ok u (pe_files e) \<and> codecs_plain (sl_codecs (sv_slab (pe_files e)))"

lemma tables_lookups: "tables_ok u s \<Longrightarrow> lookups_return (sv_slab s) rs"
proof -
  assume "tables_ok u s"
  then have ok: "slab_ok (sv_slab s)" by (simp add: tables_ok_def index_matches_def)
  have "media_of_hash h (sv_slab s) \<noteq> None" for h
    using ok by (cases rule: find_cases [of _ h]) (auto simp: media_of_hash_def Let_def)
  then show ?thesis by (simp add: lookups_return_def)
qed

text \<open>The file hashes a client reads in a frame.\<close>

definition page_hashes :: "frame \<Rightarrow> file_hash list" where
  "page_hashes f = (case parse_offerfiles (fr_payload f) of Inl _ \<Rightarrow> [] | Inr os \<Rightarrow> map of_hash os)"

definition says_more :: "frame \<Rightarrow> bool" where
  "says_more f \<longleftrightarrow> last (fr_payload f) = 1"

lemma shown_hash [simp]: "of_hash (shown sl clients r) = fr_hash r"
  by (simp add: shown_def split: prod.split)

lemma next_page_ok:
  assumes "page_env_ok u e" "list_all result_ok rs"
  obtains f k where "next_page u e rs = Some (f, drop k rs)" "rs \<noteq> [] \<longrightarrow> 1 \<le> k"
    "page_hashes f = map fr_hash (take k rs)" "says_more f \<longleftrightarrow> drop k rs \<noteq> []"
proof -
  let ?k = "min (length rs) (search_page_size (sc_max_search_results (pe_cfg e)))"
  let ?sl = "sv_slab (pe_files e)"
  have "length (take ?k rs) \<le> 100000" by (auto simp: search_page_size_def SEARCH_PAGE_HARD_MAX_def)
  moreover have "list_all result_ok (take ?k rs)" using assms(2) by (auto simp: list_all_iff dest: in_set_takeD)
  moreover have "codecs_plain (sl_codecs ?sl)" "lookups_return ?sl (take ?k rs)"
    using assms(1) tables_lookups [of u "pe_files e"] by (auto simp: page_env_ok_def)
  ultimately obtain f where f: "build_search_result_page u ?sl (pe_clients e) (take ?k rs) (drop ?k rs \<noteq> []) = Some f"
    "parse_offerfiles (fr_payload f) = Inr (map (shown ?sl (pe_clients e)) (take ?k rs))"
    "last (fr_payload f) = (if drop ?k rs \<noteq> [] then 1 else 0)"
    using page_read [of ?sl "take ?k rs" u "pe_clients e" "drop ?k rs \<noteq> []"] by blast
  have "next_page u e rs = Some (f, drop ?k rs)" using f(1) by (simp add: next_page_def Let_def)
  moreover have "rs \<noteq> [] \<longrightarrow> 1 \<le> ?k" by (auto simp: search_page_size_def Suc_le_eq)
  moreover have "page_hashes f = map fr_hash (take ?k rs)" by (simp add: page_hashes_def f(2))
  moreover have "says_more f \<longleftrightarrow> drop ?k rs \<noteq> []" using f(3) by (simp add: says_more_def)
  ultimately show ?thesis by (rule that)
qed

lemma empty_page: "page_hashes empty_result = []" "\<not> says_more empty_result"
proof -
  have "parse_offerfiles (to_le 4 0 @ [0]) = Inr []"
    using offers_read [of "[]" "[0]"] by (simp add: write_offerfiles_def)
  then show "page_hashes empty_result = []" by (simp add: page_hashes_def empty_result_def)
qed (simp add: says_more_def empty_result_def)

lemma query_more_ok:
  assumes "page_env_ok u e" "list_all result_ok rs"
  obtains f k where "on_query_more u e rs = Some (f, drop k rs)" "rs \<noteq> [] \<longrightarrow> 1 \<le> k"
    "page_hashes f = map fr_hash (take k rs)" "says_more f \<longleftrightarrow> drop k rs \<noteq> []"
proof (cases "rs = []")
  case True
  then show ?thesis using that [of empty_result 0] by (simp add: on_query_more_def empty_page)
next
  case False
  then show ?thesis using next_page_ok [OF assms] that by (metis on_query_more_def)
qed

lemma query_more_run_ok:
  assumes "list_all (page_env_ok u) es" "list_all result_ok rs"
  shows "\<exists>fs k. query_more_run u es rs = Some (fs, drop k rs) \<and> concat (map page_hashes fs) = map fr_hash (take k rs) \<and>
    (length rs \<le> length es \<longrightarrow> drop k rs = []) \<and> (es \<noteq> [] \<longrightarrow> fs \<noteq> [] \<and> (says_more (last fs) \<longleftrightarrow> drop k rs \<noteq> []))
    \<and> (es = [] \<longrightarrow> fs = [] \<and> k = 0)"
  using assms
proof (induction es arbitrary: rs)
  case (Cons e es)
  obtain f k where f: "on_query_more u e rs = Some (f, drop k rs)" "rs \<noteq> [] \<longrightarrow> 1 \<le> k"
    "page_hashes f = map fr_hash (take k rs)" "says_more f \<longleftrightarrow> drop k rs \<noteq> []"
    using query_more_ok [of u e rs] Cons.prems by (metis list.pred_inject(2))
  have "list_all result_ok (drop k rs)" using Cons.prems(2) by (auto simp: list_all_iff dest: in_set_dropD)
  then obtain fs k' where r: "query_more_run u es (drop k rs) = Some (fs, drop k' (drop k rs))"
    "concat (map page_hashes fs) = map fr_hash (take k' (drop k rs))"
    "length (drop k rs) \<le> length es \<longrightarrow> drop k' (drop k rs) = []"
    "es \<noteq> [] \<longrightarrow> fs \<noteq> [] \<and> (says_more (last fs) \<longleftrightarrow> drop k' (drop k rs) \<noteq> [])" "es = [] \<longrightarrow> fs = [] \<and> k' = 0"
    using Cons.IH [of "drop k rs"] Cons.prems(1) by auto
  have split: "take k rs @ take k' (drop k rs) = take (k + k') rs" by (simp add: take_add)
  have more: "says_more (last (f # fs)) \<longleftrightarrow> drop (k + k') rs \<noteq> []"
    using f(4) r(4,5) by (cases "es = []") (simp_all add: add.commute)
  have all: "length rs \<le> length (e # es) \<longrightarrow> drop (k + k') rs = []"
    using f(2) r(3) by (cases "rs = []") (auto simp: add.commute)
  have "query_more_run u (e # es) rs = Some (f # fs, drop (k + k') rs)" using f(1) r(1) by (simp add: add.commute)
  moreover have "concat (map page_hashes (f # fs)) = map fr_hash (take (k + k') rs)"
    using f(3) r(2) by (simp flip: split)
  ultimately show ?case using more all by blast
qed simp

text \<open>C10: a client that asks for more until it is told there is no more has read every result once, in
  order: the page of the search and the pages of the later requests are the results cut in
  pieces, whatever the tables and the configuration become in between. The last byte of a page
  says whether anything is left, and as many requests as results are always enough.\<close>

theorem pages_deliver_the_results:
  assumes "parse payload = Inr request"
    and "handle_search u hidden query_seed (pe_cfg e) (pe_files e) request st = Some (found, st')"
    and "list_all result_ok found" and "list_all (page_env_ok u) (e' # es)"
  shows "\<exists>f rest fs pending. on_searchrequest u hidden query_seed True e e' payload st = Some (f, rest, st') \<and>
    query_more_run u es rest = Some (fs, pending) \<and>
    concat (map page_hashes (f # fs)) @ map fr_hash pending = map fr_hash found \<and>
    (says_more (last (f # fs)) \<longleftrightarrow> pending \<noteq> []) \<and> (length found \<le> length es \<longrightarrow> pending = [])"
proof -
  have "page_env_ok u e'" "list_all (page_env_ok u) es" using assms(4) by simp_all
  then obtain f k where f: "next_page u e' found = Some (f, drop k found)"
    "page_hashes f = map fr_hash (take k found)" "says_more f \<longleftrightarrow> drop k found \<noteq> []"
    using next_page_ok [OF _ assms(3)] by metis
  have "list_all result_ok (drop k found)" using assms(3) by (auto simp: list_all_iff dest: in_set_dropD)
  then obtain fs k' where r: "query_more_run u es (drop k found) = Some (fs, drop k' (drop k found))"
    "concat (map page_hashes fs) = map fr_hash (take k' (drop k found))"
    "length (drop k found) \<le> length es \<longrightarrow> drop k' (drop k found) = []"
    "es \<noteq> [] \<longrightarrow> fs \<noteq> [] \<and> (says_more (last fs) \<longleftrightarrow> drop k' (drop k found) \<noteq> [])" "es = [] \<longrightarrow> fs = [] \<and> k' = 0"
    using query_more_run_ok [OF \<open>list_all (page_env_ok u) es\<close>, of "drop k found"] by auto
  have "on_searchrequest u hidden query_seed True e e' payload st = Some (f, drop k found, st')"
    using assms(1,2) f(1) by (simp add: on_searchrequest_def)
  moreover have "concat (map page_hashes (f # fs)) @ map fr_hash (drop k' (drop k found)) = map fr_hash found"
    using f(2) r(2) by (metis append.assoc append_take_drop_id concat.simps(2) list.simps(9) map_append)
  moreover have "says_more (last (f # fs)) \<longleftrightarrow> drop k' (drop k found) \<noteq> []"
    using f(3) r(4,5) by (cases "es = []") simp_all
  moreover have "length found \<le> length es \<longrightarrow> drop k' (drop k found) = []" using r(3) by auto
  ultimately show ?thesis using r(1) by blast
qed

lemma get_by_hash_known:
  assumes "slab_ok sl" "slab_map sl i = Some r" "fr_hash r = h"
  shows "get_by_hash h sl = Some (Some r)"
  using assms(1)
proof (cases rule: find_cases [of _ h])
  case unknown
  then show ?thesis using assms(2,3) by (auto simp: File_Spec.unknown_def File_Spec.holds_def)
next
  case (known j q idx)
  then have "q = r" using assms(2,3) holds_unique [OF assms(1) known(4), of i r] by (auto simp: File_Spec.holds_def)
  then show ?thesis using known by (simp add: get_by_hash_def)
qed

abbreviation hash_query :: search_node where
  "hash_query \<equiv> Term (lit ''ed2k::'' @ hex_str (replicate 16 0xAB))"

lemma hex_str_plain: "is_ascii (hex_str h)" "length (hex_str h) = 2 * length h"
proof -
  have "hex_digit n < 128" if "n < 16" for n using that by (simp add: hex_digit_def)
  moreover have "unat (b :: u8) div 16 < 16" for b using unsigned_less [of b, where ?'a = nat] by simp
  ultimately show "is_ascii (hex_str h)" by (induction h) (simp_all add: hex_str_def)
  show "length (hex_str h) = 2 * length h" by (induction h) (simp_all add: hex_str_def)
qed

lemma hash_query: "ed2k_file_search hash_query = Some (replicate 16 0xAB, 0)" "parse (print_node hash_query) = Inr hash_query"
proof -
  show "ed2k_file_search hash_query = Some (replicate 16 0xAB, 0)"
    using file_ref_round_trip [of "replicate 16 0xAB" "lit ''x''" 7 "[]"] by (simp add: ref_end_def) (simp add: lit_def is_bar_def)
  have "is_ascii (lit ''ed2k::'' @ hex_str (replicate 16 0xAB))"
    by (simp add: hex_str_plain) (simp add: lit_def)
  then have "short_str (lit ''ed2k::'' @ hex_str (replicate 16 0xAB))"
    using str_len_ascii [of "lit ''ed2k::'' @ hex_str (replicate 16 0xAB)"]
    by (auto simp: short_str_def valid_str_def is_ascii_def list_all_iff scalar_def hex_str_plain lit_def)
  then show "parse (print_node hash_query) = Inr hash_query"
    using parse_print_node [of hash_query 0 "[]"] by (simp add: parse_def)
qed

definition some_cfg :: search_cfg where
  "some_cfg = \<lparr>sc_max_search_results = 200, sc_search_rank_scan = 20000, sc_drop_unknown_words = True\<rparr>"

definition zero_stats :: search_stats where
  "zero_stats = \<lparr>ss_total = 0, ss_by_hash = 0, ss_words_dropped = 0, ss_rank_capped = 0\<rparr>"

theorem pages_deliver_the_results_witness:
  "\<exists>s f rest st' fs.
    on_searchrequest ascii_tables (\<lambda>_ _. False) (\<lambda>_. 0) True \<lparr>pe_files = s, pe_clients = Map.empty, pe_cfg = some_cfg\<rparr>
      \<lparr>pe_files = files_new False, pe_clients = Map.empty, pe_cfg = some_cfg\<rparr> (print_node hash_query) zero_stats = Some (f, rest, st') \<and>
    query_more_run ascii_tables [\<lparr>pe_files = files_new False, pe_clients = Map.empty, pe_cfg = some_cfg\<rparr>] rest = Some (fs, []) \<and>
    concat (map page_hashes (f # fs)) = [replicate 16 0xAB]"
proof -
  let ?h = "replicate 16 (0xAB :: 8 word)" and ?new = "\<lparr>pe_files = files_new False, pe_clients = Map.empty, pe_cfg = some_cfg\<rparr>"
  let ?r = "record_new ?h 700 (lit ''hd'') [source_new (replicate 16 1) (V4 0x01020304) 4662 True]"
  have n: "tables_ok ascii_tables (files_new False)" "slots_left 2 (sv_slab (files_new False))" "unknown (slab_of (files_new False)) ?h"
    using files_new_ok [of ascii_tables False] slab_new_ok
    by (auto simp: files_new_def File_Spec.unknown_def File_Spec.holds_def slots_left_def)
  obtain i s where s: "slab_of s = (slab_of (files_new False))(i \<mapsto> ?r)" "tables_ok ascii_tables s"
    using publish_fresh [OF n refl, of "\<lambda>_. None" 700 "lit ''hd''" "replicate 16 1" "V4 0x01020304" 4662 True 0] by metis
  have "get_by_hash ?h (sv_slab s) = Some (Some ?r)"
  proof (rule get_by_hash_known)
    show "slab_ok (sv_slab s)" using s(2) by (simp add: tables_ok_def index_matches_def)
    show "slab_of s i = Some ?r" using fun_cong [OF s(1), of i] by simp
  qed (simp add: record_new_def)
  then have "handle_search ascii_tables (\<lambda>_ _. False) (\<lambda>_. 0) some_cfg s hash_query zero_stats = Some ([?r], zero_stats\<lparr>ss_total := 1, ss_by_hash := 1\<rparr>)"
    using hash_query(1) by (simp add: handle_search_def search_by_hash_def record_new_def zero_stats_def)
  moreover have "list_all result_ok [?r]"
    by (simp add: result_ok_def record_new_def record_name_def valid_str_def lit_def scalar_def)
  moreover have "list_all (page_env_ok ascii_tables) [?new, ?new]"
    using n(1) by (simp add: page_env_ok_def files_new_def codecs_plain_def slab_new_def codec_new_def)
  ultimately obtain f rest fs pending where "on_searchrequest ascii_tables (\<lambda>_ _. False) (\<lambda>_. 0) True
      \<lparr>pe_files = s, pe_clients = Map.empty, pe_cfg = some_cfg\<rparr> ?new (print_node hash_query) zero_stats =
        Some (f, rest, zero_stats\<lparr>ss_total := 1, ss_by_hash := 1\<rparr>)"
    "query_more_run ascii_tables [?new] rest = Some (fs, pending)"
    "concat (map page_hashes (f # fs)) @ map fr_hash pending = map fr_hash [?r]" "length [?r] \<le> length [?new] \<longrightarrow> pending = []"
    using pages_deliver_the_results [OF hash_query(2), of ascii_tables "\<lambda>_ _. False" "\<lambda>_. 0"
        "\<lparr>pe_files = s, pe_clients = Map.empty, pe_cfg = some_cfg\<rparr>" zero_stats "[?r]" "zero_stats\<lparr>ss_total := 1, ss_by_hash := 1\<rparr>" ?new "[?new]"]
    by (smt (verit) page_env.simps)
  moreover have "fr_hash ?r = ?h" by (simp add: record_new_def)
  ultimately show ?thesis by auto
qed

end
