(* ===== verification/Offer_Pacing.thy ===== *)
theory Offer_Pacing
  imports Publishing Frame
begin

text \<open>
  OFFERFILES v1 (\<open>src/server/offer_pacing.rs\<close>): the policy a session is told and held to, the bucket
  of file records written as one time stamp, the server-wide ceiling, and the handler of
  \<open>OP_OFFERFILES\<close> (\<open>src/server/connection.rs\<close>) from the packet to \<open>Publishing\<close>.

  Times and durations are in nanoseconds. The lock of the ceiling makes a reservation atomic and
  is held through the wait, so each acquisition is read at the moment it gets the lock.
\<close>

section \<open>The policy\<close>

definition OFFERFILES_VERSION :: u32 where "OFFERFILES_VERSION = 1"
definition TAG_VERSION :: rstr where "TAG_VERSION = lit ''offerfiles_v''"
definition TAG_BATCH_MAX :: rstr where "TAG_BATCH_MAX = lit ''offerfiles_batch_max''"
definition TAG_MIN_INTERVAL_MS :: rstr where "TAG_MIN_INTERVAL_MS = lit ''offerfiles_min_interval_ms''"

record offer_policy =
  op_soft :: u32
  op_hard :: u32
  op_batch_max :: u32
  op_min_interval_ms :: u32

record limits_config =
  lc_offerfiles_v1 :: bool
  lc_soft_limit_files :: u32
  lc_hard_limit_files :: u32
  lc_batch_max :: u32
  lc_min_interval_ms :: u32
  lc_global_records_per_sec :: u32

datatype policy_error = Soft_Zero | Batch_Zero | Interval_Zero | Hard_Not_Above u32 u32

definition from_limits :: "limits_config \<Rightarrow> policy_error + offer_policy option" where
  "from_limits l =
     (if \<not> lc_offerfiles_v1 l then Inr None
      else let p = \<lparr>op_soft = lc_soft_limit_files l, op_hard = lc_hard_limit_files l, op_batch_max = lc_batch_max l,
                    op_min_interval_ms = lc_min_interval_ms l\<rparr>
           in if op_soft p = 0 then Inl Soft_Zero
              else if op_batch_max p = 0 then Inl Batch_Zero
              else if op_min_interval_ms p = 0 then Inl Interval_Zero
              else if op_hard p \<le> op_batch_max p then Inl (Hard_Not_Above (op_hard p) (op_batch_max p))
              else Inr (Some p))"

definition policy_tags :: "offer_policy \<Rightarrow> tag list" where
  "policy_tags p =
     (let t = (\<lambda>n v. \<lparr>tg_name = Str n, tg_value = VU32 v\<rparr>)
      in [t TAG_VERSION OFFERFILES_VERSION, t TAG_BATCH_MAX (op_batch_max p), t TAG_MIN_INTERVAL_MS (op_min_interval_ms p)])"

definition client_requests_v1 :: "tag list \<Rightarrow> bool" where
  "client_requests_v1 tags \<longleftrightarrow>
     list_ex (\<lambda>t. (case tg_name t of Str n \<Rightarrow> n = TAG_VERSION | Byte _ \<Rightarrow> False) \<and>
                  (case tg_value t of VU32 v \<Rightarrow> v \<ge> OFFERFILES_VERSION | _ \<Rightarrow> False)) tags"

definition policy_for_login :: "limits_config \<Rightarrow> offer_policy option" where
  "policy_for_login l = (case from_limits l of Inr p \<Rightarrow> p | Inl _ \<Rightarrow> None)"

section \<open>The bucket\<close>

record gcra =
  gc_rate :: u32
  gc_per :: nat
  gc_tat :: "nat option"

definition gcra_new :: "u32 \<Rightarrow> nat \<Rightarrow> gcra" where
  "gcra_new n per = \<lparr>gc_rate = max n 1, gc_per = per, gc_tat = None\<rparr>"

definition COST_CAP_NS :: nat where
  "COST_CAP_NS = 10 * 365 * 86400 * 1000000000"

definition gcra_cost :: "u32 \<Rightarrow> gcra \<Rightarrow> nat" where
  "gcra_cost n g = min (gc_per g * unat n div unat (gc_rate g)) COST_CAP_NS"

definition gcra_start :: "nat \<Rightarrow> gcra \<Rightarrow> nat" where
  "gcra_start now g = (case gc_tat g of Some t \<Rightarrow> if t > now then t else now | None \<Rightarrow> now)"

definition gcra_reserve :: "u32 \<Rightarrow> nat \<Rightarrow> gcra \<Rightarrow> nat \<times> gcra" where
  "gcra_reserve n now g =
     (let tat = gcra_start now g + gcra_cost n g
      in (if tat \<ge> gc_per g \<and> tat - gc_per g > now then tat - gc_per g - now else 0, g\<lparr>gc_tat := Some tat\<rparr>))"

definition policy_bucket :: "offer_policy \<Rightarrow> gcra" where
  "policy_bucket p = gcra_new (op_batch_max p) (unat (op_min_interval_ms p) * 1000000)"

definition pacer_acquire :: "u32 \<Rightarrow> u32 \<Rightarrow> nat \<Rightarrow> gcra option \<Rightarrow> nat \<times> gcra option" where
  "pacer_acquire n records_per_sec now b =
     (if records_per_sec = 0 \<or> n = 0 then (0, b)
      else let per = 1000000000;
               g = (case b of Some g \<Rightarrow> if gc_rate g = records_per_sec \<and> gc_per g = per then g else gcra_new records_per_sec per
                    | None \<Rightarrow> gcra_new records_per_sec per);
               (w, g) = gcra_reserve n now g
           in (w, Some g))"

section \<open>The request\<close>

record v1_stats =
  vs_batches :: u64
  vs_records :: u64
  vs_conn_waits :: u64
  vs_conn_wait_ms :: u64
  vs_global_waits :: u64
  vs_global_wait_ms :: u64
  vs_global_wait_max_ms :: u64
  vs_oversized :: u64

definition note_conn_wait :: "nat \<Rightarrow> v1_stats \<Rightarrow> v1_stats" where
  "note_conn_wait d s =
     (if d \<noteq> 0 then s\<lparr>vs_conn_waits := vs_conn_waits s + 1, vs_conn_wait_ms := vs_conn_wait_ms s + of_nat (d div 1000000)\<rparr>
      else s)"

definition note_global_wait :: "nat \<Rightarrow> v1_stats \<Rightarrow> v1_stats" where
  "note_global_wait d s =
     (if d \<ge> 1000000
      then let ms = of_nat (d div 1000000)
           in s\<lparr>vs_global_waits := vs_global_waits s + 1, vs_global_wait_ms := vs_global_wait_ms s + ms,
                vs_global_wait_max_ms := max (vs_global_wait_max_ms s) ms\<rparr>
      else s)"

text \<open>What a packet meets on its way: \<open>pe_arrived\<close> is when it is read, \<open>pe_queued\<close> how long it stands
  behind other publishers for the lock, \<open>pe_current\<close> whether the session is still the current one
  after the waits, the limits as they are at the check and at the ceiling.\<close>

record packet_env =
  pk_arrived :: nat
  pk_queued :: nat
  pk_current :: bool
  pk_hard_limit_files :: u32
  pk_ceiling :: u32

record offer_session =
  os_policy :: "offer_policy option"
  os_bucket :: "gcra option"

record pacing =
  pa_pacer :: "gcra option"
  pa_stats :: v1_stats
  pa_over_hard :: u64

datatype offer_outcome =
    Refused
  | Not_Indexed
  | Session_Replaced
  | Malformed offer_error
  | Indexed nat "offered_file list"

text \<open>The records of a v1 batch are booked first with the connection, then, when that wait is over,
  with the server. \<open>Indexed\<close> carries the wait in all.\<close>

definition pace_packet ::
  "packet_env \<Rightarrow> bytes \<Rightarrow> offer_session \<Rightarrow> pacing \<Rightarrow> offer_outcome \<times> offer_session \<times> pacing" where
  "pace_packet e payload c s =
     (let hard = (case os_policy c of Some p \<Rightarrow> op_hard p | None \<Rightarrow> pk_hard_limit_files e);
          declared = declared_count payload;
          index = (\<lambda>wait. case parse_offerfiles payload of Inl err \<Rightarrow> Malformed err | Inr files \<Rightarrow> Indexed wait files)
      in if (case declared of Some n \<Rightarrow> over_hard_limit n hard | None \<Rightarrow> False)
         then (Refused, c, s\<lparr>pa_over_hard := pa_over_hard s + 1\<rparr>)
         else case (os_policy c, os_bucket c) of
           (Some p, Some bucket) \<Rightarrow>
             (let n = (case declared of Some n \<Rightarrow> n | None \<Rightarrow> 0); st = pa_stats s
              in if n > op_batch_max p
                 then (Not_Indexed, c, s\<lparr>pa_stats := st\<lparr>vs_oversized := vs_oversized st + 1\<rparr>\<rparr>)
                 else if n > 0
                 then let (w, bucket) = gcra_reserve n (pk_arrived e) bucket;
                          c = c\<lparr>os_bucket := Some bucket\<rparr>;
                          st = note_conn_wait w st;
                          (w', pacer) = pacer_acquire n (pk_ceiling e) (pk_arrived e + w + pk_queued e) (pa_pacer s);
                          waited = (if pk_ceiling e = 0 then 0 else pk_queued e + w');
                          st = note_global_wait waited st;
                          s = s\<lparr>pa_pacer := pacer\<rparr>
                      in if \<not> pk_current e then (Session_Replaced, c, s\<lparr>pa_stats := st\<rparr>)
                         else (index (w + waited), c,
                               s\<lparr>pa_stats := st\<lparr>vs_batches := vs_batches st + 1, vs_records := vs_records st + ucast n\<rparr>\<rparr>)
                 else (index 0, c, s))
         | _ \<Rightarrow> (index 0, c, s))"

definition OP_SERVERMESSAGE :: u8 where "OP_SERVERMESSAGE = 0x38"

definition soft_limit_message :: "u32 \<Rightarrow> rstr" where
  "soft_limit_message soft =
     lit ''WARNING : This server accepts '' @ dec_str (unat soft) @
     lit '' shares per client. Some of your shares are ignored.''"

definition soft_limit_frame :: "u32 \<Rightarrow> frame" where
  "soft_limit_frame soft =
     (let text = soft_limit_message soft
      in \<lparr>fr_opcode = OP_SERVERMESSAGE, fr_payload = to_le 2 (str_len text) @ utf8 text\<rparr>)"

text \<open>The whole request: pacing, then the handler of \<open>Publishing\<close> with the clock of each record, then
  the message, once per connection. The outer \<open>None\<close> is a panic of the handler.\<close>

definition on_offerfiles ::
  "unicode \<Rightarrow> scanner \<Rightarrow> (bytes \<rightharpoonup> rstr) \<Rightarrow> packet_env \<Rightarrow> offer_env \<Rightarrow> (nat \<Rightarrow> offer_env) \<Rightarrow> u32 \<Rightarrow> bytes \<Rightarrow>
     offer_session \<Rightarrow> pacing \<Rightarrow> offer_client \<Rightarrow> publish_state \<Rightarrow>
     (offer_outcome \<times> frame list \<times> offer_session \<times> pacing \<times> offer_client \<times> publish_state) option" where
  "on_offerfiles u scan sw e e0 env_at live_soft payload c pc oc ps =
     (case pace_packet e payload c pc of
        (Indexed wait files, c, pc) \<Rightarrow>
          (case handle_offerfiles u scan sw e0 (map (\<lambda>i. (files ! i, env_at i)) [0..<length files]) oc ps of
             None \<Rightarrow> None
           | Some (_, oc', ps) \<Rightarrow>
               (let soft = (case os_policy c of Some p \<Rightarrow> op_soft p | None \<Rightarrow> live_soft);
                    msg = (if oc_warned oc' \<and> \<not> oc_warned oc then [soft_limit_frame soft] else [])
                in Some (Indexed wait files, msg, c, pc, oc', put_attempts oc' ps)))
      | (out, c, pc) \<Rightarrow> Some (out, [], c, pc, oc, ps))"

text \<open>The side of the login: only a client that asked has a policy.\<close>

definition login_offers :: "limits_config \<Rightarrow> tag list \<Rightarrow> offer_session" where
  "login_offers l tags =
     (let policy = (if client_requests_v1 tags then policy_for_login l else None)
      in \<lparr>os_policy = policy, os_bucket = map_option policy_bucket policy\<rparr>)"

section \<open>What a bucket lets through\<close>

fun gcra_run :: "gcra \<Rightarrow> (u32 \<times> nat) list \<Rightarrow> nat list \<times> gcra" where
  "gcra_run g [] = ([], g)"
| "gcra_run g ((n, now) # xs) =
     (let (w, g) = gcra_reserve n now g; (ss, g) = gcra_run g xs in ((now + w) # ss, g))"

lemma reserve_keeps: "gcra_reserve n now g = (w, g') \<Longrightarrow> gc_rate g' = gc_rate g \<and> gc_per g' = gc_per g"
  by (auto simp: gcra_reserve_def Let_def)

lemma cost_kept [simp]: "gcra_cost n (g\<lparr>gc_tat := t\<rparr>) = gcra_cost n g"
  by (simp add: gcra_cost_def)

lemma reserve_tat:
  assumes "gcra_reserve n now g = (w, g')"
  shows "gc_tat g' = Some (gcra_start now g + gcra_cost n g)" "gcra_start now g + gcra_cost n g \<le> now + w + gc_per g"
    "now + w \<le> gcra_start now g + (gcra_cost n g - gc_per g)" "g' = g\<lparr>gc_tat := Some (gcra_start now g + gcra_cost n g)\<rparr>"
  using assms by (auto simp: gcra_reserve_def Let_def gcra_start_def split: if_splits option.splits)

lemma gcra_run_tat:
  assumes "gcra_run g ((n, now) # xs) = (ss, g')"
  shows "length ss = Suc (length xs) \<and> (\<exists>t. gc_tat g' = Some t \<and>
    gcra_start now g + (\<Sum>(k, _)\<leftarrow>(n, now) # xs. gcra_cost k g) \<le> t \<and> t \<le> last ss + gc_per g)"
  using assms
proof (induction xs arbitrary: g n now ss)
  case Nil
  then show ?case using reserve_tat [of n now g] by (auto split: prod.splits)
next
  case (Cons x xs)
  obtain m now' where x: "x = (m, now')" by (cases x)
  obtain w g1 where r: "gcra_reserve n now g = (w, g1)" by fastforce
  note T = reserve_tat [OF r]
  obtain ss' where run: "gcra_run g1 ((m, now') # xs) = (ss', g')" "ss = (now + w) # ss'"
    using Cons.prems r by (auto simp: x split: prod.splits)
  obtain t where t: "length ss' = Suc (length xs)" "gc_tat g' = Some t"
    "gcra_start now' g1 + (\<Sum>(k, _)\<leftarrow>(m, now') # xs. gcra_cost k g1) \<le> t" "t \<le> last ss' + gc_per g1"
    using Cons.IH [OF run(1)] by blast
  have "gcra_start now g + gcra_cost n g \<le> gcra_start now' g1"
    using T(1) by (simp add: gcra_start_def)
  moreover have "gcra_cost k g1 = gcra_cost k g" "gc_per g1 = gc_per g" for k by (simp_all add: T(4))
  ultimately show ?case using t run(2) by (auto simp: x)
qed

lemma records_by_cost:
  assumes "gc_rate g \<noteq> 0" "list_all (\<lambda>(k, _). gc_per g * unat k div unat (gc_rate g) \<le> COST_CAP_NS) xs"
  shows "(\<Sum>(k, _)\<leftarrow>xs. unat k) * gc_per g \<le> ((\<Sum>(k, _)\<leftarrow>xs. gcra_cost k g) + length xs) * unat (gc_rate g)"
  using assms(2)
proof (induction xs)
  case (Cons x xs)
  obtain k now where x: "x = (k, now)" by (cases x)
  let ?r = "unat (gc_rate g)"
  have r: "0 < ?r" using assms(1) by (simp add: unat_gt_0)
  have "gc_per g * unat k < ?r + gc_per g * unat k div ?r * ?r" using dividend_less_div_times [OF r] by blast
  moreover have "gcra_cost k g = gc_per g * unat k div ?r" using Cons.prems by (simp add: x gcra_cost_def)
  ultimately have "unat k * gc_per g \<le> (gcra_cost k g + 1) * ?r" by (simp add: algebra_simps)
  moreover have "(\<Sum>(k, _)\<leftarrow>xs. unat k) * gc_per g \<le> ((\<Sum>(k, _)\<leftarrow>xs. gcra_cost k g) + length xs) * ?r"
    using Cons by simp
  ultimately show ?case by (simp add: x algebra_simps)
qed simp

text \<open>C15: a bucket keeps its rate over every window: of the records let through by any consecutive
  batches, whatever came before, no more than \<open>rate\<close> per \<open>per\<close> nanoseconds of the time between the
  first and the last, plus one full bucket (or the first batch, if that alone is more), plus
  a nanosecond of rounding for a batch. It holds for the bucket of a connection and for the
  server-wide ceiling, however early the batches arrive.\<close>

theorem bucket_keeps_its_rate:
  assumes "gc_rate g \<noteq> 0"
    and "list_all (\<lambda>(k, _). gc_per g * unat k div unat (gc_rate g) \<le> COST_CAP_NS) ((n, now) # xs)"
    and "gcra_run g ((n, now) # xs) = (ss, g')"
  shows "(\<Sum>(k, _)\<leftarrow>(n, now) # xs. unat k) * gc_per g \<le>
    (max (gc_per g) (gcra_cost n g) + (last ss - hd ss) + length ((n, now) # xs)) * unat (gc_rate g)"
proof -
  obtain t where t: "gcra_start now g + (\<Sum>(k, _)\<leftarrow>(n, now) # xs. gcra_cost k g) \<le> t" "t \<le> last ss + gc_per g"
    using gcra_run_tat [OF assms(3)] by blast
  obtain w g1 where r: "gcra_reserve n now g = (w, g1)" by fastforce
  have "hd ss = now + w" using assms(3) r by (auto split: prod.splits)
  then have h: "hd ss \<le> gcra_start now g + (gcra_cost n g - gc_per g)" using reserve_tat(3) [OF r] by simp
  have "S \<le> max (gc_per g) (gcra_cost n g) + (last ss - hd ss)" if "gcra_start now g + S \<le> t" for S
  proof (cases "gc_per g \<le> gcra_cost n g")
    case True
    then have "max (gc_per g) (gcra_cost n g) = gcra_cost n g" by simp
    then show ?thesis using t(2) h that True by arith
  next
    case False
    then have "max (gc_per g) (gcra_cost n g) = gc_per g" by simp
    then show ?thesis using t(2) h that False by arith
  qed
  then have "(\<Sum>(k, _)\<leftarrow>(n, now) # xs. gcra_cost k g) \<le> max (gc_per g) (gcra_cost n g) + (last ss - hd ss)"
    using t(1) by blast
  then have "((\<Sum>(k, _)\<leftarrow>(n, now) # xs. gcra_cost k g) + length ((n, now) # xs)) * unat (gc_rate g) \<le>
      (max (gc_per g) (gcra_cost n g) + (last ss - hd ss) + length ((n, now) # xs)) * unat (gc_rate g)"
    by (intro mult_le_mono1) linarith
  then show ?thesis using records_by_cost [OF assms(1,2)] by linarith
qed

text \<open>Three full batches that arrive together: the second and the third wait an interval each.\<close>

theorem bucket_keeps_its_rate_witness:
  "fst (gcra_run (gcra_new 200 60) [(200, 5), (200, 5), (200, 5)]) = [5, 65, 125] \<and>
   (\<Sum>(k, _ :: nat)\<leftarrow>[(200 :: u32, 5), (200, 5), (200, 5)]. unat k) * 60 \<le> (max 60 60 + (125 - 5) + 3) * (200 :: nat)"
proof -
  have run: "gcra_run (gcra_new 200 60) [(200, 5), (200, 5), (200, 5)] =
      ([5, 65, 125], \<lparr>gc_rate = 200, gc_per = 60, gc_tat = Some 185\<rparr>)"
    by (simp add: gcra_new_def gcra_reserve_def gcra_start_def gcra_cost_def COST_CAP_NS_def Let_def max_def word_le_nat_alt)
  show ?thesis
    using bucket_keeps_its_rate [of "gcra_new 200 60" 200 5 "[(200, 5), (200, 5)]", OF _ _ run] run
    by (simp add: gcra_new_def gcra_cost_def COST_CAP_NS_def max_def word_le_nat_alt)
qed

section \<open>What was advertised is what is enforced\<close>

definition policy_valid :: "offer_policy \<Rightarrow> bool" where
  "policy_valid p \<longleftrightarrow> op_soft p \<noteq> 0 \<and> op_batch_max p \<noteq> 0 \<and> op_min_interval_ms p \<noteq> 0 \<and> op_batch_max p < op_hard p"

lemma from_limits_valid: "from_limits l = Inr (Some p) \<Longrightarrow> policy_valid p"
  by (auto simp: from_limits_def policy_valid_def Let_def split: if_splits)

definition v1_session :: "offer_policy \<Rightarrow> offer_session \<Rightarrow> bool" where
  "v1_session p c \<longleftrightarrow> os_policy c = Some p \<and>
     (\<exists>g. os_bucket c = Some g \<and> gc_rate g = op_batch_max p \<and> gc_per g = unat (op_min_interval_ms p) * 1000000)"

lemma login_v1:
  assumes "client_requests_v1 tags" "from_limits l = Inr (Some p)"
  shows "v1_session p (login_offers l tags)"
proof -
  have "0 < unat (op_batch_max p)"
    using from_limits_valid [OF assms(2)] by (simp add: policy_valid_def unat_gt_0)
  then have "1 \<le> op_batch_max p" by (simp add: word_le_nat_alt)
  then have "max (op_batch_max p) 1 = op_batch_max p" by (rule max_absorb1)
  then show ?thesis
    using assms by (simp add: login_offers_def policy_for_login_def v1_session_def policy_bucket_def gcra_new_def Let_def)
qed

definition entry_read :: "offer_entry \<Rightarrow> offered_file" where
  "entry_read x = (case x of (h, client_id, port, tags) \<Rightarrow> record_of_tags h client_id port (map tag_read tags))"

text \<open>A packet within the advertised batch size, in a session that is not replaced meanwhile.\<close>

definition compliant :: "offer_policy \<Rightarrow> packet_env \<times> offer_entry list \<Rightarrow> bool" where
  "compliant p x \<longleftrightarrow>
     (case x of (e, xs) \<Rightarrow> pk_current e \<and> list_all offer_entry_ok xs \<and> length xs \<le> unat (op_batch_max p) \<and> length xs \<le> 100000)"

lemma declared_write:
  assumes "length xs \<le> 100000"
  shows "declared_count (write_offerfiles xs) = Some (of_nat (length xs))"
proof -
  have "from_le (to_le 4 (length xs)) = length xs" using assms by (intro from_le_to_le) simp
  then show ?thesis by (simp add: declared_count_def write_offerfiles_def)
qed

lemma compliant_packet:
  assumes "policy_valid p" "v1_session p c" "compliant p (e, xs)"
  obtains w c' s' where "pace_packet e (write_offerfiles xs) c s = (Indexed w (map entry_read xs), c', s')" "v1_session p c'"
proof -
  let ?n = "of_nat (length xs) :: u32"
  have len: "length xs \<le> 100000" "length xs \<le> unat (op_batch_max p)" and cur: "pk_current e" and ok: "list_all offer_entry_ok xs"
    using assms(3) by (auto simp: compliant_def)
  have u: "unat ?n = length xs" using len(1) by (simp add: unat_of_nat)
  have small: "\<not> op_batch_max p < ?n" using len(2) u by (simp add: word_less_nat_alt)
  then have hard: "\<not> over_hard_limit ?n (op_hard p)"
    using assms(1) by (auto simp: over_hard_limit_def policy_valid_def)
  have read: "parse_offerfiles (write_offerfiles xs) = Inr (map entry_read xs)"
    using offers_read [OF ok len(1), of "[]"] by (simp add: entry_read_def [abs_def])
  obtain g where g: "os_policy c = Some p" "os_bucket c = Some g" "gc_rate g = op_batch_max p"
    "gc_per g = unat (op_min_interval_ms p) * 1000000" using assms(2) by (auto simp: v1_session_def)
  obtain w g' where r: "gcra_reserve ?n (pk_arrived e) g = (w, g')" by fastforce
  have g': "v1_session p (c\<lparr>os_bucket := Some g'\<rparr>)"
    using g reserve_keeps [OF r] by (simp add: v1_session_def)
  show ?thesis
  proof (cases "0 < ?n")
    case True
    obtain w' pc where a: "pacer_acquire ?n (pk_ceiling e) (pk_arrived e + w + pk_queued e) (pa_pacer s) = (w', pc)" by fastforce
    show ?thesis
      using that [OF _ g'] declared_write [OF len(1)] hard small read g(1,2) r a cur True
      by (simp add: pace_packet_def Let_def)
  next
    case False
    then show ?thesis
      using that [OF _ assms(2)] declared_write [OF len(1)] hard small read g(1,2) by (simp add: pace_packet_def Let_def)
  qed
qed

fun pace_run :: "(packet_env \<times> bytes) list \<Rightarrow> offer_session \<Rightarrow> pacing \<Rightarrow> offer_outcome list \<times> offer_session \<times> pacing" where
  "pace_run [] c s = ([], c, s)"
| "pace_run ((e, payload) # ps) c s =
     (let (out, c, s) = pace_packet e payload c s; (outs, c, s) = pace_run ps c s in (out # outs, c, s))"

lemma pace_run_compliant:
  assumes "policy_valid p" "v1_session p c" "list_all (compliant p) ps"
  shows "list_all2 (\<lambda>(e, xs) out. \<exists>w. out = Indexed w (map entry_read xs)) ps
    (fst (pace_run (map (\<lambda>(e, xs). (e, write_offerfiles xs)) ps) c s))"
  using assms(2,3)
proof (induction ps arbitrary: c s)
  case (Cons x ps)
  obtain e xs where x: "x = (e, xs)" by (cases x)
  then have cp: "compliant p (e, xs)" using Cons.prems(2) by simp
  obtain w c' s' where "pace_packet e (write_offerfiles xs) c s = (Indexed w (map entry_read xs), c', s')" "v1_session p c'"
    using compliant_packet [OF assms(1) Cons.prems(1), of e xs s] cp by blast
  then show ?case using Cons.IH [of c' s'] Cons.prems(2) by (auto simp: x split: prod.splits)
qed simp

text \<open>C26: the contract of OFFERFILES v1: a client that asked for it at login, was told a policy, and
  sends any number of packets within the batch size it was told, at whatever times, has every
  record of every packet handed to the indexer, in order, after a wait at most: no packet is
  refused, dropped, or closes the session, whatever the limits are set to meanwhile.\<close>

theorem v1_contract_is_kept:
  assumes "client_requests_v1 tags" "from_limits l = Inr (Some p)" "list_all (compliant p) ps"
  shows "list_all2 (\<lambda>(e, xs) out. \<exists>w. out = Indexed w (map entry_read xs)) ps
    (fst (pace_run (map (\<lambda>(e, xs). (e, write_offerfiles xs)) ps) (login_offers l tags) s))"
  using pace_run_compliant [OF from_limits_valid [OF assms(2)] login_v1 [OF assms(1,2)] assms(3)] .

definition some_limits :: limits_config where
  "some_limits = \<lparr>lc_offerfiles_v1 = True, lc_soft_limit_files = 1000, lc_hard_limit_files = 500, lc_batch_max = 200,
     lc_min_interval_ms = 1000, lc_global_records_per_sec = 0\<rparr>"

definition some_packet :: packet_env where
  "some_packet = \<lparr>pk_arrived = 7, pk_queued = 0, pk_current = True, pk_hard_limit_files = 1, pk_ceiling = 10\<rparr>"

definition no_pacing :: pacing where
  "no_pacing = \<lparr>pa_pacer = None, pa_stats = \<lparr>vs_batches = 0, vs_records = 0, vs_conn_waits = 0, vs_conn_wait_ms = 0,
     vs_global_waits = 0, vs_global_wait_ms = 0, vs_global_wait_max_ms = 0, vs_oversized = 0\<rparr>, pa_over_hard = 0\<rparr>"

theorem v1_contract_is_kept_witness:
  "\<exists>w v. fst (pace_run (map (\<lambda>(e, xs). (e, write_offerfiles xs)) [(some_packet, [(replicate 16 1, 0, 0, [])]), (some_packet, [])])
     (login_offers some_limits [\<lparr>tg_name = Str (lit ''offerfiles_v''), tg_value = VU32 1\<rparr>]) no_pacing) =
     [Indexed w [record_of_tags (replicate 16 1) 0 0 []], Indexed v []]"
proof -
  let ?p = "\<lparr>op_soft = 1000, op_hard = 500, op_batch_max = 200, op_min_interval_ms = 1000\<rparr>"
  let ?ps = "[(some_packet, [(replicate 16 1, 0, 0, [])]), (some_packet, [])] :: (packet_env \<times> offer_entry list) list"
  have "client_requests_v1 [\<lparr>tg_name = Str (lit ''offerfiles_v''), tg_value = VU32 1\<rparr>]"
    by (simp add: client_requests_v1_def TAG_VERSION_def OFFERFILES_VERSION_def)
  moreover have "from_limits some_limits = Inr (Some ?p)"
    by (simp add: from_limits_def some_limits_def word_le_nat_alt)
  moreover have "list_all (compliant ?p) ?ps"
    by (simp add: compliant_def some_packet_def offer_entry_ok_def)
  ultimately have "list_all2 (\<lambda>(e, xs) out. \<exists>w. out = Indexed w (map entry_read xs)) ?ps
    (fst (pace_run (map (\<lambda>(e, xs). (e, write_offerfiles xs)) ?ps)
       (login_offers some_limits [\<lparr>tg_name = Str (lit ''offerfiles_v''), tg_value = VU32 1\<rparr>]) no_pacing))"
    by (rule v1_contract_is_kept)
  then show ?thesis by (auto simp: list_all2_Cons1 entry_read_def)
qed

end
