(* ===== verification/Udp_Search.thy ===== *)
theory Udp_Search
  imports Search_Pages
begin

text \<open>
  A search over UDP (\<open>src/server/udp.rs\<close>): the option tags of a \<open>0x90\<close> request, the ranked search
  \<open>udp_search_ranked\<close> and the datagram of one result, \<open>udp_search_datagram\<close>, compared with the
  TCP search of \<open>Search_Handler\<close> and the readers of \<open>Tags\<close>.
\<close>

section \<open>The options of a request\<close>

definition skip_value :: "nat \<Rightarrow> bytes \<Rightarrow> bytes option" where
  "skip_value n b = (if n \<le> length b then Some (drop n b) else None)"

definition skip_one_tag :: "bytes \<Rightarrow> bytes option" where
  "skip_one_tag buf =
     (case buf of
        [] \<Rightarrow> None
      | type_byte # rest \<Rightarrow>
          (let short_name = type_byte AND 0x80 \<noteq> 0; ttype = type_byte AND 0x7F;
               rest = (if short_name then skip_value 1 rest
                       else if length rest < 2 then None
                       else skip_value (2 + from_le (take 2 rest)) rest)
           in case rest of
                None \<Rightarrow> None
              | Some rest \<Rightarrow>
                  (if ttype = 0x02 then (if length rest < 2 then None else skip_value (2 + from_le (take 2 rest)) rest)
                   else if ttype = 0x03 then skip_value 4 rest
                   else if ttype = 0x04 then skip_value 4 rest
                   else if ttype = 0x08 then skip_value 4 rest
                   else if ttype = 0x09 then skip_value 1 rest
                   else if ttype = 0x0A then skip_value 2 rest
                   else if ttype = 0x0B then skip_value 8 rest
                   else if 0x11 \<le> ttype \<and> ttype \<le> 0x20 then skip_value (unat (ttype - 0x10)) rest
                   else None)))"

primrec skip_tags :: "nat \<Rightarrow> bytes \<Rightarrow> bytes option" where
  "skip_tags 0 b = Some b"
| "skip_tags (Suc n) b = Option.bind (skip_one_tag b) (skip_tags n)"

definition strip_searchreq3_tags :: "bytes \<Rightarrow> bytes option" where
  "strip_searchreq3_tags payload =
     (if length payload < 4 then None
      else let count = from_le (take 4 payload)
           in if count > 16 then None else skip_tags count (drop 4 payload))"

section \<open>The search\<close>

definition UDP_MAX_SEARCH_RESULTS :: nat where "UDP_MAX_SEARCH_RESULTS = 10"

definition udp_job_of :: "unicode \<Rightarrow> (rstr list list \<Rightarrow> u64) \<Rightarrow> search_cfg \<Rightarrow> server_files \<Rightarrow> search_node \<Rightarrow> search_job" where
  "udp_job_of u query_seed cfg s tree =
     (let prepared = prepared_tree u (sl_codecs (sv_slab s)) tree
      in \<lparr>sj_prepared = prepared, sj_want_complete = uses_complete_sources prepared, sj_want_media = uses_media prepared,
          sj_seed = query_seed (candidate_groups u tree), sj_max_results = UDP_MAX_SEARCH_RESULTS,
          sj_rank_scan = max (unat (sc_search_rank_scan cfg)) UDP_MAX_SEARCH_RESULTS\<rparr>)"

text \<open>One candidate: \<open>Some\<close> is a result for the heap.\<close>

definition udp_push ::
  "unicode \<Rightarrow> (file_hash \<Rightarrow> rstr \<Rightarrow> bool) \<Rightarrow> search_job \<Rightarrow> ranked list \<Rightarrow> file_id \<times> file_record \<times> media option \<Rightarrow> ranked option" where
  "udp_push u hidden j heap c =
     (case c of (i, entry, media) \<Rightarrow>
        let x = rank (sj_seed j) i entry
        in if fr_sources entry = [] then None
           else if \<not> satisfies u j entry media then None
           else if length heap \<ge> sj_max_results j \<and> heap \<noteq> [] \<and> \<not> outranks x (last heap) then None
           else if hidden (fr_hash entry) (record_name entry) then None
           else Some x)"

definition udp_step ::
  "unicode \<Rightarrow> (file_hash \<Rightarrow> rstr \<Rightarrow> bool) \<Rightarrow> search_job \<Rightarrow> file_slab \<Rightarrow> file_id \<Rightarrow> search_run \<Rightarrow> bool \<times> search_run" where
  "udp_step u hidden j sl i s =
     (if sr_scanned s \<ge> sj_rank_scan j then (False, s\<lparr>sr_rank_capped := True\<rparr>)
      else let s = s\<lparr>sr_scanned := sr_scanned s + 1\<rparr>
           in case with_record_media i (sj_want_media j) (\<lambda>r m. udp_push u hidden j (sr_heap s) (i, r, m)) sl of
                Some (Some x) \<Rightarrow>
                  (let h = heap_push x (sr_heap s)
                   in (True, s\<lparr>sr_heap := (if length h > sj_max_results j then butlast h else h)\<rparr>))
              | _ \<Rightarrow> (True, s))"

definition udp_search_ranked ::
  "unicode \<Rightarrow> (file_hash \<Rightarrow> rstr \<Rightarrow> bool) \<Rightarrow> (rstr list list \<Rightarrow> u64) \<Rightarrow> search_cfg \<Rightarrow> server_files \<Rightarrow> search_node \<Rightarrow>
     search_stats \<Rightarrow> (file_record list \<times> search_stats) option" where
  "udp_search_ranked u hidden query_seed cfg s request st =
     (case search_by_hash hidden s request of
        None \<Rightarrow> None
      | Some (Some found) \<Rightarrow> Some (found, st\<lparr>ss_by_hash := ss_by_hash st + 1\<rparr>)
      | Some None \<Rightarrow>
          (let (tree, dropped) = search_tree_of u cfg s request;
               st = (if dropped \<noteq> [] then st\<lparr>ss_words_dropped := ss_words_dropped st + 1\<rparr> else st)
           in if \<not> has_keyword u tree then Some ([], st)
              else let j = udp_job_of u query_seed cfg s tree;
                       ids = find_grouped_capped (sv_index s) (candidate_groups u tree) (2 * sj_rank_scan j + 1);
                       r = visit_while (udp_step u hidden j (sv_slab s)) ids run_new;
                       st = (if sr_rank_capped r then st\<lparr>ss_rank_capped := ss_rank_capped st + 1\<rparr> else st)
                   in Some (map rk_rec (sr_heap r), st)))"

definition PROTO_EDONKEY_UDP :: u8 where "PROTO_EDONKEY_UDP = 0xE3"
definition OP_GLOB_SEARCHRES :: u8 where "OP_GLOB_SEARCHRES = 0x99"

definition udp_search_datagram :: "unicode \<Rightarrow> file_slab \<Rightarrow> (bytes \<rightharpoonup> client) \<Rightarrow> file_record \<Rightarrow> bytes option" where
  "udp_search_datagram u sl clients r =
     map_option (\<lambda>tags. [PROTO_EDONKEY_UDP, OP_GLOB_SEARCHRES] @ write_result clients r tags)
       (push_media_tags sl (fr_hash r) (record_tags u r))"

subsection \<open>Options are skipped as they are written\<close>

fun skippable :: "tag_value \<Rightarrow> bool" where
  "skippable (VString s) \<longleftrightarrow> str_len s < 65536"
| "skippable (VU8 _) \<longleftrightarrow> True"
| "skippable (VU32 _) \<longleftrightarrow> True"
| "skippable (VU64 _) \<longleftrightarrow> True"
| "skippable (VFloat _) \<longleftrightarrow> True"
| "skippable _ \<longleftrightarrow> False"

definition option_ok :: "tag \<Rightarrow> bool" where
  "option_ok t \<longleftrightarrow> (case tg_name t of Byte _ \<Rightarrow> True | Str s \<Rightarrow> str_len s < 65536) \<and> skippable (tg_value t)"

lemma skip_value_append: "length x = n \<Longrightarrow> skip_value n (x @ r) = Some r"
  by (simp add: skip_value_def)

definition skip_named :: "u8 \<Rightarrow> bytes \<Rightarrow> bytes option" where
  "skip_named ttype rest =
     (if ttype = 0x02 then (if length rest < 2 then None else skip_value (2 + from_le (take 2 rest)) rest)
      else if ttype = 0x03 then skip_value 4 rest
      else if ttype = 0x04 then skip_value 4 rest
      else if ttype = 0x08 then skip_value 4 rest
      else if ttype = 0x09 then skip_value 1 rest
      else if ttype = 0x0A then skip_value 2 rest
      else if ttype = 0x0B then skip_value 8 rest
      else if 0x11 \<le> ttype \<and> ttype \<le> 0x20 then skip_value (unat (ttype - 0x10)) rest
      else None)"

lemma not_newtag: "NOT (0x80 :: u8) = 0x7F"
  by simp

lemma skip_written:
  assumes "case tg_name t of Byte _ \<Rightarrow> True | Str s \<Rightarrow> str_len s < 65536"
  shows "skip_one_tag (write_tag t @ r) =
    (let m = type_marker (case tg_name t of Byte _ \<Rightarrow> True | Str _ \<Rightarrow> False) (tg_value t)
     in skip_named m (write_value m (tg_value t) @ r))"
proof (cases "tg_name t")
  case (Byte b)
  note bits = marker_bits [OF type_marker_small [of True "tg_value t"], unfolded not_newtag]
  show ?thesis
    using bits by (simp add: Byte skip_one_tag_def write_tag_def write_name_def skip_value_def skip_named_def Let_def TYPE_NEWTAG_BIT_def)
next
  case (Str s)
  note bits = marker_bits [OF type_marker_small [of False "tg_value t"], unfolded not_newtag]
  have "from_le (to_le 2 (str_len s)) = str_len s" using assms Str by (intro from_le_to_le) simp
  then show ?thesis
    using bits by (simp add: Str skip_one_tag_def write_tag_def write_name_def skip_value_def skip_named_def Let_def str_len_def)
qed

lemma skip_short_string:
  assumes "1 \<le> n" "n \<le> 16"
  shows "skip_named (TYPE_STR1_BASE + of_nat n) b = skip_value n b"
proof -
  have "TYPE_STR1_BASE + of_nat n \<noteq> k" if "k < 0x11" for k
    using str1_marker(3) [OF assms] that by (auto simp: TYPE_STR1_BASE_def)
  then show ?thesis using str1_marker [OF assms] by (simp add: skip_named_def TYPE_STR1_BASE_def)
qed

lemma skip_option:
  assumes "option_ok t"
  shows "skip_one_tag (write_tag t @ r) = Some r"
proof -
  let ?short = "case tg_name t of Byte _ \<Rightarrow> True | Str _ \<Rightarrow> False"
  let ?m = "type_marker ?short (tg_value t)"
  have "skip_named ?m (write_value ?m (tg_value t) @ r) = Some r"
  proof (cases "tg_value t")
    case (VString s)
    then have len: "str_len s < 65536" using assms by (simp add: option_ok_def)
    show ?thesis
    proof (cases "?short \<and> 1 \<le> str_len s \<and> str_len s \<le> 16")
      case True
      then have "TYPE_STR1_BASE < TYPE_STR1_BASE + of_nat (str_len s)" using str1_marker(5) [of "str_len s"] by simp
      then show ?thesis
        using True VString skip_value_append [of "utf8 s" "str_len s" r]
        by (simp add: type_marker_def write_value_def skip_short_string str_len_def)
    next
      case False
      then have "?m = TYPE_STRING" by (auto simp: VString type_marker_def)
      moreover have "\<not> TYPE_STR1_BASE < TYPE_STRING" by (simp add: type_bytes)
      moreover have "from_le (to_le 2 (str_len s)) = str_len s" using len by (intro from_le_to_le) simp
      ultimately show ?thesis
        using VString by (simp add: write_value_def skip_named_def skip_value_def type_bytes str_len_def)
    qed
  qed (use assms in \<open>simp_all add: option_ok_def type_marker_def write_value_def skip_named_def skip_value_def type_bytes\<close>)
  then show ?thesis using skip_written [of t r] assms by (simp add: option_ok_def Let_def)
qed

lemma skip_options: "list_all option_ok ts \<Longrightarrow> skip_tags (length ts) (concat (map write_tag ts) @ r) = Some r"
  by (induction ts) (simp_all add: skip_option)

text \<open>C40: a search with options (\<open>0x90\<close>) is read as the search it carries: up to sixteen tags with string,
  8-, 32- or 64-bit or float values, with numeric or string names, are skipped exactly, and what
  is left is the expression tree, byte for byte.\<close>

theorem search_options_are_skipped:
  assumes "list_all option_ok ts" "length ts \<le> 16"
  shows "strip_searchreq3_tags (write_tag_list ts @ tree) = Some tree"
proof -
  have "from_le (to_le 4 (length ts)) = length ts" using assms(2) by (intro from_le_to_le) simp
  then show ?thesis using assms skip_options [OF assms(1), of tree]
    by (simp add: strip_searchreq3_tags_def write_tag_list_def Let_def)
qed

theorem search_options_are_skipped_witness:
  "strip_searchreq3_tags (write_tag_list [tag_byte 0x0E (VU8 1), tag_byte 0x55 (VString (lit ''pro'')), tag_byte 2 (VU32 70000)] @ [1, 2, 0, 104, 100]) =
     Some [1, 2, 0, 104, 100]"
  by (rule search_options_are_skipped) (simp_all add: option_ok_def tag_byte_def lit_def str_len_ascii)

text \<open>Except for a 16-bit value, which the skipper takes for four bytes although the tag codec writes and
  reads two: the search loses the first two bytes of its tree.\<close>

lemma u16_option_breaks_the_search:
  assumes "2 \<le> length tree"
  shows "strip_searchreq3_tags (write_tag_list [tag_byte n (VU16 v)] @ tree) = Some (drop 2 tree)"
proof -
  let ?t = "tag_byte n (VU16 v)"
  have "skip_one_tag (write_tag ?t @ tree) = skip_named TYPE_UINT16 (to_le 2 (unat v) @ tree)"
    using skip_written [of ?t tree] by (simp add: tag_byte_def type_marker_def write_value_def)
  then have "skip_one_tag (write_tag ?t @ tree) = Some (drop 2 tree)"
    using assms by (simp add: skip_named_def skip_value_def type_bytes)
  then show ?thesis
    by (simp add: strip_searchreq3_tags_def write_tag_list_def from_le_to_le Let_def)
qed

section \<open>Both channels rank alike\<close>

lemma udp_keep_best:
  "(case udp_push u hidden j h c of
      Some x \<Rightarrow> (let h' = heap_push x h in if length h' > sj_max_results j then butlast h' else h')
    | None \<Rightarrow> h) = keep_best (sj_max_results j) (servable u hidden j c) (rank_of j c) h"
  by (auto simp: udp_push_def keep_best_def servable_def rank_of_def Let_def split: prod.split)

lemma udp_visit:
  assumes "best_first l" "sr_heap s = take (sj_max_results j) l" "length ids + sr_scanned s \<le> sj_rank_scan j"
  shows "sr_heap (visit_while (udp_step u hidden j sl) ids s) =
    take (sj_max_results j) (push_all j (filter (servable u hidden j) (word_candidates (sj_want_media j) sl ids)) l) \<and>
    sr_rank_capped (visit_while (udp_step u hidden j sl) ids s) = sr_rank_capped s"
  using assms
proof (induction ids arbitrary: s l)
  case (Cons i ids)
  let ?s = "s\<lparr>sr_scanned := sr_scanned s + 1\<rparr>"
  have room: "\<not> sj_rank_scan j \<le> sr_scanned s" using Cons.prems(3) by simp
  show ?case
  proof (cases "with_record_media i (sj_want_media j) (\<lambda>r m. (i, r, m)) sl")
    case None
    then have "udp_step u hidden j sl i s = (True, ?s)"
      using room by (simp add: udp_step_def with_record_media_def Let_def)
    then show ?thesis using Cons.IH [of l ?s] Cons.prems None by (simp add: word_candidates_def)
  next
    case (Some c)
    have w: "with_record_media i (sj_want_media j) (\<lambda>r m. udp_push u hidden j (sr_heap s) (i, r, m)) sl =
        Some (udp_push u hidden j (sr_heap s) c)"
      using Some by (auto simp: with_record_media_def)
    define l' where "l' = (if servable u hidden j c then heap_push (rank_of j c) l else l)"
    obtain s' where s': "udp_step u hidden j sl i s = (True, s')" "sr_scanned s' = sr_scanned s + 1"
      "sr_rank_capped s' = sr_rank_capped s"
      "sr_heap s' = keep_best (sj_max_results j) (servable u hidden j c) (rank_of j c) (sr_heap s)"
      using room w udp_keep_best [where u = u and hidden = hidden and j = j and h = "sr_heap s" and c = c]
      by (cases "udp_push u hidden j (sr_heap s) c") (auto simp: udp_step_def Let_def)
    have h': "sr_heap s' = take (sj_max_results j) l'" "best_first l'"
      using keep_best_take [OF Cons.prems(1), of "sj_max_results j" "servable u hidden j c" "rank_of j c"] Cons.prems(1,2) s'(4)
      by (auto simp: l'_def best_first_push)
    have "word_candidates (sj_want_media j) sl (i # ids) = c # word_candidates (sj_want_media j) sl ids"
      using Some by (simp add: word_candidates_def)
    then show ?thesis using Cons.IH [OF h'(2,1)] Cons.prems(3) s' by (auto simp: l'_def)
  qed
qed (simp add: word_candidates_def push_all_def List.map_filter_simps)

lemma capped_short:
  assumes "index_ok ix" "length (find_grouped ix gs) \<le> cap"
  shows "find_grouped_capped ix gs cap = find_grouped ix gs"
proof (cases "\<exists>t. gs = [[t]]")
  case True
  then show ?thesis using capped_search_prefix [OF assms(1)] assms(2) by auto
next
  case False
  then show ?thesis by (auto simp: find_grouped_capped_def split: list.split)
qed

text \<open>C19: the two channels agree: a search by words that finds no more candidates than
  \<open>search_rank_scan\<close> is answered over UDP with the first ten results of the TCP answer, in the
  same order; a search by hash with the same file.\<close>

theorem udp_answers_like_tcp:
  assumes "index_ok (sv_index s)" "tree = fst (search_tree_of u cfg s request)"
    and "ed2k_file_search request = None \<longrightarrow> has_keyword u tree"
    and "length (find_grouped (sv_index s) (candidate_groups u tree)) \<le> unat (sc_search_rank_scan cfg)"
    and "10 \<le> sc_max_search_results cfg"
    and "handle_search u hidden query_seed cfg s request st = Some (results, st')"
  shows "\<exists>st2. udp_search_ranked u hidden query_seed cfg s request st = Some (take 10 results, st2)"
proof (cases "search_by_hash hidden s request")
  case (Some r)
  show ?thesis
  proof (cases r)
    case None
    then have None': "ed2k_file_search request = None"
      using Some by (auto simp: search_by_hash_def split: option.splits)
    let ?j = "search_job_of u query_seed cfg s tree" and ?k = "udp_job_of u query_seed cfg s tree"
    let ?ids = "find_grouped (sv_index s) (candidate_groups u tree)"
    let ?cs = "filter (servable u hidden ?j) (word_candidates (sj_want_media ?j) (sv_slab s) ?ids)"
    have n: "10 \<le> unat (sc_max_search_results cfg)" using assms(5) by (simp add: word_le_nat_alt)
    have kw: "has_keyword u tree" using assms(3) None' by blast
    have jk: "servable u hidden ?k = servable u hidden ?j" "rank_of ?k = rank_of ?j" "sj_want_media ?k = sj_want_media ?j"
      by (simp_all add: fun_eq_iff servable_def satisfies_def rank_of_def udp_job_of_def search_job_of_def Let_def)
    have scan: "length ?ids \<le> sj_rank_scan ?j" "length ?ids \<le> sj_rank_scan ?k"
      using assms(4) by (simp_all add: udp_job_of_def search_job_of_def Let_def)
    have ids: "find_grouped_capped (sv_index s) (candidate_groups u tree) (2 * sj_rank_scan ?j + 1) = ?ids"
      "find_grouped_capped (sv_index s) (candidate_groups u tree) (2 * sj_rank_scan ?k + 1) = ?ids"
      using scan by (intro capped_short [OF assms(1)]; simp)+
    have "length (word_candidates w sl ks) \<le> length ks" for w sl ks
      by (induction ks) (auto simp: word_candidates_def split: option.split)
    then have "length (word_candidates (sj_want_media ?j) (sv_slab s) ?ids) \<le> sj_rank_scan ?j"
      using scan(1) le_trans by blast
    then have tcp: "sr_heap (search_run_of u hidden ?j s tree) = take (sj_max_results ?j) (push_all ?j ?cs [])"
      using kw ids(1) by (simp add: search_run_heap search_candidates_def examined_all)
    have "sr_heap (visit_while (udp_step u hidden ?k (sv_slab s)) ?ids run_new) = take (sj_max_results ?k) (push_all ?k ?cs [])"
      using udp_visit [of "[]" run_new ?k ?ids u hidden "sv_slab s"] scan(2) jk by (simp add: run_new_def best_first_def)
    moreover have "push_all ?k ?cs [] = push_all ?j ?cs []" by (simp add: push_all_def jk)
    moreover have "sj_max_results ?k = 10" "sj_max_results ?j = unat (sc_max_search_results cfg)"
      by (simp_all add: udp_job_of_def UDP_MAX_SEARCH_RESULTS_def search_job_of_def Let_def)
    ultimately have "map rk_rec (sr_heap (visit_while (udp_step u hidden ?k (sv_slab s)) ?ids run_new)) =
        take 10 (map rk_rec (sr_heap (search_run_of u hidden ?j s tree)))"
      using n by (simp add: tcp take_map min_def)
    moreover have "results = map rk_rec (sr_heap (search_run_of u hidden ?j s tree))"
      using assms(2,6) Some None by (auto simp: handle_search_def Let_def split: prod.splits)
    ultimately show ?thesis
      using Some None kw ids(2) assms(2) by (auto simp: udp_search_ranked_def Let_def split: prod.split)
  next
    case found: (Some found)
    have "length found \<le> 1"
      using Some found by (auto simp: search_by_hash_def split: option.splits if_splits)
    then show ?thesis using Some found assms(6) by (auto simp: udp_search_ranked_def handle_search_def Let_def)
  qed
next
  case None
  then show ?thesis using assms(6) by (simp add: handle_search_def Let_def)
qed

lemma hd_tokens: "tokenize_search_term ascii_tables (lit ''HD'') = [lit ''hd'']"
proof -
  have "trim (lit ''HD'') = lit ''HD''" by (rule trim_id) (simp add: lit_def is_whitespace_def)
  moreover have "tokenize ascii_tables (lit ''HD'') = [lit ''hd'']" by (simp add: tokenize_eval)
  moreover have "lit ''HD'' \<noteq> lit ''*''" "lit ''HD'' \<noteq> lit ''**''" by (simp_all add: lit_def)
  ultimately show ?thesis by (simp add: tokenize_search_term_def Let_def)
qed

lemma hd_term: "lookup_tokens ascii_tables (lit ''HD'') = [lit ''hd'']"
proof -
  have "without_starred_words (lit ''HD'') = lit ''HD''"
    by (simp add: without_starred_words_def split_whitespace_def parse_markers_def lit_def is_whitespace_def)
  moreover have "lit ''HD'' \<noteq> []" "lit ''hd'' \<noteq> lit ''*''" "lit ''hd'' \<noteq> lit ''**''" by (simp_all add: lit_def)
  ultimately show ?thesis by (simp add: hd_tokens lookup_tokens_def Let_def)
qed

lemma hd_not_a_link: "ed2k_file_search (Term (lit ''HD'')) = None"
proof -
  have "trim (lit ''HD'') = lit ''HD''" by (rule trim_id) (simp add: lit_def is_whitespace_def)
  then show ?thesis
    by (simp add: ed2k_file_ref_def ref_target_def starts_ci_def) (simp add: lit_def eq_ignore_ascii_case_def)
qed

text \<open>A server with one published file.\<close>

lemma one_published:
  "\<exists>i s. tables_ok ascii_tables s \<and> ki_subtokens (sv_index s) = False \<and>
     slab_of s = [i \<mapsto> record_new (replicate 16 9) 700 (lit ''HD'') [source_new [7] (V4 0x01020304) 4662 True]]"
proof -
  let ?new = "files_new False" and ?h = "replicate 16 9 :: file_hash"
  have new: "tables_ok ascii_tables ?new" "slots_left 2 (sv_slab ?new)" "ki_subtokens (sv_index ?new) = False"
    using files_new_ok [of ascii_tables False] by (auto simp: slots_left_def files_new_def ki_new_def)
  have empty: "slab_of ?new = Map.empty" using slab_new_ok by (simp add: files_new_def)
  then have un: "unknown (slab_of ?new) ?h" by (simp add: unknown_def File_Spec.holds_def)
  obtain i s where "tables_ok ascii_tables s" "ki_subtokens (sv_index s) = ki_subtokens (sv_index ?new)"
      "slab_of s = (slab_of ?new)(i \<mapsto> record_new ?h 700 (lit ''HD'') [source_new [7] (V4 0x01020304) 4662 True])"
    by (rule publish_fresh [OF new(1,2) un refl, where sw = Map.empty and sz = 700 and name = "lit ''HD''" and now = 0])
      (rule that; assumption)
  then show ?thesis using new(3) empty by (intro exI [of _ i] exI [of _ s]) simp
qed

theorem udp_answers_like_tcp_witness:
  "\<exists>s i results st' st2. find_grouped (sv_index s) [[lit ''hd'']] = [i] \<and> slab_of s i \<noteq> None \<and>
     handle_search ascii_tables (\<lambda>_ _. False) (\<lambda>_. 0) (some_cfg\<lparr>sc_drop_unknown_words := False\<rparr>) s (Term (lit ''HD''))
       zero_stats = Some (results, st') \<and>
     udp_search_ranked ascii_tables (\<lambda>_ _. False) (\<lambda>_. 0) (some_cfg\<lparr>sc_drop_unknown_words := False\<rparr>) s
       (Term (lit ''HD'')) zero_stats = Some (take 10 results, st2)"
proof -
  let ?q = "Term (lit ''HD'')" and ?cfg = "some_cfg\<lparr>sc_drop_unknown_words := False\<rparr>"
  obtain i s where S: "tables_ok ascii_tables s" "ki_subtokens (sv_index s) = False"
      "slab_of s = [i \<mapsto> record_new (replicate 16 9) 700 (lit ''HD'') [source_new [7] (V4 0x01020304) 4662 True]]"
    using one_published by blast
  have ix: "index_ok (sv_index s)" using S(1) by (simp add: tables_ok_def index_matches_def)
  have "j \<in> posting (sv_index s) (token_hash (lit ''hd'')) \<longleftrightarrow> j = i" for j
    using S hd_keys by (auto simp: tables_ok_def index_matches_def indexes_def names_def record_new_def record_name_def)
  then have "grouped_answer (sv_index s) [[lit ''hd'']] = {i}" by (auto simp: grouped_answer_def)
  then have found: "find_grouped (sv_index s) [[lit ''hd'']] = [i]"
    using find_grouped_ids [OF ix, of "[[lit ''hd'']]"] by (simp add: ids_of_def)
  have tree: "search_tree_of ascii_tables ?cfg s ?q = (?q, [])" by (simp add: search_tree_of_def)
  have groups: "candidate_groups ascii_tables ?q = [[lit ''hd'']]"
    by (simp add: candidate_groups_def collect_candidate_terms_def expand_single hd_term)
  have kw: "has_keyword ascii_tables ?q"
    by (simp add: has_keyword_def collect_terms_def hd_tokens star_words_def) (simp add: lit_def)
  obtain results st' where r: "handle_search ascii_tables (\<lambda>_ _. False) (\<lambda>_. 0) ?cfg s ?q zero_stats = Some (results, st')"
    using hd_not_a_link by (simp add: handle_search_def search_by_hash_def tree Let_def)
  have "\<exists>st2. udp_search_ranked ascii_tables (\<lambda>_ _. False) (\<lambda>_. 0) ?cfg s ?q zero_stats = Some (take 10 results, st2)"
  proof (rule udp_answers_like_tcp [OF ix _ _ _ _ r])
    show "?q = fst (search_tree_of ascii_tables ?cfg s ?q)" by (simp add: tree)
    show "10 \<le> sc_max_search_results ?cfg" by (simp add: some_cfg_def word_le_nat_alt)
    show "length (find_grouped (sv_index s) (candidate_groups ascii_tables ?q)) \<le> unat (sc_search_rank_scan ?cfg)"
      by (simp add: groups found some_cfg_def)
  qed (use kw in simp_all)
  moreover have "slab_of s i \<noteq> None" using fun_cong [OF S(3), of i] by simp
  ultimately show ?thesis using r found by blast
qed

end
