(* ===== verification/Udp_Sources.thy ===== *)
theory Udp_Sources
  imports Get_Sources
begin

text \<open>
  Source requests over UDP (\<open>src/server/udp.rs\<close>): the batches of \<open>0x9A\<close> and \<open>0x94\<close>, and the datagram of
  sources for one file, with the tables of \<open>Get_Sources\<close>. The content filter is the argument
  \<open>hidden\<close>; what a handler sends is the list of its datagrams.
\<close>

section \<open>Requests\<close>

definition UDP_MAX_SOURCES :: nat where "UDP_MAX_SOURCES = 30"
definition UDP_SOURCE_SCAN :: nat where "UDP_SOURCE_SCAN = 200"
definition MAX_ED2K_FILE_SIZE :: u64 where "MAX_ED2K_FILE_SIZE = push_bit 30 256"
definition OP_GLOB_FOUNDSOURCES :: u8 where "OP_GLOB_FOUNDSOURCES = 0x9B"
definition MAX_BATCH_SINGLE :: nat where "MAX_BATCH_SINGLE = 32"
definition MAX_BATCH_MULTI :: nat where "MAX_BATCH_MULTI = 64"

fun chunks_exact_16 :: "nat \<Rightarrow> bytes \<Rightarrow> file_hash list" where
  "chunks_exact_16 0 b = []"
| "chunks_exact_16 (Suc n) b = (if length b < 16 then [] else take 16 b # chunks_exact_16 n (drop 16 b))"

definition getsources_single :: "bytes \<Rightarrow> file_hash list" where
  "getsources_single payload = chunks_exact_16 MAX_BATCH_SINGLE payload"

definition bad_size_realigns :: "bytes \<Rightarrow> nat \<Rightarrow> (file_hash \<Rightarrow> bool) \<Rightarrow> bool" where
  "bad_size_realigns payload k known \<longleftrightarrow> k + 16 \<le> length payload \<and> known (take 16 (drop k payload))"

text \<open>The walk of a \<open>0x94\<close> batch over what is left of the payload, with the counters it notes.\<close>

fun getsources_records :: "(file_hash \<Rightarrow> bool) \<Rightarrow> nat \<Rightarrow> bytes \<Rightarrow> (file_hash \<times> u64 option) list \<times> string list" where
  "getsources_records known 0 rest = ([], [])"
| "getsources_records known (Suc n) rest =
     (if length rest < 20 then ([], [])
      else let h = take 16 rest; size_lo = from_le (take 4 (drop 16 rest))
           in if size_lo \<noteq> 0
              then let (hs, notes) = getsources_records known n (drop 20 rest) in ((h, Some (of_nat size_lo)) # hs, notes)
              else if length rest < 28 then ([], [])
              else let sz = of_nat (from_le (take 8 (drop 20 rest))) :: u64;
                       (hs, notes) = getsources_records known n (drop 28 rest)
                   in if sz > MAX_ED2K_FILE_SIZE
                      then ((h, None) # hs, ''udp_getsources2_bad_size'' #
                             (if bad_size_realigns rest 20 known then [''udp_getsources2_bad_size_realigned''] else []) @ notes)
                      else ((h, Some sz) # hs, notes))"

definition getsources_multi :: "(file_hash \<Rightarrow> bool) \<Rightarrow> bytes \<Rightarrow> (file_hash \<times> u64 option) list \<times> string list" where
  "getsources_multi known payload =
     (case getsources_records known MAX_BATCH_MULTI payload of
        ([], notes) \<Rightarrow> (if length payload \<ge> 16 then [(take 16 payload, None)] else [], notes)
      | res \<Rightarrow> res)"

section \<open>The datagram of one file\<close>

definition udp_source :: "bool \<Rightarrow> session_tables \<Rightarrow> source \<Rightarrow> bytes option" where
  "udp_source v6_query t s =
     (let user = so_user_hash s;
          live = map_option snd (st_clients t user);
          v6 = (if v6_query
                then (case st_ipv6 t user of
                        Some a \<Rightarrow> if is_publishable_ipv6 a \<and> \<not> (case live of Some h \<Rightarrow> cl_high_id h | None \<Rightarrow> False) then Some a else None
                      | None \<Rightarrow> None)
                else None)
      in case v6 of
           Some a \<Rightarrow> Some (to_le 4 (unat IPV6_SOURCE_SENTINEL) @ to_le 2 (unat (so_port s)) @ rev (to_le 16 (unat a)))
         | None \<Rightarrow>
             map_option (\<lambda>i. to_le 4 (unat i) @ to_le 2 (unat (so_port s)))
               (case live of
                  Some h \<Rightarrow> if \<not> cl_high_id h then Some (cl_assigned_id h)
                    else if is_publishable_source_ip (source_ip s) then Some (so_ipv4 s) else None
                | None \<Rightarrow> if is_publishable_source_ip (source_ip s) then Some (so_ipv4 s) else None))"

definition chosen_sources :: "session_tables \<Rightarrow> source list \<Rightarrow> source list" where
  "chosen_sources t ss = take UDP_MAX_SOURCES (direct_first t (take UDP_SOURCE_SCAN ss))"

definition emit_udp_sources :: "bool \<Rightarrow> session_tables \<Rightarrow> source list \<Rightarrow> bytes list" where
  "emit_udp_sources v6_query t ss = List.map_filter (udp_source v6_query t) (chosen_sources t ss)"

definition found_sources_datagram :: "file_hash \<Rightarrow> bytes list \<Rightarrow> bytes" where
  "found_sources_datagram h entries = [0xE3, OP_GLOB_FOUNDSOURCES] @ h @ of_nat (length entries) # concat entries"

definition send_found_sources ::
  "(file_hash \<Rightarrow> rstr option \<Rightarrow> bool) \<Rightarrow> bool \<Rightarrow> bool \<Rightarrow> session_tables \<Rightarrow> server_files \<Rightarrow> file_hash \<Rightarrow> bytes option" where
  "send_found_sources hidden ipv6_publish_sources peer_is_ipv6 t s h =
     (case with_record_by_hash h (\<lambda>_ r. record_name r) (sv_slab s) of
        None \<Rightarrow> None
      | Some name \<Rightarrow>
          if hidden h name then Some (found_sources_datagram h [])
          else map_option (\<lambda>found. found_sources_datagram h
                   (emit_udp_sources (ipv6_publish_sources \<and> peer_is_ipv6) t (case found of Some ss \<Rightarrow> ss | None \<Rightarrow> [])))
                 (with_record_by_hash h (\<lambda>_ r. fr_sources r) (sv_slab s)))"

section \<open>The two handlers\<close>

record udp_query =
  uq_ip :: ip_addr
  uq_is_ipv6 :: bool
  uq_publish_v6 :: bool
  uq_secs :: u32

fun send_all :: "('a \<Rightarrow> bytes option) \<Rightarrow> 'a list \<Rightarrow> bytes list option" where
  "send_all f [] = Some []"
| "send_all f (x # xs) = (case f x of None \<Rightarrow> None | Some d \<Rightarrow> map_option (Cons d) (send_all f xs))"

definition handle_getsources_single ::
  "(file_hash \<Rightarrow> rstr option \<Rightarrow> bool) \<Rightarrow> udp_query \<Rightarrow> session_tables \<Rightarrow> server_files \<Rightarrow> bytes \<Rightarrow> bytes list option" where
  "handle_getsources_single hidden q t s payload =
     send_all (send_found_sources hidden (uq_publish_v6 q) (uq_is_ipv6 q) t s) (getsources_single payload)"

fun answer_records ::
  "(file_hash \<Rightarrow> rstr option \<Rightarrow> bool) \<Rightarrow> (bytes \<rightharpoonup> rstr) \<Rightarrow> udp_query \<Rightarrow> session_tables \<Rightarrow> (file_hash \<times> u64 option) list \<Rightarrow>
     server_files \<Rightarrow> (bytes list \<times> server_files) option" where
  "answer_records hidden sw q t [] s = Some ([], s)"
| "answer_records hidden sw q t ((h, sz) # rs) s =
     (case size_mismatch sw h sz True (uq_ip q) (uq_secs q) s of
        None \<Rightarrow> None
      | Some (True, s) \<Rightarrow> answer_records hidden sw q t rs s
      | Some (False, s) \<Rightarrow>
          (case send_found_sources hidden (uq_publish_v6 q) (uq_is_ipv6 q) t s h of
             None \<Rightarrow> None
           | Some d \<Rightarrow> map_option (\<lambda>(ds, s). (d # ds, s)) (answer_records hidden sw q t rs s)))"

definition handle_getsources_multi ::
  "(file_hash \<Rightarrow> rstr option \<Rightarrow> bool) \<Rightarrow> (bytes \<rightharpoonup> rstr) \<Rightarrow> udp_query \<Rightarrow> session_tables \<Rightarrow> server_files \<Rightarrow> bytes \<Rightarrow>
     (bytes list \<times> server_files) option" where
  "handle_getsources_multi hidden sw q t s payload =
     (let known = (\<lambda>h. case id_of h (sv_slab s) of Some (Some _) \<Rightarrow> True | _ \<Rightarrow> False);
          (rs, notes) = getsources_multi known payload
      in answer_records hidden sw q t rs (fold bump notes s))"

section \<open>A batch is read as it was written\<close>

text \<open>The client's side: a small file gives its size in 32 bits, a large one zero and then 64 bits.\<close>

definition write_sized :: "file_hash \<times> nat \<Rightarrow> bytes" where
  "write_sized x = (case x of (h, n) \<Rightarrow> h @ (if n < 2 ^ 32 then to_le 4 n else to_le 4 0 @ to_le 8 n))"

definition sized_ok :: "file_hash \<times> nat \<Rightarrow> bool" where
  "sized_ok x \<longleftrightarrow> (case x of (h, n) \<Rightarrow> length h = 16 \<and> 0 < n \<and> n \<le> 2 ^ 38)"

lemma records_write:
  assumes "list_all sized_ok xs" "length xs \<le> m" "length r < 20"
  shows "getsources_records known m (concat (map write_sized xs) @ r) = (map (\<lambda>(h, n). (h, Some (of_nat n))) xs, [])"
  using assms(1,2)
proof (induction xs arbitrary: m)
  case Nil
  then show ?case using assms(3) by (cases m) simp_all
next
  case (Cons x xs)
  obtain h n where x: "x = (h, n)" by (cases x)
  obtain k where m: "m = Suc k" "length xs \<le> k" using Cons.prems(2) by (cases m) auto
  have ok: "length h = 16" "0 < n" "n \<le> 2 ^ 38" using Cons.prems(1) by (simp_all add: x sized_ok_def)
  let ?rest = "concat (map write_sized xs) @ r"
  have IH: "getsources_records known k ?rest = (map (\<lambda>(h, n). (h, Some (of_nat n))) xs, [])"
    using Cons.IH [of k] Cons.prems(1) m(2) by simp
  show ?case
  proof (cases "n < 2 ^ 32")
    case True
    then have "from_le (to_le 4 n) = n" by (intro from_le_to_le) simp
    then show ?thesis using True ok IH by (simp add: x m(1) write_sized_def [of "(h, n)"] Let_def)
  next
    case False
    have n8: "from_le (to_le 8 n) = n" using ok(3) by (intro from_le_to_le) simp
    have "unat (of_nat n :: u64) = n" using ok(3) by (simp add: unat_of_nat)
    then have "\<not> (of_nat n :: u64) > MAX_ED2K_FILE_SIZE"
      using ok(3) by (simp add: word_less_nat_alt MAX_ED2K_FILE_SIZE_def push_bit_eq_mult)
    then show ?thesis using False ok IH n8 by (simp add: x m(1) write_sized_def [of "(h, n)"] Let_def from_le_to_le)
  qed
qed

text \<open>C38: a batch of source requests over UDP is read as it was written: up to 64 records, small files with
  a 32-bit size and large ones with a zero and a 64-bit size in any mixture, each with its own
  hash and size; a cut-off rest invents nothing, and no counter of bad sizes moves.\<close>

theorem udp_batch_round_trip:
  assumes "list_all sized_ok xs" "xs \<noteq> []" "length xs \<le> 64" "length r < 20"
  shows "getsources_multi known (concat (map write_sized xs) @ r) = (map (\<lambda>(h, n). (h, Some (of_nat n))) xs, [])"
  using records_write [OF assms(1) _ assms(4), of MAX_BATCH_MULTI known] assms(2,3)
  by (cases xs) (auto simp: getsources_multi_def MAX_BATCH_MULTI_def)

theorem udp_batch_round_trip_witness:
  "getsources_multi (\<lambda>_. True) (concat (map write_sized [(replicate 16 1, 700), (replicate 16 2, 5000000000), (replicate 16 3, 9)]) @ [7]) =
     ([(replicate 16 1, Some 700), (replicate 16 2, Some 5000000000), (replicate 16 3, Some 9)], [])"
  using udp_batch_round_trip [of "[(replicate 16 1, 700), (replicate 16 2, 5000000000), (replicate 16 3, 9)]" "[7]" "\<lambda>_. True"]
  by (simp add: sized_ok_def)

section \<open>What a reply says of a source\<close>

text \<open>A record of a reply: the low id of a connected LowID client, the address of any other source if it may
  be published, or, for a query over IPv6, the published IPv6 address of a client that is not HighID.\<close>

definition udp_record_of :: "bool \<Rightarrow> session_tables \<Rightarrow> source \<Rightarrow> bytes \<Rightarrow> bool" where
  "udp_record_of v6_query t s e \<longleftrightarrow>
     (\<exists>i. e = to_le 4 (unat i) @ to_le 2 (unat (so_port s)) \<and>
        (case st_clients t (so_user_hash s) of
           Some (_, h) \<Rightarrow> (if cl_high_id h then is_publishable_source_ip (source_ip s) \<and> i = so_ipv4 s else i = cl_assigned_id h)
         | None \<Rightarrow> is_publishable_source_ip (source_ip s) \<and> i = so_ipv4 s)) \<or>
     (v6_query \<and> (\<exists>a. st_ipv6 t (so_user_hash s) = Some a \<and> is_publishable_ipv6 a \<and>
        (case st_clients t (so_user_hash s) of Some (_, h) \<Rightarrow> \<not> cl_high_id h | None \<Rightarrow> True) \<and>
        e = to_le 4 (unat IPV6_SOURCE_SENTINEL) @ to_le 2 (unat (so_port s)) @ rev (to_le 16 (unat a))))"

lemma udp_source_record: "udp_source v6_query t s = Some e \<Longrightarrow> udp_record_of v6_query t s e"
  by (auto simp: udp_source_def udp_record_of_def Let_def split: option.splits if_splits)

lemma udp_source_tcp: "udp_source False t s = map_option fst (found_source False False reaches t s)"
  by (auto simp: udp_source_def found_source_def Let_def split: option.splits)

lemma chosen_sources_subset: "set (chosen_sources t ss) \<subseteq> set ss"
  by (auto simp: chosen_sources_def direct_first_def Let_def dest!: in_set_takeD)

lemma emit_udp_bound: "length (emit_udp_sources v6 t ss) \<le> 30"
proof -
  have "length (List.map_filter f xs) \<le> length xs" for f :: "source \<Rightarrow> bytes option" and xs
    by (induction xs) (auto simp: List.map_filter_simps split: option.split)
  then have "length (emit_udp_sources v6 t ss) \<le> length (chosen_sources t ss)" by (simp add: emit_udp_sources_def)
  then show ?thesis by (simp add: chosen_sources_def UDP_MAX_SOURCES_def)
qed

lemma by_hash_fun: "with_record_by_hash h f sl = map_option (map_option (\<lambda>(i, r). f i r)) (with_record_by_hash h Pair sl)"
  by (auto simp: with_record_by_hash_def Let_def split: option.split)

text \<open>C29: what a UDP reply reveals: at most thirty records, each of a source of the file itself, and
  none when the filter withholds the file. A connected LowID client is named by its low id,
  never by its address; any other source only by an address that may be published; an IPv6
  address only to a query over IPv6. Over IPv4 a record is the one the TCP reply has for the
  same source.\<close>

theorem udp_reply_reveals:
  assumes "send_found_sources hidden publish peer6 t s h = Some d"
  shows "\<exists>es. d = found_sources_datagram h es \<and> length es \<le> 30 \<and>
    (\<forall>e\<in>set es. \<exists>i r q. with_record_by_hash h Pair (sv_slab s) = Some (Some (i, r)) \<and> \<not> hidden h (Some (record_name r)) \<and>
       q \<in> set (fr_sources r) \<and> udp_record_of (publish \<and> peer6) t q e \<and>
       (\<not> (publish \<and> peer6) \<longrightarrow> (\<exists>owner. found_source False False True t q = Some (e, owner))))"
proof -
  obtain found where f: "with_record_by_hash h Pair (sv_slab s) = Some found"
    using assms by (cases "with_record_by_hash h Pair (sv_slab s)")
      (simp_all add: send_found_sources_def by_hash_fun [of h "\<lambda>_ r. record_name r"])
  show ?thesis
  proof (cases "hidden h (map_option (\<lambda>(i, r). record_name r) found)")
    case True
    then have "d = found_sources_datagram h []"
      using assms f by (simp add: send_found_sources_def by_hash_fun [of h "\<lambda>_ r. record_name r"])
    then show ?thesis by (intro exI [of _ "[]"]) simp
  next
    case False
    let ?ss = "case map_option (\<lambda>(i, r). fr_sources r) found of Some ss \<Rightarrow> ss | None \<Rightarrow> []"
    let ?es = "emit_udp_sources (publish \<and> peer6) t ?ss"
    have d: "d = found_sources_datagram h ?es"
      using assms f False
      by (simp add: send_found_sources_def by_hash_fun [of h "\<lambda>_ r. record_name r"] by_hash_fun [of h "\<lambda>_ r. fr_sources r"])
    have one: "\<exists>i r q. with_record_by_hash h Pair (sv_slab s) = Some (Some (i, r)) \<and> \<not> hidden h (Some (record_name r)) \<and> q \<in> set (fr_sources r) \<and>
        udp_record_of (publish \<and> peer6) t q e \<and>
        (\<not> (publish \<and> peer6) \<longrightarrow> (\<exists>owner. found_source False False True t q = Some (e, owner)))" if e: "e \<in> set ?es" for e
    proof -
      obtain q where q: "q \<in> set (chosen_sources t ?ss)" "udp_source (publish \<and> peer6) t q = Some e"
        using e by (auto simp: emit_udp_sources_def List.map_filter_def)
      then have "q \<in> set ?ss" using chosen_sources_subset by blast
      then obtain i r where r: "found = Some (i, r)" "q \<in> set (fr_sources r)" by (cases found) auto
      have "\<not> hidden h (Some (record_name r))" using False r(1) by simp
      moreover have "\<not> (publish \<and> peer6) \<longrightarrow> (\<exists>owner. found_source False False True t q = Some (e, owner))"
        using q(2) udp_source_tcp [of t q True] by auto
      ultimately show ?thesis using r(2) f [unfolded r(1)] udp_source_record [OF q(2)] by blast
    qed
    show ?thesis by (intro exI [of _ ?es] conjI ballI) (use d emit_udp_bound one in simp_all)
  qed
qed

text \<open>A connected LowID client at 1.2.3.4 is named by its low id 5.\<close>

lemma udp_reply_reveals_witness:
  "\<exists>s d es. send_found_sources (\<lambda>_ _. False) True False (tables_empty\<lparr>st_clients := [replicate 16 7 \<mapsto> (0, sample_client 5 False)]\<rparr>)
       s (replicate 16 9) = Some d \<and>
     d = found_sources_datagram (replicate 16 9) [[5, 0, 0, 0, 0x36, 0x12]] \<and>
     d = found_sources_datagram (replicate 16 9) es \<and> length es \<le> 30"
proof -
  let ?h = "replicate 16 9 :: bytes" and ?src = "source_new (replicate 16 7) (V4 0x01020304) 4662 True"
  let ?t = "tables_empty\<lparr>st_clients := [replicate 16 7 \<mapsto> (0, sample_client 5 False)]\<rparr>"
  have "length (so_user_hash ?src) = 16" by (simp add: source_new_def)
  from one_file [OF this, of ?h 700 "[97]"] obtain s :: server_files and i where F: "slab_ok (sv_slab s)"
      "File_Spec.holds (slab_map (sv_slab s)) ?h i (record_new ?h 700 [97] [?src])" by blast
  have src: "so_user_hash ?src = replicate 16 7" "so_port ?src = 4662" by (simp_all add: source_new_def)
  have c: "cl_high_id (sample_client 5 False) = False" "cl_assigned_id (sample_client 5 False) = 5"
    by (simp_all add: sample_client_def)
  have bytes: "to_le 4 5 = [5, 0, 0, 0]" "to_le 2 4662 = [0x36, 0x12]" by code_simp+
  have "st_clients ?t (replicate 16 7) = Some (0, sample_client 5 False)" by simp
  then have "chosen_sources ?t [?src] = [?src]" and "udp_source False ?t ?src = Some [5, 0, 0, 0, 0x36, 0x12]"
    using bytes by (simp_all add: chosen_sources_def direct_first_def UDP_MAX_SOURCES_def UDP_SOURCE_SCAN_def udp_source_def src c Let_def)
  then have "emit_udp_sources False ?t [?src] = [[5, 0, 0, 0, 0x36, 0x12]]"
    by (simp add: emit_udp_sources_def List.map_filter_simps)
  then have d: "send_found_sources (\<lambda>_ _. False) True False ?t s ?h = Some (found_sources_datagram ?h [[5, 0, 0, 0, 0x36, 0x12]])"
    by (simp add: send_found_sources_def found_record [OF F] record_new_def)
  show ?thesis using udp_reply_reveals [OF d] d by blast
qed

end
