(* ===== verification/Spec2Isabelle.thy ===== *)
theory Spec2Isabelle
  imports Prelude Posting_Codec Cold_Store Rust_Str Tokenizer Keyword_Index Index_Compaction
    Media Search_Tree Search_Filter Search_Candidates
    Admission_Config Rate_Limit Admission Ip_Filter Tags Frame File_Slab File_Store File_Spec
    Server_Files Server_Clients Session_Life Natt_Keepalive Ipv6_Probe Obfuscation Crypt_Stream
    Datagram_Obfuscation Smart_Sources Get_Sources
    Latin_Compose Term_Match Content_Filter Publishing Search_Handler Search_Pages Offer_Pacing
    Udp_Search Udp_Sources
begin

text \<open>
  Verification of an eD2k server written in Rust (\<open>src/\<close> of the repository).

  The program. Clients connect over TCP, log in, publish file lists and search; other requests
  arrive over UDP. Frames and tags (\<open>proto/frame.rs\<close>, \<open>proto/tags.rs\<close>) carry the requests; admission
  (\<open>admission.rs\<close>) and the IP filter (\<open>filter/ipfilter.rs\<close>) decide what is let in; published
  names are tokenized into an inverted index of postings in a hot and a compressed cold
  tier (\<open>state/keyword_index.rs\<close>, \<open>state/posting_codec.rs\<close>, \<open>state/cold_store.rs\<close>); a search
  is parsed into a tree, rewritten, answered from the index and filtered
  (\<open>proto/search.rs\<close>). The development follows these parts.

  Theories and the code they model.

  \<^item> \<open>Prelude\<close>: machine integers as words, little-endian fields, saturating arithmetic, sorted
    vectors and the locale \<open>sorted_set\<close> with its interpretation \<open>sv\<close>.
  \<^item> \<open>Rust_Str\<close>: the part of \<open>str\<close> the code uses, with UTF-8 encoding and the lossy decoder. The
    Unicode tables are an argument (record \<open>unicode\<close>); \<open>unicode_ok\<close> states what is documented
    of them, \<open>ascii_tables\<close> satisfies it.
  \<^item> \<open>Posting_Codec\<close>, \<open>Cold_Store\<close>: the delta codec of postings with its cursors (locales
    \<open>item_stream\<close>, \<open>seek_stream\<close>, interpretation \<open>pc\<close>) and the key/blob store (locale
    \<open>blob_map\<close>, interpretation \<open>cold\<close>). Encoding round trips, damage is refused, seeking is
    membership, a rebuild looks up what was put in.
  \<^item> \<open>Tokenizer\<close>, \<open>Keyword_Index\<close>, \<open>Index_Compaction\<close>: tokens of names and query terms, the two-tier
    index, its grouped search, and the compaction of the hot tier as a step relation that
    interleaves with edits. Edits have the effect of set operations on the abstract posting,
    grouped search is the intersection of unions, compaction is invisible and drains.
  \<^item> \<open>Media\<close>: packed media fields and the codec table.
  \<^item> \<open>Search_Tree\<close>, \<open>Search_Filter\<close>, \<open>Search_Candidates\<close>: the request tree and its parser, the
    three-valued post-filter with prepared and codec-resolved trees, and the rewriting that
    drops unknown words and derives the candidate groups. What is parsed is what was
    printed; filtering is the truth of the constraints that can be judged; candidates
    exclude no match on the trees named in the theorem, and the exceptions are stated.
  \<^item> \<open>Admission_Config\<close>, \<open>Rate_Limit\<close>, \<open>Admission\<close>: the admission section of the configuration with
    its validation; source keys, the token bucket, the UDP budgets (locale \<open>credit_account\<close>,
    interpretation \<open>tb\<close>, its lemmas hold for any interleaving of takes and refunds); permit
    pools, logged-in slots, pending logins, retries, search permits and readiness. Where a
    guard's life is more than one atomic access, a step relation has one step per access.
    Rates are bounded server-wide and per source, shares and slots are never lost or
    exceeded under any interleaving, refused credit recovers, sweeps are invisible.
  \<^item> \<open>Ip_Filter\<close>: both line formats, merging, the counting lookup and the hit report.
  \<^item> \<open>Tags\<close>, \<open>Frame\<close>: readers that return what they leave of the buffer, writers, the frame codec
    and the read loop. Round trips, typing and size bounds for any input bytes,
    independence of how the stream is cut into reads.
  \<^item> \<open>File_Slab\<close>, \<open>File_Store\<close>, \<open>File_Spec\<close>: the slab of file records (\<open>state/file_id.rs\<close>). Chunked
    vectors (locale \<open>growable_array\<close>, interpretation \<open>cv\<close>), the intrusive bucket chains of a
    shard with their invariant (\<open>linked\<close>, \<open>slab_shard_ok\<close>), then every operation of the store and
    the map of files it refines (\<open>files_step\<close>). Chain walks always end, ids in quarantine
    never name another file, scans visit each file once.
  \<^item> \<open>Server_Files\<close>: the file tables of the server state (\<open>state/mod.rs\<close>) over the slab and the
    keyword index: publishing, leaving, purging, the orphan sweep, size and name divergence
    (locale \<open>word_index\<close>, interpretation \<open>kw\<close>). The tables describe the same files in every
    state reached by runs that fit (no compaction fills a shard of the compressed tier).
  \<^item> \<open>Server_Clients\<close>, \<open>Session_Life\<close>: client handles, low ids, the source a search result names;
    the registration of a login and the end of a session, with one step per access to a table,
    so that sessions interleave. The cached count of LowID clients is exact, a reconnect keeps
    its session; two races and a leak of the code are shown by runs.
  \<^item> \<open>Natt_Keepalive\<close>, \<open>Ipv6_Probe\<close>: keepalive datagrams with their proofs, and the dial-back of
    published IPv6 addresses, over the session tables. What is published is proven as long as a
    verdict is not interleaved with a withdrawal; the limit of dials is not one of the session.
  \<^item> \<open>Obfuscation\<close>, \<open>Crypt_Stream\<close>, \<open>Datagram_Obfuscation\<close>: RC4 and the key exchange, the encrypted
    stream under any pattern of partial writes, and obfuscated datagrams with the search for
    their key. MD5, HMAC's digest and big integers are arguments (\<open>md5_ok\<close>, \<open>bignum_ok\<close>).
  \<^item> \<open>Smart_Sources\<close>, \<open>Get_Sources\<close>: the cache of encoded source replies against a map of the last
    replies, and the whole TCP source request: a reply tells a requester of sources that other users
    were at one recent moment, in every history of requests, changes and sweeps.
  \<^item> \<open>Latin_Compose\<close>, \<open>Term_Match\<close>, \<open>Content_Filter\<close>: recomposition of Latin letters
    (\<open>filter/nfc.rs\<close>), the matching of term lists with their prefilter (\<open>filter/jargon.rs\<close>), and the
    layers of the content filter with its verdict cache (\<open>filter/mod.rs\<close>). A check is a tree of
    the lists it loads, so that replacements of lists interleave with it. The first term that
    occurs in the name is the one that fires, a cached verdict is current, mojibake and hash
    files read back. The scanner of layer 2 (\<open>filter/age_pattern.rs\<close>) is an argument.
  \<^item> \<open>Publishing\<close>: the parser and the handler of offered files (\<open>server/offerfiles.rs\<close>) over the file
    tables, the filter and the tables of blocked publishers. Nothing the filter blocks is
    indexed, the soft limit holds, a packet is read back as it was written.
  \<^item> \<open>Search_Handler\<close>, \<open>Search_Pages\<close>: a TCP search from the request to its pages
    (\<open>server/search.rs\<close>, \<open>server/connection.rs\<close>): the bounded heap returns the best of what was
    examined, and the pages deliver every result once and in order.
  \<^item> \<open>Offer_Pacing\<close>: the policy a client asks for at login and the pacing of its offers
    (\<open>server/offer_pacing.rs\<close>), with the whole \<open>OP_OFFERFILES\<close> request. A client that keeps to what
    it was told has every record indexed, and a bucket keeps its rate over any window.
  \<^item> \<open>Udp_Search\<close>, \<open>Udp_Sources\<close>: searches and source requests over UDP (\<open>server/udp.rs\<close>), against their
    TCP counterparts: a UDP search answers with the first ten of the TCP answer, a source reply
    reveals over IPv4 no more than the TCP reply does, option tags and batches are read as written (but
    for 16-bit options, which the code measures wrongly: \<open>u16_option_breaks_the_search\<close>).

  Conventions. A w-bit integer is a word and wraps as a release build does; \<open>usize\<close> of a
  length is a natural number. An error is the left of a sum or \<open>None\<close>. Time is an argument.
  A hash map is a partial map, or an association list where it is iterated. Locks make an
  operation atomic; atomics are single steps. Operations that take several locks in turn are cut at
  them where a theory says so, and are otherwise taken at once: the install of a compaction (whose
  locks an edit can enter between two keywords) and the refresh of a source (a look-up, then
  the update) are. Logging and memory reports are left out.

  Bounds. The parser's depth limit is the code's own (\<open>MAX_DEPTH\<close>); loops are recursive
  functions with a termination proof, so no fuel is used except where the code counts. Only the
  chain walks of the slab, which nothing but the invariant keeps finite, are partial functions
  (\<open>None\<close>: a panic or no end), and the invariant is shown to make them return. A run of slab
  operations is bounded by the \<open>2 ^ 26\<close> slots an id can name in a shard.

  Not modelled, and why: the socket and task plumbing (the rest of \<open>main.rs\<close>,
  \<open>server/connection.rs\<close>, \<open>server/udp.rs\<close>, \<open>server/login.rs\<close>) and the admin panel (\<open>web.rs\<close>,
  \<open>admin_auth.rs\<close>, \<open>admin_tls.rs\<close>, \<open>updates.rs\<close>), which are input/output around these
  parts; the scanner of layer 2 and the parser of its file (\<open>filter/age_pattern.rs\<close>,
  \<open>filter/layer2_terms.rs\<close>), which are pattern tables; the database reader and country lookup
  (\<open>filter/mmdb.rs\<close>, \<open>filter/geoip.rs\<close>) and the SQLite history (\<open>name_db.rs\<close>), which only feed
  reports; server lists and gossip, the
  statistics of bot detection, and the coordination of hole punching.
\<close>

section \<open>Search and index together\<close>

text \<open>C8: A file whose indexed words satisfy a groupable query is among the candidates the index returns
  for it: tree, tokenizer, candidate groups and two-tier lookup agree end to end.\<close>

theorem search_finds_matching_file:
  assumes "index_ok ix" and "groupable u t"
    and "or_true (tok_eval u {tok. i \<in> posting ix (token_hash tok)} v t)"
    and "candidate_groups u t \<noteq> []"
  shows "i \<in> set (find_grouped ix (candidate_groups u t))"
proof -
  have "\<forall>g\<in>set (candidate_groups u t). \<exists>tok\<in>set g. i \<in> posting ix (token_hash tok)"
    using groups_found [OF assms(2,3)] by (simp add: candidate_groups_def collect_candidate_terms_def)
  then show ?thesis
    using find_grouped_members [OF assms(1,4) candidate_groups_nonempty] by blast
qed

theorem search_finds_matching_file_witness:
  "FileId 5 \<in> set (find_grouped (add_file ascii_tables (FileId 5) (lit ''HD'') (ki_new False))
     (candidate_groups ascii_tables (Term (lit ''HD''))))"
proof (rule search_finds_matching_file)
  let ?ix = "add_file ascii_tables (FileId 5) (lit ''HD'') (ki_new False)"
  note ap = add_file_posting [where ix = "ki_new False" and i = "FileId 5" and u = ascii_tables and
      name = "lit ''HD''", OF index_ok_new valid_id_5]
  show "index_ok ?ix" by (rule ap(1))
  show "groupable ascii_tables (Term (lit ''HD''))" by simp
  show "or_true (tok_eval ascii_tables {tok. FileId 5 \<in> posting ?ix (token_hash tok)} (\<lambda>_. None) (Term (lit ''HD'')))"
    using ap(2) hd_keys by (simp add: or_true_def hd_term)
  show "candidate_groups ascii_tables (Term (lit ''HD'')) \<noteq> []"
    by (simp add: candidate_groups_def collect_candidate_terms_def expand_single hd_term)
qed

text \<open>C12: A published ASCII name is found by each of its tokens, whatever was indexed before, and is no
  longer found once it is removed.\<close>

theorem published_file_found_until_removed:
  assumes "unicode_ok u" and "index_ok ix" and "valid_id i" and "is_ascii name" and "tok \<in> set (tokenize u name)"
  shows "i \<in> set (find_grouped (add_file u i name ix) [tokenize_search_term u tok]) \<and>
    i \<notin> set (find_grouped (remove_file u i name (add_file u i name ix)) [tokenize_search_term u tok])"
proof -
  have q: "tokenize_search_term u tok = [tok]" by (rule search_term_token [OF assms(1,4,5)])
  have key: "token_hash tok \<in> name_keys u b name" for b
    using assms(5) by (auto simp: name_keys_def index_tokens_into_def tokenize_def)
  define ix1 where "ix1 = add_file u i name ix"
  have ok1: "index_ok ix1" and in1: "i \<in> posting ix1 (token_hash tok)"
    using add_file_posting [OF assms(2,3), of u name] key by (simp_all add: ix1_def)
  have ok2: "index_ok (remove_file u i name ix1)" and out2: "i \<notin> posting (remove_file u i name ix1) (token_hash tok)"
    using remove_file_posting [OF ok1 assms(3), of u name] key by simp_all
  show ?thesis
    using find_grouped_members [OF ok1, of "[[tok]]" i] find_grouped_members [OF ok2, of "[[tok]]" i] in1 out2
    by (simp add: q ix1_def [symmetric])
qed

theorem published_file_found_until_removed_witness:
  "FileId 5 \<in> set (find_grouped (add_file ascii_tables (FileId 5) (lit ''HD'') (ki_new False))
     [tokenize_search_term ascii_tables (lit ''hd'')])"
proof -
  have "is_ascii (lit ''HD'')" "lit ''hd'' \<in> set (tokenize ascii_tables (lit ''HD''))"
    by (simp_all add: tokenize_eval)
  then show ?thesis
    using published_file_found_until_removed [OF ascii_tables_ok index_ok_new valid_id_5] by blast
qed

end
